(* ===== verification/Redis_Prelude.thy ===== *)
theory Redis_Prelude
  imports Main "HOL-Library.Word"
begin

unbundle bit_operations_syntax

text \<open>
  What the component theories share: the names of the machine integer types of the target
  (LP64, little endian: \<open>int\<close> is 32 bits wide, \<open>long\<close> and \<open>size_t\<close> 64), the collections
  of rewrite rules the component proofs use, and generic facts on words and lists.
\<close>

section \<open>Types\<close>

type_synonym u8 = "8 word"
type_synonym u16 = "16 word"
type_synonym u32 = "32 word"
type_synonym u64 = "64 word"
type_synonym bytes = "u8 list"

section \<open>Words\<close>

lemma unat_u8_less: "unat (x :: u8) < 256"
  using unsigned_less [of x] by simp

lemma unat_ucast_u8 [simp]:
  "unat (ucast (x :: u8) :: u16) = unat x" "unat (ucast x :: u32) = unat x" "unat (ucast x :: u64) = unat x"
  using unat_u8_less [of x] by (simp_all add: unsigned_ucast_eq take_bit_nat_eq_self)

lemma ff_mask8: "(0xFF :: 'a::len word) = mask 8"
  by (simp add: mask_eq_exp_minus_1)

section \<open>Maps that are linear over exclusive or\<close>

text \<open>
  A map between words that commutes with exclusive or is determined by its values on the
  powers of two. \<open>xor_span\<close> lists all combinations of a basis in the order of the index's
  bits, so a table of a linear map is the span of eight of its entries.
\<close>

fun xor_span :: "'a::len word list \<Rightarrow> 'a word list" where
  "xor_span [] = [0]"
| "xor_span (t # ts) = concat (map (\<lambda>x. [x, x XOR t]) (xor_span ts))"

lemma length_xor_span [simp]: "length (xor_span ts) = 2 ^ length ts"
  by (induction ts) (auto simp: length_concat comp_def sum_list_triv)

lemma nth_concat_pairs:
  "i < 2 * length xs \<Longrightarrow>
     concat (map (\<lambda>x. [x, f x]) xs) ! i = (if even i then xs ! (i div 2) else f (xs ! (i div 2)))"
proof (induction xs arbitrary: i)
  case (Cons a xs)
  consider "i = 0" | "i = 1" | j where "i = Suc (Suc j)"
    by (metis One_nat_def not0_implies_Suc)
  then show ?case using Cons by cases auto
qed simp

definition xor_linear :: "('a::len word \<Rightarrow> 'b::len word) \<Rightarrow> bool" where
  "xor_linear f \<longleftrightarrow> (\<forall>a b. f (a XOR b) = f a XOR f b)"

lemma xor_linearD: "xor_linear f \<Longrightarrow> f (a XOR b) = f a XOR f b"
  by (simp add: xor_linear_def)

lemma xor_linear_0: "xor_linear f \<Longrightarrow> f 0 = 0"
  using xor_linearD [of f 0 0] by simp

lemma of_nat_odd_split:
  assumes "odd i"
  shows "(of_nat i :: 'a::len word) = push_bit 1 (of_nat (i div 2)) XOR 1"
proof -
  from assms obtain j where i: "i = 2 * j + 1" by (auto elim: oddE)
  have "(2 * of_nat j :: 'a word) AND 1 = 0"
    by (auto intro!: bit_word_eqI simp: bit_simps bit_1_iff bit_double_iff)
  then have "(2 * of_nat j :: 'a word) XOR 1 = 2 * of_nat j + 1"
    by (simp add: disjunctive_xor_eq_or disjunctive_add_eq_or)
  with i show ?thesis by (simp add: push_bit_eq_mult mult.commute add.commute)
qed

lemma of_nat_even_split:
  "even i \<Longrightarrow> (of_nat i :: 'a::len word) = push_bit 1 (of_nat (i div 2))"
  by (auto elim!: evenE simp: push_bit_eq_mult mult.commute)

lemma xor_span_nth:
  assumes "xor_linear f"
  shows "i < 2 ^ n \<Longrightarrow>
    xor_span (map (\<lambda>k. f (push_bit k 1)) [m..<m + n]) ! i = f (push_bit m (of_nat i))"
proof (induction n arbitrary: m i)
  case 0
  then show ?case by (simp add: xor_linear_0 [OF assms])
next
  case (Suc n)
  have upt: "[m..<m + Suc n] = m # [Suc m..<Suc m + n]"
    using upt_conv_Cons [of m "m + Suc n"] by simp
  have "i div 2 < 2 ^ n" using Suc.prems by simp
  from Suc.IH [OF this, of "Suc m"]
  have IH: "xor_span (map (\<lambda>k. f (push_bit k 1)) [Suc m..<Suc m + n]) ! (i div 2)
      = f (push_bit (Suc m) (of_nat (i div 2)))" .
  have lt: "i < 2 * length (xor_span (map (\<lambda>k. f (push_bit k 1)) [Suc m..<Suc m + n]))"
    using Suc.prems by (simp del: upt_Suc)
  show ?case
  proof (cases "even i")
    case True
    then show ?thesis
      using nth_concat_pairs [OF lt] IH of_nat_even_split [OF True, where 'a = 'a]
      by (simp only: upt list.map xor_span.simps) (simp add: push_bit_push_bit)
  next
    case False
    then show ?thesis
      using nth_concat_pairs [OF lt] IH of_nat_odd_split [OF False, where 'a = 'a]
      by (simp only: upt list.map xor_span.simps)
        (simp add: push_bit_push_bit push_bit_xor xor_linearD [OF assms])
  qed
qed

end
