(* ===== verification/Siphash.thy ===== *)
theory Siphash
  imports Redis_Prelude
begin

unbundle bit_operations_syntax

section \<open>The hash function of the dictionaries: \<open>siphash.c\<close>\<close>

text \<open>
  SipHash with one compression and two finalisation rounds, and the variant that ignores
  the case of ASCII letters. A pointer that walks over the input is the list of the bytes
  from there on; the target is little endian, so the word loads agree with the portable
  shift-and-or form written here.
\<close>

definition siptlw :: "u8 \<Rightarrow> u8" where
  "siptlw c = (if 0x41 \<le> c \<and> c \<le> 0x5A then c + (0x61 - 0x41) else c)"

definition ROTL :: "u64 \<Rightarrow> nat \<Rightarrow> u64" where
  "ROTL x b = push_bit b x OR drop_bit (64 - b) x"

definition U8TO64_LE :: "bytes \<Rightarrow> u64" where
  "U8TO64_LE p =
     ucast (p ! 0) OR push_bit 8 (ucast (p ! 1)) OR
     push_bit 16 (ucast (p ! 2)) OR push_bit 24 (ucast (p ! 3)) OR
     push_bit 32 (ucast (p ! 4)) OR push_bit 40 (ucast (p ! 5)) OR
     push_bit 48 (ucast (p ! 6)) OR push_bit 56 (ucast (p ! 7))"

definition U8TO64_LE_NOCASE :: "bytes \<Rightarrow> u64" where
  "U8TO64_LE_NOCASE p =
     ucast (siptlw (p ! 0)) OR push_bit 8 (ucast (siptlw (p ! 1))) OR
     push_bit 16 (ucast (siptlw (p ! 2))) OR push_bit 24 (ucast (siptlw (p ! 3))) OR
     push_bit 32 (ucast (siptlw (p ! 4))) OR push_bit 40 (ucast (siptlw (p ! 5))) OR
     push_bit 48 (ucast (siptlw (p ! 6))) OR push_bit 56 (ucast (siptlw (p ! 7)))"

record sipstate =
  v0 :: u64
  v1 :: u64
  v2 :: u64
  v3 :: u64

definition SIPROUND :: "sipstate \<Rightarrow> sipstate" where
  "SIPROUND s =
     (let a0 = v0 s + v1 s; a1 = ROTL (v1 s) 13; a1 = a1 XOR a0; a0 = ROTL a0 32;
          a2 = v2 s + v3 s; a3 = ROTL (v3 s) 16; a3 = a3 XOR a2;
          a0 = a0 + a3; a3 = ROTL a3 21; a3 = a3 XOR a0;
          a2 = a2 + a1; a1 = ROTL a1 17; a1 = a1 XOR a2; a2 = ROTL a2 32
      in \<lparr>v0 = a0, v1 = a1, v2 = a2, v3 = a3\<rparr>)"

text \<open>One pass of the block loop with the word \<open>m\<close>.\<close>

definition sip_block :: "u64 \<Rightarrow> sipstate \<Rightarrow> sipstate" where
  "sip_block m s =
     (let s = SIPROUND (s\<lparr>v3 := v3 s XOR m\<rparr>) in s\<lparr>v0 := v0 s XOR m\<rparr>)"

text \<open>The state after the key is mixed in.\<close>

definition sip_init :: "bytes \<Rightarrow> sipstate" where
  "sip_init k =
     (let k0 = U8TO64_LE k; k1 = U8TO64_LE (drop 8 k) in
      \<lparr>v0 = 0x736f6d6570736575 XOR k0, v1 = 0x646f72616e646f6d XOR k1,
       v2 = 0x6c7967656e657261 XOR k0, v3 = 0x7465646279746573 XOR k1\<rparr>)"

text \<open>The end of both functions, from \<open>v3 ^= b\<close> on.\<close>

definition sip_final :: "u64 \<Rightarrow> sipstate \<Rightarrow> u64" where
  "sip_final b s =
     (let s = sip_block b s; s = s\<lparr>v2 := v2 s XOR 0xff\<rparr>; s = SIPROUND (SIPROUND s)
      in v0 s XOR v1 s XOR v2 s XOR v3 s)"

text \<open>\<open>for (; in != end; in += 8)\<close>: the number of whole words left is the recursion.\<close>

fun sip_blocks :: "nat \<Rightarrow> bytes \<Rightarrow> sipstate \<Rightarrow> bytes \<times> sipstate" where
  "sip_blocks 0 inp s = (inp, s)"
| "sip_blocks (Suc n) inp s = sip_blocks n (drop 8 inp) (sip_block (U8TO64_LE inp) s)"

text \<open>\<open>switch (left)\<close> with its fall-through: the bytes \<open>left - 1, ..., 0\<close> in turn.\<close>

fun sip_tail :: "nat \<Rightarrow> bytes \<Rightarrow> u64 \<Rightarrow> u64" where
  "sip_tail 0 inp b = b"
| "sip_tail (Suc left) inp b = sip_tail left inp (b OR push_bit (8 * left) (ucast (inp ! left)))"

definition siphash :: "bytes \<Rightarrow> bytes \<Rightarrow> u64" where
  "siphash inp k =
     (let inlen = length inp; left = inlen mod 8; b = push_bit 56 (of_nat inlen :: u64);
          (rest, s) = sip_blocks (inlen div 8) inp (sip_init k)
      in sip_final (sip_tail left rest b) s)"

fun sip_blocks_nocase :: "nat \<Rightarrow> bytes \<Rightarrow> sipstate \<Rightarrow> bytes \<times> sipstate" where
  "sip_blocks_nocase 0 inp s = (inp, s)"
| "sip_blocks_nocase (Suc n) inp s =
     sip_blocks_nocase n (drop 8 inp) (sip_block (U8TO64_LE_NOCASE inp) s)"

fun sip_tail_nocase :: "nat \<Rightarrow> bytes \<Rightarrow> u64 \<Rightarrow> u64" where
  "sip_tail_nocase 0 inp b = b"
| "sip_tail_nocase (Suc left) inp b =
     sip_tail_nocase left inp (b OR push_bit (8 * left) (ucast (siptlw (inp ! left))))"

definition siphash_nocase :: "bytes \<Rightarrow> bytes \<Rightarrow> u64" where
  "siphash_nocase inp k =
     (let inlen = length inp; left = inlen mod 8; b = push_bit 56 (of_nat inlen :: u64);
          (rest, s) = sip_blocks_nocase (inlen div 8) inp (sip_init k)
      in sip_final (sip_tail_nocase left rest b) s)"

subsection \<open>The case insensitive hash\<close>

lemma U8TO64_LE_NOCASE_map: "8 \<le> length p \<Longrightarrow> U8TO64_LE_NOCASE p = U8TO64_LE (map siptlw p)"
proof -
  assume "8 \<le> length p"
  then have "map siptlw p ! i = siptlw (p ! i)" if "i < 8" for i using that by simp
  then show ?thesis by (simp add: U8TO64_LE_NOCASE_def U8TO64_LE_def del: nth_map)
qed

lemma sip_blocks_nocase_map:
  "8 * n \<le> length inp \<Longrightarrow>
     sip_blocks n (map siptlw inp) s = apfst (map siptlw) (sip_blocks_nocase n inp s)"
  by (induction n arbitrary: inp s) (simp_all add: U8TO64_LE_NOCASE_map drop_map)

lemma sip_tail_nocase_map:
  "left \<le> length inp \<Longrightarrow> sip_tail left (map siptlw inp) b = sip_tail_nocase left inp b"
  by (induction left arbitrary: b) simp_all

lemma sip_blocks_rest: "fst (sip_blocks_nocase n inp s) = drop (8 * n) inp"
  by (induction n arbitrary: inp s) (simp_all add: add.commute)

lemma siptlw_idem [simp]: "siptlw (siptlw c) = siptlw c"
proof (cases "0x41 \<le> c \<and> c \<le> 0x5A")
  case True
  then have "unat (c + 0x20) = unat c + 32"
    by (simp add: word_le_nat_alt unat_word_ariths)
  with True show ?thesis by (simp add: siptlw_def word_le_nat_alt)
next
  case False
  then show ?thesis by (auto simp: siptlw_def)
qed

text \<open>
  \<open>siphash_nocase\<close> is \<open>siphash\<close> of the lower-cased input: two inputs that differ only
  in the case of ASCII letters have the same hash, which is what the case insensitive
  dictionaries rely on.
\<close>

lemma siphash_nocase_lower: "siphash_nocase inp k = siphash (map siptlw inp) k"
proof -
  let ?n = "length inp div 8"
  obtain rest s where r: "sip_blocks_nocase ?n inp (sip_init k) = (rest, s)" by fastforce
  have "length rest = length inp mod 8"
    using sip_blocks_rest [of ?n inp "sip_init k"] r by (simp add: minus_mult_div_eq_mod)
  with r sip_blocks_nocase_map [of ?n inp "sip_init k"] show ?thesis
    by (simp add: siphash_nocase_def siphash_def sip_tail_nocase_map)
qed

end
