(* ===== verification/Dict.thy ===== *)
theory Dict
  imports Redis_Prelude "HOL-Library.Monad_Syntax" "HOL-Library.Multiset"
begin

unbundle bit_operations_syntax

section \<open>The hash table with incremental rehashing: \<open>dict.c\<close>\<close>

text \<open>
  State and operations of \<open>dict.c\<close>. A chain of \<open>dictEntry\<close> structures linked by \<open>next\<close>
  is a list; the bucket array of a \<open>dictht\<close> is a list of chains, empty for a \<open>NULL\<close>
  array. A \<open>dictEntry *\<close> that points into a table is an entry reference: table number,
  bucket index and position in the chain. A result of type \<open>option\<close> is \<open>None\<close> where the
  C code would fail an \<open>assert\<close>, read outside a bucket array or follow a \<open>NULL\<close> pointer.
  The table sizes and counters (\<open>unsigned long\<close>) are natural numbers; hashes, masks and
  the 32 bit index arithmetic keep their width.
\<close>

subsection \<open>Data\<close>

text \<open>
  The callbacks of \<open>dictType\<close>; an optional callback is an option. The destructors only
  release memory, which is not modelled, and \<open>privdata\<close> is part of the callbacks.
\<close>

record ('k, 'v) dictType =
  hashFunction :: "'k \<Rightarrow> u64"
  keyDup :: "('k \<Rightarrow> 'k) option"
  valDup :: "('v \<Rightarrow> 'v) option"
  keyCompare :: "('k \<Rightarrow> 'k \<Rightarrow> bool) option"

text \<open>The value of an entry is \<open>None\<close> until \<open>dictSetVal\<close> writes it.\<close>

record ('k, 'v) dictEntry =
  de_key :: 'k
  de_val :: "'v option"

record ('k, 'v) dictht =
  ht_table :: "('k, 'v) dictEntry list list"
  ht_size :: nat
  ht_sizemask :: u64
  ht_used :: nat

record ('k, 'v) dict =
  d_type :: "('k, 'v) dictType"
  ht0 :: "('k, 'v) dictht"
  ht1 :: "('k, 'v) dictht"
  rehashidx :: int
  iterators :: nat

datatype dict_status = DICT_OK | DICT_ERR

type_synonym entry_ref = "nat \<times> nat \<times> nat"

definition dictIsRehashing :: "('k, 'v) dict \<Rightarrow> bool" where
  "dictIsRehashing d \<longleftrightarrow> rehashidx d \<noteq> -1"

definition dictSize :: "('k, 'v) dict \<Rightarrow> nat" where
  "dictSize d = ht_used (ht0 d) + ht_used (ht1 d)"

definition dictCompareKeys :: "('k, 'v) dictType \<Rightarrow> 'k \<Rightarrow> 'k \<Rightarrow> bool" where
  "dictCompareKeys t k1 k2 =
     (case keyCompare t of Some f \<Rightarrow> f k1 k2 | None \<Rightarrow> k1 = k2)"

text \<open>The test of every search loop: \<open>key==he->key || dictCompareKeys(d, key, he->key)\<close>.\<close>

definition key_matches :: "('k, 'v) dictType \<Rightarrow> 'k \<Rightarrow> ('k, 'v) dictEntry \<Rightarrow> bool" where
  "key_matches t key he \<longleftrightarrow> key = de_key he \<or> dictCompareKeys t key (de_key he)"

subsection \<open>Reading and writing a table\<close>

definition bucket :: "('k, 'v) dictht \<Rightarrow> nat \<Rightarrow> ('k, 'v) dictEntry list option" where
  "bucket ht i = (if i < length (ht_table ht) then Some (ht_table ht ! i) else None)"

definition set_bucket ::
  "nat \<Rightarrow> ('k, 'v) dictEntry list \<Rightarrow> ('k, 'v) dictht \<Rightarrow> ('k, 'v) dictht" where
  "set_bucket i c ht = ht\<lparr>ht_table := (ht_table ht)[i := c]\<rparr>"

definition get_ht :: "('k, 'v) dict \<Rightarrow> nat \<Rightarrow> ('k, 'v) dictht" where
  "get_ht d t = (if t = 0 then ht0 d else ht1 d)"

definition set_ht :: "nat \<Rightarrow> ('k, 'v) dictht \<Rightarrow> ('k, 'v) dict \<Rightarrow> ('k, 'v) dict" where
  "set_ht t h d = (if t = 0 then d\<lparr>ht0 := h\<rparr> else d\<lparr>ht1 := h\<rparr>)"

definition deref :: "('k, 'v) dict \<Rightarrow> entry_ref \<Rightarrow> ('k, 'v) dictEntry option" where
  "deref d r = (case r of (t, i, p) \<Rightarrow>
     (case bucket (get_ht d t) i of
        None \<Rightarrow> None
      | Some c \<Rightarrow> if p < length c then Some (c ! p) else None))"

text \<open>\<open>h & sizemask\<close> with the hash truncated to \<open>unsigned int\<close>, as every search does.\<close>

definition hash_index :: "u64 \<Rightarrow> u64 \<Rightarrow> nat" where
  "hash_index h m = (let h32 = (ucast h :: u32); idx = (ucast (ucast h32 AND m) :: u32) in unat idx)"

text \<open>\<open>(unsigned int)(hash & sizemask)\<close>, as \<open>dictRehash\<close> computes it.\<close>

definition rehash_index :: "u64 \<Rightarrow> u64 \<Rightarrow> nat" where
  "rehash_index h m = unat (ucast (h AND m) :: u32)"

subsection \<open>Creation and resizing\<close>

definition dictReset :: "('k, 'v) dictht" where
  "dictReset = \<lparr>ht_table = [], ht_size = 0, ht_sizemask = 0, ht_used = 0\<rparr>"

definition dictCreate :: "('k, 'v) dictType \<Rightarrow> ('k, 'v) dict" where
  "dictCreate t = \<lparr>d_type = t, ht0 = dictReset, ht1 = dictReset, rehashidx = -1, iterators = 0\<rparr>"

definition DICT_HT_INITIAL_SIZE :: nat where
  "DICT_HT_INITIAL_SIZE = 4"

definition LONG_MAX :: nat where
  "LONG_MAX = 2 ^ 63 - 1"

text \<open>The doubling loop; \<open>i\<close> starts at 4, so the guard against 0 is never taken.\<close>

function next_power_loop :: "nat \<Rightarrow> nat \<Rightarrow> nat" where
  "next_power_loop i n = (if n \<le> i \<or> i = 0 then i else next_power_loop (i * 2) n)"
  by pat_completeness auto
termination
  by (relation "measure (\<lambda>(i, n). n - i)") auto

definition dictNextPower :: "nat \<Rightarrow> nat" where
  "dictNextPower n = (if LONG_MAX \<le> n then LONG_MAX else next_power_loop DICT_HT_INITIAL_SIZE n)"

definition dictExpand :: "nat \<Rightarrow> ('k, 'v) dict \<Rightarrow> ('k, 'v) dict \<times> dict_status" where
  "dictExpand n d =
     (let realsize = dictNextPower n in
      if dictIsRehashing d \<or> ht_used (ht0 d) > n then (d, DICT_ERR)
      else if realsize = ht_size (ht0 d) then (d, DICT_ERR)
      else let new = \<lparr>ht_table = replicate realsize [], ht_size = realsize,
                      ht_sizemask = of_nat (realsize - 1), ht_used = 0\<rparr> in
        if ht_table (ht0 d) = [] then (d\<lparr>ht0 := new\<rparr>, DICT_OK)
        else (d\<lparr>ht1 := new, rehashidx := 0\<rparr>, DICT_OK))"

text \<open>
  \<open>dict_can_resize\<close> is the global switch of \<open>dictEnableResize\<close> and \<open>dictDisableResize\<close>.
  \<open>dictResize\<close> keeps \<open>used\<close> in an \<open>int\<close>.
\<close>

definition dictResize :: "bool \<Rightarrow> ('k, 'v) dict \<Rightarrow> ('k, 'v) dict \<times> dict_status" where
  "dictResize dict_can_resize d =
     (if \<not> dict_can_resize \<or> dictIsRehashing d then (d, DICT_ERR)
      else let minimal = sint (of_nat (ht_used (ht0 d)) :: u32);
               minimal' = (if minimal < int DICT_HT_INITIAL_SIZE then int DICT_HT_INITIAL_SIZE
                           else minimal)
        in dictExpand (nat minimal') d)"

definition dict_force_resize_ratio :: nat where
  "dict_force_resize_ratio = 5"

definition dictExpandIfNeeded :: "bool \<Rightarrow> ('k, 'v) dict \<Rightarrow> ('k, 'v) dict \<times> dict_status" where
  "dictExpandIfNeeded dict_can_resize d =
     (if dictIsRehashing d then (d, DICT_OK)
      else if ht_size (ht0 d) = 0 then dictExpand DICT_HT_INITIAL_SIZE d
      else if ht_used (ht0 d) \<ge> ht_size (ht0 d) \<and>
          (dict_can_resize \<or> ht_used (ht0 d) div ht_size (ht0 d) > dict_force_resize_ratio)
        then dictExpand (ht_used (ht0 d) * 2) d
      else (d, DICT_OK))"

subsection \<open>Incremental rehashing\<close>

text \<open>
  \<open>while(d->ht[0].table[d->rehashidx] == NULL) ...\<close>: the index, the remaining visits and
  whether the visits ran out (the function then returns 1).
\<close>

function skip_empty ::
  "('k, 'v) dictht \<Rightarrow> nat \<Rightarrow> int \<Rightarrow> (nat \<times> int \<times> bool) option" where
  "skip_empty ht i empty_visits =
     (case bucket ht i of
        None \<Rightarrow> None
      | Some c \<Rightarrow>
          if c = [] then
            (if empty_visits - 1 = 0 then Some (Suc i, 0, True)
             else skip_empty ht (Suc i) (empty_visits - 1))
          else Some (i, empty_visits, False))"
  by pat_completeness auto
termination
  by (relation "measure (\<lambda>(ht, i, _). length (ht_table ht) - i)")
    (auto simp: bucket_def split: if_splits)

text \<open>\<open>while(de) ...\<close>: every entry of the chain is pushed on its bucket of \<open>ht[1]\<close>.\<close>

fun rehash_chain ::
  "('k, 'v) dictType \<Rightarrow> ('k, 'v) dictEntry list \<Rightarrow> ('k, 'v) dictht \<Rightarrow> ('k, 'v) dictht \<Rightarrow>
     (('k, 'v) dictht \<times> ('k, 'v) dictht) option" where
  "rehash_chain t [] h0 h1 = Some (h0, h1)"
| "rehash_chain t (de # nextde) h0 h1 =
     (let h = rehash_index (hashFunction t (de_key de)) (ht_sizemask h1) in
      case bucket h1 h of
        None \<Rightarrow> None
      | Some c \<Rightarrow> rehash_chain t nextde (h0\<lparr>ht_used := ht_used h0 - 1\<rparr>)
          ((set_bucket h (de # c) h1)\<lparr>ht_used := ht_used h1 + 1\<rparr>))"

text \<open>The loop \<open>while(n-- && d->ht[0].used != 0)\<close>; the flag is the early \<open>return 1\<close>.\<close>

fun rehash_loop :: "nat \<Rightarrow> int \<Rightarrow> ('k, 'v) dict \<Rightarrow> (('k, 'v) dict \<times> bool) option" where
  "rehash_loop 0 empty_visits d = Some (d, False)"
| "rehash_loop (Suc n) empty_visits d =
     (if ht_used (ht0 d) = 0 then Some (d, False)
      else if \<not> int (ht_size (ht0 d)) > rehashidx d then None
      else (case skip_empty (ht0 d) (nat (rehashidx d)) empty_visits of
          None \<Rightarrow> None
        | Some (i, ev, True) \<Rightarrow> Some (d\<lparr>rehashidx := int i\<rparr>, True)
        | Some (i, ev, False) \<Rightarrow>
            (case rehash_chain (d_type d) (ht_table (ht0 d) ! i) (ht0 d) (ht1 d) of
               None \<Rightarrow> None
             | Some (h0, h1) \<Rightarrow>
                 rehash_loop n ev
                   (d\<lparr>ht0 := set_bucket i [] h0, ht1 := h1, rehashidx := int i + 1\<rparr>))))"

text \<open>\<open>int empty_visits = n*10\<close>: \<open>None\<close> when the product does not fit, which the language leaves undefined.\<close>

definition dictRehash :: "nat \<Rightarrow> ('k, 'v) dict \<Rightarrow> (('k, 'v) dict \<times> bool) option" where
  "dictRehash n d =
     (if n * 10 \<ge> 2 ^ 31 then None
      else if \<not> dictIsRehashing d then Some (d, False)
      else case rehash_loop n (int n * 10) d of
          None \<Rightarrow> None
        | Some (d, True) \<Rightarrow> Some (d, True)
        | Some (d, False) \<Rightarrow>
            if ht_used (ht0 d) = 0
            then Some (d\<lparr>ht0 := ht1 d, ht1 := dictReset, rehashidx := -1\<rparr>, False)
            else Some (d, True))"

definition dictRehashStep :: "('k, 'v) dict \<Rightarrow> ('k, 'v) dict option" where
  "dictRehashStep d = (if iterators d = 0 then map_option fst (dictRehash 1 d) else Some d)"

text \<open>\<open>if (dictIsRehashing(d)) _dictRehashStep(d)\<close>, the first act of most operations.\<close>

definition rehash_if_needed :: "('k, 'v) dict \<Rightarrow> ('k, 'v) dict option" where
  "rehash_if_needed d = (if dictIsRehashing d then dictRehashStep d else Some d)"

subsection \<open>Searching\<close>

text \<open>The \<open>while(he)\<close> loop over one chain: the position of the first match.\<close>

fun chain_pos :: "('k, 'v) dictType \<Rightarrow> 'k \<Rightarrow> ('k, 'v) dictEntry list \<Rightarrow> nat option" where
  "chain_pos t key [] = None"
| "chain_pos t key (he # c) =
     (if key_matches t key he then Some 0 else map_option Suc (chain_pos t key c))"

text \<open>One iteration of \<open>for (table = 0; table <= 1; table++)\<close>: index, then the chain.\<close>

definition search_table ::
  "('k, 'v) dict \<Rightarrow> 'k \<Rightarrow> u64 \<Rightarrow> nat \<Rightarrow> (nat \<times> nat option) option" where
  "search_table d key h t =
     (let idx = hash_index h (ht_sizemask (get_ht d t)) in
      case bucket (get_ht d t) idx of
        None \<Rightarrow> None
      | Some c \<Rightarrow> Some (idx, chain_pos (d_type d) key c))"

text \<open>The whole loop over the tables: the match, or the index in the last table searched.\<close>

definition search_tables ::
  "('k, 'v) dict \<Rightarrow> 'k \<Rightarrow> u64 \<Rightarrow> (nat + entry_ref) option" where
  "search_tables d key h =
     (case search_table d key h 0 of
        None \<Rightarrow> None
      | Some (i, Some p) \<Rightarrow> Some (Inr (0, i, p))
      | Some (i, None) \<Rightarrow>
          if \<not> dictIsRehashing d then Some (Inl i)
          else (case search_table d key h 1 of
              None \<Rightarrow> None
            | Some (i, Some p) \<Rightarrow> Some (Inr (1, i, p))
            | Some (i, None) \<Rightarrow> Some (Inl i)))"

definition dictFind ::
  "'k \<Rightarrow> ('k, 'v) dict \<Rightarrow> (('k, 'v) dict \<times> entry_ref option) option" where
  "dictFind key d =
     (if ht_used (ht0 d) + ht_used (ht1 d) = 0 then Some (d, None)
      else do {
        d \<leftarrow> rehash_if_needed d;
        r \<leftarrow> search_tables d key (hashFunction (d_type d) key);
        Some (d, case r of Inl _ \<Rightarrow> None | Inr he \<Rightarrow> Some he)
      })"

definition dictFetchValue ::
  "'k \<Rightarrow> ('k, 'v) dict \<Rightarrow> (('k, 'v) dict \<times> 'v option) option" where
  "dictFetchValue key d = do {
     (d, he) \<leftarrow> dictFind key d;
     case he of
       None \<Rightarrow> Some (d, None)
     | Some r \<Rightarrow> do { e \<leftarrow> deref d r; Some (d, de_val e) }
   }"

subsection \<open>Adding and replacing\<close>

text \<open>
  \<open>_dictKeyIndex\<close> returns an \<open>int\<close>, -1 when the key exists (then with the entry found)
  or when the table cannot be expanded.
\<close>

definition dictKeyIndex ::
  "bool \<Rightarrow> 'k \<Rightarrow> u64 \<Rightarrow> ('k, 'v) dict \<Rightarrow> (('k, 'v) dict \<times> int \<times> entry_ref option) option" where
  "dictKeyIndex dict_can_resize key h d =
     (case dictExpandIfNeeded dict_can_resize d of
        (d, DICT_ERR) \<Rightarrow> Some (d, -1, None)
      | (d, DICT_OK) \<Rightarrow>
          (case search_tables d key h of
             None \<Rightarrow> None
           | Some (Inr he) \<Rightarrow> Some (d, -1, Some he)
           | Some (Inl idx) \<Rightarrow> Some (d, sint (of_nat idx :: u32), None)))"

text \<open>
  The new entry is pushed on its bucket of \<open>ht[1]\<close> while rehashing and of \<open>ht[0]\<close>
  otherwise. The result is the reference to the new entry, or the existing one.
\<close>

definition dictAddRaw ::
  "bool \<Rightarrow> 'k \<Rightarrow> ('k, 'v) dict \<Rightarrow>
     (('k, 'v) dict \<times> entry_ref option \<times> entry_ref option) option" where
  "dictAddRaw dict_can_resize key d = do {
     d \<leftarrow> rehash_if_needed d;
     (d, index, existing) \<leftarrow>
       dictKeyIndex dict_can_resize key (hashFunction (d_type d) key) d;
     if index = -1 then Some (d, None, existing)
     else let t = (if dictIsRehashing d then 1 else 0); ht = get_ht d t;
              key' = (case keyDup (d_type d) of Some f \<Rightarrow> f key | None \<Rightarrow> key);
              entry = \<lparr>de_key = key', de_val = None\<rparr> in
       if index < 0 then None
       else case bucket ht (nat index) of
           None \<Rightarrow> None
         | Some c \<Rightarrow>
             Some (set_ht t ((set_bucket (nat index) (entry # c) ht)\<lparr>ht_used := ht_used ht + 1\<rparr>) d,
                   Some (t, nat index, 0), existing)
   }"

definition dictSetVal :: "entry_ref \<Rightarrow> 'v \<Rightarrow> ('k, 'v) dict \<Rightarrow> ('k, 'v) dict option" where
  "dictSetVal r val d = (case r of (t, i, p) \<Rightarrow>
     (case bucket (get_ht d t) i of
        None \<Rightarrow> None
      | Some c \<Rightarrow>
          if p < length c then
            (let val' = (case valDup (d_type d) of Some f \<Rightarrow> f val | None \<Rightarrow> val) in
             Some (set_ht t (set_bucket i (c[p := (c ! p)\<lparr>de_val := Some val'\<rparr>]) (get_ht d t)) d))
          else None))"

definition dictAdd ::
  "bool \<Rightarrow> 'k \<Rightarrow> 'v \<Rightarrow> ('k, 'v) dict \<Rightarrow> (('k, 'v) dict \<times> dict_status) option" where
  "dictAdd dict_can_resize key val d = do {
     (d, entry, _) \<leftarrow> dictAddRaw dict_can_resize key d;
     case entry of
       None \<Rightarrow> Some (d, DICT_ERR)
     | Some r \<Rightarrow> do { d \<leftarrow> dictSetVal r val d; Some (d, DICT_OK) }
   }"

text \<open>\<open>dictReplace\<close> reports whether the key was new; it dereferences \<open>existing\<close> if not.\<close>

definition dictReplace ::
  "bool \<Rightarrow> 'k \<Rightarrow> 'v \<Rightarrow> ('k, 'v) dict \<Rightarrow> (('k, 'v) dict \<times> bool) option" where
  "dictReplace dict_can_resize key val d = do {
     (d, entry, existing) \<leftarrow> dictAddRaw dict_can_resize key d;
     case entry of
       Some r \<Rightarrow> do { d \<leftarrow> dictSetVal r val d; Some (d, True) }
     | None \<Rightarrow>
         (case existing of
            None \<Rightarrow> None
          | Some r \<Rightarrow> do { d \<leftarrow> dictSetVal r val d; Some (d, False) })
   }"

definition dictAddOrFind ::
  "bool \<Rightarrow> 'k \<Rightarrow> ('k, 'v) dict \<Rightarrow> (('k, 'v) dict \<times> entry_ref option) option" where
  "dictAddOrFind dict_can_resize key d = do {
     (d, entry, existing) \<leftarrow> dictAddRaw dict_can_resize key d;
     Some (d, if entry \<noteq> None then entry else existing)
   }"

subsection \<open>Deleting\<close>

definition remove_pos :: "nat \<Rightarrow> 'a list \<Rightarrow> 'a list" where
  "remove_pos p c = take p c @ drop (Suc p) c"

text \<open>
  The entry found is unlinked from its chain and returned. \<open>nofree\<close> only decides whether
  its memory is released, so \<open>dictDelete\<close> and \<open>dictUnlink\<close> change the table alike.
\<close>

definition dictGenericDelete ::
  "'k \<Rightarrow> ('k, 'v) dict \<Rightarrow> (('k, 'v) dict \<times> ('k, 'v) dictEntry option) option" where
  "dictGenericDelete key d =
     (if ht_used (ht0 d) = 0 \<and> ht_used (ht1 d) = 0 then Some (d, None)
      else do {
        d \<leftarrow> rehash_if_needed d;
        r \<leftarrow> search_tables d key (hashFunction (d_type d) key);
        case r of
          Inl _ \<Rightarrow> Some (d, None)
        | Inr (t, i, p) \<Rightarrow> do {
            he \<leftarrow> deref d (t, i, p);
            c \<leftarrow> bucket (get_ht d t) i;
            Some (set_ht t ((set_bucket i (remove_pos p c) (get_ht d t))
                    \<lparr>ht_used := ht_used (get_ht d t) - 1\<rparr>) d, Some he)
          }
      })"

definition dictDelete :: "'k \<Rightarrow> ('k, 'v) dict \<Rightarrow> (('k, 'v) dict \<times> dict_status) option" where
  "dictDelete key d = do {
     (d, he) \<leftarrow> dictGenericDelete key d;
     Some (d, if he \<noteq> None then DICT_OK else DICT_ERR)
   }"

definition dictUnlink ::
  "'k \<Rightarrow> ('k, 'v) dict \<Rightarrow> (('k, 'v) dict \<times> ('k, 'v) dictEntry option) option" where
  "dictUnlink key d = dictGenericDelete key d"

definition dictEmpty :: "('k, 'v) dict \<Rightarrow> ('k, 'v) dict" where
  "dictEmpty d = d\<lparr>ht0 := dictReset, ht1 := dictReset, rehashidx := -1, iterators := 0\<rparr>"

end
