(* ===== verification/Dict_Map.thy ===== *)
theory Dict_Map
  imports Dict
begin

unbundle bit_operations_syntax

section \<open>The dictionary is a finite map\<close>

text \<open>
  The invariant of \<open>dict.c\<close>, the abstraction to a map from canonical keys, and the
  refinement of every operation against that map. Both hold before, during and after an
  incremental rehashing; no operation on a well formed dictionary fails an assertion or
  reads outside a table. The bound of 2 ^ 30 entries on insertion is what the \<open>int\<close>
  bucket index of \<open>dictAddRaw\<close> needs: a larger table would make it negative.
\<close>

definition ht_entries :: "('k, 'v) dictht \<Rightarrow> ('k, 'v) dictEntry list" where
  "ht_entries ht = concat (ht_table ht)"

definition dict_entries :: "('k, 'v) dict \<Rightarrow> ('k, 'v) dictEntry list" where
  "dict_entries d = ht_entries (ht0 d) @ ht_entries (ht1 d)"

definition dict_map :: "('k \<Rightarrow> 'c) \<Rightarrow> ('k, 'v) dict \<Rightarrow> 'c \<Rightarrow> 'v option option" where
  "dict_map canon d = map_of (map (\<lambda>e. (canon (de_key e), de_val e)) (dict_entries d))"

definition ht_wf :: "('k, 'v) dictType \<Rightarrow> ('k, 'v) dictht \<Rightarrow> bool" where
  "ht_wf t ht \<longleftrightarrow>
     length (ht_table ht) = ht_size ht \<and>
     (ht_size ht = 0 \<and> ht_sizemask ht = 0 \<or>
      (\<exists>k \<le> 31. ht_size ht = 2 ^ k \<and> ht_sizemask ht = mask k)) \<and>
     ht_used ht = length (ht_entries ht) \<and>
     (\<forall>i < ht_size ht. \<forall>e \<in> set (ht_table ht ! i).
        hash_index (hashFunction t (de_key e)) (ht_sizemask ht) = i)"

definition dict_wf :: "('k, 'v) dictType \<Rightarrow> ('k \<Rightarrow> 'c) \<Rightarrow> ('k, 'v) dict \<Rightarrow> bool" where
  "dict_wf t canon d \<longleftrightarrow>
     d_type d = t \<and> ht_wf t (ht0 d) \<and> ht_wf t (ht1 d) \<and>
     distinct (map (\<lambda>e. canon (de_key e)) (dict_entries d)) \<and>
     (if dictIsRehashing d
      then rehashidx d \<ge> 0 \<and> ht_size (ht0 d) > 0 \<and> ht_size (ht1 d) > 0 \<and>
        (\<forall>i < nat (rehashidx d). i < ht_size (ht0 d) \<longrightarrow> ht_table (ht0 d) ! i = [])
      else ht1 d = dictReset)"

subsection \<open>Indexes\<close>

lemma hash_index_mask: "k \<le> 32 \<Longrightarrow> hash_index h (mask k) = unat h mod 2 ^ k"
proof -
  assume k: "k \<le> 32"
  have "(ucast (ucast (ucast h :: u32) AND mask k :: u64) :: u32) = ucast (take_bit k h)"
    using k by (intro bit_word_eqI) (auto simp: bit_simps bit_mask_iff)
  moreover have "unat (ucast (take_bit k h) :: u32) = unat (take_bit k h)"
    using k by (simp add: unsigned_ucast_eq unsigned_take_bit_eq min_def)
  moreover have "unat (take_bit k h) = unat h mod 2 ^ k"
    by (simp only: unsigned_take_bit_eq take_bit_eq_mod [of k "unat h"])
  ultimately show ?thesis
    by (simp add: hash_index_def Let_def)
qed

lemma rehash_index_eq: "rehash_index h m = hash_index h m"
proof -
  have "(ucast (h AND m) :: u32) = ucast (ucast (ucast h :: u32) AND m :: u64)"
    by (rule bit_word_eqI) (auto simp: bit_simps)
  then show ?thesis by (simp add: rehash_index_def hash_index_def Let_def)
qed

lemma hash_index_bound:
  assumes "ht_wf t ht" and "ht_size ht > 0"
  shows "hash_index h (ht_sizemask ht) < length (ht_table ht)"
proof -
  from assms obtain k where "k \<le> 31" "ht_size ht = 2 ^ k" "ht_sizemask ht = mask k"
    by (auto simp: ht_wf_def)
  with assms show ?thesis by (simp add: hash_index_mask ht_wf_def)
qed

lemma hash_index_int:
  assumes "ht_wf t ht" and "ht_size ht > 0"
  shows "sint (of_nat (hash_index h (ht_sizemask ht)) :: u32) = int (hash_index h (ht_sizemask ht))"
proof -
  from assms obtain k where k: "k \<le> 31" "ht_size ht = 2 ^ k" "ht_sizemask ht = mask k"
    by (auto simp: ht_wf_def)
  have "hash_index h (ht_sizemask ht) < 2 ^ 31"
  proof -
    have "hash_index h (ht_sizemask ht) < 2 ^ k" using k by (simp add: hash_index_mask)
    also have "(2::nat) ^ k \<le> 2 ^ 31" using k by (intro power_increasing) auto
    finally show ?thesis .
  qed
  then show ?thesis by (simp add: signed_of_nat signed_take_bit_int_eq_self)
qed

subsection \<open>Tables as multisets of entries\<close>

lemma mset_concat_update:
  assumes "i < length xs"
  shows "mset (concat (xs[i := c])) + mset (xs ! i) = mset (concat xs) + mset c"
proof -
  have "concat xs = concat (take i xs) @ xs ! i @ concat (drop (Suc i) xs)"
    using id_take_nth_drop [OF assms] by (metis concat.simps(2) concat_append)
  then show ?thesis
    using assms by (simp add: upd_conv_take_nth_drop)
qed

lemma mset_set_bucket:
  "bucket ht i = Some c \<Longrightarrow> mset (ht_entries (set_bucket i c' ht)) + mset c = mset (ht_entries ht) + mset c'"
  by (auto simp: ht_entries_def set_bucket_def bucket_def mset_concat_update split: if_splits)

lemma set_bucket_simps [simp]:
  "ht_size (set_bucket i c ht) = ht_size ht"
  "ht_sizemask (set_bucket i c ht) = ht_sizemask ht"
  "ht_used (set_bucket i c ht) = ht_used ht"
  "length (ht_table (set_bucket i c ht)) = length (ht_table ht)"
  by (simp_all add: set_bucket_def)

lemma set_bucket_used: "set_bucket i c (ht\<lparr>ht_used := n\<rparr>) = (set_bucket i c ht)\<lparr>ht_used := n\<rparr>"
  by (cases ht) (simp add: set_bucket_def)

lemma set_bucket_used_id: "(set_bucket i c ht)\<lparr>ht_used := ht_used ht\<rparr> = set_bucket i c ht"
  by (cases ht) (simp add: set_bucket_def)

lemma ht_entries_used [simp]: "ht_entries (ht\<lparr>ht_used := n\<rparr>) = ht_entries ht"
  by (simp add: ht_entries_def)

lemma ht_wf_set_bucket:
  assumes wf: "ht_wf t ht" and b: "bucket ht i = Some c"
    and c': "\<And>e. e \<in> set c' \<Longrightarrow> hash_index (hashFunction t (de_key e)) (ht_sizemask ht) = i"
    and n: "n + length c = ht_used ht + length c'"
  shows "ht_wf t ((set_bucket i c' ht)\<lparr>ht_used := n\<rparr>)"
proof -
  have "size (mset (ht_entries (set_bucket i c' ht)) + mset c) = size (mset (ht_entries ht) + mset c')"
    using mset_set_bucket [OF b] by simp
  then have "length (ht_entries (set_bucket i c' ht)) + length c = length (ht_entries ht) + length c'"
    by simp
  with n wf have used: "n = length (ht_entries (set_bucket i c' ht))"
    by (auto simp: ht_wf_def)
  have "hash_index (hashFunction t (de_key e)) (ht_sizemask ht) = j"
    if "j < ht_size ht" "e \<in> set ((ht_table ht)[i := c'] ! j)" for j e
    using wf that c' by (cases "j = i") (auto simp: ht_wf_def)
  with wf used show ?thesis
    by (auto simp: ht_wf_def set_bucket_def ht_entries_def)
qed

lemma chain_hash:
  "ht_wf t ht \<Longrightarrow> bucket ht i = Some c \<Longrightarrow> e \<in> set c \<Longrightarrow>
     hash_index (hashFunction t (de_key e)) (ht_sizemask ht) = i"
  by (auto simp: ht_wf_def bucket_def split: if_splits)

lemma ht_wf_reset [simp]: "ht_wf t dictReset"
  by (simp add: ht_wf_def dictReset_def ht_entries_def)

lemma ht_entries_reset [simp]: "ht_entries dictReset = []"
  by (simp add: ht_entries_def dictReset_def)

lemma mem_ht_entries:
  "e \<in> set (ht_entries ht) \<longleftrightarrow> (\<exists>i < length (ht_table ht). e \<in> set (ht_table ht ! i))"
  by (simp add: ht_entries_def) (metis in_set_conv_nth)

subsection \<open>Rehashing\<close>

declare skip_empty.simps [simp del] next_power_loop.simps [simp del]

lemma skip_empty_spec:
  assumes "ev > 0" and "i \<le> j" and "j < length (ht_table ht)" and "ht_table ht ! j \<noteq> []"
  shows "\<exists>i' ev' stop. skip_empty ht i ev = Some (i', ev', stop) \<and> i \<le> i' \<and> i' \<le> j \<and>
           (stop \<longrightarrow> i < i') \<and> (\<forall>l. i \<le> l \<and> l < i' \<longrightarrow> ht_table ht ! l = []) \<and>
           (\<not> stop \<longrightarrow> ev' > 0 \<and> ht_table ht ! i' \<noteq> [])"
  using assms
proof (induction ht i ev rule: skip_empty.induct)
  case (1 ht i ev)
  then have b: "bucket ht i = Some (ht_table ht ! i)" by (simp add: bucket_def)
  show ?case
  proof (cases "ht_table ht ! i = []")
    case False
    with b have "skip_empty ht i ev = Some (i, ev, False)"
      by (simp add: skip_empty.simps [of ht i ev])
    with False 1 show ?thesis by auto
  next
    case empty: True
    with 1 have ij: "Suc i \<le> j" by (metis not_less_eq_eq order_antisym)
    show ?thesis
    proof (cases "ev - 1 = 0")
      case True
      with b empty have "skip_empty ht i ev = Some (Suc i, 0, True)"
        by (subst skip_empty.simps) simp
      moreover have "\<forall>l. i \<le> l \<and> l < Suc i \<longrightarrow> ht_table ht ! l = []"
        using empty by (metis le_antisym less_Suc_eq_le)
      ultimately show ?thesis using ij by auto
    next
      case False
      with 1 have "ev - 1 > 0" by simp
      from "1.IH" [OF b empty False this ij "1.prems"(3,4)] obtain i' ev' stop where
        *: "skip_empty ht (Suc i) (ev - 1) = Some (i', ev', stop)" "Suc i \<le> i'" "i' \<le> j"
          "\<forall>l. Suc i \<le> l \<and> l < i' \<longrightarrow> ht_table ht ! l = []"
          "\<not> stop \<longrightarrow> ev' > 0 \<and> ht_table ht ! i' \<noteq> []"
        by blast
      have "\<forall>l. i \<le> l \<and> l < i' \<longrightarrow> ht_table ht ! l = []"
        using *(4) empty by (metis le_antisym not_less_eq_eq)
      with * b empty False show ?thesis
        by (simp add: skip_empty.simps [of ht i ev])
    qed
  qed
qed

lemma rehash_chain_spec:
  assumes "ht_wf t h1" and "ht_size h1 > 0"
  shows "\<exists>h1'. rehash_chain t c h0 h1 = Some (h0\<lparr>ht_used := ht_used h0 - length c\<rparr>, h1') \<and>
     ht_wf t h1' \<and> ht_size h1' = ht_size h1 \<and>
     mset (ht_entries h1') = mset (ht_entries h1) + mset c"
  using assms
proof (induction c arbitrary: h0 h1)
  case Nil
  then show ?case by simp
next
  case (Cons de c)
  let ?h = "hash_index (hashFunction t (de_key de)) (ht_sizemask h1)"
  obtain b where b: "bucket h1 ?h = Some b"
    using hash_index_bound [OF Cons.prems] by (simp add: bucket_def)
  let ?h1 = "(set_bucket ?h (de # b) h1)\<lparr>ht_used := ht_used h1 + 1\<rparr>"
  have wf: "ht_wf t ?h1"
    using chain_hash [OF Cons.prems(1) b] by (intro ht_wf_set_bucket [OF Cons.prems(1) b]) auto
  have "mset (ht_entries ?h1) = mset (ht_entries h1) + {#de#}"
    using mset_set_bucket [OF b, of "de # b"] by simp
  with Cons.IH [OF wf, of "h0\<lparr>ht_used := ht_used h0 - 1\<rparr>"] Cons.prems(2) b show ?case
    by (auto simp: Let_def rehash_index_eq)
qed

definition dict_step :: "('k, 'v) dict \<Rightarrow> ('k, 'v) dict \<Rightarrow> bool" where
  "dict_step d d' \<longleftrightarrow> d_type d' = d_type d \<and> iterators d' = iterators d \<and>
     mset (dict_entries d') = mset (dict_entries d)"

lemma dict_step_refl [simp]: "dict_step d d"
  by (simp add: dict_step_def)

lemma dict_step_trans: "dict_step d e \<Longrightarrow> dict_step e f \<Longrightarrow> dict_step d f"
  by (simp add: dict_step_def)

lemma distinct_map_mset_cong: "mset xs = mset ys \<Longrightarrow> distinct (map f xs) \<longleftrightarrow> distinct (map f ys)"
  by (metis mset_eq_imp_distinct_iff mset_map)

lemma used_nonempty:
  assumes wf: "ht_wf t ht" and "ht_used ht \<noteq> 0"
  obtains j where "j < length (ht_table ht)" and "ht_table ht ! j \<noteq> []"
proof -
  from assms have "ht_entries ht \<noteq> []" by (auto simp: ht_wf_def)
  then obtain e where "e \<in> set (ht_entries ht)" by (meson list.set_sel(1))
  then show ?thesis using that by (fastforce simp: mem_ht_entries)
qed

text \<open>One iteration of the outer loop moves a whole bucket and keeps the invariant.\<close>

lemma rehash_bucket_wf:
  assumes wf: "dict_wf t canon d" and re: "dictIsRehashing d"
    and i: "i < length (ht_table (ht0 d))" and low: "nat (rehashidx d) \<le> i"
    and empty: "\<forall>l. nat (rehashidx d) \<le> l \<and> l < i \<longrightarrow> ht_table (ht0 d) ! l = []"
    and rc: "rehash_chain t (ht_table (ht0 d) ! i) (ht0 d) (ht1 d) = Some (h0, h1)"
  defines "d' \<equiv> d\<lparr>ht0 := set_bucket i [] h0, ht1 := h1, rehashidx := int i + 1\<rparr>"
  shows "dict_wf t canon d' \<and> dictIsRehashing d' \<and> dict_step d d' \<and>
     ht_size (ht0 d') = ht_size (ht0 d) \<and> ht_size (ht1 d') = ht_size (ht1 d)"
proof -
  let ?c = "ht_table (ht0 d) ! i"
  have b: "bucket (ht0 d) i = Some ?c" using i by (simp add: bucket_def)
  from wf re have w0: "ht_wf t (ht0 d)" and w1: "ht_wf t (ht1 d)"
    and s: "ht_size (ht0 d) > 0" "ht_size (ht1 d) > 0" and r: "rehashidx d \<ge> 0"
    and low': "\<forall>i < nat (rehashidx d). i < ht_size (ht0 d) \<longrightarrow> ht_table (ht0 d) ! i = []"
    and dist: "distinct (map (\<lambda>e. canon (de_key e)) (dict_entries d))"
    by (auto simp: dict_wf_def)
  from rehash_chain_spec [OF w1 s(2), of ?c "ht0 d"] rc
  have h0: "h0 = (ht0 d)\<lparr>ht_used := ht_used (ht0 d) - length ?c\<rparr>" and w1': "ht_wf t h1"
    and s1: "ht_size h1 = ht_size (ht1 d)" and m1: "mset (ht_entries h1) = mset (ht_entries (ht1 d)) + mset ?c"
    by auto
  have m0: "mset (ht_entries (set_bucket i [] (ht0 d))) + mset ?c = mset (ht_entries (ht0 d))"
    using mset_set_bucket [OF b, of "[]"] by simp
  have "length ?c \<le> ht_used (ht0 d)"
  proof -
    have "size (mset ?c) \<le> size (mset (ht_entries (ht0 d)))"
      using m0 by (metis mset_subset_eq_add_right size_mset_mono)
    with w0 show ?thesis by (simp add: ht_wf_def)
  qed
  then have w0': "ht_wf t (set_bucket i [] h0)"
    using ht_wf_set_bucket [OF w0 b, of "[]" "ht_used (ht0 d) - length ?c"] h0
    by (simp add: set_bucket_used)
  have ent: "mset (dict_entries d') = mset (dict_entries d)"
    using m0 m1 h0 by (simp add: d'_def dict_entries_def set_bucket_def ht_entries_def ac_simps)
  then have dist': "distinct (map (\<lambda>e. canon (de_key e)) (dict_entries d'))"
    using dist distinct_map_mset_cong by blast
  have nil: "ht_table (set_bucket i [] h0) ! l = []" if "l < nat (int i + 1)" "l < ht_size (ht0 d)" for l
    using that i low low' empty h0 by (cases "l = i"; cases "l < nat (rehashidx d)") (auto simp: set_bucket_def)
  show ?thesis
    using wf re w0' w1' s s1 dist' nil ent h0 r
    by (auto simp: dict_wf_def d'_def dictIsRehashing_def dict_step_def)
qed

lemma rehash_loop_spec:
  assumes "dict_wf t canon d" and "dictIsRehashing d" and "n = 0 \<or> ev > 0"
  shows "\<exists>d' stop. rehash_loop n ev d = Some (d', stop) \<and> dict_wf t canon d' \<and>
     dictIsRehashing d' \<and> dict_step d d' \<and> rehashidx d \<le> rehashidx d' \<and>
     ht_size (ht0 d') = ht_size (ht0 d) \<and> ht_size (ht1 d') = ht_size (ht1 d) \<and>
     (stop \<longrightarrow> ht_used (ht0 d') \<noteq> 0) \<and>
     (n > 0 \<and> ht_used (ht0 d') \<noteq> 0 \<longrightarrow> rehashidx d < rehashidx d')"
  using assms
proof (induction n arbitrary: ev d)
  case 0
  then show ?case by auto
next
  case (Suc n)
  show ?case
  proof (cases "ht_used (ht0 d) = 0")
    case True
    with Suc.prems show ?thesis by auto
  next
    case False
    from Suc.prems have w0: "ht_wf t (ht0 d)" and r: "rehashidx d \<ge> 0" and ty: "d_type d = t"
      and len: "length (ht_table (ht0 d)) = ht_size (ht0 d)"
      and low: "\<forall>i < nat (rehashidx d). i < ht_size (ht0 d) \<longrightarrow> ht_table (ht0 d) ! i = []"
      by (auto simp: dict_wf_def ht_wf_def)
    from used_nonempty [OF w0 False] obtain j where
      j: "j < length (ht_table (ht0 d))" "ht_table (ht0 d) ! j \<noteq> []" by blast
    with low len have rj: "nat (rehashidx d) \<le> j" by (metis not_less)
    from Suc.prems(3) have "ev > 0" by simp
    from skip_empty_spec [OF this rj j] obtain i ev' stop where
      sk: "skip_empty (ht0 d) (nat (rehashidx d)) ev = Some (i, ev', stop)" "nat (rehashidx d) \<le> i" "i \<le> j"
        "stop \<longrightarrow> nat (rehashidx d) < i"
        "\<forall>l. nat (rehashidx d) \<le> l \<and> l < i \<longrightarrow> ht_table (ht0 d) ! l = []"
        "\<not> stop \<longrightarrow> ev' > 0 \<and> ht_table (ht0 d) ! i \<noteq> []" by blast
    have sz: "int (ht_size (ht0 d)) > rehashidx d" using rj j len by simp
    show ?thesis
    proof (cases stop)
      case True
      have "\<forall>l < i. l < ht_size (ht0 d) \<longrightarrow> ht_table (ht0 d) ! l = []"
        using low sk(5) by (metis not_less)
      with True sk sz False Suc.prems r show ?thesis
        by (auto simp: dict_wf_def dictIsRehashing_def dict_step_def dict_entries_def)
    next
      case go: False
      obtain h0 h1 where rc: "rehash_chain t (ht_table (ht0 d) ! i) (ht0 d) (ht1 d) = Some (h0, h1)"
        using rehash_chain_spec [of t "ht1 d"] Suc.prems by (fastforce simp: dict_wf_def)
      let ?d = "d\<lparr>ht0 := set_bucket i [] h0, ht1 := h1, rehashidx := int i + 1\<rparr>"
      have il: "i < length (ht_table (ht0 d))" using sk(3) j by simp
      note step = rehash_bucket_wf [OF Suc.prems(1,2) il sk(2,5) rc]
      have ev': "n = 0 \<or> ev' > 0" using sk(6) go by simp
      from step have wf': "dict_wf t canon ?d" and re': "dictIsRehashing ?d" by simp_all
      from Suc.IH [OF wf' re' ev'] obtain d' stop' where
        l: "rehash_loop n ev' ?d = Some (d', stop')" and w: "dict_wf t canon d'" "dictIsRehashing d'"
        and st: "dict_step ?d d'" and r': "rehashidx ?d \<le> rehashidx d'"
        and s': "ht_size (ht0 d') = ht_size (ht0 ?d)" "ht_size (ht1 d') = ht_size (ht1 ?d)"
        and used: "stop' \<longrightarrow> ht_used (ht0 d') \<noteq> 0"
        by blast
      have eq: "rehash_loop (Suc n) ev d = Some (d', stop')"
        using sk(1) go sz False rc ty l by simp
      have lt: "rehashidx d < rehashidx d'" using sk(2) r r' by simp
      have "dict_step d d'" using dict_step_trans [OF _ st] step by simp
      moreover have "ht_size (ht0 d') = ht_size (ht0 d)" "ht_size (ht1 d') = ht_size (ht1 d)"
        using step s' by simp_all
      ultimately show ?thesis
        using eq w lt used by (intro exI [of _ d'] exI [of _ stop'] conjI) simp_all
    qed
  qed
qed


lemma dict_wf_finish:
  assumes wf: "dict_wf t canon d" and re: "dictIsRehashing d" and used: "ht_used (ht0 d) = 0"
  defines "d' \<equiv> d\<lparr>ht0 := ht1 d, ht1 := dictReset, rehashidx := -1\<rparr>"
  shows "dict_wf t canon d' \<and> \<not> dictIsRehashing d' \<and> dict_step d d'"
proof -
  from wf used have "ht_entries (ht0 d) = []" by (simp add: dict_wf_def ht_wf_def)
  then have "dict_entries d' = dict_entries d" by (simp add: d'_def dict_entries_def)
  with wf show ?thesis
    by (simp add: dict_wf_def d'_def dictIsRehashing_def dict_step_def)
qed

text \<open>
  \<open>dictRehash\<close> on a well formed dictionary never fails its assertion or leaves the table,
  keeps the invariant and the entries, and reports 0 exactly when nothing is left to do.
\<close>

lemma dictRehash_spec:
  assumes wf: "dict_wf t canon d" and n: "n > 0" and int: "n * 10 < 2 ^ 31"
  shows "\<exists>d' more. dictRehash n d = Some (d', more) \<and> dict_wf t canon d' \<and> dict_step d d' \<and>
     more = dictIsRehashing d' \<and>
     (dictIsRehashing d' \<longrightarrow> dictIsRehashing d \<and> rehashidx d < rehashidx d' \<and>
        rehashidx d' < int (ht_size (ht0 d')) \<and> ht_size (ht0 d') = ht_size (ht0 d) \<and>
        ht_size (ht1 d') = ht_size (ht1 d))"
proof (cases "dictIsRehashing d")
  case False
  with wf int show ?thesis by (auto simp: dictRehash_def)
next
  case re: True
  from n have ev: "n = 0 \<or> int n * 10 > 0" by simp
  from rehash_loop_spec [OF wf re ev] obtain d' stop where
    l: "rehash_loop n (int n * 10) d = Some (d', stop)" and wf': "dict_wf t canon d'"
    and re': "dictIsRehashing d'" and st: "dict_step d d'" and sz: "ht_size (ht0 d') = ht_size (ht0 d)"
      "ht_size (ht1 d') = ht_size (ht1 d)"
    and stop: "stop \<longrightarrow> ht_used (ht0 d') \<noteq> 0" and pr: "n > 0 \<and> ht_used (ht0 d') \<noteq> 0 \<longrightarrow> rehashidx d < rehashidx d'"
    by blast
  have small: "rehashidx d' < int (ht_size (ht0 d'))" if "ht_used (ht0 d') \<noteq> 0"
  proof -
    from wf' have "ht_wf t (ht0 d')" by (simp add: dict_wf_def)
    from used_nonempty [OF this that] obtain j where
      j: "j < length (ht_table (ht0 d'))" "ht_table (ht0 d') ! j \<noteq> []" by blast
    from wf' re' have "\<forall>i < nat (rehashidx d'). i < ht_size (ht0 d') \<longrightarrow> ht_table (ht0 d') ! i = []"
      and len: "length (ht_table (ht0 d')) = ht_size (ht0 d')"
      by (simp_all add: dict_wf_def ht_wf_def)
    with j have "\<not> j < nat (rehashidx d')" by auto
    with j len show ?thesis by simp
  qed
  show ?thesis
  proof (cases "ht_used (ht0 d') = 0")
    case True
    let ?e = "d'\<lparr>ht0 := ht1 d', ht1 := dictReset, rehashidx := -1\<rparr>"
    have fin: "dict_wf t canon ?e" "\<not> dictIsRehashing ?e" "dict_step d' ?e"
      using dict_wf_finish [OF wf' re' True] by simp_all
    have "dictRehash n d = Some (?e, False)"
      using stop l re True int by (simp add: dictRehash_def)
    with fin dict_step_trans [OF st fin(3)] show ?thesis by blast
  next
    case False
    with re re' wf' st l pr sz n int small[OF False] show ?thesis
      by (cases stop) (auto simp: dictRehash_def)
  qed
qed

subsection \<open>The map a dictionary represents\<close>

lemma map_of_mset_cong:
  assumes "mset xs = mset ys" and "distinct (map fst xs)"
  shows "map_of xs = map_of ys"
proof -
  from assms have "distinct (map fst ys)" using distinct_map_mset_cong by blast
  moreover have "set xs = set ys" using assms(1) by (metis set_mset_mset)
  ultimately show ?thesis using assms(2) by (metis map_of_inject_set)
qed

lemma dict_map_step:
  assumes "dict_wf t canon d" and "dict_step d d'"
  shows "dict_map canon d' = dict_map canon d"
proof -
  let ?f = "\<lambda>e. (canon (de_key e), de_val e)"
  have "mset (map ?f (dict_entries d)) = mset (map ?f (dict_entries d'))"
    using assms(2) by (simp add: dict_step_def)
  moreover have "distinct (map fst (map ?f (dict_entries d)))"
    using assms(1) by (simp add: dict_wf_def comp_def)
  ultimately have "map_of (map ?f (dict_entries d)) = map_of (map ?f (dict_entries d'))"
    by (rule map_of_mset_cong)
  then show ?thesis by (simp add: dict_map_def)
qed

lemma rehash_if_needed_spec:
  assumes "dict_wf t canon d"
  shows "\<exists>d'. rehash_if_needed d = Some d' \<and> dict_wf t canon d' \<and> dict_step d d' \<and>
     (dictIsRehashing d' \<longrightarrow> dictIsRehashing d)"
  using dictRehash_spec [OF assms, of 1] assms
  by (auto simp: rehash_if_needed_def dictRehashStep_def)

lemma deref_mem:
  assumes "deref d (t, i, p) = Some e" and "dictIsRehashing d \<or> t = 0"
  shows "e \<in> set (dict_entries d)"
  using assms
  by (auto simp: deref_def bucket_def get_ht_def dict_entries_def mem_ht_entries split: if_splits)

lemma chain_pos_Some: "chain_pos t key c = Some p \<Longrightarrow> p < length c \<and> key_matches t key (c ! p)"
  by (induction c arbitrary: p) (auto split: if_splits)

lemma chain_pos_None: "chain_pos t key c = None \<longleftrightarrow> (\<forall>e \<in> set c. \<not> key_matches t key e)"
  by (induction c) auto

lemma dict_map_insert:
  assumes "mset (dict_entries d') = add_mset e (mset (dict_entries d))"
    and "distinct (map (\<lambda>e. canon (de_key e)) (dict_entries d'))"
  shows "dict_map canon d' = (dict_map canon d)(canon (de_key e) \<mapsto> de_val e)"
proof -
  let ?f = "\<lambda>e. (canon (de_key e), de_val e)"
  have "mset (map ?f (dict_entries d')) = mset (map ?f (e # dict_entries d))"
    using assms(1) by simp
  moreover have "distinct (map fst (map ?f (dict_entries d')))"
    using assms(2) by (simp add: comp_def)
  ultimately have "map_of (map ?f (dict_entries d')) = map_of (map ?f (e # dict_entries d))"
    by (rule map_of_mset_cong)
  then show ?thesis by (simp add: dict_map_def)
qed

lemma dict_map_mem:
  assumes "distinct (map (\<lambda>e. canon (de_key e)) (dict_entries d))" and "e \<in> set (dict_entries d)"
  shows "dict_map canon d (canon (de_key e)) = Some (de_val e)"
proof -
  from assms(2) have "(canon (de_key e), de_val e) \<in> set (map (\<lambda>e. (canon (de_key e), de_val e)) (dict_entries d))"
    by auto
  with assms(1) show ?thesis by (simp add: dict_map_def comp_def)
qed

lemma dict_map_None:
  "dict_map canon d k = None \<longleftrightarrow> (\<forall>e \<in> set (dict_entries d). canon (de_key e) \<noteq> k)"
  by (force simp: dict_map_def map_of_eq_None_iff)

lemma dict_map_remove:
  assumes m: "mset (dict_entries d) = add_mset e (mset (dict_entries d'))"
    and dist: "distinct (map (\<lambda>e. canon (de_key e)) (dict_entries d))"
  shows "dict_map canon d' = (dict_map canon d)(canon (de_key e) := None)"
proof -
  have "distinct (map (\<lambda>e. canon (de_key e)) (e # dict_entries d'))"
    using distinct_map_mset_cong [of "dict_entries d" "e # dict_entries d'" "\<lambda>e. canon (de_key e)"] m dist by simp
  then have "dict_map canon d' (canon (de_key e)) = None"
    by (simp add: dict_map_None) (metis image_eqI)
  with dict_map_insert [OF m dist] show ?thesis by auto
qed

lemma dict_map_replace:
  assumes m: "mset (dict_entries d) = add_mset e R" and m': "mset (dict_entries d') = add_mset e' R"
    and k: "canon (de_key e') = canon (de_key e)"
    and dist: "distinct (map (\<lambda>e. canon (de_key e)) (dict_entries d))"
      "distinct (map (\<lambda>e. canon (de_key e)) (dict_entries d'))"
  shows "dict_map canon d' = (dict_map canon d)(canon (de_key e) \<mapsto> de_val e')"
proof -
  obtain xs where xs: "mset xs = R" using ex_mset by blast
  let ?x = "d\<lparr>ht0 := (ht0 d)\<lparr>ht_table := [xs]\<rparr>, ht1 := dictReset\<rparr>"
  have ex: "dict_entries ?x = xs" by (simp add: dict_entries_def ht_entries_def dictReset_def)
  have "dict_map canon d' = (dict_map canon ?x)(canon (de_key e') \<mapsto> de_val e')"
    using m' ex xs dist by (intro dict_map_insert) simp_all
  moreover have "dict_map canon d = (dict_map canon ?x)(canon (de_key e) \<mapsto> de_val e)"
    using m ex xs dist by (intro dict_map_insert) simp_all
  ultimately show ?thesis using k by simp
qed

text \<open>Rewriting one bucket of one table: the shape of every update.\<close>

lemma set_ht_entries:
  assumes "bucket (get_ht d n) i = Some c"
  shows "mset (dict_entries (set_ht n ((set_bucket i c' (get_ht d n))\<lparr>ht_used := m\<rparr>) d)) + mset c
       = mset (dict_entries d) + mset c'"
  using mset_set_bucket [OF assms, of c'] by (auto simp: dict_entries_def set_ht_def get_ht_def)

lemma set_ht_wf:
  assumes wf: "dict_wf t canon d" and b: "bucket (get_ht d n) i = Some c"
    and c': "\<And>e. e \<in> set c' \<Longrightarrow>
      hash_index (hashFunction t (de_key e)) (ht_sizemask (get_ht d n)) = i"
    and m: "m + length c = ht_used (get_ht d n) + length c'"
    and n: "dictIsRehashing d \<or> n = 0"
    and low: "dictIsRehashing d \<Longrightarrow> n = 0 \<Longrightarrow> i < nat (rehashidx d) \<Longrightarrow> c' = []"
    and dist: "distinct (map (\<lambda>e. canon (de_key e)) (dict_entries d'))"
    and d': "d' = set_ht n ((set_bucket i c' (get_ht d n))\<lparr>ht_used := m\<rparr>) d"
  shows "dict_wf t canon d'"
proof -
  have w: "ht_wf t (get_ht d n)" using wf by (simp add: dict_wf_def get_ht_def)
  have w': "ht_wf t ((set_bucket i c' (get_ht d n))\<lparr>ht_used := m\<rparr>)"
    by (rule ht_wf_set_bucket [OF w b c' m])
  show ?thesis
  proof (cases "n = 0")
    case True
    have "ht_table (set_bucket i c' (ht0 d)) ! l = []"
      if "dictIsRehashing d" "l < nat (rehashidx d)" "l < ht_size (ht0 d)" for l
      using that wf low True
      by (cases "l = i") (auto simp: set_bucket_def dict_wf_def ht_wf_def)
    with True wf w' dist d' show ?thesis
      by (auto simp: dict_wf_def set_ht_def get_ht_def dictIsRehashing_def)
  next
    case False
    with n wf w' dist d' show ?thesis
      by (auto simp: dict_wf_def set_ht_def get_ht_def dictIsRehashing_def)
  qed
qed

lemma set_ht_simps [simp]:
  "d_type (set_ht n h d) = d_type d" "iterators (set_ht n h d) = iterators d"
  "rehashidx (set_ht n h d) = rehashidx d"
  "dictIsRehashing (set_ht n h d) = dictIsRehashing d"
  by (simp_all add: set_ht_def dictIsRehashing_def)

lemma dict_wf_size:
  assumes "dict_wf t canon d" and "dict_entries d \<noteq> []"
  shows "ht_size (ht0 d) > 0"
proof (cases "dictIsRehashing d")
  case True
  with assms show ?thesis by (simp add: dict_wf_def)
next
  case False
  with assms have "ht_entries (ht0 d) \<noteq> []" and "length (ht_table (ht0 d)) = ht_size (ht0 d)"
    by (auto simp: dict_wf_def dict_entries_def ht_wf_def)
  then have "ht_table (ht0 d) \<noteq> []" by (auto simp: ht_entries_def)
  then show ?thesis using \<open>length (ht_table (ht0 d)) = ht_size (ht0 d)\<close> by (metis length_greater_0_conv)
qed

lemma dict_wf_used: "dict_wf t canon d \<Longrightarrow> dictSize d = length (dict_entries d)"
  by (simp add: dict_wf_def ht_wf_def dictSize_def dict_entries_def)

subsection \<open>Expanding\<close>

lemma next_power_loop_spec:
  assumes "a \<le> m" and "n \<le> 2 ^ m"
  shows "\<exists>b. next_power_loop (2 ^ a) n = 2 ^ b \<and> a \<le> b \<and> b \<le> m \<and> n \<le> 2 ^ b \<and> (b = a \<or> 2 ^ b < 2 * n)"
  using assms
proof (induction "m - a" arbitrary: a)
  case 0
  then show ?case by (intro exI [of _ a]) (simp add: next_power_loop.simps)
next
  case (Suc k)
  show ?case
  proof (cases "n \<le> 2 ^ a")
    case True
    then show ?thesis using Suc.prems by (intro exI [of _ a]) (simp add: next_power_loop.simps)
  next
    case False
    have "k = m - Suc a" "Suc a \<le> m" using Suc by simp_all
    from Suc.hyps(1) [OF this Suc.prems(2)] obtain b where
      b: "next_power_loop (2 ^ Suc a) n = 2 ^ b" "Suc a \<le> b" "b \<le> m" "n \<le> 2 ^ b"
        "b = Suc a \<or> 2 ^ b < 2 * n" by blast
    have "next_power_loop (2 ^ a) n = next_power_loop (2 ^ Suc a) n"
      using False by (subst next_power_loop.simps) (simp add: mult.commute)
    with b False show ?thesis by (intro exI [of _ b]) auto
  qed
qed

lemma dictNextPower_spec:
  assumes "n \<le> 2 ^ m" and "2 \<le> m" and "m \<le> 62"
  shows "\<exists>b. dictNextPower n = 2 ^ b \<and> 2 \<le> b \<and> b \<le> m \<and> n \<le> 2 ^ b \<and> (b = 2 \<or> 2 ^ b < 2 * n)"
proof -
  have "n \<le> 2 ^ 62" using assms power_increasing [of m 62 "2::nat"] by linarith
  then have "\<not> LONG_MAX \<le> n" by (simp add: LONG_MAX_def)
  with next_power_loop_spec [of 2 m n] assms show ?thesis
    by (simp add: dictNextPower_def DICT_HT_INITIAL_SIZE_def)
qed

lemma dictExpand_spec:
  assumes wf: "dict_wf t canon d" and n: "n \<le> 2 ^ 31" and e: "dictExpand n d = (d', st)"
  shows "dict_wf t canon d' \<and> dict_step d d' \<and> (st = DICT_ERR \<longrightarrow> d' = d) \<and>
     (st = DICT_OK \<longrightarrow> ht_size (ht0 d') > 0)"
proof (cases "dictIsRehashing d \<or> ht_used (ht0 d) > n \<or> dictNextPower n = ht_size (ht0 d)")
  case True
  then have "dictExpand n d = (d, DICT_ERR)" by (auto simp: dictExpand_def Let_def)
  with e wf show ?thesis by auto
next
  case False
  let ?new = "\<lparr>ht_table = replicate (dictNextPower n) [], ht_size = dictNextPower n,
      ht_sizemask = of_nat (dictNextPower n - 1), ht_used = 0\<rparr> :: ('a, 'b) dictht"
  obtain b where b: "dictNextPower n = 2 ^ b" "b \<le> 31" using dictNextPower_spec [OF n] by auto
  have "(of_nat (2 ^ b - 1) :: u64) = mask b" by (simp add: mask_eq_exp_minus_1)
  with b have new: "ht_wf t ?new" "ht_entries ?new = []" "ht_size ?new > 0"
    by (auto simp: ht_wf_def ht_entries_def)
  show ?thesis
  proof (cases "ht_table (ht0 d) = []")
    case True
    with e False have "d' = d\<lparr>ht0 := ?new\<rparr>" "st = DICT_OK" by (auto simp: dictExpand_def Let_def)
    moreover have "ht_entries (ht0 d) = []" using True by (simp add: ht_entries_def)
    ultimately show ?thesis using wf new False
      by (auto simp: dict_wf_def dict_step_def dict_entries_def dictIsRehashing_def)
  next
    case nonempty: False
    with e False have d': "d' = d\<lparr>ht1 := ?new, rehashidx := 0\<rparr>" "st = DICT_OK"
      by (auto simp: dictExpand_def Let_def)
    have "ht_size (ht0 d) > 0" using nonempty wf by (auto simp: dict_wf_def ht_wf_def)
    moreover have "dict_entries d' = dict_entries d"
      using wf False new d' by (simp add: dict_entries_def dict_wf_def)
    ultimately show ?thesis using wf new False d'
      by (simp add: dict_wf_def dict_step_def dictIsRehashing_def)
  qed
qed

lemma dictExpandIfNeeded_spec:
  assumes wf: "dict_wf t canon d" and n: "ht_used (ht0 d) \<le> 2 ^ 30"
  shows "\<exists>d'. dictExpandIfNeeded cr d = (d', DICT_OK) \<and> dict_wf t canon d' \<and> dict_step d d' \<and>
    ht_size (ht0 d') > 0"
proof -
  have ok: "\<exists>d'. dictExpand m d = (d', DICT_OK) \<and> dict_wf t canon d' \<and> dict_step d d' \<and> ht_size (ht0 d') > 0"
    if m: "m \<le> 2 ^ 31" "\<not> dictIsRehashing d" "ht_used (ht0 d) \<le> m" "dictNextPower m \<noteq> ht_size (ht0 d)" for m
  proof -
    obtain d' st where e: "dictExpand m d = (d', st)" by fastforce
    then have "st = DICT_OK" using m(2-4) by (auto simp: dictExpand_def Let_def split: if_splits)
    with dictExpand_spec [OF wf m(1) e] e show ?thesis by auto
  qed
  have "\<exists>d'. dictExpand DICT_HT_INITIAL_SIZE d = (d', DICT_OK) \<and> dict_wf t canon d' \<and> dict_step d d' \<and> ht_size (ht0 d') > 0"
    if "ht_size (ht0 d) = 0" "\<not> dictIsRehashing d"
  proof (rule ok)
    show "ht_used (ht0 d) \<le> DICT_HT_INITIAL_SIZE"
      using wf that by (simp add: dict_wf_def ht_wf_def ht_entries_def)
    show "dictNextPower DICT_HT_INITIAL_SIZE \<noteq> ht_size (ht0 d)"
      using dictNextPower_spec [of 4 2] that by (auto simp: DICT_HT_INITIAL_SIZE_def)
  qed (auto simp: that DICT_HT_INITIAL_SIZE_def)
  moreover have "\<exists>d'. dictExpand (ht_used (ht0 d) * 2) d = (d', DICT_OK) \<and> dict_wf t canon d' \<and> dict_step d d' \<and> ht_size (ht0 d') > 0"
    if "ht_size (ht0 d) \<noteq> 0" "\<not> dictIsRehashing d" "ht_used (ht0 d) \<ge> ht_size (ht0 d)"
  proof (rule ok)
    obtain b where "dictNextPower (ht_used (ht0 d) * 2) = 2 ^ b" "ht_used (ht0 d) * 2 \<le> 2 ^ b"
      using dictNextPower_spec [of "ht_used (ht0 d) * 2" 31] n by auto
    with that show "dictNextPower (ht_used (ht0 d) * 2) \<noteq> ht_size (ht0 d)" by simp
  qed (use that n in auto)
  ultimately show ?thesis
    using wf by (cases "dictIsRehashing d") (auto simp: dictExpandIfNeeded_def dict_wf_def)
qed

lemma mset_remove_pos: "p < length c \<Longrightarrow> mset c = add_mset (c ! p) (mset (remove_pos p c))"
  by (subst id_take_nth_drop [of p c]) (simp_all add: remove_pos_def)

lemma remove_pos_simps:
  "p < length c \<Longrightarrow> Suc (length (remove_pos p c)) = length c"
  "set (remove_pos p c) \<subseteq> set c"
  by (auto simp: remove_pos_def dest: in_set_takeD in_set_dropD)

subsection \<open>The operations refine a finite map\<close>

text \<open>
  What a dictionary needs of its callbacks: keys are compared up to a canonical form, and
  the hash and the copy of a key depend on that form only.
\<close>

locale dict_callbacks =
  fixes t :: "('k, 'v) dictType" and canon :: "'k \<Rightarrow> 'c"
  assumes key_matches_canon: "key_matches t key he \<longleftrightarrow> canon key = canon (de_key he)"
    and hash_canon: "canon k = canon k' \<Longrightarrow> hashFunction t k = hashFunction t k'"
    and keyDup_canon: "keyDup t = Some f \<Longrightarrow> canon (f k) = canon k"
begin

lemma search_table_spec:
  fixes d :: "('k, 'v) dict" and n :: nat and key :: 'k
  assumes wf: "ht_wf t (get_ht d n)" and "ht_size (get_ht d n) > 0" and ty: "d_type d = t"
  defines "i \<equiv> hash_index (hashFunction t key) (ht_sizemask (get_ht d n))"
  shows "\<exists>r. search_table d key (hashFunction t key) n = Some (i, r) \<and>
     i < length (ht_table (get_ht d n)) \<and>
     (case r of None \<Rightarrow> \<forall>e \<in> set (ht_entries (get_ht d n)). canon (de_key e) \<noteq> canon key
      | Some p \<Rightarrow> \<exists>e. deref d (n, i, p) = Some e \<and> canon (de_key e) = canon key)"
proof -
  let ?ht = "get_ht d n"
  have i: "i < length (ht_table ?ht)" unfolding i_def by (rule hash_index_bound [OF assms(1,2)])
  then have b: "bucket ?ht i = Some (ht_table ?ht ! i)" by (simp add: bucket_def)
  then have s: "search_table d key (hashFunction t key) n = Some (i, chain_pos t key (ht_table ?ht ! i))"
    by (simp add: search_table_def Let_def ty flip: i_def)
  have none: "canon (de_key e) \<noteq> canon key"
    if "chain_pos t key (ht_table ?ht ! i) = None" and e: "e \<in> set (ht_entries ?ht)" for e
  proof
    assume eq: "canon (de_key e) = canon key"
    from e obtain j where j: "j < length (ht_table ?ht)" "e \<in> set (ht_table ?ht ! j)"
      by (auto simp: mem_ht_entries)
    with wf have "hash_index (hashFunction t (de_key e)) (ht_sizemask ?ht) = j"
      by (auto simp: ht_wf_def)
    with hash_canon [OF eq] have "j = i" by (simp add: i_def)
    with j that(1) have "canon key \<noteq> canon (de_key e)"
      by (simp add: chain_pos_None key_matches_canon)
    with eq show False by simp
  qed
  show ?thesis
  proof (cases "chain_pos t key (ht_table ?ht ! i)")
    case None
    with s i none show ?thesis by auto
  next
    case (Some p)
    from chain_pos_Some [OF Some] b Some s i show ?thesis
      by (auto simp: deref_def key_matches_canon)
  qed
qed

lemma search_tables_spec:
  assumes wf: "dict_wf t canon d" and sz: "ht_size (ht0 d) > 0"
  shows "\<exists>r. search_tables d key (hashFunction t key) = Some r \<and>
     (case r of
        Inr (n, i, p) \<Rightarrow> (dictIsRehashing d \<or> n = 0) \<and> n \<le> 1 \<and>
          (\<exists>e. deref d (n, i, p) = Some e \<and> canon (de_key e) = canon key)
      | Inl i \<Rightarrow> (\<forall>e \<in> set (dict_entries d). canon (de_key e) \<noteq> canon key) \<and>
          (let ht = get_ht d (if dictIsRehashing d then 1 else 0) in
             i = hash_index (hashFunction t key) (ht_sizemask ht) \<and> i < length (ht_table ht)))"
proof -
  have ty: "d_type d = t" and w0: "ht_wf t (get_ht d 0)" and w1: "ht_wf t (get_ht d 1)"
    using wf by (simp_all add: dict_wf_def get_ht_def)
  have s0: "ht_size (get_ht d 0) > 0" using sz by (simp add: get_ht_def)
  obtain i r where r: "search_table d key (hashFunction t key) 0 = Some (i, r)"
    and i: "i = hash_index (hashFunction t key) (ht_sizemask (get_ht d 0))" "i < length (ht_table (get_ht d 0))"
    and c: "case r of None \<Rightarrow> \<forall>e \<in> set (ht_entries (get_ht d 0)). canon (de_key e) \<noteq> canon key
      | Some p \<Rightarrow> \<exists>e. deref d (0, i, p) = Some e \<and> canon (de_key e) = canon key"
    using search_table_spec [OF w0 s0 ty, of key] by blast
  show ?thesis
  proof (cases "r \<noteq> None \<or> \<not> dictIsRehashing d")
    case True
    with r i c wf show ?thesis
      by (auto simp: search_tables_def get_ht_def dict_entries_def dict_wf_def Let_def split: option.splits)
  next
    case False
    then have s1: "ht_size (get_ht d 1) > 0" using wf by (simp add: dict_wf_def get_ht_def)
    obtain i' r' where r': "search_table d key (hashFunction t key) 1 = Some (i', r')"
      and i': "i' = hash_index (hashFunction t key) (ht_sizemask (get_ht d 1))" "i' < length (ht_table (get_ht d 1))"
      and c': "case r' of None \<Rightarrow> \<forall>e \<in> set (ht_entries (get_ht d 1)). canon (de_key e) \<noteq> canon key
        | Some p \<Rightarrow> \<exists>e. deref d (1, i', p) = Some e \<and> canon (de_key e) = canon key"
      using search_table_spec [OF w1 s1 ty, of key] by blast
    from False r r' i' c c' show ?thesis
      by (auto simp: search_tables_def get_ht_def dict_entries_def Let_def split: option.splits)
  qed
qed


text \<open>The map after the possible rehashing step at the start of an operation.\<close>

lemma dict_step_wf: "dict_wf t canon d \<Longrightarrow> dict_step d d' \<Longrightarrow> dict_map canon d' = dict_map canon d"
  by (rule dict_map_step)

lemma dictFind_spec:
  assumes wf: "dict_wf t canon d"
  shows "\<exists>d' r. dictFind key d = Some (d', r) \<and> dict_wf t canon d' \<and> dict_step d d' \<and>
     (case r of None \<Rightarrow> dict_map canon d (canon key) = None
      | Some (n, i, p) \<Rightarrow> (dictIsRehashing d' \<or> n = 0) \<and>
          (\<exists>e. deref d' (n, i, p) = Some e \<and> canon (de_key e) = canon key \<and>
             dict_map canon d (canon key) = Some (de_val e)))"
proof (cases "ht_used (ht0 d) + ht_used (ht1 d) = 0")
  case True
  then have "dict_entries d = []" using dict_wf_used [OF wf] by (simp add: dictSize_def)
  then have "dict_map canon d (canon key) = None" by (simp add: dict_map_None)
  with True wf show ?thesis by (simp add: dictFind_def)
next
  case False
  obtain d' where d': "rehash_if_needed d = Some d'" "dict_wf t canon d'" "dict_step d d'"
    using rehash_if_needed_spec [OF wf] by blast
  have "dict_entries d \<noteq> []" using False dict_wf_used [OF wf] by (auto simp: dictSize_def)
  then have "mset (dict_entries d') \<noteq> {#}" using d'(3) by (simp add: dict_step_def)
  then have sz: "ht_size (ht0 d') > 0" using dict_wf_size [OF d'(2)] by simp
  have ty: "d_type d' = t" and dist: "distinct (map (\<lambda>e. canon (de_key e)) (dict_entries d'))"
    using d'(2) by (simp_all add: dict_wf_def)
  obtain r where r: "search_tables d' key (hashFunction t key) = Some r"
    "case r of Inr (n, i, p) \<Rightarrow> (dictIsRehashing d' \<or> n = 0) \<and> n \<le> 1 \<and>
          (\<exists>e. deref d' (n, i, p) = Some e \<and> canon (de_key e) = canon key)
      | Inl i \<Rightarrow> (\<forall>e \<in> set (dict_entries d'). canon (de_key e) \<noteq> canon key) \<and>
          (let ht = get_ht d' (if dictIsRehashing d' then 1 else 0) in
             i = hash_index (hashFunction t key) (ht_sizemask ht) \<and> i < length (ht_table ht))"
    using search_tables_spec [OF d'(2) sz] by blast
  have find: "dictFind key d = Some (d', case r of Inl _ \<Rightarrow> None | Inr he \<Rightarrow> Some he)"
    using False d'(1) r(1) ty by (auto simp: dictFind_def)
  show ?thesis
  proof (cases r)
    case (Inl i)
    with r(2) have "dict_map canon d' (canon key) = None" by (simp add: dict_map_None)
    with Inl find d' dict_step_wf [OF wf d'(3)] show ?thesis by simp
  next
    case (Inr ref)
    obtain n i p where ref: "ref = (n, i, p)" by (cases ref)
    from r(2) Inr ref obtain e where e: "dictIsRehashing d' \<or> n = 0" "deref d' (n, i, p) = Some e"
      "canon (de_key e) = canon key" by auto
    with dict_map_mem [OF dist deref_mem [OF e(2,1)]] dict_step_wf [OF wf d'(3)] find d' Inr ref
    show ?thesis by simp
  qed
qed

lemma dictFetchValue_spec:
  assumes "dict_wf t canon d"
  shows "\<exists>d'. dictFetchValue key d = Some (d', case dict_map canon d (canon key) of None \<Rightarrow> None | Some v \<Rightarrow> v) \<and>
     dict_wf t canon d' \<and> dict_map canon d' = dict_map canon d"
proof -
  obtain d' r where f: "dictFind key d = Some (d', r)" "dict_wf t canon d'" "dict_step d d'"
    "case r of None \<Rightarrow> dict_map canon d (canon key) = None
      | Some (n, i, p) \<Rightarrow> (dictIsRehashing d' \<or> n = 0) \<and>
          (\<exists>e. deref d' (n, i, p) = Some e \<and> canon (de_key e) = canon key \<and>
             dict_map canon d (canon key) = Some (de_val e))"
    using dictFind_spec [OF assms, of key] by blast
  have "dictFetchValue key d = Some (d', case dict_map canon d (canon key) of None \<Rightarrow> None | Some v \<Rightarrow> v)"
    using f(1,4) by (cases r) (auto simp: dictFetchValue_def)
  with f dict_step_wf [OF assms f(3)] show ?thesis by blast
qed

lemma dictSetVal_spec:
  assumes wf: "dict_wf t canon d" and e: "deref d (n, i, p) = Some e" and n: "dictIsRehashing d \<or> n = 0"
  shows "\<exists>d'. dictSetVal (n, i, p) val d = Some d' \<and> dict_wf t canon d' \<and>
     dict_map canon d' = (dict_map canon d)(canon (de_key e) \<mapsto>
        Some (case valDup t of Some f \<Rightarrow> f val | None \<Rightarrow> val))"
proof -
  obtain c where b: "bucket (get_ht d n) i = Some c" and p: "p < length c" and ec: "e = c ! p"
    using e by (auto simp: deref_def split: option.splits if_splits)
  let ?v = "case valDup t of Some f \<Rightarrow> f val | None \<Rightarrow> val"
  let ?e = "e\<lparr>de_val := Some ?v\<rparr>" and ?ht = "get_ht d n"
  let ?d = "set_ht n ((set_bucket i (c[p := ?e]) ?ht)\<lparr>ht_used := ht_used ?ht\<rparr>) d"
  have ty: "d_type d = t" and dist: "distinct (map (\<lambda>e. canon (de_key e)) (dict_entries d))"
    using wf by (simp_all add: dict_wf_def)
  have sv: "dictSetVal (n, i, p) val d = Some ?d"
    using b p ec ty by (simp add: dictSetVal_def Let_def set_bucket_used_id)
  have mc: "mset (c[p := ?e]) + {#e#} = mset c + {#?e#}"
    using p ec by (simp add: mset_update)
  have m: "add_mset e (mset (dict_entries ?d)) = add_mset ?e (mset (dict_entries d))"
  proof -
    have "(mset (dict_entries ?d) + {#e#}) + mset c = (mset (dict_entries ?d) + mset c) + {#e#}"
      by (simp add: ac_simps)
    also have "\<dots> = mset (dict_entries d) + (mset (c[p := ?e]) + {#e#})"
      using set_ht_entries [OF b] by (simp add: ac_simps)
    also have "\<dots> = (mset (dict_entries d) + {#?e#}) + mset c"
      by (simp only: mc) (simp add: ac_simps)
    finally show ?thesis by simp
  qed
  let ?k = "\<lambda>e. canon (de_key e)"
  have "image_mset ?k (mset (dict_entries ?d)) = image_mset ?k (mset (dict_entries d))"
    using arg_cong [OF m, of "image_mset ?k"] by simp
  then have dist': "distinct (map ?k (dict_entries ?d))"
    using dist mset_eq_imp_distinct_iff by (metis mset_map)
  have w: "dict_wf t canon ?d"
  proof (rule set_ht_wf [OF wf b _ _ n _ dist' refl])
    have w: "ht_wf t ?ht" using wf by (simp add: dict_wf_def get_ht_def)
    show "hash_index (hashFunction t (de_key x)) (ht_sizemask ?ht) = i" if "x \<in> set (c[p := ?e])" for x
      using that chain_hash [OF w b] p ec set_update_subset_insert [of c p ?e] by (auto dest!: subsetD)
    show "c[p := ?e] = []" if "dictIsRehashing d" "n = 0" "i < nat (rehashidx d)"
      using that wf b by (auto simp: dict_wf_def ht_wf_def get_ht_def bucket_def split: if_splits)
  qed simp
  from deref_mem [OF e n] have "mset (dict_entries d) = add_mset e (mset (dict_entries d) - {#e#})"
    by (simp add: insert_DiffM)
  then have "add_mset e (mset (dict_entries ?d)) = add_mset e (add_mset ?e (mset (dict_entries d) - {#e#}))"
    using m by (simp add: add_mset_commute [of e ?e])
  then have "mset (dict_entries ?d) = add_mset ?e (mset (dict_entries d) - {#e#})" by simp
  from dict_map_replace [OF \<open>mset (dict_entries d) = _\<close> this _ dist dist']
  have "dict_map canon ?d = (dict_map canon d)(canon (de_key e) \<mapsto> Some ?v)" by simp
  with sv w show ?thesis by blast
qed

text \<open>Pushing a new entry for an absent key on its bucket.\<close>

lemma push_entry_spec:
  assumes wf: "dict_wf t canon d" and n: "n = (if dictIsRehashing d then 1 else 0)"
    and b: "bucket (get_ht d n) i = Some c"
    and i: "i = hash_index (hashFunction t key) (ht_sizemask (get_ht d n))"
    and e: "canon (de_key e) = canon key" and absent: "dict_map canon d (canon key) = None"
  defines "d' \<equiv> set_ht n ((set_bucket i (e # c) (get_ht d n))\<lparr>ht_used := ht_used (get_ht d n) + 1\<rparr>) d"
  shows "dict_wf t canon d' \<and> dict_map canon d' = (dict_map canon d)(canon key \<mapsto> de_val e) \<and>
     deref d' (n, i, 0) = Some e \<and> dictIsRehashing d' = dictIsRehashing d"
proof -
  have m: "mset (dict_entries d') = add_mset e (mset (dict_entries d))"
    using set_ht_entries [OF b, of "ht_used (get_ht d n) + 1" "e # c"] by (simp add: d'_def)
  have "distinct (map (\<lambda>e. canon (de_key e)) (e # dict_entries d))"
    using wf absent e by (auto simp: dict_wf_def dict_map_None)
  then have dist: "distinct (map (\<lambda>e. canon (de_key e)) (dict_entries d'))"
    using distinct_map_mset_cong [of "dict_entries d'" "e # dict_entries d" "\<lambda>e. canon (de_key e)"] m by simp
  have w: "dict_wf t canon d'"
  proof (rule set_ht_wf [OF wf b _ _ _ _ dist d'_def [THEN meta_eq_to_obj_eq]])
    have "ht_wf t (get_ht d n)" using wf by (simp add: dict_wf_def get_ht_def)
    with chain_hash [OF this b] hash_canon [OF e] i
    show "hash_index (hashFunction t (de_key x)) (ht_sizemask (get_ht d n)) = i" if "x \<in> set (e # c)" for x
      using that by auto
  qed (use n in auto)
  have "deref d' (n, i, 0) = Some e"
    using b by (auto simp: deref_def d'_def get_ht_def set_ht_def bucket_def set_bucket_def split: if_splits)
  with w dict_map_insert [OF m dist] e show ?thesis by (simp add: d'_def)
qed

lemma dictKeyIndex_spec:
  assumes wf: "dict_wf t canon d" and small: "ht_used (ht0 d) \<le> 2 ^ 30"
  shows "\<exists>d' index ex. dictKeyIndex cr key (hashFunction t key) d = Some (d', index, ex) \<and>
     dict_wf t canon d' \<and> dict_step d d' \<and>
     (if dict_map canon d (canon key) = None
      then ex = None \<and> (let ht = get_ht d' (if dictIsRehashing d' then 1 else 0);
              i = hash_index (hashFunction t key) (ht_sizemask ht)
            in index = int i \<and> i < length (ht_table ht))
      else index = -1 \<and> (\<exists>n i p e. ex = Some (n, i, p) \<and> (dictIsRehashing d' \<or> n = 0) \<and>
         deref d' (n, i, p) = Some e \<and> canon (de_key e) = canon key))"
proof -
  obtain d' where d': "dictExpandIfNeeded cr d = (d', DICT_OK)" "dict_wf t canon d'" "dict_step d d'"
    "ht_size (ht0 d') > 0"
    using dictExpandIfNeeded_spec [OF wf small] by blast
  have map: "dict_map canon d' = dict_map canon d" by (rule dict_step_wf [OF wf d'(3)])
  obtain r where r: "search_tables d' key (hashFunction t key) = Some r"
    "case r of Inr (n, i, p) \<Rightarrow> (dictIsRehashing d' \<or> n = 0) \<and> n \<le> 1 \<and>
          (\<exists>e. deref d' (n, i, p) = Some e \<and> canon (de_key e) = canon key)
      | Inl i \<Rightarrow> (\<forall>e \<in> set (dict_entries d'). canon (de_key e) \<noteq> canon key) \<and>
          (let ht = get_ht d' (if dictIsRehashing d' then 1 else 0) in
             i = hash_index (hashFunction t key) (ht_sizemask ht) \<and> i < length (ht_table ht))"
    using search_tables_spec [OF d'(2,4)] by blast
  show ?thesis
  proof (cases r)
    case (Inl i)
    let ?ht = "get_ht d' (if dictIsRehashing d' then 1 else 0)"
    from Inl r(2) have i: "i = hash_index (hashFunction t key) (ht_sizemask ?ht)" "i < length (ht_table ?ht)"
      and none: "dict_map canon d' (canon key) = None" by (auto simp: Let_def dict_map_None)
    have "ht_wf t ?ht" "ht_size ?ht > 0" using d'(2,4) by (auto simp: dict_wf_def get_ht_def)
    then have "sint (of_nat i :: u32) = int i" unfolding i(1) by (rule hash_index_int)
    with d' r(1) Inl i none map show ?thesis by (simp add: dictKeyIndex_def Let_def)
  next
    case (Inr ref)
    obtain n i p where ref: "ref = (n, i, p)" by (cases ref)
    from Inr r(2) ref obtain e where e: "dictIsRehashing d' \<or> n = 0" "deref d' (n, i, p) = Some e"
      "canon (de_key e) = canon key" by auto
    have "dict_map canon d' (canon key) = Some (de_val e)"
      using dict_map_mem [OF _ deref_mem [OF e(2,1)], of canon] d'(2) e(3) by (simp add: dict_wf_def)
    with d' r(1) Inr ref e map show ?thesis by (simp add: dictKeyIndex_def)
  qed
qed

lemma dictAddRaw_spec:
  assumes wf: "dict_wf t canon d" and small: "dictSize d \<le> 2 ^ 30"
  shows "\<exists>d' new ex. dictAddRaw cr key d = Some (d', new, ex) \<and> dict_wf t canon d' \<and>
     (if dict_map canon d (canon key) = None
      then ex = None \<and> (\<exists>n i. new = Some (n, i, 0) \<and> (dictIsRehashing d' \<or> n = 0) \<and>
             (\<exists>e. deref d' (n, i, 0) = Some e \<and> canon (de_key e) = canon key \<and>
               (keyDup t = None \<longrightarrow> de_key e = key))) \<and>
           dict_map canon d' = (dict_map canon d)(canon key \<mapsto> None)
      else new = None \<and> (\<exists>n i p e. ex = Some (n, i, p) \<and> (dictIsRehashing d' \<or> n = 0) \<and>
             deref d' (n, i, p) = Some e \<and> canon (de_key e) = canon key) \<and>
           dict_map canon d' = dict_map canon d)"
proof -
  obtain d1 where d1: "rehash_if_needed d = Some d1" "dict_wf t canon d1" "dict_step d d1"
    using rehash_if_needed_spec [OF wf] by blast
  have "dictSize d1 = dictSize d"
    using dict_wf_used [OF wf] dict_wf_used [OF d1(2)] d1(3) by (metis dict_step_def size_mset)
  then have "ht_used (ht0 d1) \<le> 2 ^ 30" using small by (simp add: dictSize_def)
  from dictKeyIndex_spec [OF d1(2) this, of cr key] obtain d2 index ex where
    d2: "dictKeyIndex cr key (hashFunction t key) d1 = Some (d2, index, ex)" "dict_wf t canon d2" "dict_step d1 d2"
    and res: "if dict_map canon d1 (canon key) = None
      then ex = None \<and> (let ht = get_ht d2 (if dictIsRehashing d2 then 1 else 0);
              i = hash_index (hashFunction t key) (ht_sizemask ht)
            in index = int i \<and> i < length (ht_table ht))
      else index = -1 \<and> (\<exists>n i p e. ex = Some (n, i, p) \<and> (dictIsRehashing d2 \<or> n = 0) \<and>
         deref d2 (n, i, p) = Some e \<and> canon (de_key e) = canon key)"
    by blast
  have ty: "d_type d1 = t" "d_type d2 = t" using d1(2) d2(2) by (simp_all add: dict_wf_def)
  have map: "dict_map canon d1 = dict_map canon d" "dict_map canon d2 = dict_map canon d"
    using dict_step_wf [OF wf d1(3)] dict_step_wf [OF d1(2) d2(3)] by simp_all
  show ?thesis
  proof (cases "dict_map canon d (canon key) = None")
    case False
    with res map have "index = -1" by simp
    with d1 d2 ty have "dictAddRaw cr key d = Some (d2, None, ex)" by (simp add: dictAddRaw_def)
    with False res map d2(2) show ?thesis by auto
  next
    case True
    define n where "n = (if dictIsRehashing d2 then 1 else 0 :: nat)"
    define i where "i = hash_index (hashFunction t key) (ht_sizemask (get_ht d2 n))"
    define e where "e = \<lparr>de_key = case keyDup t of Some f \<Rightarrow> f key | None \<Rightarrow> key, de_val = None :: 'v option\<rparr>"
    from True res map have idx: "index = int i" "i < length (ht_table (get_ht d2 n))" "ex = None"
      by (auto simp: Let_def n_def i_def)
    then obtain c where c: "bucket (get_ht d2 n) i = Some c" by (simp add: bucket_def)
    have ek: "canon (de_key e) = canon key"
      by (auto simp: e_def keyDup_canon split: option.splits)
    let ?d = "set_ht n ((set_bucket i (e # c) (get_ht d2 n))\<lparr>ht_used := ht_used (get_ht d2 n) + 1\<rparr>) d2"
    have "dictAddRaw cr key d = Some (?d, Some (n, i, 0), None)"
      using d1 d2 ty idx c by (simp add: dictAddRaw_def Let_def n_def e_def)
    moreover have "dict_wf t canon ?d \<and> dict_map canon ?d = (dict_map canon d2)(canon key \<mapsto> de_val e) \<and>
        deref ?d (n, i, 0) = Some e \<and> dictIsRehashing ?d = dictIsRehashing d2"
      using True map by (intro push_entry_spec [OF d2(2) n_def c i_def ek]) simp
    ultimately show ?thesis using True map ek by (auto simp: n_def e_def)
  qed
qed

abbreviation dup_val :: "'v \<Rightarrow> 'v" where
  "dup_val v \<equiv> (case valDup t of Some f \<Rightarrow> f v | None \<Rightarrow> v)"

lemma dictAdd_spec:
  assumes wf: "dict_wf t canon d" and small: "dictSize d \<le> 2 ^ 30"
  shows "\<exists>d'. dict_wf t canon d' \<and>
     (if dict_map canon d (canon key) = None
      then dictAdd cr key val d = Some (d', DICT_OK) \<and>
           dict_map canon d' = (dict_map canon d)(canon key \<mapsto> Some (dup_val val))
      else dictAdd cr key val d = Some (d', DICT_ERR) \<and> dict_map canon d' = dict_map canon d)"
proof (cases "dict_map canon d (canon key) = None")
  case True
  from dictAddRaw_spec [OF assms, of cr key] True obtain d1 n i e where
    a: "dictAddRaw cr key d = Some (d1, Some (n, i, 0), None)" "dict_wf t canon d1"
      "dictIsRehashing d1 \<or> n = 0" "deref d1 (n, i, 0) = Some e" "canon (de_key e) = canon key"
      "dict_map canon d1 = (dict_map canon d)(canon key \<mapsto> None)"
    by auto
  from dictSetVal_spec [OF a(2,4,3)] obtain d2 where
    "dictSetVal (n, i, 0) val d1 = Some d2" "dict_wf t canon d2"
    "dict_map canon d2 = (dict_map canon d1)(canon (de_key e) \<mapsto> Some (dup_val val))"
    by blast
  with a True show ?thesis by (auto simp: dictAdd_def)
next
  case False
  with dictAddRaw_spec [OF assms, of cr key] show ?thesis by (auto simp: dictAdd_def)
qed

lemma dictReplace_spec:
  assumes wf: "dict_wf t canon d" and small: "dictSize d \<le> 2 ^ 30"
  shows "\<exists>d'. dictReplace cr key val d = Some (d', dict_map canon d (canon key) = None) \<and>
     dict_wf t canon d' \<and> dict_map canon d' = (dict_map canon d)(canon key \<mapsto> Some (dup_val val))"
proof (cases "dict_map canon d (canon key) = None")
  case True
  from dictAddRaw_spec [OF assms, of cr key] True obtain d1 n i e where
    a: "dictAddRaw cr key d = Some (d1, Some (n, i, 0), None)" "dict_wf t canon d1"
      "dictIsRehashing d1 \<or> n = 0" "deref d1 (n, i, 0) = Some e" "canon (de_key e) = canon key"
      "dict_map canon d1 = (dict_map canon d)(canon key \<mapsto> None)"
    by auto
  from dictSetVal_spec [OF a(2,4,3)] obtain d2 where
    "dictSetVal (n, i, 0) val d1 = Some d2" "dict_wf t canon d2"
    "dict_map canon d2 = (dict_map canon d1)(canon (de_key e) \<mapsto> Some (dup_val val))"
    by blast
  with a True show ?thesis by (auto simp: dictReplace_def)
next
  case False
  from dictAddRaw_spec [OF assms, of cr key] False obtain d1 n i p e where
    a: "dictAddRaw cr key d = Some (d1, None, Some (n, i, p))" "dict_wf t canon d1"
      "dictIsRehashing d1 \<or> n = 0" "deref d1 (n, i, p) = Some e" "canon (de_key e) = canon key"
      "dict_map canon d1 = dict_map canon d"
    by auto
  from dictSetVal_spec [OF a(2,4,3)] obtain d2 where
    "dictSetVal (n, i, p) val d1 = Some d2" "dict_wf t canon d2"
    "dict_map canon d2 = (dict_map canon d1)(canon (de_key e) \<mapsto> Some (dup_val val))"
    by blast
  with a False show ?thesis by (auto simp: dictReplace_def)
qed

lemma unlink_entry_spec:
  assumes wf: "dict_wf t canon d" and n: "dictIsRehashing d \<or> n = 0"
    and b: "bucket (get_ht d n) i = Some c" and p: "p < length c"
  defines "d' \<equiv> set_ht n ((set_bucket i (remove_pos p c) (get_ht d n))\<lparr>ht_used := ht_used (get_ht d n) - 1\<rparr>) d"
  shows "dict_wf t canon d' \<and> dict_map canon d' = (dict_map canon d)(canon (de_key (c ! p)) := None) \<and>
    dictSize d = Suc (dictSize d')"
proof -
  have "mset (dict_entries d') + add_mset (c ! p) (mset (remove_pos p c))
      = mset (dict_entries d) + mset (remove_pos p c)"
    using set_ht_entries [OF b, of "ht_used (get_ht d n) - 1" "remove_pos p c"]
    by (simp add: d'_def flip: mset_remove_pos [OF p])
  then have m: "mset (dict_entries d) = add_mset (c ! p) (mset (dict_entries d'))"
    by simp
  have dist: "distinct (map (\<lambda>e. canon (de_key e)) (dict_entries d))"
    using wf by (simp add: dict_wf_def)
  then have dist': "distinct (map (\<lambda>e. canon (de_key e)) (dict_entries d'))"
    using distinct_map_mset_cong [of "dict_entries d" "c ! p # dict_entries d'" "\<lambda>e. canon (de_key e)"] m by simp
  have wht: "ht_wf t (get_ht d n)" using wf by (simp add: dict_wf_def get_ht_def)
  have used: "ht_used (get_ht d n) \<ge> length c"
  proof -
    have "size (mset c) \<le> size (mset (ht_entries (get_ht d n)))"
      using mset_set_bucket [OF b, of "[]"] by (metis add.right_neutral mset.simps(1) mset_subset_eq_add_right size_mset_mono)
    with wht show ?thesis by (simp add: ht_wf_def)
  qed
  have w: "dict_wf t canon d'"
  proof (rule set_ht_wf [OF wf b _ _ n _ dist' d'_def [THEN meta_eq_to_obj_eq]])
    show "hash_index (hashFunction t (de_key x)) (ht_sizemask (get_ht d n)) = i" if "x \<in> set (remove_pos p c)" for x
      using that chain_hash [OF wht b] remove_pos_simps(2) [of p c] by auto
    show "ht_used (get_ht d n) - 1 + length c = ht_used (get_ht d n) + length (remove_pos p c)"
      using used p remove_pos_simps(1) [OF p] by simp
    show "remove_pos p c = []" if "dictIsRehashing d" "n = 0" "i < nat (rehashidx d)"
      using that wf b p by (auto simp: dict_wf_def ht_wf_def get_ht_def bucket_def split: if_splits)
  qed
  have "dictSize d = Suc (dictSize d')"
    using dict_wf_used [OF wf] dict_wf_used [OF w] arg_cong [OF m, of size] by simp
  with w dict_map_remove [OF m dist] show ?thesis by simp
qed

lemma dictGenericDelete_spec:
  assumes wf: "dict_wf t canon d"
  shows "\<exists>d' he. dictGenericDelete key d = Some (d', he) \<and> dict_wf t canon d' \<and>
     dict_map canon d' = (dict_map canon d)(canon key := None) \<and>
     (case he of None \<Rightarrow> dict_map canon d (canon key) = None
      | Some e \<Rightarrow> canon (de_key e) = canon key \<and> dict_map canon d (canon key) = Some (de_val e))"
proof (cases "ht_used (ht0 d) = 0 \<and> ht_used (ht1 d) = 0")
  case True
  then have "dict_entries d = []" using dict_wf_used [OF wf] by (simp add: dictSize_def)
  then have "dict_map canon d = Map.empty" by (simp add: dict_map_def)
  with True wf show ?thesis by (simp add: dictGenericDelete_def)
next
  case False
  obtain d' where d': "rehash_if_needed d = Some d'" "dict_wf t canon d'" "dict_step d d'"
    using rehash_if_needed_spec [OF wf] by blast
  have map: "dict_map canon d' = dict_map canon d" by (rule dict_step_wf [OF wf d'(3)])
  have "dict_entries d \<noteq> []" using False dict_wf_used [OF wf] by (auto simp: dictSize_def)
  then have "mset (dict_entries d') \<noteq> {#}" using d'(3) by (simp add: dict_step_def)
  then have sz: "ht_size (ht0 d') > 0" using dict_wf_size [OF d'(2)] by simp
  have ty: "d_type d' = t" using d'(2) by (simp_all add: dict_wf_def)
  obtain r where r: "search_tables d' key (hashFunction t key) = Some r"
    "case r of Inr (n, i, p) \<Rightarrow> (dictIsRehashing d' \<or> n = 0) \<and> n \<le> 1 \<and>
          (\<exists>e. deref d' (n, i, p) = Some e \<and> canon (de_key e) = canon key)
      | Inl i \<Rightarrow> (\<forall>e \<in> set (dict_entries d'). canon (de_key e) \<noteq> canon key) \<and>
          (let ht = get_ht d' (if dictIsRehashing d' then 1 else 0) in
             i = hash_index (hashFunction t key) (ht_sizemask ht) \<and> i < length (ht_table ht))"
    using search_tables_spec [OF d'(2) sz] by blast
  show ?thesis
  proof (cases r)
    case (Inl i)
    with r(2) have "dict_map canon d' (canon key) = None" by (simp add: dict_map_None)
    with map have none: "dict_map canon d (canon key) = None" by simp
    then have "dict_map canon d' = (dict_map canon d)(canon key := None)" using map by auto
    with Inl False d' r(1) ty none show ?thesis by (auto simp: dictGenericDelete_def)
  next
    case (Inr ref)
    obtain n i p where ref: "ref = (n, i, p)" by (cases ref)
    from r(2) Inr ref obtain e where e: "dictIsRehashing d' \<or> n = 0" "deref d' (n, i, p) = Some e"
      "canon (de_key e) = canon key" by auto
    then obtain c where c: "bucket (get_ht d' n) i = Some c" "p < length c" "e = c ! p"
      by (auto simp: deref_def split: option.splits if_splits)
    let ?d = "set_ht n ((set_bucket i (remove_pos p c) (get_ht d' n))\<lparr>ht_used := ht_used (get_ht d' n) - 1\<rparr>) d'"
    have "dictGenericDelete key d = Some (?d, Some e)"
      using False d'(1) r(1) Inr ref ty e c by (auto simp: dictGenericDelete_def)
    moreover have "dict_map canon d (canon key) = Some (de_val e)"
      using dict_map_mem [OF _ deref_mem [OF e(2,1)], of canon] d'(2) e(3) map by (simp add: dict_wf_def)
    ultimately show ?thesis
      using unlink_entry_spec [OF d'(2) e(1) c(1,2)] c(3) e(3) map by auto
  qed
qed

lemma dictDelete_spec:
  assumes "dict_wf t canon d"
  shows "\<exists>d'. dictDelete key d = Some (d', if dict_map canon d (canon key) = None then DICT_ERR else DICT_OK) \<and>
     dict_wf t canon d' \<and> dict_map canon d' = (dict_map canon d)(canon key := None)"
proof -
  obtain d' he where "dictGenericDelete key d = Some (d', he)" "dict_wf t canon d'"
     "dict_map canon d' = (dict_map canon d)(canon key := None)"
     "case he of None \<Rightarrow> dict_map canon d (canon key) = None
      | Some e \<Rightarrow> canon (de_key e) = canon key \<and> dict_map canon d (canon key) = Some (de_val e)"
    using dictGenericDelete_spec [OF assms, of key] by blast
  then show ?thesis by (cases he) (auto simp: dictDelete_def)
qed

lemma dictCreate_spec: "dict_wf t canon (dictCreate t) \<and> dict_map canon (dictCreate t) = Map.empty"
  by (simp add: dictCreate_def dict_wf_def dict_map_def dict_entries_def dictIsRehashing_def)

lemma dictEmpty_spec:
  "dict_wf t canon d \<Longrightarrow> dict_wf t canon (dictEmpty d) \<and> dict_map canon (dictEmpty d) = Map.empty"
  by (simp add: dictEmpty_def dict_wf_def dict_map_def dict_entries_def dictIsRehashing_def)

end

end
