(* ===== verification/Dict_Scan.thy ===== *)
theory Dict_Scan
  imports Dict_Map
begin

unbundle bit_operations_syntax

section \<open>The stateless iterator: \<open>rev\<close> and \<open>dictScan\<close>\<close>

text \<open>
  \<open>rev\<close> is the bit reversal by halving exchange.
\<close>

function rev_loop :: "nat \<Rightarrow> u64 \<Rightarrow> u64 \<Rightarrow> u64" where
  "rev_loop s m v =
     (let s = s div 2 in
      if s > 0 then
        let m = m XOR push_bit s m in
          rev_loop s m ((drop_bit s v AND m) OR (push_bit s v AND NOT m))
      else v)"
  by pat_completeness auto
termination
  by (relation "measure (\<lambda>(s, _, _). s)") auto

definition rev_bits :: "u64 \<Rightarrow> u64" where
  "rev_bits v = rev_loop 64 (NOT 0) v"

declare rev_loop.simps [simp del]


text \<open>Where one pass with distance \<open>s\<close> takes bit \<open>n\<close> from.\<close>

definition rev_swap :: "nat \<Rightarrow> nat \<Rightarrow> nat" where
  "rev_swap s n = (if even (n div s) then n + s else n - s)"

lemma rev_mask_step:
  assumes "s > (0::nat)"
  shows "(even (n div (2 * s)) \<noteq> (s \<le> n \<and> even ((n - s) div (2 * s)))) = even (n div s)"
proof -
  define q where "q = n div s"
  have half: "m div (2 * s) = m div s div 2" for m by (metis div_mult2_eq mult.commute)
  have "s \<le> n \<longleftrightarrow> q \<ge> 1" using assms by (simp add: q_def div_greater_zero_iff Suc_le_eq)
  moreover have "s \<le> n \<Longrightarrow> (n - s) div s = q - 1" using assms by (simp add: q_def le_div_geq)
  moreover have "(even (q div 2) \<noteq> (q \<ge> 1 \<and> even ((q - 1) div 2))) = even q" by presburger
  ultimately show ?thesis by (auto simp: half simp flip: q_def)
qed

lemma rev_loop_step:
  assumes m: "\<forall>n < 64. bit m n = even (n div (2 * s))" and s: "s \<in> {1, 2, 4, 8, 16, 32}"
  shows "\<exists>m' v'. rev_loop (2 * s) m v = rev_loop s m' v' \<and>
     (\<forall>n < 64. bit m' n = even (n div s)) \<and> (\<forall>n < 64. bit v' n = bit v (rev_swap s n))"
proof -
  let ?m = "m XOR push_bit s m"
  let ?v = "(drop_bit s v AND ?m) OR (push_bit s v AND NOT ?m)"
  have "rev_loop (2 * s) m v = rev_loop s ?m ?v"
    using s by (subst rev_loop.simps) (auto simp: Let_def)
  moreover have m': "\<forall>n < 64. bit ?m n = even (n div s)"
  proof (intro allI impI)
    fix n :: nat assume n: "n < 64"
    have "bit ?m n = (even (n div (2 * s)) \<noteq> (s \<le> n \<and> even ((n - s) div (2 * s))))"
      using n m by (auto simp: bit_simps)
    then show "bit ?m n = even (n div s)" using rev_mask_step [of s n] s by auto
  qed
  moreover have "\<forall>n < 64. bit ?v n = bit v (rev_swap s n)"
  proof (intro allI impI)
    fix n :: nat assume n: "n < 64"
    have odd: "odd (n div s) \<Longrightarrow> s \<le> n" by (metis div_less even_zero not_le_imp_less)
    have "bit ?v n = (if bit ?m n then bit v (s + n) else s \<le> n \<and> bit v (n - s))"
      using n by (auto simp: bit_or_iff bit_and_iff bit_not_iff bit_drop_bit_eq bit_push_bit_iff)
    then show "bit ?v n = bit v (rev_swap s n)"
      using m' n odd by (simp add: rev_swap_def add.commute)
  qed
  ultimately show ?thesis by blast
qed

lemma upt_64: "[0..<64] =
    [0, 1, 2, 3, 4, 5, 6, 7, 8, 9, 10, 11, 12, 13, 14, 15,
     16, 17, 18, 19, 20, 21, 22, 23, 24, 25, 26, 27, 28, 29, 30, 31,
     32, 33, 34, 35, 36, 37, 38, 39, 40, 41, 42, 43, 44, 45, 46, 47,
     48, 49, 50, 51, 52, 53, 54, 55, 56, 57, 58, 59, 60, 61, 62, 63]"
  by (simp add: upt_rec)

lemma rev_swap_all:
  assumes "n < 64"
  shows "rev_swap 32 (rev_swap 16 (rev_swap 8 (rev_swap 4 (rev_swap 2 (rev_swap 1 n))))) = 63 - n"
proof -
  have "list_all (\<lambda>n. rev_swap 32 (rev_swap 16 (rev_swap 8 (rev_swap 4 (rev_swap 2 (rev_swap 1 n))))) = 63 - n) [0..<64]"
    unfolding upt_64 by (simp only: list.pred_inject) (simp add: rev_swap_def)
  with assms show ?thesis by (simp add: list_all_iff)
qed

lemma rev_swap_bound:
  assumes "s \<in> {1, 2, 4, 8, 16, 32}" and "n < 64"
  shows "rev_swap s n < 64"
proof -
  have "list_all (\<lambda>s. list_all (\<lambda>n. rev_swap s n < 64) [0..<64]) [1, 2, 4, 8, 16, 32]"
    unfolding upt_64 by (simp only: list.pred_inject) (simp add: rev_swap_def)
  with assms show ?thesis by (auto simp: list_all_iff)
qed

lemma bit_rev_bits: "n < 64 \<Longrightarrow> bit (rev_bits v) n = bit v (63 - n)"
proof -
  assume n: "n < 64"
  have "\<forall>n < 64. bit (NOT 0 :: u64) n = even (n div (2 * 32))" by simp
  from rev_loop_step [OF this, of v] obtain m1 a1 where
    1: "rev_loop (2 * 32) (NOT 0) v = rev_loop 32 m1 a1" "\<forall>n < 64. bit m1 n = even (n div (2 * 16))"
       "\<forall>n < 64. bit a1 n = bit v (rev_swap 32 n)" by auto
  from rev_loop_step [OF 1(2), of a1] obtain m2 a2 where
    2: "rev_loop (2 * 16) m1 a1 = rev_loop 16 m2 a2" "\<forall>n < 64. bit m2 n = even (n div (2 * 8))"
       "\<forall>n < 64. bit a2 n = bit a1 (rev_swap 16 n)" by auto
  from rev_loop_step [OF 2(2), of a2] obtain m3 a3 where
    3: "rev_loop (2 * 8) m2 a2 = rev_loop 8 m3 a3" "\<forall>n < 64. bit m3 n = even (n div (2 * 4))"
       "\<forall>n < 64. bit a3 n = bit a2 (rev_swap 8 n)" by auto
  from rev_loop_step [OF 3(2), of a3] obtain m4 a4 where
    4: "rev_loop (2 * 4) m3 a3 = rev_loop 4 m4 a4" "\<forall>n < 64. bit m4 n = even (n div (2 * 2))"
       "\<forall>n < 64. bit a4 n = bit a3 (rev_swap 4 n)" by auto
  from rev_loop_step [OF 4(2), of a4] obtain m5 a5 where
    5: "rev_loop (2 * 2) m4 a4 = rev_loop 2 m5 a5" "\<forall>n < 64. bit m5 n = even (n div (2 * 1))"
       "\<forall>n < 64. bit a5 n = bit a4 (rev_swap 2 n)" by auto
  from rev_loop_step [OF 5(2), of a5] obtain m6 a6 where
    6: "rev_loop (2 * 1) m5 a5 = rev_loop 1 m6 a6"
       "\<forall>n < 64. bit a6 n = bit a5 (rev_swap 1 n)" by auto
  have "rev_bits v = a6"
    using 1(1) 2(1) 3(1) 4(1) 5(1) 6(1) by (simp add: rev_bits_def rev_loop.simps [of "Suc 0"])
  then have "bit (rev_bits v) n =
      bit v (rev_swap 32 (rev_swap 16 (rev_swap 8 (rev_swap 4 (rev_swap 2 (rev_swap 1 n))))))"
    using n 1(3) 2(3) 3(3) 4(3) 5(3) 6(2) by (simp add: rev_swap_bound)
  then show ?thesis using rev_swap_all [OF n] by simp
qed

lemma rev_bits_rev_bits [simp]: "rev_bits (rev_bits v) = v"
  by (rule bit_word_eqI) (simp add: bit_rev_bits)


text \<open>The cursor update at the end of \<open>dictScan\<close>.\<close>

definition next_cursor :: "u64 \<Rightarrow> u64 \<Rightarrow> u64" where
  "next_cursor v m0 = (let v = v OR NOT m0; v = rev_bits v; v = v + 1 in rev_bits v)"

text \<open>
  The \<open>do ... while\<close> loop over the larger table \<open>t1\<close>: the entries emitted so far are the
  accumulator; \<open>None\<close> is a loop that does not end or an index outside the table.
\<close>

partial_function (option) scan_loop ::
  "('k, 'v) dictht \<Rightarrow> u64 \<Rightarrow> u64 \<Rightarrow> u64 \<Rightarrow> ('k, 'v) dictEntry list \<Rightarrow>
     (u64 \<times> ('k, 'v) dictEntry list) option" where
  "scan_loop t1 m0 m1 v acc =
     (case bucket t1 (unat (v AND m1)) of
        None \<Rightarrow> None
      | Some c \<Rightarrow>
          let acc = acc @ c; v = (((v OR m0) + 1) AND NOT m0) OR (v AND m0) in
          if v AND (m0 XOR m1) \<noteq> 0 then scan_loop t1 m0 m1 v acc else Some (v, acc))"

text \<open>
  \<open>dictScan\<close>: the new cursor and the entries passed to \<open>fn\<close>, in order.
\<close>

definition dictScan ::
  "('k, 'v) dict \<Rightarrow> u64 \<Rightarrow> (u64 \<times> ('k, 'v) dictEntry list) option" where
  "dictScan d v =
     (if dictSize d = 0 then Some (0, [])
      else if \<not> dictIsRehashing d then
        let t0 = ht0 d; m0 = ht_sizemask t0 in do {
          c \<leftarrow> bucket t0 (unat (v AND m0));
          Some (next_cursor v m0, c)
        }
      else
        let (t0, t1) = (if ht_size (ht0 d) > ht_size (ht1 d) then (ht1 d, ht0 d) else (ht0 d, ht1 d));
            m0 = ht_sizemask t0; m1 = ht_sizemask t1 in do {
          c \<leftarrow> bucket t0 (unat (v AND m0));
          (v, es) \<leftarrow> scan_loop t1 m0 m1 v c;
          Some (next_cursor v m0, es)
        })"

subsection \<open>Reversed cursors\<close>

lemma unat_drop_bit: "unat (drop_bit j (x :: u64)) = unat x div 2 ^ j"
proof -
  have "unat x < 2 ^ 64" using unsigned_less [of x] by simp
  then have "take_bit 64 (unat x) = unat x" by (rule take_bit_nat_eq_self)
  then show ?thesis by (simp add: unsigned_drop_bit_eq flip: drop_bit_eq_div [of j "unat x"])
qed

lemma unat_mask: "j \<le> 64 \<Longrightarrow> unat (mask j :: u64) = 2 ^ j - 1"
proof -
  assume "j \<le> 64"
  then have "(2::nat) ^ j \<le> 2 ^ 64" by (intro power_increasing) simp_all
  then have "(2::nat) ^ j - 1 < 2 ^ 64" by simp
  moreover have "(mask j :: u64) = of_nat (2 ^ j - 1)" by (simp add: mask_eq_exp_minus_1)
  ultimately show ?thesis by (simp only: unsigned_of_nat) (simp add: take_bit_nat_eq_self)
qed

lemma bit_rev_bits_iff: "bit (rev_bits v) n \<longleftrightarrow> n < 64 \<and> bit v (63 - n)"
  using bit_rev_bits [of n v] bit_imp_le_length [of "rev_bits v" n] by auto

lemma rev_bits_0 [simp]: "rev_bits 0 = 0"
  by (rule bit_word_eqI) (simp add: bit_rev_bits)

text \<open>The order in which the scan visits hashes: the hash with its bits reversed.\<close>

definition rank :: "u64 \<Rightarrow> nat" where
  "rank v = unat (rev_bits v)"

lemma rank_less: "rank v < 2 ^ 64"
  using unsigned_less [of "rev_bits v"] by (simp add: rank_def)

lemma rank_0 [simp]: "rank 0 = 0"
  by (simp add: rank_def)

lemma same_bucket_rank:
  assumes "k \<le> 64"
  shows "h AND mask k = v AND mask k \<longleftrightarrow> rank h div 2 ^ (64 - k) = rank v div 2 ^ (64 - k)"
proof -
  have "rank x div 2 ^ (64 - k) = unat (drop_bit (64 - k) (rev_bits x))" for x
    by (simp only: rank_def unat_drop_bit)
  moreover have "h AND mask k = v AND mask k \<longleftrightarrow> drop_bit (64 - k) (rev_bits h) = drop_bit (64 - k) (rev_bits v)"
  proof
    assume eq: "h AND mask k = v AND mask k"
    have "bit h n = bit v n" if "n < k" for n
      using arg_cong [OF eq, of "\<lambda>w. bit w n"] that assms by (simp add: bit_simps)
    then show "drop_bit (64 - k) (rev_bits h) = drop_bit (64 - k) (rev_bits v)"
      using assms by (intro bit_word_eqI) (auto simp: bit_simps bit_rev_bits_iff)
  next
    assume eq: "drop_bit (64 - k) (rev_bits h) = drop_bit (64 - k) (rev_bits v)"
    have "bit h n = bit v n" if "n < k" for n
      using arg_cong [OF eq, of "\<lambda>w. bit w (k - 1 - n)"] that assms by (simp add: bit_simps bit_rev_bits)
    then show "h AND mask k = v AND mask k"
      using assms by (intro bit_word_eqI) (auto simp: bit_simps)
  qed
  ultimately show ?thesis by (simp add: word_unat_eq_iff)
qed

lemma unat_or_mask: "j \<le> 64 \<Longrightarrow> unat (x OR mask j :: u64) = unat x div 2 ^ j * 2 ^ j + (2 ^ j - 1)"
proof -
  assume j: "j \<le> 64"
  have d: "drop_bit j (x OR mask j) = drop_bit j x"
    by (rule bit_word_eqI) (auto simp: bit_simps)
  have t: "take_bit j (x OR mask j) = mask j"
    using j by (intro bit_word_eqI) (auto simp: bit_simps)
  have "unat (x OR mask j) div 2 ^ j = unat x div 2 ^ j"
    using arg_cong [OF d, of unat] by (simp only: unat_drop_bit)
  moreover have "unat (x OR mask j) mod 2 ^ j = 2 ^ j - 1"
    using arg_cong [OF t, of unat] unat_mask [OF j]
    by (simp only: unsigned_take_bit_eq take_bit_eq_mod [of j "unat (x OR mask j)"])
  ultimately show ?thesis by (metis div_mult_mod_eq)
qed

lemma rank_next_cursor:
  assumes "k \<le> 64"
  shows "rank (next_cursor v (mask k)) = (rank v div 2 ^ (64 - k) + 1) * 2 ^ (64 - k) mod 2 ^ 64"
proof -
  have "rev_bits (v OR NOT (mask k)) = rev_bits v OR mask (64 - k)"
    using assms by (intro bit_word_eqI) (auto simp: bit_simps bit_rev_bits)
  then have "rank (next_cursor v (mask k)) = unat ((rev_bits v OR mask (64 - k)) + 1)"
    by (simp add: rank_def next_cursor_def Let_def)
  also have "\<dots> = (unat (rev_bits v OR mask (64 - k)) + 1) mod 2 ^ 64"
    by (simp add: unat_word_ariths)
  also have "unat (rev_bits v OR mask (64 - k)) + 1 = (rank v div 2 ^ (64 - k) + 1) * 2 ^ (64 - k)"
    by (simp add: unat_or_mask rank_def)
  finally show ?thesis .
qed

lemma rank_eq_0: "rank v = 0 \<longleftrightarrow> v = 0"
proof
  assume "rank v = 0"
  then have "rev_bits v = 0" by (simp add: rank_def unsigned_eq_0_iff)
  then have "rev_bits (rev_bits v) = rev_bits 0" by simp
  then show "v = 0" by simp
qed simp

lemma next_cursor_passes:
  assumes k: "k \<le> 64" and le: "rank v \<le> rank h" and miss: "h AND mask k \<noteq> v AND mask k"
  shows "next_cursor v (mask k) \<noteq> 0 \<and> rank (next_cursor v (mask k)) \<le> rank h"
proof -
  let ?j = "2 ^ (64 - k) :: nat"
  have "rank v div ?j < rank h div ?j"
    using miss le same_bucket_rank [OF k, of h v] by (metis div_le_mono nat_less_le)
  then have "(rank v div ?j + 1) * ?j \<le> rank h div ?j * ?j" by (intro mult_le_mono) simp_all
  also have "\<dots> \<le> rank h" by simp
  finally have le': "(rank v div ?j + 1) * ?j \<le> rank h" .
  with rank_less [of h] have "rank (next_cursor v (mask k)) = (rank v div ?j + 1) * ?j"
    using rank_next_cursor [OF k, of v] by (simp del: mult_Suc)
  moreover have "(rank v div ?j + 1) * ?j > 0" by simp
  ultimately show ?thesis using le' rank_eq_0 by (metis less_irrefl)
qed

lemma next_cursor_cong:
  assumes "k \<le> 64" and "v AND mask k = w AND mask k"
  shows "next_cursor v (mask k) = next_cursor w (mask k)"
proof -
  have "rank (next_cursor v (mask k)) = rank (next_cursor w (mask k))"
    using assms same_bucket_rank [OF assms(1), of v w] by (simp add: rank_next_cursor)
  then show ?thesis by (metis rank_def rev_bits_rev_bits word_unat_eq_iff)
qed

subsection \<open>The expansion loop\<close>

lemma scan_expand_step:
  fixes T A :: u64
  assumes A: "A AND mask k0 = A"
  defines "v \<equiv> push_bit k0 T OR A"
  shows "(((v OR mask k0) + 1) AND NOT (mask k0)) OR (v AND mask k0) = push_bit k0 (T + 1) OR A"
proof -
  have "v OR mask k0 = push_bit k0 T OR mask k0"
  proof (rule bit_word_eqI)
    fix n assume "n < LENGTH(64)"
    have "bit A n \<Longrightarrow> n < k0" using arg_cong [OF A, of "\<lambda>w. bit w n"] by (simp add: bit_simps)
    then show "bit (v OR mask k0) n = bit (push_bit k0 T OR mask k0) n"
      by (auto simp: v_def bit_simps dest: bit_imp_le_length)
  qed
  also have "\<dots> = push_bit k0 T + mask k0"
    by (rule disjunctive_add_eq_or [symmetric]) (auto intro!: bit_word_eqI simp: bit_simps)
  also have "\<dots> + 1 = push_bit k0 (T + 1)"
    by (simp add: push_bit_eq_mult mask_eq_exp_minus_1 algebra_simps)
  finally have plus: "(v OR mask k0) + 1 = push_bit k0 (T + 1)" by simp
  have "push_bit k0 (T + 1) AND NOT (mask k0) = push_bit k0 (T + 1)"
    by (rule bit_word_eqI) (auto simp: bit_simps)
  moreover have "v AND mask k0 = A"
  proof -
    have "push_bit k0 T AND mask k0 = 0" by (rule bit_word_eqI) (auto simp: bit_simps)
    then show ?thesis using A by (simp add: v_def bit.conj_disj_distrib2)
  qed
  ultimately show ?thesis using plus by simp
qed


lemma unat_of_nat_small: "n < 2 ^ 64 \<Longrightarrow> unat (of_nat n :: u64) = n"
  by (simp add: unsigned_of_nat take_bit_nat_eq_self)

lemma and_mask_nat: "unat (x AND mask k :: u64) = unat x mod 2 ^ k"
  by (simp only: unsigned_take_bit_eq take_bit_eq_mod [of k "unat x"] flip: take_bit_eq_mask)

lemma of_nat_and_mask: "a < 2 ^ k \<Longrightarrow> (of_nat a :: u64) AND mask k = of_nat a"
  by (simp flip: take_bit_eq_mask add: take_bit_of_nat take_bit_nat_eq_self)

text \<open>The cursor in the larger table: high part \<open>t\<close> above the \<open>k0\<close> low bits \<open>a\<close>.\<close>

definition expansion :: "nat \<Rightarrow> nat \<Rightarrow> nat \<Rightarrow> u64" where
  "expansion k0 a t = push_bit k0 (of_nat t) OR of_nat a"

lemma expansion_of_nat:
  assumes "a < 2 ^ k0"
  shows "expansion k0 a t = of_nat (a + t * 2 ^ k0)"
proof -
  have low: "bit (of_nat a :: u64) n \<Longrightarrow> n < k0" for n
    using arg_cong [OF of_nat_and_mask [OF assms], of "\<lambda>w. bit w n"] by (simp only: bit_and_iff bit_mask_iff) simp
  have "push_bit k0 (of_nat t) AND (of_nat a :: u64) = 0"
  proof (rule bit_word_eqI)
    fix n
    show "bit (push_bit k0 (of_nat t) AND (of_nat a :: u64)) n = bit (0 :: u64) n"
      using low [of n] by (simp only: bit_and_iff bit_push_bit_iff bit_0_eq) auto
  qed
  then have "expansion k0 a t = push_bit k0 (of_nat t) + of_nat a"
    by (simp add: expansion_def disjunctive_add_eq_or)
  then show ?thesis by (simp add: push_bit_eq_mult)
qed


lemma xor_eq_0_iff_word: "a XOR b = 0 \<longleftrightarrow> (a :: u64) = b"
proof
  assume eq: "a XOR b = 0"
  show "a = b"
  proof (rule bit_word_eqI)
    fix n
    show "bit a n = bit b n"
      using arg_cong [OF eq, of "\<lambda>w. bit w n"] by (simp only: bit_xor_iff bit_0_eq) auto
  qed
qed simp

lemma scan_loop_spec:
  assumes wf: "ht_wf t ht" and sz: "ht_size ht = 2 ^ k1" and k: "k0 \<le> k1" "k1 \<le> 31"
    and a: "a < 2 ^ k0" and n: "n < 2 ^ (k1 - k0)"
  shows "\<exists>v' es. scan_loop ht (mask k0) (mask k1) (expansion k0 a n) acc = Some (v', acc @ es) \<and>
     v' AND mask k0 = of_nat a \<and> set es \<subseteq> set (ht_entries ht) \<and>
     (\<forall>j. n \<le> j \<and> j < 2 ^ (k1 - k0) \<longrightarrow> set (ht_table ht ! (a + j * 2 ^ k0)) \<subseteq> set es)"
  using n
proof (induction "2 ^ (k1 - k0) - n" arbitrary: n acc rule: less_induct)
  case less
  have k1: "(2::nat) ^ k1 = 2 ^ (k1 - k0) * 2 ^ k0" using k by (simp flip: power_add)
  have pow: "(2::nat) ^ k1 \<le> 2 ^ 31" using k by (intro power_increasing) simp_all
  have bound: "a + j * 2 ^ k0 < 2 ^ k1" if "j < 2 ^ (k1 - k0)" for j
  proof -
    have "a + j * 2 ^ k0 < Suc j * 2 ^ k0" using a by simp
    also have "\<dots> \<le> 2 ^ (k1 - k0) * 2 ^ k0" using that by (intro mult_le_mono) simp_all
    finally show ?thesis by (simp add: k1)
  qed
  let ?i = "a + n * 2 ^ k0" and ?v = "expansion k0 a n" and ?v' = "expansion k0 a (Suc n)"
  have "unat (?v AND mask k1) = ?i"
  proof -
    have "?i < 2 ^ 64" using bound [OF less.prems] pow by simp
    then show ?thesis
      using bound [OF less.prems] by (simp only: and_mask_nat expansion_of_nat [OF a] unat_of_nat_small mod_less)
  qed
  then have b: "bucket ht (unat (?v AND mask k1)) = Some (ht_table ht ! ?i)"
    using bound [OF less.prems] wf sz by (simp add: bucket_def ht_wf_def)
  have sub: "set (ht_table ht ! ?i) \<subseteq> set (ht_entries ht)"
    using bound [OF less.prems] wf sz by (auto simp: mem_ht_entries ht_wf_def)
  have step: "(((?v OR mask k0) + 1) AND NOT (mask k0)) OR (?v AND mask k0) = ?v'"
    using scan_expand_step [OF of_nat_and_mask [OF a], of "of_nat n"]
    by (simp add: expansion_def add.commute)
  have low: "?v' AND mask k0 = of_nat a"
  proof -
    have "(a + Suc n * 2 ^ k0) mod 2 ^ k0 = a" using a by (metis mod_less mod_mult_self1)
    then have "(of_nat (a + Suc n * 2 ^ k0) :: u64) AND mask k0 = of_nat a"
      by (metis take_bit_eq_mask take_bit_eq_mod take_bit_of_nat)
    then show ?thesis by (simp only: expansion_of_nat [OF a])
  qed
  have a1: "a < 2 ^ k1" using bound [of 0] by simp
  have "Suc n * 2 ^ k0 \<le> 2 ^ k1" unfolding k1 using less.prems by (intro mult_le_mono) simp_all
  then have big: "a + Suc n * 2 ^ k0 < 2 ^ 64" "a < 2 ^ 64" using a1 pow by simp_all
  have stop: "?v' AND (mask k0 XOR mask k1) = 0 \<longleftrightarrow> Suc n = 2 ^ (k1 - k0)"
  proof -
    have "?v' AND (mask k0 XOR mask k1) = (?v' AND mask k0) XOR (?v' AND mask k1)"
      by (rule bit.conj_xor_distrib)
    also have "\<dots> = 0 \<longleftrightarrow> ?v' AND mask k1 = of_nat a"
      by (simp only: low xor_eq_0_iff_word) (rule eq_commute)
    also have "\<dots> \<longleftrightarrow> unat (?v' AND mask k1) = unat (of_nat a :: u64)"
      by (rule word_unat_eq_iff)
    also have "\<dots> \<longleftrightarrow> (a + Suc n * 2 ^ k0) mod 2 ^ k1 = a"
      using big a1 pow by (simp only: and_mask_nat expansion_of_nat [OF a] unat_of_nat_small)
    also have "\<dots> \<longleftrightarrow> Suc n = 2 ^ (k1 - k0)"
    proof (cases "Suc n = 2 ^ (k1 - k0)")
      case True
      then show ?thesis using a1 k1 by (metis mod_less mod_mult_self1 mult.left_neutral)
    next
      case False
      then have "(a + Suc n * 2 ^ k0) mod 2 ^ k1 = a + Suc n * 2 ^ k0"
        using bound [of "Suc n"] less.prems by simp
      then show ?thesis using False by simp
    qed
    finally show ?thesis .
  qed
  have unfold: "scan_loop ht (mask k0) (mask k1) ?v acc =
      (if Suc n = 2 ^ (k1 - k0) then Some (?v', acc @ ht_table ht ! ?i)
       else scan_loop ht (mask k0) (mask k1) ?v' (acc @ ht_table ht ! ?i))"
    by (subst scan_loop.simps) (simp only: b step stop option.case Let_def if_not_P if_False if_True split: if_split; simp)
  show ?case
  proof (cases "Suc n = 2 ^ (k1 - k0)")
    case True
    then have "j = n" if "n \<le> j" "j < 2 ^ (k1 - k0)" for j using that by simp
    then have "\<forall>j. n \<le> j \<and> j < 2 ^ (k1 - k0) \<longrightarrow> set (ht_table ht ! (a + j * 2 ^ k0)) \<subseteq> set (ht_table ht ! ?i)"
      by blast
    with True unfold low sub show ?thesis by (intro exI [of _ ?v'] exI [of _ "ht_table ht ! ?i"]) simp
  next
    case False
    with less.prems have n': "Suc n < 2 ^ (k1 - k0)" by simp
    then have "2 ^ (k1 - k0) - Suc n < 2 ^ (k1 - k0) - n" by simp
    from less.hyps [OF this n', of "acc @ ht_table ht ! ?i"] obtain v' es where
      r: "scan_loop ht (mask k0) (mask k1) ?v' (acc @ ht_table ht ! ?i) = Some (v', (acc @ ht_table ht ! ?i) @ es)"
        "v' AND mask k0 = of_nat a" "set es \<subseteq> set (ht_entries ht)"
        "\<forall>j. Suc n \<le> j \<and> j < 2 ^ (k1 - k0) \<longrightarrow> set (ht_table ht ! (a + j * 2 ^ k0)) \<subseteq> set es"
      by blast
    have "set (ht_table ht ! (a + j * 2 ^ k0)) \<subseteq> set (ht_table ht ! ?i @ es)"
      if "n \<le> j" "j < 2 ^ (k1 - k0)" for j
    proof (cases "j = n")
      case False
      with that r(4) have "set (ht_table ht ! (a + j * 2 ^ k0)) \<subseteq> set es" by simp
      then show ?thesis by auto
    qed simp
    with False unfold r sub show ?thesis by (intro exI [of _ v'] exI [of _ "ht_table ht ! ?i @ es"]) auto
  qed
qed


subsection \<open>A call of \<open>dictScan\<close>\<close>

definition small_size :: "('k, 'v) dict \<Rightarrow> nat" where
  "small_size d = (if dictIsRehashing d then min (ht_size (ht0 d)) (ht_size (ht1 d)) else ht_size (ht0 d))"

lemma table_emits:
  assumes wf: "ht_wf t ht" and k: "ht_size ht = 2 ^ k" "k \<le> 31"
  shows "bucket ht (unat (v AND mask k)) = Some (ht_table ht ! unat (v AND mask k)) \<and>
     set (ht_table ht ! unat (v AND mask k)) \<subseteq> set (ht_entries ht) \<and>
     (\<forall>e \<in> set (ht_entries ht). hashFunction t (de_key e) AND mask k = v AND mask k \<longrightarrow>
        e \<in> set (ht_table ht ! unat (v AND mask k)))"
proof -
  have len: "length (ht_table ht) = 2 ^ k" using wf k by (simp add: ht_wf_def)
  have m: "ht_sizemask ht = mask k" using wf k by (auto simp: ht_wf_def)
  have i: "unat (v AND mask k) < 2 ^ k" by (simp add: and_mask_nat)
  have "e \<in> set (ht_table ht ! unat (v AND mask k))"
    if "e \<in> set (ht_entries ht)" and eq: "hashFunction t (de_key e) AND mask k = v AND mask k" for e
  proof -
    from that(1) obtain j where j: "j < length (ht_table ht)" "e \<in> set (ht_table ht ! j)"
      by (auto simp: mem_ht_entries)
    then have "hash_index (hashFunction t (de_key e)) (mask k) = j"
      using wf m by (auto simp: ht_wf_def)
    then have "j = unat (hashFunction t (de_key e) AND mask k)"
      using k by (simp add: hash_index_mask and_mask_nat)
    with j eq show ?thesis by simp
  qed
  with i len show ?thesis by (auto simp: bucket_def mem_ht_entries)
qed

lemma large_table_emits:
  assumes wf: "ht_wf t ht" and k: "ht_size ht = 2 ^ k1" "k1 \<le> 31" "k0 \<le> k1"
    and v: "unat v < 2 ^ k0"
  shows "\<exists>v' es. scan_loop ht (mask k0) (mask k1) v acc = Some (v', acc @ es) \<and>
     v' AND mask k0 = v AND mask k0 \<and> set es \<subseteq> set (ht_entries ht) \<and>
     (\<forall>e \<in> set (ht_entries ht). hashFunction t (de_key e) AND mask k0 = v AND mask k0 \<longrightarrow> e \<in> set es)"
proof -
  let ?a = "unat v"
  have v0: "expansion k0 ?a 0 = v" by (simp add: expansion_def)
  have va: "v AND mask k0 = of_nat ?a" using of_nat_and_mask [OF v] by simp
  from scan_loop_spec [OF wf k(1,3,2) v, of 0 acc] v0 obtain v' es where
    r: "scan_loop ht (mask k0) (mask k1) v acc = Some (v', acc @ es)" "v' AND mask k0 = of_nat ?a"
      "set es \<subseteq> set (ht_entries ht)"
      "\<forall>j. j < 2 ^ (k1 - k0) \<longrightarrow> set (ht_table ht ! (?a + j * 2 ^ k0)) \<subseteq> set es"
    by auto
  have "e \<in> set es"
    if e: "e \<in> set (ht_entries ht)" and eq: "hashFunction t (de_key e) AND mask k0 = v AND mask k0" for e
  proof -
    let ?i = "unat (hashFunction t (de_key e)) mod 2 ^ k1"
    have mem: "e \<in> set (ht_table ht ! ?i)"
      using table_emits [OF wf k(1,2), of "hashFunction t (de_key e)"] e by (simp add: and_mask_nat)
    have "?i mod 2 ^ k0 = unat (hashFunction t (de_key e)) mod 2 ^ k0"
      using k(3) by (simp add: mod_mod_cancel le_imp_power_dvd)
    also have "\<dots> = ?a" using arg_cong [OF eq, of unat] v by (simp add: and_mask_nat)
    finally have "?i = ?a + ?i div 2 ^ k0 * 2 ^ k0" by (metis add.commute div_mult_mod_eq)
    moreover have "?i div 2 ^ k0 < 2 ^ (k1 - k0)"
      using k(3) by (simp add: less_mult_imp_div_less flip: power_add)
    ultimately have "set (ht_table ht ! ?i) \<subseteq> set es" using r(4) by metis
    with mem show ?thesis by (rule rev_subsetD)
  qed
  with r va show ?thesis by auto
qed

lemma dictScan_spec:
  assumes wf: "dict_wf t canon d" and ne: "dict_entries d \<noteq> []"
    and clean: "dictIsRehashing d \<Longrightarrow> unat v < small_size d"
  shows "\<exists>k es. k \<le> 31 \<and> small_size d = 2 ^ k \<and> dictScan d v = Some (next_cursor v (mask k), es) \<and>
     set es \<subseteq> set (dict_entries d) \<and>
     (\<forall>e \<in> set (dict_entries d). hashFunction t (de_key e) AND mask k = v AND mask k \<longrightarrow> e \<in> set es)"
proof -
  have used: "dictSize d \<noteq> 0" using ne dict_wf_used [OF wf] by simp
  have w0: "ht_wf t (ht0 d)" and w1: "ht_wf t (ht1 d)" using wf by (simp_all add: dict_wf_def)
  obtain a where a: "a \<le> 31" "ht_size (ht0 d) = 2 ^ a" "ht_sizemask (ht0 d) = mask a"
    using w0 dict_wf_size [OF wf ne] by (auto simp: ht_wf_def)
  show ?thesis
  proof (cases "dictIsRehashing d")
    case False
    then have "ht_entries (ht1 d) = []" using wf by (simp add: dict_wf_def)
    then have ent: "set (dict_entries d) = set (ht_entries (ht0 d))" by (simp add: dict_entries_def)
    show ?thesis
      using table_emits [OF w0 a(2,1), of v] False used a ent
      by (intro exI [of _ a] exI [of _ "ht_table (ht0 d) ! unat (v AND mask a)"])
        (auto simp: dictScan_def small_size_def Let_def)
  next
    case re: True
    then obtain b where b: "b \<le> 31" "ht_size (ht1 d) = 2 ^ b" "ht_sizemask (ht1 d) = mask b"
      using w1 wf by (auto simp: ht_wf_def dict_wf_def)
    define t0 where "t0 = (if ht_size (ht0 d) > ht_size (ht1 d) then ht1 d else ht0 d)"
    define t1 where "t1 = (if ht_size (ht0 d) > ht_size (ht1 d) then ht0 d else ht1 d)"
    obtain k0 k1 where k: "k1 \<le> 31" "k0 \<le> k1" "ht_size t0 = 2 ^ k0" "ht_sizemask t0 = mask k0"
      "ht_size t1 = 2 ^ k1" "ht_sizemask t1 = mask k1"
      using a b by (cases "ht_size (ht0 d) > ht_size (ht1 d)") (auto simp: t0_def t1_def)
    have wt: "ht_wf t t0" "ht_wf t t1" using w0 w1 by (simp_all add: t0_def t1_def)
    have ent: "set (dict_entries d) = set (ht_entries t0) \<union> set (ht_entries t1)"
      by (auto simp: dict_entries_def t0_def t1_def)
    have small: "small_size d = 2 ^ k0"
      using re k(3) by (auto simp: small_size_def t0_def min_def split: if_splits)
    let ?c = "ht_table t0 ! unat (v AND mask k0)"
    have k0: "k0 \<le> 31" using k by simp
    have v: "unat v < 2 ^ k0" using clean [OF re] small by simp
    note e0 = table_emits [OF wt(1) k(3) k0, of v]
    obtain v' es where e1: "scan_loop t1 (mask k0) (mask k1) v ?c = Some (v', ?c @ es)"
      "v' AND mask k0 = v AND mask k0" "set es \<subseteq> set (ht_entries t1)"
      "\<forall>e \<in> set (ht_entries t1). hashFunction t (de_key e) AND mask k0 = v AND mask k0 \<longrightarrow> e \<in> set es"
      using large_table_emits [OF wt(2) k(5,1,2) v] by blast
    have pair: "(if ht_size (ht1 d) < ht_size (ht0 d) then (ht1 d, ht0 d) else (ht0 d, ht1 d)) = (t0, t1)"
      by (simp add: t0_def t1_def)
    have "dictScan d v = Some (next_cursor v' (mask k0), ?c @ es)"
      using re used e0 e1(1) k(4,6) by (simp add: dictScan_def pair Let_def)
    moreover have "next_cursor v' (mask k0) = next_cursor v (mask k0)"
      using e1(2) k0 by (intro next_cursor_cong) simp_all
    ultimately show ?thesis
      using k0 small e0 e1(3,4) ent by (intro exI [of _ k0] exI [of _ "?c @ es"]) auto
  qed
qed

lemma next_cursor_small: "k \<le> 64 \<Longrightarrow> unat (next_cursor v (mask k)) < 2 ^ k"
proof -
  assume k: "k \<le> 64"
  let ?w = "next_cursor v (mask k)"
  have "(2::nat) ^ (64 - k) dvd 2 ^ 64" by (rule le_imp_power_dvd) simp
  then have "rank ?w mod 2 ^ (64 - k) = 0"
    by (simp only: rank_next_cursor [OF k] mod_mod_cancel mod_mult_self2_is_0)
  then have "take_bit (64 - k) (rev_bits ?w) = 0"
    by (simp add: rank_def word_unat_eq_iff unsigned_take_bit_eq flip: take_bit_eq_mod)
  then have lo: "\<not> bit (take_bit (64 - k) (rev_bits ?w)) (63 - n)" for n
    by (simp only: bit_0_eq) simp
  have hi: "\<not> bit ?w n" if "n \<ge> k" "n < 64" for n
    using lo [of n] that k by (simp add: bit_take_bit_iff bit_rev_bits_iff)
  then have "?w = ?w AND mask k"
    by (intro bit_word_eqI) (auto simp: bit_simps simp flip: not_le)
  then show ?thesis by (metis and_mask_nat mod_less_divisor zero_less_numeral zero_less_power)
qed

text \<open>
  A scan: one call per dictionary state, each with the cursor the call before returned.
\<close>

fun scan_calls ::
  "('k, 'v) dict list \<Rightarrow> u64 \<Rightarrow> (u64 \<times> ('k, 'v) dictEntry list) option" where
  "scan_calls [] v = Some (v, [])"
| "scan_calls (d # ds) v = do {
     (v, es) \<leftarrow> dictScan d v;
     (v, es') \<leftarrow> scan_calls ds v;
     Some (v, es @ es')
   }"

lemma scan_calls_complete:
  assumes "ds \<noteq> []" and "\<forall>d \<in> set ds. dict_wf t canon d \<and> key \<in> de_key ` set (dict_entries d)"
    and "successively (\<lambda>d d'. dictIsRehashing d' \<longrightarrow> small_size d \<le> small_size d') ds"
    and "dictIsRehashing (hd ds) \<longrightarrow> unat v < small_size (hd ds)"
    and "rank v \<le> rank (hashFunction t key)"
    and "scan_calls ds v = Some (0, es)"
  shows "key \<in> de_key ` set es"
  using assms
proof (induction ds arbitrary: v es)
  case Nil
  then show ?case by simp
next
  case (Cons d ds)
  let ?h = "hashFunction t key"
  from Cons.prems have wf: "dict_wf t canon d" and clean: "dictIsRehashing d \<Longrightarrow> unat v < small_size d"
    by auto
  from Cons.prems(2) obtain e where e: "e \<in> set (dict_entries d)" "de_key e = key" by auto
  then have ne: "dict_entries d \<noteq> []" by auto
  obtain k xs where k: "k \<le> 31" "small_size d = 2 ^ k" "dictScan d v = Some (next_cursor v (mask k), xs)"
     "\<forall>e \<in> set (dict_entries d). hashFunction t (de_key e) AND mask k = v AND mask k \<longrightarrow> e \<in> set xs"
    using dictScan_spec [OF wf ne clean] by blast
  let ?v = "next_cursor v (mask k)"
  from Cons.prems(6) k(3) obtain ys where ys: "scan_calls ds ?v = Some (0, ys)" "es = xs @ ys"
    by (auto simp: bind_eq_Some_conv)
  show ?case
  proof (cases "?h AND mask k = v AND mask k")
    case True
    with k(4) e have "e \<in> set xs" by simp
    with ys(2) e(2) show ?thesis by force
  next
    case False
    from next_cursor_passes [OF _ Cons.prems(5) False] k(1)
    have p: "?v \<noteq> 0" "rank ?v \<le> rank ?h" by simp_all
    with ys(1) have "ds \<noteq> []" by auto
    moreover have "dictIsRehashing (hd ds) \<longrightarrow> unat ?v < small_size (hd ds)"
      using Cons.prems(3) \<open>ds \<noteq> []\<close> next_cursor_small [of k v] k(1,2)
      by (cases ds) (auto simp: less_le_trans)
    moreover have "successively (\<lambda>d d'. dictIsRehashing d' \<longrightarrow> small_size d \<le> small_size d') ds"
      using Cons.prems(3) by (cases ds) auto
    ultimately have "key \<in> de_key ` set ys" using Cons.IH [of ?v ys] Cons.prems(2) p(2) ys by simp
    with ys(2) show ?thesis by auto
  qed
qed

lemma scan_calls_steps:
  assumes wf: "dict_wf t canon d" and ne: "dict_entries d \<noteq> []" and k: "small_size d = 2 ^ k" "k \<le> 31"
    and v: "dictIsRehashing d \<longrightarrow> unat v < small_size d"
  shows "rank v = j * 2 ^ (64 - k) \<Longrightarrow> j + n \<le> 2 ^ k \<Longrightarrow>
    \<exists>v' es. scan_calls (replicate n d) v = Some (v', es) \<and> rank v' = (j + n) * 2 ^ (64 - k) mod 2 ^ 64 \<and>
      set es \<subseteq> set (dict_entries d)"
  using v
proof (induction n arbitrary: v j)
  case 0
  then show ?case using rank_less [of v] by simp
next
  case (Suc n)
  obtain k' xs where s: "small_size d = 2 ^ k'" "dictScan d v = Some (next_cursor v (mask k'), xs)"
     "set xs \<subseteq> set (dict_entries d)"
    using dictScan_spec [OF wf ne] Suc.prems(3) by blast
  with k have [simp]: "k' = k" by simp
  let ?v = "next_cursor v (mask k)"
  have pow: "(2::nat) ^ k * 2 ^ (64 - k) = 2 ^ 64" using k(2) by (simp flip: power_add)
  have rk: "rank ?v = (Suc j * 2 ^ (64 - k)) mod 2 ^ 64"
    using rank_next_cursor [of k v] Suc.prems(1) k(2) by simp
  show ?case
  proof (cases "n = 0")
    case True
    with s rk show ?thesis by simp
  next
    case False
    with Suc.prems(2) have "Suc j < 2 ^ k" by simp
    then have "Suc j * 2 ^ (64 - k) < 2 ^ k * 2 ^ (64 - k)" by (intro mult_strict_right_mono) simp_all
    with rk pow have "rank ?v = Suc j * 2 ^ (64 - k)" by (simp only: mod_less)
    moreover have "dictIsRehashing d \<longrightarrow> unat ?v < small_size d"
      using next_cursor_small [of k v] k by simp
    ultimately obtain v' es where "scan_calls (replicate n d) ?v = Some (v', es)"
      "rank v' = (Suc j + n) * 2 ^ (64 - k) mod 2 ^ 64" "set es \<subseteq> set (dict_entries d)"
      using Suc.IH [of ?v "Suc j"] Suc.prems(2) by auto
    with s show ?thesis by simp
  qed
qed

text \<open>
  C10. A complete scan returns every key that stays in the dictionary. One call of
  \<open>dictScan\<close> is made per state in \<open>ds\<close>, each with the cursor of the call before, from 0 until
  the cursor is 0 again; between the calls the dictionary may change in any way that keeps
  the key, grow, start and finish rehashings, as long as no call finds a rehashing whose
  smaller table is smaller than the table of the call before.
\<close>

theorem dictScan_complete:
  assumes "ds \<noteq> []"
    and "\<forall>d \<in> set ds. dict_wf t canon d \<and> key \<in> de_key ` set (dict_entries d)"
    and "successively (\<lambda>d d'. dictIsRehashing d' \<longrightarrow> small_size d \<le> small_size d') ds"
    and "scan_calls ds 0 = Some (0, es)"
  shows "key \<in> de_key ` set es"
proof -
  have "small_size (hd ds) > 0" if "dictIsRehashing (hd ds)"
    using assms(1,2) that by (auto simp: small_size_def dict_wf_def dest!: hd_in_set)
  then show ?thesis
    using assms by (intro scan_calls_complete [of ds t canon key 0]) simp_all
qed

text \<open>
  C11. Scanning a dictionary that does not change ends: after as many calls as the smaller
  table has buckets the cursor is 0 again, no call leaves a table, and the entries returned
  are exactly those of the dictionary.
\<close>

theorem dictScan_terminates:
  assumes wf: "dict_wf t canon d" and ne: "dict_entries d \<noteq> []"
  shows "\<exists>es. scan_calls (replicate (small_size d) d) 0 = Some (0, es) \<and> set es = set (dict_entries d)"
proof -
  obtain k where k: "small_size d = 2 ^ k" "k \<le> 31"
  proof (cases "small_size d = 0")
    case True
    then show ?thesis using dict_wf_size [OF wf ne] wf
      by (auto simp: small_size_def dict_wf_def split: if_splits)
  next
    case False
    then show ?thesis using wf that
      by (auto simp: small_size_def dict_wf_def ht_wf_def min_def split: if_splits)
  qed
  have pow: "(2::nat) ^ k * 2 ^ (64 - k) = 2 ^ 64" using k(2) by (simp flip: power_add)
  obtain v es where s: "scan_calls (replicate (2 ^ k) d) 0 = Some (v, es)" "set es \<subseteq> set (dict_entries d)"
      "rank v = 2 ^ k * 2 ^ (64 - k) mod 2 ^ 64"
    using scan_calls_steps [OF wf ne k, of 0 0 "2 ^ k"] k by auto
  then have v: "v = 0" using pow rank_eq_0 by simp
  have "e \<in> set es" if e: "e \<in> set (dict_entries d)" for e
  proof -
    have "de_key e \<in> de_key ` set es"
      using that s(1) wf k v by (intro scan_calls_complete [of "replicate (2 ^ k) d" t canon "de_key e" 0])
        (auto simp: successively_conv_nth)
    then obtain e' where e': "e' \<in> set es" "de_key e' = de_key e" by auto
    with s(2) have "e' \<in> set (dict_entries d)" by auto
    moreover have "inj_on (\<lambda>e. canon (de_key e)) (set (dict_entries d))"
      using wf by (simp add: dict_wf_def distinct_map)
    ultimately have "e' = e" using e e'(2) by (simp add: inj_on_def)
    with e' show ?thesis by simp
  qed
  with s v k show ?thesis by auto
qed

subsection \<open>Evaluating cursors\<close>

fun rev_nat :: "nat \<Rightarrow> nat \<Rightarrow> nat" where
  "rev_nat 0 n = 0"
| "rev_nat (Suc k) n = (if n = 0 then 0 else n mod 2 * 2 ^ k + rev_nat k (n div 2))"

lemma rev_nat_0 [simp]: "rev_nat k 0 = 0"
  by (cases k) simp_all

lemma rev_nat_bits: "rev_nat k n = horner_sum of_bool 2 (map (\<lambda>i. bit n (k - Suc i)) [0..<k])"
proof (induction k arbitrary: n)
  case (Suc k)
  have "map (\<lambda>i. bit n (k - i)) [0..<k] = map (\<lambda>i. bit (n div 2) (k - Suc i)) [0..<k]"
    by (auto simp: bit_Suc [symmetric] Suc_diff_Suc)
  then show ?case
    using Suc [of "n div 2"] by (cases "n = 0") (simp_all del: map_eq_conv add: horner_sum_append bit_0 mod_2_eq_odd)
qed simp

lemma rev_nat_numeral [simp]:
  "rev_nat (numeral k) n = (if n = 0 then 0 else n mod 2 * 2 ^ pred_numeral k + rev_nat (pred_numeral k) (n div 2))"
  by (simp add: numeral_eq_Suc)

lemma rank_numeral: "rank v = rev_nat 64 (unat v)"
proof -
  have "rank v = horner_sum of_bool 2 (map (bit (unat (rev_bits v))) [0..<64])"
    using rank_less [of v] by (simp add: rank_def horner_sum_bit_eq_take_bit take_bit_nat_eq_self)
  also have "map (bit (unat (rev_bits v))) [0..<64] = map (\<lambda>i. bit (unat v) (64 - Suc i)) [0..<64]"
    by (auto simp: bit_unsigned_iff bit_rev_bits_iff)
  finally show ?thesis by (simp only: rev_nat_bits)
qed

lemma next_cursor_eqI:
  assumes "m = mask k" and "k \<le> 64"
    and "rev_nat 64 (unat w) = (rev_nat 64 (unat v) div 2 ^ (64 - k) + 1) * 2 ^ (64 - k) mod 2 ^ 64"
  shows "next_cursor v m = w"
proof -
  have "rank (next_cursor v m) = rank w"
    using assms rank_next_cursor [of k v] by (simp only: rank_numeral)
  then show ?thesis by (metis rank_def rev_bits_rev_bits word_unat_eq_iff)
qed



subsection \<open>Concrete scans\<close>

text \<open>A table of \<open>2 ^ k\<close> buckets with one entry, under the identity as hash function.\<close>

definition word_type :: "(u64, nat) dictType" where
  "word_type = \<lparr>hashFunction = (\<lambda>k. k), keyDup = None, valDup = None, keyCompare = None\<rparr>"

definition one_entry :: "u64 \<Rightarrow> (u64, nat) dictEntry" where
  "one_entry key = \<lparr>de_key = key, de_val = Some 7\<rparr>"

definition one_table :: "nat \<Rightarrow> u64 \<Rightarrow> (u64, nat) dict" where
  "one_table k key = (dictCreate word_type)\<lparr>ht0 := \<lparr>
     ht_table = (replicate (2 ^ k) [])[unat key := [one_entry key]],
     ht_size = 2 ^ k, ht_sizemask = mask k, ht_used = 1\<rparr>\<rparr>"

lemma concat_replicate_update: "i < n \<Longrightarrow> concat ((replicate n [])[i := [x]]) = [x]"
  by (simp add: upd_conv_take_nth_drop)

lemma one_table_wf:
  assumes "k \<le> 31" and "unat key < 2 ^ k"
  shows "dict_wf word_type (\<lambda>k. k) (one_table k key) \<and> dict_entries (one_table k key) = [one_entry key]"
proof -
  have "hash_index key (mask k) = unat key" using assms by (simp add: hash_index_mask)
  moreover have "\<exists>k'\<le>31. (2::nat) ^ k = 2 ^ k' \<and> (mask k :: u64) = mask k'" using assms(1) by blast
  ultimately have "ht_wf word_type (ht0 (one_table k key))"
    using assms by (auto simp: ht_wf_def one_table_def one_entry_def word_type_def ht_entries_def
        concat_replicate_update nth_list_update simp del: power_inject_exp split: if_splits)
  with assms show ?thesis
    by (simp add: dict_wf_def one_table_def dictCreate_def dictIsRehashing_def dict_entries_def
        ht_entries_def concat_replicate_update) (simp add: dictReset_def)
qed

lemma one_table_expand_wf:
  assumes "k \<le> 31" "k' \<le> 31" and "unat key < 2 ^ k" and "dictNextPower n = 2 ^ k'" "k \<noteq> k'" "n > 0"
  shows "dictExpand n (one_table k key) =
      ((one_table k key)\<lparr>ht1 := \<lparr>ht_table = replicate (2 ^ k') [], ht_size = 2 ^ k',
         ht_sizemask = mask k', ht_used = 0\<rparr>, rehashidx := 0\<rparr>, DICT_OK)"
    and "dict_wf word_type (\<lambda>k. k) (fst (dictExpand n (one_table k key)))"
    and "dict_entries (fst (dictExpand n (one_table k key))) = [one_entry key]"
proof -
  let ?d = "one_table k key" and ?d' = "(one_table k key)\<lparr>ht1 := \<lparr>ht_table = replicate (2 ^ k') [],
      ht_size = 2 ^ k', ht_sizemask = mask k', ht_used = 0\<rparr>, rehashidx := 0\<rparr>"
  have m: "(2::u64) ^ k' - 1 = mask k'" by (simp add: mask_eq_exp_minus_1)
  have e: "dictExpand n ?d = (?d', DICT_OK)"
    using assms by (simp add: dictExpand_def one_table_def dictCreate_def dictIsRehashing_def Let_def m)
  have "\<exists>j\<le>31. (2::nat) ^ k' = 2 ^ j \<and> (mask k' :: u64) = mask j" using assms(2) by blast
  then have w1: "ht_wf word_type (ht1 ?d')" by (simp add: ht_wf_def ht_entries_def del: power_inject_exp)
  have o: "dict_wf word_type (\<lambda>k. k) ?d" "dict_entries ?d = [one_entry key]"
    using one_table_wf [OF assms(1,3)] by simp_all
  have ent: "dict_entries ?d' = [one_entry key]"
    using o(2) by (simp add: dict_entries_def one_table_def dictCreate_def ht_entries_def dictReset_def)
  have "ht_size (ht0 ?d) = 2 ^ k" by (simp add: one_table_def)
  with o(1) w1 ent have "dict_wf word_type (\<lambda>k. k) ?d'"
    by (simp add: dict_wf_def dictIsRehashing_def)
  with e ent show "dict_wf word_type (\<lambda>k. k) (fst (dictExpand n (one_table k key)))"
    and "dict_entries (fst (dictExpand n (one_table k key))) = [one_entry key]" by simp_all
  show "dictExpand n ?d = (?d', DICT_OK)" by (rule e)
qed

lemmas scan_eval = one_table_def dictCreate_def dictScan_def dictSize_def dictIsRehashing_def Let_def bucket_def

text \<open>Non vacuity of the scan of a table that grows from 4 to 8 buckets between two calls.\<close>

lemma cursors: "next_cursor 0 3 = 2" "next_cursor 10 3 = 1" "next_cursor 9 3 = 3" "next_cursor 33 3 = 3"
    "next_cursor 11 3 = 0" "next_cursor 35 3 = 0"
  by (rule next_cursor_eqI [of _ 2]; simp add: mask_eq_exp_minus_1)+

theorem dictScan_complete_witness:
  "let d = one_table 2 1; d' = fst (dictExpand 8 d) in
     scan_calls [d, d', d', d'] 0 = Some (0, [one_entry 1]) \<and> (1 :: u64) \<in> de_key ` set [one_entry 1]"
proof -
  let ?d = "one_table 2 1" and ?d' = "fst (dictExpand 8 (one_table 2 1))"
  have p: "dictNextPower 8 = 2 ^ 3" by (simp add: dictNextPower_def LONG_MAX_def DICT_HT_INITIAL_SIZE_def next_power_loop.simps)
  have o: "dict_wf word_type (\<lambda>k. k) ?d" "dict_entries ?d = [one_entry 1]"
    using one_table_wf [of 2 1] by simp_all
  have x: "dictExpand 8 ?d = (?d\<lparr>ht1 := \<lparr>ht_table = replicate (2 ^ 3) [], ht_size = 2 ^ 3,
         ht_sizemask = mask 3, ht_used = 0\<rparr>, rehashidx := 0\<rparr>, DICT_OK)"
      "dict_wf word_type (\<lambda>k. k) ?d'" "dict_entries ?d' = [one_entry 1]"
    by (rule one_table_expand_wf [of 2 3 1 8]; simp add: p)+
  let ?t = "\<lparr>ht_table = replicate 8 [], ht_size = 8, ht_sizemask = 7, ht_used = 0\<rparr> :: (u64, nat) dictht"
  have l: "scan_loop ?t 3 7 2 c = Some (10, c)" "scan_loop ?t 3 7 1 c = Some (9, c)"
      "scan_loop ?t 3 7 3 c = Some (11, c)" for c
    by (simp_all add: scan_loop.simps bucket_def)
  have "dictScan ?d 0 = Some (2, [])" "dictScan ?d' 2 = Some (1, [])"
    "dictScan ?d' 1 = Some (3, [one_entry 1])" "dictScan ?d' 3 = Some (0, [])"
    unfolding x(1) by (simp_all add: scan_eval mask_eq_exp_minus_1 l cursors)
  then have s: "scan_calls [?d, ?d', ?d', ?d'] 0 = Some (0, [one_entry 1])" by simp
  have "(1 :: u64) \<in> de_key ` set [one_entry 1]"
    by (rule dictScan_complete [of "[?d, ?d', ?d', ?d']" word_type "\<lambda>k. k"])
      (use o x s in \<open>simp_all add: one_entry_def small_size_def\<close>, simp_all add: one_table_def dictCreate_def dictIsRehashing_def)
  with s show ?thesis by (simp add: Let_def)
qed

theorem dictScan_terminates_witness:
  "let d = one_table 2 1 in
     \<exists>es. scan_calls (replicate (small_size d) d) 0 = Some (0, es) \<and> set es = {one_entry 1}"
  using dictScan_terminates [of word_type "\<lambda>k. k" "one_table 2 1"] one_table_wf [of 2 1] by (simp add: Let_def)

lemma cursors_32:
  "next_cursor 0 31 = 16" "next_cursor 16 31 = 8" "next_cursor 8 31 = 24" "next_cursor 24 31 = 4"
  "next_cursor 4 31 = 20" "next_cursor 20 31 = 12" "next_cursor 12 31 = 28" "next_cursor 28 31 = 2"
  "next_cursor 2 31 = 18" "next_cursor 18 31 = 10" "next_cursor 10 31 = 26" "next_cursor 26 31 = 6"
  "next_cursor 6 31 = 22" "next_cursor 22 31 = 14" "next_cursor 14 31 = 30" "next_cursor 30 31 = 1"
  "next_cursor 1 31 = 17" "next_cursor 17 31 = 9" "next_cursor 9 31 = 25" "next_cursor 25 31 = 5"
  "next_cursor 5 31 = 21"
  by (rule next_cursor_eqI [of _ 5]; simp add: mask_eq_exp_minus_1)+

lemma scan_calls_append:
  "scan_calls ds v = Some (w, es) \<Longrightarrow>
     scan_calls (ds @ ds') v = map_option (apsnd ((@) es)) (scan_calls ds' w)"
  by (induction ds arbitrary: v es) (auto simp: bind_eq_Some_conv option.map_comp map_option_case split: option.splits)

text \<open>
  C13. Without that condition a scan can miss a key. 21 calls on a table of 32 buckets leave the
  cursor at \<open>10101\<close>; then \<open>dictResize\<close> starts to shrink the table to 4 buckets. The next call
  only visits the expansions \<open>10101\<close>, \<open>11001\<close> and \<open>11101\<close> of its bucket in the larger table,
  skips \<open>01101\<close>, and the scan ends with the key 13 never returned.
\<close>

theorem dictScan_misses_after_shrink:
  "let d = one_table 5 13; d' = fst (dictResize True d) in
     dict_wf word_type (\<lambda>k. k) d \<and> dict_entries d = [one_entry 13] \<and>
     dict_wf word_type (\<lambda>k. k) d' \<and> dict_entries d' = [one_entry 13] \<and>
     scan_calls (replicate 21 d @ [d', d']) 0 = Some (0, [])"
proof -
  let ?d = "one_table 5 13" and ?d' = "fst (dictExpand 4 (one_table 5 13))"
  have r: "dictResize True ?d = dictExpand 4 ?d"
    by (simp add: dictResize_def one_table_def dictCreate_def dictIsRehashing_def DICT_HT_INITIAL_SIZE_def)
  have p: "dictNextPower 4 = 2 ^ 2" by (simp add: dictNextPower_def LONG_MAX_def DICT_HT_INITIAL_SIZE_def next_power_loop.simps)
  have o: "dict_wf word_type (\<lambda>k. k) ?d" "dict_entries ?d = [one_entry 13]"
    using one_table_wf [of 5 13] by simp_all
  have x: "dictExpand 4 ?d = (?d\<lparr>ht1 := \<lparr>ht_table = replicate (2 ^ 2) [], ht_size = 2 ^ 2,
         ht_sizemask = mask 2, ht_used = 0\<rparr>, rehashidx := 0\<rparr>, DICT_OK)"
      "dict_wf word_type (\<lambda>k. k) ?d'" "dict_entries ?d' = [one_entry 13]"
    by (rule one_table_expand_wf [of 5 2 13 4]; simp add: p)+
  have b: "dictScan ?d v = Some (next_cursor v 31, [])" if "unat v < 32" "v \<noteq> 13" for v
  proof -
    have "unat (v AND 31) = unat v" using and_mask_nat [of v 5] that(1) by (simp add: mask_eq_exp_minus_1)
    moreover have "unat v \<noteq> 13" using that(2) word_unat_eq_iff [of v 13] by simp
    ultimately show ?thesis using that(1)
      by (simp add: one_table_def dictCreate_def dictScan_def dictSize_def dictIsRehashing_def Let_def
        bucket_def mask_eq_exp_minus_1)
  qed
  have "scan_calls (replicate 21 D) 0 = Some (21, [])"
    if "\<And>v. unat v < 32 \<Longrightarrow> v \<noteq> 13 \<Longrightarrow> dictScan D v = Some (next_cursor v 31, [])" for D :: "(u64, nat) dict"
  proof -
    have "replicate 21 D = [D, D, D, D, D, D, D, D, D, D, D, D, D, D, D, D, D, D, D, D, D]"
      by (simp add: eval_nat_numeral(2,3))
    then show ?thesis by (simp only:) (simp add: that cursors_32)
  qed
  from this [OF b] have s1: "scan_calls (replicate 21 ?d) 0 = Some (21, [])" .
  let ?t = "\<lparr>ht_table = (replicate 32 [])[13 := [one_entry 13]], ht_size = 32, ht_sizemask = 31,
      ht_used = 1\<rparr>"
  have l: "scan_loop ?t 3 31 21 [] = Some (33, [])" "scan_loop ?t 3 31 3 [] = Some (35, [])"
    by (simp_all add: scan_loop.simps bucket_def)
  have "dictScan ?d' 21 = Some (3, [])" "dictScan ?d' 3 = Some (0, [])"
    unfolding x(1) by (simp_all add: scan_eval mask_eq_exp_minus_1 l [simplified] cursors)
  then have s2: "scan_calls [?d', ?d'] 21 = Some (0, [])" by simp
  show ?thesis using o x(2,3) scan_calls_append [OF s1, of "[?d', ?d']"] s2 by (simp add: Let_def r)
qed

end
