(* ===== verification/Dict_Types.thy ===== *)
theory Dict_Types
  imports Dict_Scan Siphash
begin

section \<open>The dictionaries of the server: \<open>dbDictType\<close> and its relatives\<close>

text \<open>
  The hash and comparison callbacks of \<open>server.c\<close> over keys that are SDS strings, the
  dictionary types built from them, and the refinement of a whole history of dictionary
  operations against a finite map. \<open>seed\<close> is \<open>dict_hash_function_seed\<close>, set once at start-up.
\<close>

text \<open>
  The length of a key passes through an \<open>int\<close>: \<open>sdslen\<close>, a \<open>size_t\<close>, is assigned to one, and converted
  back to \<open>size_t\<close> where \<open>siphash\<close> and \<open>memcmp\<close> take it. A length whose low 32 bits are a negative number
  becomes a huge \<open>size_t\<close>, with which the code reads beyond the key; the functions below then use the bytes
  there are, and no claim is made: the theorems are about keys of less than 2 ^ 31 bytes. The protocol
  admits 512 MB.
\<close>

definition int_len :: "bytes \<Rightarrow> int" where
  "int_len key = sint (of_nat (length key) :: u32)"

definition size_t_of_int :: "int \<Rightarrow> nat" where
  "size_t_of_int l = unat (word_of_int l :: u64)"

definition dictGenHashFunction :: "bytes \<Rightarrow> bytes \<Rightarrow> int \<Rightarrow> u64" where
  "dictGenHashFunction seed key len = siphash (take (size_t_of_int len) key) seed"

definition dictGenCaseHashFunction :: "bytes \<Rightarrow> bytes \<Rightarrow> int \<Rightarrow> u64" where
  "dictGenCaseHashFunction seed buf len = siphash_nocase (take (size_t_of_int len) buf) seed"

definition dictSdsHash :: "bytes \<Rightarrow> bytes \<Rightarrow> u64" where
  "dictSdsHash seed key = dictGenHashFunction seed key (int_len key)"

definition dictSdsCaseHash :: "bytes \<Rightarrow> bytes \<Rightarrow> u64" where
  "dictSdsCaseHash seed key = dictGenCaseHashFunction seed key (int_len key)"

definition dictSdsKeyCompare :: "bytes \<Rightarrow> bytes \<Rightarrow> bool" where
  "dictSdsKeyCompare key1 key2 =
     (let l1 = int_len key1; l2 = int_len key2 in
      if l1 \<noteq> l2 then False else take (size_t_of_int l1) key1 = take (size_t_of_int l1) key2)"

text \<open>
  \<open>strcasecmp(key1, key2) == 0\<close>: the strings end at their first zero byte, and an SDS string
  has one after its last byte.
\<close>

fun strcasecmp_eq :: "bytes \<Rightarrow> bytes \<Rightarrow> bool" where
  "strcasecmp_eq [] [] = True"
| "strcasecmp_eq [] (b # bs) = (b = 0)"
| "strcasecmp_eq (a # as) [] = (a = 0)"
| "strcasecmp_eq (a # as) (b # bs) =
     (siptlw a = siptlw b \<and> (a = 0 \<or> strcasecmp_eq as bs))"

definition dictSdsKeyCaseCompare :: "bytes \<Rightarrow> bytes \<Rightarrow> bool" where
  "dictSdsKeyCaseCompare key1 key2 = strcasecmp_eq key1 key2"

definition dbDictType :: "bytes \<Rightarrow> (bytes, 'v) dictType" where
  "dbDictType seed = \<lparr>hashFunction = dictSdsHash seed, keyDup = None, valDup = None,
     keyCompare = Some dictSdsKeyCompare\<rparr>"

definition commandTableDictType :: "bytes \<Rightarrow> (bytes, 'v) dictType" where
  "commandTableDictType seed = \<lparr>hashFunction = dictSdsCaseHash seed, keyDup = None, valDup = None,
     keyCompare = Some dictSdsKeyCaseCompare\<rparr>"

subsection \<open>The callbacks meet the contract of the dictionary\<close>

text \<open>The bytes of a key that the callbacks look at: all of them when it has less than 2 ^ 31.\<close>

definition sds_canon :: "bytes \<Rightarrow> bytes" where
  "sds_canon key = take (size_t_of_int (int_len key)) key"

definition short_key :: "bytes \<Rightarrow> bool" where
  "short_key key \<longleftrightarrow> length key < 2 ^ 31"

lemma of_nat_size_t_of_int: "(of_nat (size_t_of_int (int_len key)) :: u32) = of_nat (length key)"
proof -
  have "(ucast (scast w :: u64) :: u32) = w" for w :: u32
    by (rule bit_word_eqI) (simp add: bit_simps)
  moreover have "of_nat (size_t_of_int (int_len key)) = (ucast (scast (of_nat (length key) :: u32) :: u64) :: u32)"
    unfolding size_t_of_int_def int_len_def of_int_sint of_nat_unat by (rule refl)
  ultimately show ?thesis by simp
qed

lemma int_len_canon [simp]: "int_len (sds_canon key) = int_len key"
proof (cases "length key \<le> size_t_of_int (int_len key)")
  case False
  then have "length (sds_canon key) = size_t_of_int (int_len key)" by (simp add: sds_canon_def)
  then show ?thesis using of_nat_size_t_of_int [of key] by (simp only: int_len_def [of "sds_canon key"] int_len_def [of key])
qed (simp add: sds_canon_def)

lemma short_int_len: "short_key key \<Longrightarrow> int_len key = int (length key)"
  by (simp add: int_len_def short_key_def sint_uint unsigned_of_nat take_bit_nat_eq_self signed_take_bit_int_eq_self)

lemma sds_canon_short [simp]: "short_key key \<Longrightarrow> sds_canon key = key"
  by (simp add: sds_canon_def short_int_len size_t_of_int_def) (simp add: short_key_def unat_of_nat)

lemma int_len_map [simp]: "int_len (map f key) = int_len key"
  by (simp add: int_len_def)

lemma dictSdsKeyCompare_canon: "dictSdsKeyCompare k1 k2 \<longleftrightarrow> sds_canon k1 = sds_canon k2"
proof
  assume "sds_canon k1 = sds_canon k2"
  then have "int_len k1 = int_len k2" using int_len_canon by metis
  then show "dictSdsKeyCompare k1 k2" using \<open>sds_canon k1 = sds_canon k2\<close> by (simp add: dictSdsKeyCompare_def sds_canon_def)
qed (auto simp: dictSdsKeyCompare_def sds_canon_def Let_def split: if_splits)

lemma dictSdsHash_canon: "dictSdsHash seed key = siphash (sds_canon key) seed"
  by (simp add: dictSdsHash_def dictGenHashFunction_def sds_canon_def)

text \<open>The bound is needed: a key is taken for itself followed by any 2 ^ 32 bytes.\<close>

lemma long_keys_confused:
  assumes "short_key key" and "length x = 2 ^ 32"
  shows "dictSdsKeyCompare key (key @ x)"
proof -
  have "(of_nat (length (key @ x)) :: u32) = of_nat (length key)" using assms(2) by simp
  then have "int_len (key @ x) = int_len key" by (simp only: int_len_def)
  then show ?thesis using short_int_len [OF assms(1)] assms(1)
    by (simp add: dictSdsKeyCompare_def size_t_of_int_def) (simp add: short_key_def unat_of_nat)
qed

interpretation db: dict_callbacks "dbDictType seed :: (bytes, 'v) dictType" sds_canon for seed
  by unfold_locales (auto simp: dbDictType_def key_matches_def dictCompareKeys_def dictSdsKeyCompare_canon dictSdsHash_canon)

lemma strcasecmp_eq_iff:
  "0 \<notin> set a \<Longrightarrow> 0 \<notin> set b \<Longrightarrow> strcasecmp_eq a b \<longleftrightarrow> map siptlw a = map siptlw b"
  by (induction a b rule: strcasecmp_eq.induct) auto

text \<open>
  Keys that the case insensitive dictionaries compare as equal have the same hash, so a
  lookup searches the bucket its key is stored in; keys with a zero byte are excluded, since
  \<open>strcasecmp\<close> stops there and the hash does not.
\<close>

theorem case_compare_hash:
  assumes "0 \<notin> set key1" and "0 \<notin> set key2" and "dictSdsKeyCaseCompare key1 key2"
  shows "dictSdsCaseHash seed key1 = dictSdsCaseHash seed key2"
proof -
  have "map siptlw key1 = map siptlw key2"
    using assms strcasecmp_eq_iff by (simp add: dictSdsKeyCaseCompare_def)
  moreover from this have "int_len key1 = int_len key2" by (metis int_len_map)
  ultimately have "map siptlw (take (size_t_of_int (int_len key1)) key1) = map siptlw (take (size_t_of_int (int_len key2)) key2)"
    by (simp flip: take_map)
  then show ?thesis
    by (simp only: dictSdsCaseHash_def dictGenCaseHashFunction_def siphash_nocase_lower)
qed

theorem case_compare_hash_witness:
  "dictSdsKeyCaseCompare [0x47, 0x45, 0x54] [0x67, 0x65, 0x74] \<and>
   dictSdsCaseHash (replicate 16 0) [0x47, 0x45, 0x54] = dictSdsCaseHash (replicate 16 0) [0x67, 0x65, 0x74]"
proof -
  have "dictSdsKeyCaseCompare [0x47, 0x45, 0x54] [0x67, 0x65, 0x74]"
    by (simp add: dictSdsKeyCaseCompare_def siptlw_def)
  with case_compare_hash [OF _ _ this] show ?thesis by simp
qed

subsection \<open>Histories of operations\<close>

datatype 'v dict_op =
    Add bytes 'v
  | Replace bytes 'v
  | Fetch bytes
  | Delete bytes
  | Rehash nat
  | Resize
  | Empty

datatype 'v dict_result =
    Status dict_status
  | New bool
  | Value "'v option"
  | More

text \<open>An operation of the history on the dictionary; \<open>None\<close> is a failed assertion or access.\<close>

fun dict_exec ::
  "bool \<Rightarrow> 'v dict_op \<Rightarrow> (bytes, 'v) dict \<Rightarrow> ((bytes, 'v) dict \<times> 'v dict_result) option" where
  "dict_exec cr (Add k v) d = map_option (apsnd Status) (dictAdd cr k v d)"
| "dict_exec cr (Replace k v) d = map_option (apsnd New) (dictReplace cr k v d)"
| "dict_exec cr (Fetch k) d = map_option (apsnd Value) (dictFetchValue k d)"
| "dict_exec cr (Delete k) d = map_option (apsnd Status) (dictDelete k d)"
| "dict_exec cr (Rehash n) d = map_option (apsnd (\<lambda>_. More)) (dictRehash n d)"
| "dict_exec cr Resize d = Some (fst (dictResize cr d), More)"
| "dict_exec cr Empty d = Some (dictEmpty d, More)"

text \<open>The same operation on a finite map.\<close>

fun map_exec :: "'v dict_op \<Rightarrow> (bytes \<rightharpoonup> 'v) \<Rightarrow> (bytes \<rightharpoonup> 'v) \<times> 'v dict_result" where
  "map_exec (Add k v) m = (if m k = None then (m(k \<mapsto> v), Status DICT_OK) else (m, Status DICT_ERR))"
| "map_exec (Replace k v) m = (m(k \<mapsto> v), New (m k = None))"
| "map_exec (Fetch k) m = (m, Value (m k))"
| "map_exec (Delete k) m = (m(k := None), Status (if m k = None then DICT_ERR else DICT_OK))"
| "map_exec (Rehash n) m = (m, More)"
| "map_exec Resize m = (m, More)"
| "map_exec Empty m = (Map.empty, More)"

text \<open>A history; the switch \<open>dict_can_resize\<close> may change before every operation.\<close>

fun dict_run ::
  "(bool \<times> 'v dict_op) list \<Rightarrow> (bytes, 'v) dict \<Rightarrow> ((bytes, 'v) dict \<times> 'v dict_result list) option" where
  "dict_run [] d = Some (d, [])"
| "dict_run ((cr, op) # ops) d =
     do { (d, r) \<leftarrow> dict_exec cr op d; (d, rs) \<leftarrow> dict_run ops d; Some (d, r # rs) }"

fun map_run :: "(bool \<times> 'v dict_op) list \<Rightarrow> (bytes \<rightharpoonup> 'v) \<Rightarrow> (bytes \<rightharpoonup> 'v) \<times> 'v dict_result list" where
  "map_run [] m = (m, [])"
| "map_run ((cr, op) # ops) m =
     (let (m, r) = map_exec op m; (m, rs) = map_run ops m in (m, r # rs))"

text \<open>
  The simulation relation: a well formed dictionary whose every entry has been given its value. The
  dictionary maps what its callbacks see of a key, which is all of a key of less than 2 ^ 31 bytes.
\<close>

definition dict_rel :: "bytes \<Rightarrow> (bytes, 'v) dict \<Rightarrow> (bytes \<rightharpoonup> 'v) \<Rightarrow> bool" where
  "dict_rel seed d m \<longleftrightarrow> dict_wf (dbDictType seed) sds_canon d \<and>
     dict_map sds_canon d = (\<lambda>k. map_option Some (m k)) \<and> (\<forall>k \<in> dom m. short_key k)"

text \<open>The operations the refinement is about: short keys, and a number of buckets that fits an \<open>int\<close>.\<close>

fun dict_op_ok :: "'v dict_op \<Rightarrow> bool" where
  "dict_op_ok (Add k v) = short_key k"
| "dict_op_ok (Replace k v) = short_key k"
| "dict_op_ok (Fetch k) = short_key k"
| "dict_op_ok (Delete k) = short_key k"
| "dict_op_ok (Rehash n) = (0 < n \<and> n * 10 < 2 ^ 31)"
| "dict_op_ok Resize = True"
| "dict_op_ok Empty = True"

lemma dict_size_card:
  assumes "dict_wf t canon d"
  shows "dictSize d = card (dom (dict_map canon d))"
proof -
  have "dom (dict_map canon d) = (\<lambda>e. canon (de_key e)) ` set (dict_entries d)"
    by (auto simp: dict_map_def dom_map_of_conv_image_fst image_image)
  then have "dom (dict_map canon d) = set (map (\<lambda>e. canon (de_key e)) (dict_entries d))" by simp
  moreover have "distinct (map (\<lambda>e. canon (de_key e)) (dict_entries d))" using assms by (simp add: dict_wf_def)
  ultimately show ?thesis by (simp only: distinct_card dict_wf_used [OF assms] length_map)
qed

lemma dict_rel_size: "dict_rel seed d m \<Longrightarrow> dictSize d = card (dom m)"
  by (auto simp: dict_rel_def dict_size_card dom_def)

lemma map_exec_card:
  "finite (dom m) \<Longrightarrow> finite (dom (fst (map_exec op m))) \<and> card (dom (fst (map_exec op m))) \<le> Suc (card (dom m))"
  by (cases op) (auto simp: card_insert_if intro: card_mono le_SucI)

lemma dict_rel_finite: "dict_rel seed d m \<Longrightarrow> finite (dom m)"
proof -
  assume r: "dict_rel seed d m"
  then have "dom m = dom (dict_map sds_canon d)" by (auto simp: dict_rel_def dom_def)
  then show ?thesis by (simp add: dict_map_def finite_dom_map_of)
qed

lemma dbDictType_valDup [simp]: "valDup (dbDictType seed) = None"
  by (simp add: dbDictType_def)

lemma dict_rel_upd:
  "dict_map sds_canon d' = (dict_map sds_canon d)(k \<mapsto> Some v) \<Longrightarrow> dict_wf (dbDictType seed) sds_canon d' \<Longrightarrow> short_key k \<Longrightarrow>
     dict_rel seed d m \<Longrightarrow> dict_rel seed d' (m(k \<mapsto> v))"
  by (auto simp: dict_rel_def)

lemma dict_rel_step:
  "dict_rel seed d m \<Longrightarrow> dict_wf (dbDictType seed) sds_canon d' \<Longrightarrow> dict_step d d' \<Longrightarrow> dict_rel seed d' m"
  using db.dict_step_wf [of seed d d'] by (auto simp: dict_rel_def)

lemma dictResize_spec:
  assumes "dict_wf t canon d"
  shows "dict_wf t canon (fst (dictResize cr d)) \<and> dict_step d (fst (dictResize cr d))"
proof (cases "cr \<and> \<not> dictIsRehashing d")
  case True
  let ?m = "sint (of_nat (ht_used (ht0 d)) :: u32)"
  have "?m < 2 ^ 31" using sint_less [of "of_nat (ht_used (ht0 d)) :: u32"] by simp
  then have "nat (if ?m < 4 then 4 else ?m) \<le> 2 ^ 31" by (auto simp: nat_le_iff)
  moreover obtain d' st where "dictExpand (nat (if ?m < 4 then 4 else ?m)) d = (d', st)" by fastforce
  moreover have "dictResize cr d = dictExpand (nat (if ?m < 4 then 4 else ?m)) d"
    using True by (simp add: dictResize_def DICT_HT_INITIAL_SIZE_def)
  ultimately show ?thesis using dictExpand_spec [OF assms] by simp
next
  case False
  with assms show ?thesis by (auto simp: dictResize_def)
qed

lemma dict_exec_refines:
  assumes r: "dict_rel seed d m" and small: "card (dom m) \<le> 2 ^ 30" and ok: "dict_op_ok op"
  shows "\<exists>d'. dict_exec cr op d = Some (d', snd (map_exec op m)) \<and> dict_rel seed d' (fst (map_exec op m))"
proof -
  have wf: "dict_wf (dbDictType seed) sds_canon d" and map: "dict_map sds_canon d = (\<lambda>k. map_option Some (m k))"
    using r by (simp_all add: dict_rel_def)
  have sz: "dictSize d \<le> 2 ^ 30" using small dict_rel_size [OF r] by simp
  show ?thesis
  proof (cases op)
    case (Add k v)
    from db.dictAdd_spec [OF wf sz, of k cr v] map show ?thesis
      using r ok by (cases "m k") (auto simp: Add dict_rel_def fun_eq_iff)
  next
    case (Replace k v)
    from db.dictReplace_spec [OF wf sz, of cr k v] map show ?thesis
      using r ok by (auto simp: Replace dict_rel_def fun_eq_iff)
  next
    case (Fetch k)
    from db.dictFetchValue_spec [OF wf, of k] map show ?thesis
      using r ok by (cases "m k") (auto simp: Fetch dict_rel_def)
  next
    case (Delete k)
    from db.dictDelete_spec [OF wf, of k] map show ?thesis
      using r ok by (auto simp: Delete dict_rel_def fun_eq_iff)
  next
    case (Rehash n)
    from dictRehash_spec [OF wf, of n] ok obtain d' more where
      "dictRehash n d = Some (d', more)" "dict_wf (dbDictType seed) sds_canon d'" "dict_step d d'" by (auto simp: Rehash)
    with dict_rel_step [OF r] show ?thesis by (simp add: Rehash)
  next
    case Resize
    with dictResize_spec [OF wf, of cr] dict_rel_step [OF r] show ?thesis by simp
  next
    case Empty
    from db.dictEmpty_spec [OF wf] show ?thesis by (simp add: Empty dict_rel_def)
  qed
qed

lemma dict_run_refines:
  assumes "dict_rel seed d m" and "card (dom m) + length ops \<le> 2 ^ 30"
    and "\<forall>(cr, op) \<in> set ops. dict_op_ok op"
  shows "\<exists>d'. dict_run ops d = Some (d', snd (map_run ops m)) \<and> dict_rel seed d' (fst (map_run ops m))"
  using assms
proof (induction ops arbitrary: d m)
  case (Cons a ops)
  obtain cr op where a: "a = (cr, op)" by fastforce
  obtain d1 where d1: "dict_exec cr op d = Some (d1, snd (map_exec op m))"
      "dict_rel seed d1 (fst (map_exec op m))"
    using dict_exec_refines [OF Cons.prems(1), of op cr] Cons.prems(2,3) a by fastforce
  have "card (dom (fst (map_exec op m))) \<le> Suc (card (dom m))"
    using map_exec_card [OF dict_rel_finite [OF Cons.prems(1)]] by blast
  with Cons.IH [OF d1(2)] Cons.prems(2,3) obtain d2 where
    "dict_run ops d1 = Some (d2, snd (map_run ops (fst (map_exec op m))))"
    "dict_rel seed d2 (fst (map_run ops (fst (map_exec op m))))" by auto
  with d1 show ?case by (simp add: a split_beta)
qed simp

text \<open>
  C1. The dictionary refines a finite map. Any history of at most 2 ^ 30 operations on a
  dictionary of the server, additions, replacements, look-ups, deletions, rehashing of a positive
  number of buckets below 214748365, shrinking and emptying in any order, with resizing enabled or not before
  each, runs without a failed assertion or an access outside a table, and gives the results
  and the contents the same history has on a map. The keys have less than 2 ^ 31 bytes: the callbacks
  compare and hash the length of a longer key modulo 2 ^ 32.
\<close>

theorem dict_refines_map:
  assumes "length ops \<le> 2 ^ 30" and "\<forall>(cr, op) \<in> set ops. dict_op_ok op"
  shows "\<exists>d. dict_run ops (dictCreate (dbDictType seed)) = Some (d, snd (map_run ops Map.empty)) \<and>
     dict_map sds_canon d = (\<lambda>k. map_option Some (fst (map_run ops Map.empty) k))"
proof -
  have "dict_rel seed (dictCreate (dbDictType seed)) Map.empty"
    using db.dictCreate_spec [of seed] by (simp add: dict_rel_def)
  from dict_run_refines [OF this _ assms(2)] assms(1) show ?thesis by (auto simp: dict_rel_def)
qed

theorem dict_refines_map_witness:
  "\<exists>d. dict_run [(True, Add [1] ''a''), (True, Add [1] ''b''), (False, Rehash 1), (True, Replace [2] ''c''),
       (True, Fetch [1]), (True, Delete [1]), (True, Fetch [1])] (dictCreate (dbDictType (replicate 16 0))) =
     Some (d, [Status DICT_OK, Status DICT_ERR, More, New True, Value (Some ''a''), Status DICT_OK, Value None]) \<and>
     dict_map sds_canon d = [[2] \<mapsto> Some ''c'']"
  using dict_refines_map [of "[(True, Add [1] ''a''), (True, Add [1] ''b''), (False, Rehash 1),
       (True, Replace [2] ''c''), (True, Fetch [1]), (True, Delete [1]), (True, Fetch [1])]" "replicate 16 0"]
  by (simp add: fun_upd_twist [of "[1]" "[2]"] fun_eq_iff short_key_def) (auto split: if_splits)

subsection \<open>Rehashing ends\<close>

text \<open>\<open>n\<close> successive calls of \<open>dictRehash(d, 1)\<close>.\<close>

fun rehash_times :: "nat \<Rightarrow> ('k, 'v) dict \<Rightarrow> ('k, 'v) dict option" where
  "rehash_times 0 d = Some d"
| "rehash_times (Suc n) d = do { (d, more) \<leftarrow> dictRehash 1 d; rehash_times n d }"

lemma rehash_times_spec:
  assumes "dict_wf t canon d" and "dictIsRehashing d \<Longrightarrow> int (ht_size (ht0 d)) \<le> rehashidx d + int n"
  shows "\<exists>d'. rehash_times n d = Some d' \<and> dict_wf t canon d' \<and> dict_step d d' \<and>
     (n > 0 \<longrightarrow> \<not> dictIsRehashing d')"
  using assms
proof (induction n arbitrary: d)
  case (Suc n)
  obtain d1 more where d1: "dictRehash 1 d = Some (d1, more)" "dict_wf t canon d1" "dict_step d d1"
     "dictIsRehashing d1 \<longrightarrow> dictIsRehashing d \<and> rehashidx d < rehashidx d1 \<and>
        rehashidx d1 < int (ht_size (ht0 d1)) \<and> ht_size (ht0 d1) = ht_size (ht0 d)"
    using dictRehash_spec [OF Suc.prems(1), of 1] by auto
  have "int (ht_size (ht0 d1)) \<le> rehashidx d1 + int n" if "dictIsRehashing d1"
    using d1(4) Suc.prems(2) that by simp
  from Suc.IH [OF d1(2) this] obtain d2 where d2: "rehash_times n d1 = Some d2" "dict_wf t canon d2"
      "dict_step d1 d2" "n > 0 \<longrightarrow> \<not> dictIsRehashing d2" by blast
  have "\<not> dictIsRehashing d2"
  proof (cases "n = 0")
    case True
    then have "\<not> dictIsRehashing d1" using d1(4) Suc.prems(2) by auto
    with True d2(1) show ?thesis by simp
  qed (use d2(4) in simp)
  with d1(1) d2 dict_step_trans [OF d1(3) d2(3)] show ?case by simp
qed simp

text \<open>
  C12. Incremental rehashing ends: after at most one call of \<open>dictRehash(d, 1)\<close> per bucket of
  the old table the dictionary is no longer rehashing, its contents are unchanged, and no
  call on the way fails.
\<close>

theorem rehash_completes:
  assumes "dict_wf t canon d" and "ht_size (ht0 d) \<le> n" and "n > 0"
  shows "\<exists>d'. rehash_times n d = Some d' \<and> \<not> dictIsRehashing d' \<and> dict_wf t canon d' \<and>
     dict_map canon d' = dict_map canon d"
proof -
  have "dictIsRehashing d \<Longrightarrow> rehashidx d \<ge> 0" using assms(1) by (simp add: dict_wf_def)
  with assms(2) have "int (ht_size (ht0 d)) \<le> rehashidx d + int n" if "dictIsRehashing d"
    using that by fastforce
  from rehash_times_spec [OF assms(1) this] assms(3) show ?thesis
    using dict_map_step [OF assms(1)] by blast
qed

theorem rehash_completes_witness:
  "let d = fst (dictExpand 8 (one_table 2 1)) in
     dictIsRehashing d \<and> (\<exists>d'. rehash_times 4 d = Some d' \<and> \<not> dictIsRehashing d' \<and>
       dict_map (\<lambda>k. k) d' = [1 \<mapsto> Some 7])"
proof -
  let ?d = "fst (dictExpand 8 (one_table 2 1))"
  have p: "dictNextPower 8 = 2 ^ 3"
    by (simp add: dictNextPower_def LONG_MAX_def DICT_HT_INITIAL_SIZE_def next_power_loop.simps)
  have x: "dictExpand 8 (one_table 2 1) = ((one_table 2 1)\<lparr>ht1 := \<lparr>ht_table = replicate (2 ^ 3) [], ht_size = 2 ^ 3,
         ht_sizemask = mask 3, ht_used = 0\<rparr>, rehashidx := 0\<rparr>, DICT_OK)"
      "dict_wf word_type (\<lambda>k. k) ?d" "dict_entries ?d = [one_entry 1]"
    by (rule one_table_expand_wf [of 2 3 1 8]; simp add: p)+
  have "dictIsRehashing ?d" "ht_size (ht0 ?d) = 4"
    unfolding x(1) by (simp_all add: one_table_def dictIsRehashing_def)
  moreover have "dict_map (\<lambda>k. k) ?d = [1 \<mapsto> Some 7]"
    by (simp only: dict_map_def x(3)) (simp add: one_entry_def)
  ultimately show ?thesis using rehash_completes [OF x(2), of 4] by (auto simp: Let_def)
qed

end
