(* ===== verification/Bytes.thy ===== *)
theory Bytes
  imports Redis_Prelude "HOL-Library.Monad_Syntax"
begin

unbundle bit_operations_syntax

section \<open>Byte buffers and integers in them\<close>

text \<open>
  A block of memory is a list of bytes; reading or writing outside of it is \<open>None\<close>. Integers
  are stored little endian, as on the target, in two's complement. The last part models
  \<open>endianconv.c\<close>.
\<close>

definition byte_at :: "bytes \<Rightarrow> nat \<Rightarrow> u8 option" where
  "byte_at m i = (if i < length m then Some (m ! i) else None)"

definition mem_read :: "bytes \<Rightarrow> nat \<Rightarrow> nat \<Rightarrow> bytes option" where
  "mem_read m p n = (if p + n \<le> length m then Some (take n (drop p m)) else None)"

definition mem_write :: "bytes \<Rightarrow> nat \<Rightarrow> bytes \<Rightarrow> bytes option" where
  "mem_write m p bs =
     (if p + length bs \<le> length m then Some (take p m @ bs @ drop (p + length bs) m) else None)"

definition memmove :: "bytes \<Rightarrow> nat \<Rightarrow> nat \<Rightarrow> nat \<Rightarrow> bytes option" where
  "memmove m dst src n = do { bs \<leftarrow> mem_read m src n; mem_write m dst bs }"

text \<open>\<open>zrealloc\<close> of a block: new bytes have arbitrary values.\<close>

definition mem_realloc :: "(nat \<Rightarrow> u8) \<Rightarrow> bytes \<Rightarrow> nat \<Rightarrow> bytes" where
  "mem_realloc junk m n = take n m @ map junk [length m..<n]"

lemma length_mem_realloc [simp]: "length (mem_realloc junk m n) = n"
  by (simp add: mem_realloc_def)

lemma mem_write_length: "mem_write m p bs = Some m' \<Longrightarrow> length m' = length m"
  by (auto simp: mem_write_def split: if_splits)

subsection \<open>Little endian integers\<close>

definition le_encode :: "nat \<Rightarrow> int \<Rightarrow> bytes" where
  "le_encode n v = map (\<lambda>i. word_of_int (v div 256 ^ i)) [0..<n]"

fun le_nat :: "bytes \<Rightarrow> nat" where
  "le_nat [] = 0"
| "le_nat (b # bs) = unat b + 256 * le_nat bs"

definition le_decode :: "bytes \<Rightarrow> int" where
  "le_decode bs =
     (let u = int (le_nat bs); m = 2 ^ (8 * length bs) in if 2 * u < m then u else u - m)"

definition int_range :: "nat \<Rightarrow> int set" where
  "int_range n = {v. - (2 ^ (8 * n)) \<le> 2 * v \<and> 2 * v < 2 ^ (8 * n)}"

lemma length_le_encode [simp]: "length (le_encode n v) = n"
  by (simp add: le_encode_def)

lemma le_encode_Suc: "le_encode (Suc n) v = word_of_int v # le_encode n (v div 256)"
proof -
  have "[0..<Suc n] = 0 # map Suc [0..<n]" by (simp add: map_Suc_upt upt_conv_Cons del: upt_Suc)
  then show ?thesis by (simp add: le_encode_def comp_def zdiv_zmult2_eq del: upt_Suc)
qed

lemma le_nat_encode: "int (le_nat (le_encode n v)) = v mod 256 ^ n"
proof (induction n arbitrary: v)
  case (Suc n)
  have "int (unat (word_of_int v :: u8)) = v mod 256" by (simp add: unsigned_of_int take_bit_eq_mod)
  then have "int (le_nat (le_encode (Suc n) v)) = v mod 256 + 256 * (v div 256 mod 256 ^ n)"
    using Suc [of "v div 256"] by (simp add: le_encode_Suc)
  also have "\<dots> = v mod (256 * 256 ^ n)" by (rule zmod_zmult2_eq [symmetric, simplified add.commute]) simp
  finally show ?case by simp
qed (simp add: le_encode_def)

lemma pow_256: "(256 :: int) ^ n = 2 ^ (8 * n)"
  by (simp add: power_mult)

lemma le_decode_encode:
  assumes "v \<in> int_range n"
  shows "le_decode (le_encode n v) = v"
proof (cases "v \<ge> 0")
  case True
  with assms have "v mod 2 ^ (8 * n) = v" by (simp add: int_range_def)
  with assms show ?thesis by (simp add: le_decode_def le_nat_encode pow_256 int_range_def)
next
  case False
  let ?m = "2 ^ (8 * n) :: int"
  have "v mod ?m = (v + ?m) mod ?m" by simp
  also have "\<dots> = v + ?m" using assms False by (intro mod_pos_pos_trivial) (simp_all add: int_range_def)
  finally have "v mod ?m = v + ?m" .
  moreover have "\<not> 2 * (v + ?m) < ?m" using assms False by (simp add: int_range_def)
  ultimately show ?thesis by (simp add: le_decode_def le_nat_encode pow_256)
qed

lemma le_nat_less: "le_nat bs < 256 ^ length bs"
proof (induction bs)
  case (Cons b bs)
  then have "256 * (le_nat bs + 1) \<le> 256 * 256 ^ length bs" by (intro mult_le_mono) simp_all
  then show ?case using unat_u8_less [of b] by simp
qed simp

lemma int_range_mono: "m \<le> n \<Longrightarrow> int_range m \<subseteq> int_range n"
proof -
  assume "m \<le> n"
  then have "(2::int) ^ (8 * m) \<le> 2 ^ (8 * n)" by (intro power_increasing) simp_all
  then have "- (2 ^ (8 * n)) \<le> 2 * v \<and> 2 * v < 2 ^ (8 * n)"
    if "- (2 ^ (8 * m)) \<le> 2 * v \<and> 2 * v < 2 ^ (8 * m)" for v :: int using that by linarith
  then show ?thesis by (simp only: int_range_def subset_eq mem_Collect_eq) blast
qed

subsection \<open>Arrays of elements of one width\<close>

lemma take_concat_uniform:
  "\<forall>x \<in> set xs. length x = w \<Longrightarrow> take (i * w) (concat xs) = concat (take i xs)"
proof (induction xs arbitrary: i)
  case (Cons x xs)
  then show ?case by (cases i) simp_all
qed simp

lemma drop_concat_uniform:
  "\<forall>x \<in> set xs. length x = w \<Longrightarrow> drop (i * w) (concat xs) = concat (drop i xs)"
proof (induction xs arbitrary: i)
  case (Cons x xs)
  then show ?case by (cases i) simp_all
qed simp

lemma length_concat_uniform: "\<forall>x \<in> set xs. length x = w \<Longrightarrow> length (concat xs) = length xs * w"
  by (induction xs) simp_all

text \<open>
  What array code relies on: encoding a value gives a fixed number of bytes, and decoding them
  gives the value back for every value in range.
\<close>

locale fixed_codec =
  fixes width :: nat and enc :: "'a \<Rightarrow> bytes" and dec :: "bytes \<Rightarrow> 'a" and range :: "'a set"
  assumes enc_length: "length (enc v) = width"
    and dec_enc: "v \<in> range \<Longrightarrow> dec (enc v) = v"
begin

definition array :: "'a list \<Rightarrow> bytes" where
  "array xs = concat (map enc xs)"

lemma array_simps [simp]: "array [] = []" "array (x # xs) = enc x @ array xs" "array (xs @ ys) = array xs @ array ys"
  by (simp_all add: array_def)

lemma length_array [simp]: "length (array xs) = length xs * width"
  by (simp add: array_def length_concat_uniform [where w = width] enc_length)

lemma take_array: "take (i * width) (array xs) = array (take i xs)"
  by (simp add: array_def take_concat_uniform enc_length take_map)

lemma drop_array: "drop (i * width) (array xs) = array (drop i xs)"
  by (simp add: array_def drop_concat_uniform enc_length drop_map)

lemma read_prefix:
  assumes "take (n * width) m = array xs" and "i < length xs" and "set xs \<subseteq> range" and "n = length xs"
  shows "map_option dec (mem_read m (i * width) width) = Some (xs ! i)"
proof -
  have "length (take (n * width) m) = n * width" using assms by simp
  then have len: "n * width \<le> length m" by simp
  have i: "i * width + width \<le> n * width" using assms(2,4) by (metis Suc_leI add.commute mult_Suc mult_le_mono1)
  have "take width (drop (i * width) m) = take width (drop (i * width) (take (n * width) m))"
    using i by (simp add: drop_take min_def)
  also have "\<dots> = take width (array (drop i xs))" using assms(1) by (simp add: drop_array)
  also have "\<dots> = enc (xs ! i)" using assms(2) by (simp add: enc_length flip: Cons_nth_drop_Suc)
  finally show ?thesis using i len assms(2,3) by (simp add: mem_read_def dec_enc subset_iff)
qed

lemma read_array:
  "i < length xs \<Longrightarrow> set xs \<subseteq> range \<Longrightarrow> map_option dec (mem_read (array xs) (i * width) width) = Some (xs ! i)"
  by (rule read_prefix [of "length xs"]) simp_all

lemma write_array:
  assumes "length m = n * width" and "i < n"
  shows "mem_write m (i * width) (enc v) =
    Some (take (i * width) m @ enc v @ drop (Suc i * width) m)"
proof -
  have "i * width + width \<le> n * width" using assms(2) by (metis Suc_leI add.commute mult_Suc mult_le_mono1)
  then show ?thesis using assms(1) by (simp add: mem_write_def enc_length add.commute)
qed

lemma read_at: "length m = a + b + c \<Longrightarrow> mem_read m a b = Some (take b (drop a m))"
  by (simp add: mem_read_def)

text \<open>Inserting an element into an array that has been extended by room for one more.\<close>

lemma insert_array:
  assumes p: "p \<le> length xs" and j: "length j = width"
  shows "(if p < length xs
      then memmove (array xs @ j) (Suc p * width) (p * width) ((length xs - p) * width)
      else Some (array xs @ j)) \<bind> (\<lambda>m. mem_write m (p * width) (enc v)) =
    Some (array (take p xs @ v # drop p xs))"
proof -
  define A B where "A = array (take p xs)" and "B = array (drop p xs)"
  have m: "array xs @ j = A @ B @ j" unfolding A_def B_def by (metis append.assoc append_take_drop_id array_simps(3))
  have A: "p * width = length A" and A': "Suc p * width = length A + width"
    and B: "(length xs - p) * width = length B" using p by (simp_all add: A_def B_def min_def)
  let ?m1 = "take (length A + width) (A @ B @ j) @ B"
  have mv: "memmove (A @ B @ j) (length A + width) (length A) (length B) = Some ?m1"
    using j by (cases B) (auto simp: memmove_def mem_read_def mem_write_def)
  have w: "mem_write m1 (length A) (enc v) = Some (A @ enc v @ drop (length A + width) m1)"
    if "length m1 = length A + length B + width" "take (length A) m1 = A" for m1
    using that by (simp add: mem_write_def enc_length)
  show ?thesis
  proof (cases "p < length xs")
    case True
    have l: "length ?m1 = length A + length B + width" using j by (cases B) auto
    have "drop (length A + width) ?m1 = B" using l by simp
    with w [OF l] have w1: "mem_write ?m1 (p * width) (enc v) = Some (A @ enc v @ B)" unfolding A by simp
    have "memmove (array xs @ j) (Suc p * width) (p * width) ((length xs - p) * width) = Some ?m1"
      unfolding m A A' B by (rule mv)
    with w1 True show ?thesis by (simp only: if_P bind.bind_lunit) (simp add: A_def B_def)
  next
    case False
    then have "B = []" by (simp add: B_def)
    then show ?thesis using False w [of "A @ j"] j by (simp add: m A) (simp add: A_def B_def)
  qed
qed

text \<open>Closing the gap an element leaves; the last place of the array is then free.\<close>

lemma remove_array:
  assumes p: "p < length xs"
  shows "\<exists>m. (if p < length xs - 1
      then memmove (array xs) (p * width) (Suc p * width) ((length xs - Suc p) * width)
      else Some (array xs)) = Some m \<and>
    take ((length xs - 1) * width) m = array (take p xs @ drop (Suc p) xs)"
proof -
  define A B where "A = array (take p xs)" and "B = array (drop (Suc p) xs)"
  have m: "array xs = A @ enc (xs ! p) @ B"
    unfolding A_def B_def using p by (metis array_simps(2,3) id_take_nth_drop)
  have A: "p * width = length A" and A': "Suc p * width = length A + width"
    and B: "(length xs - Suc p) * width = length B" using p by (simp_all add: A_def B_def min_def)
  have n: "(length xs - 1) * width = length A + length B"
    using p by (simp add: A_def B_def flip: add_mult_distrib)
  show ?thesis
  proof (cases "p < length xs - 1")
    case True
    let ?m = "A @ B @ drop (length B) (enc (xs ! p) @ B)"
    have "memmove (array xs) (p * width) (Suc p * width) ((length xs - Suc p) * width) = Some ?m"
      unfolding m A A' B by (simp add: memmove_def mem_read_def mem_write_def enc_length)
    moreover have "take ((length xs - 1) * width) ?m = A @ B" unfolding n by simp
    ultimately show ?thesis using True by (intro exI [of _ ?m]) (simp add: A_def B_def)
  next
    case False
    then have "B = []" by (simp add: B_def)
    then show ?thesis using False n by (simp add: m) (simp add: A_def B_def)
  qed
qed

end

interpretation le: fixed_codec n "le_encode n" le_decode "int_range n" for n
  by unfold_locales (simp_all add: le_decode_encode)

subsection \<open>\<open>endianconv.c\<close>\<close>

text \<open>The swaps of \<open>memrev16\<close>, \<open>memrev32\<close> and \<open>memrev64\<close>, on the bytes their argument points to.\<close>

definition swap_bytes :: "nat \<Rightarrow> nat \<Rightarrow> bytes \<Rightarrow> bytes" where
  "swap_bytes i j x = (let t = x ! i; x = x[i := x ! j] in x[j := t])"

definition memrev16 :: "bytes \<Rightarrow> bytes" where
  "memrev16 x = swap_bytes 0 1 x"

definition memrev32 :: "bytes \<Rightarrow> bytes" where
  "memrev32 x = swap_bytes 1 2 (swap_bytes 0 3 x)"

definition memrev64 :: "bytes \<Rightarrow> bytes" where
  "memrev64 x = swap_bytes 3 4 (swap_bytes 2 5 (swap_bytes 1 6 (swap_bytes 0 7 x)))"

definition intrev16 :: "u16 \<Rightarrow> u16" where
  "intrev16 v = of_nat (le_nat (memrev16 (le_encode 2 (uint v))))"

definition intrev32 :: "u32 \<Rightarrow> u32" where
  "intrev32 v = of_nat (le_nat (memrev32 (le_encode 4 (uint v))))"

definition intrev64 :: "u64 \<Rightarrow> u64" where
  "intrev64 v = of_nat (le_nat (memrev64 (le_encode 8 (uint v))))"

lemma memrev_rev:
  "length x = 2 \<Longrightarrow> memrev16 x = rev x"
  "length x = 4 \<Longrightarrow> memrev32 x = rev x"
  "length x = 8 \<Longrightarrow> memrev64 x = rev x"
  by (auto simp: memrev16_def memrev32_def memrev64_def swap_bytes_def Let_def eval_nat_numeral length_Suc_conv)

lemma le_encode_nat: "le_encode (length bs) (int (le_nat bs)) = bs"
proof (induction bs)
  case (Cons b bs)
  have "(word_of_int (int (unat b) + 256 * int (le_nat bs)) :: u8) = b"
  proof -
    have "uint b < 256" using uint_lt2p [of b] by simp
    then have "(int (unat b) + 256 * int (le_nat bs)) mod 256 = int (unat b)" by simp
    then have "(word_of_int (int (unat b) + 256 * int (le_nat bs)) :: u8) = word_of_int (int (unat b))"
      by (simp only: word_of_int_eq_iff) (simp add: take_bit_eq_mod)
    then show ?thesis by simp
  qed
  moreover have "(int (unat b) + 256 * int (le_nat bs)) div 256 = int (le_nat bs)"
    using uint_lt2p [of b] by simp
  ultimately show ?case using Cons by (simp add: le_encode_Suc)
qed (simp add: le_encode_def)

lemma rev_word_twice:
  fixes v :: "'a::len word"
  assumes "LENGTH('a) = 8 * n"
  shows "(of_nat (le_nat (rev (le_encode n (uint (of_nat (le_nat (rev (le_encode n (uint v)))) :: 'a word))))) :: 'a word) = v"
proof -
  let ?x = "rev (le_encode n (uint v))"
  have "le_nat ?x < 2 ^ LENGTH('a)" using le_nat_less [of ?x] assms by (simp add: power_mult)
  then have "uint (of_nat (le_nat ?x) :: 'a word) = int (le_nat ?x)"
    by (simp add: unsigned_of_nat take_bit_nat_eq_self)
  then have "le_encode n (uint (of_nat (le_nat ?x) :: 'a word)) = ?x"
    using le_encode_nat [of ?x] by simp
  moreover have "int (le_nat (le_encode n (uint v))) = uint v"
    using uint_lt2p [of v] assms by (simp add: le_nat_encode pow_256)
  ultimately show ?thesis by (metis of_int_of_nat_eq rev_rev_ident word_of_int_uint)
qed

text \<open>
  Reversing the bytes of an integer twice gives it back, for every width: data written by a
  host of the other byte order is read correctly.
\<close>

theorem intrev_involution:
  "intrev16 (intrev16 a) = a \<and> intrev32 (intrev32 b) = b \<and> intrev64 (intrev64 c) = c"
  using rev_word_twice [of 2 a] rev_word_twice [of 4 b] rev_word_twice [of 8 c]
  by (simp add: intrev16_def intrev32_def intrev64_def memrev_rev)

end
