(* ===== verification/Intset.thy ===== *)
theory Intset
  imports Bytes
begin

section \<open>Sets of integers: \<open>intset.c\<close>\<close>

text \<open>
  An \<open>intset\<close> keeps its elements sorted in one block of memory, all in the narrowest of three
  encodings that fits them. \<open>None\<close> is an access outside the block. The block's size is
  computed in 32 bits, as \<open>intsetResize\<close> does; the bytes a reallocation adds are arbitrary
  (\<open>junk\<close>). Positions and lengths are natural numbers: they are below 2 ^ 31 here.
\<close>

record intset =
  is_encoding :: nat
  is_length :: nat
  is_contents :: bytes

definition INTSET_ENC_INT16 :: nat where "INTSET_ENC_INT16 = 2"

definition INTSET_ENC_INT32 :: nat where "INTSET_ENC_INT32 = 4"

definition INTSET_ENC_INT64 :: nat where "INTSET_ENC_INT64 = 8"

lemmas enc_defs = INTSET_ENC_INT16_def INTSET_ENC_INT32_def INTSET_ENC_INT64_def

definition intsetValueEncoding :: "int \<Rightarrow> nat" where
  "intsetValueEncoding v =
     (if v < - (2 ^ 31) \<or> v > 2 ^ 31 - 1 then INTSET_ENC_INT64
      else if v < - (2 ^ 15) \<or> v > 2 ^ 15 - 1 then INTSET_ENC_INT32
      else INTSET_ENC_INT16)"

definition intsetGetEncoded :: "intset \<Rightarrow> nat \<Rightarrow> nat \<Rightarrow> int option" where
  "intsetGetEncoded is pos enc =
     (if enc = INTSET_ENC_INT64 then map_option le_decode (mem_read (is_contents is) (pos * 8) 8)
      else if enc = INTSET_ENC_INT32 then map_option le_decode (mem_read (is_contents is) (pos * 4) 4)
      else map_option le_decode (mem_read (is_contents is) (pos * 2) 2))"

definition intsetGetPos :: "intset \<Rightarrow> nat \<Rightarrow> int option" where
  "intsetGetPos is pos = intsetGetEncoded is pos (is_encoding is)"

definition intsetSet :: "intset \<Rightarrow> nat \<Rightarrow> int \<Rightarrow> intset option" where
  "intsetSet is pos value =
     (let m = is_contents is in
      map_option (\<lambda>m. is\<lparr>is_contents := m\<rparr>)
        (if is_encoding is = INTSET_ENC_INT64 then mem_write m (pos * 8) (le_encode 8 value)
         else if is_encoding is = INTSET_ENC_INT32 then mem_write m (pos * 4) (le_encode 4 value)
         else mem_write m (pos * 2) (le_encode 2 value)))"

definition intsetNew :: intset where
  "intsetNew = \<lparr>is_encoding = INTSET_ENC_INT16, is_length = 0, is_contents = []\<rparr>"

definition intsetResize :: "(nat \<Rightarrow> u8) \<Rightarrow> intset \<Rightarrow> nat \<Rightarrow> intset" where
  "intsetResize junk is len =
     (let size = (len * is_encoding is) mod 2 ^ 32 in
      is\<lparr>is_contents := mem_realloc junk (is_contents is) size\<rparr>)"

text \<open>
  The binary search. \<open>min\<close> and \<open>max\<close> are at least 0 and -1 and below 2 ^ 31, so their sum in
  \<open>unsigned int\<close> does not wrap. The result is \<open>min\<close>, \<open>mid\<close> and \<open>cur\<close> at the end of the loop.
\<close>

function search_loop ::
  "intset \<Rightarrow> int \<Rightarrow> int \<Rightarrow> int \<Rightarrow> int \<Rightarrow> int \<Rightarrow> (int \<times> int \<times> int) option" where
  "search_loop is value mn mx mid cur =
     (if mx \<ge> mn then
        let mid = (mn + mx) div 2 in
        case intsetGetPos is (nat mid) of
          None \<Rightarrow> None
        | Some cur \<Rightarrow>
            if value > cur then search_loop is value (mid + 1) mx mid cur
            else if value < cur then search_loop is value mn (mid - 1) mid cur
            else Some (mn, mid, cur)
      else Some (mn, mid, cur))"
  by pat_completeness auto
termination
  by (relation "measure (\<lambda>(_, _, mn, mx, _, _). nat (mx - mn + 1))") auto

declare search_loop.simps [simp del]

definition intsetSearch :: "intset \<Rightarrow> int \<Rightarrow> (bool \<times> nat) option" where
  "intsetSearch is value =
     (if is_length is = 0 then Some (False, 0)
      else do {
        last \<leftarrow> intsetGetPos is (is_length is - 1);
        if value > last then Some (False, is_length is)
        else do {
          first \<leftarrow> intsetGetPos is 0;
          if value < first then Some (False, 0)
          else do {
            (mn, mid, cur) \<leftarrow> search_loop is value 0 (int (is_length is) - 1) (-1) (-1);
            if value = cur then Some (True, nat mid) else Some (False, nat mn)
          }
        }
      })"

text \<open>\<open>while(length--)\<close>: the elements are widened from the last to the first.\<close>

fun upgrade_loop :: "nat \<Rightarrow> nat \<Rightarrow> nat \<Rightarrow> intset \<Rightarrow> intset option" where
  "upgrade_loop curenc prepend 0 is = Some is"
| "upgrade_loop curenc prepend (Suc len) is = do {
     v \<leftarrow> intsetGetEncoded is len curenc;
     is \<leftarrow> intsetSet is (len + prepend) v;
     upgrade_loop curenc prepend len is
   }"

definition intsetUpgradeAndAdd :: "(nat \<Rightarrow> u8) \<Rightarrow> intset \<Rightarrow> int \<Rightarrow> intset option" where
  "intsetUpgradeAndAdd junk is value =
     (let curenc = is_encoding is; newenc = intsetValueEncoding value;
          len = is_length is; prepend = (if value < 0 then 1 else 0);
          is = is\<lparr>is_encoding := newenc\<rparr>;
          is = intsetResize junk is (is_length is + 1)
      in do {
        is \<leftarrow> upgrade_loop curenc prepend len is;
        is \<leftarrow> (if prepend = 1 then intsetSet is 0 value else intsetSet is (is_length is) value);
        Some (is\<lparr>is_length := is_length is + 1\<rparr>)
      })"

definition intsetMoveTail :: "intset \<Rightarrow> nat \<Rightarrow> nat \<Rightarrow> intset option" where
  "intsetMoveTail is from to =
     (let bytes = is_length is - from; m = is_contents is in
      map_option (\<lambda>m. is\<lparr>is_contents := m\<rparr>)
        (if is_encoding is = INTSET_ENC_INT64 then memmove m (to * 8) (from * 8) (bytes * 8)
         else if is_encoding is = INTSET_ENC_INT32 then memmove m (to * 4) (from * 4) (bytes * 4)
         else memmove m (to * 2) (from * 2) (bytes * 2)))"

definition intsetAdd :: "(nat \<Rightarrow> u8) \<Rightarrow> intset \<Rightarrow> int \<Rightarrow> (intset \<times> bool) option" where
  "intsetAdd junk is value =
     (if intsetValueEncoding value > is_encoding is
      then map_option (\<lambda>is. (is, True)) (intsetUpgradeAndAdd junk is value)
      else do {
        (found, pos) \<leftarrow> intsetSearch is value;
        if found then Some (is, False)
        else do {
          let is = intsetResize junk is (is_length is + 1);
          is \<leftarrow> (if pos < is_length is then intsetMoveTail is pos (pos + 1) else Some is);
          is \<leftarrow> intsetSet is pos value;
          Some (is\<lparr>is_length := is_length is + 1\<rparr>, True)
        }
      })"

definition intsetRemove :: "(nat \<Rightarrow> u8) \<Rightarrow> intset \<Rightarrow> int \<Rightarrow> (intset \<times> bool) option" where
  "intsetRemove junk is value =
     (if intsetValueEncoding value \<le> is_encoding is
      then do {
        (found, pos) \<leftarrow> intsetSearch is value;
        if \<not> found then Some (is, False)
        else do {
          let len = is_length is;
          is \<leftarrow> (if pos < len - 1 then intsetMoveTail is (pos + 1) pos else Some is);
          let is = intsetResize junk is (len - 1);
          Some (is\<lparr>is_length := len - 1\<rparr>, True)
        }
      }
      else Some (is, False))"

definition intsetFind :: "intset \<Rightarrow> int \<Rightarrow> bool option" where
  "intsetFind is value =
     (if intsetValueEncoding value \<le> is_encoding is
      then map_option fst (intsetSearch is value) else Some False)"

text \<open>\<open>r\<close> is the value \<open>rand\<close> returns.\<close>

definition intsetRandom :: "nat \<Rightarrow> intset \<Rightarrow> int option" where
  "intsetRandom r is = (if is_length is = 0 then None else intsetGetPos is (r mod is_length is))"

definition intsetGet :: "intset \<Rightarrow> nat \<Rightarrow> int option option" where
  "intsetGet is pos =
     (if pos < is_length is then map_option Some (intsetGetPos is pos) else Some None)"

definition intsetLen :: "intset \<Rightarrow> nat" where
  "intsetLen is = is_length is"

definition intsetBlobLen :: "intset \<Rightarrow> nat" where
  "intsetBlobLen is = 8 + (is_length is * is_encoding is) mod 2 ^ 32"

subsection \<open>The invariant\<close>

definition intset_wf :: "intset \<Rightarrow> int list \<Rightarrow> bool" where
  "intset_wf is xs \<longleftrightarrow>
     is_encoding is \<in> {2, 4, 8} \<and> is_length is = length xs \<and>
     is_contents is = le.array (is_encoding is) xs \<and>
     set xs \<subseteq> int_range (is_encoding is) \<and> sorted_wrt (<) xs"

lemma intset_encD: "intset_wf is xs \<Longrightarrow> is_encoding is = 2 \<or> is_encoding is = 4 \<or> is_encoding is = 8"
  by (auto simp: intset_wf_def)

lemma intsetGetEncoded_eq:
  "enc \<in> {2, 4, 8} \<Longrightarrow> intsetGetEncoded is pos enc = map_option le_decode (mem_read (is_contents is) (pos * enc) enc)"
  by (auto simp: intsetGetEncoded_def enc_defs)

lemma intsetSet_eq:
  "is_encoding is \<in> {2, 4, 8} \<Longrightarrow> intsetSet is pos v =
     map_option (\<lambda>m. is\<lparr>is_contents := m\<rparr>)
       (mem_write (is_contents is) (pos * is_encoding is) (le_encode (is_encoding is) v))"
  by (auto simp: intsetSet_def enc_defs)

lemma intsetMoveTail_eq:
  "is_encoding is \<in> {2, 4, 8} \<Longrightarrow> intsetMoveTail is from to =
     map_option (\<lambda>m. is\<lparr>is_contents := m\<rparr>)
       (memmove (is_contents is) (to * is_encoding is) (from * is_encoding is)
          ((is_length is - from) * is_encoding is))"
  by (auto simp: intsetMoveTail_def enc_defs)

lemma intsetGetPos_wf: "intset_wf is xs \<Longrightarrow> i < length xs \<Longrightarrow> intsetGetPos is i = Some (xs ! i)"
  using le.read_array [of i xs "is_encoding is"]
  by (simp add: intset_wf_def intsetGetPos_def intsetGetEncoded_eq)

subsection \<open>Searching\<close>

lemma sorted_wrt_nth_iff:
  "sorted_wrt (<) (xs :: int list) \<Longrightarrow> i < length xs \<Longrightarrow> j < length xs \<Longrightarrow> xs ! i < xs ! j \<longleftrightarrow> i < j"
  by (metis linorder_neqE_nat order_less_asym sorted_wrt_nth_less)

text \<open>The insertion position: everything before is smaller, everything from there on larger.\<close>

definition insert_pos :: "int list \<Rightarrow> int \<Rightarrow> nat \<Rightarrow> bool" where
  "insert_pos xs v p \<longleftrightarrow> p \<le> length xs \<and> (\<forall>i < p. xs ! i < v) \<and> (\<forall>i < length xs. p \<le> i \<longrightarrow> v < xs ! i)"

lemma search_loop_spec:
  assumes wf: "intset_wf is xs" and "0 \<le> mn" and "mx < int (length xs)"
    and "\<forall>i < length xs. int i < mn \<longrightarrow> xs ! i < v" and "\<forall>i < length xs. mx < int i \<longrightarrow> v < xs ! i"
    and "mn \<le> mx + 1" and "mx < mn \<longrightarrow> cur \<noteq> v"
  shows "\<exists>mn' mid' cur'. search_loop is v mn mx mid cur = Some (mn', mid', cur') \<and>
     (if cur' = v then 0 \<le> mid' \<and> nat mid' < length xs \<and> xs ! nat mid' = v
      else v \<notin> set xs \<and> 0 \<le> mn' \<and> insert_pos xs v (nat mn'))"
  using assms(2-)
proof (induction "nat (mx - mn + 1)" arbitrary: mn mx mid cur rule: less_induct)
  case less
  have sorted: "sorted_wrt (<) xs" using wf by (simp add: intset_wf_def)
  show ?case
  proof (cases "mx \<ge> mn")
    case False
    have eq: "mn = mx + 1" using False less.prems(5) by simp
    have "xs ! i \<noteq> v" if "i < length xs" for i
      using less.prems(3,4) that eq by (cases "int i < mn") auto
    then have "v \<notin> set xs" by (auto simp: in_set_conv_nth)
    moreover have "insert_pos xs v (nat mn)"
      unfolding insert_pos_def using less.prems(1-4) eq by auto
    ultimately show ?thesis using False less.prems(1,6) by (simp add: search_loop.simps)
  next
    case True
    define md where "md = (mn + mx) div 2"
    have md: "mn \<le> md" "md \<le> mx" using True by (simp_all add: md_def)
    then have i: "nat md < length xs" using less.prems(1,2) by simp
    note get = intsetGetPos_wf [OF wf i]
    have step: "search_loop is v mn mx mid cur =
        (if v > xs ! nat md then search_loop is v (md + 1) mx md (xs ! nat md)
         else if v < xs ! nat md then search_loop is v mn (md - 1) md (xs ! nat md)
         else Some (mn, md, xs ! nat md))"
      using True by (subst search_loop.simps) (simp add: get flip: md_def)
    consider "v > xs ! nat md" | "v < xs ! nat md" | "v = xs ! nat md" by linarith
    then show ?thesis
    proof cases
      case 1
      then have ne: "xs ! nat md \<noteq> v" by simp
      have low: "\<forall>i < length xs. int i < md + 1 \<longrightarrow> xs ! i < v"
      proof (intro allI impI)
        fix j assume j: "j < length xs" "int j < md + 1"
        show "xs ! j < v"
          using sorted_wrt_nth_iff [OF sorted j(1) i] j(2) 1 by (cases "j = nat md") auto
      qed
      have "nat (mx - (md + 1) + 1) < nat (mx - mn + 1)" using md by simp
      then have r1: "\<exists>mn' mid' cur'. search_loop is v (md + 1) mx md (xs ! nat md) = Some (mn', mid', cur') \<and>
         (if cur' = v then 0 \<le> mid' \<and> nat mid' < length xs \<and> xs ! nat mid' = v
          else v \<notin> set xs \<and> 0 \<le> mn' \<and> insert_pos xs v (nat mn'))"
        by (rule less.hyps) (use low less.prems md ne in auto)
      from 1 step have "search_loop is v mn mx mid cur = search_loop is v (md + 1) mx md (xs ! nat md)" by simp
      with r1 show ?thesis by (simp only:)
    next
      case 2
      then have ne: "xs ! nat md \<noteq> v" by simp
      have high: "\<forall>i < length xs. md - 1 < int i \<longrightarrow> v < xs ! i"
      proof (intro allI impI)
        fix j assume j: "j < length xs" "md - 1 < int j"
        show "v < xs ! j"
          using sorted_wrt_nth_iff [OF sorted i j(1)] j(2) 2 by (cases "j = nat md") auto
      qed
      have "nat (md - 1 - mn + 1) < nat (mx - mn + 1)" using md by simp
      then have r2: "\<exists>mn' mid' cur'. search_loop is v mn (md - 1) md (xs ! nat md) = Some (mn', mid', cur') \<and>
         (if cur' = v then 0 \<le> mid' \<and> nat mid' < length xs \<and> xs ! nat mid' = v
          else v \<notin> set xs \<and> 0 \<le> mn' \<and> insert_pos xs v (nat mn'))"
        by (rule less.hyps) (use high less.prems md ne in auto)
      from 2 step have "search_loop is v mn mx mid cur = search_loop is v mn (md - 1) md (xs ! nat md)" by simp
      with r2 show ?thesis by (simp only:)
    next
      case 3
      then show ?thesis using step md less.prems(1) i by simp
    qed
  qed
qed

lemma intsetSearch_spec:
  assumes wf: "intset_wf is xs"
  shows "\<exists>found pos. intsetSearch is v = Some (found, pos) \<and> found = (v \<in> set xs) \<and>
     (if found then pos < length xs \<and> xs ! pos = v else insert_pos xs v pos)"
proof (cases "xs = []")
  case True
  with wf show ?thesis
    by (intro exI [of _ False] exI [of _ 0]) (simp add: intsetSearch_def intset_wf_def insert_pos_def)
next
  case False
  let ?n = "length xs"
  have n: "is_length is = ?n" "?n > 0" and sorted: "sorted_wrt (<) xs"
    using wf False by (simp_all add: intset_wf_def)
  have last: "intsetGetPos is (?n - 1) = Some (xs ! (?n - 1))" and first: "intsetGetPos is 0 = Some (xs ! 0)"
    using intsetGetPos_wf [OF wf] n by simp_all
  consider "v > xs ! (?n - 1)" | "v \<le> xs ! (?n - 1)" "v < xs ! 0" | "v \<le> xs ! (?n - 1)" "v \<ge> xs ! 0" by linarith
  then show ?thesis
  proof cases
    case 1
    have lt: "xs ! i < v" if "i < ?n" for i
      using sorted_wrt_nth_iff [OF sorted that, of "?n - 1"] 1 n that
      by (cases "i = ?n - 1") auto
    then have "v \<notin> set xs" by (auto simp: in_set_conv_nth)
    with lt 1 last n show ?thesis by (auto simp: intsetSearch_def insert_pos_def)
  next
    case 2
    have gt: "v < xs ! i" if "i < ?n" for i
      using sorted_wrt_nth_iff [OF sorted _ that, of 0] 2 n that by (cases "i = 0") auto
    then have "v \<notin> set xs" by (auto simp: in_set_conv_nth)
    with gt 2 last first n show ?thesis by (auto simp: intsetSearch_def insert_pos_def)
  next
    case 3
    obtain mn mid cur where s: "search_loop is v 0 (int ?n - 1) (-1) (-1) = Some (mn, mid, cur)"
      "if cur = v then 0 \<le> mid \<and> nat mid < ?n \<and> xs ! nat mid = v
      else v \<notin> set xs \<and> 0 \<le> mn \<and> insert_pos xs v (nat mn)"
      using search_loop_spec [OF wf, of 0 "int ?n - 1" v "-1" "-1"] n by auto
    with 3 last first n show ?thesis by (cases "cur = v") (auto simp: intsetSearch_def)
  qed
qed

subsection \<open>Encodings\<close>

lemma int_range_simps:
  "v \<in> int_range 2 \<longleftrightarrow> - 32768 \<le> v \<and> v < 32768"
  "v \<in> int_range 4 \<longleftrightarrow> - 2147483648 \<le> v \<and> v < 2147483648"
  "v \<in> int_range 8 \<longleftrightarrow> - 9223372036854775808 \<le> v \<and> v < 9223372036854775808"
  by (auto simp: int_range_def)

lemma valueEncoding_mem: "intsetValueEncoding v \<in> {2, 4, 8}"
  by (auto simp: intsetValueEncoding_def enc_defs)

lemma valueEncoding_le:
  "e \<in> {2, 4, 8} \<Longrightarrow> v \<in> int_range 8 \<Longrightarrow> intsetValueEncoding v \<le> e \<longleftrightarrow> v \<in> int_range e"
  by (auto simp: intsetValueEncoding_def enc_defs int_range_simps split: if_splits)

lemma outside_range:
  assumes "e \<in> {2, 4, 8}" and "v \<notin> int_range e" and "x \<in> int_range e"
  shows "if v < 0 then v < x else x < v"
  using assms by (auto simp: int_range_simps)

subsection \<open>Adding and removing\<close>

definition list_insert_at :: "nat \<Rightarrow> 'a \<Rightarrow> 'a list \<Rightarrow> 'a list" where
  "list_insert_at p v xs = take p xs @ v # drop p xs"

lemma set_list_insert_at [simp]: "set (list_insert_at p v xs) = insert v (set xs)"
  by (auto simp: list_insert_at_def dest: in_set_takeD in_set_dropD)
    (metis UnE append_take_drop_id set_append)

lemma length_list_insert_at [simp]: "length (list_insert_at p v xs) = Suc (length xs)"
  by (simp add: list_insert_at_def)

lemma sorted_insert_at:
  assumes "sorted_wrt (<) xs" and "insert_pos xs v p"
  shows "sorted_wrt (<) (list_insert_at p v xs)"
proof -
  have "x < v" if "x \<in> set (take p xs)" for x
    using assms(2) that by (auto simp: insert_pos_def in_set_conv_nth)
  moreover have "v < x" if "x \<in> set (drop p xs)" for x
    using assms(2) that by (auto simp: insert_pos_def in_set_conv_nth)
  moreover have "sorted_wrt (<) (take p xs @ drop p xs)" using assms(1) by simp
  ultimately show ?thesis
    unfolding list_insert_at_def sorted_wrt_append by (auto intro: less_trans)
qed

lemma resize_grow:
  assumes "intset_wf is xs" and "length xs < 2 ^ 28"
  shows "\<exists>j. length j = is_encoding is \<and>
    intsetResize junk is (is_length is + 1) = is\<lparr>is_contents := is_contents is @ j\<rparr>"
proof -
  let ?e = "is_encoding is" and ?n = "length xs"
  have "(?n + 1) * ?e \<le> 2 ^ 28 * 8" using assms by (intro mult_le_mono) (auto simp: intset_wf_def)
  then have "(?n + 1) * ?e mod 2 ^ 32 = (?n + 1) * ?e" by (intro mod_less) simp
  with assms show ?thesis
    by (intro exI [of _ "map junk [?n * ?e..<(?n + 1) * ?e]"])
      (simp add: intsetResize_def Let_def mem_realloc_def intset_wf_def)
qed

lemma insert_at_spec:
  assumes wf: "intset_wf is xs" and n: "length xs < 2 ^ 28" and p: "insert_pos xs v p"
    and v: "v \<in> int_range (is_encoding is)"
  shows "\<exists>is'. (let is = intsetResize junk is (is_length is + 1) in do {
          is \<leftarrow> (if p < is_length is then intsetMoveTail is p (p + 1) else Some is);
          is \<leftarrow> intsetSet is p v;
          Some (is\<lparr>is_length := is_length is + 1\<rparr>, True)
        }) = Some (is', True) \<and> intset_wf is' (list_insert_at p v xs)"
proof -
  let ?e = "is_encoding is" and ?n = "length xs" and ?xs = "list_insert_at p v xs"
  obtain j where j: "length j = ?e" and r: "intsetResize junk is (is_length is + 1) = is\<lparr>is_contents := is_contents is @ j\<rparr>"
    using resize_grow [OF wf n] by blast
  have c: "is_contents is = le.array ?e xs" and e: "?e \<in> {2, 4, 8}" and l: "is_length is = ?n"
    using wf by (simp_all add: intset_wf_def)
  have p': "p \<le> ?n" using p by (simp add: insert_pos_def)
  obtain m where m: "(if p < ?n then memmove (le.array ?e xs @ j) (Suc p * ?e) (p * ?e) ((?n - p) * ?e)
      else Some (le.array ?e xs @ j)) = Some m" "mem_write m (p * ?e) (le_encode ?e v) = Some (le.array ?e ?xs)"
    using le.insert_array [OF p' j, of v] by (auto simp: list_insert_at_def bind_eq_Some_conv)
  let ?is = "is\<lparr>is_contents := is_contents is @ j\<rparr>"
  have "(if p < is_length ?is then intsetMoveTail ?is p (p + 1) else Some ?is) = Some (is\<lparr>is_contents := m\<rparr>)"
    using m(1) e l c by (cases "p < ?n") (simp_all add: intsetMoveTail_eq)
  moreover have "intsetSet (is\<lparr>is_contents := m\<rparr>) p v = Some (is\<lparr>is_contents := le.array ?e ?xs\<rparr>)"
    using m(2) e by (simp add: intsetSet_eq)
  moreover have "intset_wf (is\<lparr>is_contents := le.array ?e ?xs, is_length := is_length is + 1\<rparr>) ?xs"
    using wf v sorted_insert_at [of xs v p] p by (simp add: intset_wf_def)
  ultimately show ?thesis unfolding r Let_def by simp
qed

lemma upgrade_loop_spec:
  assumes cur: "cur \<in> {2, 4, 8}" and new: "is_encoding is \<in> {2, 4, 8}" "cur \<le> is_encoding is"
    and rng: "set xs \<subseteq> int_range cur" and pre: "pre \<le> 1"
    and len: "length (is_contents is) = Suc n * is_encoding is" and j: "j \<le> n" and n: "n = length xs"
    and low: "take (j * cur) (is_contents is) = le.array cur (take j xs)"
    and high: "take ((n - j) * is_encoding is) (drop ((j + pre) * is_encoding is) (is_contents is)) =
       le.array (is_encoding is) (drop j xs)"
  shows "\<exists>m. upgrade_loop cur pre j is = Some (is\<lparr>is_contents := m\<rparr>) \<and> length m = Suc n * is_encoding is \<and>
     take (n * is_encoding is) (drop (pre * is_encoding is) m) = le.array (is_encoding is) xs"
  using new len j low high
proof (induction j arbitrary: "is")
  case 0
  then show ?case using n by (intro exI [of _ "is_contents is"]) simp
next
  case (Suc j)
  let ?e = "is_encoding is" and ?m = "is_contents is"
  have jn: "j < n" using Suc.prems(4) by simp
  have "map_option le_decode (mem_read ?m (j * cur) cur) = Some (take (Suc j) xs ! j)"
    using Suc.prems(5) jn n rng by (intro le.read_prefix [of "Suc j"]) (auto dest: in_set_takeD)
  then have get: "intsetGetEncoded is j cur = Some (xs ! j)" using cur by (simp add: intsetGetEncoded_eq)
  let ?m' = "take ((j + pre) * ?e) ?m @ le_encode ?e (xs ! j) @ drop (Suc (j + pre) * ?e) ?m"
  have set: "intsetSet is (j + pre) (xs ! j) = Some (is\<lparr>is_contents := ?m'\<rparr>)"
    using le.write_array [OF Suc.prems(3), of "j + pre" "xs ! j"] jn pre Suc.prems(1) by (simp add: intsetSet_eq)
  have le: "(j + pre) * ?e \<le> length ?m" "Suc (j + pre) * ?e \<le> length ?m"
    unfolding Suc.prems(3) using jn pre by (intro mult_le_mono; simp)+
  have len': "length ?m' = Suc n * ?e" using le Suc.prems(3) by (simp add: min_def)
  have "j * cur \<le> (j + pre) * ?e" using Suc.prems(2) by (intro mult_le_mono) simp_all
  then have "take (j * cur) ?m' = take (j * cur) ?m" using le by (simp add: min_def)
  also have "\<dots> = take (j * cur) (take (Suc j * cur) ?m)" by (simp add: min_def)
  also have "\<dots> = le.array cur (take j xs)" using Suc.prems(5) by (simp add: le.take_array min_def)
  finally have low': "take (j * cur) ?m' = le.array cur (take j xs)" .
  have "(n - j) * ?e = ?e + (n - Suc j) * ?e" using jn by (metis Suc_diff_Suc mult_Suc)
  then have "take ((n - j) * ?e) (drop ((j + pre) * ?e) ?m') =
      le_encode ?e (xs ! j) @ take ((n - Suc j) * ?e) (drop ((Suc j + pre) * ?e) ?m)"
    using le by (simp add: min_def)
  also have "\<dots> = le.array ?e (drop j xs)"
    using Suc.prems(6) jn n by (simp flip: Cons_nth_drop_Suc)
  finally have high': "take ((n - j) * ?e) (drop ((j + pre) * ?e) ?m') = le.array ?e (drop j xs)" .
  from Suc.IH [of "is\<lparr>is_contents := ?m'\<rparr>"] Suc.prems(1,2) len' jn low' high' get set show ?case by simp
qed

lemma intsetUpgradeAndAdd_spec:
  assumes wf: "intset_wf is xs" and n: "length xs < 2 ^ 28" and v: "v \<in> int_range 8"
    and up: "intsetValueEncoding v > is_encoding is"
  shows "\<exists>is'. intsetUpgradeAndAdd junk is v = Some is' \<and>
     intset_wf is' (if v < 0 then v # xs else xs @ [v])"
proof -
  let ?cur = "is_encoding is" and ?e = "intsetValueEncoding v" and ?n = "length xs"
  let ?pre = "if v < 0 then 1 else 0 :: nat"
  have c: "is_contents is = le.array ?cur xs" and cur: "?cur \<in> {2, 4, 8}" and l: "is_length is = ?n"
    and rng: "set xs \<subseteq> int_range ?cur" and srt: "sorted_wrt (<) xs"
    using wf by (simp_all add: intset_wf_def)
  have e: "?e \<in> {2, 4, 8}" by (rule valueEncoding_mem)
  have "(?n + 1) * ?e \<le> 2 ^ 28 * 8" using n e by (intro mult_le_mono) auto
  then have sz: "(?n + 1) * ?e mod 2 ^ 32 = (?n + 1) * ?e" by (intro mod_less) simp
  let ?m = "mem_realloc junk (is_contents is) ((?n + 1) * ?e)"
  let ?is = "is\<lparr>is_encoding := ?e, is_contents := ?m\<rparr>"
  have r: "intsetResize junk (is\<lparr>is_encoding := ?e\<rparr>) (?n + 1) = ?is"
    using sz by (simp add: intsetResize_def Let_def l)
  have "?n * ?cur \<le> (?n + 1) * ?e" using up by (intro mult_le_mono) simp_all
  then have low: "take (?n * ?cur) ?m = le.array ?cur xs" by (simp add: mem_realloc_def c)
  have "\<exists>m. upgrade_loop ?cur ?pre ?n ?is = Some (?is\<lparr>is_contents := m\<rparr>) \<and> length m = Suc ?n * is_encoding ?is \<and>
     take (?n * is_encoding ?is) (drop (?pre * is_encoding ?is) m) = le.array (is_encoding ?is) xs"
    by (rule upgrade_loop_spec [OF cur]) (use e up rng low in simp_all)
  moreover have ie: "is_encoding ?is = ?e" by simp
  ultimately obtain m where u: "upgrade_loop ?cur ?pre ?n ?is = Some (?is\<lparr>is_contents := m\<rparr>)"
      "length m = Suc ?n * ?e" "take (?n * ?e) (drop (?pre * ?e) m) = le.array ?e xs"
    unfolding ie by blast
  have mem: "v \<in> int_range ?e" "set xs \<subseteq> int_range ?e"
    using valueEncoding_le [OF e v] rng int_range_mono [of ?cur ?e] up by auto
  have out: "v \<notin> int_range ?cur" using valueEncoding_le [OF cur v] up by simp
  show ?thesis
  proof (cases "v < 0")
    case True
    have "\<forall>x \<in> set xs. v < x" using outside_range [OF cur out] rng True by auto
    then have "intset_wf (?is\<lparr>is_contents := le.array ?e (v # xs), is_length := Suc ?n\<rparr>) (v # xs)"
      using e mem srt by (simp add: intset_wf_def)
    moreover have "drop ?e m = le.array ?e xs" using u(2,3) True by simp
    then have "mem_write m (0 * ?e) (le_encode ?e v) = Some (le.array ?e (v # xs))"
      using le.write_array [OF u(2), of 0 v] by simp
    then have "intsetSet (?is\<lparr>is_contents := m\<rparr>) 0 v = Some (?is\<lparr>is_contents := le.array ?e (v # xs)\<rparr>)"
      using e by (simp add: intsetSet_eq)
    ultimately show ?thesis
      using u(1) True l r by (simp add: intsetUpgradeAndAdd_def Let_def)
  next
    case False
    have "\<forall>x \<in> set xs. x < v" using outside_range [OF cur out] rng False by auto
    then have "intset_wf (?is\<lparr>is_contents := le.array ?e (xs @ [v]), is_length := Suc ?n\<rparr>) (xs @ [v])"
      using e mem srt by (simp add: intset_wf_def sorted_wrt_append)
    moreover have "take (?n * ?e) m = le.array ?e xs" using u(3) False by simp
    then have "mem_write m (?n * ?e) (le_encode ?e v) = Some (le.array ?e (xs @ [v]))"
      using le.write_array [OF u(2), of ?n v] u(2) by simp
    then have "intsetSet (?is\<lparr>is_contents := m\<rparr>) ?n v = Some (?is\<lparr>is_contents := le.array ?e (xs @ [v])\<rparr>)"
      using e by (simp add: intsetSet_eq)
    ultimately show ?thesis
      using u(1) False l r by (simp add: intsetUpgradeAndAdd_def Let_def)
  qed
qed

lemma intsetAdd_spec:
  assumes wf: "intset_wf is xs" and n: "length xs < 2 ^ 28" and v: "v \<in> int_range 8"
  shows "\<exists>is' xs'. intsetAdd junk is v = Some (is', v \<notin> set xs) \<and> intset_wf is' xs' \<and> set xs' = insert v (set xs)"
proof (cases "intsetValueEncoding v > is_encoding is")
  case True
  have "v \<notin> int_range (is_encoding is)"
    using valueEncoding_le [of "is_encoding is" v] wf v True by (simp add: intset_wf_def)
  then have "v \<notin> set xs" using wf by (auto simp: intset_wf_def)
  moreover obtain is' where "intsetUpgradeAndAdd junk is v = Some is'" "intset_wf is' (if v < 0 then v # xs else xs @ [v])"
    using intsetUpgradeAndAdd_spec [OF wf n v True] by blast
  ultimately show ?thesis
    using True by (intro exI [of _ is'] exI [of _ "if v < 0 then v # xs else xs @ [v]"]) (simp add: intsetAdd_def)
next
  case False
  have enc: "v \<in> int_range (is_encoding is)"
    using valueEncoding_le [of "is_encoding is" v] wf v False by (simp add: intset_wf_def)
  obtain pos where s: "intsetSearch is v = Some (v \<in> set xs, pos)"
    "if v \<in> set xs then pos < length xs \<and> xs ! pos = v else insert_pos xs v pos"
    using intsetSearch_spec [OF wf, of v] by auto
  show ?thesis
  proof (cases "v \<in> set xs")
    case True
    with s wf False show ?thesis by (auto simp: intsetAdd_def)
  next
    case new: False
    with s have p: "insert_pos xs v pos" by simp
    from insert_at_spec [OF wf n p enc, of junk] s False new show ?thesis
      by (auto simp: intsetAdd_def Let_def intro!: exI [of _ "list_insert_at pos v xs"])
  qed
qed

lemma set_remove_pos:
  assumes "sorted_wrt (<) (xs :: int list)" and "p < length xs"
  shows "set (take p xs @ drop (Suc p) xs) = set xs - {xs ! p}" and "sorted_wrt (<) (take p xs @ drop (Suc p) xs)"
proof -
  have eq: "xs = take p xs @ xs ! p # drop (Suc p) xs" by (rule id_take_nth_drop [OF assms(2)])
  have s: "sorted_wrt (<) (take p xs @ xs ! p # drop (Suc p) xs)" using assms(1) eq by simp
  then show "sorted_wrt (<) (take p xs @ drop (Suc p) xs)" by (simp add: sorted_wrt_append)
  have "distinct (take p xs @ xs ! p # drop (Suc p) xs)" using s by (metis strict_sorted_iff)
  then have "xs ! p \<notin> set (take p xs @ drop (Suc p) xs)" by simp
  moreover have "set xs = insert (xs ! p) (set (take p xs @ drop (Suc p) xs))"
    using arg_cong [OF eq, of set] by simp
  ultimately show "set (take p xs @ drop (Suc p) xs) = set xs - {xs ! p}" by blast
qed

lemma intsetRemove_spec:
  assumes wf: "intset_wf is xs" and n: "length xs \<le> 2 ^ 28" and v: "v \<in> int_range 8"
  shows "\<exists>is' xs'. intsetRemove junk is v = Some (is', v \<in> set xs) \<and> intset_wf is' xs' \<and> set xs' = set xs - {v}"
proof (cases "intsetValueEncoding v \<le> is_encoding is")
  case False
  have "v \<notin> int_range (is_encoding is)"
    using valueEncoding_le [of "is_encoding is" v] wf v False by (simp add: intset_wf_def)
  then have "v \<notin> set xs" using wf by (auto simp: intset_wf_def)
  with wf False show ?thesis by (intro exI [of _ "is"] exI [of _ xs]) (simp add: intsetRemove_def)
next
  case True
  let ?e = "is_encoding is"
  obtain pos where s: "intsetSearch is v = Some (v \<in> set xs, pos)"
    "if v \<in> set xs then pos < length xs \<and> xs ! pos = v else insert_pos xs v pos"
    using intsetSearch_spec [OF wf, of v] by auto
  show ?thesis
  proof (cases "v \<in> set xs")
    case False
    with s wf True show ?thesis by (intro exI [of _ "is"] exI [of _ xs]) (simp add: intsetRemove_def)
  next
    case found: True
    with s have p: "pos < length xs" "xs ! pos = v" by simp_all
    let ?xs = "take pos xs @ drop (Suc pos) xs"
    have c: "is_contents is = le.array ?e xs" and e: "?e \<in> {2, 4, 8}" and l: "is_length is = length xs"
      and rng: "set xs \<subseteq> int_range ?e" and srt: "sorted_wrt (<) xs"
      using wf by (simp_all add: intset_wf_def)
    obtain m where m: "(if pos < length xs - 1
        then memmove (le.array ?e xs) (pos * ?e) (Suc pos * ?e) ((length xs - Suc pos) * ?e)
        else Some (le.array ?e xs)) = Some m" "take ((length xs - 1) * ?e) m = le.array ?e ?xs"
      using le.remove_array [OF p(1)] by blast
    have mv: "(if pos < is_length is - 1 then intsetMoveTail is (pos + 1) pos else Some is) = Some (is\<lparr>is_contents := m\<rparr>)"
      using m(1) e l c by (cases "pos < length xs - 1") (simp_all add: intsetMoveTail_eq)
    have "(length xs - 1) * ?e \<le> 2 ^ 28 * 8" using n e by (intro mult_le_mono) auto
    then have sz: "(length xs - 1) * ?e mod 2 ^ 32 = (length xs - 1) * ?e" by (intro mod_less) simp
    have len: "length ?xs = length xs - 1" using p by simp
    then have "length (le.array ?e ?xs) = (length xs - 1) * ?e" by (simp only: le.length_array)
    then have "(length xs - 1) * ?e \<le> length m" using m(2) by (metis length_take min.cobounded1 nle_le)
    then have "mem_realloc junk m ((length xs - 1) * ?e) = le.array ?e ?xs"
      using m(2) by (simp add: mem_realloc_def)
    then have "intsetResize junk (is\<lparr>is_contents := m\<rparr>) (is_length is - 1) = is\<lparr>is_contents := le.array ?e ?xs\<rparr>"
      using sz l by (simp add: intsetResize_def Let_def)
    moreover have "intset_wf (is\<lparr>is_contents := le.array ?e ?xs, is_length := is_length is - 1\<rparr>) ?xs"
      using e len l rng set_remove_pos [OF srt p(1)] by (auto simp: intset_wf_def)
    ultimately show ?thesis
      using s(1) found True mv set_remove_pos(1) [OF srt p(1)] p(2)
      by (intro exI [of _ "is\<lparr>is_contents := le.array ?e ?xs, is_length := is_length is - 1\<rparr>"] exI [of _ ?xs])
        (simp add: intsetRemove_def)
  qed
qed

lemma intsetFind_spec:
  assumes wf: "intset_wf is xs" and v: "v \<in> int_range 8"
  shows "intsetFind is v = Some (v \<in> set xs)"
proof (cases "intsetValueEncoding v \<le> is_encoding is")
  case False
  have "v \<notin> int_range (is_encoding is)"
    using valueEncoding_le [of "is_encoding is" v] wf v False by (simp add: intset_wf_def)
  then show ?thesis using wf False by (auto simp: intset_wf_def intsetFind_def)
next
  case True
  with intsetSearch_spec [OF wf, of v] show ?thesis by (auto simp: intsetFind_def)
qed

lemma intset_wf_card: "intset_wf is xs \<Longrightarrow> length xs = card (set xs)"
  using strict_sorted_iff [of xs] by (simp add: intset_wf_def distinct_card)

subsection \<open>Histories\<close>

datatype intset_op = IAdd int | IRemove int | IFind int

text \<open>A history of calls; \<open>junk\<close> gives the bytes each reallocation leaves uninitialised.\<close>

fun intset_run :: "(nat \<Rightarrow> nat \<Rightarrow> u8) \<Rightarrow> intset_op list \<Rightarrow> intset \<Rightarrow> (intset \<times> bool list) option" where
  "intset_run junk [] is = Some (is, [])"
| "intset_run junk (op # ops) is = do {
     (is, r) \<leftarrow> (case op of
        IAdd v \<Rightarrow> intsetAdd (junk (length ops)) is v
      | IRemove v \<Rightarrow> intsetRemove (junk (length ops)) is v
      | IFind v \<Rightarrow> map_option (\<lambda>b. (is, b)) (intsetFind is v));
     (is, rs) \<leftarrow> intset_run junk ops is;
     Some (is, r # rs)
   }"

fun set_run :: "intset_op list \<Rightarrow> int set \<Rightarrow> int set \<times> bool list" where
  "set_run [] S = (S, [])"
| "set_run (op # ops) S =
     (let (S, r) = (case op of IAdd v \<Rightarrow> (insert v S, v \<notin> S) | IRemove v \<Rightarrow> (S - {v}, v \<in> S) | IFind v \<Rightarrow> (S, v \<in> S));
          (S, rs) = set_run ops S
      in (S, r # rs))"

fun op_value :: "intset_op \<Rightarrow> int" where
  "op_value (IAdd v) = v"
| "op_value (IRemove v) = v"
| "op_value (IFind v) = v"

lemma intset_run_spec:
  assumes "intset_wf is xs" and "length xs + length ops \<le> 2 ^ 28" and "\<forall>op \<in> set ops. op_value op \<in> int_range 8"
  shows "\<exists>is' xs'. intset_run junk ops is = Some (is', snd (set_run ops (set xs))) \<and>
     intset_wf is' xs' \<and> set xs' = fst (set_run ops (set xs))"
  using assms
proof (induction ops arbitrary: "is" xs)
  case Nil
  then show ?case by auto
next
  case (Cons op ops)
  let ?step = "case op of IAdd v \<Rightarrow> (insert v (set xs), v \<notin> set xs) | IRemove v \<Rightarrow> (set xs - {v}, v \<in> set xs)
      | IFind v \<Rightarrow> (set xs, v \<in> set xs)"
  have n: "length xs < 2 ^ 28" and v: "op_value op \<in> int_range 8" using Cons.prems(2,3) by simp_all
  have "\<exists>is1 xs1. (case op of
        IAdd v \<Rightarrow> intsetAdd (junk (length ops)) is v
      | IRemove v \<Rightarrow> intsetRemove (junk (length ops)) is v
      | IFind v \<Rightarrow> map_option (\<lambda>b. (is, b)) (intsetFind is v)) = Some (is1, snd ?step) \<and>
      intset_wf is1 xs1 \<and> set xs1 = fst ?step"
    using intsetAdd_spec [OF Cons.prems(1) n, of "op_value op" "junk (length ops)"]
      intsetRemove_spec [OF Cons.prems(1), of "op_value op" "junk (length ops)"]
      intsetFind_spec [OF Cons.prems(1), of "op_value op"] n v Cons.prems(1)
    by (cases op) auto
  then obtain is1 xs1 where s: "(case op of
        IAdd v \<Rightarrow> intsetAdd (junk (length ops)) is v
      | IRemove v \<Rightarrow> intsetRemove (junk (length ops)) is v
      | IFind v \<Rightarrow> map_option (\<lambda>b. (is, b)) (intsetFind is v)) = Some (is1, snd ?step)"
      "intset_wf is1 xs1" "set xs1 = fst ?step" by blast
  have "card (fst ?step) \<le> Suc (card (set xs))"
    by (cases op) (auto simp: card_insert_if intro: le_SucI card_mono)
  then have "length xs1 \<le> Suc (length xs)"
    using intset_wf_card [OF s(2)] intset_wf_card [OF Cons.prems(1)] s(3) by simp
  then obtain is2 xs2 where "intset_run junk ops is1 = Some (is2, snd (set_run ops (set xs1)))"
      "intset_wf is2 xs2" "set xs2 = fst (set_run ops (set xs1))"
    using Cons.IH [OF s(2)] Cons.prems(2,3) by auto
  with s show ?case
    by (intro exI [of _ is2] exI [of _ xs2]) (simp add: split_beta)
qed

text \<open>
  C14. An intset refines a set of integers. Any history of at most 2 ^ 28 additions, removals and
  membership tests of 64 bit integers on a new intset, starting in 16 bit encoding and upgraded
  whenever a value needs it, never leaves its block of memory and gives the results the same
  history has on a set; its length is the size of that set, its contents sorted, and its memory
  exactly the size \<open>intsetBlobLen\<close> reports.
\<close>

theorem intset_refines_set:
  assumes "length ops \<le> 2 ^ 28" and "\<forall>op \<in> set ops. op_value op \<in> int_range 8"
  shows "\<exists>is xs. intset_run junk ops intsetNew = Some (is, snd (set_run ops {})) \<and>
     set xs = fst (set_run ops {}) \<and> sorted_wrt (<) xs \<and>
     (\<forall>i. intsetGet is i = Some (if i < length xs then Some (xs ! i) else None)) \<and>
     intsetLen is = card (fst (set_run ops {})) \<and>
     intsetBlobLen is = 8 + length (is_contents is) mod 2 ^ 32"
proof -
  have "intset_wf intsetNew []" by (simp add: intset_wf_def intsetNew_def enc_defs)
  from intset_run_spec [OF this, of ops junk] assms obtain "is" xs where
    r: "intset_run junk ops intsetNew = Some (is, snd (set_run ops {}))" "intset_wf is xs"
      "set xs = fst (set_run ops {})" by auto
  have "intsetGet is i = Some (if i < length xs then Some (xs ! i) else None)" for i
    using intsetGetPos_wf [OF r(2), of i] r(2) by (simp add: intsetGet_def intset_wf_def)
  moreover have "intsetLen is = card (fst (set_run ops {}))"
    using intset_wf_card [OF r(2)] r(2,3) by (simp add: intsetLen_def intset_wf_def)
  moreover have "intsetBlobLen is = 8 + length (is_contents is) mod 2 ^ 32"
    using r(2) by (simp add: intsetBlobLen_def intset_wf_def)
  ultimately show ?thesis using r by (intro exI [of _ "is"] exI [of _ xs]) (simp add: intset_wf_def)
qed

theorem intset_refines_set_witness:
  "\<exists>is xs. intset_run (\<lambda>_ _. 0xAA) [IAdd 5, IAdd (-3), IAdd 70000, IAdd 5, IFind 70000, IRemove (-3), IFind (-3)] intsetNew =
       Some (is, [True, True, True, False, True, True, False]) \<and>
     set xs = {5, 70000 :: int} \<and> sorted_wrt (<) xs \<and> intsetLen is = 2"
proof -
  let ?ops = "[IAdd 5, IAdd (-3), IAdd 70000, IAdd 5, IFind 70000, IRemove (-3), IFind (-3)]"
  have s: "set_run ?ops {} = ({5, 70000}, [True, True, True, False, True, True, False])" by auto
  have "\<forall>op \<in> set ?ops. op_value op \<in> int_range 8" by (simp add: int_range_simps)
  with intset_refines_set [of ?ops "\<lambda>_ _. 0xAA"] obtain "is" xs where
    "intset_run (\<lambda>_ _. 0xAA) ?ops intsetNew = Some (is, snd (set_run ?ops {}))" "set xs = fst (set_run ?ops {})"
    "sorted_wrt (<) xs" "intsetLen is = card (fst (set_run ?ops {}))" by (simp del: intset_run.simps set_run.simps) blast
  then show ?thesis unfolding s by (intro exI [of _ "is"] exI [of _ xs]) (simp del: intset_run.simps)
qed

text \<open>
  The binary search finds a value exactly when it is an element, and otherwise returns the
  position that keeps the array sorted; it never reads outside the array.
\<close>

theorem intsetSearch_correct:
  assumes "intset_wf is xs"
  shows "\<exists>pos. intsetSearch is v = Some (v \<in> set xs, pos) \<and>
     (if v \<in> set xs then pos < length xs \<and> xs ! pos = v
      else pos \<le> length xs \<and> (\<forall>i < pos. xs ! i < v) \<and> (\<forall>i. pos \<le> i \<and> i < length xs \<longrightarrow> v < xs ! i))"
  using intsetSearch_spec [OF assms, of v] by (auto simp: insert_pos_def)

theorem intsetSearch_correct_witness:
  "\<exists>pos. intsetSearch \<lparr>is_encoding = 2, is_length = 3, is_contents = le.array 2 [-4, 7, 9]\<rparr> 8 = Some (False, pos) \<and>
     pos \<le> 3 \<and> (\<forall>i < pos. [-4, 7, 9] ! i < (8 :: int))"
  using intsetSearch_correct [of "\<lparr>is_encoding = 2, is_length = 3, is_contents = le.array 2 [-4, 7, 9]\<rparr>" "[-4, 7, 9]" 8]
  by (auto simp: intset_wf_def int_range_simps)

end
