(* ===== verification/Util_Num.thy ===== *)
theory Util_Num
  imports Bytes
begin

section \<open>Integers as decimal strings: \<open>util.c\<close>\<close>

text \<open>
  \<open>digits10\<close>, \<open>sdigits10\<close>, \<open>ll2string\<close>, \<open>string2ll\<close> and \<open>string2l\<close>. Characters are their ASCII
  codes. Values of type \<open>unsigned long long\<close> are natural numbers: every operation on them here
  is guarded against overflow. A write outside the destination buffer is \<open>None\<close>.
\<close>

definition LLONG_MIN :: int where "LLONG_MIN = - (2 ^ 63)"

definition LLONG_MAX :: int where "LLONG_MAX = 2 ^ 63 - 1"

definition ULLONG_MAX :: nat where "ULLONG_MAX = 2 ^ 64 - 1"

fun digits10 :: "nat \<Rightarrow> nat" where
  "digits10 v =
     (if v < 10 then 1
      else if v < 100 then 2
      else if v < 1000 then 3
      else if v < 1000000000000 then
        (if v < 100000000 then
           (if v < 1000000 then
              (if v < 10000 then 4 else 5 + of_bool (v \<ge> 100000))
            else 7 + of_bool (v \<ge> 10000000))
         else if v < 10000000000 then 9 + of_bool (v \<ge> 1000000000)
         else 11 + of_bool (v \<ge> 100000000000))
      else 12 + digits10 (v div 1000000000000))"

declare digits10.simps [simp del]

definition sdigits10 :: "int \<Rightarrow> nat" where
  "sdigits10 v =
     (if v < 0 then
        (let uv = (if v \<noteq> LLONG_MIN then nat (- v) else nat LLONG_MAX + 1) in digits10 uv + 1)
      else digits10 (nat v))"

text \<open>The table \<open>digits\<close>: the two characters of every number below 100.\<close>

definition digits :: bytes where
  "digits = [
      48, 48, 48, 49, 48, 50, 48, 51, 48, 52, 48, 53, 48, 54, 48, 55, 48, 56, 48, 57,
      49, 48, 49, 49, 49, 50, 49, 51, 49, 52, 49, 53, 49, 54, 49, 55, 49, 56, 49, 57,
      50, 48, 50, 49, 50, 50, 50, 51, 50, 52, 50, 53, 50, 54, 50, 55, 50, 56, 50, 57,
      51, 48, 51, 49, 51, 50, 51, 51, 51, 52, 51, 53, 51, 54, 51, 55, 51, 56, 51, 57,
      52, 48, 52, 49, 52, 50, 52, 51, 52, 52, 52, 53, 52, 54, 52, 55, 52, 56, 52, 57,
      53, 48, 53, 49, 53, 50, 53, 51, 53, 52, 53, 53, 53, 54, 53, 55, 53, 56, 53, 57,
      54, 48, 54, 49, 54, 50, 54, 51, 54, 52, 54, 53, 54, 54, 54, 55, 54, 56, 54, 57,
      55, 48, 55, 49, 55, 50, 55, 51, 55, 52, 55, 53, 55, 54, 55, 55, 55, 56, 55, 57,
      56, 48, 56, 49, 56, 50, 56, 51, 56, 52, 56, 53, 56, 54, 56, 55, 56, 56, 56, 57,
      57, 48, 57, 49, 57, 50, 57, 51, 57, 52, 57, 53, 57, 54, 57, 55, 57, 56, 57, 57]"

definition put :: "nat \<Rightarrow> u8 \<Rightarrow> bytes \<Rightarrow> bytes option" where
  "put i b dst = (if i < length dst then Some (dst[i := b]) else None)"

text \<open>
  \<open>while (value >= 100)\<close>, from the last character backwards; a \<open>next\<close> that would become
  negative wraps around in C, far outside the buffer.
\<close>

fun ll2string_loop :: "nat \<Rightarrow> nat \<Rightarrow> bytes \<Rightarrow> (nat \<times> nat \<times> bytes) option" where
  "ll2string_loop v next dst =
     (if v \<ge> 100 then
        (let i = (v mod 100) * 2 in
         if next < 2 then None
         else do {
           dst \<leftarrow> put next (digits ! (i + 1)) dst;
           dst \<leftarrow> put (next - 1) (digits ! i) dst;
           ll2string_loop (v div 100) (next - 2) dst
         })
      else Some (v, next, dst))"

declare ll2string_loop.simps [simp del]

text \<open>The last one or two digits.\<close>

definition ll2string_last :: "nat \<Rightarrow> nat \<Rightarrow> bytes \<Rightarrow> bytes option" where
  "ll2string_last v next dst =
     (if v < 10 then put next (48 + of_nat v) dst
      else if next < 1 then None
      else do {
        let i = v * 2;
        dst \<leftarrow> put next (digits ! (i + 1)) dst;
        put (next - 1) (digits ! i) dst
      })"

text \<open>The destination with its new contents, and the length, 0 if the buffer is too small.\<close>

definition ll2string :: "bytes \<Rightarrow> int \<Rightarrow> (bytes \<times> nat) option" where
  "ll2string dst svalue =
     (let negative = (if svalue < 0 then 1 else 0 :: nat);
          v = (if svalue < 0 then
                 (if svalue \<noteq> LLONG_MIN then nat (- svalue) else nat LLONG_MAX + 1)
               else nat svalue);
          len = digits10 v + negative
      in if len \<ge> length dst then Some (dst, 0)
         else do {
           dst \<leftarrow> put len 0 dst;
           (v, next, dst) \<leftarrow> ll2string_loop v (len - 1) dst;
           dst \<leftarrow> ll2string_last v next dst;
           dst \<leftarrow> (if negative = 1 then put 0 45 dst else Some dst);
           Some (dst, len)
         })"

text \<open>The digit loop of \<open>string2ll\<close>: the value and what is left of the string, \<open>None\<close> on overflow.\<close>

fun string2ll_loop :: "nat \<Rightarrow> bytes \<Rightarrow> (nat \<times> bytes) option" where
  "string2ll_loop v [] = Some (v, [])"
| "string2ll_loop v (c # p) =
     (if 48 \<le> c \<and> c \<le> 57 then
        (let d = unat (c - 48) in
         if v > ULLONG_MAX div 10 then None
         else if v * 10 > ULLONG_MAX - d then None
         else string2ll_loop (v * 10 + d) p)
      else Some (v, c # p))"

definition string2ll :: "bytes \<Rightarrow> int option" where
  "string2ll s =
     (if s = [] then None
      else if s = [48] then Some 0
      else let negative = (hd s = 45); p = (if negative then tl s else s) in
        if p = [] then None
        else if 49 \<le> hd p \<and> hd p \<le> 57 then
          (case string2ll_loop (unat (hd p - 48)) (tl p) of
             None \<Rightarrow> None
           | Some (v, rest) \<Rightarrow>
               if rest \<noteq> [] then None
               else if negative then
                 (if int v > - (LLONG_MIN + 1) + 1 then None else Some (- int v))
               else if int v > LLONG_MAX then None else Some (int v))
        else if hd p = 48 \<and> length s = 1 then Some 0
        else None)"

definition string2l :: "bytes \<Rightarrow> int option" where
  "string2l s =
     (case string2ll s of
        None \<Rightarrow> None
      | Some llval \<Rightarrow> if llval < - (2 ^ 63) \<or> llval > 2 ^ 63 - 1 then None else Some llval)"

subsection \<open>The decimal representation\<close>

fun dec_nat :: "nat \<Rightarrow> bytes" where
  "dec_nat n = (if n < 10 then [48 + of_nat n] else dec_nat (n div 10) @ [48 + of_nat (n mod 10)])"

declare dec_nat.simps [simp del]

definition decimal :: "int \<Rightarrow> bytes" where
  "decimal v = (if v < 0 then 45 # dec_nat (nat (- v)) else dec_nat (nat v))"

lemma dec_nat_less: "n < 10 \<Longrightarrow> dec_nat n = [48 + of_nat n]"
  by (simp add: dec_nat.simps)

lemma dec_nat_step: "10 \<le> n \<Longrightarrow> dec_nat n = dec_nat (n div 10) @ [48 + of_nat (n mod 10)]"
  by (subst dec_nat.simps) simp

lemma dec_nat_div_pow: "10 ^ k \<le> n \<Longrightarrow> length (dec_nat n) = k + length (dec_nat (n div 10 ^ k))"
proof (induction k arbitrary: n)
  case (Suc k)
  have "10 ^ k \<le> n div 10" using Suc.prems div_le_mono [of "10 ^ Suc k" n 10] by simp
  moreover have "10 \<le> n" using Suc.prems by (metis le_trans power_Suc mult.right_neutral mult_le_mono2 one_le_numeral one_le_power)
  ultimately show ?case using Suc.IH [of "n div 10"] by (simp add: dec_nat_step [of n] div_mult2_eq)
qed simp

lemma dec_nat_length: "10 ^ k \<le> n \<Longrightarrow> n < 10 ^ Suc k \<Longrightarrow> length (dec_nat n) = Suc k"
proof -
  assume a: "10 ^ k \<le> n" "n < 10 ^ Suc k"
  then have "n div 10 ^ k < 10" by (simp add: less_mult_imp_div_less)
  then show ?thesis using dec_nat_div_pow [OF a(1)] by (simp add: dec_nat_less)
qed

lemma length_dec_nat_le: "n < 10 ^ k \<Longrightarrow> 1 \<le> k \<Longrightarrow> length (dec_nat n) \<le> k"
proof (induction k arbitrary: n)
  case (Suc k)
  show ?case
  proof (cases "n < 10")
    case False
    then have "n div 10 < 10 ^ k" using Suc.prems by (simp add: less_mult_imp_div_less mult.commute)
    moreover have "1 \<le> k" using False Suc.prems by (cases k) auto
    ultimately show ?thesis using Suc.IH [of "n div 10"] False by (simp add: dec_nat_step)
  qed (simp add: dec_nat_less)
qed simp

lemma length_decimal: "- (2 ^ 63) \<le> v \<Longrightarrow> v < 2 ^ 63 \<Longrightarrow> length (decimal v) \<le> 20"
proof -
  assume v: "- (2 ^ 63) \<le> v" "v < 2 ^ 63"
  have "length (dec_nat (nat \<bar>v\<bar>)) \<le> 19" using v by (intro length_dec_nat_le) auto
  then show ?thesis by (auto simp: decimal_def)
qed

lemma digits10_dec: "digits10 v = length (dec_nat v)"
proof (induction v rule: digits10.induct)
  case (1 v)
  have r: "10 ^ k \<le> v \<Longrightarrow> v < 10 ^ Suc k \<Longrightarrow> length (dec_nat v) = Suc k" for k by (rule dec_nat_length)
  show ?case
  proof (cases "v < 1000000000000")
    case True
    then show ?thesis
      using r [of 1] r [of 2] r [of 3] r [of 4] r [of 5] r [of 6] r [of 7] r [of 8] r [of 9] r [of 10] r [of 11]
      by (cases "v < 10") (auto simp: digits10.simps [of v] dec_nat_less not_less)
  next
    case False
    then have "length (dec_nat v) = 12 + length (dec_nat (v div 1000000000000))"
      using dec_nat_div_pow [of 12 v] by simp
    with 1 False show ?thesis by (simp add: digits10.simps [of v])
  qed
qed

subsection \<open>Printing\<close>

lemma upt_100: "[0..<100] = [0, 1, 2, 3, 4, 5, 6, 7, 8, 9, 10, 11, 12, 13, 14, 15, 16, 17, 18, 19, 20, 21, 22, 23, 24, 25, 26, 27, 28, 29, 30, 31, 32, 33, 34, 35, 36, 37, 38, 39, 40, 41, 42, 43, 44, 45, 46, 47, 48, 49, 50, 51, 52, 53, 54, 55, 56, 57, 58, 59, 60, 61, 62, 63, 64, 65, 66, 67, 68, 69, 70, 71, 72, 73, 74, 75, 76, 77, 78, 79, 80, 81, 82, 83, 84, 85, 86, 87, 88, 89, 90, 91, 92, 93, 94, 95, 96, 97, 98, 99]"
  by (simp add: upt_rec)

lemma digits_table:
  assumes "k < 100"
  shows "digits ! (2 * k) = 48 + of_nat (k div 10) \<and> digits ! (2 * k + 1) = 48 + of_nat (k mod 10)"
proof -
  have "list_all (\<lambda>k. digits ! (2 * k) = 48 + of_nat (k div 10) \<and> digits ! (2 * k + 1) = 48 + of_nat (k mod 10)) [0..<100]"
    unfolding upt_100 digits_def by (simp only: list.pred_inject) simp
  with assms show ?thesis by (simp add: list_all_iff)
qed

lemma dec_nat_two:
  assumes "100 \<le> v"
  shows "dec_nat v = dec_nat (v div 100) @ [digits ! (v mod 100 * 2), digits ! (v mod 100 * 2 + 1)]"
proof -
  have "v mod 100 div 10 = v div 10 mod 10" using mod_mult2_eq [of v 10 10] by simp
  then show ?thesis
    using assms digits_table [of "v mod 100"] mod_mod_cancel [of 10 100 v]
    by (simp add: dec_nat_step [of v] dec_nat_step [of "v div 10"] mult.commute flip: div_mult2_eq)
qed

lemma put_at: "i < length dst \<Longrightarrow> put i b dst = Some (take i dst @ b # drop (Suc i) dst)"
  by (simp add: put_def upd_conv_take_nth_drop)

lemma put_two:
  assumes "Suc i < length dst"
  shows "(put (Suc i) b dst \<bind> put i a) = Some (take i dst @ a # b # drop (Suc (Suc i)) dst)"
  using assms by (simp add: put_at min_def)

lemma ll2string_digits:
  assumes "Suc next = neg + length (dec_nat v)" and "next < length dst"
  shows "(ll2string_loop v next dst \<bind> (\<lambda>(v, next, dst). ll2string_last v next dst)) =
    Some (take neg dst @ dec_nat v @ drop (Suc next) dst)"
  using assms
proof (induction v arbitrary: "next" dst rule: less_induct)
  case (less v)
  show ?case
  proof (cases "v \<ge> 100")
    case True
    let ?a = "digits ! (v mod 100 * 2)" and ?b = "digits ! (v mod 100 * 2 + 1)"
    note d = dec_nat_two [OF True]
    have "length (dec_nat (v div 100)) \<ge> 1" by (subst dec_nat.simps) simp
    with less.prems d obtain n where n: "next = Suc (Suc n)" "Suc n = neg + length (dec_nat (v div 100))"
      by (cases "next"; cases "next - 1") auto
    let ?dst = "take (Suc n) dst @ ?a # ?b # drop (Suc next) dst"
    have "(put next ?b dst \<bind> put (next - 1) ?a) = Some ?dst"
      using put_two [of "Suc n" dst ?b ?a] less.prems(2) n by simp
    then obtain d1 where "put next ?b dst = Some d1" "put (next - 1) ?a d1 = Some ?dst"
      by (auto simp: bind_eq_Some_conv)
    then have "ll2string_loop v next dst = ll2string_loop (v div 100) n ?dst"
      using True n(1) by (subst ll2string_loop.simps) (simp add: Let_def)
    moreover have "n < length ?dst" "v div 100 < v" using less.prems(2) n True by simp_all
    ultimately have "(ll2string_loop v next dst \<bind> (\<lambda>(v, next, dst). ll2string_last v next dst)) =
        Some (take neg ?dst @ dec_nat (v div 100) @ drop (Suc n) ?dst)"
      using less.IH [of "v div 100" n ?dst] n(2) by simp
    moreover have "take neg ?dst = take neg dst" "drop (Suc n) ?dst = ?a # ?b # drop (Suc next) dst"
      using n less.prems(2) by (simp_all add: min_def)
    ultimately show ?thesis using d by simp
  next
    case False
    show ?thesis
    proof (cases "v < 10")
      case True
      then show ?thesis using less.prems False
        by (simp add: ll2string_loop.simps ll2string_last_def put_at dec_nat_less)
    next
      case ge: False
      with False have v: "dec_nat v = [digits ! (v * 2), digits ! (v * 2 + 1)]"
        using digits_table [of v] by (simp add: dec_nat_step dec_nat_less mult.commute)
      with less.prems(1) obtain n where n: "next = Suc n" "n = neg" by (cases "next") auto
      then show ?thesis using ge False v less.prems put_two [of n dst "digits ! (v * 2 + 1)" "digits ! (v * 2)"]
        by (simp add: ll2string_loop.simps ll2string_last_def Let_def)
    qed
  qed
qed

lemma bind3_Some:
  "(m \<bind> (\<lambda>(a, b, c). f a b c)) = Some r \<Longrightarrow> \<exists>a b c. m = Some (a, b, c) \<and> f a b c = Some r"
  by (cases m) auto

lemma decimal_abs:
  assumes "LLONG_MIN \<le> v" and "v < 0"
  shows "(if v \<noteq> LLONG_MIN then nat (- v) else nat LLONG_MAX + 1) = nat (- v)"
  using assms by (simp add: LLONG_MIN_def LLONG_MAX_def)

lemma ll2string_spec:
  assumes v: "LLONG_MIN \<le> v"
  shows "ll2string dst v = Some (if length (decimal v) < length dst
     then (decimal v @ 0 # drop (Suc (length (decimal v))) dst, length (decimal v)) else (dst, 0))"
proof -
  define n where "n = nat \<bar>v\<bar>"
  define neg where "neg = (if v < 0 then 1 else 0 :: nat)"
  have n: "(if v < 0 then (if v \<noteq> LLONG_MIN then nat (- v) else nat LLONG_MAX + 1) else nat v) = n"
    using decimal_abs [OF v] by (simp add: n_def)
  have dec: "decimal v = (if neg = 1 then 45 # dec_nat n else dec_nat n)" and "neg \<le> 1"
    by (auto simp: decimal_def n_def neg_def)
  then have len: "digits10 n + neg = length (decimal v)" by (auto simp: digits10_dec)
  show ?thesis
  proof (cases "length (decimal v) < length dst")
    case False
    then show ?thesis using n len by (simp add: ll2string_def Let_def flip: neg_def)
  next
    case True
    let ?l = "length (decimal v)"
    let ?d = "take ?l dst @ 0 # drop (Suc ?l) dst"
    have "length (dec_nat n) \<ge> 1" by (subst dec_nat.simps) simp
    then have next': "Suc (?l - 1) = neg + length (dec_nat n)" using len by (simp add: digits10_dec)
    have sl: "Suc (?l - 1) = ?l" using next' len by (simp add: digits10_dec)
    have "?l - 1 < length ?d" using True by simp
    from ll2string_digits [OF next' this] have
      "(ll2string_loop n (?l - 1) ?d \<bind> (\<lambda>(v, next, dst). ll2string_last v next dst)) =
        Some (take neg ?d @ dec_nat n @ drop ?l ?d)" by (simp only: sl)
    from bind3_Some [OF this] obtain w nx e where
      w: "ll2string_loop n (?l - 1) ?d = Some (w, nx, e)"
         "ll2string_last w nx e = Some (take neg ?d @ dec_nat n @ drop ?l ?d)"
      by (elim exE conjE)
    have e: "take neg ?d @ dec_nat n @ drop ?l ?d = take neg dst @ dec_nat n @ 0 # drop (Suc ?l) dst"
      using True next' sl by (simp add: min_def)
    have p: "put ?l 0 dst = Some ?d" using True by (simp add: put_at)
    have "(if neg = 1 then put 0 45 (take neg dst @ dec_nat n @ 0 # drop (Suc ?l) dst)
        else Some (take neg dst @ dec_nat n @ 0 # drop (Suc ?l) dst)) = Some (decimal v @ 0 # drop (Suc ?l) dst)"
      using dec True \<open>neg \<le> 1\<close> by (cases dst) (auto simp: put_at)
    with w p e n len True show ?thesis
      by (simp add: ll2string_def Let_def flip: neg_def)
  qed
qed

subsection \<open>Parsing\<close>

definition is_digit :: "u8 \<Rightarrow> bool" where
  "is_digit c \<longleftrightarrow> 48 \<le> c \<and> c \<le> 57"

abbreviation digits_val :: "nat \<Rightarrow> bytes \<Rightarrow> nat" where
  "digits_val \<equiv> foldl (\<lambda>v c. v * 10 + unat (c - 48))"

lemma is_digit_val: "is_digit c \<Longrightarrow> unat (c - 48) < 10 \<and> 48 + of_nat (unat (c - 48)) = c"
proof -
  assume "is_digit c"
  then have "unat c - 48 < 10" "(48 :: u8) \<le> c" by (auto simp: is_digit_def word_le_nat_alt)
  then have "unat (c - 48) < 10" by (simp add: unat_sub)
  then show ?thesis by simp
qed

lemma digit_is_digit: "d < 10 \<Longrightarrow> is_digit (48 + of_nat d) \<and> unat (48 + of_nat d - 48 :: u8) = d"
proof -
  assume d: "d < 10"
  then have "unat (of_nat d :: u8) = d" by (simp add: unsigned_of_nat take_bit_nat_eq_self)
  moreover from this d have "unat (48 + of_nat d :: u8) = 48 + d" by (simp add: unat_word_ariths)
  ultimately show ?thesis using d by (simp add: is_digit_def word_le_nat_alt)
qed

lemma digits_val_ge: "v \<le> digits_val v p"
proof (induction p arbitrary: v)
  case (Cons c p)
  have "v \<le> v * 10 + unat (c - 48)" by simp
  also have "\<dots> \<le> digits_val (v * 10 + unat (c - 48)) p" by (rule Cons)
  finally show ?case by simp
qed simp

lemma string2ll_loop_spec:
  "v \<le> ULLONG_MAX \<Longrightarrow> string2ll_loop v p = Some (v', []) \<longleftrightarrow>
     list_all is_digit p \<and> v' = digits_val v p \<and> v' \<le> ULLONG_MAX"
proof (induction p arbitrary: v)
  case Nil
  then show ?case by auto
next
  case (Cons c p)
  let ?d = "unat (c - 48)"
  show ?case
  proof (cases "is_digit c")
    case False
    then show ?thesis by (auto simp: is_digit_def)
  next
    case True
    note d = is_digit_val [OF True]
    have "\<not> (v > ULLONG_MAX div 10) \<and> \<not> (v * 10 > ULLONG_MAX - ?d) \<longleftrightarrow> v * 10 + ?d \<le> ULLONG_MAX"
      using d by (auto simp: ULLONG_MAX_def)
    then have step: "string2ll_loop v (c # p) =
        (if v * 10 + ?d \<le> ULLONG_MAX then string2ll_loop (v * 10 + ?d) p else None)"
      using True by (auto simp: is_digit_def Let_def)
    show ?thesis
    proof (cases "v * 10 + ?d \<le> ULLONG_MAX")
      case le: True
      with step Cons.IH [OF le] True show ?thesis by simp
    next
      case False
      then have "\<not> digits_val (v * 10 + ?d) p \<le> ULLONG_MAX" using digits_val_ge [of "v * 10 + ?d" p] by linarith
      with step False show ?thesis by auto
    qed
  qed
qed

lemma dec_nat_append:
  "v > 0 \<Longrightarrow> list_all is_digit p \<Longrightarrow> dec_nat (digits_val v p) = dec_nat v @ p"
proof (induction p arbitrary: v)
  case (Cons c p)
  then have d: "unat (c - 48) < 10" "48 + of_nat (unat (c - 48)) = c" using is_digit_val by simp_all
  have "dec_nat (v * 10 + unat (c - 48)) = dec_nat v @ [48 + of_nat (unat (c - 48))]"
    using Cons.prems(1) d(1) by (subst dec_nat_step) simp_all
  with Cons d(2) show ?case by simp
qed simp

lemma dec_nat_digits:
  "n > 0 \<Longrightarrow> \<exists>c p. dec_nat n = c # p \<and> 49 \<le> c \<and> c \<le> 57 \<and> list_all is_digit p \<and> digits_val (unat (c - 48)) p = n"
proof (induction n rule: less_induct)
  case (less n)
  show ?case
  proof (cases "n < 10")
    case True
    then have "unat (of_nat n :: u8) = n" by (simp add: unsigned_of_nat take_bit_nat_eq_self)
    moreover from this True have "unat (48 + of_nat n :: u8) = 48 + n" by (simp add: unat_word_ariths)
    ultimately show ?thesis
      using True less.prems digit_is_digit [OF True] by (simp add: dec_nat_less word_le_nat_alt)
  next
    case False
    then have "n div 10 < n" "n div 10 > 0" by simp_all
    from less.IH [OF this] obtain c p where "dec_nat (n div 10) = c # p" "49 \<le> c" "c \<le> 57" "list_all is_digit p"
        "digits_val (unat (c - 48)) p = n div 10"
      by blast
    moreover have "n mod 10 < 10" by simp
    note digit_is_digit [OF this]
    ultimately show ?thesis using False by (simp add: dec_nat_step)
  qed
qed

lemma string2ll_pos:
  assumes "49 \<le> c" and "c \<le> 57"
  shows "string2ll_loop (unat (c - 48)) p = Some (v, []) \<longleftrightarrow> c # p = dec_nat v \<and> v > 0 \<and> v \<le> ULLONG_MAX"
proof -
  have c: "is_digit c" using assms by (auto simp: is_digit_def word_le_nat_alt)
  have pos: "0 < unat (c - 48)" and le: "unat (c - 48) \<le> ULLONG_MAX"
    using assms unat_u8_less [of "c - 48"] by (auto simp: unat_sub word_le_nat_alt ULLONG_MAX_def)
  have one: "dec_nat (unat (c - 48)) = [c]" using is_digit_val [OF c] by (simp add: dec_nat_less)
  show ?thesis
  proof
    assume "string2ll_loop (unat (c - 48)) p = Some (v, [])"
    then have "list_all is_digit p" "v = digits_val (unat (c - 48)) p" "v \<le> ULLONG_MAX"
      using string2ll_loop_spec [OF le] by auto
    with dec_nat_append [OF pos] one digits_val_ge [of "unat (c - 48)" p] pos
    show "c # p = dec_nat v \<and> v > 0 \<and> v \<le> ULLONG_MAX" by auto
  next
    assume a: "c # p = dec_nat v \<and> v > 0 \<and> v \<le> ULLONG_MAX"
    with dec_nat_digits [of v] have "list_all is_digit p" "digits_val (unat (c - 48)) p = v" by auto
    with a string2ll_loop_spec [OF le] show "string2ll_loop (unat (c - 48)) p = Some (v, [])" by auto
  qed
qed

lemma string2ll_iff: "string2ll s = Some v \<longleftrightarrow> LLONG_MIN \<le> v \<and> v \<le> LLONG_MAX \<and> s = decimal v"
proof (cases "s = [] \<or> s = [45]")
  case True
  have "decimal v \<noteq> []" by (simp add: decimal_def dec_nat.simps [of "nat v"])
  moreover have "decimal v \<noteq> [45]"
  proof (cases "v < 0")
    case True
    then show ?thesis by (simp add: decimal_def dec_nat.simps [of "nat (- v)"])
  next
    case False
    then show ?thesis
      using dec_nat_digits [of "nat v"] by (cases "v = 0") (auto simp: decimal_def dec_nat_less)
  qed
  moreover have "string2ll s = None" using True by (auto simp: string2ll_def)
  ultimately show ?thesis using True by auto
next
  case ne: False
  have zero: "decimal v = [48] \<longleftrightarrow> v = 0"
    using dec_nat_digits [of "nat v"] by (cases "v > 0"; cases "v = 0") (auto simp: decimal_def dec_nat_less)
  show ?thesis
  proof (cases "s = [48]")
    case True
    then show ?thesis using zero by (auto simp: string2ll_def LLONG_MIN_def LLONG_MAX_def)
  next
    case False
    define p where "p = (if hd s = 45 then tl s else s)"
    have "p \<noteq> []" using ne by (cases s) (auto simp: p_def)
    then obtain c q where p: "p = c # q" by (cases p) auto
    have s: "s = (if hd s = 45 then 45 # c # q else c # q)" using ne p p_def by (cases s) auto
    have dec: "decimal v = s \<longleftrightarrow> v \<noteq> 0 \<and> c # q = dec_nat (nat \<bar>v\<bar>) \<and> (hd s = 45 \<longleftrightarrow> v < 0)"
      (is "?l \<longleftrightarrow> ?r")
    proof
      assume l: ?l
      then have "v \<noteq> 0" using zero False by auto
      moreover have "v > 0 \<Longrightarrow> hd (dec_nat (nat v)) \<noteq> 45" using dec_nat_digits [of "nat v"] by auto
      ultimately show ?r using l s by (auto simp: decimal_def split: if_splits)
    next
      assume ?r
      then show ?l using s by (auto simp: decimal_def)
    qed
    show ?thesis
    proof (cases "49 \<le> c \<and> c \<le> 57")
      case False
      then have "c # q \<noteq> dec_nat n" if "n > 0" for n using dec_nat_digits [OF that] by auto
      then have "decimal v \<noteq> s" using dec by (metis zero_less_abs_iff zero_less_nat_eq)
      moreover have "string2ll s = None"
        using ne False \<open>s \<noteq> [48]\<close> p by (auto simp: string2ll_def Let_def p_def length_Suc_conv split: if_splits)
      ultimately show ?thesis by auto
    next
      case True
      have "string2ll s = Some v \<longleftrightarrow> (\<exists>n. string2ll_loop (unat (c - 48)) q = Some (n, []) \<and>
          (if hd s = 45 then int n \<le> - LLONG_MIN \<and> v = - int n else int n \<le> LLONG_MAX \<and> v = int n))"
        using ne False True p by (auto simp: string2ll_def p_def Let_def split: option.splits if_splits)
      also have "\<dots> \<longleftrightarrow> (\<exists>n. c # q = dec_nat n \<and> n > 0 \<and> n \<le> ULLONG_MAX \<and>
          (if hd s = 45 then int n \<le> - LLONG_MIN \<and> v = - int n else int n \<le> LLONG_MAX \<and> v = int n))"
        using string2ll_pos True by auto
      also have "\<dots> \<longleftrightarrow> LLONG_MIN \<le> v \<and> v \<le> LLONG_MAX \<and> v \<noteq> 0 \<and> c # q = dec_nat (nat \<bar>v\<bar>) \<and> (hd s = 45 \<longleftrightarrow> v < 0)"
        by (cases "hd s = 45") (auto simp: LLONG_MIN_def LLONG_MAX_def ULLONG_MAX_def intro!: exI [of _ "nat \<bar>v\<bar>"])
      finally show ?thesis using dec by auto
    qed
  qed
qed

text \<open>
  C15. \<open>string2ll\<close> accepts exactly the canonical decimal representations of 64 bit integers, so a
  string it accepts can be replaced by its number and printed back without any loss: no spaces,
  no leading zeros, no plus sign, no overflow.
\<close>

theorem string2ll_exact:
  "string2ll s = Some v \<longleftrightarrow> - (2 ^ 63) \<le> v \<and> v < 2 ^ 63 \<and> s = decimal v"
  using string2ll_iff [of s v] by (auto simp: LLONG_MIN_def LLONG_MAX_def)

text \<open>
  C16. \<open>ll2string\<close> stays inside its buffer and writes the decimal representation of every 64 bit
  integer with a terminating zero, or returns 0 and writes nothing when the buffer is too small;
  \<open>sdigits10\<close> predicts the length, and \<open>string2ll\<close> reads the integer back.
\<close>

theorem ll2string_roundtrip:
  assumes "- (2 ^ 63) \<le> v" and "v < 2 ^ 63"
  shows "ll2string dst v = Some (if sdigits10 v < length dst
       then (decimal v @ 0 # drop (Suc (sdigits10 v)) dst, sdigits10 v) else (dst, 0)) \<and>
     length (decimal v) = sdigits10 v \<and> string2ll (decimal v) = Some v"
proof -
  have b: "LLONG_MIN \<le> v" "v \<le> LLONG_MAX" using assms by (simp_all add: LLONG_MIN_def LLONG_MAX_def)
  have "sdigits10 v = length (decimal v)"
    using decimal_abs [OF b(1)] by (auto simp: sdigits10_def decimal_def Let_def digits10_dec)
  then show ?thesis using ll2string_spec [OF b(1), of dst] string2ll_iff [of "decimal v" v] b by simp
qed

theorem ll2string_roundtrip_witness:
  "ll2string (replicate 5 7) (-42) = Some ([45, 52, 50, 0, 7], 3) \<and> string2ll (decimal (-42)) = Some (-42)"
proof -
  have "decimal (-42) = [45, 52, 50]" by (simp add: decimal_def dec_nat.simps)
  moreover from this ll2string_roundtrip [of "-42" "replicate 5 7"] have "sdigits10 (-42) = 3" by simp
  ultimately show ?thesis using ll2string_roundtrip [of "-42" "replicate 5 7"] by (simp add: eval_nat_numeral)
qed

end
