(* ===== verification/Util_Glob.thy ===== *)
theory Util_Glob
  imports Siphash "HOL-Library.Monad_Syntax"
begin

section \<open>Glob-style patterns: \<open>stringmatchlen\<close> of \<open>util.c\<close>\<close>

text \<open>
  \<open>pattern\<close> and \<open>string\<close> are SDS strings: a zero byte follows their last byte, and anything
  beyond is out of bounds (\<open>None\<close>). Every step of the C code moves \<open>pattern\<close> and
  \<open>patternLen\<close> together, so an index \<open>i\<close> stands for both: \<open>patternLen\<close> is \<open>length p - i\<close>, and
  \<open>stringLen\<close> is \<open>length s - j\<close>, which is zero exactly when \<open>j = length s\<close> and negative beyond.
\<close>

definition rd :: "bytes \<Rightarrow> nat \<Rightarrow> u8 option" where
  "rd m i = (if i < length m then Some (m ! i) else if i = length m then Some 0 else None)"

text \<open>\<open>while (pattern[1] == '*') ...\<close> and \<open>while(*pattern == '*') ...\<close>.\<close>

function skip_star :: "nat \<Rightarrow> bytes \<Rightarrow> nat \<Rightarrow> nat option" where
  "skip_star k p i =
     (case rd p (i + k) of
        None \<Rightarrow> None
      | Some c \<Rightarrow> if c = 0x2A then skip_star k p (Suc i) else Some i)"
  by pat_completeness auto
termination
  by (relation "measure (\<lambda>(k, p, i). Suc (length p) - (i + k))") (auto simp: rd_def split: if_splits)

declare skip_star.simps [simp del]

definition chr_eq :: "bool \<Rightarrow> u8 \<Rightarrow> u8 \<Rightarrow> bool" where
  "chr_eq nocase a b = (if \<not> nocase then a = b else siptlw a = siptlw b)"

text \<open>The bounds of a range are swapped when out of order, then lowered; \<open>char\<close> is signed.\<close>

definition in_range :: "bool \<Rightarrow> u8 \<Rightarrow> u8 \<Rightarrow> u8 \<Rightarrow> bool" where
  "in_range nocase a b c =
     (let (start, end) = (if sint a > sint b then (b, a) else (a, b));
          (start, end, c) = (if nocase then (siptlw start, siptlw end, siptlw c) else (start, end, c))
      in sint c \<ge> sint start \<and> sint c \<le> sint end)"

text \<open>
  The loop over a character class: the index at which it stops and the flag \<open>match\<close>. \<open>None\<close> is a
  read beyond the terminator of the pattern or of the string.
\<close>

function class_loop :: "bytes \<Rightarrow> bytes \<Rightarrow> bool \<Rightarrow> nat \<Rightarrow> nat \<Rightarrow> bool \<Rightarrow> (nat \<times> bool) option" where
  "class_loop p s nocase j i m =
     (case rd p i of
        None \<Rightarrow> None
      | Some c \<Rightarrow>
          if c = 0x5C then
            (case rd p (i + 1) of
               None \<Rightarrow> None
             | Some c1 \<Rightarrow> (case rd s j of
                 None \<Rightarrow> None
               | Some d \<Rightarrow> class_loop p s nocase j (i + 2) (m \<or> c1 = d)))
          else if c = 0x5D then Some (i, m)
          else if i = length p then Some (i - 1, m)
          else (case rd s j of
              None \<Rightarrow> None
            | Some d \<Rightarrow>
                if rd p (i + 1) = Some 0x2D \<and> int (length p) - int i \<ge> 3 then
                  class_loop p s nocase j (i + 3) (m \<or> in_range nocase c (p ! (i + 2)) d)
                else class_loop p s nocase j (i + 1) (m \<or> chr_eq nocase c d)))"
  by pat_completeness auto
termination
  by (relation "measure (\<lambda>(p, _, _, _, i, _). Suc (length p) - i)") (auto simp: rd_def split: if_splits)

declare class_loop.simps [simp del]

text \<open>
  The cases of the \<open>switch\<close> that compare one character, at \<open>i\<close> with \<open>c\<close> read there: the index of
  the last pattern byte they use, or \<open>Some None\<close> for \<open>return 0\<close>.
\<close>

definition match_char :: "bytes \<Rightarrow> bytes \<Rightarrow> bool \<Rightarrow> nat \<Rightarrow> nat \<Rightarrow> u8 \<Rightarrow> nat option option" where
  "match_char p s nocase i j c =
     (if c = 0x3F then Some (if j = length s then None else Some i)
      else if c = 0x5B then do {
        n \<leftarrow> rd p (i + 1);
        (i, m) \<leftarrow> class_loop p s nocase j (if n = 0x5E then i + 2 else i + 1) False;
        Some (if m \<noteq> (n = 0x5E) then Some i else None)
      }
      else do {
        let i = (if c = 0x5C \<and> int (length p) - int i \<ge> 2 then i + 1 else i);
        c \<leftarrow> rd p i;
        d \<leftarrow> rd s j;
        Some (if chr_eq nocase c d then Some i else None)
      })"

text \<open>
  \<open>match_loop False\<close> is the outer loop; \<open>match_loop True\<close> is the loop of the case \<open>*\<close> over the
  positions of the string, which calls the function again.
\<close>

partial_function (option) match_loop :: "bool \<Rightarrow> bytes \<Rightarrow> bytes \<Rightarrow> bool \<Rightarrow> nat \<Rightarrow> nat \<Rightarrow> bool option" where
  "match_loop star p s nocase i j =
     (if star then
        (if j = length s then Some False
         else do {
           r \<leftarrow> match_loop False p s nocase (i + 1) j;
           if r then Some True else match_loop True p s nocase i (j + 1)
         })
      else if i = length p then Some (j = length s)
      else do {
        c \<leftarrow> rd p i;
        if c = 0x2A then do {
          i \<leftarrow> skip_star 1 p i;
          if i + 1 = length p then Some True else match_loop True p s nocase i j
        }
        else do {
          r \<leftarrow> match_char p s nocase i j c;
          case r of
            None \<Rightarrow> Some False
          | Some i \<Rightarrow>
              if j + 1 = length s then do {
                i \<leftarrow> skip_star 0 p (i + 1);
                Some (i = length p)
              }
              else match_loop False p s nocase (i + 1) (j + 1)
        }
      })"

definition stringmatchlen :: "bytes \<Rightarrow> bytes \<Rightarrow> bool \<Rightarrow> bool option" where
  "stringmatchlen pattern string nocase = match_loop False pattern string nocase 0 0"

subsection \<open>What a pattern means\<close>

datatype class_item = CEsc u8 | CRange u8 u8 | CChar u8

datatype glob = GStar | GAny | GClass bool "class_item list" | GLit u8

fun item_matches :: "bool \<Rightarrow> u8 \<Rightarrow> class_item \<Rightarrow> bool" where
  "item_matches nocase c (CEsc a) = (a = c)"
| "item_matches nocase c (CRange a b) = in_range nocase a b c"
| "item_matches nocase c (CChar a) = chr_eq nocase a c"

fun gmatch :: "bool \<Rightarrow> glob list \<Rightarrow> bytes \<Rightarrow> bool" where
  "gmatch nocase [] s = (s = [])"
| "gmatch nocase (GStar # g) [] = gmatch nocase g []"
| "gmatch nocase (GStar # g) (c # s) = (gmatch nocase g (c # s) \<or> gmatch nocase (GStar # g) s)"
| "gmatch nocase (GAny # g) (c # s) = gmatch nocase g s"
| "gmatch nocase (GClass neg cs # g) (c # s) =
     ((neg \<noteq> (\<exists>x \<in> set cs. item_matches nocase c x)) \<and> gmatch nocase g s)"
| "gmatch nocase (GLit a # g) (c # s) = (chr_eq nocase a c \<and> gmatch nocase g s)"
| "gmatch nocase (_ # g) [] = False"

text \<open>The items of a class up to its closing bracket, and what follows it.\<close>

fun parse_class :: "bytes \<Rightarrow> (class_item list \<times> bytes) option" where
  "parse_class [] = None"
| "parse_class (c # p) =
     (if c = 0x5C then
        (case p of [] \<Rightarrow> None | a # q \<Rightarrow> map_option (apfst ((#) (CEsc a))) (parse_class q))
      else if c = 0x5D then Some ([], p)
      else (case p of
          a # b # q \<Rightarrow>
            if a = 0x2D then map_option (apfst ((#) (CRange c b))) (parse_class q)
            else map_option (apfst ((#) (CChar c))) (parse_class p)
        | _ \<Rightarrow> map_option (apfst ((#) (CChar c))) (parse_class p)))"

declare parse_class.simps(2) [simp del]

lemma parse_class_length: "parse_class p = Some (cs, r) \<Longrightarrow> length r < length p"
proof (induction p arbitrary: cs rule: length_induct)
  case (1 p)
  note IH = 1(1) [rule_format]
  show ?case
  proof (cases p)
    case Nil
    with 1(2) show ?thesis by simp
  next
    case (Cons c q)
    show ?thesis
      using 1(2) IH [of q] IH [of "tl q"] IH [of "tl (tl q)"] unfolding Cons parse_class.simps(2)
      by (cases q; cases "tl q") (auto split: if_splits)
  qed
qed

function parse :: "bytes \<Rightarrow> glob list option" where
  "parse [] = Some []"
| "parse (c # p) =
     (if c = 0x2A then map_option ((#) GStar) (parse p)
      else if c = 0x3F then map_option ((#) GAny) (parse p)
      else if c = 0x5B then
        (let neg = (p \<noteq> [] \<and> hd p = 0x5E); q = (if neg then tl p else p) in
         case parse_class q of
           None \<Rightarrow> None
         | Some (cs, r) \<Rightarrow> map_option ((#) (GClass neg cs)) (parse r))
      else if c = 0x5C \<and> p \<noteq> [] then map_option ((#) (GLit (hd p))) (parse (tl p))
      else map_option ((#) (GLit c)) (parse p))"
  by pat_completeness auto
termination
  by (relation "measure length") (auto simp: Let_def dest!: parse_class_length split: if_splits)

declare parse.simps(2) [simp del]

subsection \<open>The matcher decides the meaning\<close>

lemma rd_simps [simp]: "i < length m \<Longrightarrow> rd m i = Some (m ! i)" "rd m (length m) = Some 0"
  by (simp_all add: rd_def)

lemma drop_nth_Suc: "drop i p = c # q \<Longrightarrow> i < length p \<and> p ! i = c \<and> drop (Suc i) p = q"
  by (metis Cons_nth_drop_Suc drop_eq_Nil2 linorder_not_le list.distinct(1) list.inject)

lemma class_loop_spec:
  assumes "parse_class (drop i p) = Some (cs, r)" and j: "j < length s"
  shows "\<exists>i'. class_loop p s nc j i m = Some (i', m \<or> (\<exists>x \<in> set cs. item_matches nc (s ! j) x)) \<and>
     i' < length p \<and> i \<le> i' \<and> drop (Suc i') p = r"
  using assms(1)
proof (induction "length p - i" arbitrary: i cs m rule: less_induct)
  case less
  from less.prems obtain c q where q: "drop i p = c # q" by (cases "drop i p") auto
  from drop_nth_Suc [OF q] have i: "i < length p" "p ! i = c" "drop (Suc i) p = q" by simp_all
  have IH: "\<exists>i'. class_loop p s nc j k m' = Some (i', m' \<or> (\<exists>x \<in> set cs'. item_matches nc (s ! j) x)) \<and>
     i' < length p \<and> i \<le> i' \<and> drop (Suc i') p = r"
    if k: "parse_class (drop k p) = Some (cs', r)" "i < k" for k cs' m'
  proof -
    have "length p - k < length p - i" using that(2) i(1) by simp
    from less.hyps [OF this k(1), of m'] that(2) show ?thesis by fastforce
  qed
  note pc = less.prems [unfolded q parse_class.simps(2)]
  consider (esc) "c = 0x5C" | (close) "c = 0x5D" | (other) "c \<noteq> 0x5C" "c \<noteq> 0x5D" by blast
  then show ?case
  proof cases
    case esc
    with pc obtain a q' cs' where a: "q = a # q'" "parse_class q' = Some (cs', r)" "cs = CEsc a # cs'"
      by (auto split: list.splits)
    from drop_nth_Suc [of "Suc i" p a q'] i a have "Suc i < length p" "p ! Suc i = a" "drop (i + 2) p = q'"
      by simp_all
    then show ?thesis using IH [of "i + 2" cs' "m \<or> a = s ! j"] esc i a j
      by (subst class_loop.simps) (auto simp: disj_assoc)
  next
    case close
    then show ?thesis using pc i by (intro exI [of _ i]) (simp add: class_loop.simps)
  next
    case other
    show ?thesis
    proof (cases "\<exists>b q'. q = 0x2D # b # q'")
      case True
      then obtain b q' where b: "q = 0x2D # b # q'" by blast
      with pc other obtain cs' where cs: "parse_class q' = Some (cs', r)" "cs = CRange c b # cs'" by auto
      have 1: "Suc i < length p" "p ! Suc i = 0x2D" "drop (Suc (Suc i)) p = b # q'"
        using drop_nth_Suc [of "Suc i" p "0x2D" "b # q'"] i(3) b by simp_all
      have 2: "Suc (Suc i) < length p" "p ! Suc (Suc i) = b" "drop (i + 3) p = q'"
        using drop_nth_Suc [OF 1(3)] by (simp_all add: numeral_3_eq_3)
      have "class_loop p s nc j i m = class_loop p s nc j (i + 3) (m \<or> in_range nc c b (s ! j))"
        using other i 1 2 j by (subst class_loop.simps) simp
      then show ?thesis using IH [of "i + 3" cs' "m \<or> in_range nc c b (s ! j)"] cs 2(3)
        by (auto simp: disj_assoc)
    next
      case False
      with pc other obtain cs' where cs: "parse_class q = Some (cs', r)" "cs = CChar c # cs'"
        by (auto split: list.splits if_splits)
      then obtain a q' where q': "q = a # q'" by (cases q) auto
      with drop_nth_Suc [of "Suc i" p a q'] i(3) have 1: "Suc i < length p" "p ! Suc i = a" "drop (Suc (Suc i)) p = q'"
        by simp_all
      have "\<not> (a = 0x2D \<and> int (length p) - int i \<ge> 3)"
      proof
        assume a: "a = 0x2D \<and> int (length p) - int i \<ge> 3"
        moreover have "length q' = length p - Suc (Suc i)" using 1(3) by (metis length_drop)
        ultimately have "q' \<noteq> []" by auto
        with a False q' show False by (cases q') auto
      qed
      then have "class_loop p s nc j i m = class_loop p s nc j (Suc i) (m \<or> chr_eq nc c (s ! j))"
        using other i 1 j by (subst class_loop.simps) auto
      then show ?thesis using IH [of "Suc i" cs' "m \<or> chr_eq nc c (s ! j)"] cs i(3)
        by (auto simp: disj_assoc)
    qed
  qed
qed

abbreviation stars :: "bytes \<Rightarrow> nat" where
  "stars q \<equiv> length (takeWhile (\<lambda>c. c = 0x2A) q)"

lemma skip_star_spec:
  "i + k \<le> length p \<Longrightarrow> skip_star k p i = Some (i + stars (drop (i + k) p))"
proof (induction "length p - (i + k)" arbitrary: i)
  case 0
  then show ?case by (simp add: skip_star.simps [of k p i] rd_def)
next
  case (Suc n)
  then have lt: "i + k < length p" by simp
  then have d: "drop (i + k) p = p ! (i + k) # drop (Suc (i + k)) p" by (simp add: Cons_nth_drop_Suc)
  show ?case
  proof (cases "p ! (i + k) = 0x2A")
    case True
    then have "skip_star k p i = skip_star k p (Suc i)" using lt by (subst skip_star.simps) simp
    also have "\<dots> = Some (Suc i + stars (drop (Suc i + k) p))" using Suc lt by simp
    finally show ?thesis using d True by simp
  next
    case False
    then show ?thesis using lt d by (simp add: skip_star.simps [of k p i])
  qed
qed

lemma gmatch_star: "gmatch nc (GStar # g) s \<longleftrightarrow> (\<exists>k \<le> length s. gmatch nc g (drop k s))"
proof (induction s)
  case (Cons c s)
  have "(\<exists>k \<le> length (c # s). gmatch nc g (drop k (c # s))) \<longleftrightarrow>
      gmatch nc g (c # s) \<or> (\<exists>k \<le> length s. gmatch nc g (drop k s))"
    by (metis Suc_le_mono drop0 drop_Suc_Cons length_Cons less_eq_nat.simps(1) not0_implies_Suc)
  with Cons show ?case by simp
qed simp

lemma gmatch_star_star: "gmatch nc (GStar # GStar # g) s = gmatch nc (GStar # g) s"
  by (induction s) auto

lemma gmatch_stars: "gmatch nc (GStar # replicate n GStar @ g) s = gmatch nc (GStar # g) s"
  by (induction n) (simp_all only: replicate_0 replicate_Suc append_Nil append_Cons gmatch_star_star)

lemma gmatch_Nil: "gmatch nc g [] \<longleftrightarrow> (\<forall>t \<in> set g. t = GStar)"
proof (induction g)
  case (Cons t g)
  then show ?case by (cases t) auto
qed simp

lemma parse_stars:
  "parse q = map_option ((@) (replicate (stars q) GStar)) (parse (drop (stars q) q))"
proof (induction q)
  case (Cons c q)
  show ?case
  proof (cases "c = 0x2A")
    case True
    with Cons show ?thesis by (simp add: parse.simps(2) option.map_comp comp_def)
  next
    case False
    then show ?thesis by (simp add: option.map_ident)
  qed
qed simp

lemma parse_head:
  assumes "parse (c # q) = Some g" and "c \<noteq> 0x2A"
  shows "\<exists>t g'. g = t # g' \<and> t \<noteq> GStar"
proof -
  have map: "map_option ((#) t) m = Some g \<Longrightarrow> \<exists>g'. g = t # g'" for t m by (cases m) auto
  consider "c = 0x3F" | "c = 0x5B" | "c = 0x5C" "q \<noteq> []" | "c \<noteq> 0x3F" "c \<noteq> 0x5B" "\<not> (c = 0x5C \<and> q \<noteq> [])" by blast
  then show ?thesis
  proof cases
    case 1
    with assms have "map_option ((#) GAny) (parse q) = Some g" by (simp add: parse.simps(2))
    from map [OF this] show ?thesis by auto
  next
    case 2
    define neg where "neg = (q \<noteq> [] \<and> hd q = 0x5E)"
    from 2 assms have "(case parse_class (if neg then tl q else q) of None \<Rightarrow> None
        | Some (cs, r) \<Rightarrow> map_option ((#) (GClass neg cs)) (parse r)) = Some g"
      by (simp add: parse.simps(2) Let_def flip: neg_def)
    then obtain cs r where "map_option ((#) (GClass neg cs)) (parse r) = Some g"
      by (cases "parse_class (if neg then tl q else q)") auto
    from map [OF this] show ?thesis by auto
  next
    case 3
    with assms have "map_option ((#) (GLit (hd q))) (parse (tl q)) = Some g" by (simp add: parse.simps(2))
    from map [OF this] show ?thesis by auto
  next
    case 4
    with assms have "map_option ((#) (GLit c)) (parse q) = Some g" unfolding parse.simps(2) by (simp only: if_False)
    from map [OF this] show ?thesis by auto
  qed
qed

lemma parse_all_stars:
  assumes "parse q = Some g"
  shows "gmatch nc g [] \<longleftrightarrow> stars q = length q"
proof -
  obtain g' where g': "parse (drop (stars q) q) = Some g'" "g = replicate (stars q) GStar @ g'"
    using assms parse_stars [of q] by auto
  show ?thesis
  proof (cases "drop (stars q) q")
    case Nil
    then have "length q \<le> stars q" by simp
    moreover have "stars q \<le> length q" by (rule length_takeWhile_le)
    ultimately show ?thesis using g' Nil by (auto simp: gmatch_Nil)
  next
    case (Cons c r)
    then have "dropWhile (\<lambda>c. c = 0x2A) q = c # r" by (simp add: dropWhile_eq_drop)
    then have "c \<noteq> 0x2A" using hd_dropWhile [of "\<lambda>c. c = 0x2A" q] by simp
    moreover have "stars q < length q" using Cons by (metis drop_eq_Nil2 linorder_not_le list.distinct(1))
    ultimately show ?thesis using g' Cons parse_head [of c r g'] by (auto simp: gmatch_Nil)
  qed
qed

lemma star_loop_spec:
  assumes "\<And>k. k < length s \<Longrightarrow> match_loop False p s nc (i + 1) k = Some (f k)" and "j \<le> length s"
  shows "match_loop True p s nc i j = Some (\<exists>k. j \<le> k \<and> k < length s \<and> f k)"
  using assms(2)
proof (induction "length s - j" arbitrary: j)
  case 0
  then show ?case by (subst match_loop.simps) auto
next
  case (Suc n)
  then have j: "j < length s" by simp
  have "match_loop True p s nc (i) (j + 1) = Some (\<exists>k. j + 1 \<le> k \<and> k < length s \<and> f k)"
    using Suc j by simp
  then have "match_loop True p s nc i j = Some (f j \<or> (\<exists>k. j + 1 \<le> k \<and> k < length s \<and> f k))"
    using j assms(1) [OF j] by (subst match_loop.simps) simp
  moreover have "(f j \<or> (\<exists>k. j + 1 \<le> k \<and> k < length s \<and> f k)) = (\<exists>k. j \<le> k \<and> k < length s \<and> f k)"
    using j by (metis Suc_eq_plus1 Suc_leD le_neq_implies_less le_refl Suc_leI)
  ultimately show ?case by simp
qed

text \<open>What follows a character that has matched.\<close>

lemma advance_spec:
  assumes g: "parse (drop (i + 1) p) = Some g" and i: "i < length p" and j: "j < length s"
    and IH: "j + 1 < length s \<Longrightarrow> match_loop False p s nc (i + 1) (j + 1) = Some (gmatch nc g (drop (j + 1) s))"
  shows "(if j + 1 = length s then do { i \<leftarrow> skip_star 0 p (i + 1); Some (i = length p) }
     else match_loop False p s nc (i + 1) (j + 1)) = Some (gmatch nc g (drop (j + 1) s))"
proof (cases "j + 1 = length s")
  case True
  have "skip_star 0 p (i + 1) = Some (i + 1 + stars (drop (i + 1) p))"
    using skip_star_spec [of "i + 1" 0 p] i by simp
  moreover have "i + 1 + stars (drop (i + 1) p) = length p \<longleftrightarrow> stars (drop (i + 1) p) = length (drop (i + 1) p)"
    using i by auto
  ultimately show ?thesis using True parse_all_stars [OF g, of nc] by simp
next
  case False
  with IH j show ?thesis by simp
qed

text \<open>A case that compares one character, against the first token of the pattern.\<close>

definition char_step :: "bytes \<Rightarrow> bytes \<Rightarrow> bool \<Rightarrow> nat \<Rightarrow> nat \<Rightarrow> glob list \<Rightarrow> bool" where
  "char_step p s nc i j g \<longleftrightarrow> (\<exists>k h b. match_char p s nc i j (p ! i) = Some (if b then Some k else None) \<and>
     parse (drop (k + 1) p) = Some h \<and> i \<le> k \<and> k < length p \<and>
     (gmatch nc g (drop j s) \<longleftrightarrow> b \<and> gmatch nc h (drop (j + 1) s)))"

lemma char_stepI:
  "match_char p s nc i j (p ! i) = Some (if b then Some k else None) \<Longrightarrow> parse (drop (k + 1) p) = Some h \<Longrightarrow>
     i \<le> k \<Longrightarrow> k < length p \<Longrightarrow> (gmatch nc g (drop j s) \<longleftrightarrow> b \<and> gmatch nc h (drop (j + 1) s)) \<Longrightarrow>
     char_step p s nc i j g"
  unfolding char_step_def by blast

lemma drop_split: "i < length p \<Longrightarrow> drop i p = p ! i # drop (i + 1) p"
  by (simp add: Cons_nth_drop_Suc)

lemma char_step_any:
  assumes "parse (drop i p) = Some g" and i: "i < length p" and j: "j < length s" and c: "p ! i = 0x3F"
  shows "char_step p s nc i j g"
proof -
  from assms obtain h where h: "parse (drop (i + 1) p) = Some h" "g = GAny # h"
    unfolding drop_split [OF i] by (auto simp: parse.simps(2))
  show ?thesis
    by (rule char_stepI [of p s nc i j True i h]) (use h i j c drop_split [OF j] in \<open>simp_all add: match_char_def\<close>)
qed

lemma char_step_class:
  assumes pg: "parse (drop i p) = Some g" and i: "i < length p" and j: "j < length s" and c: "p ! i = 0x5B"
  shows "char_step p s nc i j g"
proof -
  define q where "q = drop (i + 1) p"
  define neg where "neg = (q \<noteq> [] \<and> hd q = 0x5E)"
  have "(case parse_class (if neg then tl q else q) of None \<Rightarrow> None
    | Some (cs, r) \<Rightarrow> map_option ((#) (GClass neg cs)) (parse r)) = Some g"
    using pg c unfolding drop_split [OF i] q_def [symmetric] by (simp add: parse.simps(2) Let_def flip: neg_def)
  then obtain cs r h where h: "parse_class (if neg then tl q else q) = Some (cs, r)" "parse r = Some h"
      "g = GClass neg cs # h"
    by (cases "parse_class (if neg then tl q else q)") auto
  have "q \<noteq> []" using h(1) by (auto simp: neg_def)
  then have len: "Suc i < length p" by (simp add: q_def)
  have hd: "p ! (i + 1) = hd q" "q \<noteq> []" using len by (simp_all add: q_def hd_drop_conv_nth)
  let ?i = "if neg then i + 2 else i + 1" and ?m = "\<exists>x \<in> set cs. item_matches nc (s ! j) x"
  have "drop ?i p = (if neg then tl q else q)" by (simp add: q_def tl_drop drop_Suc)
  from class_loop_spec [of ?i p cs r j s nc False] h(1) this j obtain k where
    k: "class_loop p s nc j ?i False = Some (k, ?m)" "k < length p" "?i \<le> k" "drop (Suc k) p = r" by auto
  have neg: "(p ! (i + 1) = 0x5E) = neg" using hd by (simp add: neg_def)
  have "i \<le> k" using k(3) by (simp split: if_splits)
  moreover have "match_char p s nc i j (p ! i) = Some (if neg \<noteq> ?m then Some k else None)"
    using c i len neg k(1) by (auto simp: match_char_def split: if_splits)
  ultimately show ?thesis
    by (intro char_stepI [of p s nc i j "neg \<noteq> ?m" k h]) (use h k(2,4) drop_split [OF j] in simp_all)
qed

lemma char_step_lit:
  assumes pg: "parse (drop i p) = Some g" and i: "i < length p" and j: "j < length s"
    and c: "p ! i \<noteq> 0x2A" "p ! i \<noteq> 0x3F" "p ! i \<noteq> 0x5B"
  shows "char_step p s nc i j g"
proof (cases "p ! i = 0x5C \<and> drop (i + 1) p \<noteq> []")
  case True
  let ?q = "drop (i + 1) p"
  from True pg have "map_option ((#) (GLit (hd ?q))) (parse (tl ?q)) = Some g"
    unfolding drop_split [OF i] by (simp add: parse.simps(2))
  then obtain h where h: "parse (tl ?q) = Some h" "g = GLit (hd ?q) # h" by auto
  have len: "Suc i < length p" using True by simp
  then have hd: "hd ?q = p ! Suc i" by (simp add: hd_drop_conv_nth)
  have "match_char p s nc i j (p ! i) = Some (if chr_eq nc (p ! Suc i) (s ! j) then Some (Suc i) else None)"
    using True i j len by (simp add: match_char_def)
  then show ?thesis
    by (rule char_stepI [of _ _ _ _ _ _ _ h])
      (use h hd len drop_split [OF j] in \<open>simp_all add: tl_drop drop_Suc\<close>)
next
  case False
  with pg c have "map_option ((#) (GLit (p ! i))) (parse (drop (i + 1) p)) = Some g"
    unfolding drop_split [OF i] parse.simps(2) by (simp only: if_False)
  then obtain h where h: "parse (drop (i + 1) p) = Some h" "g = GLit (p ! i) # h" by auto
  have ne: "\<not> (p ! i = 0x5C \<and> int (length p) - int i \<ge> 2)" using False i by auto
  then have "match_char p s nc i j (p ! i) = Some (if chr_eq nc (p ! i) (s ! j) then Some i else None)"
    using c i j by (auto simp: match_char_def Let_def)
  then show ?thesis
    by (rule char_stepI [of _ _ _ _ _ _ _ h]) (use h i drop_split [OF j] in simp_all)
qed

lemma star_step:
  assumes pg: "parse (drop i p) = Some g" and i: "i < length p" and j: "j < length s" and c: "p ! i = 0x2A"
    and IH: "\<And>k l h. parse (drop k p) = Some h \<Longrightarrow> i < k \<Longrightarrow> k \<le> length p \<Longrightarrow> l < length s \<Longrightarrow>
      match_loop False p s nc k l = Some (gmatch nc h (drop l s))"
  shows "match_loop False p s nc i j = Some (gmatch nc g (drop j s))"
proof -
  define q n where "q = drop (i + 1) p" and "n = stars q"
  have sk: "skip_star 1 p i = Some (i + n)" using skip_star_spec [of i 1 p] i by (simp add: n_def q_def)
  have unfold: "match_loop False p s nc i j =
      (if i + n + 1 = length p then Some True else match_loop True p s nc (i + n) j)"
    using c i sk by (subst match_loop.simps) simp
  have dn: "drop n q = drop (i + n + 1) p" by (simp add: q_def add.commute add.left_commute)
  have "n \<le> length q" unfolding n_def by (rule length_takeWhile_le)
  then have le: "i + n + 1 \<le> length p" using i by (simp add: q_def)
  from pg c obtain g' where "parse q = Some g'" "g = GStar # g'"
    unfolding drop_split [OF i] by (auto simp: parse.simps(2) q_def)
  then obtain h where h: "parse (drop (i + n + 1) p) = Some h" "g = GStar # replicate n GStar @ h"
    using parse_stars [of q] by (auto simp: n_def [symmetric] dn)
  have gm: "gmatch nc g (drop j s) \<longleftrightarrow> (\<exists>k \<le> length (drop j s). gmatch nc h (drop (k + j) s))"
    by (simp only: h(2) gmatch_stars) (simp only: gmatch_star drop_drop)
  show ?thesis
  proof (cases "drop n q")
    case Nil
    then have "i + n + 1 = length p" using le dn by simp
    moreover from Nil have "h = []" using h(1) dn by simp
    ultimately show ?thesis using gm unfold j by (auto intro!: exI [of _ "length (drop j s)"])
  next
    case (Cons c' r)
    then have "dropWhile (\<lambda>c. c = 0x2A) q = c' # r" by (simp add: dropWhile_eq_drop n_def)
    then have "c' \<noteq> 0x2A" using hd_dropWhile [of "\<lambda>c. c = 0x2A" q] by simp
    then have nil: "\<not> gmatch nc h []" using parse_head [of c' r h] h(1) Cons dn by (auto simp: gmatch_Nil)
    have "match_loop True p s nc (i + n) j = Some (\<exists>k. j \<le> k \<and> k < length s \<and> gmatch nc h (drop k s))"
      by (rule star_loop_spec) (use IH [OF h(1)] le j in simp_all)
    moreover have "(\<exists>k. j \<le> k \<and> k < length s \<and> gmatch nc h (drop k s)) = gmatch nc g (drop j s)"
    proof
      assume "\<exists>k. j \<le> k \<and> k < length s \<and> gmatch nc h (drop k s)"
      then obtain k where "j \<le> k" "k < length s" "gmatch nc h (drop k s)" by blast
      then show "gmatch nc g (drop j s)" using gm by (auto intro!: exI [of _ "k - j"])
    next
      assume "gmatch nc g (drop j s)"
      with gm obtain k where k: "k \<le> length (drop j s)" "gmatch nc h (drop (k + j) s)" by auto
      then have "k + j < length s" using nil j by (cases "k + j = length s") auto
      with k(2) show "\<exists>k. j \<le> k \<and> k < length s \<and> gmatch nc h (drop k s)"
        by (intro exI [of _ "k + j"]) simp
    qed
    moreover have "i + n + 1 \<noteq> length p" using Cons dn by (metis drop_all le_refl list.distinct(1))
    ultimately show ?thesis using unfold by simp
  qed
qed

lemma match_loop_spec:
  assumes "parse (drop i p) = Some g" and "i \<le> length p" and "j < length s"
  shows "match_loop False p s nc i j = Some (gmatch nc g (drop j s))"
  using assms
proof (induction "length p - i" arbitrary: i g j rule: less_induct)
  case less
  have IH: "match_loop False p s nc k l = Some (gmatch nc h (drop l s))"
    if "parse (drop k p) = Some h" "i < k" "k \<le> length p" "l < length s" for k l h
    using less.hyps [of k h l] that by simp
  show ?case
  proof (cases "i = length p")
    case True
    then show ?thesis using less.prems by (subst match_loop.simps) simp
  next
    case False
    with less.prems(2) have i: "i < length p" by simp
    note pre = less.prems(1) i less.prems(3)
    show ?thesis
    proof (cases "p ! i = 0x2A")
      case True
      show ?thesis by (rule star_step [OF pre True IH])
    next
      case star: False
      have "char_step p s nc i j g"
        using char_step_any [OF pre] char_step_class [OF pre] char_step_lit [OF pre star] by blast
      then obtain k h b where
        r: "match_char p s nc i j (p ! i) = Some (if b then Some k else None)"
        and k: "parse (drop (k + 1) p) = Some h" "i \<le> k" "k < length p"
        and b: "gmatch nc g (drop j s) \<longleftrightarrow> b \<and> gmatch nc h (drop (j + 1) s)"
        unfolding char_step_def by blast
      show ?thesis
        using advance_spec [OF k(1,3) less.prems(3), of nc] IH [OF k(1)] k(2,3) r b star i
        by (subst match_loop.simps) (cases b; simp)
    qed
  qed
qed

text \<open>
  C17. \<open>stringmatchlen\<close> decides the glob language: on a pattern whose classes are all closed and
  a string that is not empty it ends, reads only inside the two strings and their terminators,
  and returns 1 exactly if the string matches, with \<open>*\<close> any sequence, \<open>?\<close> any byte, classes with
  ranges, negation and escapes, and the rest literally, with or without regard to case.
\<close>

theorem stringmatchlen_correct:
  assumes "parse pattern = Some g" and "string \<noteq> []"
  shows "stringmatchlen pattern string nocase = Some (gmatch nocase g string)"
  using match_loop_spec [of 0 pattern g 0 string nocase] assms by (simp add: stringmatchlen_def)

text \<open>The pattern \<open>a*[b-d]?\<close> against \<open>axxcZ\<close>.\<close>

theorem stringmatchlen_correct_witness:
  "stringmatchlen [0x61, 0x2A, 0x5B, 0x62, 0x2D, 0x64, 0x5D, 0x3F] [0x61, 0x78, 0x78, 0x63, 0x5A] False = Some True"
proof -
  have "parse [0x61, 0x2A, 0x5B, 0x62, 0x2D, 0x64, 0x5D, 0x3F] =
      Some [GLit 0x61, GStar, GClass False [CRange 0x62 0x64], GAny]"
    by (simp add: parse.simps(2) parse_class.simps(2))
  from stringmatchlen_correct [OF this, of "[0x61, 0x78, 0x78, 0x63, 0x5A]" False]
  show ?thesis by (simp add: chr_eq_def in_range_def)
qed

text \<open>
  C18. On the empty string the conditions fail: the class \<open>[^a]\<close> compares the terminator, moves
  past it, and the length becomes negative. So \<open>[^a]*\<close> matches the empty string, although a
  class stands for one byte, and \<open>[^a]*b\<close> reads beyond the end of the string.
\<close>

theorem stringmatchlen_empty_string:
  "stringmatchlen [0x5B, 0x5E, 0x61, 0x5D, 0x2A] [] False = Some True \<and>
   parse [0x5B, 0x5E, 0x61, 0x5D, 0x2A] = Some [GClass True [CChar 0x61], GStar] \<and>
   \<not> gmatch False [GClass True [CChar 0x61], GStar] [] \<and>
   stringmatchlen [0x5B, 0x5E, 0x61, 0x5D, 0x2A, 0x62] [] False = None"
proof -
  have c: "class_loop (0x5B # 0x5E # 0x61 # 0x5D # p) [] False 0 2 False = Some (3, False)" for p
  proof -
    have "class_loop (0x5B # 0x5E # 0x61 # 0x5D # p) [] False 0 3 False = Some (3, False)"
      by (subst class_loop.simps) (simp add: rd_def)
    then show ?thesis by (subst class_loop.simps) (simp add: rd_def chr_eq_def)
  qed
  have m: "match_char (0x5B # 0x5E # 0x61 # 0x5D # p) [] False 0 0 0x5B = Some (Some 3)" for p
    using c [of p] by (simp add: match_char_def rd_def flip: numeral_2_eq_2)
  have "match_loop False (0x5B # 0x5E # 0x61 # 0x5D # p) [] False 0 0 =
      match_loop False (0x5B # 0x5E # 0x61 # 0x5D # p) [] False 4 1" for p
    by (subst match_loop.simps) (simp add: m)
  note first = this
  have star: "match_loop False [0x5B, 0x5E, 0x61, 0x5D, 0x2A] [] False 4 1 = Some True"
    by (subst match_loop.simps) (simp add: skip_star.simps rd_def)
  have lit: "match_loop False [0x5B, 0x5E, 0x61, 0x5D, 0x2A, 0x62] [] False 5 1 = None"
    by (subst match_loop.simps) (simp add: match_char_def rd_def)
  then have loop: "match_loop True [0x5B, 0x5E, 0x61, 0x5D, 0x2A, 0x62] [] False 4 1 = None"
    by (subst match_loop.simps) simp
  have "match_loop False [0x5B, 0x5E, 0x61, 0x5D, 0x2A, 0x62] [] False 4 1 = None"
    by (subst match_loop.simps) (simp add: skip_star.simps rd_def loop [simplified])
  with first star show ?thesis
    by (simp add: stringmatchlen_def parse.simps(2) parse_class.simps(2))
qed

text \<open>
  The text of a class, after its opening bracket and \<open>^\<close>, that comes to its end within an escape: no
  bracket closes it, and its last byte is a backslash that escapes nothing.
\<close>

fun dangling :: "bytes \<Rightarrow> bool" where
  "dangling [] = False"
| "dangling (c # p) =
     (if c = 0x5C then (case p of [] \<Rightarrow> True | a # q \<Rightarrow> dangling q)
      else if c = 0x5D then False
      else (case p of
          a # b # q \<Rightarrow> if a = 0x2D then dangling q else dangling p
        | _ \<Rightarrow> dangling p))"

declare dangling.simps(2) [simp del]

lemma dangling_escape: "dangling (0x5C # a # q) = dangling q"
  by (simp add: dangling.simps(2))

definition class_text :: "bytes \<Rightarrow> bytes" where
  "class_text body = (case body of [] \<Rightarrow> [] | c # b \<Rightarrow> if c = 0x5E then b else body)"

lemma class_loop_overrun: "j \<le> length s \<Longrightarrow> length p < i \<Longrightarrow> class_loop p s nocase j i m = None"
  by (subst class_loop.simps) (simp add: rd_def)

lemma class_loop_dangling:
  "j \<le> length s \<Longrightarrow> i \<le> length p \<Longrightarrow> class_loop p s nocase j i m = None \<longleftrightarrow> dangling (drop i p)"
proof (induction p s nocase j i m rule: class_loop.induct)
  case (1 p s nocase j i m)
  have s: "\<exists>d. rd s j = Some d" using "1.prems"(1) by (auto simp: rd_def)
  consider "i = length p" | "Suc i = length p" | "Suc (Suc i) = length p" | "Suc (Suc i) < length p" using "1.prems"(2) by linarith
  then show ?case
  proof cases
    case 1
    then show ?thesis by (subst class_loop.simps) (simp add: rd_def)
  next
    case 2
    then have d: "drop i p = [p ! i]" by (metis Cons_nth_drop_Suc drop_all lessI order_refl)
    from 2 "1.prems" "1.IH"(3) s show ?thesis
      by (subst class_loop.simps) (auto simp: d dangling.simps(2) rd_def class_loop_overrun)
  next
    case 3
    then have d1: "drop (Suc i) p = [p ! Suc i]" by (metis Cons_nth_drop_Suc drop_all lessI order_refl)
    with 3 have d: "drop i p = [p ! i, p ! Suc i]" by (metis Cons_nth_drop_Suc lessI less_Suc_eq)
    from 3 "1.prems" "1.IH" s show ?thesis
      by (subst class_loop.simps) (auto simp: d d1 dangling.simps(2) rd_def)
  next
    case 4
    then have d: "drop i p = p ! i # p ! Suc i # p ! Suc (Suc i) # drop (i + 3) p"
      by (simp add: Cons_nth_drop_Suc numeral_3_eq_3)
    have r: "rd p i = Some (p ! i)" "rd p (i + 1) = Some (p ! Suc i)" using 4 by (simp_all add: rd_def)
    have d1: "drop (i + 2) p = p ! Suc (Suc i) # drop (i + 3) p" "drop (i + 1) p = p ! Suc i # p ! Suc (Suc i) # drop (i + 3) p"
      using 4 by (simp_all add: Cons_nth_drop_Suc numeral_3_eq_3)
    obtain e where e: "rd s j = Some e" using s by blast
    consider "p ! i = 0x5C" | "p ! i = 0x5D" | "p ! i \<noteq> 0x5C" "p ! i \<noteq> 0x5D" "p ! Suc i = 0x2D"
      | "p ! i \<noteq> 0x5C" "p ! i \<noteq> 0x5D" "p ! Suc i \<noteq> 0x2D" by blast
    then show ?thesis
    proof cases
      case 1
      then show ?thesis using "1.IH"(1) [OF r(1) 1 r(2) e] "1.prems" 4
        by (subst class_loop.simps) (simp add: d d1 [simplified] r e dangling_escape)
    next
      case 2
      then show ?thesis by (subst class_loop.simps) (simp add: d r dangling.simps(2))
    next
      case 3
      then show ?thesis using "1.IH"(2) [OF r(1) 3(1,2) _ e] "1.prems" 4 r(2)
        by (subst class_loop.simps) (simp add: d r e dangling.simps(2) [of "p ! i"])
    next
      case 4
      then show ?thesis using "1.IH"(3) [OF r(1) 4(1,2) _ e] "1.prems" \<open>Suc (Suc i) < length p\<close> r(2)
        by (subst class_loop.simps) (simp add: d d1 [simplified] r e dangling.simps(2) [of "p ! i"])
    qed
  qed
qed

lemma match_char_class:
  assumes "j \<le> length s"
  shows "match_char (pre @ 0x5B # body) s nocase (length pre) j 0x5B = None \<longleftrightarrow> dangling (class_text body)"
proof -
  let ?p = "pre @ 0x5B # body"
  have d: "drop (Suc (length pre)) ?p = body" "drop (Suc (Suc (length pre))) ?p = tl body" by (simp_all add: drop_Suc)
  have loop: "class_loop ?p s nocase j i False = None \<longleftrightarrow> dangling (drop i ?p)" if "i \<le> length ?p" for i
    by (rule class_loop_dangling [OF assms that])
  show ?thesis
  proof (cases body)
    case Nil
    then show ?thesis using loop [of "Suc (length pre)"]
      by (auto simp: match_char_def rd_def class_text_def bind_eq_None_conv split: prod.splits)
  next
    case (Cons c b)
    then have "rd ?p (length pre + 1) = Some c" by (simp add: rd_def nth_append)
    then show ?thesis using loop [of "Suc (length pre)"] loop [of "Suc (Suc (length pre))"] d Cons
      by (auto simp: match_char_def class_text_def bind_eq_None_conv split: prod.splits)
  qed
qed

lemma match_loop_literals:
  assumes "\<forall>c \<in> set lits. c \<notin> {0x2A, 0x3F, 0x5B, 0x5C}" and "s \<noteq> []" and "i \<le> length lits"
  shows "match_loop False (lits @ q) (lits @ s) nocase i i = match_loop False (lits @ q) (lits @ s) nocase (length lits) (length lits)"
  using assms(3)
proof (induction "length lits - i" arbitrary: i)
  case (Suc n)
  then have i: "i < length lits" by simp
  then have "lits ! i \<notin> {0x2A, 0x3F, 0x5B, 0x5C}" using assms(1) nth_mem by blast
  then have "match_char (lits @ q) (lits @ s) nocase i i (lits ! i) = Some (Some i)"
    using i by (simp add: match_char_def rd_def nth_append chr_eq_def)
  moreover have "rd (lits @ q) i = Some (lits ! i)" using i by (simp add: rd_def nth_append)
  moreover have "Suc i \<noteq> length (lits @ s)" using i assms(2) by (cases s) auto
  ultimately have "match_loop False (lits @ q) (lits @ s) nocase i i = match_loop False (lits @ q) (lits @ s) nocase (Suc i) (Suc i)"
    using i \<open>lits ! i \<notin> _\<close> by (subst match_loop.simps) simp
  then show ?case using Suc.hyps(1) [of "Suc i"] Suc.hyps(2) i by simp
qed simp

text \<open>
  C19. A class that is not closed and ends within an escape makes \<open>stringmatchlen\<close> read beyond the
  terminator of the pattern, whatever the string: the escape skips the terminator, on which the loop
  over the class would have stopped. Any literal bytes may precede the class, and it may be negated.
  These are the only classes on which the loop reads out of bounds.
\<close>

theorem stringmatchlen_class_overrun:
  assumes "\<forall>c \<in> set lits. c \<notin> {0x2A, 0x3F, 0x5B, 0x5C}" and "s \<noteq> []"
  shows "(dangling (class_text body) \<longrightarrow> stringmatchlen (lits @ 0x5B # body) (lits @ s) nocase = None) \<and>
    (\<not> dangling (class_text body) \<longrightarrow>
      match_char (lits @ 0x5B # body) (lits @ s) nocase (length lits) (length lits) 0x5B \<noteq> None)"
proof (intro conjI impI)
  show "match_char (lits @ 0x5B # body) (lits @ s) nocase (length lits) (length lits) 0x5B \<noteq> None"
    if "\<not> dangling (class_text body)"
    using that match_char_class [of "length lits" "lits @ s" lits body nocase] by simp
  assume "dangling (class_text body)"
  then have "match_char (lits @ 0x5B # body) (lits @ s) nocase (length lits) (length lits) 0x5B = None"
    using match_char_class [of "length lits" "lits @ s" lits body nocase] by simp
  moreover have "rd (lits @ 0x5B # body) (length lits) = Some 0x5B" by (simp add: rd_def)
  ultimately have "match_loop False (lits @ 0x5B # body) (lits @ s) nocase (length lits) (length lits) = None"
    by (subst match_loop.simps) simp
  with match_loop_literals [OF assms, of 0 "0x5B # body" nocase]
  show "stringmatchlen (lits @ 0x5B # body) (lits @ s) nocase = None" by (simp add: stringmatchlen_def)
qed

text \<open>\<open>a[b\\<close> against \<open>ab\<close>.\<close>

theorem stringmatchlen_class_overrun_witness:
  "dangling (class_text [0x62, 0x5C]) \<and> stringmatchlen [0x61, 0x5B, 0x62, 0x5C] [0x61, 0x62] False = None"
proof -
  have d: "dangling (class_text [0x62, 0x5C])" by (simp add: class_text_def dangling.simps(2))
  with stringmatchlen_class_overrun [of "[0x61]" "[0x62]" "[0x62, 0x5C]" False] show ?thesis by simp
qed

end
