(* ===== verification/Lzf.thy ===== *)
theory Lzf
  imports Bytes
begin

unbundle bit_operations_syntax

section \<open>LZF compression: \<open>lzf_c.c\<close> and \<open>lzf_d.c\<close>\<close>

text \<open>
  The compressor and decompressor of \<open>rdb.c\<close> and of the quicklists, in the configuration of
  \<open>lzfP.h\<close> (\<open>HLOG\<close> 16, \<open>VERY_FAST\<close>, offsets in the hash table, which is not initialised,
  \<open>CHECK_INPUT\<close>). Pointers are indexes into their buffers. \<open>None\<close> is an access outside a buffer. After a
  failed compression the output buffer, which no caller reads, is given back as it was.
\<close>

definition byte_put :: "bytes \<Rightarrow> nat \<Rightarrow> u8 \<Rightarrow> bytes option" where
  "byte_put m i b = (if i < length m then Some (m[i := b]) else None)"

definition MAX_LIT :: nat where "MAX_LIT = 32"

definition MAX_OFF :: nat where "MAX_OFF = 8192"

definition MAX_REF :: nat where "MAX_REF = 264"

subsection \<open>Compression\<close>

definition FRST :: "bytes \<Rightarrow> nat \<Rightarrow> u32 option" where
  "FRST inp p = do {
     a \<leftarrow> byte_at inp p;
     b \<leftarrow> byte_at inp (p + 1);
     Some (push_bit 8 (ucast a) OR ucast b)
   }"

definition NEXT :: "u32 \<Rightarrow> bytes \<Rightarrow> nat \<Rightarrow> u32 option" where
  "NEXT v inp p = do { c \<leftarrow> byte_at inp (p + 2); Some (push_bit 8 v OR ucast c) }"

definition IDX :: "u32 \<Rightarrow> nat" where
  "IDX h = unat ((drop_bit 8 h - h * 5) AND 0xFFFF)"

record lzf_state =
  c_htab :: "nat \<Rightarrow> nat"
  c_hval :: u32
  c_ip :: nat
  c_op :: nat
  c_lit :: nat
  c_out :: bytes

text \<open>The sixteen unrolled comparisons: the length reached, and whether all of them held.\<close>

fun match_upto :: "bytes \<Rightarrow> nat \<Rightarrow> nat \<Rightarrow> nat \<Rightarrow> nat \<Rightarrow> (nat \<times> bool) option" where
  "match_upto inp ref ip 0 len = Some (len, True)"
| "match_upto inp ref ip (Suc n) len = do {
     let len = len + 1;
     a \<leftarrow> byte_at inp (ref + len);
     b \<leftarrow> byte_at inp (ip + len);
     if a \<noteq> b then Some (len, False) else match_upto inp ref ip n len
   }"

text \<open>\<open>do len++; while (len < maxlen && ref[len] == ip[len]);\<close>\<close>

function match_more :: "bytes \<Rightarrow> nat \<Rightarrow> nat \<Rightarrow> nat \<Rightarrow> nat \<Rightarrow> nat option" where
  "match_more inp ref ip maxlen len =
     (if len + 1 < maxlen then
        (case (byte_at inp (ref + (len + 1)), byte_at inp (ip + (len + 1))) of
           (Some a, Some b) \<Rightarrow>
             if a = b then match_more inp ref ip maxlen (len + 1) else Some (len + 1)
         | _ \<Rightarrow> None)
      else Some (len + 1))"
  by pat_completeness auto
termination
  by (relation "measure (\<lambda>(_, _, _, maxlen, len). maxlen - len)") auto

declare match_more.simps [simp del]

definition match_len :: "bytes \<Rightarrow> nat \<Rightarrow> nat \<Rightarrow> nat option" where
  "match_len inp ref ip =
     (let len = 2; maxlen = length inp - ip - len; maxlen = (if maxlen > MAX_REF then MAX_REF else maxlen) in
      if maxlen > 16 then do {
        (len, more) \<leftarrow> match_upto inp ref ip 16 len;
        if more then match_more inp ref ip maxlen len else Some len
      }
      else match_more inp ref ip maxlen len)"

text \<open>\<open>op [- lit - 1] = lit - 1; op -= !lit\<close>: the run ends; an empty one is undone.\<close>

definition stop_run :: "lzf_state \<Rightarrow> lzf_state option" where
  "stop_run st = do {
     out \<leftarrow> byte_put (c_out st) (c_op st - c_lit st - 1) (of_nat (c_lit st) - 1);
     Some (st\<lparr>c_out := out, c_op := (if c_lit st = 0 then c_op st - 1 else c_op st)\<rparr>)
   }"

text \<open>One more literal byte; a run of the greatest length is closed and a new one started.\<close>

definition put_literal :: "bytes \<Rightarrow> lzf_state \<Rightarrow> lzf_state option" where
  "put_literal inp st = do {
     b \<leftarrow> byte_at inp (c_ip st);
     out \<leftarrow> byte_put (c_out st) (c_op st) b;
     let st = st\<lparr>c_lit := c_lit st + 1, c_out := out, c_op := c_op st + 1, c_ip := c_ip st + 1\<rparr>;
     if c_lit st = MAX_LIT then do {
       out \<leftarrow> byte_put (c_out st) (c_op st - c_lit st - 1) (of_nat (c_lit st) - 1);
       Some (st\<lparr>c_out := out, c_lit := 0, c_op := c_op st + 1\<rparr>)
     }
     else Some st
   }"

text \<open>A back reference of \<open>len + 2\<close> octets at distance \<open>off + 1\<close>, and the start of the next run.\<close>

definition put_backref :: "nat \<Rightarrow> nat \<Rightarrow> lzf_state \<Rightarrow> lzf_state option" where
  "put_backref off len st = do {
     (out, op) \<leftarrow> (if len < 7 then do {
          out \<leftarrow> byte_put (c_out st) (c_op st) (of_nat (off div 256 + len * 32));
          Some (out, c_op st + 1)
        } else do {
          out \<leftarrow> byte_put (c_out st) (c_op st) (of_nat (off div 256 + 7 * 32));
          out \<leftarrow> byte_put out (c_op st + 1) (of_nat (len - 7));
          Some (out, c_op st + 2)
        });
     out \<leftarrow> byte_put out op (of_nat off);
     Some (st\<lparr>c_out := out, c_op := op + 2, c_lit := 0, c_ip := c_ip st + len + 2\<rparr>)
   }"

text \<open>After a match the two positions before the new one are entered into the hash table.\<close>

definition rehash_two :: "bytes \<Rightarrow> lzf_state \<Rightarrow> lzf_state option" where
  "rehash_two inp st = do {
     let ip = c_ip st - 2;
     hval \<leftarrow> FRST inp ip;
     hval \<leftarrow> NEXT hval inp ip;
     let htab = (c_htab st)(IDX hval := ip);
     let ip = ip + 1;
     hval \<leftarrow> NEXT hval inp ip;
     let htab = htab(IDX hval := ip);
     Some (st\<lparr>c_htab := htab, c_hval := hval, c_ip := ip + 1\<rparr>)
   }"

text \<open>The test for a match at the position the hash table gives, the candidate \<open>ref\<close>.\<close>

definition match_found :: "bytes \<Rightarrow> nat \<Rightarrow> nat \<Rightarrow> bool option" where
  "match_found inp ref ip =
     (if ref < ip \<and> ip - ref - 1 < MAX_OFF \<and> ref > 0 then do {
        r2 \<leftarrow> byte_at inp (ref + 2); p2 \<leftarrow> byte_at inp (ip + 2);
        if r2 = p2 then do {
          r0 \<leftarrow> byte_at inp ref; r1 \<leftarrow> byte_at inp (ref + 1);
          p0 \<leftarrow> byte_at inp ip; p1 \<leftarrow> byte_at inp (ip + 1);
          Some (r0 = p0 \<and> r1 = p1)
        } else Some False
      } else Some False)"

text \<open>The conservative test for the room a back reference needs, then the exact one.\<close>

definition no_room :: "lzf_state \<Rightarrow> bool" where
  "no_room st \<longleftrightarrow> c_op st + 3 + 1 \<ge> length (c_out st) \<and>
     c_op st - (if c_lit st = 0 then 1 else 0) + 3 + 1 \<ge> length (c_out st)"

text \<open>
  The main loop; \<open>Some None\<close> is \<open>return 0\<close>. The pointer difference \<open>off\<close> is unsigned, so a
  candidate at or after \<open>ip\<close> makes it larger than any bound.
\<close>

partial_function (option) compress_loop :: "bytes \<Rightarrow> lzf_state \<Rightarrow> lzf_state option option" where
  "compress_loop inp st =
     (if c_ip st + 2 < length inp then do {
        hval \<leftarrow> NEXT (c_hval st) inp (c_ip st);
        let ref = c_htab st (IDX hval);
        let st = st\<lparr>c_hval := hval, c_htab := (c_htab st)(IDX hval := c_ip st)\<rparr>;
        found \<leftarrow> match_found inp ref (c_ip st);
        if found then
          (if no_room st then Some None
           else do {
             st \<leftarrow> stop_run st;
             len \<leftarrow> match_len inp ref (c_ip st);
             st \<leftarrow> put_backref (c_ip st - ref - 1) (len - 2) st;
             if c_ip st + 2 \<ge> length inp then Some (Some st)
             else do { st \<leftarrow> rehash_two inp st; compress_loop inp st }
           })
        else if c_op st \<ge> length (c_out st) then Some None
        else do { st \<leftarrow> put_literal inp st; compress_loop inp st }
      }
      else Some (Some st))"

text \<open>The loop over the bytes that are left, \<open>n\<close> of them.\<close>

fun compress_tail :: "bytes \<Rightarrow> nat \<Rightarrow> lzf_state \<Rightarrow> lzf_state option" where
  "compress_tail inp 0 st = Some st"
| "compress_tail inp (Suc n) st = do { st \<leftarrow> put_literal inp st; compress_tail inp n st }"

text \<open>The number of bytes written, 0 for failure, and the output buffer.\<close>

definition lzf_compress :: "(nat \<Rightarrow> nat) \<Rightarrow> bytes \<Rightarrow> bytes \<Rightarrow> (nat \<times> bytes) option" where
  "lzf_compress htab inp out =
     (if length inp = 0 \<or> length out = 0 then Some (0, out)
      else do {
        hval \<leftarrow> FRST inp 0;
        r \<leftarrow> compress_loop inp
          \<lparr>c_htab = htab, c_hval = hval, c_ip = 0, c_op = 1, c_lit = 0, c_out = out\<rparr>;
        case r of
          None \<Rightarrow> Some (0, out)
        | Some st \<Rightarrow>
            if c_op st + 3 > length (c_out st) then Some (0, out)
            else do {
              st \<leftarrow> compress_tail inp (length inp - c_ip st) st;
              st \<leftarrow> stop_run st;
              Some (c_op st, c_out st)
            }
      })"

subsection \<open>Decompression\<close>

datatype lzf_error = E2BIG | EINVAL

text \<open>
  The decompressor works on the input \<open>inp\<close>, read at \<open>ip\<close>, and the output buffer \<open>out\<close>, written at
  \<open>op\<close>. Every read and write is checked against its buffer; \<open>ref\<close> is an integer, since it may point
  before the output buffer. A run of literals is copied octet by octet.
\<close>

fun copy_literals :: "bytes \<Rightarrow> nat \<Rightarrow> nat \<Rightarrow> nat \<Rightarrow> bytes \<Rightarrow> bytes option" where
  "copy_literals inp ip op 0 out = Some out"
| "copy_literals inp ip op (Suc n) out = do {
     b \<leftarrow> byte_at inp ip;
     out \<leftarrow> byte_put out op b;
     copy_literals inp (Suc ip) (Suc op) n out
   }"

text \<open>\<open>do *op++ = *ref++; while (--len)\<close>: octet by octet, the source may grow into what is written.\<close>

fun copy_octets :: "int \<Rightarrow> nat \<Rightarrow> nat \<Rightarrow> bytes \<Rightarrow> bytes option" where
  "copy_octets ref op 0 out = Some out"
| "copy_octets ref op (Suc n) out = do {
     b \<leftarrow> (if ref < 0 then None else byte_at out (nat ref));
     out \<leftarrow> byte_put out op b;
     copy_octets (ref + 1) (Suc op) n out
   }"

text \<open>\<open>switch (len)\<close>: \<open>memcpy\<close> for a long reference to a disjoint area, octets otherwise.\<close>

definition copy_ref :: "int \<Rightarrow> nat \<Rightarrow> nat \<Rightarrow> bytes \<Rightarrow> bytes option" where
  "copy_ref ref op len out =
     (if len > 9 \<and> int op \<ge> ref + int (len + 2)
      then (if ref < 0 then None else do { bs \<leftarrow> mem_read out (nat ref) (len + 2); mem_write out op bs })
      else copy_octets ref op (len + 2) out)"

text \<open>The length of a back reference, from \<open>ctrl >> 5\<close> on: a seven is followed by one more byte.\<close>

definition read_len :: "bytes \<Rightarrow> nat \<Rightarrow> nat \<Rightarrow> (lzf_error + nat \<times> nat) option" where
  "read_len inp ip len =
     (if ip \<ge> length inp then Some (Inl EINVAL)
      else if len = 7 then do {
        b \<leftarrow> byte_at inp ip;
        if ip + 1 \<ge> length inp then Some (Inl EINVAL) else Some (Inr (len + unat b, ip + 1))
      }
      else Some (Inr (len, ip)))"

text \<open>One iteration of the loop, from \<open>ip\<close> and \<open>op\<close> to the next ones.\<close>

definition decompress_step :: "bytes \<Rightarrow> nat \<Rightarrow> nat \<Rightarrow> bytes \<Rightarrow> (lzf_error + nat \<times> nat \<times> bytes) option" where
  "decompress_step inp ip op out = do {
     c \<leftarrow> byte_at inp ip;
     let ip = ip + 1;
     let ctrl = unat c;
     if ctrl < 32 then
       (let ctrl = ctrl + 1 in
        if op + ctrl > length out then Some (Inl E2BIG)
        else if ip + ctrl > length inp then Some (Inl EINVAL)
        else do { out \<leftarrow> copy_literals inp ip op ctrl out; Some (Inr (ip + ctrl, op + ctrl, out)) })
     else do {
       let ref = int op - int (ctrl mod 32 * 256) - 1;
       r \<leftarrow> read_len inp ip (ctrl div 32);
       (case r of
          Inl e \<Rightarrow> Some (Inl e)
        | Inr (len, ip) \<Rightarrow> do {
            b \<leftarrow> byte_at inp ip;
            let ref = ref - int (unat b);
            if op + len + 2 > length out then Some (Inl E2BIG)
            else if ref < 0 then Some (Inl EINVAL)
            else do { out \<leftarrow> copy_ref ref op len out; Some (Inr (ip + 1, op + len + 2, out)) }
          })
     }
   }"

lemma read_len_ip: "read_len inp ip len = Some (Inr (len', ip')) \<Longrightarrow> ip \<le> ip'"
  by (auto simp: read_len_def split: if_splits bind_splits)

lemma decompress_step_ip:
  "decompress_step inp ip op out = Some (Inr (ip', op', out')) \<Longrightarrow> ip < ip' \<and> ip < length inp"
  by (auto simp: decompress_step_def byte_at_def Let_def split: if_splits bind_splits sum.splits dest: read_len_ip)

function decompress_loop :: "bytes \<Rightarrow> nat \<Rightarrow> nat \<Rightarrow> bytes \<Rightarrow> (lzf_error + nat \<times> bytes) option" where
  "decompress_loop inp ip op out =
     (case decompress_step inp ip op out of
        None \<Rightarrow> None
      | Some (Inl e) \<Rightarrow> Some (Inl e)
      | Some (Inr (ip, op, out)) \<Rightarrow> if ip < length inp then decompress_loop inp ip op out else Some (Inr (op, out)))"
  by pat_completeness auto
termination
  by (relation "measure (\<lambda>(inp, ip, _). length inp - ip)") (auto dest: decompress_step_ip)

declare decompress_loop.simps [simp del]

text \<open>The number of bytes written and the output buffer after them.\<close>

definition lzf_decompress :: "bytes \<Rightarrow> bytes \<Rightarrow> (lzf_error + nat \<times> bytes) option" where
  "lzf_decompress inp out = decompress_loop inp 0 0 out"

subsection \<open>Tokens\<close>

text \<open>
  \<open>emits tok out out'\<close>: the decompressor, having written \<open>out\<close>, reads \<open>tok\<close> and then has written \<open>out'\<close>,
  whatever surrounds the token and whatever the rest \<open>junk\<close> of the output buffer holds.
\<close>

definition emits :: "bytes \<Rightarrow> bytes \<Rightarrow> bytes \<Rightarrow> bool" where
  "emits tok out out' \<longleftrightarrow> tok \<noteq> [] \<and> (\<forall>pre rest junk. length out' \<le> length out + length junk \<longrightarrow>
     decompress_step (pre @ tok @ rest) (length pre) (length out) (out @ junk) =
       Some (Inr (length pre + length tok, length out', out' @ drop (length out' - length out) junk)))"

inductive stream :: "bytes \<Rightarrow> bytes \<Rightarrow> bool" where
  stream_Nil: "stream [] []"
| stream_snoc: "stream bs out \<Longrightarrow> emits tok out out' \<Longrightarrow> length out \<le> length out' \<Longrightarrow> stream (bs @ tok) out'"

lemma stream_decompress:
  "stream bs out \<Longrightarrow> length out \<le> length buf \<Longrightarrow> bs @ rest \<noteq> [] \<Longrightarrow>
     decompress_loop (bs @ rest) 0 0 buf =
       (if rest = [] then Some (Inr (length out, out @ drop (length out) buf))
        else decompress_loop (bs @ rest) (length bs) (length out) (out @ drop (length out) buf))"
proof (induction arbitrary: rest rule: stream.induct)
  case (stream_snoc bs out tok out')
  let ?buf = "out @ drop (length out) buf"
  have e: "decompress_step (bs @ tok @ rest) (length bs) (length out) ?buf =
      Some (Inr (length bs + length tok, length out', out' @ drop (length out') buf))" and ne: "tok \<noteq> []"
    using stream_snoc.hyps(2,3) stream_snoc.prems(1) by (simp_all add: emits_def)
  have "decompress_loop (bs @ tok @ rest) 0 0 buf = decompress_loop (bs @ tok @ rest) (length bs) (length out) ?buf"
    using stream_snoc.IH [of "tok @ rest"] stream_snoc.hyps(3) stream_snoc.prems ne by auto
  also have "\<dots> = (if rest = [] then Some (Inr (length out', out' @ drop (length out') buf))
      else decompress_loop (bs @ tok @ rest) (length bs + length tok) (length out') (out' @ drop (length out') buf))"
    using e by (subst decompress_loop.simps) simp
  finally show ?case by simp
qed simp

lemma byte_put_at: "byte_put (xs @ y # ys) (length xs) b = Some (xs @ b # ys)"
  by (simp add: byte_put_def)

lemma copy_literals_spec:
  "copy_literals (pre @ xs @ rest) (length pre) (length out) (length xs) (out @ junk) = Some (out @ xs @ drop (length xs) junk)"
  if "length xs \<le> length junk"
  using that
proof (induction xs arbitrary: pre out junk)
  case (Cons x xs)
  obtain y ys where j: "junk = y # ys" using Cons.prems by (cases junk) auto
  have "byte_at (pre @ (x # xs) @ rest) (length pre) = Some x" by (simp add: byte_at_def)
  then show ?case using Cons.IH [of ys "pre @ [x]" "out @ [x]"] Cons.prems by (simp add: j byte_put_at)
qed simp

lemma emits_literal:
  assumes "0 < length xs" and "length xs \<le> 32"
  shows "emits ((of_nat (length xs) - 1) # xs) out (out @ xs)"
proof -
  have u: "unat (of_nat (length xs) - 1 :: u8) = length xs - 1"
  proof -
    obtain k where "length xs = Suc k" using assms(1) by (cases "length xs") auto
    with assms(2) show ?thesis by (simp add: unsigned_of_nat take_bit_nat_eq_self)
  qed
  define c :: u8 where "c = of_nat (length xs) - 1"
  have "decompress_step (pre @ (c # xs) @ rest) (length pre) (length out) (out @ junk) =
      Some (Inr (length pre + length (c # xs), length (out @ xs), (out @ xs) @ drop (length xs) junk))"
    if "length xs \<le> length junk" for pre rest junk
  proof -
    have "byte_at (pre @ (c # xs) @ rest) (length pre) = Some c" by (simp add: byte_at_def)
    moreover have "length xs - Suc 0 < 32" using assms by simp
    ultimately show ?thesis
      using u assms that copy_literals_spec [of xs junk "pre @ [c]" rest out] by (simp add: decompress_step_def Let_def c_def)
  qed
  then show ?thesis by (simp add: emits_def c_def)
qed

lemma copy_octets_prefix:
  assumes "ref < ip" and "ip + n \<le> length inp" and "\<forall>k < n. inp ! (ref + k) = inp ! (ip + k)" and "n \<le> length junk"
  shows "copy_octets (int ref) ip n (take ip inp @ junk) = Some (take (ip + n) inp @ drop n junk)"
  using assms
proof (induction n arbitrary: ref ip junk)
  case (Suc n)
  obtain y ys where j: "junk = y # ys" using Suc.prems(4) by (cases junk) auto
  have l: "length (take ip inp) = ip" using Suc.prems(2) by simp
  have r: "byte_at (take ip inp @ junk) ref = Some (inp ! ip)"
    using Suc.prems(1,2) Suc.prems(3) [rule_format, of 0] by (simp add: byte_at_def nth_append)
  have w: "byte_put (take ip inp @ junk) ip (inp ! ip) = Some (take (Suc ip) inp @ ys)"
    using byte_put_at [of "take ip inp" y ys "inp ! ip"] l Suc.prems(2) by (simp add: j take_Suc_conv_app_nth)
  have "\<forall>k < n. inp ! (Suc ref + k) = inp ! (Suc ip + k)"
  proof (intro allI impI)
    fix k assume "k < n"
    then show "inp ! (Suc ref + k) = inp ! (Suc ip + k)" using Suc.prems(3) [rule_format, of "Suc k"] by simp
  qed
  then have "copy_octets (int (Suc ref)) (Suc ip) n (take (Suc ip) inp @ ys) = Some (take (Suc ip + n) inp @ drop n ys)"
    using Suc.IH [of "Suc ref" "Suc ip" ys] Suc.prems(1,2,4) j by simp
  then show ?case using r w by (simp add: j add.commute)
qed simp

lemma unat_of_nat_u8: "unat (of_nat n :: u8) = n mod 256"
  by (simp add: unsigned_of_nat take_bit_eq_mod)

lemma copy_ref_prefix:
  assumes "ref < ip" and "ip + (len + 2) \<le> length inp" and "\<forall>k < len + 2. inp ! (ref + k) = inp ! (ip + k)" and "len + 2 \<le> length junk"
  shows "copy_ref (int ref) ip len (take ip inp @ junk) = Some (take (ip + (len + 2)) inp @ drop (len + 2) junk)"
proof (cases "len > 9 \<and> ip \<ge> ref + (len + 2)")
  case True
  have "take (len + 2) (drop ref (take ip inp @ junk)) = take (len + 2) (drop ip inp)"
    using True assms(1,2,3) by (intro nth_equalityI) (auto simp: nth_append)
  then have "mem_read (take ip inp @ junk) ref (len + 2) = Some (take (len + 2) (drop ip inp))"
    using True assms(2) by (simp add: mem_read_def)
  moreover have "mem_write (take ip inp @ junk) ip (take (len + 2) (drop ip inp)) = Some (take (ip + (len + 2)) inp @ drop (len + 2) junk)"
    using assms(2,4) by (simp add: mem_write_def take_add del: add_2_eq_Suc')
  ultimately show ?thesis using True by (simp add: copy_ref_def)
next
  case False
  then show ?thesis using copy_octets_prefix [OF assms] by (auto simp: copy_ref_def)
qed

definition backref_bytes :: "nat \<Rightarrow> nat \<Rightarrow> bytes" where
  "backref_bytes off len =
     (if len < 7 then [of_nat (off div 256 + len * 32), of_nat off]
      else [of_nat (off div 256 + 7 * 32), of_nat (len - 7), of_nat off])"

lemma emits_backref:
  assumes "ref < ip" and off: "ip - ref - 1 < MAX_OFF" and len: "1 \<le> len" "len \<le> 262"
    and ip: "ip + (len + 2) \<le> length inp" and m: "\<forall>k < len + 2. inp ! (ref + k) = inp ! (ip + k)"
  shows "emits (backref_bytes (ip - ref - 1) len) (take ip inp) (take (ip + (len + 2)) inp)"
proof -
  define o' where "o' = ip - ref - 1"
  define l where "l = min len 7"
  have hi: "o' div 256 < 32" using off by (simp add: o'_def MAX_OFF_def less_mult_imp_div_less)
  have l: "1 \<le> l" "l \<le> 7" using len by (simp_all add: l_def)
  have c: "unat (of_nat (o' div 256 + l * 32) :: u8) = o' div 256 + l * 32"
    using hi l by (simp only: unat_of_nat_u8) simp
  have cd: "(o' div 256 + l * 32) div 32 = l" "(o' div 256 + l * 32) mod 32 = o' div 256" using hi by simp_all
  have "o' div 256 * 256 + o' mod 256 = o'" by simp
  then have "int (o' div 256) * 256 + int (o' mod 256) = int o'" by (metis of_nat_add of_nat_mult of_nat_numeral)
  moreover have "uint (of_nat o' :: u8) = int (o' mod 256)" by (simp only: uint_nat unat_of_nat_u8)
  ultimately have r: "int ip - int (o' div 256) * 256 - 1 - uint (of_nat o' :: u8) = int ref"
    using assms(1) by (simp add: o'_def of_nat_diff)
  have out: "length (take ip inp) = ip" using ip by simp
  have step: "decompress_step (pre @ backref_bytes o' len @ rest) (length pre) ip (take ip inp @ junk) =
      Some (Inr (length pre + length (backref_bytes o' len), ip + (len + 2), take (ip + (len + 2)) inp @ drop (len + 2) junk))"
    if j: "len + 2 \<le> length junk" for pre rest junk
  proof -
    note res = copy_ref_prefix [OF assms(1) ip m j]
    show ?thesis
    proof (cases "len < 7")
      case True
      then have "l = len" by (simp add: l_def)
      then show ?thesis
        using True c cd r res l(1) j out unfolding decompress_step_def backref_bytes_def
        by (simp add: Let_def read_len_def byte_at_def nth_append unat_of_nat_u8 del: length_take)
    next
      case False
      define k where "k = len - 7"
      then have k: "len = 7 + k" "k < 256" using False len by simp_all
      then have "l = 7" by (simp add: l_def)
      then show ?thesis
        using c cd r res k j out unfolding decompress_step_def backref_bytes_def
        by (simp add: Let_def read_len_def byte_at_def nth_append unat_of_nat_u8 del: length_take)
    qed
  qed
  have "backref_bytes o' len \<noteq> []" by (simp add: backref_bytes_def)
  then show ?thesis using step ip out by (simp add: emits_def o'_def)
qed

subsection \<open>The length of a match\<close>

definition matches :: "bytes \<Rightarrow> nat \<Rightarrow> nat \<Rightarrow> nat \<Rightarrow> bool" where
  "matches inp ref ip n \<longleftrightarrow> ip + n \<le> length inp \<and> (\<forall>k < n. inp ! (ref + k) = inp ! (ip + k))"

lemma matches_Suc:
  "matches inp ref ip n \<Longrightarrow> ip + n < length inp \<Longrightarrow> inp ! (ref + n) = inp ! (ip + n) \<Longrightarrow> matches inp ref ip (Suc n)"
  by (auto simp: matches_def less_Suc_eq)

lemma match_upto_spec:
  assumes "matches inp ref ip (len + 1)" and "ref < ip" and "ip + len + n < length inp"
  shows "\<exists>l b. match_upto inp ref ip n len = Some (l, b) \<and> len \<le> l \<and> l \<le> len + n \<and>
     (if b then l = len + n \<and> matches inp ref ip (l + 1) else len < l \<and> matches inp ref ip l)"
  using assms
proof (induction n arbitrary: len)
  case (Suc n)
  have at: "byte_at inp (ref + (len + 1)) = Some (inp ! (ref + (len + 1)))"
    "byte_at inp (ip + (len + 1)) = Some (inp ! (ip + (len + 1)))"
    using Suc.prems by (simp_all add: byte_at_def)
  show ?case
  proof (cases "inp ! (ref + (len + 1)) = inp ! (ip + (len + 1))")
    case False
    then show ?thesis using at Suc.prems(1) by (intro exI [of _ "len + 1"] exI [of _ False]) simp
  next
    case True
    then have "matches inp ref ip (len + 1 + 1)" using matches_Suc Suc.prems by simp
    with Suc.IH [of "len + 1"] Suc.prems at True show ?thesis by fastforce
  qed
qed auto

lemma match_more_spec:
  assumes "matches inp ref ip (len + 1)" and "ref < ip" and "ip + maxlen + 2 \<le> length inp"
  shows "\<exists>l. match_more inp ref ip maxlen len = Some l \<and> len < l \<and> l \<le> max maxlen (len + 1) \<and> matches inp ref ip l"
  using assms(1)
proof (induction "maxlen - len" arbitrary: len rule: less_induct)
  case less
  show ?case
  proof (cases "len + 1 < maxlen")
    case False
    then show ?thesis using less.prems by (subst match_more.simps) auto
  next
    case True
    have at: "byte_at inp (ref + (len + 1)) = Some (inp ! (ref + (len + 1)))"
      "byte_at inp (ip + (len + 1)) = Some (inp ! (ip + (len + 1)))"
      using True assms(2,3) by (simp_all add: byte_at_def)
    show ?thesis
    proof (cases "inp ! (ref + (len + 1)) = inp ! (ip + (len + 1))")
      case eq: True
      then have "matches inp ref ip (len + 1 + 1)" using matches_Suc less.prems True assms(3) by simp
      moreover have "maxlen - (len + 1) < maxlen - len" using True by simp
      ultimately obtain l where
        "match_more inp ref ip maxlen (len + 1) = Some l" "len + 1 < l" "l \<le> max maxlen (len + 1 + 1)"
        "matches inp ref ip l" using less.hyps [of "len + 1"] by blast
      then show ?thesis using at eq True by (subst match_more.simps) auto
    next
      case False
      then show ?thesis using at True less.prems by (subst match_more.simps) auto
    qed
  qed
qed

lemma match_len_spec:
  assumes "matches inp ref ip 3" and "ref < ip"
  shows "\<exists>l. match_len inp ref ip = Some l \<and> 3 \<le> l \<and> l \<le> 264 \<and> matches inp ref ip l"
proof -
  define mx where "mx = (if length inp - ip - 2 > MAX_REF then MAX_REF else length inp - ip - 2)"
  have i3: "ip + 3 \<le> length inp" using assms(1) by (simp add: matches_def)
  then have mx: "ip + mx + 2 \<le> length inp" "mx \<le> 264" by (auto simp: mx_def MAX_REF_def)
  have ml: "match_len inp ref ip = (if mx > 16 then do {
        (len, more) \<leftarrow> match_upto inp ref ip 16 2;
        if more then match_more inp ref ip mx len else Some len
      } else match_more inp ref ip mx 2)"
    unfolding match_len_def Let_def mx_def by (rule refl)
  have m3: "matches inp ref ip (2 + 1)" using assms(1) by simp
  show ?thesis
  proof (cases "mx > 16")
    case False
    then show ?thesis using match_more_spec [OF m3 assms(2) mx(1)] ml mx(2) by force
  next
    case True
    then have "ip + 2 + 16 < length inp" using mx(1) by simp
    then obtain l b where u: "match_upto inp ref ip 16 2 = Some (l, b)" "2 \<le> l" "l \<le> 2 + 16"
      "if b then l = 2 + 16 \<and> matches inp ref ip (l + 1) else 2 < l \<and> matches inp ref ip l"
      using match_upto_spec [OF m3 assms(2), of 16] by auto
    show ?thesis
    proof (cases b)
      case False
      then show ?thesis using u ml True by auto
    next
      case more: True
      with u(4) have "matches inp ref ip (l + 1)" by auto
      from match_more_spec [OF this assms(2) mx(1)] u ml True more mx(2) show ?thesis by force
    qed
  qed
qed

subsection \<open>The invariant of the compressor\<close>

text \<open>
  What has been written before the control byte of the current run decompresses to the input
  before the run, and the literals of the run follow the control byte.
\<close>

definition cinv :: "bytes \<Rightarrow> lzf_state \<Rightarrow> bool" where
  "cinv inp st \<longleftrightarrow> c_ip st \<le> length inp \<and> c_lit st < 32 \<and> c_lit st \<le> c_ip st \<and> c_lit st < c_op st \<and>
     (c_lit st > 0 \<longrightarrow> c_op st \<le> length (c_out st)) \<and>
     stream (take (c_op st - c_lit st - 1) (c_out st)) (take (c_ip st - c_lit st) inp) \<and>
     take (c_lit st) (drop (c_op st - c_lit st) (c_out st)) = take (c_lit st) (drop (c_ip st - c_lit st) inp)"

lemma close_run:
  assumes "stream (take i out) o'" and "0 < lit" "lit \<le> 32" and "i + 1 + lit \<le> length out"
  shows "stream (take (i + 1 + lit) (out[i := of_nat lit - 1])) (o' @ take lit (drop (i + 1) out))"
proof -
  let ?xs = "take lit (drop (i + 1) out)"
  have "length ?xs = lit" using assms(4) by simp
  moreover from this have "take (i + 1 + lit) (out[i := of_nat lit - 1]) = take i out @ (of_nat lit - 1) # ?xs"
    using assms(4) by (simp add: upd_conv_take_nth_drop min_def take_Cons')
  ultimately show ?thesis
    using stream_snoc [OF assms(1) emits_literal [of ?xs o']] assms(2,3) by simp
qed

lemma snoc_run:
  "Suc (i + lit) < length out \<Longrightarrow>
     take (Suc lit) (drop (Suc i) (out[Suc (i + lit) := b])) = take lit (drop (Suc i) out) @ [b]"
  by (simp add: drop_update_swap take_Suc_conv_app_nth)

lemma put_literal_spec:
  assumes inv: "cinv inp st" and "c_ip st < length inp" and op: "c_op st < length (c_out st)"
  shows "\<exists>st'. put_literal inp st = Some st' \<and> cinv inp st' \<and> c_ip st' = c_ip st + 1 \<and>
     length (c_out st') = length (c_out st) \<and> c_op st' \<le> c_op st + 2 \<and> (c_op st' \<le> c_op st + 1 \<or> c_lit st' = 0) \<and>
     (c_lit st = 0 \<longrightarrow> c_op st' \<le> c_op st + 1)"
proof -
  let ?b = "inp ! c_ip st" and ?out = "(c_out st)[c_op st := inp ! c_ip st]" and ?lit = "c_lit st"
  let ?i = "c_op st - ?lit - 1"
  have i: "c_op st = ?i + 1 + ?lit" "c_lit st \<le> c_ip st" using inv by (simp_all add: cinv_def)
  have e: "?i + 1 = c_op st - ?lit" using i(1) by linarith
  have str: "stream (take ?i ?out) (take (c_ip st - ?lit) inp)" using inv i(1) by (simp add: cinv_def)
  have lits: "take (?lit + 1) (drop (?i + 1) ?out) = take (?lit + 1) (drop (c_ip st - ?lit) inp)"
  proof -
    have "take ?lit (drop (?i + 1) (c_out st)) = take ?lit (drop (c_ip st - ?lit) inp)"
      using inv unfolding e by (simp add: cinv_def)
    moreover have eq: "Suc (?i + ?lit) = c_op st" using i(1) by linarith
    have "take (?lit + 1) (drop (?i + 1) ?out) = take ?lit (drop (?i + 1) (c_out st)) @ [?b]"
      using snoc_run [of ?i ?lit "c_out st" ?b, unfolded eq] op by simp
    moreover have "take (?lit + 1) (drop (c_ip st - ?lit) inp) = take ?lit (drop (c_ip st - ?lit) inp) @ [?b]"
      using i(2) assms(2) by (simp add: take_Suc_conv_app_nth)
    ultimately show ?thesis by simp
  qed
  let ?st = "st\<lparr>c_lit := ?lit + 1, c_out := ?out, c_op := c_op st + 1, c_ip := c_ip st + 1\<rparr>"
  have put: "put_literal inp st = (if ?lit + 1 = MAX_LIT then do {
       out \<leftarrow> byte_put ?out ?i (of_nat (?lit + 1) - 1);
       Some (?st\<lparr>c_out := out, c_lit := 0, c_op := c_op st + 1 + 1\<rparr>)
     } else Some ?st)"
    using assms(2) op i(1) by (simp add: put_literal_def byte_at_def byte_put_def Let_def)
  show ?thesis
  proof (cases "?lit + 1 = MAX_LIT")
    case False
    then have "?lit + 1 < 32" using inv by (simp add: cinv_def MAX_LIT_def)
    then have "cinv inp ?st" using inv str lits [unfolded e] i(2) op assms(2) by (simp add: cinv_def)
    then show ?thesis using put False by simp
  next
    case True
    have "stream (take (?i + 1 + (?lit + 1)) (?out[?i := of_nat (?lit + 1) - 1]))
        (take (c_ip st - ?lit) inp @ take (?lit + 1) (drop (?i + 1) ?out))"
      by (rule close_run [OF str]) (use True i(1) op in \<open>simp_all add: MAX_LIT_def\<close>)
    moreover have "take (c_ip st - ?lit) inp @ take (?lit + 1) (drop (?i + 1) ?out) = take (c_ip st + 1) inp"
      unfolding lits using i(2) by (simp flip: take_add)
    ultimately have s: "stream (take (c_op st + 1) (?out[?i := of_nat (?lit + 1) - 1])) (take (c_ip st + 1) inp)"
      using i(1) by simp
    then show ?thesis
      using put True i(1) op assms(2) by (simp add: byte_put_def cinv_def MAX_LIT_def)
  qed
qed

lemma stop_run_spec:
  assumes inv: "cinv inp st" and op: "c_op st \<le> length (c_out st)"
  shows "\<exists>out. stop_run st = Some (st\<lparr>c_out := out, c_op := (if c_lit st = 0 then c_op st - 1 else c_op st)\<rparr>) \<and>
     length out = length (c_out st) \<and>
     stream (take (if c_lit st = 0 then c_op st - 1 else c_op st) out) (take (c_ip st) inp)"
proof -
  let ?lit = "c_lit st" and ?i = "c_op st - c_lit st - 1"
  have i: "c_op st = ?i + 1 + ?lit" "c_lit st \<le> c_ip st" using inv by (simp_all add: cinv_def)
  have e: "?i + 1 = c_op st - ?lit" using i(1) by linarith
  have str: "stream (take ?i (c_out st)) (take (c_ip st - ?lit) inp)"
    and lits: "take ?lit (drop (?i + 1) (c_out st)) = take ?lit (drop (c_ip st - ?lit) inp)"
    using inv unfolding e by (simp_all add: cinv_def)
  have "stream (take (if ?lit = 0 then c_op st - 1 else c_op st) ((c_out st)[?i := of_nat ?lit - 1])) (take (c_ip st) inp)"
  proof (cases "?lit = 0")
    case True
    then show ?thesis using str by simp
  next
    case False
    have "stream (take (?i + 1 + ?lit) ((c_out st)[?i := of_nat ?lit - 1]))
        (take (c_ip st - ?lit) inp @ take ?lit (drop (?i + 1) (c_out st)))"
      by (rule close_run [OF str]) (use False i(1) op inv in \<open>simp_all add: cinv_def\<close>)
    then show ?thesis unfolding lits using False i by (simp flip: take_add)
  qed
  then show ?thesis
    using i(1) op by (intro exI [of _ "(c_out st)[?i := of_nat ?lit - 1]"]) (simp add: stop_run_def byte_put_def)
qed

lemma three_Cons: "3 \<le> length xs \<Longrightarrow> \<exists>a b c ys. xs = a # b # c # ys"
  by (auto simp: Suc_le_length_iff numeral_3_eq_3)

lemma put_backref_spec:
  assumes str: "stream (take (c_op st) (c_out st)) (take (c_ip st) inp)"
    and room: "c_op st + 4 < length (c_out st)"
    and ref: "ref < c_ip st" "c_ip st - ref - 1 < MAX_OFF"
    and m: "matches inp ref (c_ip st) (len + 2)" and len: "1 \<le> len" "len \<le> 262"
  shows "\<exists>st'. put_backref (c_ip st - ref - 1) len st = Some st' \<and> cinv inp st' \<and>
     c_ip st' = c_ip st + (len + 2) \<and> length (c_out st') = length (c_out st) \<and> c_op st' \<le> length (c_out st)"
proof -
  let ?off = "c_ip st - ref - 1" and ?op = "c_op st" and ?out = "c_out st"
  let ?tok = "backref_bytes ?off len"
  let ?n = "length ?tok"
  have n: "?n \<le> 3" "2 \<le> ?n" by (simp_all add: backref_bytes_def)
  let ?out' = "take ?op ?out @ ?tok @ drop (?op + ?n) ?out"
  have len': "length ?out' = length ?out" using room n by simp
  have "put_backref ?off len st = Some (st\<lparr>c_out := ?out', c_op := ?op + ?n + 1, c_lit := 0, c_ip := c_ip st + len + 2\<rparr>)"
  proof -
    have three: "3 \<le> length (drop ?op ?out)" using room by simp
    obtain c1 c2 c3 D where D: "drop ?op ?out = c1 # c2 # c3 # D"
      using three_Cons [OF three] by blast
    define A where "A = take ?op ?out"
    have out: "?out = A @ c1 # c2 # c3 # D" and op: "?op = length A"
      using D room by (simp_all add: A_def) (metis append_take_drop_id)
    show ?thesis
      unfolding out op by (simp add: put_backref_def backref_bytes_def byte_put_def out op list_update_append nth_append split: nat.splits)
  qed
  moreover have "stream (take ?op ?out @ ?tok) (take (c_ip st + (len + 2)) inp)"
    using m by (intro stream_snoc [OF str emits_backref]) (use ref len in \<open>simp_all add: matches_def\<close>)
  then have "cinv inp (st\<lparr>c_out := ?out', c_op := ?op + ?n + 1, c_lit := 0, c_ip := c_ip st + len + 2\<rparr>)"
    using m room n by (simp add: cinv_def matches_def)
  ultimately show ?thesis using room n len' by simp
qed

subsection \<open>The whole compressor\<close>

lemma match_found_spec:
  assumes "ip + 2 < length inp"
  shows "\<exists>b. match_found inp ref ip = Some b \<and>
     (b \<longrightarrow> ref < ip \<and> ip - ref - 1 < MAX_OFF \<and> matches inp ref ip 3)"
proof (cases "ref < ip \<and> ip - ref - 1 < MAX_OFF \<and> ref > 0")
  case False
  then show ?thesis by (auto simp: match_found_def)
next
  case True
  then have at: "byte_at inp ref = Some (inp ! ref)" "byte_at inp (ref + 1) = Some (inp ! (ref + 1))"
    "byte_at inp (ref + 2) = Some (inp ! (ref + 2))" "byte_at inp ip = Some (inp ! ip)"
    "byte_at inp (ip + 1) = Some (inp ! (ip + 1))" "byte_at inp (ip + 2) = Some (inp ! (ip + 2))"
    using assms by (simp_all add: byte_at_def)
  let ?b = "inp ! ref = inp ! ip \<and> inp ! (ref + 1) = inp ! (ip + 1) \<and> inp ! (ref + 2) = inp ! (ip + 2)"
  have "match_found inp ref ip = Some ?b"
    using True at unfolding match_found_def by auto
  moreover have "?b \<Longrightarrow> matches inp ref ip 3"
    using assms by (auto simp: matches_def numeral_3_eq_3 less_Suc_eq)
  ultimately show ?thesis using True by blast
qed

lemma rehash_two_spec:
  assumes "cinv inp st" and "2 \<le> c_ip st" and "c_ip st + 2 < length inp"
  shows "\<exists>htab hval. rehash_two inp st = Some (st\<lparr>c_htab := htab, c_hval := hval, c_ip := c_ip st\<rparr>)"
proof -
  obtain i where i: "c_ip st = Suc (Suc i)" using assms(2) by (metis add_2_eq_Suc le_Suc_ex)
  then have "byte_at inp i \<noteq> None" "byte_at inp (i + 1) \<noteq> None" "byte_at inp (i + 2) \<noteq> None" "byte_at inp (i + 1 + 2) \<noteq> None"
    using assms(3) by (simp_all add: byte_at_def)
  then show ?thesis using i by (auto simp: rehash_two_def FRST_def NEXT_def Let_def) (intro exI, rule refl)
qed

lemma cinv_tables [simp]: "cinv inp (st\<lparr>c_htab := h, c_hval := v, c_ip := c_ip st\<rparr>) = cinv inp st"
  by (simp add: cinv_def)

text \<open>Ending the run and writing a back reference, when the test for room has passed.\<close>

lemma compress_match:
  assumes inv: "cinv inp st" and ref: "ref < c_ip st" "c_ip st - ref - 1 < MAX_OFF"
    and m: "matches inp ref (c_ip st) 3"
    and room: "\<not> no_room st"
  shows "\<exists>st2 l st3. stop_run st = Some st2 \<and> c_ip st2 = c_ip st \<and> match_len inp ref (c_ip st) = Some l \<and> 3 \<le> l \<and>
     put_backref (c_ip st - ref - 1) (l - 2) st2 = Some st3 \<and> cinv inp st3 \<and>
     c_ip st3 = c_ip st + l \<and> length (c_out st3) = length (c_out st)"
proof -
  let ?op = "if c_lit st = 0 then c_op st - 1 else c_op st"
  have "c_op st > 0" using inv by (simp add: cinv_def)
  then have room': "?op + 4 < length (c_out st)" "c_op st \<le> length (c_out st)"
    using room by (auto simp: no_room_def split: if_splits)
  obtain out where sr: "stop_run st = Some (st\<lparr>c_out := out, c_op := ?op\<rparr>)"
     "length out = length (c_out st)" "stream (take ?op out) (take (c_ip st) inp)"
    using stop_run_spec [OF inv room'(2)] by blast
  obtain l where l: "match_len inp ref (c_ip st) = Some l" "3 \<le> l" "l \<le> 264" "matches inp ref (c_ip st) l"
    using match_len_spec [OF m ref(1)] by blast
  let ?st = "st\<lparr>c_out := out, c_op := ?op\<rparr>"
  have len: "l - 2 + 2 = l" "1 \<le> l - 2" "l - 2 \<le> 262" using l by simp_all
  have "\<exists>st'. put_backref (c_ip ?st - ref - 1) (l - 2) ?st = Some st' \<and> cinv inp st' \<and>
     c_ip st' = c_ip ?st + (l - 2 + 2) \<and> length (c_out st') = length (c_out ?st) \<and> c_op st' \<le> length (c_out ?st)"
    by (rule put_backref_spec) (use sr room' ref l(4) len in simp_all)
  then obtain st3 where "put_backref (c_ip st - ref - 1) (l - 2) ?st = Some st3" "cinv inp st3"
      "c_ip st3 = c_ip st + l" "length (c_out st3) = length (c_out st)"
    using len(1) sr(2) by auto
  with sr(1) l(1,2) show ?thesis by auto
qed

lemma compress_loop_spec:
  assumes "cinv inp st"
  shows "\<exists>r. compress_loop inp st = Some r \<and> (case r of None \<Rightarrow> True
     | Some st' \<Rightarrow> cinv inp st' \<and> c_ip st' + 2 \<ge> length inp \<and> length (c_out st') = length (c_out st))"
  using assms
proof (induction "length inp - c_ip st" arbitrary: st rule: less_induct)
  case less
  show ?case
  proof (cases "c_ip st + 2 < length inp")
    case False
    then show ?thesis using less.prems by (subst compress_loop.simps) auto
  next
    case True
    obtain hval where hv: "NEXT (c_hval st) inp (c_ip st) = Some hval" using True by (simp add: NEXT_def byte_at_def)
    define st1 where "st1 = st\<lparr>c_hval := hval, c_htab := (c_htab st)(IDX hval := c_ip st)\<rparr>"
    define ref where "ref = c_htab st (IDX hval)"
    have inv1: "cinv inp st1" using less.prems by (simp add: st1_def cinv_def)
    have s1: "c_ip st1 = c_ip st" "c_out st1 = c_out st" "c_op st1 = c_op st" "c_lit st1 = c_lit st"
      by (simp_all add: st1_def)
    obtain found where f: "match_found inp ref (c_ip st) = Some found"
      "found \<longrightarrow> ref < c_ip st \<and> c_ip st - ref - 1 < MAX_OFF \<and> matches inp ref (c_ip st) 3"
      using match_found_spec [OF True] by blast
    have rec: "\<exists>r. compress_loop inp st' = Some r \<and> (case r of None \<Rightarrow> True
       | Some st' \<Rightarrow> cinv inp st' \<and> c_ip st' + 2 \<ge> length inp \<and> length (c_out st') = length (c_out st))"
      if "cinv inp st'" "c_ip st < c_ip st'" "length (c_out st') = length (c_out st)" for st'
    proof -
      have "length inp - c_ip st' < length inp - c_ip st" using that(2) True by simp
      from less.hyps [OF this that(1)] show ?thesis unfolding that(3) .
    qed
    show ?thesis
    proof (cases found)
      case False
      show ?thesis
      proof (cases "c_op st \<ge> length (c_out st)")
        case full: True
        then show ?thesis using True hv f(1) False s1
          by (subst compress_loop.simps) (simp add: Let_def flip: st1_def ref_def)
      next
        case room: False
        then obtain st2 where p: "put_literal inp st1 = Some st2" "cinv inp st2" "c_ip st2 = c_ip st + 1"
            "length (c_out st2) = length (c_out st)"
          using put_literal_spec [OF inv1] s1 True by auto
        have "compress_loop inp st = compress_loop inp st2"
          using True hv f(1) False s1 room p(1)
          by (subst compress_loop.simps) (simp add: Let_def flip: st1_def ref_def)
        then show ?thesis using rec [OF p(2)] p(3,4) by simp
      qed
    next
      case match: True
      show ?thesis
      proof (cases "no_room st1")
        case full: True
        then show ?thesis using True hv f(1) match s1
          by (subst compress_loop.simps) (simp add: Let_def flip: st1_def ref_def)
      next
        case room: False
        have "ref < c_ip st1" "c_ip st1 - ref - 1 < MAX_OFF" "matches inp ref (c_ip st1) 3"
          using f(2) match s1 by simp_all
        from compress_match [OF inv1 this] room s1 obtain st2 l st3 where
          b: "stop_run st1 = Some st2" "c_ip st2 = c_ip st" "match_len inp ref (c_ip st) = Some l" "3 \<le> l"
            "put_backref (c_ip st - ref - 1) (l - 2) st2 = Some st3" "cinv inp st3"
            "c_ip st3 = c_ip st + l" "length (c_out st3) = length (c_out st)" by auto
        have step: "compress_loop inp st = (if c_ip st3 + 2 \<ge> length inp then Some (Some st3)
             else do { st \<leftarrow> rehash_two inp st3; compress_loop inp st })"
          using True hv f(1) match s1 room b(1-5)
          by (subst compress_loop.simps) (simp add: Let_def flip: st1_def ref_def)
        show ?thesis
        proof (cases "c_ip st3 + 2 \<ge> length inp")
          case True
          then show ?thesis using step b by simp
        next
          case False
          then obtain h v where "rehash_two inp st3 = Some (st3\<lparr>c_htab := h, c_hval := v, c_ip := c_ip st3\<rparr>)"
            using rehash_two_spec [OF b(6)] b(4,7) by auto
          moreover have "cinv inp (st3\<lparr>c_htab := h, c_hval := v, c_ip := c_ip st3\<rparr>)" using b(6) by (simp only: cinv_tables)
          from rec [OF this] b have "\<exists>r. compress_loop inp (st3\<lparr>c_htab := h, c_hval := v, c_ip := c_ip st3\<rparr>) = Some r \<and>
              (case r of None \<Rightarrow> True | Some st' \<Rightarrow> cinv inp st' \<and> c_ip st' + 2 \<ge> length inp \<and> length (c_out st') = length (c_out st))"
            by simp
          ultimately show ?thesis using step False by simp
        qed
      qed
    qed
  qed
qed

lemma compress_tail_spec:
  assumes inv: "cinv inp st" and ip: "c_ip st + n = length inp" and n: "n \<le> 2" and op: "c_op st + 3 \<le> length (c_out st)"
  shows "\<exists>st'. compress_tail inp n st = Some st' \<and> cinv inp st' \<and> c_ip st' = length inp \<and>
     c_op st' \<le> length (c_out st') \<and> length (c_out st') = length (c_out st)"
proof (cases n)
  case 0
  then show ?thesis using inv ip op by simp
next
  case (Suc k)
  then have "c_ip st < length inp" "c_op st < length (c_out st)" using ip op by simp_all
  from put_literal_spec [OF inv this] obtain st1 where s1: "put_literal inp st = Some st1" "cinv inp st1"
      "c_ip st1 = c_ip st + 1" "length (c_out st1) = length (c_out st)" "c_op st1 \<le> c_op st + 2"
      "c_op st1 \<le> c_op st + 1 \<or> c_lit st1 = 0"
    by (elim exE conjE)
  show ?thesis
  proof (cases k)
    case 0
    then have "compress_tail inp n st = Some st1" "c_ip st1 = length inp" using Suc s1(1,3) ip by simp_all
    then show ?thesis using s1(2,4,5) op by (intro exI [of _ st1]) linarith
  next
    case k: (Suc m)
    with n Suc have m: "m = 0" by simp
    have ip1: "c_ip st1 < length inp" using Suc k s1(3) ip by linarith
    have op1: "c_op st1 < length (c_out st1)" unfolding s1(4) using s1(5) op by linarith
    from put_literal_spec [OF s1(2) ip1 op1] obtain st2 where s2: "put_literal inp st1 = Some st2" "cinv inp st2" "c_ip st2 = c_ip st1 + 1"
        "length (c_out st2) = length (c_out st1)" "c_op st2 \<le> c_op st1 + 2" "c_lit st1 = 0 \<longrightarrow> c_op st2 \<le> c_op st1 + 1"
      by (elim exE conjE)
    have "c_op st2 \<le> c_op st + 3" using s1(5,6) s2(5,6) by linarith
    moreover have "c_ip st2 = length inp" using s1(3) s2(3) Suc k m ip by linarith
    moreover have "compress_tail inp n st = Some st2" using Suc k m s1(1) s2(1) by simp
    ultimately show ?thesis using s2(2,4) s1(4) op by (intro exI [of _ st2]) linarith
  qed
qed

lemma lzf_compress_spec:
  assumes "2 \<le> length inp"
  shows "\<exists>n out'. lzf_compress htab inp out = Some (n, out') \<and> n \<le> length out \<and> length out' = length out \<and>
     (n > 0 \<longrightarrow> stream (take n out') inp)"
proof (cases "length out = 0")
  case True
  then show ?thesis by (simp add: lzf_compress_def)
next
  case False
  have "0 < length inp" "1 < length inp" using assms by linarith+
  then obtain hval where h: "FRST inp 0 = Some hval" by (auto simp: FRST_def byte_at_def)
  let ?st = "\<lparr>c_htab = htab, c_hval = hval, c_ip = 0, c_op = 1, c_lit = 0, c_out = out\<rparr>"
  have "cinv inp ?st" by (simp add: cinv_def stream_Nil)
  from compress_loop_spec [OF this] obtain r where r: "compress_loop inp ?st = Some r"
    "case r of None \<Rightarrow> True | Some st \<Rightarrow> cinv inp st \<and> c_ip st + 2 \<ge> length inp \<and> length (c_out st) = length (c_out ?st)"
    by (elim exE conjE)
  show ?thesis
  proof (cases "\<exists>st. r = Some st \<and> c_op st + 3 \<le> length (c_out st)")
    case False
    then have "lzf_compress htab inp out = Some (0, out)"
      using h r(1) assms by (cases r) (auto simp: lzf_compress_def)
    then show ?thesis by simp
  next
    case True
    then obtain st where st: "r = Some st" "c_op st + 3 \<le> length (c_out st)" by blast
    from r(2) have inv: "cinv inp st" "c_ip st + 2 \<ge> length inp" "length (c_out st) = length out" unfolding st(1) by simp_all
    then have "c_ip st + (length inp - c_ip st) = length inp" "length inp - c_ip st \<le> 2" by (simp_all add: cinv_def)
    from compress_tail_spec [OF inv(1) this st(2)] obtain st' where
      t: "compress_tail inp (length inp - c_ip st) st = Some st'" "cinv inp st'" "c_ip st' = length inp"
        "c_op st' \<le> length (c_out st')" "length (c_out st') = length out" using inv(3) by auto
    from stop_run_spec [OF t(2,4)] obtain out' where s: "stop_run st' = Some (st'\<lparr>c_out := out',
          c_op := (if c_lit st' = 0 then c_op st' - 1 else c_op st')\<rparr>)" "length out' = length (c_out st')"
        "stream (take (if c_lit st' = 0 then c_op st' - 1 else c_op st') out') (take (c_ip st') inp)" by blast
    have "lzf_compress htab inp out = Some (if c_lit st' = 0 then c_op st' - 1 else c_op st', out')"
      using h r(1) st t(1) s(1) assms \<open>length out \<noteq> 0\<close> by (auto simp: lzf_compress_def)
    then show ?thesis using s t by auto
  qed
qed

text \<open>
  C22. Compression is lossless and stays inside its buffers. For every input of at least two
  bytes, every output buffer and any contents of the uninitialised hash table,
  \<open>lzf_compress\<close> ends without an access outside a buffer; when it reports success the bytes it
  wrote decompress to the input, at the start of any buffer large enough for it, and the rest of that
  buffer is as before.
\<close>

theorem lzf_roundtrip:
  assumes "2 \<le> length inp"
  shows "\<exists>n out'. lzf_compress htab inp out = Some (n, out') \<and> n \<le> length out \<and>
     (n > 0 \<longrightarrow> (\<forall>buf. length inp \<le> length buf \<longrightarrow>
        lzf_decompress (take n out') buf = Some (Inr (length inp, inp @ drop (length inp) buf))))"
proof -
  obtain n out' where c: "lzf_compress htab inp out = Some (n, out')" "n \<le> length out" "length out' = length out"
     "n > 0 \<longrightarrow> stream (take n out') inp"
    using lzf_compress_spec [OF assms] by blast
  have "lzf_decompress (take n out') buf = Some (Inr (length inp, inp @ drop (length inp) buf))" if "n > 0" "length inp \<le> length buf" for buf
  proof -
    have "take n out' @ [] \<noteq> []" using that(1) c(2,3) by auto
    from stream_decompress [OF _ that(2) this] c(4) that(1) show ?thesis by (simp add: lzf_decompress_def)
  qed
  with c show ?thesis by blast
qed

text \<open>Three bytes of input, which become one run of literals.\<close>

theorem lzf_roundtrip_witness:
  "\<exists>n out'. lzf_compress (\<lambda>_. 0) [1, 2, 3] (replicate 8 0) = Some (n, out') \<and> n = 4 \<and>
     lzf_decompress (take n out') [0, 0, 0, 7] = Some (Inr (3, [1, 2, 3, 7]))"
proof -
  have "lzf_compress (\<lambda>_. 0) [1, 2, 3] (replicate 8 0) = Some (4, [2, 1, 2, 3, 0, 0, 0, 0])"
  proof -
    let ?st1 = "\<lambda>hv. \<lparr>c_htab = (\<lambda>_. 0)(IDX (push_bit 8 hv OR 3) := 0), c_hval = push_bit 8 hv OR 3,
          c_ip = 1, c_op = 2, c_lit = 1, c_out = [0, 1, 0, 0, 0, 0, 0, 0]\<rparr>"
    have stop: "compress_loop [1, 2, 3] (?st1 hv) = Some (Some (?st1 hv))" for hv
      by (subst compress_loop.simps) simp
    have "compress_loop [1, 2, 3] \<lparr>c_htab = \<lambda>_. 0, c_hval = hv, c_ip = 0, c_op = 1, c_lit = 0, c_out = replicate 8 0\<rparr> =
       compress_loop [1, 2, 3] (?st1 hv)" for hv
    proof -
      have "NEXT hv [1, 2, 3] 0 = Some (push_bit 8 hv OR 3)" by (simp add: NEXT_def byte_at_def)
      moreover have "replicate 8 0 = [0, 0, 0, 0, 0, 0, 0, 0 :: u8]" by (simp add: eval_nat_numeral)
      ultimately show ?thesis
        by (subst compress_loop.simps) (simp add: byte_at_def match_found_def put_literal_def byte_put_def MAX_LIT_def numeral_2_eq_2)
    qed
    then have "compress_loop [1, 2, 3] \<lparr>c_htab = \<lambda>_. 0, c_hval = hv, c_ip = 0, c_op = 1, c_lit = 0,
       c_out = replicate 8 0\<rparr> = Some (Some (?st1 hv))" for hv
      using stop by simp
    then show ?thesis
      by (simp add: lzf_compress_def FRST_def byte_at_def put_literal_def byte_put_def MAX_LIT_def stop_run_def eval_nat_numeral)
  qed
  with lzf_roundtrip [of "[1, 2, 3]" "\<lambda>_. 0" "replicate 8 0"] show ?thesis by auto
qed

subsection \<open>Decompression of any input\<close>

lemma copy_literals_total:
  "ip + n \<le> length inp \<Longrightarrow> op + n \<le> length out \<Longrightarrow> \<exists>out'. copy_literals inp ip op n out = Some out' \<and> length out' = length out"
proof (induction n arbitrary: ip op out)
  case (Suc n)
  from Suc.IH [of "Suc ip" "Suc op" "out[op := inp ! ip]"] Suc.prems show ?case by (simp add: byte_at_def byte_put_def)
qed simp

lemma copy_octets_total:
  "0 \<le> ref \<Longrightarrow> ref < int op \<Longrightarrow> op + n \<le> length out \<Longrightarrow> \<exists>out'. copy_octets ref op n out = Some out' \<and> length out' = length out"
proof (induction n arbitrary: ref op out)
  case (Suc n)
  have "nat ref < length out" using Suc.prems by simp
  with Suc.IH [of "ref + 1" "Suc op" "out[op := out ! nat ref]"] Suc.prems show ?case by (simp add: byte_at_def byte_put_def)
qed simp

lemma copy_ref_total:
  assumes "0 \<le> ref" "ref < int op" "op + len + 2 \<le> length out"
  shows "\<exists>out'. copy_ref ref op len out = Some out' \<and> length out' = length out"
  using assms copy_octets_total [of ref op "len + 2" out]
  by (auto simp: copy_ref_def mem_read_def mem_write_def)

lemma read_len_total:
  "\<exists>r. read_len inp ip len = Some r \<and> (case r of Inl e \<Rightarrow> True | Inr (len, ip) \<Rightarrow> ip < length inp)"
  by (auto simp: read_len_def byte_at_def)

lemma decompress_step_total:
  assumes "ip < length inp" "op \<le> length out"
  shows "\<exists>r. decompress_step inp ip op out = Some r \<and>
     (case r of Inl e \<Rightarrow> True | Inr (ip', op', out') \<Rightarrow> op' \<le> length out \<and> length out' = length out)"
proof -
  define ctrl where "ctrl = unat (inp ! ip)"
  define ref where "ref = int op - int (ctrl mod 32 * 256) - 1"
  have c: "byte_at inp ip = Some (inp ! ip)" using assms(1) by (simp add: byte_at_def)
  show ?thesis
  proof (cases "ctrl < 32")
    case True
    with copy_literals_total [of "ip + 1" "ctrl + 1" inp op out] show ?thesis
      by (auto simp: decompress_step_def c Let_def simp flip: ctrl_def simp del: copy_literals.simps)
  next
    case False
    from read_len_total [of inp "ip + 1" "ctrl div 32"] obtain r where
      r: "read_len inp (ip + 1) (ctrl div 32) = Some r" "case r of Inl e \<Rightarrow> True | Inr (len, ip) \<Rightarrow> ip < length inp" by blast
    show ?thesis
    proof (cases r)
      case (Inl e)
      then show ?thesis using False r(1) by (simp add: decompress_step_def c Let_def flip: ctrl_def)
    next
      case (Inr p)
      obtain len ip' where p: "p = (len, ip')" by fastforce
      define ref' where "ref' = ref - int (unat (inp ! ip'))"
      have b: "byte_at inp ip' = Some (inp ! ip')" using r(2) Inr p by (simp add: byte_at_def)
      have "ref' < int op" unfolding ref'_def ref_def by linarith
      moreover have "decompress_step inp ip op out =
          (if op + len + 2 > length out then Some (Inl E2BIG) else if ref' < 0 then Some (Inl EINVAL)
           else do { out \<leftarrow> copy_ref ref' op len out; Some (Inr (ip' + 1, op + len + 2, out)) })"
        using False r(1) Inr p b by (simp add: decompress_step_def c Let_def ref'_def ref_def flip: ctrl_def)
      ultimately show ?thesis using copy_ref_total [of ref' op len out] by (simp split: bind_splits) force
    qed
  qed
qed

lemma decompress_loop_total:
  "ip < length inp \<Longrightarrow> op \<le> length out \<Longrightarrow> \<exists>r. decompress_loop inp ip op out = Some r \<and>
     (case r of Inl e \<Rightarrow> True | Inr (n, out') \<Rightarrow> n \<le> length out \<and> length out' = length out)"
proof (induction inp ip op out rule: decompress_loop.induct)
  case (1 inp ip op out)
  from decompress_step_total [OF "1.prems"] obtain r where
    r: "decompress_step inp ip op out = Some r" "case r of Inl e \<Rightarrow> True | Inr (ip', op', out') \<Rightarrow> op' \<le> length out \<and> length out' = length out"
    by blast
  show ?case
  proof (cases r)
    case (Inl e)
    then show ?thesis using r(1) by (subst decompress_loop.simps) simp
  next
    case (Inr p)
    obtain ip' op' out' where p: "p = (ip', op', out')" by (cases p) auto
    then have l: "length out' = length out" "op' \<le> length out'" using r(2) Inr by simp_all
    have "decompress_loop inp ip op out = (if ip' < length inp then decompress_loop inp ip' op' out' else Some (Inr (op', out')))"
      using r(1) Inr p by (subst decompress_loop.simps) simp
    then show ?thesis
      using l "1.IH" [OF r(1) Inr p [symmetric] refl, unfolded l(1)] by (cases "ip' < length inp") simp_all
  qed
qed

text \<open>
  C23. \<open>lzf_decompress\<close> is safe on every input of at least one byte, corrupt or not, and on every
  output buffer: it ends, every byte it reads is inside the input or inside the output buffer and every
  byte it writes inside the output buffer, and it reports at most the size of that buffer.
\<close>

theorem lzf_decompress_safe:
  assumes "inp \<noteq> []"
  shows "\<exists>r. lzf_decompress inp buf = Some r \<and>
     (case r of Inl e \<Rightarrow> True | Inr (n, out) \<Rightarrow> n \<le> length buf \<and> length out = length buf)"
  unfolding lzf_decompress_def using assms by (intro decompress_loop_total) auto

text \<open>A back reference before the start of the output buffer, which is refused.\<close>

theorem lzf_decompress_safe_witness:
  "lzf_decompress [0x20, 0xFF] (replicate 10 0) = Some (Inl EINVAL) \<and>
   (\<exists>r. lzf_decompress [0x20, 0xFF] (replicate 10 0) = Some r \<and>
     (case r of Inl e \<Rightarrow> True | Inr (n, out) \<Rightarrow> n \<le> 10 \<and> length out = 10))"
proof -
  have "decompress_step [0x20, 0xFF] 0 0 (replicate 10 0) = Some (Inl EINVAL)"
    by (simp add: decompress_step_def byte_at_def read_len_def)
  then have "lzf_decompress [0x20, 0xFF] (replicate 10 0) = Some (Inl EINVAL)"
    by (simp add: lzf_decompress_def decompress_loop.simps)
  moreover have "\<exists>r. lzf_decompress [0x20, 0xFF] (replicate 10 0) = Some r \<and>
      (case r of Inl e \<Rightarrow> True | Inr (n, out) \<Rightarrow> n \<le> length (replicate 10 (0 :: u8)) \<and> length out = length (replicate 10 (0 :: u8)))"
    by (rule lzf_decompress_safe) simp
  ultimately show ?thesis by simp
qed

end
