(* ===== verification/Sds.thy ===== *)
theory Sds
  imports Util_Num
begin

unbundle bit_operations_syntax

section \<open>Dynamic strings: \<open>sds.c\<close>\<close>

text \<open>
  A string is its header and the block behind it, up to the end of the allocation. Header fields
  keep their width, so a length that does not fit is truncated as in the code; \<open>size_t\<close> values are
  natural numbers with the truncation written out where it can happen. \<open>None\<close> is an access
  outside of the block, a failed assertion or an allocation larger than the address space.
  \<open>junk\<close> gives the bytes of fresh memory. \<open>zmalloc\<close> ends the process when memory runs out, so the
  tests for \<open>NULL\<close> never succeed.
\<close>

definition size_t :: "nat \<Rightarrow> nat" where
  "size_t n = n mod 2 ^ 64"

text \<open>Conversion to \<open>int\<close>.\<close>

definition to_int :: "int \<Rightarrow> int" where
  "to_int n = signed_take_bit 31 n"

datatype sds_type = SDS_TYPE_5 | SDS_TYPE_8 | SDS_TYPE_16 | SDS_TYPE_32 | SDS_TYPE_64

text \<open>The headers: the flags byte of the first kind, length and allocation of the others.\<close>

datatype sdshdr = Sdshdr5 u8 | Sdshdr8 u8 u8 | Sdshdr16 u16 u16 | Sdshdr32 u32 u32 | Sdshdr64 u64 u64

record sds =
  sds_hdr :: sdshdr
  sds_buf :: bytes

definition SDS_MAX_PREALLOC :: nat where "SDS_MAX_PREALLOC = 1024 * 1024"

fun sds_type_of :: "sdshdr \<Rightarrow> sds_type" where
  "sds_type_of (Sdshdr5 _) = SDS_TYPE_5"
| "sds_type_of (Sdshdr8 _ _) = SDS_TYPE_8"
| "sds_type_of (Sdshdr16 _ _) = SDS_TYPE_16"
| "sds_type_of (Sdshdr32 _ _) = SDS_TYPE_32"
| "sds_type_of (Sdshdr64 _ _) = SDS_TYPE_64"

definition SDS_TYPE_5_LEN :: "u8 \<Rightarrow> nat" where
  "SDS_TYPE_5_LEN f = unat (drop_bit 3 f)"

definition sdslen :: "sds \<Rightarrow> nat" where
  "sdslen s = (case sds_hdr s of
      Sdshdr5 f \<Rightarrow> SDS_TYPE_5_LEN f
    | Sdshdr8 len _ \<Rightarrow> unat len
    | Sdshdr16 len _ \<Rightarrow> unat len
    | Sdshdr32 len _ \<Rightarrow> unat len
    | Sdshdr64 len _ \<Rightarrow> unat len)"

definition sdsavail :: "sds \<Rightarrow> nat" where
  "sdsavail s = (case sds_hdr s of
      Sdshdr5 _ \<Rightarrow> 0
    | Sdshdr8 len alloc \<Rightarrow> unat alloc - unat len
    | Sdshdr16 len alloc \<Rightarrow> unat alloc - unat len
    | Sdshdr32 len alloc \<Rightarrow> unat (alloc - len)
    | Sdshdr64 len alloc \<Rightarrow> unat (alloc - len))"

definition sdssetlen :: "sds \<Rightarrow> nat \<Rightarrow> sds" where
  "sdssetlen s newlen = s\<lparr>sds_hdr := (case sds_hdr s of
      Sdshdr5 _ \<Rightarrow> Sdshdr5 (push_bit 3 (of_nat newlen))
    | Sdshdr8 _ alloc \<Rightarrow> Sdshdr8 (of_nat newlen) alloc
    | Sdshdr16 _ alloc \<Rightarrow> Sdshdr16 (of_nat newlen) alloc
    | Sdshdr32 _ alloc \<Rightarrow> Sdshdr32 (of_nat newlen) alloc
    | Sdshdr64 _ alloc \<Rightarrow> Sdshdr64 (of_nat newlen) alloc)\<rparr>"

definition sdsinclen :: "sds \<Rightarrow> nat \<Rightarrow> sds" where
  "sdsinclen s inc = s\<lparr>sds_hdr := (case sds_hdr s of
      Sdshdr5 f \<Rightarrow> Sdshdr5 (push_bit 3 (of_nat (SDS_TYPE_5_LEN f + inc)))
    | Sdshdr8 len alloc \<Rightarrow> Sdshdr8 (len + of_nat inc) alloc
    | Sdshdr16 len alloc \<Rightarrow> Sdshdr16 (len + of_nat inc) alloc
    | Sdshdr32 len alloc \<Rightarrow> Sdshdr32 (len + of_nat inc) alloc
    | Sdshdr64 len alloc \<Rightarrow> Sdshdr64 (len + of_nat inc) alloc)\<rparr>"

definition sdsalloc :: "sds \<Rightarrow> nat" where
  "sdsalloc s = (case sds_hdr s of
      Sdshdr5 f \<Rightarrow> SDS_TYPE_5_LEN f
    | Sdshdr8 _ alloc \<Rightarrow> unat alloc
    | Sdshdr16 _ alloc \<Rightarrow> unat alloc
    | Sdshdr32 _ alloc \<Rightarrow> unat alloc
    | Sdshdr64 _ alloc \<Rightarrow> unat alloc)"

definition sdssetalloc :: "sds \<Rightarrow> nat \<Rightarrow> sds" where
  "sdssetalloc s newlen = s\<lparr>sds_hdr := (case sds_hdr s of
      Sdshdr5 f \<Rightarrow> Sdshdr5 f
    | Sdshdr8 len _ \<Rightarrow> Sdshdr8 len (of_nat newlen)
    | Sdshdr16 len _ \<Rightarrow> Sdshdr16 len (of_nat newlen)
    | Sdshdr32 len _ \<Rightarrow> Sdshdr32 len (of_nat newlen)
    | Sdshdr64 len _ \<Rightarrow> Sdshdr64 len (of_nat newlen))\<rparr>"

fun sdsHdrSize :: "sds_type \<Rightarrow> nat" where
  "sdsHdrSize SDS_TYPE_5 = 1"
| "sdsHdrSize SDS_TYPE_8 = 3"
| "sdsHdrSize SDS_TYPE_16 = 5"
| "sdsHdrSize SDS_TYPE_32 = 9"
| "sdsHdrSize SDS_TYPE_64 = 17"

definition sdsReqType :: "nat \<Rightarrow> sds_type" where
  "sdsReqType string_size =
     (if string_size < 2 ^ 5 then SDS_TYPE_5
      else if string_size < 2 ^ 8 then SDS_TYPE_8
      else if string_size < 2 ^ 16 then SDS_TYPE_16
      else if string_size < 2 ^ 32 then SDS_TYPE_32
      else SDS_TYPE_64)"

text \<open>A header of a type in fresh memory: the flags are set, the fields are not.\<close>

fun sds_new_hdr :: "sds_type \<Rightarrow> sdshdr" where
  "sds_new_hdr SDS_TYPE_5 = Sdshdr5 0"
| "sds_new_hdr SDS_TYPE_8 = Sdshdr8 0 0"
| "sds_new_hdr SDS_TYPE_16 = Sdshdr16 0 0"
| "sds_new_hdr SDS_TYPE_32 = Sdshdr32 0 0"
| "sds_new_hdr SDS_TYPE_64 = Sdshdr64 0 0"

text \<open>\<open>s_malloc (hdrlen + n + 1)\<close>: the size wraps around when it exceeds the address space.\<close>

definition sds_fits :: "sds_type \<Rightarrow> nat \<Rightarrow> bool" where
  "sds_fits t n \<longleftrightarrow> sdsHdrSize t + n + 1 < 2 ^ 64"

definition sdsnewlen :: "(nat \<Rightarrow> u8) \<Rightarrow> bytes option \<Rightarrow> nat \<Rightarrow> sds option" where
  "sdsnewlen junk init initlen = do {
     let t = sdsReqType initlen;
     let t = (if t = SDS_TYPE_5 \<and> initlen = 0 then SDS_TYPE_8 else t);
     if \<not> sds_fits t initlen then None
     else do {
       let buf = (if init = None then replicate (initlen + 1) 0 else map junk [0..<initlen + 1]);
       let s = \<lparr>sds_hdr = sds_new_hdr t, sds_buf = buf\<rparr>;
       let s = sdssetalloc (sdssetlen s initlen) initlen;
       buf \<leftarrow> (case init of
           Some bs \<Rightarrow> if initlen > 0 then do { t \<leftarrow> mem_read bs 0 initlen; mem_write buf 0 t } else Some buf
         | None \<Rightarrow> Some buf);
       buf \<leftarrow> put initlen 0 buf;
       Some (s\<lparr>sds_buf := buf\<rparr>)
     }
   }"

definition sdsempty :: "(nat \<Rightarrow> u8) \<Rightarrow> sds option" where
  "sdsempty junk = sdsnewlen junk (Some []) 0"

definition sdsdup :: "(nat \<Rightarrow> u8) \<Rightarrow> sds \<Rightarrow> sds option" where
  "sdsdup junk s = sdsnewlen junk (Some (sds_buf s)) (sdslen s)"

text \<open>\<open>strlen\<close>: the position of the first zero byte.\<close>

fun strlen :: "bytes \<Rightarrow> nat option" where
  "strlen [] = None"
| "strlen (b # bs) = (if b = 0 then Some 0 else map_option Suc (strlen bs))"

definition sdsupdatelen :: "sds \<Rightarrow> sds option" where
  "sdsupdatelen s = do { n \<leftarrow> strlen (sds_buf s); Some (sdssetlen s (nat (to_int (int n)))) }"

definition sdsclear :: "sds \<Rightarrow> sds option" where
  "sdsclear s = do {
     let s = sdssetlen s 0;
     buf \<leftarrow> put 0 0 (sds_buf s);
     Some (s\<lparr>sds_buf := buf\<rparr>)
   }"

text \<open>The string moved to a block for \<open>n\<close> bytes and a header of type \<open>t\<close>.\<close>

definition sds_reallocate :: "(nat \<Rightarrow> u8) \<Rightarrow> sds \<Rightarrow> sds_type \<Rightarrow> nat \<Rightarrow> nat \<Rightarrow> sds option" where
  "sds_reallocate junk s t len n =
     (if \<not> sds_fits t n then None
      else do {
        s \<leftarrow> (if sds_type_of (sds_hdr s) = t then Some (s\<lparr>sds_buf := mem_realloc junk (sds_buf s) (n + 1)\<rparr>)
             else do {
               bs \<leftarrow> mem_read (sds_buf s) 0 (len + 1);
               buf \<leftarrow> mem_write (map junk [0..<n + 1]) 0 bs;
               Some (sdssetlen \<lparr>sds_hdr = sds_new_hdr t, sds_buf = buf\<rparr> len)
             });
        Some (sdssetalloc s n)
      })"

definition sdsMakeRoomFor :: "(nat \<Rightarrow> u8) \<Rightarrow> sds \<Rightarrow> nat \<Rightarrow> sds option" where
  "sdsMakeRoomFor junk s addlen =
     (if sdsavail s \<ge> addlen then Some s
      else
        let len = sdslen s;
            newlen = size_t (len + addlen);
            newlen = (if newlen < SDS_MAX_PREALLOC then newlen * 2 else size_t (newlen + SDS_MAX_PREALLOC));
            t = sdsReqType newlen;
            t = (if t = SDS_TYPE_5 then SDS_TYPE_8 else t)
        in sds_reallocate junk s t len newlen)"

definition sdsRemoveFreeSpace :: "(nat \<Rightarrow> u8) \<Rightarrow> sds \<Rightarrow> sds option" where
  "sdsRemoveFreeSpace junk s =
     (let len = sdslen s in sds_reallocate junk s (sdsReqType len) len len)"

definition sdsAllocSize :: "sds \<Rightarrow> nat" where
  "sdsAllocSize s = sdsHdrSize (sds_type_of (sds_hdr s)) + sdsalloc s + 1"

text \<open>The header after the assertion has passed, then the terminator.\<close>

definition sdsIncrLen :: "sds \<Rightarrow> int \<Rightarrow> sds option" where
  "sdsIncrLen s incr = do {
     let len = int (sdslen s);
     let ok = (case sds_hdr s of
         Sdshdr5 _ \<Rightarrow> incr > 0 \<and> len + incr < 32 \<or> incr < 0 \<and> len \<ge> - incr
       | _ \<Rightarrow> incr \<ge> 0 \<and> int (sdsavail s) \<ge> incr \<or> incr < 0 \<and> len \<ge> - incr);
     if ok then do {
       let s = sdssetlen s (nat (len + incr));
       buf \<leftarrow> put (sdslen s) 0 (sds_buf s);
       Some (s\<lparr>sds_buf := buf\<rparr>)
     }
     else None
   }"

definition sdsgrowzero :: "(nat \<Rightarrow> u8) \<Rightarrow> sds \<Rightarrow> nat \<Rightarrow> sds option" where
  "sdsgrowzero junk s len = do {
     let curlen = sdslen s;
     if len \<le> curlen then Some s
     else do {
       s \<leftarrow> sdsMakeRoomFor junk s (len - curlen);
       buf \<leftarrow> mem_write (sds_buf s) curlen (replicate (len - curlen + 1) 0);
       Some (sdssetlen (s\<lparr>sds_buf := buf\<rparr>) len)
     }
   }"

definition sdscatlen :: "(nat \<Rightarrow> u8) \<Rightarrow> sds \<Rightarrow> bytes \<Rightarrow> nat \<Rightarrow> sds option" where
  "sdscatlen junk s t len = do {
     let curlen = sdslen s;
     s \<leftarrow> sdsMakeRoomFor junk s len;
     bs \<leftarrow> mem_read t 0 len;
     buf \<leftarrow> mem_write (sds_buf s) curlen bs;
     let s = sdssetlen (s\<lparr>sds_buf := buf\<rparr>) (curlen + len);
     buf \<leftarrow> put (curlen + len) 0 (sds_buf s);
     Some (s\<lparr>sds_buf := buf\<rparr>)
   }"

definition sdscat :: "(nat \<Rightarrow> u8) \<Rightarrow> sds \<Rightarrow> bytes \<Rightarrow> sds option" where
  "sdscat junk s t = do { n \<leftarrow> strlen t; sdscatlen junk s t n }"

definition sdscatsds :: "(nat \<Rightarrow> u8) \<Rightarrow> sds \<Rightarrow> sds \<Rightarrow> sds option" where
  "sdscatsds junk s t = sdscatlen junk s (sds_buf t) (sdslen t)"

definition sdscpylen :: "(nat \<Rightarrow> u8) \<Rightarrow> sds \<Rightarrow> bytes \<Rightarrow> nat \<Rightarrow> sds option" where
  "sdscpylen junk s t len = do {
     s \<leftarrow> (if sdsalloc s < len then sdsMakeRoomFor junk s (len - sdslen s) else Some s);
     bs \<leftarrow> mem_read t 0 len;
     buf \<leftarrow> mem_write (sds_buf s) 0 bs;
     buf \<leftarrow> put len 0 buf;
     Some (sdssetlen (s\<lparr>sds_buf := buf\<rparr>) len)
   }"

definition sdscpy :: "(nat \<Rightarrow> u8) \<Rightarrow> sds \<Rightarrow> bytes \<Rightarrow> sds option" where
  "sdscpy junk s t = do { n \<leftarrow> strlen t; sdscpylen junk s t n }"

subsection \<open>Trimming, ranges, comparison\<close>

text \<open>\<open>strchr (cset, c)\<close> also finds the terminator.\<close>

definition strchr :: "bytes \<Rightarrow> u8 \<Rightarrow> bool" where
  "strchr cset c \<longleftrightarrow> c = 0 \<or> c \<in> set cset"

text \<open>\<open>while (sp <= end && strchr (cset, *sp)) sp++\<close>, with \<open>n\<close> one more than \<open>end\<close>.\<close>

function trim_left :: "bytes \<Rightarrow> bytes \<Rightarrow> nat \<Rightarrow> nat \<Rightarrow> nat" where
  "trim_left cset buf n sp = (if sp < n \<and> strchr cset (buf ! sp) then trim_left cset buf n (sp + 1) else sp)"
  by pat_completeness auto
termination by (relation "measure (\<lambda>(_, _, n, sp). n - sp)") auto

text \<open>\<open>while (ep > sp && strchr (cset, *ep)) ep--\<close>, with \<open>n\<close> one more than \<open>ep\<close>.\<close>

fun trim_right :: "bytes \<Rightarrow> bytes \<Rightarrow> nat \<Rightarrow> nat \<Rightarrow> nat" where
  "trim_right cset buf sp 0 = 0"
| "trim_right cset buf sp (Suc ep) = (if ep > sp \<and> strchr cset (buf ! ep) then trim_right cset buf sp ep else Suc ep)"

declare trim_left.simps [simp del]

definition sdstrim :: "sds \<Rightarrow> bytes \<Rightarrow> sds option" where
  "sdstrim s cset = do {
     let sp = trim_left cset (sds_buf s) (sdslen s) 0;
     let ep1 = trim_right cset (sds_buf s) sp (sdslen s);
     let len = ep1 - sp;
     buf \<leftarrow> (if sp \<noteq> 0 then memmove (sds_buf s) 0 sp len else Some (sds_buf s));
     buf \<leftarrow> put len 0 buf;
     Some (sdssetlen (s\<lparr>sds_buf := buf\<rparr>) len)
   }"

text \<open>
  The first position and the new length for a string of length \<open>len\<close>; \<open>start\<close>, \<open>end\<close> and the
  converted length are 32 bits wide.
\<close>

definition range_bounds :: "int \<Rightarrow> int \<Rightarrow> int \<Rightarrow> int \<times> int" where
  "range_bounds len start end' =
     (let start = (if start < 0 then (let st = to_int (len + start) in if st < 0 then 0 else st) else start);
          end' = (if end' < 0 then (let e = to_int (len + end') in if e < 0 then 0 else e) else end');
          newlen = (if start > end' then 0 else end' - start + 1)
      in if newlen \<noteq> 0 then
           (if start \<ge> to_int len then (start, 0)
            else if end' \<ge> to_int len then
              (let end' = to_int (len - 1) in (start, if start > end' then 0 else end' - start + 1))
            else (start, newlen))
         else (0, newlen))"

definition sdsrange :: "sds \<Rightarrow> int \<Rightarrow> int \<Rightarrow> sds option" where
  "sdsrange s start end' =
     (if sdslen s = 0 then Some s
      else do {
        let (start, newlen) = range_bounds (int (sdslen s)) start end';
        buf \<leftarrow> (if start \<noteq> 0 \<and> newlen \<noteq> 0 then memmove (sds_buf s) 0 (nat start) (nat newlen) else Some (sds_buf s));
        buf \<leftarrow> put (nat newlen) 0 buf;
        Some (sdssetlen (s\<lparr>sds_buf := buf\<rparr>) (nat newlen))
      })"

definition tolower :: "u8 \<Rightarrow> u8" where
  "tolower c = (if 65 \<le> c \<and> c \<le> 90 then c + 32 else c)"

definition toupper :: "u8 \<Rightarrow> u8" where
  "toupper c = (if 97 \<le> c \<and> c \<le> 122 then c - 32 else c)"

text \<open>\<open>for (j = 0; j < len; j++) s[j] = f (s[j])\<close>\<close>

fun sds_map_loop :: "(u8 \<Rightarrow> u8) \<Rightarrow> nat \<Rightarrow> nat \<Rightarrow> bytes \<Rightarrow> bytes option" where
  "sds_map_loop f 0 j buf = Some buf"
| "sds_map_loop f (Suc n) j buf =
     (if j < length buf then sds_map_loop f n (Suc j) (buf[j := f (buf ! j)]) else None)"

definition sdstolower :: "sds \<Rightarrow> sds option" where
  "sdstolower s = do {
     buf \<leftarrow> sds_map_loop tolower (nat (to_int (int (sdslen s)))) 0 (sds_buf s);
     Some (s\<lparr>sds_buf := buf\<rparr>)
   }"

definition sdstoupper :: "sds \<Rightarrow> sds option" where
  "sdstoupper s = do {
     buf \<leftarrow> sds_map_loop toupper (nat (to_int (int (sdslen s)))) 0 (sds_buf s);
     Some (s\<lparr>sds_buf := buf\<rparr>)
   }"

text \<open>The inner loop of \<open>sdsmapchars\<close>.\<close>

fun map_char :: "bytes \<Rightarrow> bytes \<Rightarrow> u8 \<Rightarrow> u8" where
  "map_char (f # from) (t # to) c = (if c = f then t else map_char from to c)"
| "map_char _ _ c = c"

definition sdsmapchars :: "sds \<Rightarrow> bytes \<Rightarrow> bytes \<Rightarrow> sds option" where
  "sdsmapchars s from to = do {
     buf \<leftarrow> sds_map_loop (map_char from to) (sdslen s) 0 (sds_buf s);
     Some (s\<lparr>sds_buf := buf\<rparr>)
   }"

text \<open>\<open>memcmp\<close>: the difference at the first byte that differs.\<close>

fun memcmp :: "bytes \<Rightarrow> bytes \<Rightarrow> nat \<Rightarrow> int" where
  "memcmp (a # as) (b # bs) (Suc n) = (if a = b then memcmp as bs n else uint a - uint b)"
| "memcmp _ _ _ = 0"

definition sdscmp :: "sds \<Rightarrow> sds \<Rightarrow> int" where
  "sdscmp s1 s2 =
     (let l1 = sdslen s1; l2 = sdslen s2; minlen = (if l1 < l2 then l1 else l2);
          cmp = memcmp (sds_buf s1) (sds_buf s2) minlen
      in if cmp = 0 then to_int (int l1 - int l2) else cmp)"

section \<open>Well-formed strings\<close>

definition sds_val :: "sds \<Rightarrow> bytes" where
  "sds_val s = take (sdslen s) (sds_buf s)"

definition sds_wf :: "sds \<Rightarrow> bool" where
  "sds_wf s \<longleftrightarrow> sdslen s \<le> sdsalloc s \<and> sdsalloc s < length (sds_buf s) \<and> sds_buf s ! sdslen s = 0"

fun sds_cap :: "sdshdr \<Rightarrow> nat" where
  "sds_cap (Sdshdr5 _) = 2 ^ 5"
| "sds_cap (Sdshdr8 _ _) = 2 ^ 8"
| "sds_cap (Sdshdr16 _ _) = 2 ^ 16"
| "sds_cap (Sdshdr32 _ _) = 2 ^ 32"
| "sds_cap (Sdshdr64 _ _) = 2 ^ 64"

lemma length_sds_val: "sds_wf s \<Longrightarrow> length (sds_val s) = sdslen s"
  by (auto simp: sds_val_def sds_wf_def)

lemma sdslen_val: "sdslen s \<le> length (sds_buf s) \<Longrightarrow> length (sds_val s) = sdslen s"
  by (simp add: sds_val_def)

lemma type5_len: "n < 32 \<Longrightarrow> SDS_TYPE_5_LEN (push_bit 3 (of_nat n)) = n"
proof -
  assume n: "n < 32"
  have "unat (push_bit 3 (of_nat n) :: u8) = n * 8"
    using n by (simp add: push_bit_eq_mult unsigned_of_nat take_bit_eq_mod unat_word_ariths(2))
  then show ?thesis by (simp add: SDS_TYPE_5_LEN_def drop_bit_eq_div unat_div)
qed

lemma unat_of_nat_fits: "n < 2 ^ LENGTH('a::len) \<Longrightarrow> unat (of_nat n :: 'a word) = n"
  by (simp add: unsigned_of_nat take_bit_nat_eq_self)

lemma sdslen_less_cap: "sdslen s < sds_cap (sds_hdr s)"
proof (cases "sds_hdr s")
  case (Sdshdr5 f)
  have "unat (drop_bit 3 f) = unat f div 8" by (simp add: drop_bit_eq_div unat_div)
  then show ?thesis using Sdshdr5 unat_u8_less [of f] by (simp add: sdslen_def SDS_TYPE_5_LEN_def)
next
  case (Sdshdr8 l a) then show ?thesis using unsigned_less [of l] by (simp add: sdslen_def)
next
  case (Sdshdr16 l a) then show ?thesis using unsigned_less [of l] by (simp add: sdslen_def)
next
  case (Sdshdr32 l a) then show ?thesis using unsigned_less [of l] by (simp add: sdslen_def)
next
  case (Sdshdr64 l a) then show ?thesis using unsigned_less [of l] by (simp add: sdslen_def)
qed

lemma sdsalloc_less_cap: "sdsalloc s < sds_cap (sds_hdr s)"
proof (cases "sds_hdr s")
  case (Sdshdr5 f)
  then show ?thesis using sdslen_less_cap [of s] by (simp add: sdsalloc_def sdslen_def)
next
  case (Sdshdr8 l a) then show ?thesis using unsigned_less [of a] by (simp add: sdsalloc_def)
next
  case (Sdshdr16 l a) then show ?thesis using unsigned_less [of a] by (simp add: sdsalloc_def)
next
  case (Sdshdr32 l a) then show ?thesis using unsigned_less [of a] by (simp add: sdsalloc_def)
next
  case (Sdshdr64 l a) then show ?thesis using unsigned_less [of a] by (simp add: sdsalloc_def)
qed

lemma sdssetlen_len: "n < sds_cap (sds_hdr s) \<Longrightarrow> sdslen (sdssetlen s n) = n"
  by (cases "sds_hdr s") (simp_all add: sdssetlen_def sdslen_def type5_len unat_of_nat_fits)

lemma sdssetlen_alloc:
  "n < sds_cap (sds_hdr s) \<Longrightarrow> sdsalloc (sdssetlen s n) = (case sds_hdr s of Sdshdr5 _ \<Rightarrow> n | _ \<Rightarrow> sdsalloc s)"
  by (cases "sds_hdr s") (simp_all add: sdssetlen_def sdsalloc_def type5_len)

lemma sdssetlen_buf [simp]: "sds_buf (sdssetlen s n) = sds_buf s"
  by (simp add: sdssetlen_def)

lemma sdssetalloc_buf [simp]: "sds_buf (sdssetalloc s n) = sds_buf s"
  by (simp add: sdssetalloc_def)

lemma sds_buf_update [simp]:
  "sdslen (s\<lparr>sds_buf := b\<rparr>) = sdslen s" "sdsalloc (s\<lparr>sds_buf := b\<rparr>) = sdsalloc s" "sdsavail (s\<lparr>sds_buf := b\<rparr>) = sdsavail s"
  "sdssetlen (s\<lparr>sds_buf := b\<rparr>) n = (sdssetlen s n)\<lparr>sds_buf := b\<rparr>"
  by (simp_all add: sdslen_def sdsalloc_def sdsavail_def sdssetlen_def)

lemma sdsavail_wf: "sds_wf s \<Longrightarrow> sdsavail s = sdsalloc s - sdslen s"
  by (cases "sds_hdr s")
    (simp_all add: sds_wf_def sdsavail_def sdsalloc_def sdslen_def unat_sub word_le_nat_alt)

text \<open>Writing \<open>n\<close> bytes that fit the allocation, the terminator and the length.\<close>

lemma sds_store:
  assumes "sdsalloc s < length (sds_buf s)" and "n \<le> sdsalloc s"
    and "length buf = length (sds_buf s)" and "buf ! n = 0"
  shows "sds_wf ((sdssetlen s n)\<lparr>sds_buf := buf\<rparr>) \<and> sds_val ((sdssetlen s n)\<lparr>sds_buf := buf\<rparr>) = take n buf"
proof -
  have "n < sds_cap (sds_hdr s)" using assms(2) sdsalloc_less_cap [of s] by linarith
  then have "sdslen (sdssetlen s n) = n" "n \<le> sdsalloc (sdssetlen s n)" "sdsalloc (sdssetlen s n) \<le> sdsalloc s"
    using assms(2) by (simp_all add: sdssetlen_len sdssetlen_alloc split: sdshdr.split)
  then show ?thesis using assms by (simp add: sds_wf_def sds_val_def)
qed

subsection \<open>Allocation\<close>

lemma sdsReqType_cap: "n < 2 ^ 64 \<Longrightarrow> n < sds_cap (sds_new_hdr (sdsReqType n))"
  by (simp add: sdsReqType_def)

lemma sdssetalloc_simps:
  assumes "n < sds_cap (sds_hdr s)"
  shows "sdslen (sdssetalloc s n) = sdslen s"
    and "sdsalloc (sdssetalloc s n) = (case sds_hdr s of Sdshdr5 _ \<Rightarrow> sdslen s | _ \<Rightarrow> n)"
  using assms by (cases "sds_hdr s"; simp add: sdssetalloc_def sdslen_def sdsalloc_def unat_of_nat_fits)+

lemma sds_type_of_new [simp]: "sds_type_of (sds_new_hdr t) = t"
  by (cases t) simp_all

lemma sds_cap_type: "sds_type_of h = t \<Longrightarrow> sds_cap h = sds_cap (sds_new_hdr t)"
  by (cases h) auto

lemma sds_hdr_setlen_type [simp]: "sds_type_of (sds_hdr (sdssetlen s n)) = sds_type_of (sds_hdr s)"
  by (cases "sds_hdr s") (simp_all add: sdssetlen_def)

lemma sds_hdr5_type: "(case h of Sdshdr5 _ \<Rightarrow> a | _ \<Rightarrow> b) = (if sds_type_of h = SDS_TYPE_5 then a else b)"
  by (cases h) simp_all

lemma sds_reallocate_spec:
  assumes wf: "sds_wf s" and n: "sdslen s \<le> n" and cap: "n < sds_cap (sds_new_hdr t)" and fits: "sds_fits t n"
    and t5: "t = SDS_TYPE_5 \<Longrightarrow> n = sdslen s"
  shows "\<exists>s'. sds_reallocate junk s t (sdslen s) n = Some s' \<and> sds_wf s' \<and> sds_val s' = sds_val s \<and>
     sdslen s' = sdslen s \<and> sdsalloc s' = n \<and> sds_type_of (sds_hdr s') = t"
proof -
  let ?len = "sdslen s"
  have len: "?len < length (sds_buf s)" "sds_buf s ! ?len = 0" using wf by (auto simp: sds_wf_def)
  have fin: "sds_wf (sdssetalloc s1 n) \<and> sds_val (sdssetalloc s1 n) = sds_val s \<and>
     sdslen (sdssetalloc s1 n) = ?len \<and> sdsalloc (sdssetalloc s1 n) = n \<and> sds_type_of (sds_hdr (sdssetalloc s1 n)) = t"
    if "sds_type_of (sds_hdr s1) = t" "sdslen s1 = ?len" "length (sds_buf s1) = n + 1"
      "take (?len + 1) (sds_buf s1) = take (?len + 1) (sds_buf s)" for s1
  proof -
    have "n < sds_cap (sds_hdr s1)" using cap sds_cap_type [OF that(1)] by simp
    note a = sdssetalloc_simps [OF this, unfolded sds_hdr5_type that(1)]
    have alloc: "sdsalloc (sdssetalloc s1 n) = n" using a(2) t5 that(2) by auto
    have "take (?len + 1) (sds_buf s1) ! ?len = take (?len + 1) (sds_buf s) ! ?len" by (simp only: that(4))
    then have z: "sds_buf s1 ! ?len = 0" using len by simp
    have "take ?len (take (?len + 1) (sds_buf s1)) = take ?len (take (?len + 1) (sds_buf s))" by (simp only: that(4))
    then have v: "take ?len (sds_buf s1) = take ?len (sds_buf s)" by simp
    have ty: "sds_type_of (sds_hdr (sdssetalloc s1 n)) = t"
      using that(1) by (cases "sds_hdr s1") (simp_all add: sdssetalloc_def)
    show ?thesis using a(1) alloc z v ty that n by (simp add: sds_wf_def sds_val_def)
  qed
  show ?thesis
  proof (cases "sds_type_of (sds_hdr s) = t")
    case True
    have "take (?len + 1) (mem_realloc junk (sds_buf s) (n + 1)) = take (?len + 1) (sds_buf s)"
      using n len by (simp add: mem_realloc_def)
    then show ?thesis
      using fin [of "s\<lparr>sds_buf := mem_realloc junk (sds_buf s) (n + 1)\<rparr>"] True fits
      by (simp add: sds_reallocate_def)
  next
    case False
    let ?b = "take (?len + 1) (sds_buf s)"
    let ?buf = "?b @ drop (?len + 1) (map junk [0..<n + 1])"
    let ?s1 = "sdssetlen \<lparr>sds_hdr = sds_new_hdr t, sds_buf = ?buf\<rparr> ?len"
    have l: "length ?b = ?len + 1" using len by simp
    have "mem_read (sds_buf s) 0 (?len + 1) = Some ?b" using len by (simp add: mem_read_def)
    moreover have "mem_write (map junk [0..<n + 1]) 0 ?b = Some ?buf"
      using n l by (simp add: mem_write_def del: upt_Suc)
    ultimately have e: "sds_reallocate junk s t ?len n = Some (sdssetalloc ?s1 n)"
      using False fits by (simp add: sds_reallocate_def del: upt_Suc)
    have "sdslen ?s1 = ?len" using sdssetlen_len [of ?len "\<lparr>sds_hdr = sds_new_hdr t, sds_buf = ?buf\<rparr>"] cap n by simp
    moreover have "length ?buf = n + 1" using l n by (simp del: upt_Suc)
    moreover have "take (?len + 1) ?buf = ?b" using l by simp
    ultimately show ?thesis using fin [of ?s1] e by (simp del: upt_Suc)
  qed
qed

lemma sdsMakeRoomFor_spec:
  assumes wf: "sds_wf s" and b: "sdslen s + addlen < 2 ^ 62"
  shows "\<exists>s'. sdsMakeRoomFor junk s addlen = Some s' \<and> sds_wf s' \<and> sds_val s' = sds_val s \<and>
     sdslen s' = sdslen s \<and> sdslen s + addlen \<le> sdsalloc s'"
proof (cases "sdsavail s \<ge> addlen")
  case True
  then show ?thesis using wf by (auto simp: sdsMakeRoomFor_def sdsavail_wf sds_wf_def)
next
  case False
  let ?n = "if sdslen s + addlen < SDS_MAX_PREALLOC then (sdslen s + addlen) * 2 else sdslen s + addlen + SDS_MAX_PREALLOC"
  let ?t = "if sdsReqType ?n = SDS_TYPE_5 then SDS_TYPE_8 else sdsReqType ?n"
  have sz: "size_t (sdslen s + addlen) = sdslen s + addlen"
    "size_t (sdslen s + addlen + SDS_MAX_PREALLOC) = sdslen s + addlen + SDS_MAX_PREALLOC"
    using b by (simp_all add: size_t_def SDS_MAX_PREALLOC_def)
  have e: "sdsMakeRoomFor junk s addlen = sds_reallocate junk s ?t (sdslen s) ?n"
    using False by (simp only: sdsMakeRoomFor_def sz Let_def if_False)
  have n: "?n < 2 ^ 63" "sdslen s + addlen \<le> ?n" using b by (auto simp: SDS_MAX_PREALLOC_def)
  have "?n < sds_cap (sds_new_hdr ?t)"
  proof (cases "sdsReqType ?n = SDS_TYPE_5")
    case True
    then have "?n < 32" by (simp add: sdsReqType_def split: if_splits)
    then show ?thesis using True by simp
  next
    case False
    then show ?thesis using sdsReqType_cap [of ?n] n(1) by simp
  qed
  moreover have "sds_fits ?t ?n" using n(1) by (cases ?t) (simp_all add: sds_fits_def)
  moreover have "?t \<noteq> SDS_TYPE_5" by simp
  ultimately obtain s' where "sds_reallocate junk s ?t (sdslen s) ?n = Some s'" "sds_wf s'" "sds_val s' = sds_val s"
      "sdslen s' = sdslen s" "sdsalloc s' = ?n"
    using sds_reallocate_spec [OF wf, of ?n ?t junk] n(2) by auto
  then show ?thesis using e n(2) by auto
qed

lemma sdsRemoveFreeSpace_spec:
  assumes wf: "sds_wf s" and b: "sdslen s < 2 ^ 62"
  shows "\<exists>s'. sdsRemoveFreeSpace junk s = Some s' \<and> sds_wf s' \<and> sds_val s' = sds_val s \<and> sdsalloc s' = sdslen s"
proof -
  have "sds_fits (sdsReqType (sdslen s)) (sdslen s)" using b by (cases "sdsReqType (sdslen s)") (simp_all add: sds_fits_def)
  moreover have "sdslen s < sds_cap (sds_new_hdr (sdsReqType (sdslen s)))" using b by (intro sdsReqType_cap) simp
  ultimately show ?thesis
    using sds_reallocate_spec [OF wf, of "sdslen s" "sdsReqType (sdslen s)" junk]
    by (auto simp: sdsRemoveFreeSpace_def)
qed

lemma sdsnewlen_spec:
  assumes "initlen < 2 ^ 62" and "\<And>bs. init = Some bs \<Longrightarrow> initlen \<le> length bs"
  shows "\<exists>s. sdsnewlen junk init initlen = Some s \<and> sds_wf s \<and> sdsalloc s = initlen \<and>
     sds_val s = (case init of None \<Rightarrow> replicate initlen 0 | Some bs \<Rightarrow> take initlen bs)"
proof -
  define t where "t = (if sdsReqType initlen = SDS_TYPE_5 \<and> initlen = 0 then SDS_TYPE_8 else sdsReqType initlen)"
  let ?h = "\<lambda>b. sdssetalloc (sdssetlen \<lparr>sds_hdr = sds_new_hdr t, sds_buf = b\<rparr> initlen) initlen"
  have fits: "sds_fits t initlen" using assms(1) by (cases t) (simp_all add: sds_fits_def)
  have cap: "initlen < sds_cap (sds_new_hdr t)" using sdsReqType_cap [of initlen] assms(1) by (auto simp: t_def)
  have hdr: "sdslen (?h b) = initlen" "sdsalloc (?h b) = initlen" for b
  proof -
    let ?s = "\<lparr>sds_hdr = sds_new_hdr t, sds_buf = b\<rparr>"
    have l: "sdslen (sdssetlen ?s initlen) = initlen" by (rule sdssetlen_len) (use cap in simp)
    have "initlen < sds_cap (sds_hdr (sdssetlen ?s initlen))"
      using cap sds_cap_type [of "sds_hdr (sdssetlen ?s initlen)" t] by simp
    from sdssetalloc_simps [OF this, unfolded sds_hdr5_type l] show "sdslen (?h b) = initlen" "sdsalloc (?h b) = initlen"
      by (simp_all only: if_cancel)
  qed
  let ?v = "case init of None \<Rightarrow> replicate initlen 0 | Some bs \<Rightarrow> take initlen bs"
  obtain b0 where "sdsnewlen junk init initlen = Some ((?h b0)\<lparr>sds_buf := ?v @ [0]\<rparr>)"
  proof (cases init)
    case None
    have "put initlen 0 (replicate (initlen + 1) 0) = Some (replicate (initlen + 1) 0)"
      by (simp add: put_def list_update_same_conv nth_append del: replicate_Suc)
    moreover have "replicate (initlen + 1) 0 = replicate initlen 0 @ [0 :: u8]" by (simp add: replicate_append_same)
    ultimately show ?thesis using None fits that
      by (simp add: sdsnewlen_def Let_def flip: t_def del: replicate_Suc)
  next
    case (Some bs)
    define j where "j = map junk [0..<initlen + 1]"
    have w: "mem_read bs 0 initlen = Some (take initlen bs)" "mem_write j 0 (take initlen bs) = Some (take initlen bs @ [junk initlen])"
      "initlen = 0 \<Longrightarrow> j = [junk 0]"
      using assms(2) [OF Some] by (simp_all add: mem_read_def mem_write_def j_def)
    have p: "put initlen 0 (take initlen bs @ [junk initlen]) = Some (take initlen bs @ [0])"
      using assms(2) [OF Some] by (simp add: put_def list_update_append)
    have "sdsnewlen junk init initlen = Some ((?h j)\<lparr>sds_buf := take initlen bs @ [0]\<rparr>)"
      unfolding sdsnewlen_def Let_def t_def [symmetric] j_def [symmetric] using fits w p by (auto simp: Some)
    then show ?thesis using that Some by simp
  qed
  moreover have "length ?v = initlen" using assms(2) by (cases init) auto
  ultimately show ?thesis using hdr [of b0] by (simp add: sds_wf_def sds_val_def nth_append)
qed

subsection \<open>Appending and copying\<close>

lemma sdscatlen_spec:
  assumes wf: "sds_wf s" and b: "sdslen s + len < 2 ^ 62" and t: "len \<le> length t"
  shows "\<exists>s'. sdscatlen junk s t len = Some s' \<and> sds_wf s' \<and> sds_val s' = sds_val s @ take len t"
proof -
  let ?n = "sdslen s + len"
  obtain s1 where s1: "sdsMakeRoomFor junk s len = Some s1" "sds_wf s1" "sds_val s1 = sds_val s"
      "sdslen s1 = sdslen s" "?n \<le> sdsalloc s1"
    using sdsMakeRoomFor_spec [OF wf b] by blast
  let ?b = "take (sdslen s) (sds_buf s1) @ take len t @ drop ?n (sds_buf s1)"
  have room: "sdsalloc s1 < length (sds_buf s1)" using s1(2) by (simp add: sds_wf_def)
  then have l: "length ?b = length (sds_buf s1)" "?n < length (sds_buf s1)" using s1(5) t by simp_all
  have "take ?n (?b[?n := 0]) = take ?n ?b" "?b[?n := 0] ! ?n = 0" using l by (simp_all del: list_update_append)
  moreover have "take ?n ?b = sds_val s1 @ take len t" using s1(4) l t by (simp add: sds_val_def)
  moreover note sds_store [of s1 ?n "?b[?n := 0]"]
  moreover have "sdscatlen junk s t len = Some ((sdssetlen s1 ?n)\<lparr>sds_buf := ?b[?n := 0]\<rparr>)"
    using s1(1) t l by (simp add: sdscatlen_def mem_read_def mem_write_def put_def Let_def)
  ultimately show ?thesis using room s1(3,5) l by simp
qed

lemma sdscpylen_spec:
  assumes wf: "sds_wf s" and b: "len < 2 ^ 62" and t: "len \<le> length t"
  shows "\<exists>s'. sdscpylen junk s t len = Some s' \<and> sds_wf s' \<and> sds_val s' = take len t"
proof -
  obtain s1 where s1: "(if sdsalloc s < len then sdsMakeRoomFor junk s (len - sdslen s) else Some s) = Some s1"
      "sds_wf s1" "len \<le> sdsalloc s1"
  proof (cases "sdsalloc s < len")
    case True
    with wf b have "sdslen s \<le> len" "sdslen s + (len - sdslen s) < 2 ^ 62" by (simp_all add: sds_wf_def)
    with sdsMakeRoomFor_spec [OF wf this(2), of junk] that True show ?thesis by auto
  next
    case False
    then show ?thesis using that [of s] wf by simp
  qed
  let ?b = "(take len t @ drop len (sds_buf s1))[len := 0]"
  have room: "sdsalloc s1 < length (sds_buf s1)" using s1(2) by (simp add: sds_wf_def)
  then have l: "length ?b = length (sds_buf s1)" using s1(3) t by simp
  have "?b ! len = 0" using l s1(3) room by (intro nth_list_update_eq) (use t in simp)
  moreover have "take len ?b = take len t" using t by (simp add: take_update_cancel)
  moreover have "sdscpylen junk s t len = Some ((sdssetlen s1 len)\<lparr>sds_buf := ?b\<rparr>)"
    using s1(1,3) t room by (simp add: sdscpylen_def mem_read_def mem_write_def put_def)
  ultimately show ?thesis using sds_store [OF room s1(3) l] by simp
qed

lemma sdsgrowzero_spec:
  assumes wf: "sds_wf s" and b: "len < 2 ^ 62"
  shows "\<exists>s'. sdsgrowzero junk s len = Some s' \<and> sds_wf s' \<and> sds_val s' = sds_val s @ replicate (len - sdslen s) 0"
proof (cases "len \<le> sdslen s")
  case True
  then show ?thesis using wf by (simp add: sdsgrowzero_def)
next
  case False
  then have le: "sdslen s + (len - sdslen s) = len" by simp
  obtain s1 where s1: "sdsMakeRoomFor junk s (len - sdslen s) = Some s1" "sds_wf s1" "sds_val s1 = sds_val s"
      "sdslen s1 = sdslen s" "len \<le> sdsalloc s1"
    using sdsMakeRoomFor_spec [OF wf, of "len - sdslen s" junk] b le by auto
  have room: "sdsalloc s1 < length (sds_buf s1)" using s1(2) by (simp add: sds_wf_def)
  let ?k = "len - sdslen s"
  let ?b = "take (sdslen s) (sds_buf s1) @ replicate (?k + 1) 0 @ drop (len + 1) (sds_buf s1)"
  have l: "length ?b = length (sds_buf s1)" using room s1(5) False by simp
  have "?b ! len = 0" using room s1(5) False by (simp add: nth_append del: replicate_Suc)
  moreover have "take len ?b = sds_val s @ replicate ?k 0"
  proof -
    have "length (take (sdslen s) (sds_buf s1)) = sdslen s"
      using length_sds_val [OF s1(2)] by (simp only: sds_val_def s1(4))
    moreover have "take ?k (replicate (?k + 1) (0 :: u8)) = replicate ?k 0" by (simp del: replicate_Suc)
    ultimately show ?thesis using False s1(3,4)
      by (simp add: sds_val_def take_append del: replicate_Suc length_take)
  qed
  moreover have "sdsgrowzero junk s len = Some ((sdssetlen s1 len)\<lparr>sds_buf := ?b\<rparr>)"
    using s1(1,5) False room by (simp add: sdsgrowzero_def mem_write_def Let_def del: replicate_Suc)
  ultimately show ?thesis using sds_store [OF room s1(5) l] by simp
qed

lemma sdsclear_spec:
  assumes "sds_wf s"
  shows "\<exists>s'. sdsclear s = Some s' \<and> sds_wf s' \<and> sds_val s' = []"
proof -
  have room: "sdsalloc s < length (sds_buf s)" using assms by (simp add: sds_wf_def)
  moreover have "(sds_buf s)[0 := 0] ! 0 = 0" using room by (intro nth_list_update_eq) auto
  moreover have "sdsclear s = Some ((sdssetlen s 0)\<lparr>sds_buf := (sds_buf s)[0 := 0]\<rparr>)"
    using room by (cases "sds_buf s") (simp_all add: sdsclear_def put_def Let_def)
  ultimately show ?thesis using sds_store [of s 0 "(sds_buf s)[0 := 0]"] by simp
qed

subsection \<open>In place\<close>

lemma to_int_small: "0 \<le> n \<Longrightarrow> n < 2 ^ 31 \<Longrightarrow> to_int n = n"
  by (simp add: to_int_def signed_take_bit_eq_if_positive take_bit_int_eq_self not_le bit_iff_odd)

lemma to_int_range: "- (2 ^ 31) \<le> n \<Longrightarrow> n < 2 ^ 31 \<Longrightarrow> to_int n = n"
  by (simp add: to_int_def signed_take_bit_int_eq_self)

lemma to_int_wrap: "2 ^ 31 \<le> n \<Longrightarrow> n < 2 ^ 32 \<Longrightarrow> to_int n = n - 2 ^ 32"
proof -
  assume n: "2 ^ 31 \<le> n" "n < 2 ^ 32"
  have "to_int n = (n + 2 ^ 31) mod 2 ^ 32 - 2 ^ 31"
    by (simp add: to_int_def signed_take_bit_eq_take_bit_shift take_bit_eq_mod)
  also have "(n + 2 ^ 31) mod 2 ^ 32 = n + 2 ^ 31 - 2 ^ 32"
    using n minus_mod_self2 [of "n + 2 ^ 31" "2 ^ 32"] by (simp add: mod_pos_pos_trivial)
  finally show ?thesis by simp
qed

definition range_spec :: "bytes \<Rightarrow> int \<Rightarrow> int \<Rightarrow> bytes" where
  "range_spec v start end' =
     (let n = int (length v);
          start = (if start < 0 then max 0 (n + start) else start);
          end' = (if end' < 0 then max 0 (n + end') else end')
      in take (nat (end' - start + 1)) (drop (nat start) v))"

text \<open>Keeping \<open>n\<close> bytes from position \<open>p\<close> on.\<close>

lemma sds_keep:
  assumes wf: "sds_wf s" and n: "p + n \<le> sdslen s" and m: "m \<longrightarrow> buf = take n (drop p (sds_buf s)) @ drop n (sds_buf s)"
    and nm: "\<not> m \<longrightarrow> (p = 0 \<or> n = 0) \<and> buf = sds_buf s"
  shows "\<exists>b. put n 0 buf = Some b \<and> sds_wf ((sdssetlen s n)\<lparr>sds_buf := b\<rparr>) \<and>
     sds_val ((sdssetlen s n)\<lparr>sds_buf := b\<rparr>) = take n (drop p (sds_val s))"
proof -
  have b: "sdsalloc s < length (sds_buf s)" "n \<le> sdsalloc s" "n < length (sds_buf s)" using wf n by (simp_all add: sds_wf_def)
  have l: "length buf = length (sds_buf s)" using m nm b(3) n wf by (cases m) (auto simp: sds_wf_def)
  have v: "take n buf = take n (drop p (sds_val s))"
  proof (cases m)
    case True
    then show ?thesis using m b n wf by (simp add: sds_val_def sds_wf_def drop_take min_def) linarith
  next
    case False
    then show ?thesis using nm n by (auto simp: sds_val_def)
  qed
  have "put n 0 buf = Some (buf[n := 0])" "buf[n := 0] ! n = 0" using b l by (simp_all add: put_def)
  then show ?thesis using sds_store [OF b(1,2), of "buf[n := 0]"] l v by simp
qed

lemma memmove_front:
  "p + n \<le> length m \<Longrightarrow> memmove m 0 p n = Some (take n (drop p m) @ drop n m)"
  by (simp add: memmove_def mem_read_def mem_write_def)

lemma sdsrange_spec:
  assumes wf: "sds_wf s" and len: "sdslen s < 2 ^ 31"
    and st: "- (2 ^ 31) \<le> start" "start < 2 ^ 31" and en: "- (2 ^ 31) \<le> end'" "end' < 2 ^ 31"
  shows "\<exists>s'. sdsrange s start end' = Some s' \<and> sds_wf s' \<and> sds_val s' = range_spec (sds_val s) start end'"
proof (cases "sdslen s = 0")
  case True
  then show ?thesis using wf by (simp add: sdsrange_def range_spec_def sds_val_def Let_def)
next
  case False
  define n where "n = int (sdslen s)"
  have n: "0 < n" "n < 2 ^ 31" "nat n = sdslen s" using False len by (simp_all add: n_def)
  define a where "a = (if start < 0 then max 0 (n + start) else start)"
  define e where "e = (if end' < 0 then max 0 (n + end') else end')"
  have ti: "to_int n = n" "to_int (n - 1) = n - 1" "start < 0 \<Longrightarrow> to_int (n + start) = n + start"
     "end' < 0 \<Longrightarrow> to_int (n + end') = n + end'"
    using n st en by (simp_all add: to_int_range)
  have a: "(if start < 0 then (let st = to_int (n + start) in if st < 0 then 0 else st) else start) = a"
    using ti(3) by (auto simp: a_def Let_def max_def)
  have e: "(if end' < 0 then (let st = to_int (n + end') in if st < 0 then 0 else st) else end') = e"
    using ti(4) by (auto simp: e_def Let_def max_def)
  have a0: "0 \<le> a" "0 \<le> e" by (auto simp: a_def e_def)
  define k where "k = (if a > e \<or> a \<ge> n then 0 else min e (n - 1) - a + 1)"
  define p where "p = (if a > e then 0 else a)"
  have pk: "range_bounds n start end' = (p, k)"
    unfolding range_bounds_def a e using a0 n by (auto simp: Let_def ti k_def p_def min_def)
  have k: "0 \<le> k" "k \<noteq> 0 \<Longrightarrow> p + k \<le> n" "k \<noteq> 0 \<Longrightarrow> p = a" "0 \<le> p" using a0 n by (auto simp: k_def p_def min_def)
  have val: "range_spec (sds_val s) start end' = (if k = 0 then [] else take (nat k) (drop (nat a) (sds_val s)))"
  proof -
    have lv: "int (length (sds_val s)) = n" using length_sds_val [OF wf] by (simp add: n_def)
    have "range_spec (sds_val s) start end' = take (nat (e - a + 1)) (drop (nat a) (sds_val s))"
      by (simp only: range_spec_def lv Let_def a_def e_def)
    also have "\<dots> = (if k = 0 then [] else take (nat k) (drop (nat a) (sds_val s)))"
    proof (cases "k = 0")
      case True
      then have "a > e \<or> a \<ge> n" using a0 by (auto simp: k_def min_def split: if_splits)
      then show ?thesis using True lv a0 by auto
    next
      case False
      then have c: "a \<le> e" "a < n" "k = min e (n - 1) - a + 1" by (auto simp: k_def split: if_splits)
      have "length (drop (nat a) (sds_val s)) = nat (n - a)" using lv a0(1) by (simp add: nat_diff_distrib) 
      then show ?thesis using False c a0
        by (cases "e \<le> n - 1") (simp_all add: min_def)
    qed
    finally show ?thesis .
  qed
  define P where "P = (if k = 0 then 0 else nat p)"
  define b where "b = (if p \<noteq> 0 \<and> k \<noteq> 0 then take (nat k) (drop P (sds_buf s)) @ drop (nat k) (sds_buf s) else sds_buf s)"
  have mv: "(if p \<noteq> 0 \<and> k \<noteq> 0 then memmove (sds_buf s) 0 (nat p) (nat k) else Some (sds_buf s)) = Some b"
  proof (cases "p \<noteq> 0 \<and> k \<noteq> 0")
    case True
    then have "nat p + nat k \<le> length (sds_buf s)" using k n wf by (simp add: sds_wf_def nat_le_iff) linarith
    then show ?thesis using True memmove_front by (simp add: b_def P_def)
  qed (auto simp: b_def)
  have "P + nat k \<le> sdslen s" using k n by (auto simp: P_def n_def)
  moreover have "p \<noteq> 0 \<and> k \<noteq> 0 \<longrightarrow> b = take (nat k) (drop P (sds_buf s)) @ drop (nat k) (sds_buf s)"
    "\<not> (p \<noteq> 0 \<and> k \<noteq> 0) \<longrightarrow> (P = 0 \<or> nat k = 0) \<and> b = sds_buf s" by (auto simp: b_def P_def)
  ultimately obtain b' where b': "put (nat k) 0 b = Some b'"
      "sds_wf ((sdssetlen s (nat k))\<lparr>sds_buf := b'\<rparr>)" "sds_val ((sdssetlen s (nat k))\<lparr>sds_buf := b'\<rparr>) = take (nat k) (drop P (sds_val s))"
    using sds_keep [OF wf, of P "nat k" "p \<noteq> 0 \<and> k \<noteq> 0" b] by blast
  have "sdsrange s start end' = Some ((sdssetlen s (nat k))\<lparr>sds_buf := b'\<rparr>)"
    using False mv b'(1) unfolding sdsrange_def n_def [symmetric] pk by simp
  then show ?thesis using b' val k by (auto simp: P_def)
qed

lemma trim_left_spec:
  assumes "sp \<le> n" and "n \<le> length buf"
  shows "trim_left cset buf n sp \<le> n \<and> drop (trim_left cset buf n sp) (take n buf) = dropWhile (strchr cset) (drop sp (take n buf))"
  using assms
proof (induction cset buf n sp rule: trim_left.induct)
  case (1 cset buf n sp)
  show ?case
  proof (cases "sp < n")
    case True
    then have d: "drop sp (take n buf) = buf ! sp # drop (Suc sp) (take n buf)"
      using 1(3) by (simp add: Cons_nth_drop_Suc [symmetric])
    show ?thesis using 1(1) 1(3) True d by (subst (1 2) trim_left.simps) simp
  next
    case False
    then show ?thesis using 1(2) by (subst (1 2) trim_left.simps) simp
  qed
qed

lemma trim_right_spec:
  assumes "n \<le> length buf" and "sp < n" and "\<not> strchr cset (buf ! sp)"
  shows "sp < trim_right cset buf sp n \<and> trim_right cset buf sp n \<le> n \<and>
     take (trim_right cset buf sp n - sp) (drop sp buf) = rev (dropWhile (strchr cset) (rev (take (n - sp) (drop sp buf))))"
  using assms
proof (induction n)
  case (Suc ep)
  have t: "take (Suc ep - sp) (drop sp buf) = take (ep - sp) (drop sp buf) @ [buf ! ep]"
    using Suc.prems by (simp add: Suc_diff_le take_Suc_conv_app_nth)
  show ?case
  proof (cases "ep > sp \<and> strchr cset (buf ! ep)")
    case True
    then show ?thesis using Suc t by simp
  next
    case False
    then have "\<not> strchr cset (buf ! ep)" using Suc.prems by (cases "ep = sp") auto
    then show ?thesis using False Suc.prems t by (auto simp: less_Suc_eq_le)
  qed
qed simp

definition trim_spec :: "bytes \<Rightarrow> bytes \<Rightarrow> bytes" where
  "trim_spec cset v = rev (dropWhile (strchr cset) (rev (dropWhile (strchr cset) v)))"

lemma sdstrim_spec:
  assumes wf: "sds_wf s"
  shows "\<exists>s'. sdstrim s cset = Some s' \<and> sds_wf s' \<and> sds_val s' = trim_spec cset (sds_val s)"
proof -
  let ?n = "sdslen s" and ?buf = "sds_buf s"
  define sp where "sp = trim_left cset ?buf ?n 0"
  define ep where "ep = trim_right cset ?buf sp ?n"
  have n: "?n < length ?buf" using wf by (simp add: sds_wf_def)
  have sp: "sp \<le> ?n" "drop sp (sds_val s) = dropWhile (strchr cset) (sds_val s)"
    using trim_left_spec [of 0 ?n ?buf cset] n by (simp_all add: sp_def sds_val_def)
  have main: "sp + (ep - sp) \<le> ?n \<and> take (ep - sp) (drop sp (sds_val s)) = trim_spec cset (sds_val s)"
  proof (cases "sp < ?n")
    case True
    have ds: "drop sp (sds_val s) = ?buf ! sp # drop (Suc sp) (sds_val s)"
      using True n by (simp add: sds_val_def Cons_nth_drop_Suc [symmetric])
    then have nz: "\<not> strchr cset (?buf ! sp)" using sp(2) by (metis dropWhile_eq_Cons_conv)
    have dt: "drop sp (sds_val s) = take (?n - sp) (drop sp ?buf)" by (simp add: sds_val_def drop_take)
    from trim_right_spec [OF less_imp_le [OF n] True nz] have r: "sp < ep" "ep \<le> ?n"
       "take (ep - sp) (drop sp ?buf) = rev (dropWhile (strchr cset) (rev (drop sp (sds_val s))))"
      by (simp_all add: ep_def dt)
    then show ?thesis unfolding trim_spec_def sp(2) [symmetric] dt by (simp add: min_def)
  next
    case False
    then have "sp = ?n" using sp(1) by simp
    moreover from this have "[] = dropWhile (strchr cset) (sds_val s)" using sp(2) length_sds_val [OF wf] by simp
    then have "trim_spec cset (sds_val s) = []" unfolding trim_spec_def by (metis dropWhile.simps(1) rev.simps(1))
    moreover have "trim_right cset ?buf sp k \<le> k" for k by (induction k) auto
    then have "ep - sp = 0" using \<open>sp = ?n\<close> by (simp add: ep_def)
    ultimately show ?thesis by simp
  qed
  define b where "b = (if sp \<noteq> 0 then take (ep - sp) (drop sp ?buf) @ drop (ep - sp) ?buf else ?buf)"
  have "(if sp \<noteq> 0 then memmove ?buf 0 sp (ep - sp) else Some ?buf) = Some b"
    using memmove_front [of sp "ep - sp" ?buf] main n by (simp add: b_def)
  moreover obtain b' where "put (ep - sp) 0 b = Some b'" "sds_wf ((sdssetlen s (ep - sp))\<lparr>sds_buf := b'\<rparr>)"
      "sds_val ((sdssetlen s (ep - sp))\<lparr>sds_buf := b'\<rparr>) = take (ep - sp) (drop sp (sds_val s))"
    using sds_keep [OF wf, of sp "ep - sp" "sp \<noteq> 0" b] main by (auto simp: b_def)
  ultimately show ?thesis using main by (simp add: sdstrim_def flip: sp_def ep_def)
qed

lemma sds_map_loop_spec:
  "j + n \<le> length buf \<Longrightarrow> sds_map_loop f n j buf = Some (take j buf @ map f (take n (drop j buf)) @ drop (j + n) buf)"
proof (induction n arbitrary: j buf)
  case (Suc n)
  have "drop j buf = buf ! j # drop (Suc j) buf" using Suc.prems by (simp add: Cons_nth_drop_Suc)
  then show ?case using Suc.prems Suc.IH [of "Suc j" "buf[j := f (buf ! j)]"]
    by (simp add: take_Suc_conv_app_nth)
qed simp

lemma sds_map_spec:
  assumes wf: "sds_wf s"
  shows "\<exists>b. sds_map_loop f (sdslen s) 0 (sds_buf s) = Some b \<and> sds_wf (s\<lparr>sds_buf := b\<rparr>) \<and>
     sds_val (s\<lparr>sds_buf := b\<rparr>) = map f (sds_val s)"
  using wf sds_map_loop_spec [of 0 "sdslen s" "sds_buf s" f] by (auto simp: sds_wf_def sds_val_def nth_append)

lemma uint_inj: "uint x = uint y \<longleftrightarrow> x = (y :: 'a::len word)"
  by (metis word_of_int_uint)

lemma memcmp_order:
  assumes "n = min (length xs) (length ys)"
  shows "memcmp (xs @ as) (ys @ bs) n = 0 \<longleftrightarrow> take n xs = take n ys"
    and "(if memcmp (xs @ as) (ys @ bs) n = 0 then length xs < length ys else memcmp (xs @ as) (ys @ bs) n < 0)
       \<longleftrightarrow> (xs, ys) \<in> lexord {(a, b). a < b}"
  using assms
  by (induction xs ys arbitrary: n rule: list_induct2') (auto simp: word_less_def uint_inj neq_Nil_conv split: if_splits)

lemma sdscmp_spec:
  assumes "sds_wf s1" "sds_wf s2" "sdslen s1 < 2 ^ 31" "sdslen s2 < 2 ^ 31"
  shows "sdscmp s1 s2 = 0 \<longleftrightarrow> sds_val s1 = sds_val s2"
    and "sdscmp s1 s2 < 0 \<longleftrightarrow> (sds_val s1, sds_val s2) \<in> lexord {(a, b). a < b}"
proof -
  let ?n = "min (sdslen s1) (sdslen s2)"
  have b: "sds_buf s = sds_val s @ drop (sdslen s) (sds_buf s)" for s by (simp add: sds_val_def)
  have l: "length (sds_val s1) = sdslen s1" "length (sds_val s2) = sdslen s2" using assms length_sds_val by auto
  let ?c = "memcmp (sds_buf s1) (sds_buf s2) ?n"
  have m: "?c = 0 \<longleftrightarrow> take ?n (sds_val s1) = take ?n (sds_val s2)"
    "(if ?c = 0 then sdslen s1 < sdslen s2 else ?c < 0) \<longleftrightarrow> (sds_val s1, sds_val s2) \<in> lexord {(a, b). a < b}"
    using memcmp_order [of ?n "sds_val s1" "sds_val s2" "drop (sdslen s1) (sds_buf s1)" "drop (sdslen s2) (sds_buf s2)"]
    by (simp_all only: l b [symmetric])
  have t: "to_int (int (sdslen s1) - int (sdslen s2)) = int (sdslen s1) - int (sdslen s2)"
    using assms(3,4) by (simp add: to_int_range)
  have c: "sdscmp s1 s2 = (if ?c = 0 then int (sdslen s1) - int (sdslen s2) else ?c)"
    by (simp only: sdscmp_def Let_def t min_def) (simp add: not_less)
  show "sdscmp s1 s2 = 0 \<longleftrightarrow> sds_val s1 = sds_val s2" using c m(1) l by auto
  show "sdscmp s1 s2 < 0 \<longleftrightarrow> (sds_val s1, sds_val s2) \<in> lexord {(a, b). a < b}" using c m(2) by auto
qed

section \<open>Histories\<close>

text \<open>
  Calls on one string. The abstract value is the list of the bytes; what the calls do to it is
  \<open>str_exec\<close>.
\<close>

datatype sds_op =
  Cat bytes | Copy bytes | GrowZero nat | Trim bytes | Range int int | Clear | MakeRoom nat | RemoveFree
  | Lower | Upper | MapChars bytes bytes | Incr int

fun sds_exec :: "(nat \<Rightarrow> u8) \<Rightarrow> sds_op \<Rightarrow> sds \<Rightarrow> sds option" where
  "sds_exec junk (Cat t) s = sdscatlen junk s t (length t)"
| "sds_exec junk (Copy t) s = sdscpylen junk s t (length t)"
| "sds_exec junk (GrowZero n) s = sdsgrowzero junk s n"
| "sds_exec junk (Trim cset) s = sdstrim s cset"
| "sds_exec junk (Range a b) s = sdsrange s a b"
| "sds_exec junk Clear s = sdsclear s"
| "sds_exec junk (MakeRoom n) s = sdsMakeRoomFor junk s n"
| "sds_exec junk RemoveFree s = sdsRemoveFreeSpace junk s"
| "sds_exec junk Lower s = sdstolower s"
| "sds_exec junk Upper s = sdstoupper s"
| "sds_exec junk (MapChars from to) s = sdsmapchars s from to"
| "sds_exec junk (Incr n) s = sdsIncrLen s n"

fun str_exec :: "sds_op \<Rightarrow> bytes \<Rightarrow> bytes" where
  "str_exec (Cat t) v = v @ t"
| "str_exec (Copy t) v = t"
| "str_exec (GrowZero n) v = v @ replicate (n - length v) 0"
| "str_exec (Trim cset) v = trim_spec cset v"
| "str_exec (Range a b) v = range_spec v a b"
| "str_exec Clear v = []"
| "str_exec (MakeRoom n) v = v"
| "str_exec RemoveFree v = v"
| "str_exec Lower v = map tolower v"
| "str_exec Upper v = map toupper v"
| "str_exec (MapChars from to) v = map (map_char from to) v"
| "str_exec (Incr n) v = take (nat (int (length v) + n)) v"

text \<open>
  The arguments the code is written for: strings below 2 GB, \<open>int\<close> indexes, and for
  \<open>sdsIncrLen\<close> a removal from the right end that the string is long enough for.
\<close>

fun op_ok :: "sds_op \<Rightarrow> bytes \<Rightarrow> bool" where
  "op_ok (GrowZero n) v \<longleftrightarrow> n < 2 ^ 31"
| "op_ok (Range a b) v \<longleftrightarrow> - (2 ^ 31) \<le> a \<and> a < 2 ^ 31 \<and> - (2 ^ 31) \<le> b \<and> b < 2 ^ 31"
| "op_ok (MakeRoom n) v \<longleftrightarrow> n < 2 ^ 61"
| "op_ok (Incr n) v \<longleftrightarrow> n < 0 \<and> - n \<le> int (length v)"
| "op_ok _ v \<longleftrightarrow> True"

fun sds_run :: "((nat \<Rightarrow> u8) \<times> sds_op) list \<Rightarrow> sds \<Rightarrow> sds option" where
  "sds_run [] s = Some s"
| "sds_run ((junk, a) # as) s = do { s \<leftarrow> sds_exec junk a s; sds_run as s }"

fun str_run :: "((nat \<Rightarrow> u8) \<times> sds_op) list \<Rightarrow> bytes \<Rightarrow> bytes" where
  "str_run [] v = v"
| "str_run ((_, a) # as) v = str_run as (str_exec a v)"

fun run_ok :: "((nat \<Rightarrow> u8) \<times> sds_op) list \<Rightarrow> bytes \<Rightarrow> bool" where
  "run_ok [] v \<longleftrightarrow> True"
| "run_ok ((_, a) # as) v \<longleftrightarrow> op_ok a v \<and> length (str_exec a v) < 2 ^ 31 \<and> run_ok as (str_exec a v)"

lemma sdsIncrLen_spec:
  assumes wf: "sds_wf s" and n: "n < 0" "- n \<le> int (sdslen s)"
  shows "\<exists>s'. sdsIncrLen s n = Some s' \<and> sds_wf s' \<and> sds_val s' = take (nat (int (sdslen s) + n)) (sds_val s)"
proof -
  let ?k = "nat (int (sdslen s) + n)"
  have k: "?k \<le> sdslen s" using n by simp
  then have cap: "?k < sds_cap (sds_hdr s)" using sdslen_less_cap [of s] by simp
  obtain b where b: "put ?k 0 (sds_buf s) = Some b" "sds_wf ((sdssetlen s ?k)\<lparr>sds_buf := b\<rparr>)"
     "sds_val ((sdssetlen s ?k)\<lparr>sds_buf := b\<rparr>) = take ?k (drop 0 (sds_val s))"
    using sds_keep [OF wf, of 0 ?k False "sds_buf s"] k by auto
  then show ?thesis using n sdssetlen_len [OF cap]
    by (auto simp: sdsIncrLen_def Let_def split: sdshdr.split)
qed

lemma sds_exec_spec:
  assumes wf: "sds_wf s" and len: "length (sds_val s) < 2 ^ 31" and ok: "op_ok a (sds_val s)"
    and res: "length (str_exec a (sds_val s)) < 2 ^ 31"
  shows "\<exists>s'. sds_exec junk a s = Some s' \<and> sds_wf s' \<and> sds_val s' = str_exec a (sds_val s)"
proof -
  have l: "length (sds_val s) = sdslen s" by (rule length_sds_val [OF wf])
  have ti: "nat (to_int (int (sdslen s))) = sdslen s" using len l by (simp add: to_int_small)
  note m = sds_map_spec [OF wf]
  show ?thesis
  proof (cases a)
    case (Cat t)
    then show ?thesis using sdscatlen_spec [OF wf, of "length t" t junk] res l by simp
  next
    case (Copy t)
    then show ?thesis using sdscpylen_spec [OF wf, of "length t" t junk] res by simp
  next
    case (GrowZero n)
    then show ?thesis using sdsgrowzero_spec [OF wf, of n junk] ok l by simp
  next
    case (Trim x4)
    then show ?thesis using sdstrim_spec [OF wf] by simp
  next
    case (Range x y)
    then show ?thesis using sdsrange_spec [OF wf, of x y] ok len l by simp
  next
    case Clear
    then show ?thesis using sdsclear_spec [OF wf] by simp
  next
    case (MakeRoom n)
    then show ?thesis using sdsMakeRoomFor_spec [OF wf, of n junk] ok len l by auto
  next
    case RemoveFree
    then show ?thesis using sdsRemoveFreeSpace_spec [OF wf, of junk] len l by auto
  next
    case Lower
    then show ?thesis using m [of tolower] ti by (auto simp: sdstolower_def)
  next
    case Upper
    then show ?thesis using m [of toupper] ti by (auto simp: sdstoupper_def)
  next
    case (MapChars f t)
    then show ?thesis using m [of "map_char f t"] by (auto simp: sdsmapchars_def)
  next
    case (Incr n)
    then show ?thesis using sdsIncrLen_spec [OF wf, of n] ok l by simp
  qed
qed

lemma sds_run_spec:
  "sds_wf s \<Longrightarrow> length (sds_val s) < 2 ^ 31 \<Longrightarrow> run_ok as (sds_val s) \<Longrightarrow>
     \<exists>s'. sds_run as s = Some s' \<and> sds_wf s' \<and> sds_val s' = str_run as (sds_val s)"
proof (induction as arbitrary: s)
  case (Cons p as)
  obtain junk a where p: "p = (junk, a)" by (cases p)
  with Cons.prems sds_exec_spec [of s a junk] obtain s1 where
    "sds_exec junk a s = Some s1" "sds_wf s1" "sds_val s1 = str_exec a (sds_val s)" by auto
  with Cons.IH [of s1] Cons.prems p show ?case by auto
qed simp

text \<open>
  C24. Dynamic strings implement byte strings. A new string holds its initial bytes; after any
  history of appending, copying, growing, trimming, taking ranges, clearing, reserving and
  releasing space, changing case, mapping characters and removing bytes from the end, with
  results below 2 GB, its bytes are those the same operations give on lists. No call writes
  outside the block, whatever fresh memory holds, and the final string is zero terminated, its
  length within its allocation and that within the block, for each of the five headers.
\<close>

theorem sds_refines_bytes:
  assumes "length init < 2 ^ 31" and "run_ok as init"
  shows "\<exists>s0 s. sdsnewlen junk (Some init) (length init) = Some s0 \<and> sds_run as s0 = Some s \<and>
     sds_val s = str_run as init \<and> sdslen s = length (str_run as init) \<and> sdslen s \<le> sdsalloc s \<and>
     sdsalloc s < length (sds_buf s) \<and> sds_buf s ! sdslen s = 0"
proof -
  obtain s0 where s0: "sdsnewlen junk (Some init) (length init) = Some s0" "sds_wf s0" "sds_val s0 = init"
    using sdsnewlen_spec [of "length init" "Some init" junk] assms(1) by auto
  with sds_run_spec [of s0 as] assms obtain s where
    "sds_run as s0 = Some s" "sds_wf s" "sds_val s = str_run as init" by auto
  with s0 length_sds_val [of s] show ?thesis by (auto simp: sds_wf_def)
qed

text \<open>A string that grows out of its first header.\<close>

theorem sds_refines_bytes_witness:
  "\<exists>s0 s. sdsnewlen (\<lambda>_. 7) (Some [1, 2]) (length [1, 2 :: u8]) = Some s0 \<and>
     sds_run [(\<lambda>_. 9, Cat (replicate 300 5)), (\<lambda>_. 8, Range 1 (- 300)), (\<lambda>_. 8, Trim [2])] s0 = Some s \<and>
     sds_val s = [5]"
proof -
  let ?as = "[(\<lambda>_. 9, Cat (replicate 300 5)), (\<lambda>_. 8, Range 1 (- 300)), (\<lambda>_. 8, Trim [2])]"
  have "range_spec ([1, 2] @ replicate 300 5) 1 (- 300) = [2, 5]" by (simp add: range_spec_def)
  moreover have "trim_spec [2] [2, 5] = [5]" by (simp add: trim_spec_def strchr_def)
  ultimately have "str_run ?as [1, 2] = [5]" "run_ok ?as [1, 2]" by simp_all
  with sds_refines_bytes [of "[1, 2]" ?as "\<lambda>_. 7"] show ?thesis by (auto simp del: sds_run.simps)
qed

text \<open>
  \<open>sdscmp\<close> is the lexicographic order of unsigned bytes, a proper prefix being smaller, on
  strings below 2 GB.
\<close>

theorem sdscmp_lexicographic:
  assumes "sds_wf s1" "sds_wf s2" "sdslen s1 < 2 ^ 31" "sdslen s2 < 2 ^ 31"
  shows "(sdscmp s1 s2 = 0 \<longleftrightarrow> sds_val s1 = sds_val s2) \<and>
     (sdscmp s1 s2 < 0 \<longleftrightarrow> (sds_val s1, sds_val s2) \<in> lexord {(a, b). a < b})"
  using sdscmp_spec [OF assms] by simp

text \<open>An empty string and its one byte extension.\<close>

theorem sdscmp_lexicographic_witness:
  "sdscmp \<lparr>sds_hdr = Sdshdr8 0 1, sds_buf = [0, 0]\<rparr> \<lparr>sds_hdr = Sdshdr5 8, sds_buf = [0, 0]\<rparr> < 0"
  using sdscmp_lexicographic [of "\<lparr>sds_hdr = Sdshdr8 0 1, sds_buf = [0, 0]\<rparr>" "\<lparr>sds_hdr = Sdshdr5 8, sds_buf = [0, 0]\<rparr>"]
  by (simp add: sds_wf_def sdslen_def sdsalloc_def sds_val_def SDS_TYPE_5_LEN_def lexord_Nil_left drop_bit_eq_div)

text \<open>
  C25. The positions of \<open>sdsrange\<close> are \<open>int\<close>s. On a string of more than 2 GB and less than 4 GB,
  the range from the first to the last byte, which callers use to drop nothing, empties the string.
\<close>

theorem sdsrange_truncates_large:
  assumes "sds_wf s" and "2 ^ 31 < sdslen s" and "sdslen s < 2 ^ 32"
  shows "\<exists>s'. sdsrange s 0 (- 1) = Some s' \<and> sds_val s' = []"
proof -
  define n where "n = int (sdslen s)"
  have n: "2 ^ 31 < n" "n < 2 ^ 32" using assms(2,3) by (simp_all add: n_def)
  have "to_int n = n - 2 ^ 32" "to_int (n + - 1) = n + - 1 - 2 ^ 32" using n by (simp_all add: to_int_wrap)
  then have "range_bounds n 0 (- 1) = (0, 0)" using n by (simp add: range_bounds_def Let_def)
  moreover obtain b where "put 0 0 (sds_buf s) = Some b" "sds_val ((sdssetlen s 0)\<lparr>sds_buf := b\<rparr>) = []"
    using sds_keep [OF assms(1), of 0 0 False "sds_buf s"] by auto
  ultimately show ?thesis using assms(2) by (simp add: sdsrange_def flip: n_def)
qed

text \<open>A string of that size with its 32 bit header.\<close>

theorem sdsrange_truncates_large_witness:
  "\<exists>s. sdslen s = 2 ^ 31 + 1 \<and> (\<exists>s'. sdsrange s 0 (- 1) = Some s' \<and> sds_val s' = [])"
proof -
  obtain s where s: "sdsnewlen (\<lambda>_. 0) None (2 ^ 31 + 1) = Some s" "sds_wf s" "sds_val s = replicate (2 ^ 31 + 1) 0"
    using sdsnewlen_spec [of "2 ^ 31 + 1" None "\<lambda>_. 0"] by auto
  have "sdslen s = 2 ^ 31 + 1" using length_sds_val [OF s(2)] unfolding s(3) length_replicate by (rule sym)
  with sdsrange_truncates_large [OF s(2)] show ?thesis by auto
qed

end
