(* ===== verification/Sds_Split.thy ===== *)
theory Sds_Split
  imports Sds "HOL-Library.Sublist"
begin

section \<open>Splitting, joining and quoting: the rest of \<open>sds.c\<close>\<close>

text \<open>
  The functions that cut strings into tokens or print them. The strings they build with
  \<open>sdscatlen\<close> and \<open>sdsnewlen\<close> are represented by their values, the byte lists those functions
  are shown to compute in theory \<open>Sds\<close>. The outer \<open>None\<close> is an access outside a buffer or array.
\<close>

subsection \<open>Integers\<close>

definition SDS_LLSTR_SIZE :: nat where "SDS_LLSTR_SIZE = 21"

text \<open>\<open>do { *p++ = '0' + (v % 10); v /= 10; } while (v)\<close>\<close>

fun digits_loop :: "nat \<Rightarrow> nat \<Rightarrow> bytes \<Rightarrow> (nat \<times> bytes) option" where
  "digits_loop v p buf = do {
     buf \<leftarrow> put p (48 + of_nat (v mod 10)) buf;
     if v div 10 = 0 then Some (p + 1, buf) else digits_loop (v div 10) (p + 1) buf
   }"

declare digits_loop.simps [simp del]

text \<open>The two pointers that meet in the middle.\<close>

function reverse_loop :: "nat \<Rightarrow> nat \<Rightarrow> bytes \<Rightarrow> bytes option" where
  "reverse_loop s p buf =
     (if s < p then
        (if p < length buf then reverse_loop (s + 1) (p - 1) (buf[s := buf ! p, p := buf ! s]) else None)
      else Some buf)"
  by pat_completeness auto
termination by (relation "measure (\<lambda>(s, p, _). p - s)") auto

declare reverse_loop.simps [simp del]

text \<open>The negation of the least value wraps around to itself, whose unsigned value is \<open>2 ^ 63\<close>.\<close>

definition sdsll2str :: "bytes \<Rightarrow> int \<Rightarrow> (nat \<times> bytes) option" where
  "sdsll2str buf value = do {
     let v = (if value < 0 then nat (- value) else nat value);
     (p, buf) \<leftarrow> digits_loop v 0 buf;
     (p, buf) \<leftarrow> (if value < 0 then do { buf \<leftarrow> put p 45 buf; Some (p + 1, buf) } else Some (p, buf));
     buf \<leftarrow> put p 0 buf;
     buf \<leftarrow> reverse_loop 0 (p - 1) buf;
     Some (p, buf)
   }"

definition sdsull2str :: "bytes \<Rightarrow> nat \<Rightarrow> (nat \<times> bytes) option" where
  "sdsull2str buf v = do {
     (p, buf) \<leftarrow> digits_loop v 0 buf;
     buf \<leftarrow> put p 0 buf;
     buf \<leftarrow> reverse_loop 0 (p - 1) buf;
     Some (p, buf)
   }"

definition sdsfromlonglong :: "(nat \<Rightarrow> u8) \<Rightarrow> int \<Rightarrow> sds option" where
  "sdsfromlonglong junk value = do {
     (len, buf) \<leftarrow> sdsll2str (map junk [0..<SDS_LLSTR_SIZE]) value;
     sdsnewlen junk (Some buf) len
   }"

subsection \<open>Separators\<close>

text \<open>The loop of \<open>sdssplitlen\<close>: \<open>slots\<close> is the size of the array the tokens are kept in.\<close>

definition sep_at :: "bytes \<Rightarrow> bytes \<Rightarrow> nat \<Rightarrow> bool" where
  "sep_at s sep j \<longleftrightarrow> length sep = 1 \<and> s ! j = sep ! 0 \<or> memcmp (drop j s) sep (length sep) = 0"

function split_loop :: "bytes \<Rightarrow> bytes \<Rightarrow> nat \<Rightarrow> nat \<Rightarrow> bytes list \<Rightarrow> nat \<Rightarrow> (nat \<times> bytes list \<times> nat) option" where
  "split_loop s sep j start tokens slots =
     (if sep \<noteq> [] \<and> j + length sep \<le> length s then
        (let slots = (if slots < length tokens + 2 then slots * 2 else slots) in
         if sep_at s sep j then
           (if length tokens < slots then
              split_loop s sep (j + length sep) (j + length sep) (tokens @ [take (j - start) (drop start s)]) slots
            else None)
         else split_loop s sep (j + 1) start tokens slots)
      else Some (start, tokens, slots))"
  by pat_completeness auto
termination
  by (relation "measure (\<lambda>(s, sep, j, _). length s - j)") (auto simp: neq_Nil_conv)

declare split_loop.simps [simp del]

text \<open>\<open>Some None\<close> is the result \<open>NULL\<close>.\<close>

definition sdssplitlen :: "bytes \<Rightarrow> bytes \<Rightarrow> bytes list option option" where
  "sdssplitlen s sep =
     (if length sep < 1 then Some None
      else if s = [] then Some (Some [])
      else do {
        (start, tokens, slots) \<leftarrow> split_loop s sep 0 0 [] 5;
        if length tokens < slots then Some (Some (tokens @ [take (length s - start) (drop start s)])) else None
      })"

fun join_loop :: "bytes \<Rightarrow> bytes list \<Rightarrow> bytes \<Rightarrow> bytes" where
  "join_loop sep [] join = join"
| "join_loop sep (a # as) join = join_loop sep as (if as \<noteq> [] then join @ a @ sep else join @ a)"

definition sdsjoinsds :: "bytes list \<Rightarrow> bytes \<Rightarrow> bytes" where
  "sdsjoinsds argv sep = join_loop sep argv []"

subsection \<open>Quoting\<close>

definition isprint :: "u8 \<Rightarrow> bool" where
  "isprint c \<longleftrightarrow> 32 \<le> c \<and> c \<le> 126"

definition isspace :: "u8 \<Rightarrow> bool" where
  "isspace c \<longleftrightarrow> c = 32 \<or> 9 \<le> c \<and> c \<le> 13"

text \<open>\<open>%02x\<close>\<close>

definition hex_char :: "u8 \<Rightarrow> u8" where
  "hex_char d = (if d < 10 then 48 + d else 87 + d)"

text \<open>One turn of the loop of \<open>sdscatrepr\<close>: backslash and the double quote, the five named
  escapes, printable characters and the rest.\<close>

definition repr_char :: "u8 \<Rightarrow> bytes" where
  "repr_char c =
     (if c = 92 \<or> c = 34 then [92, c]
      else if c = 10 then [92, 110]
      else if c = 13 then [92, 114]
      else if c = 9 then [92, 116]
      else if c = 7 then [92, 97]
      else if c = 8 then [92, 98]
      else if isprint c then [c]
      else [92, 120, hex_char (c div 16), hex_char (c mod 16)])"

fun repr_loop :: "bytes \<Rightarrow> bytes \<Rightarrow> bytes" where
  "repr_loop s [] = s"
| "repr_loop s (c # p) = repr_loop (s @ repr_char c) p"

definition sdscatrepr :: "bytes \<Rightarrow> bytes \<Rightarrow> bytes" where
  "sdscatrepr s p = repr_loop (s @ [34]) p @ [34]"

definition is_hex_digit :: "u8 \<Rightarrow> bool" where
  "is_hex_digit c \<longleftrightarrow> 48 \<le> c \<and> c \<le> 57 \<or> 97 \<le> c \<and> c \<le> 102 \<or> 65 \<le> c \<and> c \<le> 70"

definition hex_digit_to_int :: "u8 \<Rightarrow> u8" where
  "hex_digit_to_int c =
     (if 48 \<le> c \<and> c \<le> 57 then c - 48
      else if 97 \<le> c \<and> c \<le> 102 then c - 97 + 10
      else if 65 \<le> c \<and> c \<le> 70 then c - 65 + 10
      else 0)"

text \<open>The conjunction stops at the first operand that fails, so it reads no further than that.\<close>

fun all_at :: "(u8 \<Rightarrow> bool) list \<Rightarrow> bytes \<Rightarrow> bool option" where
  "all_at [] p = Some True"
| "all_at (t # ts) [] = None"
| "all_at (t # ts) (c # p) = (if t c then all_at ts p else Some False)"

definition unescape :: "u8 \<Rightarrow> u8" where
  "unescape c =
     (if c = 110 then 10 else if c = 114 then 13 else if c = 116 then 9 else if c = 98 then 8
      else if c = 97 then 7 else c)"

datatype quoting = Plain | InQ | InSQ

datatype tok_result = TokErr | TokDone bytes bytes | TokMore quoting bytes bytes

text \<open>A closing quote must be followed by a space or nothing at all.\<close>

definition close_quote :: "bytes \<Rightarrow> bytes \<Rightarrow> tok_result option" where
  "close_quote p current = do {
     n \<leftarrow> byte_at p 1;
     if n \<noteq> 0 \<and> \<not> isspace n then Some TokErr else Some (TokDone (tl p) current)
   }"

definition step_inq :: "bytes \<Rightarrow> bytes \<Rightarrow> tok_result option" where
  "step_inq p current = do {
     hex \<leftarrow> all_at [(=) 92, (=) 120, is_hex_digit, is_hex_digit] p;
     if hex then do {
       h \<leftarrow> byte_at p 2; l \<leftarrow> byte_at p 3;
       Some (TokMore InQ (drop 4 p) (current @ [hex_digit_to_int h * 16 + hex_digit_to_int l]))
     } else do {
       esc \<leftarrow> all_at [(=) 92, (\<noteq>) 0] p;
       if esc then do { c \<leftarrow> byte_at p 1; Some (TokMore InQ (drop 2 p) (current @ [unescape c])) }
       else do {
         c \<leftarrow> byte_at p 0;
         if c = 34 then close_quote p current
         else if c = 0 then Some TokErr
         else Some (TokMore InQ (tl p) (current @ [c]))
       }
     }
   }"

definition step_insq :: "bytes \<Rightarrow> bytes \<Rightarrow> tok_result option" where
  "step_insq p current = do {
     esc \<leftarrow> all_at [(=) 92, (=) 39] p;
     if esc then Some (TokMore InSQ (drop 2 p) (current @ [39]))
     else do {
       c \<leftarrow> byte_at p 0;
       if c = 39 then close_quote p current
       else if c = 0 then Some TokErr
       else Some (TokMore InSQ (tl p) (current @ [c]))
     }
   }"

definition step_plain :: "bytes \<Rightarrow> bytes \<Rightarrow> tok_result option" where
  "step_plain p current = do {
     c \<leftarrow> byte_at p 0;
     if c = 0 then Some (TokDone p current)
     else if c = 32 \<or> c = 10 \<or> c = 13 \<or> c = 9 then Some (TokDone (tl p) current)
     else if c = 34 then Some (TokMore InQ (tl p) current)
     else if c = 39 then Some (TokMore InSQ (tl p) current)
     else Some (TokMore Plain (tl p) (current @ [c]))
   }"

fun tok_step :: "quoting \<Rightarrow> bytes \<Rightarrow> bytes \<Rightarrow> tok_result option" where
  "tok_step InQ = step_inq"
| "tok_step InSQ = step_insq"
| "tok_step Plain = step_plain"

lemma byte_at_Nil [simp]: "byte_at [] i = None"
  by (simp add: byte_at_def)

lemma byte_at_Cons [simp]: "byte_at (c # p) 0 = Some c" "byte_at (c # p) (Suc i) = byte_at p i" "0 < i \<Longrightarrow> byte_at (c # p) i = byte_at p (i - 1)"
  by (cases i; simp add: byte_at_def)+

lemma bind_SomeE: "do { x \<leftarrow> m; f x } = Some y \<longleftrightarrow> (\<exists>x. m = Some x \<and> f x = Some y)"
  by (cases m) simp_all

lemma tok_step_more: "tok_step q p cur = Some (TokMore q' p' cur') \<Longrightarrow> length p' < length p"
  by (cases p; cases q)
    (auto simp: step_inq_def step_insq_def step_plain_def close_quote_def bind_SomeE split: if_splits)

text \<open>\<open>while (!done)\<close>; the inner \<open>None\<close> is \<open>goto err\<close>.\<close>

function get_token :: "quoting \<Rightarrow> bytes \<Rightarrow> bytes \<Rightarrow> (bytes \<times> bytes) option option" where
  "get_token q p current =
     (case tok_step q p current of
        None \<Rightarrow> None
      | Some TokErr \<Rightarrow> Some None
      | Some (TokDone p current) \<Rightarrow> Some (Some (p, current))
      | Some (TokMore q p current) \<Rightarrow> get_token q p current)"
  by pat_completeness auto
termination
  by (relation "measure (\<lambda>(_, p, _). length p)") (auto dest: tok_step_more)

declare get_token.simps [simp del]

fun skip_blanks :: "bytes \<Rightarrow> bytes option" where
  "skip_blanks [] = None"
| "skip_blanks (c # p) = (if c \<noteq> 0 \<and> isspace c then skip_blanks p else Some (c # p))"

lemma get_token_le: "get_token q p cur = Some (Some (p', t)) \<Longrightarrow> length p' \<le> length p"
proof (induction q p cur rule: get_token.induct)
  case (1 q p cur)
  note eq = 1(2) [unfolded get_token.simps [of q p cur]]
  show ?case
  proof (cases "tok_step q p cur")
    case (Some r)
    show ?thesis
    proof (cases r)
      case (TokDone p1 c1)
      then show ?thesis using Some eq
        by (cases p; cases q) (auto simp: step_inq_def step_insq_def step_plain_def close_quote_def bind_SomeE split: if_splits)
    next
      case (TokMore q1 p1 c1)
      with Some eq have "get_token q1 p1 c1 = Some (Some (p', t))" by simp
      from 1(1) [OF Some TokMore this] tok_step_more [of q p cur q1 p1 c1] Some TokMore show ?thesis by simp
    qed (use Some eq in simp)
  qed (use eq in simp)
qed

lemma get_token_less:
  assumes "c \<noteq> 0" "\<not> isspace c" "get_token Plain (c # p) cur = Some (Some (p', t))"
  shows "length p' < length (c # p)"
proof -
  have c: "c \<noteq> 32" "c \<noteq> 10" "c \<noteq> 13" "c \<noteq> 9" using assms(2) by (auto simp: isspace_def)
  obtain q1 c1 where "step_plain (c # p) cur = Some (TokMore q1 p c1)"
    using assms(1) c by (cases "c = 34"; cases "c = 39") (simp_all add: step_plain_def)
  then have "get_token q1 p c1 = Some (Some (p', t))"
    using assms(3) by (subst (asm) get_token.simps) simp
  from get_token_le [OF this] show ?thesis by simp
qed

lemma skip_blanks_Some:
  "skip_blanks p = Some p' \<Longrightarrow> length p' \<le> length p \<and> (\<exists>c r. p' = c # r \<and> \<not> (c \<noteq> 0 \<and> isspace c))"
  by (induction p) (auto split: if_splits)

text \<open>\<open>while (1)\<close>: \<open>Some None\<close> is the result \<open>NULL\<close>, \<open>p\<close> ends with the terminator.\<close>

function split_args :: "bytes \<Rightarrow> bytes list \<Rightarrow> bytes list option option" where
  "split_args p vector =
     (case skip_blanks p of
        None \<Rightarrow> None
      | Some p \<Rightarrow>
          if hd p \<noteq> 0 then
            (case get_token Plain p [] of
               None \<Rightarrow> None
             | Some None \<Rightarrow> Some None
             | Some (Some (p, current)) \<Rightarrow> split_args p (vector @ [current]))
          else Some (Some vector))"
  by pat_completeness auto
termination
proof (relation "measure (\<lambda>(p, _). length p)")
  fix p :: bytes and vector p1 r a p2 t
  assume "skip_blanks p = Some p1" "hd p1 \<noteq> 0" "get_token Plain p1 [] = Some r" "r = Some a" "(p2, t) = a"
  then show "((p2, vector @ [t]), p, vector) \<in> measure (\<lambda>(p, _). length p)"
    using skip_blanks_Some [of p p1] get_token_less by fastforce
qed simp

declare split_args.simps [simp del]

definition sdssplitargs :: "bytes \<Rightarrow> bytes list option option" where
  "sdssplitargs line = split_args line []"

section \<open>Correctness\<close>

subsection \<open>Quoting and splitting\<close>

lemma u8_nibble_cases:
  fixes d :: u8
  assumes "d < 16"
  shows "d \<in> {0, 1, 2, 3, 4, 5, 6, 7, 8, 9, 10, 11, 12, 13, 14, 15}"
proof -
  have "unat d < 16" using assms by (simp add: word_less_nat_alt)
  then have "unat d \<in> set [0..<16]" by simp
  from imageI [OF this, of "of_nat :: nat \<Rightarrow> u8"] have "d \<in> set (map of_nat [0..<16])" by (simp only: set_map of_nat_unat ucast_id)
  also have "[0..<16] = [0, 1, 2, 3, 4, 5, 6, 7, 8, 9, 10, 11, 12, 13, 14, 15 :: nat]" by (simp add: upt_rec)
  finally show ?thesis by (simp del: One_nat_def)
qed

lemma hex_char_digit:
  assumes "d < 16"
  shows "is_hex_digit (hex_char d)" "hex_digit_to_int (hex_char d) = d"
  using u8_nibble_cases [OF assms] unfolding insert_iff empty_iff
  by (elim disjE; simp add: is_hex_digit_def hex_char_def hex_digit_to_int_def)+

lemma u8_nibbles: "(c :: u8) div 16 < 16" "c mod 16 < 16" "c div 16 * 16 + c mod 16 = c"
  using unat_u8_less [of c] by (simp_all add: word_less_nat_alt unat_div unat_mod div_mult_mod_eq del: mult.commute)

lemma step_inq_repr: "step_inq (repr_char c @ p) cur = Some (TokMore InQ p (cur @ [c]))"
  using hex_char_digit [OF u8_nibbles(1) [of c]] hex_char_digit [OF u8_nibbles(2) [of c]] u8_nibbles(3) [of c]
  by (auto simp: repr_char_def step_inq_def unescape_def isprint_def)

lemma get_token_repr:
  "n = 0 \<or> isspace n \<Longrightarrow>
     get_token InQ (concat (map repr_char v) @ 34 # n # rest) cur = Some (Some (n # rest, cur @ v))"
proof (induction v arbitrary: cur)
  case Nil
  then show ?case by (subst get_token.simps) (auto simp: step_inq_def close_quote_def)
next
  case (Cons c v)
  then show ?case by (subst get_token.simps) (simp add: step_inq_repr)
qed

lemma repr_loop_concat: "repr_loop s p = s @ concat (map repr_char p)"
  by (induction p arbitrary: s) simp_all

text \<open>The printed strings, one blank between them.\<close>

fun repr_line :: "bytes list \<Rightarrow> bytes" where
  "repr_line [] = []"
| "repr_line [v] = sdscatrepr [] v"
| "repr_line (v # vs) = sdscatrepr [] v @ [32] @ repr_line vs"

lemma split_args_token:
  assumes "n = 0 \<or> isspace n"
  shows "split_args (sdscatrepr [] v @ n # rest) vec = split_args (n # rest) (vec @ [v])"
proof -
  let ?p = "34 # concat (map repr_char v) @ 34 # n # rest"
  have p: "sdscatrepr [] v @ n # rest = ?p" by (simp add: sdscatrepr_def repr_loop_concat)
  have "skip_blanks ?p = Some ?p" by (simp add: isspace_def)
  moreover have "get_token Plain ?p [] = Some (Some (n # rest, v))"
    using get_token_repr [OF assms, of v rest "[]"] by (subst get_token.simps) (simp add: step_plain_def)
  ultimately show ?thesis unfolding p by (subst split_args.simps) simp
qed

lemma split_args_blank: "split_args (32 # p) vec = split_args p vec"
  by (subst (1 2) split_args.simps) (simp add: isspace_def)

lemma split_args_end: "split_args [0] vec = Some (Some vec)"
  by (subst split_args.simps) simp

lemma split_args_repr_line: "split_args (repr_line vs @ [0]) vec = Some (Some (vec @ vs))"
proof (induction vs arbitrary: vec rule: repr_line.induct)
  case (2 v)
  then show ?case using split_args_token [of 0 v "[]" vec] by (simp add: split_args_end)
next
  case (3 v w vs)
  then show ?case using split_args_token [of 32 v "repr_line (w # vs) @ [0]" vec] by (simp add: isspace_def split_args_blank)
qed (simp add: split_args_end)

text \<open>
  C26. What \<open>sdscatrepr\<close> prints, \<open>sdssplitargs\<close> reads back: a line of any byte strings, quoted and
  separated by blanks, splits into exactly those strings, zero bytes, quotes, backslashes and
  non-printable bytes included.
\<close>

theorem splitargs_repr:
  "sdssplitargs (repr_line vs @ [0]) = Some (Some vs)"
  by (simp add: sdssplitargs_def split_args_repr_line)

text \<open>The splitter stays inside its line: every test rejects the terminator.\<close>

lemma all_at_ok:
  "0 \<in> set p \<Longrightarrow> \<forall>t \<in> set ts. \<not> t 0 \<Longrightarrow> length ts = n \<Longrightarrow>
     \<exists>b. all_at ts p = Some b \<and> (b \<longrightarrow> 0 \<in> set (drop n p))"
proof (induction ts p arbitrary: n rule: all_at.induct)
  case (3 t ts c p)
  then show ?case by (cases "t c") auto
qed auto

lemma byte_at_0: "0 \<in> set p \<Longrightarrow> byte_at p 0 = Some (hd p)"
  by (cases p) simp_all

lemma close_quote_ok:
  "0 \<in> set p \<Longrightarrow> hd p \<noteq> 0 \<Longrightarrow> \<exists>r. close_quote p cur = Some r \<and> (case r of TokDone p' _ \<Rightarrow> 0 \<in> set p' | TokMore _ p' _ \<Rightarrow> 0 \<in> set p' | _ \<Rightarrow> True)"
  by (cases p; cases "tl p") (auto simp: close_quote_def)

lemma all_at_nth: "all_at ts p = Some True \<Longrightarrow> i < length ts \<Longrightarrow> byte_at p i \<noteq> None"
proof (induction ts p arbitrary: i rule: all_at.induct)
  case (3 t ts c p)
  then show ?case by (cases i) (auto split: if_splits)
qed auto

lemma tok_step_ok:
  assumes "0 \<in> set p"
  shows "\<exists>r. tok_step q p cur = Some r \<and> (case r of TokDone p' _ \<Rightarrow> 0 \<in> set p' | TokMore _ p' _ \<Rightarrow> 0 \<in> set p' | _ \<Rightarrow> True)"
proof -
  note hd = byte_at_0 [OF assms] and cq = close_quote_ok [OF assms, of cur]
  have tl: "hd p \<noteq> 0 \<Longrightarrow> 0 \<in> set (tl p)" using assms by (cases p) auto
  show ?thesis
  proof (cases q)
    case Plain
    then show ?thesis using hd tl assms by (simp add: step_plain_def)
  next
    case InSQ
    obtain b where "all_at [(=) 92, (=) 39] p = Some b" "b \<longrightarrow> 0 \<in> set (drop 2 p)"
      using all_at_ok [OF assms, of "[(=) 92, (=) 39]" 2] by auto
    then show ?thesis using InSQ hd tl cq by (cases b) (auto simp: step_insq_def)
  next
    case InQ
    let ?h = "[(=) 92, (=) 120, is_hex_digit, is_hex_digit]"
    obtain b where b: "all_at ?h p = Some b" "b \<longrightarrow> 0 \<in> set (drop 4 p)"
      using all_at_ok [OF assms, of ?h 4] by (auto simp: is_hex_digit_def)
    obtain e where e: "all_at [(=) 92, (\<noteq>) 0] p = Some e" "e \<longrightarrow> 0 \<in> set (drop 2 p)"
      using all_at_ok [OF assms, of "[(=) 92, (\<noteq>) 0]" 2] by auto
    show ?thesis
    proof (cases b)
      case True
      then obtain h l where "byte_at p 2 = Some h" "byte_at p 3 = Some l"
        using all_at_nth [of ?h p 2] all_at_nth [of ?h p 3] b(1) by auto
      then show ?thesis using InQ b True by (simp add: step_inq_def)
    next
      case False
      show ?thesis
      proof (cases e)
        case True
        then obtain c where "byte_at p 1 = Some c" using all_at_nth [of "[(=) 92, (\<noteq>) 0]" p 1] e(1) by auto
        then show ?thesis using InQ b e True False by (simp add: step_inq_def)
      next
        case f: False
        then show ?thesis using InQ b e False hd tl cq by (auto simp: step_inq_def)
      qed
    qed
  qed
qed

lemma get_token_ok:
  "0 \<in> set p \<Longrightarrow> \<exists>r. get_token q p cur = Some r \<and> (case r of Some (p', _) \<Rightarrow> 0 \<in> set p' | None \<Rightarrow> True)"
proof (induction q p cur rule: get_token.induct)
  case (1 q p cur)
  obtain r where r: "tok_step q p cur = Some r"
    "case r of TokDone p' _ \<Rightarrow> 0 \<in> set p' | TokMore _ p' _ \<Rightarrow> 0 \<in> set p' | _ \<Rightarrow> True"
    using tok_step_ok [OF 1(2)] by blast
  show ?case
  proof (cases r)
    case (TokMore q1 p1 c1)
    from 1(1) [OF r(1) this] r TokMore show ?thesis by (subst get_token.simps) simp
  qed (use r in \<open>subst get_token.simps, simp\<close>)+
qed

lemma skip_blanks_ok: "0 \<in> set p \<Longrightarrow> \<exists>p'. skip_blanks p = Some p' \<and> 0 \<in> set p'"
  by (induction p) auto

lemma split_args_ok: "0 \<in> set p \<Longrightarrow> split_args p vec \<noteq> None"
proof (induction p vec rule: split_args.induct)
  case (1 p vec)
  obtain p1 where p1: "skip_blanks p = Some p1" "0 \<in> set p1" using skip_blanks_ok [OF 1(2)] by blast
  obtain r where r: "get_token Plain p1 [] = Some r" "case r of Some (p', _) \<Rightarrow> 0 \<in> set p' | None \<Rightarrow> True"
    using get_token_ok [OF p1(2)] by blast
  show ?case
  proof (cases r)
    case None
    then show ?thesis using p1 r by (subst split_args.simps) simp
  next
    case (Some a)
    obtain p2 t where a: "a = (p2, t)" by (cases a)
    show ?thesis
    proof (cases "hd p1 = 0")
      case True
      then show ?thesis using p1 by (subst split_args.simps) simp
    next
      case False
      from 1(1) [OF p1(1) False r(1) Some a [symmetric]] r(2) Some a
      show ?thesis using p1 r False by (subst split_args.simps) simp
    qed
  qed
qed

text \<open>
  C27. \<open>sdssplitargs\<close> ends and reads no byte behind the terminator of its line, whatever the line
  holds: unbalanced quotes, a trailing backslash or half a hexadecimal escape.
\<close>

theorem splitargs_safe: "sdssplitargs (line @ [0]) \<noteq> None"
  by (simp add: sdssplitargs_def split_args_ok)

subsection \<open>Separators\<close>

lemma sep_at_iff:
  assumes "j + length sep \<le> length s"
  shows "sep_at s sep j \<longleftrightarrow> take (length sep) (drop j s) = sep"
proof -
  let ?x = "take (length sep) (drop j s)"
  have "memcmp (?x @ drop (length sep) (drop j s)) (sep @ []) (length sep) = 0 \<longleftrightarrow> take (length sep) ?x = take (length sep) sep"
    by (rule memcmp_order(1)) (use assms in simp)
  then have "memcmp (drop j s) sep (length sep) = 0 \<longleftrightarrow> ?x = sep"
    by (simp only: append_take_drop_id append_Nil2 take_all_iff take_take min.idem order_refl take_all)
  moreover have "length sep = 1 \<Longrightarrow> s ! j = sep ! 0 \<Longrightarrow> ?x = sep"
    using assms Cons_nth_drop_Suc [of j s, symmetric] by (cases sep) auto
  ultimately show ?thesis by (auto simp: sep_at_def)
qed

lemma sublist_position:
  assumes "sublist sep t"
  obtains i where "i + length sep \<le> length t" "take (length sep) (drop i t) = sep"
proof -
  from assms obtain ps ss where "t = ps @ sep @ ss" by (auto simp: sublist_def)
  then show ?thesis using that [of "length ps"] by simp
qed

lemma no_sep_in_slice:
  assumes "\<forall>i. start \<le> i \<and> i < j \<and> i + length sep \<le> length s \<longrightarrow> take (length sep) (drop i s) \<noteq> sep" "sep \<noteq> []" "j \<le> length s"
  shows "\<not> sublist sep (take (j - start) (drop start s))"
proof
  assume "sublist sep (take (j - start) (drop start s))"
  then obtain i where i: "i + length sep \<le> length (take (j - start) (drop start s))"
     "take (length sep) (drop i (take (j - start) (drop start s))) = sep" by (rule sublist_position)
  have l: "0 < length sep" "length (take (j - start) (drop start s)) = j - start" using assms(2,3) by auto
  have "take (length sep) (drop (start + i) s) = sep"
    using i(1) l i(2) by (simp add: drop_take take_take add.commute min_def split: if_splits)
  moreover have "start \<le> start + i \<and> start + i < j \<and> start + i + length sep \<le> length s"
    using i(1) l assms(3) by linarith
  ultimately show False using assms(1) by blast
qed

definition cut :: "bytes \<Rightarrow> bytes list \<Rightarrow> bytes" where
  "cut sep ts = concat (map (\<lambda>t. t @ sep) ts)"

lemma split_loop_spec:
  assumes "sep \<noteq> []" and "start \<le> j" and "j \<le> length s" and "length tokens < slots" and "2 \<le> slots"
    and "\<forall>i. start \<le> i \<and> i < j \<and> i + length sep \<le> length s \<longrightarrow> take (length sep) (drop i s) \<noteq> sep"
    and "cut sep tokens @ drop start s = s" and "\<forall>t \<in> set tokens. \<not> sublist sep t"
  shows "\<exists>start' tokens' slots'. split_loop s sep j start tokens slots = Some (start', tokens', slots') \<and>
     length tokens' < slots' \<and> cut sep tokens' @ drop start' s = s \<and>
     (\<forall>t \<in> set tokens'. \<not> sublist sep t) \<and> \<not> sublist sep (drop start' s)"
  using assms
proof (induction s sep j start tokens slots rule: split_loop.induct)
  case (1 s sep j start tokens slots)
  let ?slots = "if slots < length tokens + 2 then slots * 2 else slots"
  let ?n = "length sep"
  show ?case
  proof (cases "j + ?n \<le> length s")
    case False
    have "\<not> sublist sep (take (length s - start) (drop start s))"
      using 1(8) False by (intro no_sep_in_slice) (auto simp: 1(3))
    then show ?thesis using False 1 by (subst split_loop.simps) simp
  next
    case True
    have slots: "length tokens + 1 < ?slots" "2 \<le> ?slots" using 1(6,7) by auto
    show ?thesis
    proof (cases "sep_at s sep j")
      case sep: True
      let ?t = "take (j - start) (drop start s)"
      have t: "\<not> sublist sep ?t" by (rule no_sep_in_slice) (use 1 in auto)
      have "drop start s = ?t @ drop j s" using 1(4) append_take_drop_id [of "j - start" "drop start s"] by simp
      also have "drop j s = sep @ drop (j + ?n) s"
        using sep sep_at_iff [OF True] append_take_drop_id [of ?n "drop j s"] by (simp add: add.commute)
      finally have c: "cut sep (tokens @ [?t]) @ drop (j + ?n) s = s" using 1(9) by (simp add: cut_def)
      have "split_loop s sep j start tokens slots = split_loop s sep (j + ?n) (j + ?n) (tokens @ [?t]) ?slots"
        using True sep slots 1(3) by (subst split_loop.simps) (simp add: Let_def)
      moreover have c1: "sep \<noteq> [] \<and> j + length sep \<le> length s" using 1(3) True by simp
      have "length tokens < ?slots" "length (tokens @ [?t]) < ?slots" "\<forall>t \<in> set (tokens @ [?t]). \<not> sublist sep t"
        "\<forall>i. j + ?n \<le> i \<and> i < j + ?n \<and> i + ?n \<le> length s \<longrightarrow> take ?n (drop i s) \<noteq> sep"
        using slots t 1(10) by auto
      note 1(1) [OF c1 refl sep this(1) 1(3) order_refl True this(2) slots(2) this(4) c this(3)]
      ultimately show ?thesis by simp
    next
      case sep: False
      have "split_loop s sep j start tokens slots = split_loop s sep (j + 1) start tokens ?slots"
        using True sep 1(3) by (subst split_loop.simps) (simp add: Let_def)
      moreover have "\<forall>i. start \<le> i \<and> i < j + 1 \<and> i + ?n \<le> length s \<longrightarrow> take ?n (drop i s) \<noteq> sep"
        using 1(8) sep sep_at_iff [OF True] by (auto simp: less_Suc_eq)
      moreover have c: "sep \<noteq> [] \<and> j + length sep \<le> length s" using 1(3) True by simp
      moreover have "start \<le> j + 1" "j + 1 \<le> length s" "length tokens < ?slots"
        using 1(4) c slots by (auto simp: neq_Nil_conv)
      ultimately show ?thesis using 1(2) [OF c refl sep 1(3) _ _ _ slots(2) _ 1(9,10)] by simp
    qed
  qed
qed

lemma join_loop_snoc: "join_loop sep (ts @ [t]) acc = acc @ cut sep ts @ t"
  by (induction ts arbitrary: acc) (simp_all add: cut_def)

text \<open>
  C28. Splitting by a separator: for a non-empty string and separator \<open>sdssplitlen\<close> gives tokens none
  of which contains the separator, and \<open>sdsjoinsds\<close> of them with it is the string again. The array
  of tokens is always large enough.
\<close>

theorem split_join:
  assumes "s \<noteq> []" and "sep \<noteq> []"
  shows "\<exists>ts. sdssplitlen s sep = Some (Some ts) \<and> sdsjoinsds ts sep = s \<and> (\<forall>t \<in> set ts. \<not> sublist sep t)"
proof -
  obtain start tokens slots where r: "split_loop s sep 0 0 [] 5 = Some (start, tokens, slots)"
     "length tokens < slots" "cut sep tokens @ drop start s = s"
     "\<forall>t \<in> set tokens. \<not> sublist sep t" "\<not> sublist sep (drop start s)"
    using split_loop_spec [of sep 0 0 s "[]" 5] assms(2) by (auto simp: cut_def)
  then have "sdssplitlen s sep = Some (Some (tokens @ [drop start s]))"
    using assms by (cases sep) (auto simp: sdssplitlen_def)
  then show ?thesis using r by (auto simp: sdsjoinsds_def join_loop_snoc)
qed

theorem split_join_witness:
  "\<exists>ts. sdssplitlen [1, 44, 44, 2] [44] = Some (Some ts) \<and> sdsjoinsds ts [44] = [1, 44, 44, 2]"
  using split_join [of "[1, 44, 44, 2]" "[44]"] by blast

subsection \<open>Integers\<close>

lemma dec_nat_length_le: "0 < k \<Longrightarrow> n < 10 ^ k \<Longrightarrow> length (dec_nat n) \<le> k"
proof (induction k arbitrary: n)
  case (Suc k)
  show ?case
  proof (cases "n < 10")
    case True
    then show ?thesis by (simp add: dec_nat_less)
  next
    case False
    then have k: "0 < k" using Suc.prems by (cases k) auto
    have "n div 10 < 10 ^ k" using Suc.prems by (simp add: less_mult_imp_div_less mult.commute)
    with Suc.IH [OF k] False show ?thesis by (simp add: dec_nat_step)
  qed
qed simp

lemma digits_loop_spec:
  "p + length (dec_nat v) \<le> length buf \<Longrightarrow>
     digits_loop v p buf = Some (p + length (dec_nat v), take p buf @ rev (dec_nat v) @ drop (p + length (dec_nat v)) buf)"
proof (induction v p buf rule: digits_loop.induct)
  case (1 v p buf)
  let ?d = "48 + of_nat (v mod 10) :: u8"
  have p: "p < length buf" using 1(2) by (cases "v < 10") (auto simp: dec_nat_less dec_nat_step)
  then have put: "put p ?d buf = Some (take p buf @ ?d # drop (Suc p) buf)" by (rule put_at)
  show ?case
  proof (cases "v < 10")
    case True
    then show ?thesis using put by (subst digits_loop.simps) (simp add: dec_nat_less)
  next
    case False
    then have v: "v div 10 \<noteq> 0" by simp
    let ?b = "take p buf @ ?d # drop (Suc p) buf"
    have l: "p + 1 + length (dec_nat (v div 10)) \<le> length ?b" using 1(2) False p by (simp add: dec_nat_step)
    have "take (p + 1) ?b = take p buf @ [?d]" using p by simp
    then show ?thesis using 1(1) [OF put v l] put v False p
      by (subst digits_loop.simps) (simp add: dec_nat_step add.commute)
  qed
qed

lemma reverse_loop_spec:
  "M \<noteq> [] \<Longrightarrow> reverse_loop (length A) (length A + length M - 1) (A @ M @ B) = Some (A @ rev M @ B)"
proof (induction "length M" arbitrary: A M B rule: less_induct)
  case less
  obtain x M1 where M: "M = x # M1" using less.prems by (cases M) auto
  show ?case
  proof (cases M1 rule: rev_cases)
    case Nil
    then show ?thesis using M by (subst reverse_loop.simps) simp
  next
    case (snoc M' y)
    let ?p = "length A + length M - 1"
    have p: "?p = length A + Suc (length M')" using M snoc by simp
    have upd: "(A @ M @ B)[length A := (A @ M @ B) ! ?p, ?p := (A @ M @ B) ! length A] = (A @ [y]) @ M' @ (x # B)"
      unfolding p using M snoc by (simp add: nth_append list_update_append)
    have "reverse_loop (length A) ?p (A @ M @ B) = reverse_loop (length A + 1) (?p - 1) ((A @ [y]) @ M' @ (x # B))"
    proof -
      have "length A < ?p" "?p < length (A @ M @ B)" using M snoc by simp_all
      then show ?thesis by (subst reverse_loop.simps) (simp only: if_True upd)
    qed
    also have "\<dots> = Some (A @ rev M @ B)"
    proof (cases "M' = []")
      case True
      then show ?thesis using M snoc by (subst reverse_loop.simps) simp
    next
      case False
      have "length M' < length M" using M snoc by simp
      from less.hyps [OF this False, of "A @ [y]" "x # B"] show ?thesis using M snoc False
        by (cases M') simp_all
    qed
    finally show ?thesis .
  qed
qed

text \<open>The digits are written from the last one on, the sign after them, and the whole is reversed.\<close>

lemma sdsll2str_spec:
  assumes len: "length (decimal value) < length buf"
  shows "\<exists>rest. sdsll2str buf value = Some (length (decimal value), decimal value @ 0 # rest)"
proof -
  define v where "v = (if value < 0 then nat (- value) else nat value)"
  let ?d = "dec_nat v" and ?n = "length (decimal value)"
  have dec: "decimal value = (if value < 0 then 45 # ?d else ?d)" by (simp add: decimal_def v_def)
  have ne: "?d \<noteq> []" by (cases "v < 10") (simp_all add: dec_nat_less dec_nat_step)
  let ?r = "rev (decimal value)"
  define b2 where "b2 = ?r @ drop ?n buf"
  have n: "length ?d \<le> length buf" "length ?d < length buf" using len by (auto simp: dec split: if_splits)
  have d: "digits_loop v 0 buf = Some (length ?d, rev ?d @ drop (length ?d) buf)"
    using digits_loop_spec [of 0 v buf] n by simp
  have sign: "(if value < 0 then do { buf \<leftarrow> put (length ?d) 45 (rev ?d @ drop (length ?d) buf); Some (length ?d + 1, buf) }
      else Some (length ?d, rev ?d @ drop (length ?d) buf)) = Some (?n, b2)"
    using n by (auto simp: dec put_at b2_def)
  have z: "put ?n 0 b2 = Some (?r @ 0 # drop (Suc ?n) buf)"
    using len by (simp add: b2_def put_at)
  have "reverse_loop 0 (?n - 1) (?r @ 0 # drop (Suc ?n) buf) = Some (decimal value @ 0 # drop (Suc ?n) buf)"
    using reverse_loop_spec [of ?r "[]" "0 # drop (Suc ?n) buf"] ne by (auto simp: dec)
  then have "sdsll2str buf value = Some (?n, decimal value @ 0 # drop (Suc ?n) buf)"
    unfolding sdsll2str_def Let_def v_def [symmetric] using d sign z by (simp del: One_nat_def add: bind_assoc)
  then show ?thesis by blast
qed

lemma decimal_length:
  assumes "LLONG_MIN \<le> value" "value \<le> LLONG_MAX"
  shows "length (decimal value) \<le> 20"
proof -
  have "nat \<bar>value\<bar> < 10 ^ 19" using assms by (simp add: LLONG_MIN_def LLONG_MAX_def)
  from dec_nat_length_le [OF _ this] show ?thesis by (auto simp: decimal_def)
qed

text \<open>
  Every 64 bit integer fits the buffer of \<open>sdsfromlonglong\<close>, which gives a string holding its
  decimal representation, from which \<open>string2ll\<close> reads the integer back.
\<close>

theorem sdsfromlonglong_roundtrip:
  assumes "LLONG_MIN \<le> value" and "value \<le> LLONG_MAX"
  shows "\<exists>s. sdsfromlonglong junk value = Some s \<and> sds_wf s \<and> sds_val s = decimal value \<and>
     string2ll (sds_val s) = Some value"
proof -
  let ?buf = "map junk [0..<SDS_LLSTR_SIZE]"
  have l: "length (decimal value) < length ?buf"
    using decimal_length [OF assms] by (simp add: SDS_LLSTR_SIZE_def)
  obtain rest where r: "sdsll2str ?buf value = Some (length (decimal value), decimal value @ 0 # rest)"
    using sdsll2str_spec [OF l] by blast
  have "length (decimal value) < 2 ^ 62" using decimal_length [OF assms] by simp
  then obtain s where "sdsnewlen junk (Some (decimal value @ 0 # rest)) (length (decimal value)) = Some s" "sds_wf s"
      "sds_val s = decimal value"
    using sdsnewlen_spec [of "length (decimal value)" "Some (decimal value @ 0 # rest)" junk] by auto
  then show ?thesis using r assms by (simp add: sdsfromlonglong_def string2ll_iff)
qed

text \<open>The least value, the longest representation.\<close>

theorem sdsfromlonglong_roundtrip_witness:
  "\<exists>s. sdsfromlonglong (\<lambda>_. 0) LLONG_MIN = Some s \<and> sds_val s = decimal LLONG_MIN \<and> string2ll (sds_val s) = Some LLONG_MIN"
  using sdsfromlonglong_roundtrip [of LLONG_MIN "\<lambda>_. 0"] by (auto simp: LLONG_MIN_def LLONG_MAX_def)

end
