(* ===== verification/Adlist.thy ===== *)
theory Adlist
  imports Redis_Prelude "HOL-Library.Monad_Syntax"
begin

section \<open>Doubly linked lists: \<open>adlist.c\<close>\<close>

text \<open>
  The nodes live in a heap, a partial map from addresses, with \<open>NULL\<close> the pointer \<open>None\<close>.
  Following \<open>NULL\<close> or a pointer to a freed node is the result \<open>None\<close> of an operation. The
  allocator is a parameter: from the heap it chooses the address of the new node. The \<open>free\<close>
  method of a list is represented by whether it is set; the values it is called on are logged.
  \<open>listDup\<close> and \<open>listSearchKey\<close> call the \<open>dup\<close> and \<open>match\<close> methods, functions on values.
\<close>

record 'v listNode =
  nd_prev :: "nat option"
  nd_next :: "nat option"
  nd_value :: 'v

record 'v hlist =
  l_head :: "nat option"
  l_tail :: "nat option"
  l_dup :: "('v \<Rightarrow> 'v option) option"
  l_free :: bool
  l_match :: "('v \<Rightarrow> 'v \<Rightarrow> bool) option"
  l_len :: nat

type_synonym 'v heap = "nat \<rightharpoonup> 'v listNode"

definition set_next :: "'v heap \<Rightarrow> nat option \<Rightarrow> nat option \<Rightarrow> 'v heap option" where
  "set_next h p q = do { a \<leftarrow> p; n \<leftarrow> h a; Some (h(a \<mapsto> n\<lparr>nd_next := q\<rparr>)) }"

definition set_prev :: "'v heap \<Rightarrow> nat option \<Rightarrow> nat option \<Rightarrow> 'v heap option" where
  "set_prev h p q = do { a \<leftarrow> p; n \<leftarrow> h a; Some (h(a \<mapsto> n\<lparr>nd_prev := q\<rparr>)) }"

definition listCreate :: "'v hlist" where
  "listCreate = \<lparr>l_head = None, l_tail = None, l_dup = None, l_free = False, l_match = None, l_len = 0\<rparr>"

text \<open>\<open>while (len--)\<close>: the heap without the nodes and the values given to the \<open>free\<close> method.\<close>

fun empty_loop :: "bool \<Rightarrow> nat \<Rightarrow> nat option \<Rightarrow> 'v heap \<Rightarrow> 'v list \<Rightarrow> ('v heap \<times> 'v list) option" where
  "empty_loop fr 0 current h freed = Some (h, freed)"
| "empty_loop fr (Suc len) current h freed = do {
     a \<leftarrow> current;
     n \<leftarrow> h a;
     empty_loop fr len (nd_next n) (h(a := None)) (if fr then freed @ [nd_value n] else freed)
   }"

definition listEmpty :: "'v heap \<Rightarrow> 'v hlist \<Rightarrow> ('v heap \<times> 'v hlist \<times> 'v list) option" where
  "listEmpty h l = do {
     (h, freed) \<leftarrow> empty_loop (l_free l) (l_len l) (l_head l) h [];
     Some (h, l\<lparr>l_head := None, l_tail := None, l_len := 0\<rparr>, freed)
   }"

definition listAddNodeHead :: "('v heap \<Rightarrow> nat) \<Rightarrow> 'v heap \<Rightarrow> 'v hlist \<Rightarrow> 'v \<Rightarrow> ('v heap \<times> 'v hlist) option" where
  "listAddNodeHead alloc h l value = do {
     let node = alloc h;
     if l_len l = 0 then
       Some (h(node \<mapsto> \<lparr>nd_prev = None, nd_next = None, nd_value = value\<rparr>),
         l\<lparr>l_head := Some node, l_tail := Some node, l_len := l_len l + 1\<rparr>)
     else do {
       let h = h(node \<mapsto> \<lparr>nd_prev = None, nd_next = l_head l, nd_value = value\<rparr>);
       h \<leftarrow> set_prev h (l_head l) (Some node);
       Some (h, l\<lparr>l_head := Some node, l_len := l_len l + 1\<rparr>)
     }
   }"

definition listAddNodeTail :: "('v heap \<Rightarrow> nat) \<Rightarrow> 'v heap \<Rightarrow> 'v hlist \<Rightarrow> 'v \<Rightarrow> ('v heap \<times> 'v hlist) option" where
  "listAddNodeTail alloc h l value = do {
     let node = alloc h;
     if l_len l = 0 then
       Some (h(node \<mapsto> \<lparr>nd_prev = None, nd_next = None, nd_value = value\<rparr>),
         l\<lparr>l_head := Some node, l_tail := Some node, l_len := l_len l + 1\<rparr>)
     else do {
       let h = h(node \<mapsto> \<lparr>nd_prev = l_tail l, nd_next = None, nd_value = value\<rparr>);
       h \<leftarrow> set_next h (l_tail l) (Some node);
       Some (h, l\<lparr>l_tail := Some node, l_len := l_len l + 1\<rparr>)
     }
   }"

definition listInsertNode ::
    "('v heap \<Rightarrow> nat) \<Rightarrow> 'v heap \<Rightarrow> 'v hlist \<Rightarrow> nat \<Rightarrow> 'v \<Rightarrow> bool \<Rightarrow> ('v heap \<times> 'v hlist) option" where
  "listInsertNode alloc h l old_node value after = do {
     let node = alloc h;
     old \<leftarrow> h old_node;
     let (nd, l) =
       (if after then
          (\<lparr>nd_prev = Some old_node, nd_next = nd_next old, nd_value = value\<rparr>,
           if l_tail l = Some old_node then l\<lparr>l_tail := Some node\<rparr> else l)
        else
          (\<lparr>nd_prev = nd_prev old, nd_next = Some old_node, nd_value = value\<rparr>,
           if l_head l = Some old_node then l\<lparr>l_head := Some node\<rparr> else l));
     let h = h(node \<mapsto> nd);
     h \<leftarrow> (if nd_prev nd \<noteq> None then set_next h (nd_prev nd) (Some node) else Some h);
     h \<leftarrow> (if nd_next nd \<noteq> None then set_prev h (nd_next nd) (Some node) else Some h);
     Some (h, l\<lparr>l_len := l_len l + 1\<rparr>)
   }"

definition listDelNode :: "'v heap \<Rightarrow> 'v hlist \<Rightarrow> nat \<Rightarrow> ('v heap \<times> 'v hlist \<times> 'v list) option" where
  "listDelNode h l node = do {
     n \<leftarrow> h node;
     (h, l) \<leftarrow> (if nd_prev n \<noteq> None then do { h \<leftarrow> set_next h (nd_prev n) (nd_next n); Some (h, l) }
               else Some (h, l\<lparr>l_head := nd_next n\<rparr>));
     n \<leftarrow> h node;
     (h, l) \<leftarrow> (if nd_next n \<noteq> None then do { h \<leftarrow> set_prev h (nd_next n) (nd_prev n); Some (h, l) }
               else Some (h, l\<lparr>l_tail := nd_prev n\<rparr>));
     n \<leftarrow> h node;
     Some (h(node := None), l\<lparr>l_len := l_len l - 1\<rparr>, if l_free l then [nd_value n] else [])
   }"

datatype direction = AL_START_HEAD | AL_START_TAIL

record listIter =
  it_next :: "nat option"
  it_direction :: direction

definition listGetIterator :: "'v hlist \<Rightarrow> direction \<Rightarrow> listIter" where
  "listGetIterator l d = \<lparr>it_next = (if d = AL_START_HEAD then l_head l else l_tail l), it_direction = d\<rparr>"

definition listRewind :: "'v hlist \<Rightarrow> listIter" where
  "listRewind l = \<lparr>it_next = l_head l, it_direction = AL_START_HEAD\<rparr>"

definition listRewindTail :: "'v hlist \<Rightarrow> listIter" where
  "listRewindTail l = \<lparr>it_next = l_tail l, it_direction = AL_START_TAIL\<rparr>"

definition listNext :: "'v heap \<Rightarrow> listIter \<Rightarrow> (nat option \<times> listIter) option" where
  "listNext h iter =
     (case it_next iter of
        None \<Rightarrow> Some (None, iter)
      | Some a \<Rightarrow> do {
          n \<leftarrow> h a;
          Some (Some a, iter\<lparr>it_next := (if it_direction iter = AL_START_HEAD then nd_next n else nd_prev n)\<rparr>)
        })"

text \<open>The body of the loop of \<open>listSearchKey\<close>.\<close>

definition node_matches :: "'v hlist \<Rightarrow> 'v \<Rightarrow> 'v \<Rightarrow> bool" where
  "node_matches l value key = (case l_match l of Some m \<Rightarrow> m value key | None \<Rightarrow> key = value)"

partial_function (option) search_nodes :: "'v heap \<Rightarrow> 'v hlist \<Rightarrow> 'v \<Rightarrow> listIter \<Rightarrow> nat option option" where
  "search_nodes h l key iter = do {
     (node, iter) \<leftarrow> listNext h iter;
     case node of
       None \<Rightarrow> Some None
     | Some a \<Rightarrow> do {
         n \<leftarrow> h a;
         if node_matches l (nd_value n) key then Some (Some a) else search_nodes h l key iter
       }
   }"

definition listSearchKey :: "'v heap \<Rightarrow> 'v hlist \<Rightarrow> 'v \<Rightarrow> nat option option" where
  "listSearchKey h l key = search_nodes h l key (listRewind l)"

text \<open>\<open>while (index-- && n)\<close>\<close>

fun walk :: "('v listNode \<Rightarrow> nat option) \<Rightarrow> 'v heap \<Rightarrow> nat \<Rightarrow> nat option \<Rightarrow> nat option option" where
  "walk step h 0 n = Some n"
| "walk step h (Suc index) None = Some None"
| "walk step h (Suc index) (Some a) = do { n \<leftarrow> h a; walk step h index (step n) }"

definition listIndex :: "'v heap \<Rightarrow> 'v hlist \<Rightarrow> int \<Rightarrow> nat option option" where
  "listIndex h l index =
     (if index < 0 then walk nd_prev h (nat (- index - 1)) (l_tail l)
      else walk nd_next h (nat index) (l_head l))"

definition listRotate :: "'v heap \<Rightarrow> 'v hlist \<Rightarrow> ('v heap \<times> 'v hlist) option" where
  "listRotate h l =
     (if l_len l \<le> 1 then Some (h, l)
      else do {
        tail \<leftarrow> l_tail l;
        n \<leftarrow> h tail;
        let l = l\<lparr>l_tail := nd_prev n\<rparr>;
        h \<leftarrow> set_next h (l_tail l) None;
        h \<leftarrow> set_prev h (l_head l) (Some tail);
        h \<leftarrow> set_prev h (Some tail) None;
        h \<leftarrow> set_next h (Some tail) (l_head l);
        Some (h, l\<lparr>l_head := Some tail\<rparr>)
      })"

definition listJoin :: "'v heap \<Rightarrow> 'v hlist \<Rightarrow> 'v hlist \<Rightarrow> ('v heap \<times> 'v hlist \<times> 'v hlist) option" where
  "listJoin h l o' = do {
     h \<leftarrow> (if l_head o' \<noteq> None then set_prev h (l_head o') (l_tail l) else Some h);
     (h, l) \<leftarrow> (if l_tail l \<noteq> None then do { h \<leftarrow> set_next h (l_tail l) (l_head o'); Some (h, l) }
               else Some (h, l\<lparr>l_head := l_head o'\<rparr>));
     Some (h, l\<lparr>l_tail := l_tail o', l_len := l_len l + l_len o'\<rparr>, o'\<lparr>l_head := None, l_tail := None, l_len := 0\<rparr>)
   }"

text \<open>The copy of a value, \<open>None\<close> when the \<open>dup\<close> method gives \<open>NULL\<close>.\<close>

definition dup_value :: "('v \<Rightarrow> 'v option) option \<Rightarrow> 'v \<Rightarrow> 'v option" where
  "dup_value d v = (case d of Some f \<Rightarrow> f v | None \<Rightarrow> Some v)"

text \<open>
  The loop of \<open>listDup\<close>. When the \<open>dup\<close> method fails the copy is released; the inner \<open>None\<close> is
  the result \<open>NULL\<close>, with the heap that is left.
\<close>

partial_function (option) dup_loop ::
    "('v heap \<Rightarrow> nat) \<Rightarrow> 'v heap \<Rightarrow> 'v hlist \<Rightarrow> listIter \<Rightarrow> ('v heap \<times> 'v hlist option) option" where
  "dup_loop alloc h copy iter = do {
     (node, iter) \<leftarrow> listNext h iter;
     case node of
       None \<Rightarrow> Some (h, Some copy)
     | Some a \<Rightarrow> do {
         n \<leftarrow> h a;
         case dup_value (l_dup copy) (nd_value n) of
           None \<Rightarrow> do { (h, _, _) \<leftarrow> listEmpty h copy; Some (h, None) }
         | Some value \<Rightarrow> do {
             (h, copy) \<leftarrow> listAddNodeTail alloc h copy value;
             dup_loop alloc h copy iter
           }
       }
   }"

definition listDup :: "('v heap \<Rightarrow> nat) \<Rightarrow> 'v heap \<Rightarrow> 'v hlist \<Rightarrow> ('v heap \<times> 'v hlist option) option" where
  "listDup alloc h orig =
     dup_loop alloc h (listCreate\<lparr>l_dup := l_dup orig, l_free := l_free orig, l_match := l_match orig\<rparr>) (listRewind orig)"

section \<open>The list a heap represents\<close>

text \<open>
  A segment: the nodes \<open>xs\<close>, pairs of address and value, linked in both directions, with \<open>p\<close>
  before the first and \<open>n\<close> after the last.
\<close>

definition first_addr :: "(nat \<times> 'v) list \<Rightarrow> nat option \<Rightarrow> nat option" where
  "first_addr xs n = (case xs of [] \<Rightarrow> n | x # _ \<Rightarrow> Some (fst x))"

definition last_addr :: "(nat \<times> 'v) list \<Rightarrow> nat option \<Rightarrow> nat option" where
  "last_addr xs p = (if xs = [] then p else Some (fst (last xs)))"

fun dseg :: "'v heap \<Rightarrow> nat option \<Rightarrow> (nat \<times> 'v) list \<Rightarrow> nat option \<Rightarrow> bool" where
  "dseg h p [] n \<longleftrightarrow> True"
| "dseg h p ((a, v) # xs) n \<longleftrightarrow>
     h a = Some \<lparr>nd_prev = p, nd_next = first_addr xs n, nd_value = v\<rparr> \<and> dseg h (Some a) xs n"

abbreviation addrs :: "(nat \<times> 'v) list \<Rightarrow> nat set" where
  "addrs xs \<equiv> fst ` set xs"

definition dlist :: "'v heap \<Rightarrow> 'v hlist \<Rightarrow> (nat \<times> 'v) list \<Rightarrow> bool" where
  "dlist h l xs \<longleftrightarrow> l_head l = first_addr xs None \<and> l_tail l = last_addr xs None \<and> l_len l = length xs \<and>
     dseg h None xs None \<and> distinct (map fst xs)"

lemma first_addr_simps [simp]:
  "first_addr [] n = n" "first_addr (x # xs) n = Some (fst x)" "first_addr (xs @ ys) n = first_addr xs (first_addr ys n)"
  by (auto simp: first_addr_def split: list.splits)

lemma last_addr_simps [simp]:
  "last_addr [] p = p" "last_addr (x # xs) p = last_addr xs (Some (fst x))" "last_addr (xs @ ys) p = last_addr ys (last_addr xs p)"
  by (auto simp: last_addr_def)

lemma addr_None_iff [simp]:
  "first_addr xs n = None \<longleftrightarrow> xs = [] \<and> n = None" "last_addr xs p = None \<longleftrightarrow> xs = [] \<and> p = None"
  by (cases xs; simp add: last_addr_def)+

lemma addr_nonempty: "xs \<noteq> [] \<Longrightarrow> first_addr xs (Some a) = first_addr xs None" "xs \<noteq> [] \<Longrightarrow> last_addr xs (Some a) = last_addr xs None"
  by (cases xs; simp add: last_addr_def)+

lemma dseg_append [simp]: "dseg h p (xs @ ys) n \<longleftrightarrow> dseg h p xs (first_addr ys n) \<and> dseg h (last_addr xs p) ys n"
  by (induction h p xs "first_addr ys n" rule: dseg.induct) simp_all

lemma dseg_frame: "\<forall>a \<in> addrs xs. h' a = h a \<Longrightarrow> dseg h p xs n \<Longrightarrow> dseg h' p xs n"
  by (induction h p xs n rule: dseg.induct) simp_all

lemma dseg_upd [simp]: "a \<notin> addrs xs \<Longrightarrow> dseg (h(a := y)) p xs n \<longleftrightarrow> dseg h p xs n"
  by (induction h p xs n rule: dseg.induct) simp_all

text \<open>The pointer into a segment from the right, and from the left.\<close>

lemma dseg_set_next:
  assumes "dseg h p xs n" and "distinct (map fst xs)" and "xs \<noteq> []"
  shows "\<exists>h'. set_next h (last_addr xs p) n' = Some h' \<and> dseg h' p xs n' \<and> (\<forall>a. a \<notin> addrs xs \<longrightarrow> h' a = h a) \<and> dom h' = dom h"
proof -
  obtain ys a v where xs: "xs = ys @ [(a, v)]" using assms(3) by (metis prod.exhaust rev_exhaust)
  with assms show ?thesis by (auto simp: set_next_def)
qed

lemma dseg_set_prev:
  assumes "dseg h p xs n" and "distinct (map fst xs)" and "xs \<noteq> []"
  shows "\<exists>h'. set_prev h (first_addr xs n) p' = Some h' \<and> dseg h' p' xs n \<and> (\<forall>a. a \<notin> addrs xs \<longrightarrow> h' a = h a) \<and> dom h' = dom h"
proof -
  obtain a v ys where xs: "xs = (a, v) # ys" using assms(3) by (metis prod.exhaust list.exhaust)
  with assms show ?thesis by (auto simp: set_prev_def)
qed

text \<open>
  \<open>list_step h l xs h' l' xs'\<close>: the heap and list represent \<open>xs'\<close> afterwards, everything outside
  of the nodes of both is as before, the nodes that are gone are free and the methods are kept.
\<close>

definition list_step ::
    "'v heap \<Rightarrow> 'v hlist \<Rightarrow> (nat \<times> 'v) list \<Rightarrow> 'v heap \<Rightarrow> 'v hlist \<Rightarrow> (nat \<times> 'v) list \<Rightarrow> bool" where
  "list_step h l xs h' l' xs' \<longleftrightarrow> dlist h' l' xs' \<and> (\<forall>a. a \<notin> addrs xs \<and> a \<notin> addrs xs' \<longrightarrow> h' a = h a) \<and>
     dom h' = dom h - addrs xs \<union> addrs xs' \<and>
     l_dup l' = l_dup l \<and> l_free l' = l_free l \<and> l_match l' = l_match l"

lemma dseg_dom: "dseg h p xs n \<Longrightarrow> addrs xs \<subseteq> dom h"
  by (induction h p xs n rule: dseg.induct) auto

lemma dlist_dom: "dlist h l xs \<Longrightarrow> addrs xs \<subseteq> dom h"
  using dseg_dom [of h None xs None] by (simp add: dlist_def)

lemma listAddNodeHead_spec:
  assumes d: "dlist h l xs" and a: "h (alloc h) = None"
  shows "\<exists>h' l'. listAddNodeHead alloc h l v = Some (h', l') \<and> list_step h l xs h' l' ((alloc h, v) # xs)"
proof -
  let ?a = "alloc h" and ?n = "\<lparr>nd_prev = None, nd_next = l_head l, nd_value = v\<rparr>"
  have na: "?a \<notin> addrs xs" using dlist_dom [OF d] a by auto
  show ?thesis
  proof (cases "xs = []")
    case True
    then show ?thesis using d by (auto simp: listAddNodeHead_def dlist_def list_step_def Let_def)
  next
    case False
    have "dseg (h(?a \<mapsto> ?n)) None xs None" "distinct (map fst xs)" using d na by (simp_all add: dlist_def)
    from dseg_set_prev [OF this False, of "Some ?a"] obtain h' where
      h': "set_prev (h(?a \<mapsto> ?n)) (l_head l) (Some ?a) = Some h'" "dseg h' (Some ?a) xs None"
        "\<forall>b. b \<notin> addrs xs \<longrightarrow> h' b = (h(?a \<mapsto> ?n)) b" "dom h' = dom (h(?a \<mapsto> ?n))"
      using d by (auto simp: dlist_def)
    have "h' ?a = Some ?n" using h'(3) na by simp
    then show ?thesis using d h' na False dlist_dom [OF d]
      by (auto simp: listAddNodeHead_def dlist_def list_step_def Let_def addr_nonempty)
  qed
qed

lemma listAddNodeTail_spec:
  assumes d: "dlist h l xs" and a: "h (alloc h) = None"
  shows "\<exists>h' l'. listAddNodeTail alloc h l v = Some (h', l') \<and> list_step h l xs h' l' (xs @ [(alloc h, v)])"
proof -
  let ?a = "alloc h" and ?n = "\<lparr>nd_prev = l_tail l, nd_next = None, nd_value = v\<rparr>"
  have na: "?a \<notin> addrs xs" using dlist_dom [OF d] a by auto
  show ?thesis
  proof (cases "xs = []")
    case True
    then show ?thesis using d by (auto simp: listAddNodeTail_def dlist_def list_step_def Let_def)
  next
    case False
    have "dseg (h(?a \<mapsto> ?n)) None xs None" "distinct (map fst xs)" using d na by (simp_all add: dlist_def)
    from dseg_set_next [OF this False, of "Some ?a"] obtain h' where
      h': "set_next (h(?a \<mapsto> ?n)) (l_tail l) (Some ?a) = Some h'" "dseg h' None xs (Some ?a)"
        "\<forall>b. b \<notin> addrs xs \<longrightarrow> h' b = (h(?a \<mapsto> ?n)) b" "dom h' = dom (h(?a \<mapsto> ?n))"
      using d by (auto simp: dlist_def)
    have "h' ?a = Some ?n" using h'(3) na by simp
    moreover have "first_addr xs (Some ?a) = l_head l" using d False by (cases xs) (simp_all add: dlist_def)
    ultimately show ?thesis using d h' na False dlist_dom [OF d]
      by (auto simp: listAddNodeTail_def dlist_def list_step_def Let_def)
  qed
qed

text \<open>The two conditional assignments that close the gap between two segments.\<close>

lemma relink:
  assumes "dseg h p as n" "dseg h q bs m" "distinct (map fst (as @ bs))" "p = None" "m = None"
  shows "\<exists>h1 h2. (if last_addr as p \<noteq> None then set_next h (last_addr as p) n' else Some h) = Some h1 \<and>
     (if first_addr bs m \<noteq> None then set_prev h1 (first_addr bs m) q' else Some h1) = Some h2 \<and>
     dseg h2 p as n' \<and> dseg h2 q' bs m \<and> (\<forall>a. a \<notin> addrs as \<union> addrs bs \<longrightarrow> h1 a = h a \<and> h2 a = h a) \<and>
     dom h2 = dom h"
proof -
  have dis: "distinct (map fst as)" "distinct (map fst bs)" "\<forall>a \<in> addrs bs. a \<notin> addrs as" "\<forall>a \<in> addrs as. a \<notin> addrs bs"
    using assms(3) by auto
  obtain h1 where h1: "(if last_addr as p \<noteq> None then set_next h (last_addr as p) n' else Some h) = Some h1"
    "dseg h1 p as n'" "\<forall>a. a \<notin> addrs as \<longrightarrow> h1 a = h a" "dom h1 = dom h"
  proof (cases "as = []")
    case True
    then show ?thesis using that [of h] assms(4) by simp
  next
    case False
    moreover from this have "last_addr as p \<noteq> None" by (simp add: last_addr_def)
    ultimately show ?thesis using dseg_set_next [OF assms(1) dis(1), of n'] that by auto
  qed
  have bs: "dseg h1 q bs m" by (rule dseg_frame [OF _ assms(2)]) (use h1(3) dis(3) in auto)
  obtain h2 where h2: "(if first_addr bs m \<noteq> None then set_prev h1 (first_addr bs m) q' else Some h1) = Some h2"
    "dseg h2 q' bs m" "\<forall>a. a \<notin> addrs bs \<longrightarrow> h2 a = h1 a" "dom h2 = dom h1"
  proof (cases "bs = []")
    case True
    then show ?thesis using that [of h1] assms(5) by simp
  next
    case False
    moreover from this have "first_addr bs m \<noteq> None" by (cases bs) simp_all
    ultimately show ?thesis using dseg_set_prev [OF bs dis(2), of q'] that by auto
  qed
  have "dseg h2 p as n'" by (rule dseg_frame [OF _ h1(2)]) (use h2(3) dis(4) in auto)
  then show ?thesis using h1 h2 by auto
qed

lemma dlist_split:
  "dlist h l (as @ (b, w) # bs) \<longleftrightarrow>
     l_head l = first_addr as (Some b) \<and> l_tail l = last_addr bs (Some b) \<and> l_len l = length as + length bs + 1 \<and>
     dseg h None as (Some b) \<and> h b = Some \<lparr>nd_prev = last_addr as None, nd_next = first_addr bs None, nd_value = w\<rparr> \<and>
     dseg h (Some b) bs None \<and> distinct (map fst (as @ (b, w) # bs))"
  by (auto simp: dlist_def)

lemma listDelNode_spec:
  assumes d: "dlist h l (as @ (b, w) # bs)"
  shows "\<exists>h' l'. listDelNode h l b = Some (h', l', if l_free l then [w] else []) \<and>
     list_step h l (as @ (b, w) # bs) h' l' (as @ bs)"
proof -
  let ?n = "\<lparr>nd_prev = last_addr as None, nd_next = first_addr bs None, nd_value = w\<rparr>"
  have s: "dseg h None as (Some b)" "dseg h (Some b) bs None" "h b = Some ?n" "b \<notin> addrs as" "b \<notin> addrs bs"
    and dis: "distinct (map fst (as @ bs))" using d by (auto simp: dlist_split)
  from relink [OF s(1,2) dis refl refl, of "first_addr bs None" "last_addr as None"] obtain h1 h2 where
    h1: "(if last_addr as None \<noteq> None then set_next h (last_addr as None) (first_addr bs None) else Some h) = Some h1"
    and h2: "(if first_addr bs None \<noteq> None then set_prev h1 (first_addr bs None) (last_addr as None) else Some h1) = Some h2"
    and r: "dseg h2 None as (first_addr bs None)" "dseg h2 (last_addr as None) bs None"
      "\<forall>a. a \<notin> addrs as \<union> addrs bs \<longrightarrow> h1 a = h a \<and> h2 a = h a" "dom h2 = dom h" by blast
  have hb: "h1 b = Some ?n" "h2 b = Some ?n" using r(3) s by auto
  let ?l1 = "if last_addr as None \<noteq> None then l else l\<lparr>l_head := first_addr bs None\<rparr>"
  let ?l2 = "if first_addr bs None \<noteq> None then ?l1 else ?l1\<lparr>l_tail := last_addr as None\<rparr>"
  have e1: "(if last_addr as None \<noteq> None then do { h \<leftarrow> set_next h (last_addr as None) (first_addr bs None); Some (h, l) }
       else Some (h, l\<lparr>l_head := first_addr bs None\<rparr>)) = Some (h1, ?l1)"
    using h1 by (auto split: if_splits)
  have e2: "(if first_addr bs None \<noteq> None then do { h \<leftarrow> set_prev h1 (first_addr bs None) (last_addr as None); Some (h, ?l1) }
       else Some (h1, ?l1\<lparr>l_tail := last_addr as None\<rparr>)) = Some (h2, ?l2)"
    using h2 by (auto split: if_splits)
  have e: "listDelNode h l b = Some (h2(b := None), ?l2\<lparr>l_len := l_len ?l2 - 1\<rparr>, if l_free ?l2 then [w] else [])"
    unfolding listDelNode_def by (simp only: s(3) hb e1 e2 bind.bind_lunit prod.case listNode.simps)
  have hd: "first_addr as (first_addr bs None) = l_head ?l2" using d by (cases as) (auto simp: dlist_def)
  have tl: "last_addr bs (last_addr as None) = l_tail ?l2"
    using d by (cases bs) (auto simp: dlist_def addr_nonempty)
  have dl: "dlist (h2(b := None)) (?l2\<lparr>l_len := l_len ?l2 - 1\<rparr>) (as @ bs)"
    using r s(4,5) dis hd tl d by (simp add: dlist_def)
  have "addrs (as @ (b, w) # bs) \<subseteq> dom h" by (rule dlist_dom [OF d])
  then have "dom (h2(b := None)) = dom h - addrs (as @ (b, w) # bs) \<union> addrs (as @ bs)" using r(4) s(4,5) by auto
  then show ?thesis using e dl r(3) by (auto simp: list_step_def)
qed

text \<open>The list with a node between two segments, as both forms of \<open>listInsertNode\<close> leave it.\<close>

lemma insert_between:
  assumes d: "dlist h l (as @ bs)" "as @ bs \<noteq> []" and a: "a \<notin> dom h"
    and n: "nd = \<lparr>nd_prev = last_addr as None, nd_next = first_addr bs None, nd_value = v\<rparr>"
    and l': "l_head l' = first_addr as (Some a)" "l_tail l' = last_addr bs (Some a)" "l_len l' = l_len l"
      "l_dup l' = l_dup l" "l_free l' = l_free l" "l_match l' = l_match l"
  shows "\<exists>h1 h2. (if nd_prev nd \<noteq> None then set_next (h(a \<mapsto> nd)) (nd_prev nd) (Some a) else Some (h(a \<mapsto> nd))) = Some h1 \<and>
     (if nd_next nd \<noteq> None then set_prev h1 (nd_next nd) (Some a) else Some h1) = Some h2 \<and>
     list_step h l (as @ bs) h2 (l'\<lparr>l_len := l_len l' + 1\<rparr>) (as @ (a, v) # bs)"
proof -
  have na: "a \<notin> addrs as" "a \<notin> addrs bs" using a dlist_dom [OF d(1)] by auto
  have s: "dseg (h(a \<mapsto> nd)) None as (first_addr bs None)" "dseg (h(a \<mapsto> nd)) (last_addr as None) bs None"
    and dis: "distinct (map fst (as @ bs))" using d(1) na by (simp_all add: dlist_def)
  from relink [OF s dis refl refl, of "Some a" "Some a"] obtain h1 h2 where
    h: "(if last_addr as None \<noteq> None then set_next (h(a \<mapsto> nd)) (last_addr as None) (Some a) else Some (h(a \<mapsto> nd))) = Some h1"
      "(if first_addr bs None \<noteq> None then set_prev h1 (first_addr bs None) (Some a) else Some h1) = Some h2"
    and r: "dseg h2 None as (Some a)" "dseg h2 (Some a) bs None"
      "\<forall>c. c \<notin> addrs as \<union> addrs bs \<longrightarrow> h1 c = (h(a \<mapsto> nd)) c \<and> h2 c = (h(a \<mapsto> nd)) c" "dom h2 = dom (h(a \<mapsto> nd))" by blast
  have "h2 a = Some nd" using r(3) na by simp
  then have "dlist h2 (l'\<lparr>l_len := l_len l' + 1\<rparr>) (as @ (a, v) # bs)"
    using r(1,2) dis na d(1) l' n unfolding dlist_split by (auto simp: dlist_def)
  moreover have "dom h2 = dom h - addrs (as @ bs) \<union> addrs (as @ (a, v) # bs)" using r(4) dlist_dom [OF d(1)] by auto
  ultimately have "list_step h l (as @ bs) h2 (l'\<lparr>l_len := l_len l' + 1\<rparr>) (as @ (a, v) # bs)"
    using r(3) l' by (auto simp: list_step_def)
  then show ?thesis using h n by auto
qed

lemma listInsertNode_spec:
  assumes d: "dlist h l (as @ (b, w) # bs)" and a: "h (alloc h) = None"
  shows "\<exists>h' l'. listInsertNode alloc h l b v after = Some (h', l') \<and>
     list_step h l (as @ (b, w) # bs) h' l'
       (if after then as @ (b, w) # (alloc h, v) # bs else as @ (alloc h, v) # (b, w) # bs)"
proof -
  have na: "alloc h \<notin> dom h" using a by auto
  have hb: "h b = Some \<lparr>nd_prev = last_addr as None, nd_next = first_addr bs None, nd_value = w\<rparr>" "b \<notin> addrs as" "b \<notin> addrs bs"
    and lh: "l_head l = first_addr as (Some b)" "l_tail l = last_addr bs (Some b)" using d by (auto simp: dlist_split)
  show ?thesis
  proof (cases after)
    case True
    let ?n = "\<lparr>nd_prev = Some b, nd_next = first_addr bs None, nd_value = v\<rparr>"
    let ?l = "if l_tail l = Some b then l\<lparr>l_tail := Some (alloc h)\<rparr> else l"
    have tl: "l_tail ?l = last_addr bs (Some (alloc h))"
    proof (cases "bs = []")
      case False
      then have "last_addr bs (Some b) \<noteq> Some b" using hb(3) last_in_set [of bs] by (auto simp: last_addr_def)
      then show ?thesis using lh(2) False by (simp add: last_addr_def)
    qed (simp add: lh(2))
    have d': "dlist h l ((as @ [(b, w)]) @ bs)" using d by simp
    have hd: "l_head ?l = first_addr (as @ [(b, w)]) (Some (alloc h))" using lh(1) by simp
    have m: "l_len ?l = l_len l" "l_dup ?l = l_dup l" "l_free ?l = l_free l" "l_match ?l = l_match l" by simp_all
    have n: "?n = \<lparr>nd_prev = last_addr (as @ [(b, w)]) None, nd_next = first_addr bs None, nd_value = v\<rparr>" by simp
    obtain h1 h2 where "(if nd_prev ?n \<noteq> None then set_next (h(alloc h \<mapsto> ?n)) (nd_prev ?n) (Some (alloc h)) else Some (h(alloc h \<mapsto> ?n))) = Some h1"
      "(if nd_next ?n \<noteq> None then set_prev h1 (nd_next ?n) (Some (alloc h)) else Some h1) = Some h2"
      "list_step h l ((as @ [(b, w)]) @ bs) h2 (?l\<lparr>l_len := l_len ?l + 1\<rparr>) ((as @ [(b, w)]) @ (alloc h, v) # bs)"
      using insert_between [OF d' _ na n hd tl m] by blast
    then show ?thesis using True hb(1) by (auto simp: listInsertNode_def Let_def split: if_splits)
  next
    case False
    let ?n = "\<lparr>nd_prev = last_addr as None, nd_next = Some b, nd_value = v\<rparr>"
    let ?l = "if l_head l = Some b then l\<lparr>l_head := Some (alloc h)\<rparr> else l"
    have hd: "l_head ?l = first_addr as (Some (alloc h))"
      using lh(1) hb(2) by (cases as) auto
    have tl: "l_tail ?l = last_addr ((b, w) # bs) (Some (alloc h))" using lh(2) by simp
    have m: "l_len ?l = l_len l" "l_dup ?l = l_dup l" "l_free ?l = l_free l" "l_match ?l = l_match l" by simp_all
    have n: "?n = \<lparr>nd_prev = last_addr as None, nd_next = first_addr ((b, w) # bs) None, nd_value = v\<rparr>" by simp
    obtain h1 h2 where "(if nd_prev ?n \<noteq> None then set_next (h(alloc h \<mapsto> ?n)) (nd_prev ?n) (Some (alloc h)) else Some (h(alloc h \<mapsto> ?n))) = Some h1"
      "(if nd_next ?n \<noteq> None then set_prev h1 (nd_next ?n) (Some (alloc h)) else Some h1) = Some h2"
      "list_step h l (as @ (b, w) # bs) h2 (?l\<lparr>l_len := l_len ?l + 1\<rparr>) (as @ (alloc h, v) # (b, w) # bs)"
      using insert_between [OF d _ na n hd tl m] by blast
    then show ?thesis using False hb(1) by (auto simp: listInsertNode_def Let_def split: if_splits)
  qed
qed

lemma empty_loop_spec:
  assumes "dseg h p xs n" and "distinct (map fst xs)"
  shows "empty_loop fr (length xs) (first_addr xs n) h freed =
     Some (\<lambda>a. if a \<in> addrs xs then None else h a, if fr then freed @ map snd xs else freed)"
  using assms
proof (induction xs arbitrary: h p freed)
  case (Cons x xs)
  obtain a v where x: "x = (a, v)" by (cases x)
  then have "dseg (h(a := None)) (Some a) xs n" "distinct (map fst xs)" "a \<notin> addrs xs" using Cons.prems by simp_all
  note IH = Cons.IH [OF this(1,2)]
  have e: "(\<lambda>c. if c \<in> addrs xs then None else (h(a := None)) c) = (\<lambda>c. if c \<in> addrs (x # xs) then None else h c)"
    using x by (simp add: fun_eq_iff)
  show ?case using Cons.prems(1) x IH [of "if fr then freed @ [v] else freed", unfolded e] by (simp add: fun_upd_def split: if_splits)
qed simp

lemma listEmpty_spec:
  assumes d: "dlist h l xs"
  shows "\<exists>h' l'. listEmpty h l = Some (h', l', if l_free l then map snd xs else []) \<and> list_step h l xs h' l' []"
proof -
  have "dseg h None xs None" "distinct (map fst xs)" "l_head l = first_addr xs None" "l_len l = length xs"
    using d by (simp_all add: dlist_def)
  then show ?thesis using empty_loop_spec [of h None xs None "l_free l" "[]"]
    by (auto simp: listEmpty_def list_step_def dlist_def dom_def split: if_splits)
qed

lemma listRotate_spec:
  assumes d: "dlist h l (ys @ [(b, w)])" and ys: "ys \<noteq> []"
  shows "\<exists>h' l'. listRotate h l = Some (h', l') \<and> list_step h l (ys @ [(b, w)]) h' l' ((b, w) # ys)"
proof -
  have s: "dseg h None ys (Some b)" "h b = Some \<lparr>nd_prev = last_addr ys None, nd_next = None, nd_value = w\<rparr>"
      "b \<notin> addrs ys" "distinct (map fst ys)" "l_head l = first_addr ys None" "l_tail l = Some b" "l_len l = length ys + 1"
    using d ys by (cases ys; auto simp: dlist_def)+
  obtain h1 where h1: "set_next h (last_addr ys None) None = Some h1" "dseg h1 None ys None"
      "\<forall>a. a \<notin> addrs ys \<longrightarrow> h1 a = h a" "dom h1 = dom h"
    using dseg_set_next [OF s(1,4) ys] by blast
  obtain h2 where h2: "set_prev h1 (first_addr ys None) (Some b) = Some h2" "dseg h2 (Some b) ys None"
      "\<forall>a. a \<notin> addrs ys \<longrightarrow> h2 a = h1 a" "dom h2 = dom h1"
    using dseg_set_prev [OF h1(2) s(4) ys] by blast
  let ?n = "\<lparr>nd_prev = None, nd_next = first_addr ys None, nd_value = w\<rparr>"
  let ?l = "l\<lparr>l_tail := last_addr ys None, l_head := Some b\<rparr>"
  have hb: "h2 b = Some \<lparr>nd_prev = last_addr ys None, nd_next = None, nd_value = w\<rparr>" using h1(3) h2(3) s(2,3) by simp
  have "0 < length ys" using ys by simp
  then have e: "listRotate h l = Some (h2(b \<mapsto> ?n), ?l)"
    using s h1(1) h2(1) hb by (simp add: listRotate_def Let_def set_prev_def [of _ "Some b"] set_next_def [of _ "Some b"])
  have "last_addr ys (Some b) = last_addr ys None" using ys by (simp add: last_addr_def)
  then have "dlist (h2(b \<mapsto> ?n)) ?l ((b, w) # ys)" using h2(2) s by (simp add: dlist_def)
  moreover have "dom (h2(b \<mapsto> ?n)) = dom h - addrs (ys @ [(b, w)]) \<union> addrs ((b, w) # ys)"
    using h1(4) h2(4) dlist_dom [OF d] by auto
  ultimately show ?thesis using e h1(3) h2(3) by (auto simp: list_step_def)
qed

lemma listRotate_short: "dlist h l xs \<Longrightarrow> length xs \<le> 1 \<Longrightarrow> listRotate h l = Some (h, l) \<and> list_step h l xs h l xs"
  using dlist_dom [of h l xs] by (auto simp: listRotate_def dlist_def list_step_def)

text \<open>Two disjoint lists become one.\<close>

lemma listJoin_spec:
  assumes d: "dlist h l xs" "dlist h o' ys" and dis: "addrs xs \<inter> addrs ys = {}" and ne: "ys \<noteq> []"
  shows "\<exists>h' l' o2. listJoin h l o' = Some (h', l', o2) \<and> dlist h' l' (xs @ ys) \<and> dlist h' o2 [] \<and>
     (\<forall>a. a \<notin> addrs xs \<and> a \<notin> addrs ys \<longrightarrow> h' a = h a) \<and> dom h' = dom h"
proof -
  have x: "dseg h None xs None" "distinct (map fst xs)" "l_head l = first_addr xs None" "l_tail l = last_addr xs None" "l_len l = length xs"
    and y: "dseg h None ys None" "distinct (map fst ys)" "l_head o' = first_addr ys None" "l_tail o' = last_addr ys None" "l_len o' = length ys"
    using d by (simp_all add: dlist_def)
  obtain h1 where h1: "(if l_head o' \<noteq> None then set_prev h (l_head o') (l_tail l) else Some h) = Some h1"
      "dseg h1 (last_addr xs None) ys None" "\<forall>a. a \<notin> addrs ys \<longrightarrow> h1 a = h a" "dom h1 = dom h"
  proof (cases "ys = []")
    case True
    then show ?thesis using that [of h] y(3) by simp
  next
    case False
    moreover from this have "first_addr ys None \<noteq> None" by (cases ys) simp_all
    ultimately show ?thesis using dseg_set_prev [OF y(1,2), of "l_tail l"] that x(4) y(3) by auto
  qed
  have xs1: "dseg h1 None xs None" by (rule dseg_frame [OF _ x(1)]) (use h1(3) dis in auto)
  let ?l1 = "if xs = [] then l\<lparr>l_head := l_head o'\<rparr> else l"
  obtain h2 where h2: "(if l_tail l \<noteq> None then do { h \<leftarrow> set_next h1 (l_tail l) (l_head o'); Some (h, l) }
       else Some (h1, l\<lparr>l_head := l_head o'\<rparr>)) = Some (h2, ?l1)"
      "dseg h2 None xs (first_addr ys None)" "\<forall>a. a \<notin> addrs xs \<longrightarrow> h2 a = h1 a" "dom h2 = dom h1"
  proof (cases "xs = []")
    case True
    then show ?thesis using that [of h1] x(4) by simp
  next
    case False
    moreover from this have "last_addr xs None \<noteq> None" by (simp add: last_addr_def)
    ultimately show ?thesis using dseg_set_next [OF xs1 x(2), of "l_head o'"] that x(4) y(3) by auto
  qed
  have ys2: "dseg h2 (last_addr xs None) ys None" by (rule dseg_frame [OF _ h1(2)]) (use h2(3) dis in auto)
  let ?l = "?l1\<lparr>l_tail := l_tail o', l_len := l_len ?l1 + l_len o'\<rparr>"
  have e: "listJoin h l o' = Some (h2, ?l, o'\<lparr>l_head := None, l_tail := None, l_len := 0\<rparr>)"
    unfolding listJoin_def by (simp only: h1(1) h2(1) bind.bind_lunit prod.case)
  have "first_addr xs (first_addr ys None) = l_head ?l1" using x(3) y(3) by (cases xs) simp_all
  moreover have "last_addr ys (last_addr xs None) = last_addr ys None" using ne by (simp add: last_addr_def)
  moreover have "distinct (map fst (xs @ ys))" using x(2) y(2) dis by auto
  ultimately have "dlist h2 ?l (xs @ ys)" using h2(2) ys2 x(5) y(4,5) by (simp add: dlist_def)
  then show ?thesis using e h1(3,4) h2(3,4) by (simp add: dlist_def)
qed

subsection \<open>Access and iteration\<close>

lemma walk_next:
  "dseg h p xs None \<Longrightarrow> walk nd_next h k (first_addr xs None) = Some (if k < length xs then Some (fst (xs ! k)) else None)"
proof (induction k arbitrary: p xs)
  case 0
  then show ?case by (cases xs) simp_all
next
  case (Suc k)
  show ?case
  proof (cases xs)
    case (Cons x ys)
    obtain a v where "x = (a, v)" by (cases x)
    with Suc.prems Cons Suc.IH [of "Some a" ys] show ?thesis by simp
  qed simp
qed

lemma walk_prev:
  "dseg h None xs n \<Longrightarrow> walk nd_prev h k (last_addr xs None) = Some (if k < length xs then Some (fst (rev xs ! k)) else None)"
proof (induction k arbitrary: n xs)
  case 0
  then show ?case by (cases xs rule: rev_cases) simp_all
next
  case (Suc k)
  show ?case
  proof (cases xs rule: rev_cases)
    case (snoc ys x)
    obtain a v where "x = (a, v)" by (cases x)
    with Suc.prems snoc Suc.IH [of ys "Some a"] show ?thesis by simp
  qed simp
qed

text \<open>Negative positions count from the end.\<close>

definition list_pos :: "nat \<Rightarrow> int \<Rightarrow> nat option" where
  "list_pos n i = (let k = (if i < 0 then int n + i else i) in if 0 \<le> k \<and> k < int n then Some (nat k) else None)"

lemma listIndex_spec:
  assumes "dlist h l xs"
  shows "listIndex h l i = Some (map_option (\<lambda>k. fst (xs ! k)) (list_pos (length xs) i))"
proof -
  have d: "dseg h None xs None" "l_head l = first_addr xs None" "l_tail l = last_addr xs None"
    using assms by (simp_all add: dlist_def)
  show ?thesis
  proof (cases "i < 0")
    case True
    let ?k = "nat (- i - 1)"
    have "rev xs ! ?k = xs ! nat (int (length xs) + i)" if "?k < length xs"
    proof -
      have "length xs - Suc ?k = nat (int (length xs) + i)" using that True by linarith
      then show ?thesis using that by (simp add: rev_nth)
    qed
    then show ?thesis using True walk_prev [OF d(1), of ?k] d(3) by (auto simp: listIndex_def list_pos_def Let_def)
  next
    case False
    then show ?thesis using walk_next [OF d(1), of "nat i"] d(2) by (auto simp: listIndex_def list_pos_def Let_def)
  qed
qed

lemma list_pos_less: "list_pos n i = Some k \<Longrightarrow> k < n"
  by (auto simp: list_pos_def Let_def split: if_splits)

lemma search_nodes_spec:
  "dseg h p xs None \<Longrightarrow>
     search_nodes h l key \<lparr>it_next = first_addr xs None, it_direction = AL_START_HEAD\<rparr> =
     Some (map_option fst (List.find (\<lambda>x. node_matches l (snd x) key) xs))"
proof (induction xs arbitrary: p)
  case Nil
  show ?case by (subst search_nodes.simps) (simp add: listNext_def)
next
  case (Cons x xs)
  obtain a v where x: "x = (a, v)" by (cases x)
  then show ?case using Cons.prems Cons.IH [of "Some a"] by (subst search_nodes.simps) (simp add: listNext_def)
qed

lemma listSearchKey_spec:
  "dlist h l xs \<Longrightarrow> listSearchKey h l key = Some (map_option fst (List.find (\<lambda>x. node_matches l (snd x) key) xs))"
  using search_nodes_spec [of h None xs l key] by (simp add: listSearchKey_def listRewind_def dlist_def)

lemma dlist_value: "dlist h l xs \<Longrightarrow> k < length xs \<Longrightarrow> \<exists>n. h (fst (xs ! k)) = Some n \<and> nd_value n = snd (xs ! k)"
proof -
  have "dseg h p xs n \<Longrightarrow> k < length xs \<Longrightarrow> \<exists>n. h (fst (xs ! k)) = Some n \<and> nd_value n = snd (xs ! k)" for p n
  proof (induction xs arbitrary: k p)
    case (Cons x xs)
    then show ?case by (cases x; cases k) auto
  qed simp
  from this [of None None] show "dlist h l xs \<Longrightarrow> k < length xs \<Longrightarrow> ?thesis" by (simp add: dlist_def)
qed

section \<open>Histories\<close>

datatype 'v list_op =
  AddHead 'v | AddTail 'v | InsertAt int 'v bool | DelAt int | Rotate | Empty | IndexOf int | Search 'v

text \<open>A call on the list in the heap: the new state and the values it gives back or frees.\<close>

fun list_exec :: "('v heap \<Rightarrow> nat) \<Rightarrow> 'v list_op \<Rightarrow> 'v heap \<Rightarrow> 'v hlist \<Rightarrow> ('v heap \<times> 'v hlist \<times> 'v list) option" where
  "list_exec alloc (AddHead v) h l = do { (h, l) \<leftarrow> listAddNodeHead alloc h l v; Some (h, l, []) }"
| "list_exec alloc (AddTail v) h l = do { (h, l) \<leftarrow> listAddNodeTail alloc h l v; Some (h, l, []) }"
| "list_exec alloc (InsertAt i v after) h l = do {
     node \<leftarrow> listIndex h l i;
     case node of None \<Rightarrow> Some (h, l, [])
     | Some a \<Rightarrow> do { (h, l) \<leftarrow> listInsertNode alloc h l a v after; Some (h, l, []) }
   }"
| "list_exec alloc (DelAt i) h l = do {
     node \<leftarrow> listIndex h l i;
     case node of None \<Rightarrow> Some (h, l, []) | Some a \<Rightarrow> listDelNode h l a
   }"
| "list_exec alloc Rotate h l = do { (h, l) \<leftarrow> listRotate h l; Some (h, l, []) }"
| "list_exec alloc Empty h l = listEmpty h l"
| "list_exec alloc (IndexOf i) h l = do {
     node \<leftarrow> listIndex h l i;
     case node of None \<Rightarrow> Some (h, l, []) | Some a \<Rightarrow> do { n \<leftarrow> h a; Some (h, l, [nd_value n]) }
   }"
| "list_exec alloc (Search key) h l = do {
     node \<leftarrow> listSearchKey h l key;
     case node of None \<Rightarrow> Some (h, l, []) | Some a \<Rightarrow> do { n \<leftarrow> h a; Some (h, l, [nd_value n]) }
   }"

text \<open>The same on a sequence of values, for a list with the methods of \<open>l\<close>.\<close>

fun seq_exec :: "'v hlist \<Rightarrow> 'v list_op \<Rightarrow> 'v list \<Rightarrow> 'v list \<times> 'v list" where
  "seq_exec l (AddHead v) xs = (v # xs, [])"
| "seq_exec l (AddTail v) xs = (xs @ [v], [])"
| "seq_exec l (InsertAt i v after) xs = (case list_pos (length xs) i of
     None \<Rightarrow> (xs, [])
   | Some k \<Rightarrow> (take k xs @ (if after then [xs ! k, v] else [v, xs ! k]) @ drop (Suc k) xs, []))"
| "seq_exec l (DelAt i) xs = (case list_pos (length xs) i of
     None \<Rightarrow> (xs, [])
   | Some k \<Rightarrow> (take k xs @ drop (Suc k) xs, if l_free l then [xs ! k] else []))"
| "seq_exec l Rotate xs = (if length xs \<le> 1 then xs else last xs # butlast xs, [])"
| "seq_exec l Empty xs = ([], if l_free l then xs else [])"
| "seq_exec l (IndexOf i) xs = (xs, case list_pos (length xs) i of None \<Rightarrow> [] | Some k \<Rightarrow> [xs ! k])"
| "seq_exec l (Search key) xs = (xs, case List.find (\<lambda>v. node_matches l v key) xs of None \<Rightarrow> [] | Some v \<Rightarrow> [v])"

fun list_run :: "('v heap \<Rightarrow> nat) \<Rightarrow> 'v list_op list \<Rightarrow> 'v heap \<Rightarrow> 'v hlist \<Rightarrow> ('v heap \<times> 'v hlist \<times> 'v list list) option" where
  "list_run alloc [] h l = Some (h, l, [])"
| "list_run alloc (c # cs) h l = do {
     (h, l, r) \<leftarrow> list_exec alloc c h l;
     (h, l, rs) \<leftarrow> list_run alloc cs h l;
     Some (h, l, r # rs)
   }"

fun seq_run :: "'v hlist \<Rightarrow> 'v list_op list \<Rightarrow> 'v list \<Rightarrow> 'v list \<times> 'v list list" where
  "seq_run l [] xs = (xs, [])"
| "seq_run l (c # cs) xs = (let (xs, r) = seq_exec l c xs; (xs, rs) = seq_run l cs xs in (xs, r # rs))"

text \<open>What \<open>zmalloc\<close> promises: a block that is not in use.\<close>

definition alloc_fresh :: "('v heap \<Rightarrow> nat) \<Rightarrow> bool" where
  "alloc_fresh alloc \<longleftrightarrow> (\<forall>h. finite (dom h) \<longrightarrow> h (alloc h) = None)"

lemma list_step_refl: "dlist h l xs \<Longrightarrow> list_step h l xs h l xs"
  using dlist_dom [of h l xs] by (auto simp: list_step_def)

lemma nth_split: "k < length xs \<Longrightarrow> xs = take k xs @ (fst (xs ! k), snd (xs ! k)) # drop (Suc k) xs"
  by (simp add: id_take_nth_drop)

lemma list_exec_spec:
  assumes d: "dlist h l xs" and a: "h (alloc h) = None"
  shows "\<exists>h' l' xs'. list_exec alloc c h l = Some (h', l', snd (seq_exec l c (map snd xs))) \<and>
     list_step h l xs h' l' xs' \<and> map snd xs' = fst (seq_exec l c (map snd xs)) \<and> addrs xs' \<subseteq> insert (alloc h) (addrs xs)"
proof (cases c)
  case (AddHead v)
  then show ?thesis using listAddNodeHead_spec [of h l xs alloc v] d a by fastforce
next
  case (AddTail v)
  then show ?thesis using listAddNodeTail_spec [of h l xs alloc v] d a by fastforce
next
  case (InsertAt i v after)
  show ?thesis
  proof (cases "list_pos (length xs) i")
    case None
    then show ?thesis using InsertAt listIndex_spec [OF d, of i] list_step_refl [OF d] by auto
  next
    case (Some k)
    note k = list_pos_less [OF Some]
    let ?as = "take k xs" and ?bs = "drop (Suc k) xs" and ?b = "fst (xs ! k)" and ?w = "snd (xs ! k)"
    have xs: "xs = ?as @ (?b, ?w) # ?bs" by (rule nth_split [OF k])
    let ?xs' = "if after then ?as @ (?b, ?w) # (alloc h, v) # ?bs else ?as @ (alloc h, v) # (?b, ?w) # ?bs"
    from listInsertNode_spec [of h l ?as ?b ?w ?bs alloc v after] d a xs obtain h' l' where
      "listInsertNode alloc h l ?b v after = Some (h', l')" "list_step h l xs h' l' ?xs'" by auto
    moreover have "addrs ?xs' \<subseteq> insert (alloc h) (addrs xs)" using k by (auto dest: in_set_takeD in_set_dropD)
    moreover have "map snd ?xs' = fst (seq_exec l c (map snd xs))" using InsertAt Some k by (simp add: take_map drop_map)
    ultimately show ?thesis using InsertAt Some k listIndex_spec [OF d, of i] by auto
  qed
next
  case (DelAt i)
  show ?thesis
  proof (cases "list_pos (length xs) i")
    case None
    then show ?thesis using DelAt listIndex_spec [OF d, of i] list_step_refl [OF d] by auto
  next
    case (Some k)
    note k = list_pos_less [OF Some]
    let ?as = "take k xs" and ?bs = "drop (Suc k) xs" and ?b = "fst (xs ! k)" and ?w = "snd (xs ! k)"
    have xs: "xs = ?as @ (?b, ?w) # ?bs" by (rule nth_split [OF k])
    from listDelNode_spec [of h l ?as ?b ?w ?bs] d xs obtain h' l' where
      "listDelNode h l ?b = Some (h', l', if l_free l then [?w] else [])" "list_step h l xs h' l' (?as @ ?bs)" by auto
    moreover have "addrs (?as @ ?bs) \<subseteq> insert (alloc h) (addrs xs)" by (auto dest: in_set_takeD in_set_dropD)
    moreover have "map snd (?as @ ?bs) = fst (seq_exec l c (map snd xs))" using DelAt Some by (simp add: take_map drop_map)
    ultimately show ?thesis using DelAt Some k listIndex_spec [OF d, of i]
      by (intro exI [of _ h'] exI [of _ l'] exI [of _ "?as @ ?bs"]) simp
  qed
next
  case Rotate
  show ?thesis
  proof (cases "length xs \<le> 1")
    case True
    then show ?thesis using Rotate listRotate_short [OF d] by auto
  next
    case False
    then obtain ys b w where xs: "xs = ys @ [(b, w)]" "ys \<noteq> []" by (cases xs rule: rev_cases) auto
    from listRotate_spec [of h l ys b w] d xs Rotate False show ?thesis by fastforce
  qed
next
  case Empty
  then show ?thesis using listEmpty_spec [OF d] by auto
next
  case (IndexOf i)
  show ?thesis
  proof (cases "list_pos (length xs) i")
    case (Some k)
    note k = list_pos_less [OF Some]
    obtain n where "h (fst (xs ! k)) = Some n" "nd_value n = snd (xs ! k)" using dlist_value [OF d k] by blast
    then show ?thesis using IndexOf Some k listIndex_spec [OF d, of i] list_step_refl [OF d]
      by (intro exI [of _ h] exI [of _ l] exI [of _ xs]) auto
  qed (use IndexOf listIndex_spec [OF d, of i] list_step_refl [OF d] in auto)
next
  case (Search key)
  let ?P = "\<lambda>v. node_matches l v key"
  have f: "List.find ?P (map snd xs) = map_option snd (List.find (\<lambda>x. ?P (snd x)) xs)"
    by (induction xs) auto
  show ?thesis
  proof (cases "List.find (\<lambda>x. ?P (snd x)) xs")
    case None
    then show ?thesis using Search f listSearchKey_spec [OF d, of key] list_step_refl [OF d] by auto
  next
    case (Some x)
    then obtain k where k: "k < length xs" "x = xs ! k" by (auto simp: find_Some_iff)
    obtain n where "h (fst (xs ! k)) = Some n" "nd_value n = snd (xs ! k)" using dlist_value [OF d k(1)] by blast
    then show ?thesis using Search f Some k listSearchKey_spec [OF d, of key] list_step_refl [OF d]
      by (intro exI [of _ h] exI [of _ l] exI [of _ xs]) auto
  qed
qed

lemma seq_exec_methods:
  assumes "l_free l' = l_free l" "l_match l' = l_match l"
  shows "seq_exec l' c xs = seq_exec l c xs"
proof -
  have "node_matches l' = node_matches l" by (intro ext) (simp only: node_matches_def assms(2))
  then show ?thesis by (cases c) (simp_all only: seq_exec.simps assms(1))
qed

lemma seq_run_methods:
  assumes "l_free l' = l_free l" "l_match l' = l_match l"
  shows "seq_run l' cs xs = seq_run l cs xs"
  by (induction cs arbitrary: xs) (simp_all only: seq_run.simps seq_exec_methods [OF assms])

lemma seq_run_Cons:
  "fst (seq_run l (c # cs) xs) = fst (seq_run l cs (fst (seq_exec l c xs)))"
  "snd (seq_run l (c # cs) xs) = snd (seq_exec l c xs) # snd (seq_run l cs (fst (seq_exec l c xs)))"
  by (simp_all add: case_prod_beta Let_def)

lemma list_run_spec:
  assumes fresh: "alloc_fresh alloc"
  shows "dlist h l xs \<Longrightarrow> finite (dom h) \<Longrightarrow>
    \<exists>h' l' xs'. list_run alloc cs h l = Some (h', l', snd (seq_run l cs (map snd xs))) \<and> dlist h' l' xs' \<and>
      map snd xs' = fst (seq_run l cs (map snd xs)) \<and> (\<forall>a \<in> dom h - addrs xs. h' a = h a) \<and>
      dom h' = dom h - addrs xs \<union> addrs xs' \<and> addrs xs' \<inter> (dom h - addrs xs) = {}"
proof (induction cs arbitrary: h l xs)
  case Nil
  then show ?case using dlist_dom [OF Nil(1)] by auto
next
  case (Cons c cs)
  have a: "h (alloc h) = None" using fresh Cons.prems(2) by (simp add: alloc_fresh_def)
  from list_exec_spec [of h l xs alloc c] Cons.prems(1) a obtain h1 l1 xs1 where
    1: "list_exec alloc c h l = Some (h1, l1, snd (seq_exec l c (map snd xs)))" "list_step h l xs h1 l1 xs1"
      "map snd xs1 = fst (seq_exec l c (map snd xs))" "addrs xs1 \<subseteq> insert (alloc h) (addrs xs)" by blast
  have d1: "dlist h1 l1 xs1" "dom h1 = dom h - addrs xs \<union> addrs xs1" "l_free l1 = l_free l" "l_match l1 = l_match l"
    "\<forall>b. b \<notin> addrs xs \<and> b \<notin> addrs xs1 \<longrightarrow> h1 b = h b"
    using 1(2) by (simp_all add: list_step_def)
  have rest: "dom h1 - addrs xs1 = dom h - addrs xs" using d1(2) 1(4) a by auto
  have fin: "finite (dom h1)" using d1(2) Cons.prems(2) by simp
  from Cons.IH [OF d1(1) fin, unfolded rest] obtain h2 l2 xs2 where
    2: "list_run alloc cs h1 l1 = Some (h2, l2, snd (seq_run l1 cs (map snd xs1)))" "dlist h2 l2 xs2"
      "map snd xs2 = fst (seq_run l1 cs (map snd xs1))" "\<forall>b \<in> dom h - addrs xs. h2 b = h1 b"
      "dom h2 = dom h - addrs xs \<union> addrs xs2" "addrs xs2 \<inter> (dom h - addrs xs) = {}" by (elim exE conjE)
  have "b \<notin> addrs xs1" if "b \<in> dom h - addrs xs" for b using that 1(4) a by auto
  then have "\<forall>b \<in> dom h - addrs xs. h1 b = h b" using d1(5) by auto
  then have "\<forall>b \<in> dom h - addrs xs. h2 b = h b" using 2(4) by simp
  moreover have "list_run alloc (c # cs) h l = Some (h2, l2, snd (seq_run l (c # cs) (map snd xs)))"
    unfolding seq_run_Cons
    by (simp only: list_run.simps 1(1) 2(1) bind.bind_lunit prod.case 1(3) [symmetric] seq_run_methods [OF d1(3,4)])
  moreover have "map snd xs2 = fst (seq_run l (c # cs) (map snd xs))"
    unfolding seq_run_Cons by (simp only: 1(3) [symmetric] 2(3) seq_run_methods [OF d1(3,4)])
  ultimately show ?case using 2(2,5,6) by (intro exI conjI)
qed

text \<open>
  C29. Lists in the heap implement sequences. From an empty list, any history of insertions at
  either end and before or after a node found by its position, deletions, rotations, emptying,
  positional access and searches gives the results it gives on a sequence; no call follows a null
  or dangling pointer; each removed value is given to the \<open>free\<close> method exactly once. Afterwards
  the nodes are linked consistently in both directions, and the heap holds exactly them beside
  what it held before, unchanged: nothing leaks.
\<close>

theorem adlist_refines_sequence:
  assumes "alloc_fresh alloc" and "finite (dom h)"
    and "l = listCreate\<lparr>l_dup := d, l_free := fr, l_match := m\<rparr>"
  shows "\<exists>h' l' xs. list_run alloc cs h l = Some (h', l', snd (seq_run l cs [])) \<and> dlist h' l' xs \<and>
    map snd xs = fst (seq_run l cs []) \<and> (\<forall>a \<in> dom h. h' a = h a) \<and> dom h' = dom h \<union> addrs xs \<and> addrs xs \<inter> dom h = {}"
proof -
  have "dlist h l []" using assms(3) by (simp add: dlist_def listCreate_def)
  from list_run_spec [OF assms(1) this assms(2), of cs] show ?thesis by simp
qed

text \<open>An allocator that gives the least free address.\<close>

lemma alloc_fresh_Least: "alloc_fresh (\<lambda>h. LEAST a. h a = None)"
  unfolding alloc_fresh_def
proof (intro allI impI)
  fix h :: "'v heap"
  assume "finite (dom h)"
  then obtain a where "a \<notin> dom h" using ex_new_if_finite infinite_UNIV_nat by metis
  then show "h (LEAST a. h a = None) = None" by (intro LeastI) auto
qed

theorem adlist_refines_sequence_witness:
  "\<exists>h' l' xs. list_run (\<lambda>h. LEAST a. h a = None) [AddTail 1, AddTail (2::int), InsertAt (- 1) 3 False, Rotate, DelAt 1] Map.empty
     (listCreate\<lparr>l_dup := None, l_free := True, l_match := None\<rparr>) = Some (h', l', [[], [], [], [], [1]]) \<and>
     dlist h' l' xs \<and> map snd xs = [2, 3]"
proof -
  let ?cs = "[AddTail 1, AddTail 2, InsertAt (- 1) 3 False, Rotate, DelAt 1] :: int list_op list"
  let ?l = "listCreate\<lparr>l_dup := None, l_free := True, l_match := None\<rparr> :: int hlist"
  have e: "seq_run ?l ?cs [] = ([2, 3], [[], [], [], [], [1]])" by (simp add: list_pos_def)
  have "finite (dom (Map.empty :: int heap))" by simp
  from adlist_refines_sequence [OF alloc_fresh_Least this refl, of ?cs None True None, unfolded e fst_conv snd_conv]
  show ?thesis by (elim exE conjE, intro exI conjI)
qed

subsection \<open>Copies\<close>

fun dup_all :: "('v \<Rightarrow> 'v option) option \<Rightarrow> 'v list \<Rightarrow> 'v list option" where
  "dup_all d [] = Some []"
| "dup_all d (v # vs) = do {
     w \<leftarrow> dup_value d v;
     ws \<leftarrow> dup_all d vs;
     Some (w # ws)
   }"

text \<open>
  \<open>orig\<close> are the nodes of the original, \<open>xs\<close> those that are still to be copied; they are disjoint
  from the copy, the nodes \<open>ys\<close>.
\<close>

lemma dup_loop_spec:
  assumes fresh: "alloc_fresh alloc"
  shows "dseg h p xs None \<Longrightarrow> dlist h copy ys \<Longrightarrow> addrs xs \<inter> addrs ys = {} \<Longrightarrow> finite (dom h) \<Longrightarrow>
    (case dup_all (l_dup copy) (map snd xs) of
       None \<Rightarrow> \<exists>h'. dup_loop alloc h copy \<lparr>it_next = first_addr xs None, it_direction = AL_START_HEAD\<rparr> = Some (h', None) \<and>
         (\<forall>a. h' a = (if a \<in> addrs ys then None else h a))
     | Some ws \<Rightarrow> \<exists>h' copy' zs. dup_loop alloc h copy \<lparr>it_next = first_addr xs None, it_direction = AL_START_HEAD\<rparr> = Some (h', Some copy') \<and>
         dlist h' copy' (ys @ zs) \<and> map snd zs = ws \<and> (\<forall>a \<in> dom h - addrs ys. h' a = h a) \<and>
         dom h' = dom h \<union> addrs zs \<and> addrs zs \<inter> dom h = {})"
proof (induction xs arbitrary: h p copy ys)
  case Nil
  then show ?case using dlist_dom [of h copy ys]
    by (subst (1 2) dup_loop.simps) (auto simp: listNext_def intro: exI [of _ "[]"])
next
  case (Cons x xs)
  obtain a v where x: "x = (a, v)" by (cases x)
  have ha: "h a = Some \<lparr>nd_prev = p, nd_next = first_addr xs None, nd_value = v\<rparr>" and seg: "dseg h (Some a) xs None"
    using Cons.prems(1) x by simp_all
  let ?it = "\<lparr>it_next = Some a, it_direction = AL_START_HEAD\<rparr>"
  let ?it' = "\<lparr>it_next = first_addr xs None, it_direction = AL_START_HEAD\<rparr>"
  have nx: "listNext h ?it = Some (Some a, ?it')" using ha x by (simp add: listNext_def)
  show ?case
  proof (cases "dup_value (l_dup copy) v")
    case None
    obtain h' l' where e: "listEmpty h copy = Some (h', l', if l_free copy then map snd ys else [])" "list_step h copy ys h' l' []"
      using listEmpty_spec [OF Cons.prems(2)] by blast
    have "dup_loop alloc h copy ?it = Some (h', None)"
      by (subst dup_loop.simps) (simp add: nx ha None e(1))
    moreover have "\<forall>b. h' b = (if b \<in> addrs ys then None else h b)"
      using e(2) by (auto simp: list_step_def domIff)
    ultimately show ?thesis using x None by simp
  next
    case (Some w)
    have fa: "h (alloc h) = None" using fresh Cons.prems(4) by (simp add: alloc_fresh_def)
    obtain h1 c1 where t: "listAddNodeTail alloc h copy w = Some (h1, c1)" "list_step h copy ys h1 c1 (ys @ [(alloc h, w)])"
      using listAddNodeTail_spec [of h copy ys alloc w] Cons.prems(2) fa by blast
    have na: "alloc h \<notin> addrs ys" "alloc h \<notin> addrs (x # xs)"
      using dlist_dom [OF Cons.prems(2)] dseg_dom [OF Cons.prems(1)] fa by auto
    have s: "dlist h1 c1 (ys @ [(alloc h, w)])" "\<forall>b. b \<notin> addrs ys \<and> b \<noteq> alloc h \<longrightarrow> h1 b = h b" "l_dup c1 = l_dup copy"
      "dom h1 = insert (alloc h) (dom h)"
      using t(2) dlist_dom [OF Cons.prems(2)] by (auto simp: list_step_def)
    have "b \<notin> addrs ys \<and> b \<noteq> alloc h" if "b \<in> addrs xs" for b
    proof
      show "b \<notin> addrs ys" using that Cons.prems(3) by fastforce
      show "b \<noteq> alloc h" using that na(2) by force
    qed
    then have seg1: "dseg h1 (Some a) xs None" by (intro dseg_frame [OF _ seg]) (use s(2) in blast)
    have dis: "addrs xs \<inter> addrs (ys @ [(alloc h, w)]) = {}" using Cons.prems(3) na(2) by auto
    have fin: "finite (dom h1)" using s(4) Cons.prems(4) by simp
    have step: "dup_loop alloc h copy ?it = dup_loop alloc h1 c1 ?it'"
      by (subst dup_loop.simps) (simp add: nx ha Some t(1))
    note IH = Cons.IH [OF seg1 s(1) dis fin, unfolded s(3)]
    show ?thesis
    proof (cases "dup_all (l_dup copy) (map snd xs)")
      case None
      with IH obtain h' where "dup_loop alloc h1 c1 ?it' = Some (h', None)"
        "\<forall>b. h' b = (if b \<in> addrs (ys @ [(alloc h, w)]) then None else h1 b)" by auto
      moreover have "(if b \<in> addrs (ys @ [(alloc h, w)]) then None else h1 b) = (if b \<in> addrs ys then None else h b)" for b
        using s(2) fa by auto
      ultimately show ?thesis using x Some None step by simp
    next
      case dups: (Some ws)
      with IH obtain h' c' zs where r: "dup_loop alloc h1 c1 ?it' = Some (h', Some c')"
        "dlist h' c' ((ys @ [(alloc h, w)]) @ zs)" "map snd zs = ws"
        "\<forall>b \<in> dom h1 - addrs (ys @ [(alloc h, w)]). h' b = h1 b"
        "dom h' = dom h1 \<union> addrs zs" "addrs zs \<inter> dom h1 = {}" by auto
      have "\<forall>b \<in> dom h - addrs ys. h' b = h b" using r(4) s(2,4) fa by auto
      moreover have "addrs ((alloc h, w) # zs) \<inter> dom h = {}" using r(6) s(4) fa by (simp add: domIff Int_insert_right split: if_splits)
      moreover have "dom h' = dom h \<union> addrs ((alloc h, w) # zs)" using r(5) s(4) by auto
      moreover have "dlist h' c' (ys @ (alloc h, w) # zs)" "map snd ((alloc h, w) # zs) = w # ws" using r(2,3) by simp_all
      moreover have "dup_loop alloc h copy ?it = Some (h', Some c')" using step r(1) by simp
      moreover have "dup_all (l_dup copy) (map snd (x # xs)) = Some (w # ws)" using x Some dups by simp
      ultimately show ?thesis using x
        by (simp only: option.case first_addr_simps fst_conv) (intro exI conjI, rule refl)
    qed
  qed
qed

text \<open>
  \<open>listDup\<close> gives a second list with the copies of the values, in order, and leaves the
  original as it was; when copying a value fails it returns \<open>NULL\<close> and the heap is as before, with
  the partial copy released.
\<close>

theorem listDup_correct:
  assumes "dlist h l xs" and "alloc_fresh alloc" and "finite (dom h)"
  shows "case dup_all (l_dup l) (map snd xs) of
     None \<Rightarrow> listDup alloc h l = Some (h, None)
   | Some ws \<Rightarrow> \<exists>h' copy ys. listDup alloc h l = Some (h', Some copy) \<and> dlist h' copy ys \<and> map snd ys = ws \<and>
       dlist h' l xs \<and> addrs xs \<inter> addrs ys = {} \<and> dom h' = dom h \<union> addrs ys"
proof -
  let ?c = "listCreate\<lparr>l_dup := l_dup l, l_free := l_free l, l_match := l_match l\<rparr>"
  have d: "dseg h None xs None" "dlist h ?c []" "addrs xs \<inter> addrs ([] :: (nat \<times> 'a) list) = {}"
    using assms(1) by (simp_all add: dlist_def listCreate_def)
  have it: "listRewind l = \<lparr>it_next = first_addr xs None, it_direction = AL_START_HEAD\<rparr>"
    using assms(1) by (simp add: listRewind_def dlist_def)
  have dup: "l_dup ?c = l_dup l" by simp
  note spec = dup_loop_spec [OF assms(2) d assms(3), folded it, folded listDup_def, unfolded dup]
  show ?thesis
  proof (cases "dup_all (l_dup l) (map snd xs)")
    case None
    with spec obtain h' where "listDup alloc h l = Some (h', None)" "\<forall>a. h' a = h a" by auto
    moreover from this(2) have "h' = h" by (intro ext) simp
    ultimately show ?thesis using None by simp
  next
    case (Some ws)
    with spec obtain h' c' zs where r: "listDup alloc h l = Some (h', Some c')" "dlist h' c' zs" "map snd zs = ws"
      "\<forall>a \<in> dom h. h' a = h a" "dom h' = dom h \<union> addrs zs" "addrs zs \<inter> dom h = {}" by auto
    have sub: "addrs xs \<subseteq> dom h" by (rule dlist_dom [OF assms(1)])
    then have "dseg h' None xs None" using r(4) d(1) by (intro dseg_frame [of xs h' h]) auto
    then have "dlist h' l xs" using assms(1) by (simp add: dlist_def)
    moreover have "addrs xs \<inter> addrs zs = {}" using sub r(6) by auto
    ultimately show ?thesis using Some r by auto
  qed
qed

text \<open>One value, copied by a method that doubles it.\<close>

theorem listDup_correct_witness:
  "\<exists>h (l :: int hlist) h' copy ys. listDup (\<lambda>h. LEAST a. h a = None) h l = Some (h', Some copy) \<and> dlist h' copy ys \<and>
     map snd ys = [10]"
proof -
  let ?h = "Map.empty(3 \<mapsto> \<lparr>nd_prev = None, nd_next = None, nd_value = (5 :: int)\<rparr>)"
  let ?l = "\<lparr>l_head = Some 3, l_tail = Some 3, l_dup = Some (\<lambda>v. Some (2 * v)), l_free = False, l_match = None, l_len = 1\<rparr>"
  have "dlist ?h ?l [(3, 5)]" "finite (dom ?h)" by (simp_all add: dlist_def)
  from listDup_correct [OF this(1) alloc_fresh_Least this(2)] obtain h' copy ys where
    "listDup (\<lambda>h. LEAST a. h a = None) ?h ?l = Some (h', Some copy)" "dlist h' copy ys" "map snd ys = [10]"
    by (auto simp: dup_value_def)
  then show ?thesis by (intro exI [of _ ?h] exI [of _ ?l] exI [of _ h'] exI [of _ copy] exI [of _ ys]) simp
qed

text \<open>
  \<open>listJoin\<close> of a list with a non-empty one appends its nodes and leaves it empty.
\<close>

theorem listJoin_correct:
  assumes "dlist h l xs" and "dlist h o' ys" and "addrs xs \<inter> addrs ys = {}" and "ys \<noteq> []"
  shows "\<exists>h' l' o2. listJoin h l o' = Some (h', l', o2) \<and> dlist h' l' (xs @ ys) \<and> dlist h' o2 [] \<and>
     (\<forall>a. a \<notin> addrs xs \<and> a \<notin> addrs ys \<longrightarrow> h' a = h a) \<and> dom h' = dom h"
  by (rule listJoin_spec [OF assms])

text \<open>
  C30. \<open>listJoin\<close> with an empty list damages the first list: its tail becomes \<open>NULL\<close> although it has
  nodes, and the next \<open>listAddNodeTail\<close> follows the null pointer.
\<close>

theorem listJoin_empty_breaks:
  assumes "dlist h l xs" and "xs \<noteq> []" and "dlist h o' []"
  shows "\<exists>h' l' o2. listJoin h l o' = Some (h', l', o2) \<and> l_len l' = length xs \<and> l_tail l' = None \<and>
     listAddNodeTail alloc h' l' v = None"
proof -
  have l: "l_tail l = last_addr xs None" "l_len l = length xs" "dseg h None xs None" "distinct (map fst xs)"
    and o': "l_head o' = None" "l_tail o' = None" "l_len o' = 0"
    using assms(1,3) by (simp_all add: dlist_def)
  obtain h' where "set_next h (last_addr xs None) None = Some h'"
    using dseg_set_next [OF l(3,4) assms(2), of None] by blast
  then have "listJoin h l o' = Some (h', l\<lparr>l_tail := None\<rparr>, o'\<lparr>l_head := None, l_tail := None, l_len := 0\<rparr>)"
    using l o' assms(2) by (simp add: listJoin_def)
  moreover have "listAddNodeTail alloc h' (l\<lparr>l_tail := None\<rparr>) v = None"
    using l(2) assms(2) by (simp add: listAddNodeTail_def set_next_def Let_def)
  ultimately show ?thesis using l(2) by auto
qed

theorem listJoin_correct_witness:
  "\<exists>h (l :: int hlist) o' h' l' o2. listJoin h l o' = Some (h', l', o2) \<and> dlist h' l' [(1, 5), (2, 6)]"
proof -
  let ?n = "\<lambda>v. \<lparr>nd_prev = None, nd_next = None, nd_value = v :: int\<rparr>"
  let ?l = "\<lambda>a. \<lparr>l_head = Some a, l_tail = Some a, l_dup = None, l_free = False, l_match = None, l_len = 1\<rparr>"
  have "dlist [1 \<mapsto> ?n 5, 2 \<mapsto> ?n 6] (?l 1) [(1, 5)]" "dlist [1 \<mapsto> ?n 5, 2 \<mapsto> ?n 6] (?l 2) [(2, 6)]" by (simp_all add: dlist_def)
  from listJoin_correct [OF this] obtain h' l' o2 where
    "listJoin [1 \<mapsto> ?n 5, 2 \<mapsto> ?n 6] (?l 1) (?l 2) = Some (h', l', o2)" "dlist h' l' [(1, 5), (2, 6)]" by auto
  then show ?thesis by blast
qed

theorem listJoin_empty_breaks_witness:
  "\<exists>h (l :: int hlist) o' h' l' o2. listJoin h l o' = Some (h', l', o2) \<and> l_len l' = 1 \<and> listAddNodeTail (\<lambda>_. 9) h' l' 4 = None"
proof -
  let ?h = "[1 \<mapsto> \<lparr>nd_prev = None, nd_next = None, nd_value = 5 :: int\<rparr>]"
  let ?l = "\<lparr>l_head = Some 1, l_tail = Some 1, l_dup = None, l_free = False, l_match = None, l_len = 1\<rparr>"
  have "dlist ?h ?l [(1, 5)]" "dlist ?h listCreate []" by (simp_all add: dlist_def listCreate_def)
  from listJoin_empty_breaks [OF this(1) _ this(2), of "\<lambda>_. 9" 4] obtain h' l' o2 where
    "listJoin ?h ?l listCreate = Some (h', l', o2)" "l_len l' = 1" "listAddNodeTail (\<lambda>_. 9) h' l' 4 = None" by auto
  then show ?thesis by blast
qed

end
