(* ===== verification/Pubsub.thy ===== *)
theory Pubsub
  imports Util_Glob Dict_Types "HOL-Library.Monad_Syntax" "HOL-Library.List_Lexorder"
begin

section \<open>Publish and subscribe: \<open>pubsub.c\<close>\<close>

text \<open>
  Dictionaries are the maps and linked lists the sequences they are shown to implement; clients
  are numbers and objects their string values, without their reference counts. \<open>replies\<close> is the
  sequence of everything sent to clients, in order. \<open>iter\<close> gives the order in which a dictionary
  iterator visits a set of keys. A failed assertion and a list node that is not found where the
  code deletes it are \<open>None\<close>.
\<close>

datatype reply =
  RSubscribe bytes nat | RUnsubscribe "bytes option" nat | RPSubscribe bytes nat | RPUnsubscribe "bytes option" nat
  | RMessage bytes bytes | RPMessage bytes bytes bytes | RInteger nat
  | RBulks "bytes list" | RNumsub "(bytes \<times> nat) list" | RError

record pubsub =
  server_channels :: "bytes \<rightharpoonup> nat list"
  server_patterns :: "(nat \<times> bytes) list"
  c_channels :: "nat \<Rightarrow> bytes set"
  c_patterns :: "nat \<Rightarrow> bytes list"
  c_pubsub :: "nat \<Rightarrow> bool"
  replies :: "(nat \<times> reply) list"

definition addReply :: "nat \<Rightarrow> reply \<Rightarrow> pubsub \<Rightarrow> pubsub" where
  "addReply c r st = st\<lparr>replies := replies st @ [(c, r)]\<rparr>"

definition clientSubscriptionsCount :: "nat \<Rightarrow> pubsub \<Rightarrow> nat" where
  "clientSubscriptionsCount c st = card (c_channels st c) + length (c_patterns st c)"

definition pubsubSubscribeChannel :: "nat \<Rightarrow> bytes \<Rightarrow> pubsub \<Rightarrow> pubsub \<times> nat" where
  "pubsubSubscribeChannel c channel st =
     (let (st, retval) =
        (if channel \<notin> c_channels st c then
           let st = st\<lparr>c_channels := (c_channels st)(c := insert channel (c_channels st c))\<rparr>;
               clients = (case server_channels st channel of None \<Rightarrow> [] | Some clients \<Rightarrow> clients)
           in (st\<lparr>server_channels := (server_channels st)(channel \<mapsto> clients @ [c])\<rparr>, 1)
         else (st, 0))
      in (addReply c (RSubscribe channel (clientSubscriptionsCount c st)) st, retval))"

definition pubsubUnsubscribeChannel :: "nat \<Rightarrow> bytes \<Rightarrow> bool \<Rightarrow> pubsub \<Rightarrow> (pubsub \<times> nat) option" where
  "pubsubUnsubscribeChannel c channel notify st = do {
     (st, retval) \<leftarrow>
       (if channel \<in> c_channels st c then do {
          let st = st\<lparr>c_channels := (c_channels st)(c := c_channels st c - {channel})\<rparr>;
          clients \<leftarrow> server_channels st channel;
          if c \<notin> set clients then None
          else do {
            let clients = remove1 c clients;
            Some (st\<lparr>server_channels :=
              (if length clients = 0 then (server_channels st)(channel := None)
               else (server_channels st)(channel \<mapsto> clients))\<rparr>, 1)
          }
        }
        else Some (st, 0));
     Some (if notify then addReply c (RUnsubscribe (Some channel) (clientSubscriptionsCount c st)) st else st, retval)
   }"

definition pubsubSubscribePattern :: "nat \<Rightarrow> bytes \<Rightarrow> pubsub \<Rightarrow> pubsub \<times> nat" where
  "pubsubSubscribePattern c pattern st =
     (let (st, retval) =
        (if pattern \<notin> set (c_patterns st c) then
           (st\<lparr>c_patterns := (c_patterns st)(c := c_patterns st c @ [pattern]),
               server_patterns := server_patterns st @ [(c, pattern)]\<rparr>, 1)
         else (st, 0))
      in (addReply c (RPSubscribe pattern (clientSubscriptionsCount c st)) st, retval))"

definition pubsubUnsubscribePattern :: "nat \<Rightarrow> bytes \<Rightarrow> bool \<Rightarrow> pubsub \<Rightarrow> (pubsub \<times> nat) option" where
  "pubsubUnsubscribePattern c pattern notify st = do {
     (st, retval) \<leftarrow>
       (if pattern \<in> set (c_patterns st c) then do {
          let st = st\<lparr>c_patterns := (c_patterns st)(c := remove1 pattern (c_patterns st c))\<rparr>;
          if (c, pattern) \<notin> set (server_patterns st) then None
          else Some (st\<lparr>server_patterns := remove1 (c, pattern) (server_patterns st)\<rparr>, 1)
        }
        else Some (st, 0));
     Some (if notify then addReply c (RPUnsubscribe (Some pattern) (clientSubscriptionsCount c st)) st else st, retval)
   }"

fun unsubscribe_loop :: "nat \<Rightarrow> bytes list \<Rightarrow> bool \<Rightarrow> pubsub \<Rightarrow> (pubsub \<times> nat) option" where
  "unsubscribe_loop c [] notify st = Some (st, 0)"
| "unsubscribe_loop c (channel # chs) notify st = do {
     (st, r) \<leftarrow> pubsubUnsubscribeChannel c channel notify st;
     (st, count) \<leftarrow> unsubscribe_loop c chs notify st;
     Some (st, r + count)
   }"

definition pubsubUnsubscribeAllChannels :: "(bytes set \<Rightarrow> bytes list) \<Rightarrow> nat \<Rightarrow> bool \<Rightarrow> pubsub \<Rightarrow> (pubsub \<times> nat) option" where
  "pubsubUnsubscribeAllChannels iter c notify st = do {
     (st, count) \<leftarrow> unsubscribe_loop c (iter (c_channels st c)) notify st;
     Some (if notify \<and> count = 0 then addReply c (RUnsubscribe None (clientSubscriptionsCount c st)) st else st, count)
   }"

fun punsubscribe_loop :: "nat \<Rightarrow> bytes list \<Rightarrow> bool \<Rightarrow> pubsub \<Rightarrow> (pubsub \<times> nat) option" where
  "punsubscribe_loop c [] notify st = Some (st, 0)"
| "punsubscribe_loop c (pattern # ps) notify st = do {
     (st, r) \<leftarrow> pubsubUnsubscribePattern c pattern notify st;
     (st, count) \<leftarrow> punsubscribe_loop c ps notify st;
     Some (st, r + count)
   }"

definition pubsubUnsubscribeAllPatterns :: "nat \<Rightarrow> bool \<Rightarrow> pubsub \<Rightarrow> (pubsub \<times> nat) option" where
  "pubsubUnsubscribeAllPatterns c notify st = do {
     (st, count) \<leftarrow> punsubscribe_loop c (c_patterns st c) notify st;
     Some (if notify \<and> count = 0 then addReply c (RPUnsubscribe None (clientSubscriptionsCount c st)) st else st, count)
   }"

fun publish_channel :: "bytes \<Rightarrow> bytes \<Rightarrow> nat list \<Rightarrow> pubsub \<Rightarrow> nat \<Rightarrow> pubsub \<times> nat" where
  "publish_channel channel message [] st receivers = (st, receivers)"
| "publish_channel channel message (c # cs) st receivers =
     publish_channel channel message cs (addReply c (RMessage channel message) st) (receivers + 1)"

fun publish_patterns :: "bytes \<Rightarrow> bytes \<Rightarrow> (nat \<times> bytes) list \<Rightarrow> pubsub \<Rightarrow> nat \<Rightarrow> (pubsub \<times> nat) option" where
  "publish_patterns channel message [] st receivers = Some (st, receivers)"
| "publish_patterns channel message ((c, pattern) # ps) st receivers = do {
     m \<leftarrow> stringmatchlen pattern channel False;
     if m then publish_patterns channel message ps (addReply c (RPMessage pattern channel message) st) (receivers + 1)
     else publish_patterns channel message ps st receivers
   }"

definition pubsubPublishMessage :: "bytes \<Rightarrow> bytes \<Rightarrow> pubsub \<Rightarrow> (pubsub \<times> nat) option" where
  "pubsubPublishMessage channel message st = do {
     let (st, receivers) = (case server_channels st channel of
         Some clients \<Rightarrow> publish_channel channel message clients st 0
       | None \<Rightarrow> (st, 0));
     if length (server_patterns st) > 0 then publish_patterns channel message (server_patterns st) st receivers
     else Some (st, receivers)
   }"

subsection \<open>Commands\<close>

text \<open>\<open>subscribeCommand\<close> and the others; the arguments follow the name of the command.\<close>

fun subscribe_args :: "nat \<Rightarrow> bytes list \<Rightarrow> pubsub \<Rightarrow> pubsub" where
  "subscribe_args c [] st = st"
| "subscribe_args c (a # as) st = subscribe_args c as (fst (pubsubSubscribeChannel c a st))"

definition subscribeCommand :: "nat \<Rightarrow> bytes list \<Rightarrow> pubsub \<Rightarrow> pubsub" where
  "subscribeCommand c args st = (let st = subscribe_args c args st in st\<lparr>c_pubsub := (c_pubsub st)(c := True)\<rparr>)"

fun psubscribe_args :: "nat \<Rightarrow> bytes list \<Rightarrow> pubsub \<Rightarrow> pubsub" where
  "psubscribe_args c [] st = st"
| "psubscribe_args c (a # as) st = psubscribe_args c as (fst (pubsubSubscribePattern c a st))"

definition psubscribeCommand :: "nat \<Rightarrow> bytes list \<Rightarrow> pubsub \<Rightarrow> pubsub" where
  "psubscribeCommand c args st = (let st = psubscribe_args c args st in st\<lparr>c_pubsub := (c_pubsub st)(c := True)\<rparr>)"

definition clear_flag :: "nat \<Rightarrow> pubsub \<Rightarrow> pubsub" where
  "clear_flag c st = (if clientSubscriptionsCount c st = 0 then st\<lparr>c_pubsub := (c_pubsub st)(c := False)\<rparr> else st)"

definition unsubscribeCommand :: "(bytes set \<Rightarrow> bytes list) \<Rightarrow> nat \<Rightarrow> bytes list \<Rightarrow> pubsub \<Rightarrow> pubsub option" where
  "unsubscribeCommand iter c args st = do {
     (st, _) \<leftarrow> (if args = [] then pubsubUnsubscribeAllChannels iter c True st else unsubscribe_loop c args True st);
     Some (clear_flag c st)
   }"

definition punsubscribeCommand :: "nat \<Rightarrow> bytes list \<Rightarrow> pubsub \<Rightarrow> pubsub option" where
  "punsubscribeCommand c args st = do {
     (st, _) \<leftarrow> (if args = [] then pubsubUnsubscribeAllPatterns c True st else punsubscribe_loop c args True st);
     Some (clear_flag c st)
   }"

text \<open>Without the propagation to replicas and cluster nodes.\<close>

definition publishCommand :: "nat \<Rightarrow> bytes \<Rightarrow> bytes \<Rightarrow> pubsub \<Rightarrow> pubsub option" where
  "publishCommand c channel message st = do {
     (st, receivers) \<leftarrow> pubsubPublishMessage channel message st;
     Some (addReply c (RInteger receivers) st)
   }"

text \<open>The keys a \<open>PUBSUB CHANNELS\<close> reply lists: all, or those a pattern matches.\<close>

fun matching_channels :: "bytes option \<Rightarrow> bytes list \<Rightarrow> bytes list option" where
  "matching_channels pat [] = Some []"
| "matching_channels pat (ch # chs) = do {
     m \<leftarrow> (case pat of None \<Rightarrow> Some True | Some p \<Rightarrow> stringmatchlen p ch False);
     rest \<leftarrow> matching_channels pat chs;
     Some (if m then ch # rest else rest)
   }"

definition numsub :: "pubsub \<Rightarrow> bytes \<Rightarrow> nat" where
  "numsub st ch = (case server_channels st ch of None \<Rightarrow> 0 | Some l \<Rightarrow> length l)"

definition pubsubCommand :: "(bytes set \<Rightarrow> bytes list) \<Rightarrow> nat \<Rightarrow> bytes list \<Rightarrow> pubsub \<Rightarrow> pubsub option" where
  "pubsubCommand iter c args st =
     (case args of
        [] \<Rightarrow> None
      | sub # rest \<Rightarrow>
          if strcasecmp_eq sub [99, 104, 97, 110, 110, 101, 108, 115] \<and> length rest \<le> 1 then do {
            chs \<leftarrow> matching_channels (if rest = [] then None else Some (hd rest)) (iter (dom (server_channels st)));
            Some (addReply c (RBulks chs) st)
          }
          else if strcasecmp_eq sub [110, 117, 109, 115, 117, 98] then
            Some (addReply c (RNumsub (map (\<lambda>ch. (ch, numsub st ch)) rest)) st)
          else if strcasecmp_eq sub [110, 117, 109, 112, 97, 116] \<and> rest = [] then
            Some (addReply c (RInteger (length (server_patterns st))) st)
          else Some (addReply c RError st))"

section \<open>The two sides of a subscription\<close>

text \<open>
  The server's map from channels to clients and the clients' sets of channels hold the same
  subscriptions; no channel is kept without a client. The server's list of patterns, restricted
  to a client, is that client's list.
\<close>

fun entry_ok :: "nat list option \<Rightarrow> nat set \<Rightarrow> bool" where
  "entry_ok None S \<longleftrightarrow> S = {}"
| "entry_ok (Some cs) S \<longleftrightarrow> cs \<noteq> [] \<and> distinct cs \<and> set cs = S"

definition ch_inv :: "(bytes \<rightharpoonup> nat list) \<Rightarrow> (nat \<Rightarrow> bytes set) \<Rightarrow> bool" where
  "ch_inv sc cc \<longleftrightarrow> (\<forall>ch. entry_ok (sc ch) {c. ch \<in> cc c}) \<and> (\<forall>c. finite (cc c))"

definition pat_inv :: "(nat \<times> bytes) list \<Rightarrow> (nat \<Rightarrow> bytes list) \<Rightarrow> bool" where
  "pat_inv sp cp \<longleftrightarrow> (\<forall>c. distinct (cp c) \<and> map snd (filter (\<lambda>x. fst x = c) sp) = cp c)"

definition ps_inv :: "pubsub \<Rightarrow> bool" where
  "ps_inv st \<longleftrightarrow> ch_inv (server_channels st) (c_channels st) \<and> pat_inv (server_patterns st) (c_patterns st)"

lemma addReply_fields [simp]:
  "server_channels (addReply c r st) = server_channels st" "server_patterns (addReply c r st) = server_patterns st"
  "c_channels (addReply c r st) = c_channels st" "c_patterns (addReply c r st) = c_patterns st" "c_pubsub (addReply c r st) = c_pubsub st"
  by (simp_all add: addReply_def)

lemma ch_inv_update:
  assumes "ch_inv sc cc" and "entry_ok e {d. ch \<in> (cc(c := S)) d}" and "\<forall>ch'. ch' \<noteq> ch \<longrightarrow> (ch' \<in> S \<longleftrightarrow> ch' \<in> cc c)" and "finite S"
  shows "ch_inv (sc(ch := e)) (cc(c := S))"
proof -
  have "{d. ch' \<in> (cc(c := S)) d} = {d. ch' \<in> cc d}" if "ch' \<noteq> ch" for ch' using that assms(3) by auto
  then show ?thesis using assms by (simp add: ch_inv_def)
qed

lemma ch_inv_subscribe:
  assumes "ch_inv sc cc" and "ch \<notin> cc c"
  shows "ch_inv (sc(ch \<mapsto> (case sc ch of None \<Rightarrow> [] | Some cs \<Rightarrow> cs) @ [c])) (cc(c := insert ch (cc c)))"
proof (rule ch_inv_update [OF assms(1)])
  have "{d. ch \<in> (cc(c := insert ch (cc c))) d} = insert c {d. ch \<in> cc d}" by auto
  moreover have "entry_ok (sc ch) {d. ch \<in> cc d}" using assms(1) by (simp add: ch_inv_def)
  ultimately show "entry_ok (Some ((case sc ch of None \<Rightarrow> [] | Some cs \<Rightarrow> cs) @ [c])) {d. ch \<in> (cc(c := insert ch (cc c))) d}"
    using assms(2) by (cases "sc ch") auto
  show "finite (insert ch (cc c))" using assms(1) by (simp add: ch_inv_def)
qed simp

lemma ch_inv_unsubscribe:
  assumes "ch_inv sc cc" and "ch \<in> cc c"
  obtains cs where "sc ch = Some cs" "c \<in> set cs"
    "ch_inv (if length (remove1 c cs) = 0 then sc(ch := None) else sc(ch \<mapsto> remove1 c cs)) (cc(c := cc c - {ch}))"
proof -
  have ok: "entry_ok (sc ch) {d. ch \<in> cc d}" using assms(1) by (simp add: ch_inv_def)
  then obtain cs where cs: "sc ch = Some cs" "distinct cs" "set cs = {d. ch \<in> cc d}"
    using assms(2) by (cases "sc ch") auto
  let ?e = "if length (remove1 c cs) = 0 then None else Some (remove1 c cs)"
  have rm: "set (remove1 c cs) = {d. ch \<in> (cc(c := cc c - {ch})) d}" "distinct (remove1 c cs)" using cs(2,3) by auto
  have "ch_inv (sc(ch := ?e)) (cc(c := cc c - {ch}))"
  proof (rule ch_inv_update [OF assms(1)])
    show "entry_ok ?e {d. ch \<in> (cc(c := cc c - {ch})) d}"
      unfolding rm(1) [symmetric] using rm(2) by (cases "remove1 c cs") simp_all
    show "finite (cc c - {ch})" using assms(1) by (simp add: ch_inv_def)
  qed simp
  then show ?thesis using that [OF cs(1)] cs(3) assms(2) by (auto split: if_splits)
qed

lemma subscribeChannel_inv:
  assumes "ps_inv st"
  shows "ps_inv (fst (pubsubSubscribeChannel c ch st)) \<and>
     c_channels (fst (pubsubSubscribeChannel c ch st)) = (c_channels st)(c := insert ch (c_channels st c)) \<and>
     c_patterns (fst (pubsubSubscribeChannel c ch st)) = c_patterns st \<and> c_pubsub (fst (pubsubSubscribeChannel c ch st)) = c_pubsub st"
proof (cases "ch \<in> c_channels st c")
  case True
  then show ?thesis using assms by (simp add: pubsubSubscribeChannel_def insert_absorb ps_inv_def)
next
  case False
  then show ?thesis using assms ch_inv_subscribe [of "server_channels st" "c_channels st" ch c]
    by (simp add: pubsubSubscribeChannel_def Let_def ps_inv_def)
qed

lemma unsubscribeChannel_inv:
  assumes "ps_inv st"
  shows "\<exists>st' n. pubsubUnsubscribeChannel c ch notify st = Some (st', n) \<and> ps_inv st' \<and>
     c_channels st' = (c_channels st)(c := c_channels st c - {ch}) \<and>
     c_patterns st' = c_patterns st \<and> c_pubsub st' = c_pubsub st"
proof (cases "ch \<in> c_channels st c")
  case True
  obtain cs where cs: "server_channels st ch = Some cs" "c \<in> set cs"
    "ch_inv (if length (remove1 c cs) = 0 then (server_channels st)(ch := None) else (server_channels st)(ch \<mapsto> remove1 c cs))
       ((c_channels st)(c := c_channels st c - {ch}))"
    using ch_inv_unsubscribe [of "server_channels st" "c_channels st" ch c] assms True by (auto simp: ps_inv_def)
  then show ?thesis using assms True by (simp add: pubsubUnsubscribeChannel_def Let_def ps_inv_def split: if_splits)
next
  case False
  then show ?thesis using assms by (simp add: pubsubUnsubscribeChannel_def ps_inv_def)
qed

lemma subscribePattern_inv:
  assumes "ps_inv st"
  shows "ps_inv (fst (pubsubSubscribePattern c p st)) \<and>
     set \<circ> c_patterns (fst (pubsubSubscribePattern c p st)) = (set \<circ> c_patterns st)(c := insert p (set (c_patterns st c))) \<and>
     c_channels (fst (pubsubSubscribePattern c p st)) = c_channels st \<and> c_pubsub (fst (pubsubSubscribePattern c p st)) = c_pubsub st"
  using assms by (auto simp: pubsubSubscribePattern_def ps_inv_def pat_inv_def fun_eq_iff insert_absorb)

lemma filter_remove1_pat:
  "map snd (filter (\<lambda>x. fst x = d) (remove1 (c, p) sp)) =
     (if d = c then remove1 p (map snd (filter (\<lambda>x. fst x = d) sp)) else map snd (filter (\<lambda>x. fst x = d) sp))"
  by (induction sp) auto

lemma unsubscribePattern_inv:
  assumes "ps_inv st"
  shows "\<exists>st' n. pubsubUnsubscribePattern c p notify st = Some (st', n) \<and> ps_inv st' \<and>
     set \<circ> c_patterns st' = (set \<circ> c_patterns st)(c := set (c_patterns st c) - {p}) \<and>
     c_channels st' = c_channels st \<and> c_pubsub st' = c_pubsub st"
proof (cases "p \<in> set (c_patterns st c)")
  case True
  have pi: "pat_inv (server_patterns st) (c_patterns st)" using assms by (simp add: ps_inv_def)
  then have "p \<in> set (map snd (filter (\<lambda>x. fst x = c) (server_patterns st)))" using True by (simp only: pat_inv_def)
  then have "(c, p) \<in> set (server_patterns st)" by auto
  moreover have "pat_inv (remove1 (c, p) (server_patterns st)) ((c_patterns st)(c := remove1 p (c_patterns st c)))"
    using pi by (auto simp: pat_inv_def filter_remove1_pat)
  moreover have "distinct (c_patterns st c)" using pi by (simp add: pat_inv_def)
  ultimately show ?thesis using assms True
    by (auto simp: pubsubUnsubscribePattern_def Let_def ps_inv_def fun_eq_iff)
next
  case False
  then show ?thesis using assms by (auto simp: pubsubUnsubscribePattern_def ps_inv_def fun_eq_iff)
qed

subsection \<open>Loops and commands\<close>

lemma subscribe_args_inv:
  "ps_inv st \<Longrightarrow> ps_inv (subscribe_args c chs st) \<and>
     c_channels (subscribe_args c chs st) = (c_channels st)(c := c_channels st c \<union> set chs) \<and>
     c_patterns (subscribe_args c chs st) = c_patterns st \<and> c_pubsub (subscribe_args c chs st) = c_pubsub st"
proof (induction chs arbitrary: st)
  case (Cons ch chs)
  note s = subscribeChannel_inv [OF Cons.prems, of c ch]
  with Cons.IH [of "fst (pubsubSubscribeChannel c ch st)"] show ?case by (simp add: fun_eq_iff)
qed simp

lemma psubscribe_args_inv:
  "ps_inv st \<Longrightarrow> ps_inv (psubscribe_args c ps st) \<and>
     set \<circ> c_patterns (psubscribe_args c ps st) = (set \<circ> c_patterns st)(c := set (c_patterns st c) \<union> set ps) \<and>
     c_channels (psubscribe_args c ps st) = c_channels st \<and> c_pubsub (psubscribe_args c ps st) = c_pubsub st"
proof (induction ps arbitrary: st)
  case (Cons p ps)
  let ?st = "fst (pubsubSubscribePattern c p st)"
  have s: "ps_inv ?st" "set \<circ> c_patterns ?st = (set \<circ> c_patterns st)(c := insert p (set (c_patterns st c)))"
      "c_channels ?st = c_channels st" "c_pubsub ?st = c_pubsub st"
    using subscribePattern_inv [OF Cons.prems, of c p] by simp_all
  have "set (c_patterns ?st c) = insert p (set (c_patterns st c))" using fun_cong [OF s(2), of c] by simp
  then show ?case using Cons.IH [OF s(1)] s(2-4) by (simp add: fun_eq_iff)
qed (simp add: fun_eq_iff)

lemma unsubscribe_loop_inv:
  "ps_inv st \<Longrightarrow> \<exists>st' n. unsubscribe_loop c chs notify st = Some (st', n) \<and> ps_inv st' \<and>
     c_channels st' = (c_channels st)(c := c_channels st c - set chs) \<and>
     c_patterns st' = c_patterns st \<and> c_pubsub st' = c_pubsub st"
proof (induction chs arbitrary: st)
  case (Cons ch chs)
  obtain st1 n1 where s: "pubsubUnsubscribeChannel c ch notify st = Some (st1, n1)" "ps_inv st1"
      "c_channels st1 = (c_channels st)(c := c_channels st c - {ch})" "c_patterns st1 = c_patterns st" "c_pubsub st1 = c_pubsub st"
    using unsubscribeChannel_inv [OF Cons.prems] by blast
  have "c_channels st c - {ch} - set chs = c_channels st c - set (ch # chs)" by auto
  with Cons.IH [OF s(2)] s show ?case by (auto simp: fun_eq_iff)
qed (simp add: fun_eq_iff)

lemma punsubscribe_loop_inv:
  "ps_inv st \<Longrightarrow> \<exists>st' n. punsubscribe_loop c ps notify st = Some (st', n) \<and> ps_inv st' \<and>
     set \<circ> c_patterns st' = (set \<circ> c_patterns st)(c := set (c_patterns st c) - set ps) \<and>
     c_channels st' = c_channels st \<and> c_pubsub st' = c_pubsub st"
proof (induction ps arbitrary: st)
  case (Cons p ps)
  obtain st1 n1 where s: "pubsubUnsubscribePattern c p notify st = Some (st1, n1)" "ps_inv st1"
      "set \<circ> c_patterns st1 = (set \<circ> c_patterns st)(c := set (c_patterns st c) - {p})" "c_channels st1 = c_channels st" "c_pubsub st1 = c_pubsub st"
    using unsubscribePattern_inv [OF Cons.prems] by blast
  have "set (c_patterns st1 c) = set (c_patterns st c) - {p}" using fun_cong [OF s(3), of c] by simp
  moreover have "set (c_patterns st c) - {p} - set ps = set (c_patterns st c) - set (p # ps)" by auto
  ultimately show ?case using Cons.IH [OF s(2)] s by (auto simp: fun_eq_iff)
qed (simp add: fun_eq_iff)

lemma ps_inv_more [simp]:
  "ps_inv (addReply c r st) = ps_inv st" "ps_inv (st\<lparr>c_pubsub := f\<rparr>) = ps_inv st"
  by (simp_all add: ps_inv_def)

section \<open>Histories of commands\<close>

datatype ps_cmd = Subscribe "bytes list" | Unsubscribe "bytes list" | PSubscribe "bytes list" | PUnsubscribe "bytes list"

fun ps_exec :: "(bytes set \<Rightarrow> bytes list) \<Rightarrow> nat \<Rightarrow> ps_cmd \<Rightarrow> pubsub \<Rightarrow> pubsub option" where
  "ps_exec iter c (Subscribe args) st = Some (subscribeCommand c args st)"
| "ps_exec iter c (Unsubscribe args) st = unsubscribeCommand iter c args st"
| "ps_exec iter c (PSubscribe args) st = Some (psubscribeCommand c args st)"
| "ps_exec iter c (PUnsubscribe args) st = punsubscribeCommand c args st"

text \<open>Subscribing commands have at least one argument: their arity in the command table.\<close>

fun cmd_ok :: "ps_cmd \<Rightarrow> bool" where
  "cmd_ok (Subscribe args) \<longleftrightarrow> args \<noteq> []"
| "cmd_ok (PSubscribe args) \<longleftrightarrow> args \<noteq> []"
| "cmd_ok _ \<longleftrightarrow> True"

text \<open>What the commands mean: sets of channels and patterns per client.\<close>

type_synonym subs = "(nat \<Rightarrow> bytes set) \<times> (nat \<Rightarrow> bytes set)"

fun subs_exec :: "nat \<Rightarrow> ps_cmd \<Rightarrow> subs \<Rightarrow> subs" where
  "subs_exec c (Subscribe args) (cc, cp) = (cc(c := cc c \<union> set args), cp)"
| "subs_exec c (Unsubscribe args) (cc, cp) = (cc(c := if args = [] then {} else cc c - set args), cp)"
| "subs_exec c (PSubscribe args) (cc, cp) = (cc, cp(c := cp c \<union> set args))"
| "subs_exec c (PUnsubscribe args) (cc, cp) = (cc, cp(c := if args = [] then {} else cp c - set args))"

fun ps_run :: "(bytes set \<Rightarrow> bytes list) \<Rightarrow> (nat \<times> ps_cmd) list \<Rightarrow> pubsub \<Rightarrow> pubsub option" where
  "ps_run iter [] st = Some st"
| "ps_run iter ((c, cmd) # cmds) st = do { st \<leftarrow> ps_exec iter c cmd st; ps_run iter cmds st }"

fun subs_run :: "(nat \<times> ps_cmd) list \<Rightarrow> subs \<Rightarrow> subs" where
  "subs_run [] s = s"
| "subs_run ((c, cmd) # cmds) s = subs_run cmds (subs_exec c cmd s)"

definition pubsub_init :: pubsub where
  "pubsub_init = \<lparr>server_channels = Map.empty, server_patterns = [], c_channels = (\<lambda>_. {}), c_patterns = (\<lambda>_. []),
     c_pubsub = (\<lambda>_. False), replies = []\<rparr>"

text \<open>What the iterators promise: every key of a dictionary once.\<close>

definition iter_ok :: "(bytes set \<Rightarrow> bytes list) \<Rightarrow> bool" where
  "iter_ok iter \<longleftrightarrow> (\<forall>S. finite S \<longrightarrow> set (iter S) = S \<and> distinct (iter S))"

definition flag_ok :: "pubsub \<Rightarrow> bool" where
  "flag_ok st \<longleftrightarrow> (\<forall>c. c_pubsub st c \<longleftrightarrow> c_channels st c \<noteq> {} \<or> c_patterns st c \<noteq> [])"

abbreviation subs_of :: "pubsub \<Rightarrow> subs" where
  "subs_of st \<equiv> (c_channels st, set \<circ> c_patterns st)"

lemma count_zero: "ps_inv st \<Longrightarrow> clientSubscriptionsCount c st = 0 \<longleftrightarrow> c_channels st c = {} \<and> c_patterns st c = []"
  by (auto simp: clientSubscriptionsCount_def ps_inv_def ch_inv_def)

lemma clear_flag_ok:
  assumes "ps_inv st" and "\<forall>d. d \<noteq> c \<longrightarrow> (c_pubsub st d \<longleftrightarrow> c_channels st d \<noteq> {} \<or> c_patterns st d \<noteq> [])"
    and "c_channels st c \<noteq> {} \<or> c_patterns st c \<noteq> [] \<longrightarrow> c_pubsub st c"
  shows "flag_ok (clear_flag c st) \<and> ps_inv (clear_flag c st) \<and> subs_of (clear_flag c st) = subs_of st"
  using assms count_zero [OF assms(1), of c] by (auto simp: flag_ok_def clear_flag_def)

lemma patterns_empty_iff: "set \<circ> cp = f \<Longrightarrow> cp c = [] \<longleftrightarrow> f c = {}"
  using fun_cong [of "set \<circ> cp" f c] by auto

lemma ps_exec_spec:
  assumes it: "iter_ok iter" and inv: "ps_inv st" and fl: "flag_ok st" and ok: "cmd_ok cmd"
  shows "\<exists>st'. ps_exec iter c cmd st = Some st' \<and> ps_inv st' \<and> flag_ok st' \<and> subs_of st' = subs_exec c cmd (subs_of st)"
proof (cases cmd)
  case (Subscribe args)
  have "ps_inv (subscribe_args c args st)" "c_channels (subscribe_args c args st) = (c_channels st)(c := c_channels st c \<union> set args)"
      "c_patterns (subscribe_args c args st) = c_patterns st" "c_pubsub (subscribe_args c args st) = c_pubsub st"
    using subscribe_args_inv [OF inv, of c args] by simp_all
  then show ?thesis using Subscribe ok fl by (auto simp: subscribeCommand_def Let_def flag_ok_def)
next
  case (PSubscribe args)
  have s: "ps_inv (psubscribe_args c args st)"
      "set \<circ> c_patterns (psubscribe_args c args st) = (set \<circ> c_patterns st)(c := set (c_patterns st c) \<union> set args)"
      "c_channels (psubscribe_args c args st) = c_channels st" "c_pubsub (psubscribe_args c args st) = c_pubsub st"
    using psubscribe_args_inv [OF inv, of c args] by simp_all
  then show ?thesis using PSubscribe ok fl patterns_empty_iff [OF s(2)]
    by (auto simp: psubscribeCommand_def Let_def flag_ok_def)
next
  case (Unsubscribe args)
  let ?chs = "if args = [] then iter (c_channels st c) else args"
  obtain st1 n where s: "unsubscribe_loop c ?chs True st = Some (st1, n)" "ps_inv st1"
      "c_channels st1 = (c_channels st)(c := c_channels st c - set ?chs)" "c_patterns st1 = c_patterns st" "c_pubsub st1 = c_pubsub st"
    using unsubscribe_loop_inv [OF inv, of c ?chs True] by blast
  let ?st2 = "if args = [] \<and> n = 0 then addReply c (RUnsubscribe None (clientSubscriptionsCount c st1)) st1 else st1"
  have e: "unsubscribeCommand iter c args st = Some (clear_flag c ?st2)"
    using s(1) by (auto simp: unsubscribeCommand_def pubsubUnsubscribeAllChannels_def split: if_splits)
  have "finite (c_channels st c)" using inv by (simp add: ps_inv_def ch_inv_def)
  then have ch: "c_channels st c - set ?chs = (if args = [] then {} else c_channels st c - set args)"
    using it by (simp add: iter_ok_def)
  have "flag_ok (clear_flag c ?st2) \<and> ps_inv (clear_flag c ?st2) \<and> subs_of (clear_flag c ?st2) = subs_of ?st2"
    by (rule clear_flag_ok) (use s fl in \<open>auto simp: flag_ok_def\<close>)
  then show ?thesis using e Unsubscribe s(3,4) ch by simp
next
  case (PUnsubscribe args)
  let ?ps = "if args = [] then c_patterns st c else args"
  obtain st1 n where s: "punsubscribe_loop c ?ps True st = Some (st1, n)" "ps_inv st1"
      "set \<circ> c_patterns st1 = (set \<circ> c_patterns st)(c := set (c_patterns st c) - set ?ps)" "c_channels st1 = c_channels st" "c_pubsub st1 = c_pubsub st"
    using punsubscribe_loop_inv [OF inv, of c ?ps True] by blast
  let ?st2 = "if args = [] \<and> n = 0 then addReply c (RPUnsubscribe None (clientSubscriptionsCount c st1)) st1 else st1"
  have e: "punsubscribeCommand c args st = Some (clear_flag c ?st2)"
    using s(1) by (auto simp: punsubscribeCommand_def pubsubUnsubscribeAllPatterns_def split: if_splits)
  have "flag_ok (clear_flag c ?st2) \<and> ps_inv (clear_flag c ?st2) \<and> subs_of (clear_flag c ?st2) = subs_of ?st2"
    by (rule clear_flag_ok) (use s fl patterns_empty_iff [OF s(3)] in \<open>auto simp: flag_ok_def split: if_splits\<close>)
  then show ?thesis using e PUnsubscribe s(3,4) by auto
qed

lemma ps_run_spec:
  assumes it: "iter_ok iter"
  shows "ps_inv st \<Longrightarrow> flag_ok st \<Longrightarrow> \<forall>(c, cmd) \<in> set cmds. cmd_ok cmd \<Longrightarrow>
    \<exists>st'. ps_run iter cmds st = Some st' \<and> ps_inv st' \<and> flag_ok st' \<and> subs_of st' = subs_run cmds (subs_of st)"
proof (induction cmds arbitrary: st)
  case (Cons x cmds)
  obtain c cmd where x: "x = (c, cmd)" by (cases x)
  obtain st1 where s: "ps_exec iter c cmd st = Some st1" "ps_inv st1" "flag_ok st1" "subs_of st1 = subs_exec c cmd (subs_of st)"
    using ps_exec_spec [OF it Cons.prems(1,2), of cmd c] Cons.prems(3) x by auto
  have "\<forall>(c, cmd) \<in> set cmds. cmd_ok cmd" using Cons.prems(3) by simp
  from Cons.IH [OF s(2,3) this] show ?case unfolding s(4) x ps_run.simps subs_run.simps s(1) bind.bind_lunit .
qed simp

lemma ps_inv_init: "ps_inv pubsub_init" "flag_ok pubsub_init" "subs_of pubsub_init = (\<lambda>_. {}, \<lambda>_. {})"
  by (simp_all add: pubsub_init_def ps_inv_def ch_inv_def pat_inv_def flag_ok_def fun_eq_iff)

text \<open>
  C31. Any interleaving of subscribing and unsubscribing commands of any clients runs without a
  failed assertion. It leaves every client subscribed to exactly what its commands say; the
  server's index lists for each channel exactly the clients subscribed to it, each once, and has
  no entry for a channel without clients; its list of patterns holds exactly the pairs of clients
  and patterns, each once; and the flag of a client is set exactly when it has a subscription.
\<close>

theorem pubsub_invariant:
  assumes "iter_ok iter" and "\<forall>(c, cmd) \<in> set cmds. cmd_ok cmd"
  shows "\<exists>st. ps_run iter cmds pubsub_init = Some st \<and> subs_of st = subs_run cmds (\<lambda>_. {}, \<lambda>_. {}) \<and>
    (\<forall>ch. case server_channels st ch of None \<Rightarrow> \<forall>c. ch \<notin> c_channels st c
       | Some cs \<Rightarrow> cs \<noteq> [] \<and> distinct cs \<and> (\<forall>c. c \<in> set cs \<longleftrightarrow> ch \<in> c_channels st c)) \<and>
    (\<forall>c. map snd (filter (\<lambda>x. fst x = c) (server_patterns st)) = c_patterns st c \<and> distinct (c_patterns st c)) \<and>
    (\<forall>c. c_pubsub st c \<longleftrightarrow> c_channels st c \<noteq> {} \<or> c_patterns st c \<noteq> [])"
proof -
  obtain st where st: "ps_run iter cmds pubsub_init = Some st" "ps_inv st" "flag_ok st"
      "subs_of st = subs_run cmds (\<lambda>_. {}, \<lambda>_. {})"
    using ps_run_spec [OF assms(1) ps_inv_init(1,2) assms(2)] unfolding ps_inv_init(3) by blast
  have "case server_channels st ch of None \<Rightarrow> \<forall>c. ch \<notin> c_channels st c
       | Some cs \<Rightarrow> cs \<noteq> [] \<and> distinct cs \<and> (\<forall>c. c \<in> set cs \<longleftrightarrow> ch \<in> c_channels st c)" for ch
  proof -
    have "entry_ok (server_channels st ch) {c. ch \<in> c_channels st c}" using st(2) by (simp add: ps_inv_def ch_inv_def)
    then show ?thesis by (cases "server_channels st ch") auto
  qed
  then show ?thesis using st by (simp add: ps_inv_def pat_inv_def flag_ok_def)
qed

theorem pubsub_invariant_witness:
  "\<exists>st. ps_run sorted_list_of_set [(1, Subscribe [[97], [98]]), (2, Subscribe [[97]]), (1, Unsubscribe []), (2, PSubscribe [[42]])]
       pubsub_init = Some st \<and> c_channels st 1 = {} \<and> c_channels st 2 = {[97]}"
proof -
  let ?cmds = "[(1, Subscribe [[97], [98]]), (2, Subscribe [[97]]), (1, Unsubscribe []), (2, PSubscribe [[42]])] :: (nat \<times> ps_cmd) list"
  have "iter_ok sorted_list_of_set" "\<forall>(c, cmd) \<in> set ?cmds. cmd_ok cmd" by (simp_all add: iter_ok_def)
  from pubsub_invariant [OF this] obtain st where st: "ps_run sorted_list_of_set ?cmds pubsub_init = Some st"
    "subs_of st = subs_run ?cmds (\<lambda>_. {}, \<lambda>_. {})" by blast
  then show ?thesis by (intro exI [of _ st] conjI) simp_all
qed

section \<open>Delivery\<close>

lemma publish_channel_spec:
  "publish_channel ch m cs st n = (st\<lparr>replies := replies st @ map (\<lambda>c. (c, RMessage ch m)) cs\<rparr>, n + length cs)"
  by (induction cs arbitrary: st n) (simp_all add: addReply_def)

lemma publish_patterns_spec:
  assumes "ch \<noteq> []"
  shows "\<forall>x \<in> set ps. parse (snd x) \<noteq> None \<Longrightarrow>
    publish_patterns ch m ps st n =
      Some (st\<lparr>replies := replies st @ map (\<lambda>(c, p). (c, RPMessage p ch m)) (filter (\<lambda>x. gmatch False (the (parse (snd x))) ch) ps)\<rparr>,
        n + length (filter (\<lambda>x. gmatch False (the (parse (snd x))) ch) ps))"
proof (induction ps arbitrary: st n)
  case (Cons x ps)
  obtain c p where x: "x = (c, p)" by (cases x)
  then obtain g where "parse p = Some g" using Cons.prems by auto
  then have "stringmatchlen p ch False = Some (gmatch False g ch)" 
    using match_loop_spec [of 0 p g 0 ch False] assms by (simp add: stringmatchlen_def)
  then show ?case using Cons x \<open>parse p = Some g\<close> by (simp add: addReply_def)
qed simp

lemma count_list_distinct: "distinct xs \<Longrightarrow> count_list xs x = of_bool (x \<in> set xs)"
  by (induction xs) auto

lemma distinct_by_client: "\<forall>c. distinct (map snd (filter (\<lambda>x. fst x = c) sp)) \<Longrightarrow> distinct sp"
proof (induction sp)
  case (Cons x sp)
  have "distinct (map snd (filter (\<lambda>y. fst y = c) sp))" for c using Cons.prems [rule_format, of c] by (auto split: if_splits)
  moreover have "x \<notin> set sp"
  proof
    assume "x \<in> set sp"
    then have "snd x \<in> snd ` set (filter (\<lambda>y. fst y = fst x) sp)" by auto
    then show False using Cons.prems [rule_format, of "fst x"] by simp
  qed
  ultimately show ?case using Cons.IH by simp
qed simp

lemma pattern_pairs: "pat_inv sp cp \<Longrightarrow> (c, p) \<in> set sp \<longleftrightarrow> p \<in> set (cp c)"
proof -
  assume "pat_inv sp cp"
  then have "set (cp c) = snd ` {x \<in> set sp. fst x = c}" unfolding pat_inv_def by (metis set_filter set_map)
  then show ?thesis by force
qed

text \<open>
  C32. Publishing a message on a channel sends it once to each client subscribed to the channel
  and once per pattern to each client with a pattern that matches the channel's name, to nobody
  else, and returns the number of messages. The patterns are closed and the name is not empty,
  the arguments the matcher is correct for.
\<close>

theorem publish_delivers:
  assumes "ps_inv st" and "channel \<noteq> []" and "\<forall>x \<in> set (server_patterns st). parse (snd x) \<noteq> None"
  shows "\<exists>msgs. pubsubPublishMessage channel m st = Some (st\<lparr>replies := replies st @ msgs\<rparr>, length msgs) \<and>
    (\<forall>c. count_list msgs (c, RMessage channel m) = of_bool (channel \<in> c_channels st c)) \<and>
    (\<forall>c p. count_list msgs (c, RPMessage p channel m) =
       of_bool (p \<in> set (c_patterns st c) \<and> gmatch False (the (parse p)) channel)) \<and>
    (\<forall>x \<in> set msgs. \<exists>c p. x = (c, RMessage channel m) \<or> x = (c, RPMessage p channel m))"
proof -
  define cs where "cs = (case server_channels st channel of None \<Rightarrow> [] | Some cs \<Rightarrow> cs)"
  have "entry_ok (server_channels st channel) {c. channel \<in> c_channels st c}" using assms(1) by (simp add: ps_inv_def ch_inv_def)
  then have cs: "distinct cs" "set cs = {c. channel \<in> c_channels st c}"
    by (cases "server_channels st channel"; simp add: cs_def)+
  have pi: "pat_inv (server_patterns st) (c_patterns st)" using assms(1) by (simp add: ps_inv_def)
  define qs where "qs = filter (\<lambda>x. gmatch False (the (parse (snd x))) channel) (server_patterns st)"
  have qs: "distinct qs" "(c, p) \<in> set qs \<longleftrightarrow> p \<in> set (c_patterns st c) \<and> gmatch False (the (parse p)) channel" for c p
  proof -
    have "distinct (server_patterns st)" by (rule distinct_by_client) (use pi in \<open>simp add: pat_inv_def\<close>)
    then show "distinct qs" by (simp add: qs_def)
    show "(c, p) \<in> set qs \<longleftrightarrow> p \<in> set (c_patterns st c) \<and> gmatch False (the (parse p)) channel"
      using pattern_pairs [OF pi, of c p] by (auto simp: qs_def)
  qed
  let ?msgs = "map (\<lambda>c. (c, RMessage channel m)) cs @ map (\<lambda>(c, p). (c, RPMessage p channel m)) qs"
  let ?st = "st\<lparr>replies := replies st @ map (\<lambda>c. (c, RMessage channel m)) cs\<rparr>"
  have e1: "(case server_channels st channel of Some clients \<Rightarrow> publish_channel channel m clients st 0 | None \<Rightarrow> (st, 0)) = (?st, length cs)"
    by (cases "server_channels st channel") (simp_all add: publish_channel_spec cs_def)
  have "pubsubPublishMessage channel m st = Some (st\<lparr>replies := replies st @ ?msgs\<rparr>, length ?msgs)"
    unfolding pubsubPublishMessage_def e1 using publish_patterns_spec [OF assms(2,3), of m ?st "length cs"]
    by (auto simp: qs_def)
  moreover have d: "distinct ?msgs" using cs(1) qs(1) by (auto simp: distinct_map inj_on_def)
  moreover have "(c, RMessage channel m) \<in> set ?msgs \<longleftrightarrow> channel \<in> c_channels st c" for c using cs(2) by auto
  moreover have "(c, RPMessage p channel m) \<in> set ?msgs \<longleftrightarrow> p \<in> set (c_patterns st c) \<and> gmatch False (the (parse p)) channel" for c p
    using qs(2) [of c p] by force
  moreover have "\<forall>x \<in> set ?msgs. \<exists>c p. x = (c, RMessage channel m) \<or> x = (c, RPMessage p channel m)" by auto
  ultimately show ?thesis by (intro exI [of _ ?msgs]) (simp only: count_list_distinct [OF d] simp_thms)
qed

text \<open>One subscriber of the channel \<open>a\<close> and one client with the pattern \<open>*\<close>.\<close>

theorem publish_delivers_witness:
  "\<exists>st msgs. pubsubPublishMessage [97] [1] st = Some (st\<lparr>replies := replies st @ msgs\<rparr>, length msgs) \<and>
     count_list msgs (1, RMessage [97] [1]) = 1 \<and> count_list msgs (2, RPMessage [42] [97] [1]) = 1"
proof -
  let ?st = "fst (pubsubSubscribePattern 2 [42] (fst (pubsubSubscribeChannel 1 [97] pubsub_init)))"
  have st: "ps_inv ?st" using subscribeChannel_inv [OF ps_inv_init(1)] subscribePattern_inv by blast
  have f: "server_patterns ?st = [(2, [42])]" "c_channels ?st 1 = {[97]}" "c_patterns ?st 2 = [[42]]"
    by (simp_all add: pubsubSubscribePattern_def pubsubSubscribeChannel_def pubsub_init_def Let_def)
  have p: "parse [42] = Some [GStar]" by (simp add: parse.simps)
  have "\<forall>x \<in> set (server_patterns ?st). parse (snd x) \<noteq> None" using f(1) p by simp
  from publish_delivers [OF st _ this, of "[97]" "[1]"] obtain msgs where
    "pubsubPublishMessage [97] [1] ?st = Some (?st\<lparr>replies := replies ?st @ msgs\<rparr>, length msgs)"
    "count_list msgs (1, RMessage [97] [1]) = of_bool ([97] \<in> c_channels ?st 1)"
    "count_list msgs (2, RPMessage [42] [97] [1]) = of_bool ([42] \<in> set (c_patterns ?st 2) \<and> gmatch False (the (parse [42])) [97])"
    by blast
  then show ?thesis using f p by (intro exI [of _ ?st] exI [of _ msgs]) simp
qed

end
