(* ===== verification/Simulation.thy ===== *)
theory Simulation
  imports Main "HOL-Library.Monad_Syntax"
begin

text \<open>
  The contract between an implementation and its specification that several components meet: each
  operation that is allowed in an abstract state succeeds in the states that represent it, gives
  the result the specification gives, and leads to a state that represents the specification's
  next one. Histories of operations then agree, which is proved once, in the locale.
\<close>

fun run_ops :: "('op \<Rightarrow> 'st \<Rightarrow> ('st \<times> 'r) option) \<Rightarrow> 'op list \<Rightarrow> 'st \<Rightarrow> ('st \<times> 'r list) option" where
  "run_ops step [] s = Some (s, [])"
| "run_ops step (c # cs) s = do {
     (s, r) \<leftarrow> step c s;
     (s, rs) \<leftarrow> run_ops step cs s;
     Some (s, r # rs)
   }"

fun spec_ops :: "('op \<Rightarrow> 'a \<Rightarrow> 'a \<times> 'r) \<Rightarrow> 'op list \<Rightarrow> 'a \<Rightarrow> 'a \<times> 'r list" where
  "spec_ops spec [] a = (a, [])"
| "spec_ops spec (c # cs) a = (let (a, r) = spec c a; (a, rs) = spec_ops spec cs a in (a, r # rs))"

fun ok_ops :: "('op \<Rightarrow> 'a \<Rightarrow> 'a \<times> 'r) \<Rightarrow> ('op \<Rightarrow> 'a \<Rightarrow> bool) \<Rightarrow> 'op list \<Rightarrow> 'a \<Rightarrow> bool" where
  "ok_ops spec ok [] a \<longleftrightarrow> True"
| "ok_ops spec ok (c # cs) a \<longleftrightarrow> ok c a \<and> ok_ops spec ok cs (fst (spec c a))"

locale simulation =
  fixes step :: "'op \<Rightarrow> 'st \<Rightarrow> ('st \<times> 'r) option"
    and spec :: "'op \<Rightarrow> 'a \<Rightarrow> 'a \<times> 'r"
    and rep :: "'st \<Rightarrow> 'a \<Rightarrow> bool"
    and ok :: "'op \<Rightarrow> 'a \<Rightarrow> bool"
  assumes sim: "rep s a \<Longrightarrow> ok c a \<Longrightarrow> \<exists>s'. step c s = Some (s', snd (spec c a)) \<and> rep s' (fst (spec c a))"
begin

lemma history:
  "rep s a \<Longrightarrow> ok_ops spec ok cs a \<Longrightarrow>
     \<exists>s'. run_ops step cs s = Some (s', snd (spec_ops spec cs a)) \<and> rep s' (fst (spec_ops spec cs a))"
proof (induction cs arbitrary: s a)
  case (Cons c cs)
  from Cons.prems have ok: "ok c a" "ok_ops spec ok cs (fst (spec c a))" by simp_all
  from sim [OF Cons.prems(1) ok(1)] obtain s1 where
    1: "step c s = Some (s1, snd (spec c a))" "rep s1 (fst (spec c a))" by blast
  from Cons.IH [OF 1(2) ok(2)] obtain s2 where
    "run_ops step cs s1 = Some (s2, snd (spec_ops spec cs (fst (spec c a))))"
    "rep s2 (fst (spec_ops spec cs (fst (spec c a))))" by blast
  then show ?case using 1(1) by (simp add: Let_def split_beta)
qed simp

end

text \<open>
  A machine with an invariant: in a state that satisfies it, every allowed operation succeeds and
  keeps it; so does every history.
\<close>

locale invariant_machine =
  fixes step :: "'op \<Rightarrow> 'st \<Rightarrow> ('st \<times> 'r) option"
    and inv :: "'st \<Rightarrow> bool"
    and ok :: "'op \<Rightarrow> bool"
  assumes keep: "inv s \<Longrightarrow> ok c \<Longrightarrow> \<exists>s' r. step c s = Some (s', r) \<and> inv s'"
begin

lemma run: "inv s \<Longrightarrow> \<forall>c \<in> set cs. ok c \<Longrightarrow> \<exists>s' rs. run_ops step cs s = Some (s', rs) \<and> inv s'"
proof (induction cs arbitrary: s)
  case (Cons c cs)
  from keep [of s c] Cons.prems obtain s1 r where 1: "step c s = Some (s1, r)" "inv s1" by auto
  from Cons.IH [OF 1(2)] Cons.prems(2) obtain s2 rs where "run_ops step cs s1 = Some (s2, rs)" "inv s2" by auto
  then show ?case using 1(1) by simp
qed simp

end

end
