(* ===== verification/Zskiplist.thy ===== *)
theory Zskiplist
  imports Redis_Prelude Simulation
begin

section \<open>Skip lists: \<open>t_zset.c\<close>\<close>

text \<open>
  The nodes live in a heap, a partial map from addresses; \<open>NULL\<close> is the pointer \<open>None\<close>. Scores
  are the elements of a linear order, as the doubles other than NaN are, which \<open>zslInsert\<close> asserts;
  elements are ordered by \<open>sdscmp\<close>. Spans and ranks of insertion have their 32 bits. A null or
  dangling pointer, a level a node does not have and a failed assertion are the result \<open>None\<close>. The
  outcome of \<open>random\<close> and the address \<open>zmalloc\<close> chooses are parameters. The dictionary of a sorted
  set is not part of this model: what is deleted from it with a range is returned.
\<close>

definition ZSKIPLIST_MAXLEVEL :: nat where "ZSKIPLIST_MAXLEVEL = 32"

text \<open>A level of a node: \<open>forward\<close> and \<open>span\<close>.\<close>

record ('s, 'e) zskiplistNode =
  zn_ele :: "'e option"
  zn_score :: 's
  zn_backward :: "nat option"
  zn_level :: "(nat option \<times> u32) list"

record zskiplist =
  z_header :: nat
  z_tail :: "nat option"
  z_length :: nat
  z_level :: nat

type_synonym ('s, 'e) zheap = "nat \<rightharpoonup> ('s, 'e) zskiplistNode"

definition get_level :: "('s, 'e) zheap \<Rightarrow> nat \<Rightarrow> nat \<Rightarrow> (nat option \<times> u32) option" where
  "get_level h x i = do { n \<leftarrow> h x; if i < length (zn_level n) then Some (zn_level n ! i) else None }"

definition set_level :: "('s, 'e) zheap \<Rightarrow> nat \<Rightarrow> nat \<Rightarrow> nat option \<times> u32 \<Rightarrow> ('s, 'e) zheap option" where
  "set_level h x i v = do {
     n \<leftarrow> h x;
     if i < length (zn_level n) then Some (h(x \<mapsto> n\<lparr>zn_level := (zn_level n)[i := v]\<rparr>)) else None
   }"

definition set_backward :: "('s, 'e) zheap \<Rightarrow> nat \<Rightarrow> nat option \<Rightarrow> ('s, 'e) zheap option" where
  "set_backward h x b = do { n \<leftarrow> h x; Some (h(x \<mapsto> n\<lparr>zn_backward := b\<rparr>)) }"

definition zslCreateNode :: "nat \<Rightarrow> 's \<Rightarrow> 'e option \<Rightarrow> (nat option \<times> u32) \<Rightarrow> ('s, 'e) zskiplistNode" where
  "zslCreateNode level score ele junk =
     \<lparr>zn_ele = ele, zn_score = score, zn_backward = fst junk, zn_level = replicate level junk\<rparr>"

definition zslCreate :: "nat \<Rightarrow> ('s::zero, 'e) zheap \<times> zskiplist" where
  "zslCreate a = ([a \<mapsto> zslCreateNode ZSKIPLIST_MAXLEVEL 0 None (None, 0)],
     \<lparr>z_header = a, z_tail = None, z_length = 0, z_level = 1\<rparr>)"

text \<open>\<open>zslFree\<close>: the header, then the nodes of the bottom level.\<close>

partial_function (option) free_nodes :: "('s, 'e) zheap \<Rightarrow> nat option \<Rightarrow> ('s, 'e) zheap option" where
  "free_nodes h x = (case x of
     None \<Rightarrow> Some h
   | Some a \<Rightarrow> do { (nxt, _) \<leftarrow> get_level h a 0; free_nodes (h(a := None)) nxt })"

definition zslFree :: "('s, 'e) zheap \<Rightarrow> zskiplist \<Rightarrow> ('s, 'e) zheap option" where
  "zslFree h z = do { (node, _) \<leftarrow> get_level h (z_header z) 0; free_nodes (h(z_header z := None)) node }"

text \<open>\<open>zslRandomLevel\<close> from the values \<open>random\<close> gives: one more level with probability 1/4.\<close>

fun random_level :: "u32 list \<Rightarrow> nat" where
  "random_level [] = 1"
| "random_level (r # rs) = (if unat r mod 65536 < 16384 then random_level rs + 1 else 1)"

definition zslRandomLevel :: "u32 list \<Rightarrow> nat" where
  "zslRandomLevel rs = (let level = random_level rs in if level < ZSKIPLIST_MAXLEVEL then level else ZSKIPLIST_MAXLEVEL)"

text \<open>
  The loop all searches share: at level \<open>i\<close>, from \<open>x\<close>, follow \<open>forward\<close> while the condition \<open>P\<close> holds
  of the distance traversed then and of the next node.
\<close>

partial_function (option) zsl_walk ::
    "(nat \<Rightarrow> ('s, 'e) zskiplistNode \<Rightarrow> bool) \<Rightarrow> ('s, 'e) zheap \<Rightarrow> nat \<Rightarrow> nat \<Rightarrow> nat \<Rightarrow> (nat \<times> nat) option" where
  "zsl_walk P h i x traversed = do {
     (forward, span) \<leftarrow> get_level h x i;
     case forward of
       None \<Rightarrow> Some (x, traversed)
     | Some y \<Rightarrow> do {
         n \<leftarrow> h y;
         if P (traversed + unat span) n then zsl_walk P h i y (traversed + unat span) else Some (x, traversed)
       }
   }"

text \<open>\<open>for (i = zsl->level-1; i >= 0; i--)\<close>: the arrays \<open>update\<close> and \<open>rank\<close>, from level 0 on.\<close>

fun zsl_descend ::
    "(nat \<Rightarrow> ('s, 'e) zskiplistNode \<Rightarrow> bool) \<Rightarrow> ('s, 'e) zheap \<Rightarrow> nat \<Rightarrow> nat \<Rightarrow> nat \<Rightarrow> (nat \<times> nat) list \<Rightarrow> (nat \<times> nat) list option" where
  "zsl_descend P h 0 x traversed upd = Some upd"
| "zsl_descend P h (Suc i) x traversed upd = do {
     (x, traversed) \<leftarrow> zsl_walk P h i x traversed;
     zsl_descend P h i x traversed ((x, traversed) # upd)
   }"

text \<open>The order of the list: by score, then by element.\<close>

definition node_before :: "'s::linorder \<Rightarrow> 'e::linorder \<Rightarrow> ('s, 'e) zskiplistNode \<Rightarrow> bool" where
  "node_before score ele n \<longleftrightarrow> zn_score n < score \<or> zn_score n = score \<and> (\<exists>e. zn_ele n = Some e \<and> e < ele)"

subsection \<open>Insertion\<close>

text \<open>The new levels of the header, from \<open>i\<close>, \<open>k\<close> of them.\<close>

fun raise_levels :: "('s, 'e) zheap \<Rightarrow> zskiplist \<Rightarrow> nat \<Rightarrow> nat \<Rightarrow> ('s, 'e) zheap option" where
  "raise_levels h z i 0 = Some h"
| "raise_levels h z i (Suc k) = do {
     (forward, _) \<leftarrow> get_level h (z_header z) i;
     h \<leftarrow> set_level h (z_header z) i (forward, of_nat (z_length z));
     raise_levels h z (Suc i) k
   }"

text \<open>\<open>for (i = 0; i < level; i++)\<close>: the new node \<open>x\<close> is linked after \<open>update[i]\<close>.\<close>

fun link_levels :: "('s, 'e) zheap \<Rightarrow> nat \<Rightarrow> nat \<Rightarrow> nat \<Rightarrow> (nat \<times> nat) list \<Rightarrow> ('s, 'e) zheap option" where
  "link_levels h x rank0 i [] = Some h"
| "link_levels h x rank0 i ((u, rank) # upd) = do {
     (forward, span) \<leftarrow> get_level h u i;
     let d = (of_nat rank0 - of_nat rank :: u32);
     h \<leftarrow> set_level h x i (forward, span - d);
     h \<leftarrow> set_level h u i (Some x, d + 1);
     link_levels h x rank0 (Suc i) upd
   }"

text \<open>\<open>for (i = level; i < zsl->level; i++)\<close>\<close>

fun bump_spans :: "('s, 'e) zheap \<Rightarrow> nat \<Rightarrow> (nat \<times> nat) list \<Rightarrow> ('s, 'e) zheap option" where
  "bump_spans h i [] = Some h"
| "bump_spans h i ((u, _) # upd) = do {
     (forward, span) \<leftarrow> get_level h u i;
     h \<leftarrow> set_level h u i (forward, span + 1);
     bump_spans h (Suc i) upd
   }"

text \<open>The last steps of an insertion: the backward pointer of the next node, or the tail.\<close>

definition relink_next :: "('s, 'e) zheap \<Rightarrow> zskiplist \<Rightarrow> nat option \<Rightarrow> nat \<Rightarrow> (('s, 'e) zheap \<times> zskiplist) option" where
  "relink_next h z forward x = (case forward of
     Some y \<Rightarrow> do { h \<leftarrow> set_backward h y (Some x); Some (h, z) }
   | None \<Rightarrow> Some (h, z\<lparr>z_tail := Some x\<rparr>))"

definition zslInsert ::
    "(('s, 'e) zheap \<Rightarrow> nat) \<Rightarrow> (nat option \<times> u32) \<Rightarrow> nat \<Rightarrow> ('s::linorder, 'e::linorder) zheap \<Rightarrow> zskiplist \<Rightarrow> 's \<Rightarrow> 'e \<Rightarrow>
     (('s, 'e) zheap \<times> zskiplist \<times> nat) option" where
  "zslInsert alloc junk level h z score ele = do {
     upd \<leftarrow> zsl_descend (\<lambda>_. node_before score ele) h (z_level z) (z_header z) 0 [];
     h \<leftarrow> raise_levels h z (z_level z) (level - z_level z);
     let upd = upd @ replicate (level - z_level z) (z_header z, 0);
     let z = (if level > z_level z then z\<lparr>z_level := level\<rparr> else z);
     let x = alloc h;
     let h = h(x \<mapsto> zslCreateNode level score (Some ele) junk);
     let (u0, rank0) = hd upd;
     h \<leftarrow> link_levels h x rank0 0 (take level upd);
     h \<leftarrow> bump_spans h level (drop level upd);
     h \<leftarrow> set_backward h x (if u0 = z_header z then None else Some u0);
     (forward, _) \<leftarrow> get_level h x 0;
     (h, z) \<leftarrow> relink_next h z forward x;
     Some (h, z\<lparr>z_length := z_length z + 1\<rparr>, x)
   }"

subsection \<open>Deletion\<close>

fun unlink_levels :: "('s, 'e) zheap \<Rightarrow> nat \<Rightarrow> nat \<Rightarrow> (nat \<times> nat) list \<Rightarrow> ('s, 'e) zheap option" where
  "unlink_levels h x i [] = Some h"
| "unlink_levels h x i ((u, _) # upd) = do {
     (forward, span) \<leftarrow> get_level h u i;
     h \<leftarrow> (if forward = Some x then do {
            (xforward, xspan) \<leftarrow> get_level h x i;
            set_level h u i (xforward, span + (xspan - 1))
          }
          else set_level h u i (forward, span - 1));
     unlink_levels h x (Suc i) upd
   }"

text \<open>\<open>while (zsl->level > 1 && zsl->header->level[zsl->level-1].forward == NULL) zsl->level--\<close>\<close>

fun lower_level :: "('s, 'e) zheap \<Rightarrow> nat \<Rightarrow> nat \<Rightarrow> nat option" where
  "lower_level h hdr 0 = Some 0"
| "lower_level h hdr (Suc l) =
     (if Suc l > 1 then do {
        (forward, _) \<leftarrow> get_level h hdr l;
        if forward = None then lower_level h hdr l else Some (Suc l)
      }
      else Some (Suc l))"

text \<open>\<open>x->level[0].forward->backward = x->backward\<close>, or the tail moves back.\<close>

definition unlink_next :: "('s, 'e) zheap \<Rightarrow> zskiplist \<Rightarrow> nat option \<Rightarrow> nat option \<Rightarrow> (('s, 'e) zheap \<times> zskiplist) option" where
  "unlink_next h z forward backward = (case forward of
     Some y \<Rightarrow> do { h \<leftarrow> set_backward h y backward; Some (h, z) }
   | None \<Rightarrow> Some (h, z\<lparr>z_tail := backward\<rparr>))"

definition zslDeleteNode ::
    "('s, 'e) zheap \<Rightarrow> zskiplist \<Rightarrow> nat \<Rightarrow> (nat \<times> nat) list \<Rightarrow> (('s, 'e) zheap \<times> zskiplist) option" where
  "zslDeleteNode h z x upd = do {
     h \<leftarrow> unlink_levels h x 0 (take (z_level z) upd);
     n \<leftarrow> h x;
     (forward, _) \<leftarrow> get_level h x 0;
     (h, z) \<leftarrow> unlink_next h z forward (zn_backward n);
     l \<leftarrow> lower_level h (z_header z) (z_level z);
     Some (h, z\<lparr>z_level := l, z_length := z_length z - 1\<rparr>)
   }"

text \<open>The node is freed; the result tells whether it was found.\<close>

definition zslDelete ::
    "('s::linorder, 'e::linorder) zheap \<Rightarrow> zskiplist \<Rightarrow> 's \<Rightarrow> 'e \<Rightarrow> (('s, 'e) zheap \<times> zskiplist \<times> bool) option" where
  "zslDelete h z score ele = do {
     upd \<leftarrow> zsl_descend (\<lambda>_. node_before score ele) h (z_level z) (z_header z) 0 [];
     (forward, _) \<leftarrow> get_level h (fst (hd upd)) 0;
     case forward of
       None \<Rightarrow> Some (h, z, False)
     | Some x \<Rightarrow> do {
         n \<leftarrow> h x;
         if score = zn_score n \<and> zn_ele n = Some ele then do {
           (h, z) \<leftarrow> zslDeleteNode h z x upd;
           Some (h(x := None), z, True)
         }
         else Some (h, z, False)
       }
   }"

text \<open>
  The loop of the three range deletions: while the node is there and the condition holds of the
  number of the turn and of the node. The elements it gives back are deleted from the dictionary.
\<close>

partial_function (option) delete_range ::
    "(nat \<Rightarrow> ('s, 'e) zskiplistNode \<Rightarrow> bool) \<Rightarrow> (nat \<times> nat) list \<Rightarrow> ('s, 'e) zheap \<Rightarrow> zskiplist \<Rightarrow> nat option \<Rightarrow> nat \<Rightarrow> 'e option list \<Rightarrow>
     (('s, 'e) zheap \<times> zskiplist \<times> 'e option list) option" where
  "delete_range Q upd h z x k removed =
     (case x of
        None \<Rightarrow> Some (h, z, removed)
      | Some a \<Rightarrow> do {
          n \<leftarrow> h a;
          if Q k n then do {
            (nxt, _) \<leftarrow> get_level h a 0;
            (h, z) \<leftarrow> zslDeleteNode h z a upd;
            delete_range Q upd (h(a := None)) z nxt (k + 1) (removed @ [zn_ele n])
          }
          else Some (h, z, removed)
        })"

record 's zrangespec =
  r_min :: 's
  r_max :: 's
  r_minex :: bool
  r_maxex :: bool

definition zslValueGteMin :: "'s::linorder \<Rightarrow> 's zrangespec \<Rightarrow> bool" where
  "zslValueGteMin v spec = (if r_minex spec then v > r_min spec else v \<ge> r_min spec)"

definition zslValueLteMax :: "'s::linorder \<Rightarrow> 's zrangespec \<Rightarrow> bool" where
  "zslValueLteMax v spec = (if r_maxex spec then v < r_max spec else v \<le> r_max spec)"

definition zslDeleteRangeByScore ::
    "('s::linorder, 'e) zheap \<Rightarrow> zskiplist \<Rightarrow> 's zrangespec \<Rightarrow> (('s, 'e) zheap \<times> zskiplist \<times> 'e option list) option" where
  "zslDeleteRangeByScore h z spec = do {
     upd \<leftarrow> zsl_descend (\<lambda>_ n. if r_minex spec then zn_score n \<le> r_min spec else zn_score n < r_min spec)
              h (z_level z) (z_header z) 0 [];
     (forward, _) \<leftarrow> get_level h (fst (hd upd)) 0;
     delete_range (\<lambda>_ n. if r_maxex spec then zn_score n < r_max spec else zn_score n \<le> r_max spec) upd h z forward 0 []
   }"

text \<open>\<open>traversed\<close> continues from the descent; ranks start with 1.\<close>

definition zslDeleteRangeByRank ::
    "('s, 'e) zheap \<Rightarrow> zskiplist \<Rightarrow> nat \<Rightarrow> nat \<Rightarrow> (('s, 'e) zheap \<times> zskiplist \<times> 'e option list) option" where
  "zslDeleteRangeByRank h z start end' = do {
     upd \<leftarrow> zsl_descend (\<lambda>t _. t < start) h (z_level z) (z_header z) 0 [];
     (forward, _) \<leftarrow> get_level h (fst (hd upd)) 0;
     delete_range (\<lambda>k _. k \<le> end') upd h z forward (snd (hd upd) + 1) []
   }"

subsection \<open>Lookup\<close>

definition zslIsInRange :: "('s::linorder, 'e) zheap \<Rightarrow> zskiplist \<Rightarrow> 's zrangespec \<Rightarrow> bool option" where
  "zslIsInRange h z spec =
     (if r_min spec > r_max spec \<or> r_min spec = r_max spec \<and> (r_minex spec \<or> r_maxex spec) then Some False
      else case z_tail z of
        None \<Rightarrow> Some False
      | Some t \<Rightarrow> do {
          n \<leftarrow> h t;
          if \<not> zslValueGteMin (zn_score n) spec then Some False
          else do {
            (forward, _) \<leftarrow> get_level h (z_header z) 0;
            case forward of
              None \<Rightarrow> Some False
            | Some a \<Rightarrow> do { n \<leftarrow> h a; Some (zslValueLteMax (zn_score n) spec) }
          }
        })"

text \<open>The outer \<open>None\<close> is also the assertion that a node follows.\<close>

definition zslFirstInRange :: "('s::linorder, 'e) zheap \<Rightarrow> zskiplist \<Rightarrow> 's zrangespec \<Rightarrow> nat option option" where
  "zslFirstInRange h z spec = do {
     ok \<leftarrow> zslIsInRange h z spec;
     if \<not> ok then Some None
     else do {
       upd \<leftarrow> zsl_descend (\<lambda>_ n. \<not> zslValueGteMin (zn_score n) spec) h (z_level z) (z_header z) 0 [];
       (forward, _) \<leftarrow> get_level h (fst (hd upd)) 0;
       x \<leftarrow> forward;
       n \<leftarrow> h x;
       Some (if \<not> zslValueLteMax (zn_score n) spec then None else Some x)
     }
   }"

definition zslLastInRange :: "('s::linorder, 'e) zheap \<Rightarrow> zskiplist \<Rightarrow> 's zrangespec \<Rightarrow> nat option option" where
  "zslLastInRange h z spec = do {
     ok \<leftarrow> zslIsInRange h z spec;
     if \<not> ok then Some None
     else do {
       upd \<leftarrow> zsl_descend (\<lambda>_ n. zslValueLteMax (zn_score n) spec) h (z_level z) (z_header z) 0 [];
       n \<leftarrow> h (fst (hd upd));
       Some (if \<not> zslValueGteMin (zn_score n) spec then None else Some (fst (hd upd)))
     }
   }"

text \<open>\<open>zslGetRank\<close> stops at the first level on which the element is reached; 0 is not found.\<close>

fun rank_loop :: "('s::linorder, 'e::linorder) zheap \<Rightarrow> 's \<Rightarrow> 'e \<Rightarrow> nat \<Rightarrow> nat \<Rightarrow> nat \<Rightarrow> nat option" where
  "rank_loop h score ele 0 x rank = Some 0"
| "rank_loop h score ele (Suc i) x rank = do {
     (x, rank) \<leftarrow> zsl_walk (\<lambda>_ n. zn_score n < score \<or> zn_score n = score \<and> (\<exists>e. zn_ele n = Some e \<and> e \<le> ele)) h i x rank;
     n \<leftarrow> h x;
     if zn_ele n = Some ele then Some rank else rank_loop h score ele i x rank
   }"

definition zslGetRank :: "('s::linorder, 'e::linorder) zheap \<Rightarrow> zskiplist \<Rightarrow> 's \<Rightarrow> 'e \<Rightarrow> nat option" where
  "zslGetRank h z score ele = rank_loop h score ele (z_level z) (z_header z) 0"

fun by_rank_loop :: "('s, 'e) zheap \<Rightarrow> nat \<Rightarrow> nat \<Rightarrow> nat \<Rightarrow> nat \<Rightarrow> nat option option" where
  "by_rank_loop h rank 0 x traversed = Some None"
| "by_rank_loop h rank (Suc i) x traversed = do {
     (x, traversed) \<leftarrow> zsl_walk (\<lambda>t _. t \<le> rank) h i x traversed;
     if traversed = rank then Some (Some x) else by_rank_loop h rank i x traversed
   }"

definition zslGetElementByRank :: "('s, 'e) zheap \<Rightarrow> zskiplist \<Rightarrow> nat \<Rightarrow> nat option option" where
  "zslGetElementByRank h z rank = by_rank_loop h rank (z_level z) (z_header z) 0"

end
