(* ===== verification/Zskiplist_Wf.thy ===== *)
theory Zskiplist_Wf
  imports Zskiplist
begin

text \<open>
  Well-formed skip lists. The nodes are numbered by their position in the bottom list; what every
  level and every span has to be follows from the heights alone (\<open>nxt\<close>, \<open>lst\<close>). The invariant \<open>zinv\<close>
  is kept by \<open>zslInsert\<close> and \<open>zslDeleteNode\<close>, which change positions by \<open>ins_at\<close> and \<open>del_at\<close>.
\<close>

section \<open>Positions\<close>

text \<open>
  Nodes are numbered from 1 in the order of the list, with the header at 0 and a virtual node
  behind the last one. \<open>H\<close> gives the height of the node at a position; the header and the virtual
  node have all levels. \<open>nxt\<close> is the next position on a level, \<open>lst\<close> the last one up to \<open>m\<close>.
\<close>

definition nxt :: "(nat \<Rightarrow> nat) \<Rightarrow> nat \<Rightarrow> nat \<Rightarrow> nat" where
  "nxt H i p = (LEAST q. p < q \<and> i < H q)"

definition lst :: "(nat \<Rightarrow> nat) \<Rightarrow> nat \<Rightarrow> nat \<Rightarrow> nat" where
  "lst H i m = (GREATEST r. r \<le> m \<and> i < H r)"

lemma nxtI: "p < q \<Longrightarrow> i < H q \<Longrightarrow> (\<And>r. p < r \<Longrightarrow> r < q \<Longrightarrow> \<not> i < H r) \<Longrightarrow> nxt H i p = q"
  unfolding nxt_def by (intro Least_equality) (auto simp: not_less [symmetric])

lemma nxt_props:
  assumes "p < q" "i < H q"
  shows "p < nxt H i p" "i < H (nxt H i p)" "nxt H i p \<le> q" "\<And>r. p < r \<Longrightarrow> r < nxt H i p \<Longrightarrow> \<not> i < H r"
proof -
  have "p < q \<and> i < H q" using assms by simp
  from LeastI [of "\<lambda>q. p < q \<and> i < H q", OF this] Least_le [of "\<lambda>q. p < q \<and> i < H q", OF this]
  show "p < nxt H i p" "i < H (nxt H i p)" "nxt H i p \<le> q" by (simp_all add: nxt_def)
  show "\<not> i < H r" if "p < r" "r < nxt H i p" for r
    using not_less_Least [of r "\<lambda>q. p < q \<and> i < H q"] that by (simp add: nxt_def)
qed

lemma lst_props:
  assumes "i < H 0"
  shows "lst H i m \<le> m" "i < H (lst H i m)" "\<And>r. lst H i m < r \<Longrightarrow> r \<le> m \<Longrightarrow> \<not> i < H r"
proof -
  have e: "0 \<le> m \<and> i < H 0" using assms by simp
  have b: "\<And>r. r \<le> m \<and> i < H r \<Longrightarrow> r \<le> m" by simp
  from GreatestI_nat [of "\<lambda>r. r \<le> m \<and> i < H r", OF e b]
  show "lst H i m \<le> m" "i < H (lst H i m)" by (simp_all add: lst_def)
  show "\<not> i < H r" if "lst H i m < r" "r \<le> m" for r
    using Greatest_le_nat [of "\<lambda>r. r \<le> m \<and> i < H r" r m] that by (auto simp: lst_def)
qed

lemma lst_ge: "i < H p \<Longrightarrow> p \<le> m \<Longrightarrow> i < H 0 \<Longrightarrow> p \<le> lst H i m"
  using lst_props(3) [of i H m p] by (meson not_le)

lemma lst_0: "(\<And>p. p \<le> m \<Longrightarrow> 0 < H p) \<Longrightarrow> lst H 0 m = m"
  using lst_props(1) [of 0 H m] lst_ge [of 0 H m m] by (simp add: le_antisym)

lemma nxt_lst: "i < H 0 \<Longrightarrow> m < q \<Longrightarrow> i < H q \<Longrightarrow> m < nxt H i (lst H i m)"
proof -
  assume a: "i < H 0" "m < q" "i < H q"
  note l = lst_props [where H = H and m = m, OF a(1)]
  have "lst H i m < q" using l(1) a(2) by simp
  note n = nxt_props [where H = H, OF this a(3)]
  show "m < nxt H i (lst H i m)" using l(3) [of "nxt H i (lst H i m)"] n(1,2) by (meson not_le)
qed

text \<open>
  A function on positions after a node with value \<open>k\<close> is inserted behind position \<open>m\<close>, or the one
  behind \<open>m\<close> is deleted.
\<close>

definition ins_at :: "nat \<Rightarrow> 'a \<Rightarrow> (nat \<Rightarrow> 'a) \<Rightarrow> nat \<Rightarrow> 'a" where
  "ins_at m k H q = (if q \<le> m then H q else if q = Suc m then k else H (q - 1))"

definition del_at :: "nat \<Rightarrow> (nat \<Rightarrow> 'a) \<Rightarrow> nat \<Rightarrow> 'a" where
  "del_at m H q = (if q \<le> m then H q else H (Suc q))"

lemma nxt_ins_before:
  assumes "i < H p" "p < lst H i m" "i < H 0"
  shows "nxt (ins_at m k H) i p = nxt H i p \<and> nxt H i p \<le> m"
proof -
  note l = lst_props [where H = H and m = m, OF assms(3)]
  note n = nxt_props [where H = H, OF assms(2) l(2)]
  have "nxt H i p \<le> m" using n(3) l(1) by simp
  then show ?thesis using n by (auto intro!: nxtI simp: ins_at_def)
qed

lemma nxt_ins_last:
  assumes "i < H 0" "m < q" "i < H q"
  shows "nxt (ins_at m k H) i (lst H i m) = (if i < k then Suc m else Suc (nxt H i (lst H i m)))"
proof -
  let ?l = "lst H i m"
  note l = lst_props [where H = H and m = m, OF assms(1)]
  have lq: "?l < q" using l(1) assms(2) by simp
  note n = nxt_props [where H = H, OF lq assms(3)] and nm = nxt_lst [of i H m q, OF assms]
  show ?thesis
  proof (cases "i < k")
    case True
    then show ?thesis using l by (auto intro!: nxtI simp: ins_at_def)
  next
    case False
    have "\<not> i < ins_at m k H r" if "?l < r" "r < Suc (nxt H i ?l)" for r
      using l(3) [of r] n(4) [of "r - 1"] that False l(1) by (auto simp: ins_at_def)
    then show ?thesis using False n(1,2) nm by (auto intro!: nxtI simp: ins_at_def)
  qed
qed

lemma nxt_ins_new:
  assumes "i < H 0" "m < q" "i < H q"
  shows "nxt (ins_at m k H) i (Suc m) = Suc (nxt H i (lst H i m))"
proof -
  let ?l = "lst H i m"
  note l = lst_props [where H = H and m = m, OF assms(1)]
  have lq: "?l < q" using l(1) assms(2) by simp
  note n = nxt_props [where H = H, OF lq assms(3)] and nm = nxt_lst [of i H m q, OF assms]
  have "\<not> i < ins_at m k H r" if "Suc m < r" "r < Suc (nxt H i ?l)" for r
    using n(4) [of "r - 1"] that l(1) by (auto simp: ins_at_def)
  then show ?thesis using n(1,2) nm by (auto intro!: nxtI simp: ins_at_def)
qed

lemma nxt_ins_after:
  assumes "m < p" "p < q" "i < H q"
  shows "nxt (ins_at m k H) i (Suc p) = Suc (nxt H i p)"
proof -
  note n = nxt_props [where H = H, OF assms(2,3)]
  have "\<not> i < ins_at m k H r" if "Suc p < r" "r < Suc (nxt H i p)" for r
    using n(4) [of "r - 1"] that assms(1) by (auto simp: ins_at_def)
  then show ?thesis using n(1,2) assms(1) by (auto intro!: nxtI simp: ins_at_def)
qed

lemma nxt_del_before:
  assumes "i < H p" "p < lst H i m" "i < H 0"
  shows "nxt (del_at m H) i p = nxt H i p \<and> nxt H i p \<le> m"
proof -
  note l = lst_props [where H = H and m = m, OF assms(3)]
  note n = nxt_props [where H = H, OF assms(2) l(2)]
  have "nxt H i p \<le> m" using n(3) l(1) by simp
  then show ?thesis using n by (auto intro!: nxtI simp: del_at_def)
qed

lemma nxt_del_last:
  assumes "i < H 0" "Suc m < q" "i < H q"
  shows "nxt (del_at m H) i (lst H i m) = (if i < H (Suc m) then nxt H i (Suc m) - 1 else nxt H i (lst H i m) - 1)"
    and "i < H (Suc m) \<longleftrightarrow> nxt H i (lst H i m) = Suc m"
proof -
  let ?l = "lst H i m"
  note l = lst_props [where H = H and m = m, OF assms(1)]
  have lq: "?l < q" using l(1) assms(2) by simp
  note n = nxt_props [where H = H, OF lq assms(3)] and n1 = nxt_props [where H = H, OF assms(2,3)]
  have nm: "m < nxt H i ?l" using nxt_lst [of i H m q] assms by simp
  show iff: "i < H (Suc m) \<longleftrightarrow> nxt H i ?l = Suc m"
  proof
    assume "i < H (Suc m)"
    then show "nxt H i ?l = Suc m" using l by (intro nxtI) (auto simp: less_Suc_eq_le)
  qed (use n(2) in auto)
  show "nxt (del_at m H) i ?l = (if i < H (Suc m) then nxt H i (Suc m) - 1 else nxt H i ?l - 1)"
  proof (cases "i < H (Suc m)")
    case True
    have "\<not> i < del_at m H r" if "?l < r" "r < nxt H i (Suc m) - 1" for r
      using l(3) [of r] n1(4) [of "Suc r"] that by (auto simp: del_at_def)
    then show ?thesis using True n1(1,2) l(1) by (auto intro!: nxtI simp: del_at_def)
  next
    case False
    have gt: "Suc m < nxt H i ?l" using nm iff False by (metis Suc_lessI)
    have "\<not> i < del_at m H r" if "?l < r" "r < nxt H i ?l - 1" for r
      using l(3) [of r] n(4) [of "Suc r"] that by (auto simp: del_at_def)
    then show ?thesis using False n(2) l(1) gt by (auto intro!: nxtI simp: del_at_def)
  qed
qed

lemma nxt_del_after:
  assumes "m < p" "Suc p < q" "i < H q"
  shows "nxt (del_at m H) i p = nxt H i (Suc p) - 1"
proof -
  note n = nxt_props [where H = H, OF assms(2,3)]
  have "\<not> i < del_at m H r" if "p < r" "r < nxt H i (Suc p) - 1" for r
    using n(4) [of "Suc r"] that assms(1) by (auto simp: del_at_def)
  then show ?thesis using n(1,2) assms(1) by (auto intro!: nxtI simp: del_at_def)
qed

section \<open>Well-formed skip lists\<close>

text \<open>What a node holds beside its levels, and how many it has.\<close>

definition info :: "('s, 'e) zheap \<Rightarrow> nat \<Rightarrow> ('e option \<times> 's \<times> nat option \<times> nat) option" where
  "info h a = map_option (\<lambda>n. (zn_ele n, zn_score n, zn_backward n, length (zn_level n))) (h a)"

definition fwd :: "nat \<Rightarrow> (nat \<Rightarrow> nat) \<Rightarrow> (nat \<Rightarrow> nat) \<Rightarrow> nat \<Rightarrow> nat \<Rightarrow> nat option" where
  "fwd n A H i p = (if nxt H i p \<le> n then Some (A (nxt H i p)) else None)"

definition spn :: "nat \<Rightarrow> (nat \<Rightarrow> nat) \<Rightarrow> nat \<Rightarrow> nat \<Rightarrow> u32" where
  "spn n H i p = of_nat (min (nxt H i p) n) - of_nat p"

definition bwd :: "(nat \<Rightarrow> nat) \<Rightarrow> nat \<Rightarrow> nat option" where
  "bwd A p = (if p = 1 then None else Some (A (p - 1)))"

text \<open>
  The skip list has \<open>n\<close> nodes with addresses \<open>A\<close>, keys (score and element) \<open>K\<close> and heights \<open>H\<close>. The
  spans of the header are only defined on the levels in use.
\<close>

definition heights_ok :: "nat \<Rightarrow> nat \<Rightarrow> (nat \<Rightarrow> nat) \<Rightarrow> bool" where
  "heights_ok L n H \<longleftrightarrow> 1 \<le> L \<and> L \<le> 32 \<and> H 0 = 32 \<and> (\<forall>p > n. H p = 32) \<and> (\<forall>p. 1 \<le> p \<and> p \<le> n \<longrightarrow> 1 \<le> H p \<and> H p \<le> L)"

definition levels_ok :: "('s, 'e) zheap \<Rightarrow> nat \<Rightarrow> nat \<Rightarrow> (nat \<Rightarrow> nat) \<Rightarrow> (nat \<Rightarrow> nat) \<Rightarrow> bool" where
  "levels_ok h L n A H \<longleftrightarrow>
     (\<forall>p \<le> n. \<forall>i < H p. \<exists>s. get_level h (A p) i = Some (fwd n A H i p, s) \<and> (i < L \<longrightarrow> s = spn n H i p))"

definition infos_ok :: "('s, 'e) zheap \<Rightarrow> nat \<Rightarrow> (nat \<Rightarrow> nat) \<Rightarrow> (nat \<Rightarrow> 's \<times> 'e) \<Rightarrow> (nat \<Rightarrow> nat) \<Rightarrow> bool" where
  "infos_ok h n A K H \<longleftrightarrow> (\<exists>s b. info h (A 0) = Some (None, s, b, 32)) \<and>
     (\<forall>p. 1 \<le> p \<and> p \<le> n \<longrightarrow> info h (A p) = Some (Some (snd (K p)), fst (K p), bwd A p, H p))"

definition key_less :: "'s::linorder \<times> 'e::linorder \<Rightarrow> 's \<times> 'e \<Rightarrow> bool" where
  "key_less x y \<longleftrightarrow> fst x < fst y \<or> fst x = fst y \<and> snd x < snd y"

definition zinv ::
    "('s::linorder, 'e::linorder) zheap \<Rightarrow> zskiplist \<Rightarrow> nat \<Rightarrow> (nat \<Rightarrow> nat) \<Rightarrow> (nat \<Rightarrow> 's \<times> 'e) \<Rightarrow> (nat \<Rightarrow> nat) \<Rightarrow> bool" where
  "zinv h z n A K H \<longleftrightarrow> A 0 = z_header z \<and> inj_on A {0..n} \<and> dom h = A ` {0..n} \<and> z_length z = n \<and>
     z_tail z = (if n = 0 then None else Some (A n)) \<and> heights_ok (z_level z) n H \<and>
     (1 < z_level z \<longrightarrow> (\<exists>p. 1 \<le> p \<and> p \<le> n \<and> H p = z_level z)) \<and>
     (\<forall>p q. 1 \<le> p \<and> p < q \<and> q \<le> n \<longrightarrow> key_less (K p) (K q)) \<and>
     levels_ok h (z_level z) n A H \<and> infos_ok h n A K H"

subsection \<open>Searching\<close>

lemma unat_diff_small: "p \<le> q \<Longrightarrow> q < 2 ^ 32 \<Longrightarrow> unat (of_nat q - of_nat p :: u32) = q - p"
proof -
  assume a: "p \<le> q" "q < 2 ^ 32"
  have "(of_nat q - of_nat p :: u32) = of_nat (q - p)" using a(1) by (simp add: of_nat_diff)
  moreover have "unat (of_nat (q - p) :: u32) = q - p"
    using a by (simp add: unsigned_of_nat take_bit_nat_eq_self del: of_nat_diff)
  ultimately show ?thesis by simp
qed

text \<open>\<open>P\<close> holds of exactly the nodes up to position \<open>m\<close>.\<close>

definition cuts :: "(nat \<Rightarrow> ('s, 'e) zskiplistNode \<Rightarrow> bool) \<Rightarrow> ('s, 'e) zheap \<Rightarrow> nat \<Rightarrow> (nat \<Rightarrow> nat) \<Rightarrow> nat \<Rightarrow> bool" where
  "cuts P h n A m \<longleftrightarrow> m \<le> n \<and> (\<forall>q. 1 \<le> q \<and> q \<le> n \<longrightarrow> (\<exists>N. h (A q) = Some N \<and> (P q N \<longleftrightarrow> q \<le> m)))"

lemma zsl_walk_spec:
  assumes lv: "levels_ok h L n A H" and ht: "heights_ok L n H" and n: "n < 2 ^ 32" and P: "cuts P h n A m" and i: "i < L"
  shows "p \<le> m \<Longrightarrow> i < H p \<Longrightarrow> zsl_walk P h i (A p) p = Some (A (lst H i m), lst H i m)"
proof (induction "m - p" arbitrary: p rule: less_induct)
  case less
  have m: "m \<le> n" using P by (simp add: cuts_def)
  have H: "i < H 0" "i < H (Suc n)" using ht i by (simp_all add: heights_ok_def)
  let ?q = "nxt H i p"
  have pn: "p < Suc n" using less.prems(1) m by simp
  note nx = nxt_props [where H = H, OF pn H(2)]
  have gl: "get_level h (A p) i = Some (fwd n A H i p, spn n H i p)"
    using lv [unfolded levels_ok_def, rule_format, of p i] less.prems m i by auto
  have stop: "lst H i m = p" if "m < ?q"
  proof -
    have "\<not> p < lst H i m"
    proof
      assume "p < lst H i m"
      with nx(4) [of "lst H i m"] lst_props [where H = H and m = m, OF H(1)] that show False by auto
    qed
    with lst_ge [where H = H, OF less.prems(2,1) H(1)] show ?thesis by simp
  qed
  show ?case
  proof (cases "?q \<le> n")
    case False
    then have "fwd n A H i p = None" by (simp add: fwd_def)
    then show ?thesis using gl stop False m by (subst zsl_walk.simps) simp
  next
    case True
    then obtain N where N: "h (A ?q) = Some N" "P ?q N \<longleftrightarrow> ?q \<le> m" using P nx(1)
      unfolding cuts_def by (metis One_nat_def Suc_leI less_imp_Suc_add zero_less_Suc)
    have u: "p + unat (spn n H i p) = ?q"
      using True n nx(1) unat_diff_small [of p ?q] by (simp add: spn_def min_absorb1)
    have f: "fwd n A H i p = Some (A ?q)" using True by (simp add: fwd_def)
    show ?thesis
    proof (cases "?q \<le> m")
      case False
      then show ?thesis using gl f N u stop by (subst zsl_walk.simps) simp
    next
      case q: True
      have "m - ?q < m - p" using q nx(1) by simp
      from less.hyps [OF this q nx(2)] show ?thesis using gl f N u q by (subst zsl_walk.simps) simp
    qed
  qed
qed

lemma zsl_descend_spec:
  assumes lv: "levels_ok h L n A H" and ht: "heights_ok L n H" and n: "n < 2 ^ 32" and P: "cuts P h n A m"
  shows "k \<le> L \<Longrightarrow> p \<le> m \<Longrightarrow> k \<le> H p \<Longrightarrow>
    zsl_descend P h k (A p) p upd = Some (map (\<lambda>i. (A (lst H i m), lst H i m)) [0..<k] @ upd)"
proof (induction k arbitrary: p upd)
  case (Suc k)
  have w: "zsl_walk P h k (A p) p = Some (A (lst H k m), lst H k m)"
    by (rule zsl_walk_spec [OF lv ht n P]) (use Suc.prems in auto)
  have "k < H 0" using ht Suc.prems(1) by (simp add: heights_ok_def)
  note l = lst_props [where H = H and m = m, OF this]
  show ?case using w Suc.IH [of "lst H k m" "(A (lst H k m), lst H k m) # upd"] Suc.prems(1) l by simp
qed simp


subsection \<open>Updating the heap\<close>

text \<open>A heap is known by its levels and by what else its nodes hold.\<close>

lemma set_level_spec:
  assumes "get_level h x i = Some v"
  shows "\<exists>h'. set_level h x i w = Some h' \<and> info h' = info h \<and> dom h' = dom h \<and>
    (\<forall>b j. get_level h' b j = (if b = x \<and> j = i then Some w else get_level h b j))"
proof -
  from assms obtain n where n: "h x = Some n" "i < length (zn_level n)"
    by (auto simp: get_level_def bind_eq_Some_conv split: if_splits)
  let ?h = "h(x \<mapsto> n\<lparr>zn_level := (zn_level n)[i := w]\<rparr>)"
  have "set_level h x i w = Some ?h" using n by (simp add: set_level_def)
  moreover have "info ?h = info h" using n by (auto simp: info_def)
  moreover have "dom ?h = dom h" using n by auto
  moreover have "\<forall>b j. get_level ?h b j = (if b = x \<and> j = i then Some w else get_level h b j)"
    using n by (simp add: get_level_def)
  ultimately show ?thesis by metis
qed

lemma set_backward_spec:
  assumes "info h x = Some (e, s, b0, l)"
  shows "\<exists>h'. set_backward h x b = Some h' \<and> info h' = (info h)(x \<mapsto> (e, s, b, l)) \<and> dom h' = dom h \<and> get_level h' = get_level h"
proof -
  from assms obtain n where n: "h x = Some n" "zn_ele n = e" "zn_score n = s" "length (zn_level n) = l" by (auto simp: info_def)
  let ?h = "h(x \<mapsto> n\<lparr>zn_backward := b\<rparr>)"
  have "set_backward h x b = Some ?h" using n by (simp add: set_backward_def)
  moreover have "info ?h = (info h)(x \<mapsto> (e, s, b, l))" using n by (auto simp: info_def)
  moreover have "dom ?h = dom h" using n by auto
  moreover have "get_level ?h = get_level h" using n by (auto simp: get_level_def fun_eq_iff)
  ultimately show ?thesis by metis
qed

lemma info_Some: "info h x = Some (e, s, b, l) \<longleftrightarrow> (\<exists>n. h x = Some n \<and> zn_ele n = e \<and> zn_score n = s \<and> zn_backward n = b \<and> length (zn_level n) = l)"
  by (auto simp: info_def)

lemma info_dom: "info h x = None \<longleftrightarrow> x \<notin> dom h"
  by (auto simp: info_def)

lemma get_level_bound: "info h x = Some (e, s, b, l) \<Longrightarrow> get_level h x i \<noteq> None \<longleftrightarrow> i < l"
  by (auto simp: get_level_def info_def split: if_splits)

lemma raise_levels_spec:
  assumes "\<And>j. i \<le> j \<Longrightarrow> j < i + k \<Longrightarrow> \<exists>s. get_level h (z_header z) j = Some (F j, s)"
  shows "\<exists>h'. raise_levels h z i k = Some h' \<and> info h' = info h \<and> dom h' = dom h \<and>
    (\<forall>b j. get_level h' b j = (if b = z_header z \<and> i \<le> j \<and> j < i + k then Some (F j, of_nat (z_length z)) else get_level h b j))"
  using assms
proof (induction k arbitrary: h i)
  case (Suc k)
  from Suc.prems [of i] obtain s where s: "get_level h (z_header z) i = Some (F i, s)" by auto
  from set_level_spec [OF this, of "(F i, of_nat (z_length z))"] obtain h1 where
    h1: "set_level h (z_header z) i (F i, of_nat (z_length z)) = Some h1" "info h1 = info h" "dom h1 = dom h"
      "\<And>b j. get_level h1 b j = (if b = z_header z \<and> j = i then Some (F i, of_nat (z_length z)) else get_level h b j)" by metis
  have "\<exists>s. get_level h1 (z_header z) j = Some (F j, s)" if "Suc i \<le> j" "j < Suc i + k" for j
    using that Suc.prems [of j] h1(4) by auto
  from Suc.IH [of "Suc i" h1, OF this] obtain h' where
    h': "raise_levels h1 z (Suc i) k = Some h'" "info h' = info h1" "dom h' = dom h1"
      "\<And>b j. get_level h' b j = (if b = z_header z \<and> Suc i \<le> j \<and> j < Suc i + k then Some (F j, of_nat (z_length z)) else get_level h1 b j)" by blast
  have "raise_levels h z i (Suc k) = Some h'" using s h1(1) h'(1) by simp
  moreover have "\<forall>b j. get_level h' b j = (if b = z_header z \<and> i \<le> j \<and> j < i + Suc k then Some (F j, of_nat (z_length z)) else get_level h b j)"
    using h'(4) h1(4) by auto
  ultimately show ?case using h'(2,3) h1(2,3) by auto
qed auto

lemma link_levels_spec:
  assumes "i \<le> k" "\<And>j. i \<le> j \<Longrightarrow> j < k \<Longrightarrow> U j \<noteq> x \<and> get_level h (U j) j = Some (F j, S j) \<and> get_level h x j \<noteq> None"
  shows "\<exists>h'. link_levels h x rk i (map (\<lambda>j. (U j, R j)) [i..<k]) = Some h' \<and> info h' = info h \<and> dom h' = dom h \<and>
    (\<forall>b j. get_level h' b j = (if i \<le> j \<and> j < k then
        (if b = x then Some (F j, S j - (of_nat rk - of_nat (R j)))
         else if b = U j then Some (Some x, of_nat rk - of_nat (R j) + 1) else get_level h b j)
      else get_level h b j))"
  using assms
proof (induction "k - i" arbitrary: h i)
  case (Suc d)
  have ik: "i < k" using Suc.hyps(2) by simp
  let ?d = "of_nat rk - of_nat (R i) :: u32"
  have u: "U i \<noteq> x" "get_level h (U i) i = Some (F i, S i)" using Suc.prems(2) [of i] ik by auto
  obtain v where v: "get_level h x i = Some v" using Suc.prems(2) [of i] ik by auto
  from set_level_spec [OF v, of "(F i, S i - ?d)"] obtain h1 where
    h1: "set_level h x i (F i, S i - ?d) = Some h1" "info h1 = info h" "dom h1 = dom h"
      "\<And>b j. get_level h1 b j = (if b = x \<and> j = i then Some (F i, S i - ?d) else get_level h b j)" by metis
  have "get_level h1 (U i) i = Some (F i, S i)" using u h1(4) by simp
  from set_level_spec [OF this, of "(Some x, ?d + 1)"] obtain h2 where
    h2: "set_level h1 (U i) i (Some x, ?d + 1) = Some h2" "info h2 = info h1" "dom h2 = dom h1"
      "\<And>b j. get_level h2 b j = (if b = U i \<and> j = i then Some (Some x, ?d + 1) else get_level h1 b j)" by metis
  have "\<exists>h'. link_levels h2 x rk (Suc i) (map (\<lambda>j. (U j, R j)) [Suc i..<k]) = Some h' \<and> info h' = info h2 \<and> dom h' = dom h2 \<and>
    (\<forall>b j. get_level h' b j = (if Suc i \<le> j \<and> j < k then
        (if b = x then Some (F j, S j - (of_nat rk - of_nat (R j)))
         else if b = U j then Some (Some x, of_nat rk - of_nat (R j) + 1) else get_level h2 b j)
      else get_level h2 b j))"
    by (rule Suc.hyps(1)) (use Suc.hyps(2) Suc.prems h2(4) h1(4) in auto)
  then obtain h' where h': "link_levels h2 x rk (Suc i) (map (\<lambda>j. (U j, R j)) [Suc i..<k]) = Some h'" "info h' = info h2" "dom h' = dom h2"
    "\<And>b j. get_level h' b j = (if Suc i \<le> j \<and> j < k then
        (if b = x then Some (F j, S j - (of_nat rk - of_nat (R j)))
         else if b = U j then Some (Some x, of_nat rk - of_nat (R j) + 1) else get_level h2 b j)
      else get_level h2 b j)" by blast
  have "link_levels h x rk i (map (\<lambda>j. (U j, R j)) [i..<k]) = Some h'"
    using u h1(1) h2(1) h'(1) ik by (simp add: upt_rec [of i k] Let_def)
  moreover have "get_level h' b j = (if i \<le> j \<and> j < k then
        (if b = x then Some (F j, S j - (of_nat rk - of_nat (R j)))
         else if b = U j then Some (Some x, of_nat rk - of_nat (R j) + 1) else get_level h b j)
      else get_level h b j)" for b j
    using u(1) ik by (cases "j = i") (simp_all add: h'(4) h2(4) h1(4))
  ultimately show ?case using h'(2,3) h2(2,3) h1(2,3) by auto
qed auto

lemma bump_spans_spec:
  assumes "i \<le> k" "\<And>j. i \<le> j \<Longrightarrow> j < k \<Longrightarrow> get_level h (U j) j = Some (F j, S j)"
  shows "\<exists>h'. bump_spans h i (map (\<lambda>j. (U j, R j)) [i..<k]) = Some h' \<and> info h' = info h \<and> dom h' = dom h \<and>
    (\<forall>b j. get_level h' b j = (if i \<le> j \<and> j < k \<and> b = U j then Some (F j, S j + 1) else get_level h b j))"
  using assms
proof (induction "k - i" arbitrary: h i)
  case (Suc d)
  have ik: "i < k" using Suc.hyps(2) by simp
  have u: "get_level h (U i) i = Some (F i, S i)" using Suc.prems(2) [of i] ik by auto
  from set_level_spec [OF u, of "(F i, S i + 1)"] obtain h2 where
    h2: "set_level h (U i) i (F i, S i + 1) = Some h2" "info h2 = info h" "dom h2 = dom h"
      "\<And>b j. get_level h2 b j = (if b = U i \<and> j = i then Some (F i, S i + 1) else get_level h b j)" by metis
  have "\<exists>h'. bump_spans h2 (Suc i) (map (\<lambda>j. (U j, R j)) [Suc i..<k]) = Some h' \<and> info h' = info h2 \<and> dom h' = dom h2 \<and>
    (\<forall>b j. get_level h' b j = (if Suc i \<le> j \<and> j < k \<and> b = U j then Some (F j, S j + 1) else get_level h2 b j))"
    by (rule Suc.hyps(1)) (use Suc.hyps(2) Suc.prems h2(4) in auto)
  then obtain h' where h': "bump_spans h2 (Suc i) (map (\<lambda>j. (U j, R j)) [Suc i..<k]) = Some h'" "info h' = info h2" "dom h' = dom h2"
    "\<And>b j. get_level h' b j = (if Suc i \<le> j \<and> j < k \<and> b = U j then Some (F j, S j + 1) else get_level h2 b j)" by blast
  have "bump_spans h i (map (\<lambda>j. (U j, R j)) [i..<k]) = Some h'"
    using u h2(1) h'(1) ik by (simp add: upt_rec [of i k])
  moreover have "get_level h' b j = (if i \<le> j \<and> j < k \<and> b = U j then Some (F j, S j + 1) else get_level h b j)" for b j
    using ik by (cases "j = i") (simp_all add: h'(4) h2(4))
  ultimately show ?case using h'(2,3) h2(2,3) by auto
qed auto

lemma unlink_levels_spec:
  assumes "i \<le> k" "\<And>j. i \<le> j \<Longrightarrow> j < k \<Longrightarrow> U j \<noteq> x \<and> get_level h (U j) j = Some (F j, S j) \<and>
      (F j = Some x \<longrightarrow> get_level h x j = Some (FX j, SX j))"
  shows "\<exists>h'. unlink_levels h x i (map (\<lambda>j. (U j, R j)) [i..<k]) = Some h' \<and> info h' = info h \<and> dom h' = dom h \<and>
    (\<forall>b j. get_level h' b j = (if i \<le> j \<and> j < k \<and> b = U j then
        (if F j = Some x then Some (FX j, S j + (SX j - 1)) else Some (F j, S j - 1)) else get_level h b j))"
  using assms
proof (induction "k - i" arbitrary: h i)
  case (Suc d)
  have ik: "i < k" using Suc.hyps(2) by simp
  let ?w = "if F i = Some x then (FX i, S i + (SX i - 1)) else (F i, S i - 1)"
  have u: "U i \<noteq> x" "get_level h (U i) i = Some (F i, S i)" "F i = Some x \<Longrightarrow> get_level h x i = Some (FX i, SX i)"
    using Suc.prems(2) [of i] ik by auto
  from set_level_spec [OF u(2), of ?w] obtain h2 where
    h2: "set_level h (U i) i ?w = Some h2" "info h2 = info h" "dom h2 = dom h"
      "\<And>b j. get_level h2 b j = (if b = U i \<and> j = i then Some ?w else get_level h b j)" by metis
  have "\<exists>h'. unlink_levels h2 x (Suc i) (map (\<lambda>j. (U j, R j)) [Suc i..<k]) = Some h' \<and> info h' = info h2 \<and> dom h' = dom h2 \<and>
    (\<forall>b j. get_level h' b j = (if Suc i \<le> j \<and> j < k \<and> b = U j then
        (if F j = Some x then Some (FX j, S j + (SX j - 1)) else Some (F j, S j - 1)) else get_level h2 b j))"
    by (rule Suc.hyps(1)) (use Suc.hyps(2) Suc.prems h2(4) in auto)
  then obtain h' where h': "unlink_levels h2 x (Suc i) (map (\<lambda>j. (U j, R j)) [Suc i..<k]) = Some h'" "info h' = info h2" "dom h' = dom h2"
    "\<And>b j. get_level h' b j = (if Suc i \<le> j \<and> j < k \<and> b = U j then
        (if F j = Some x then Some (FX j, S j + (SX j - 1)) else Some (F j, S j - 1)) else get_level h2 b j)" by blast
  have "unlink_levels h x i (map (\<lambda>j. (U j, R j)) [i..<k]) = Some h'"
    using u h2(1) h'(1) ik by (cases "F i = Some x") (simp_all add: upt_rec [of i k])
  moreover have "get_level h' b j = (if i \<le> j \<and> j < k \<and> b = U j then
        (if F j = Some x then Some (FX j, S j + (SX j - 1)) else Some (F j, S j - 1)) else get_level h b j)" for b j
    using ik by (cases "j = i") (simp_all add: h'(4) h2(4))
  ultimately show ?case using h'(2,3) h2(2,3) by auto
qed auto


subsection \<open>Insertion keeps the list well-formed\<close>

lemma heights_okD:
  assumes "heights_ok L n H"
  shows "1 \<le> L" "L \<le> 32" "H 0 = 32" "\<And>p. n < p \<Longrightarrow> H p = 32" "\<And>p. 1 \<le> p \<Longrightarrow> p \<le> n \<Longrightarrow> 1 \<le> H p \<and> H p \<le> L" "H p \<le> 32"
proof -
  show "1 \<le> L" "L \<le> 32" "H 0 = 32" "\<And>p. n < p \<Longrightarrow> H p = 32" "\<And>p. 1 \<le> p \<Longrightarrow> p \<le> n \<Longrightarrow> 1 \<le> H p \<and> H p \<le> L"
    using assms by (auto simp: heights_ok_def)
  then show "H p \<le> 32" by (metis One_nat_def Suc_leI le_trans nle_le not_gr_zero not_le)
qed

lemma height_pos: "heights_ok L n H \<Longrightarrow> 0 < H p"
  using heights_okD(3-5) [of L n H] by (cases "p = 0"; cases "p \<le> n") (auto simp: Suc_le_eq)

lemma nxt_0:
  assumes "heights_ok L n H"
  shows "nxt H 0 p = Suc p"
proof -
  show ?thesis by (rule nxtI) (use height_pos [OF assms(1)] in auto)
qed

lemma levels_okD:
  "levels_ok h L n A H \<Longrightarrow> p \<le> n \<Longrightarrow> i < H p \<Longrightarrow> \<exists>s. get_level h (A p) i = Some (fwd n A H i p, s) \<and> (i < L \<longrightarrow> s = spn n H i p)"
  by (simp add: levels_ok_def)

lemma fwd_ins:
  assumes "nxt H i p = q" "nxt (ins_at m k H) i p' = Suc q" "m < q"
  shows "fwd (Suc n) (ins_at m x A) (ins_at m k H) i p' = fwd n A H i p"
  using assms by (simp add: fwd_def ins_at_def)

lemma spn_ins:
  assumes "nxt H i p = q" "nxt (ins_at m k H) i p' = Suc q"
  shows "spn (Suc n) (ins_at m k H) i p' = spn n H i p + 1 + of_nat p - of_nat p'"
proof -
  have "min (Suc q) (Suc n) = Suc (min q n)" by simp
  then show ?thesis unfolding spn_def assms by simp
qed

lemma levels_ok_ins:
  assumes lv: "levels_ok h L n A H" and ht: "heights_ok L n H" and inj: "inj_on A {0..n}" and x: "x \<notin> A ` {0..n}"
    and m: "m \<le> n" and k: "1 \<le> k" "k \<le> L"
    and g: "\<And>b j. get_level h' b j =
      (if j < k then
         (if b = x then Some (fwd n A H j (lst H j m), spn n H j (lst H j m) - (of_nat m - of_nat (lst H j m)))
          else if b = A (lst H j m) then Some (Some x, of_nat m - of_nat (lst H j m) + 1) else get_level h b j)
       else if j < L \<and> b = A (lst H j m) then Some (fwd n A H j (lst H j m), spn n H j (lst H j m) + 1)
       else get_level h b j)"
  shows "levels_ok h' L (Suc n) (ins_at m x A) (ins_at m k H)"
  unfolding levels_ok_def
proof (intro allI impI)
  fix p i assume p: "p \<le> Suc n" and i: "i < ins_at m k H p"
  let ?A = "ins_at m x A" and ?H = "ins_at m k H" and ?l = "lst H i m"
  note htD = heights_okD [OF ht]
  have i32: "i < 32"
  proof -
    have "ins_at m k H p \<le> 32" using htD(6) k htD(2) by (auto simp: ins_at_def)
    then show ?thesis using i by simp
  qed
  have H: "i < H 0" "i < H (Suc n)" using i32 htD(3,4) by simp_all
  have mn: "m < Suc n" using m by simp
  note l = lst_props [where H = H and m = m, OF H(1)] and nl = nxt_lst [where H = H, OF H(1) mn H(2)]
  have An: "A q \<noteq> x" if "q \<le> n" for q using x that by auto
  have Ai: "A q = A r \<longleftrightarrow> q = r" if "q \<le> n" "r \<le> n" for q r using inj that by (auto simp: inj_on_def)
  have ln: "?l \<le> n" using l(1) m by simp
  note last = nxt_ins_last [where H = H and k = k, OF H(1) mn H(2)] and new = nxt_ins_new [where H = H and k = k, OF H(1) mn H(2)]
  consider "p < ?l" "p \<le> m" | "p = ?l" | "p = Suc m" | r where "p = Suc r" "m < r" "r \<le> n"
  proof (cases "p \<le> m")
    case True
    then have "p \<le> ?l" using lst_ge [of i H p m] i H by (simp add: ins_at_def)
    then show ?thesis using that True by (cases "p = ?l") auto
  next
    case False
    then show ?thesis using that p by (cases p; cases "p = Suc m") auto
  qed
  then show "\<exists>s. get_level h' (?A p) i = Some (fwd (Suc n) ?A ?H i p, s) \<and> (i < L \<longrightarrow> s = spn (Suc n) ?H i p)"
  proof cases
    case 1
    have ip: "i < H p" using i 1 by (simp add: ins_at_def)
    from nxt_ins_before [where H = H and k = k, OF ip 1(1) H(1)] have nx: "nxt ?H i p = nxt H i p" "nxt H i p \<le> m" by auto
    have pn: "p \<le> n" using 1 m by simp
    have A: "?A p = A p" using 1 by (simp add: ins_at_def)
    have "get_level h' (A p) i = get_level h (A p) i" using 1 Ai [OF pn ln] An [OF pn] by (simp add: g)
    moreover have "fwd (Suc n) ?A ?H i p = fwd n A H i p" using nx m by (simp add: fwd_def ins_at_def)
    moreover have "spn (Suc n) ?H i p = spn n H i p" using nx m by (simp add: spn_def)
    ultimately show ?thesis using levels_okD [where H = H, OF lv pn ip] A by simp
  next
    case 2
    have A: "?A p = A ?l" using 2 l(1) by (simp add: ins_at_def)
    show ?thesis
    proof (cases "i < k")
      case True
      have "fwd (Suc n) ?A ?H i p = Some x" using last True 2 m by (simp add: fwd_def ins_at_def)
      moreover have "spn (Suc n) ?H i p = of_nat m - of_nat ?l + 1" using last True 2 m by (simp add: spn_def)
      ultimately show ?thesis using True A An [OF ln] by (simp add: g)
    next
      case False
      have nx: "nxt ?H i p = Suc (nxt H i ?l)" using last False 2 by simp
      have f: "fwd (Suc n) ?A ?H i p = fwd n A H i ?l" by (rule fwd_ins [OF refl nx nl])
      have s: "spn (Suc n) ?H i p = spn n H i ?l + 1" using spn_ins [OF refl nx] 2 by simp
      show ?thesis using levels_okD [where H = H, OF lv ln l(2)] False A f s by (auto simp: g)
    qed
  next
    case 3
    have ik: "i < k" using i 3 by (simp add: ins_at_def)
    have nx: "nxt ?H i p = Suc (nxt H i ?l)" using new 3 by simp
    have f: "fwd (Suc n) ?A ?H i p = fwd n A H i ?l" by (rule fwd_ins [OF refl nx nl])
    have s: "spn (Suc n) ?H i p = spn n H i ?l - (of_nat m - of_nat ?l)" using spn_ins [OF refl nx] 3 by simp
    have A: "?A p = x" using 3 by (simp add: ins_at_def)
    show ?thesis using ik f s A by (simp add: g)
  next
    case (4 r)
    have A: "?A p = A r" and ir: "i < H r" using 4 i by (auto simp: ins_at_def)
    have rn: "r < Suc n" using 4 by simp
    have nx: "nxt ?H i p = Suc (nxt H i r)" using nxt_ins_after [where H = H and k = k, OF 4(2) rn H(2)] 4 by simp
    have mr: "m < nxt H i r" using nxt_props(1) [where H = H, OF rn H(2)] 4 by simp
    have f: "fwd (Suc n) ?A ?H i p = fwd n A H i r" by (rule fwd_ins [OF refl nx mr])
    have s: "spn (Suc n) ?H i p = spn n H i r" using spn_ins [OF refl nx] 4 by simp
    have "get_level h' (A r) i = get_level h (A r) i" using 4 l(1) Ai [of r ?l] An [of r] ln by (simp add: g)
    then show ?thesis using levels_okD [where H = H, OF lv 4(3) ir] A f s by simp
  qed
qed


lemma lst_zero: "(\<And>p. 1 \<le> p \<Longrightarrow> p \<le> m \<Longrightarrow> \<not> i < H p) \<Longrightarrow> i < H 0 \<Longrightarrow> lst H i m = 0"
  using lst_props(1,2) [of i H m] by (metis One_nat_def Suc_leI not_gr_zero)

lemma raise_ok:
  assumes lv: "levels_ok h (z_level z) n A H" and ht: "heights_ok (z_level z) n H" and A0: "A 0 = z_header z" and len: "z_length z = n"
    and k: "k \<le> 32"
  shows "\<exists>h1. raise_levels h z (z_level z) (k - z_level z) = Some h1 \<and> info h1 = info h \<and> dom h1 = dom h \<and>
    levels_ok h1 (max (z_level z) k) n A H"
proof -
  let ?L = "z_level z"
  note htD = heights_okD [OF ht]
  have H0: "\<And>i. i < k \<Longrightarrow> i < H 0" using k htD(3) by simp
  have "\<exists>s. get_level h (z_header z) j = Some (fwd n A H j 0, s)" if "?L \<le> j" "j < ?L + (k - ?L)" for j
    using levels_okD [OF lv, of 0 j] that H0 A0 by auto
  from raise_levels_spec [OF this] obtain h1 where
    h1: "raise_levels h z ?L (k - ?L) = Some h1" "info h1 = info h" "dom h1 = dom h" and
    g: "\<And>b j. get_level h1 b j = (if b = z_header z \<and> ?L \<le> j \<and> j < ?L + (k - ?L) then Some (fwd n A H j 0, of_nat (z_length z)) else get_level h b j)"
    by blast
  have "levels_ok h1 (max ?L k) n A H" unfolding levels_ok_def
  proof (intro allI impI)
    fix p i assume p: "p \<le> n" "i < H p"
    show "\<exists>s. get_level h1 (A p) i = Some (fwd n A H i p, s) \<and> (i < max ?L k \<longrightarrow> s = spn n H i p)"
    proof (cases "?L \<le> i")
      case True
      then have p0: "p = 0" using p htD(5) [of p] by (cases p) auto
      have no: "\<not> i < H r" if "1 \<le> r" "r \<le> n" for r using htD(5) [OF that] True by simp
      have "nxt H i 0 = Suc n" by (rule nxtI) (use p p0 htD(3,4) no in auto)
      then have "spn n H i 0 = of_nat n" by (simp add: spn_def)
      then show ?thesis using levels_okD [where H = H, OF lv p] p0 True A0 len by (auto simp: g)
    next
      case False
      then show ?thesis using levels_okD [where H = H, OF lv p] by (auto simp: g)
    qed
  qed
  then show ?thesis using h1 by blast
qed

lemma link_ok:
  assumes lv: "levels_ok h L n A H" and ht: "heights_ok L n H" and inj: "inj_on A {0..n}" and x: "x \<notin> dom h" and dom: "A ` {0..n} \<subseteq> dom h"
    and m: "m \<le> n" and k: "1 \<le> k" "k \<le> L" and N: "length (zn_level N) = k"
  shows "\<exists>h3 h4. link_levels (h(x \<mapsto> N)) x m 0 (map (\<lambda>i. (A (lst H i m), lst H i m)) [0..<k]) = Some h3 \<and>
    bump_spans h3 k (map (\<lambda>i. (A (lst H i m), lst H i m)) [k..<L]) = Some h4 \<and>
    info h4 = (info h)(x \<mapsto> (zn_ele N, zn_score N, zn_backward N, k)) \<and> dom h4 = insert x (dom h) \<and>
    levels_ok h4 L (Suc n) (ins_at m x A) (ins_at m k H)"
proof -
  note htD = heights_okD [OF ht]
  let ?U = "\<lambda>i. A (lst H i m)" and ?R = "\<lambda>i. lst H i m"
  let ?F = "\<lambda>i. fwd n A H i (lst H i m)" and ?S = "\<lambda>i. spn n H i (lst H i m)"
  have xn: "x \<notin> A ` {0..n}" using x dom by auto
  have l: "?R j \<le> n \<and> j < H (?R j)" if "j < L" for j
    using lst_props [of j H m] that htD(2,3) m by auto
  have Ux: "?U j \<noteq> x" if "j < L" for j using l [OF that] xn by auto
  have gl: "get_level h (?U j) j = Some (?F j, ?S j)" if "j < L" for j
    using levels_okD [OF lv, of "?R j" j] l [OF that] that by auto
  let ?h2 = "h(x \<mapsto> N)"
  have g2: "get_level ?h2 b j = (if b = x then if j < k then Some (zn_level N ! j) else None else get_level h b j)" for b j
    using N by (simp add: get_level_def)
  have "h x = None" using x by (simp add: domIff)
  then have gx: "get_level h x j = None" for j by (simp add: get_level_def)
  have c: "?U j \<noteq> x \<and> get_level ?h2 (?U j) j = Some (?F j, ?S j) \<and> get_level ?h2 x j \<noteq> None" if "0 \<le> j" "j < k" for j
  proof -
    have "j < L" using that k by simp
    then show ?thesis using that Ux gl by (simp add: g2)
  qed
  from link_levels_spec [where rk = m and R = ?R, OF _ c] obtain h3 where
    h3: "link_levels ?h2 x m 0 (map (\<lambda>i. (?U i, ?R i)) [0..<k]) = Some h3" "info h3 = info ?h2" "dom h3 = dom ?h2" and
    g3: "\<And>b j. get_level h3 b j = (if 0 \<le> j \<and> j < k then
        (if b = x then Some (?F j, ?S j - (of_nat m - of_nat (?R j)))
         else if b = ?U j then Some (Some x, of_nat m - of_nat (?R j) + 1) else get_level ?h2 b j)
      else get_level ?h2 b j)"
    by blast
  have c3: "get_level h3 (?U j) j = Some (?F j, ?S j)" if "k \<le> j" "j < L" for j
    using that gl [OF that(2)] Ux [OF that(2)] by (simp add: g3 g2)
  from bump_spans_spec [where R = ?R, OF k(2) c3] obtain h4 where
    h4: "bump_spans h3 k (map (\<lambda>i. (?U i, ?R i)) [k..<L]) = Some h4" "info h4 = info h3" "dom h4 = dom h3" and
    g4: "\<And>b j. get_level h4 b j = (if k \<le> j \<and> j < L \<and> b = ?U j then Some (?F j, ?S j + 1) else get_level h3 b j)"
    by blast
  have "get_level h4 b j =
      (if j < k then
         (if b = x then Some (?F j, ?S j - (of_nat m - of_nat (?R j)))
          else if b = ?U j then Some (Some x, of_nat m - of_nat (?R j) + 1) else get_level h b j)
       else if j < L \<and> b = ?U j then Some (?F j, ?S j + 1)
       else get_level h b j)" for b j
    using Ux [of j] by (auto simp: g4 g3 g2 gx)
  from levels_ok_ins [OF lv ht inj xn m k this] have "levels_ok h4 L (Suc n) (ins_at m x A) (ins_at m k H)" .
  moreover have "info h4 = (info h)(x \<mapsto> (zn_ele N, zn_score N, zn_backward N, k))"
    using h4(2) h3(2) N by (auto simp: info_def)
  ultimately show ?thesis using h3 h4 by auto
qed


text \<open>The two backward pointers, and the tail.\<close>

lemma infos_ok_ins:
  assumes io: "infos_ok h n A K H" and inj: "inj_on A {0..n}" and x: "x \<notin> A ` {0..n}" and m: "m \<le> n"
    and i: "info h' = (\<lambda>b. if b = x then Some (Some (snd key), fst key, if m = 0 then None else Some (A m), k)
        else if m < n \<and> b = A (Suc m) then Some (Some (snd (K (Suc m))), fst (K (Suc m)), Some x, H (Suc m)) else info h b)"
  shows "infos_ok h' (Suc n) (ins_at m x A) (ins_at m key K) (ins_at m k H)"
  unfolding infos_ok_def
proof (intro conjI allI impI)
  have An: "A q \<noteq> x" if "q \<le> n" for q using x that by auto
  have Ai: "A q = A r \<longleftrightarrow> q = r" if "q \<le> n" "r \<le> n" for q r using inj that by (auto simp: inj_on_def)
  have "info h' (A 0) = info h (A 0)" using An [of 0] Ai [of 0 "Suc m"] by (auto simp: i)
  then show "\<exists>s b. info h' (ins_at m x A 0) = Some (None, s, b, 32)" using io by (simp add: infos_ok_def ins_at_def)
  fix p assume p: "1 \<le> p \<and> p \<le> Suc n"
  have io': "info h (A q) = Some (Some (snd (K q)), fst (K q), bwd A q, H q)" if "1 \<le> q" "q \<le> n" for q
    using io that by (simp add: infos_ok_def)
  consider "p \<le> m" | "p = Suc m" | "p = Suc (Suc m)" "m < n" | "Suc (Suc m) < p" using p by linarith
  then show "info h' (ins_at m x A p) =
      Some (Some (snd (ins_at m key K p)), fst (ins_at m key K p), bwd (ins_at m x A) p, ins_at m k H p)"
  proof cases
    case 1
    have pn: "p \<le> n" using 1 m by simp
    have "info h' (A p) = info h (A p)" using An [OF pn] Ai [OF pn, of "Suc m"] 1 by (auto simp: i)
    then show ?thesis using io' [of p] p pn 1 by (simp add: ins_at_def bwd_def)
  next
    case 2
    then show ?thesis by (simp add: i ins_at_def bwd_def)
  next
    case 3
    then show ?thesis using An [of "Suc m"] by (simp add: i ins_at_def bwd_def)
  next
    case 4
    have q: "1 \<le> p - 1" "p - 1 \<le> n" "p - 1 \<noteq> Suc m" "\<not> p \<le> m" "p \<noteq> Suc m" "p - 1 \<noteq> 1" "\<not> p - 1 \<le> m" using 4 p by linarith+
    have "info h' (A (p - 1)) = info h (A (p - 1))" using An [OF q(2)] Ai [OF q(2), of "Suc m"] q(3) by (auto simp: i)
    then show ?thesis using io' [OF q(1,2)] q 4 by (simp add: ins_at_def bwd_def)
  qed
qed

lemma ins_at_image: "m \<le> n \<Longrightarrow> ins_at m x A ` {0..Suc n} = insert x (A ` {0..n})"
proof -
  assume m: "m \<le> n"
  have "{0..Suc n} = {0..m} \<union> {Suc m} \<union> Suc ` {Suc m..n}"
    using m by (auto simp: image_iff Suc_le_eq intro: Suc_pred [symmetric])
  moreover have "ins_at m x A ` {0..m} = A ` {0..m}" by (rule image_cong) (auto simp: ins_at_def)
  moreover have "ins_at m x A ` Suc ` {Suc m..n} = A ` {Suc m..n}"
    unfolding image_image by (rule image_cong) (auto simp: ins_at_def)
  moreover have "{0..n} = {0..m} \<union> {Suc m..n}" using m by auto
  moreover have "ins_at m x A (Suc m) = x" by (simp add: ins_at_def)
  ultimately show ?thesis by (simp only: image_Un image_insert image_empty) blast
qed

lemma inj_ins_at: "m \<le> n \<Longrightarrow> inj_on A {0..n} \<Longrightarrow> x \<notin> A ` {0..n} \<Longrightarrow> inj_on (ins_at m x A) {0..Suc n}"
proof -
  assume m: "m \<le> n" and a: "inj_on A {0..n}" "x \<notin> A ` {0..n}"
  have "card (ins_at m x A ` {0..Suc n}) = Suc (card (A ` {0..n}))" using m a(2) by (simp add: ins_at_image)
  also have "\<dots> = card {0..Suc n}" using a(1) by (simp add: card_image)
  finally show ?thesis by (simp add: inj_on_iff_eq_card)
qed

lemma heights_ok_ins:
  "heights_ok L n H \<Longrightarrow> m \<le> n \<Longrightarrow> 1 \<le> k \<Longrightarrow> k \<le> 32 \<Longrightarrow> heights_ok (max L k) (Suc n) (ins_at m k H)"
proof -
  assume a: "heights_ok L n H" "m \<le> n" "1 \<le> k" "k \<le> 32"
  note htD = heights_okD [OF a(1)]
  have "1 \<le> ins_at m k H p \<and> ins_at m k H p \<le> max L k" if "1 \<le> p" "p \<le> Suc n" for p
  proof -
    consider "p \<le> m" | "p = Suc m" | "Suc m < p" by linarith
    then show ?thesis
      using htD(5) [of p] htD(5) [of "p - 1"] that a(2,3) by cases (auto simp: ins_at_def le_max_iff_disj)
  qed
  moreover have "ins_at m k H p = 32" if "Suc n < p" for p using htD(4) [of "p - 1"] a(2) that by (simp add: ins_at_def)
  moreover have "ins_at m k H 0 = 32" using htD(3) by (simp add: ins_at_def)
  ultimately show ?thesis using htD(1,2) a(3,4) unfolding heights_ok_def by simp
qed

lemma key_less_trans: "key_less a b \<Longrightarrow> key_less b c \<Longrightarrow> key_less a c"
  unfolding key_less_def by (auto intro: less_trans)

lemma key_less_linear: "key_less a b \<or> a = b \<or> key_less b a"
  unfolding key_less_def by (cases a; cases b) auto


lemma bwd_info:
  assumes io: "infos_ok h n A K H"
  shows "1 \<le> p \<Longrightarrow> p \<le> n \<Longrightarrow> \<exists>N. h (A p) = Some N \<and> zn_ele N = Some (snd (K p)) \<and> zn_score N = fst (K p) \<and> zn_backward N = bwd A p"
    and "\<exists>N. h (A 0) = Some N \<and> zn_ele N = None"
  using io by (auto simp: infos_ok_def info_def)

lemma cuts_key:
  assumes "infos_ok h n A K H" "m \<le> n" "\<And>q. 1 \<le> q \<Longrightarrow> q \<le> n \<Longrightarrow> key_less (K q) (score, ele) \<longleftrightarrow> q \<le> m"
  shows "cuts (\<lambda>_. node_before score ele) h n A m"
  unfolding cuts_def
proof (intro conjI allI impI)
  fix q assume q: "1 \<le> q \<and> q \<le> n"
  from bwd_info(1) [OF assms(1), of q] q obtain N where
    "h (A q) = Some N" "zn_ele N = Some (snd (K q))" "zn_score N = fst (K q)" by auto
  then show "\<exists>N. h (A q) = Some N \<and> (node_before score ele N \<longleftrightarrow> q \<le> m)"
    using assms(3) [of q] q by (auto simp: node_before_def key_less_def)
qed (rule assms)

lemma zinvD:
  assumes "zinv h z n A K H"
  shows "A 0 = z_header z" "inj_on A {0..n}" "dom h = A ` {0..n}" "z_length z = n"
    "z_tail z = (if n = 0 then None else Some (A n))" "heights_ok (z_level z) n H"
    "1 < z_level z \<Longrightarrow> \<exists>p. 1 \<le> p \<and> p \<le> n \<and> H p = z_level z"
    "\<And>p q. 1 \<le> p \<Longrightarrow> p < q \<Longrightarrow> q \<le> n \<Longrightarrow> key_less (K p) (K q)"
    "levels_ok h (z_level z) n A H" "infos_ok h n A K H"
  using assms by (auto simp: zinv_def)

lemma sorted_ins_at:
  assumes "\<And>p q. 1 \<le> p \<Longrightarrow> p < q \<Longrightarrow> q \<le> n \<Longrightarrow> key_less (K p) (K q)"
    and "\<And>q. 1 \<le> q \<Longrightarrow> q \<le> n \<Longrightarrow> key_less (K q) key \<longleftrightarrow> q \<le> m" "\<And>q. 1 \<le> q \<Longrightarrow> q \<le> n \<Longrightarrow> K q \<noteq> key" "m \<le> n"
    and pq: "1 \<le> p" "p < q" "q \<le> Suc n"
  shows "key_less (ins_at m key K p) (ins_at m key K q)"
proof -
  have gt: "key_less key (K q)" if "m < q" "q \<le> n" for q
    using that assms(2) [of q] assms(3) [of q] key_less_linear [of key "K q"] by auto
  consider "q \<le> m" | "q = Suc m" | "p \<le> m" "Suc m < q" | "p = Suc m" "Suc m < q" | "Suc m < p" using pq by linarith
  then show ?thesis
  proof cases
    case 3
    then show ?thesis using assms(1) [of p "q - 1"] pq by (simp add: ins_at_def)
  next
    case 5
    then show ?thesis using assms(1) [of "p - 1" "q - 1"] pq by (simp add: ins_at_def)
  qed (use assms(1) [of p q] assms(2) [of p] gt [of "q - 1"] pq assms(4) in \<open>auto simp: ins_at_def\<close>)
qed


lemma relink_next_spec:
  assumes io: "infos_ok h0 n A K H" and x: "x \<notin> A ` {0..n}" and i: "info h = (info h0)(x \<mapsto> v)"
  shows "\<exists>h'. relink_next h z (if m < n then Some (A (Suc m)) else None) x = Some (h', if m < n then z else z\<lparr>z_tail := Some x\<rparr>) \<and>
    dom h' = dom h \<and> get_level h' = get_level h \<and>
    info h' = (\<lambda>b. if b = x then Some v
        else if m < n \<and> b = A (Suc m) then Some (Some (snd (K (Suc m))), fst (K (Suc m)), Some x, H (Suc m)) else info h0 b)"
proof (cases "m < n")
  case True
  have ne: "A (Suc m) \<noteq> x" using x True by auto
  have "info h0 (A (Suc m)) = Some (Some (snd (K (Suc m))), fst (K (Suc m)), bwd A (Suc m), H (Suc m))"
    using io True by (simp add: infos_ok_def)
  then have "info h (A (Suc m)) = Some (Some (snd (K (Suc m))), fst (K (Suc m)), bwd A (Suc m), H (Suc m))"
    using ne i by simp
  from set_backward_spec [OF this, of "Some x"] obtain h' where
    "set_backward h (A (Suc m)) (Some x) = Some h'" "dom h' = dom h" "get_level h' = get_level h"
    "info h' = (info h)(A (Suc m) \<mapsto> (Some (snd (K (Suc m))), fst (K (Suc m)), Some x, H (Suc m)))" by blast
  then show ?thesis using True ne i by (intro exI [of _ h']) (auto simp: relink_next_def)
qed (use i in \<open>auto simp: relink_next_def\<close>)

lemma top_level_ins:
  assumes "1 < L \<Longrightarrow> \<exists>p. 1 \<le> p \<and> p \<le> n \<and> H p = L" "m \<le> n" "1 < max L k"
  shows "\<exists>p. 1 \<le> p \<and> p \<le> Suc n \<and> ins_at m k H p = max L k"
proof (cases "L \<le> k")
  case True
  then show ?thesis using assms(2) by (intro exI [of _ "Suc m"]) (simp add: ins_at_def max_def)
next
  case False
  then have "1 < L" using assms(3) by (simp add: max_def)
  from assms(1) [OF this] obtain p where "1 \<le> p" "p \<le> n" "H p = L" by blast
  then show ?thesis using False
    by (intro exI [of _ "if p \<le> m then p else Suc p"]) (auto simp: ins_at_def max_def)
qed

definition zalloc_fresh :: "(('s, 'e) zheap \<Rightarrow> nat) \<Rightarrow> bool" where
  "zalloc_fresh alloc \<longleftrightarrow> (\<forall>h. finite (dom h) \<longrightarrow> alloc h \<notin> dom h)"

lemma zslInsert_zinv:
  assumes inv: "zinv h z n A K H" and n: "n < 2 ^ 32" and k: "1 \<le> k" "k \<le> 32" and fresh: "zalloc_fresh alloc" and m: "m \<le> n"
    and cut: "\<And>q. 1 \<le> q \<Longrightarrow> q \<le> n \<Longrightarrow> key_less (K q) (score, ele) \<longleftrightarrow> q \<le> m"
    and new: "\<And>q. 1 \<le> q \<Longrightarrow> q \<le> n \<Longrightarrow> K q \<noteq> (score, ele)"
  shows "\<exists>h' z' x. zslInsert alloc junk k h z score ele = Some (h', z', x) \<and> z_header z' = z_header z \<and>
    zinv h' z' (Suc n) (ins_at m x A) (ins_at m (score, ele) K) (ins_at m k H)"
proof -
  let ?L = "z_level z" and ?f = "\<lambda>i. (A (lst H i m), lst H i m)"
  note D = zinvD [OF inv] and htD = heights_okD [OF zinvD(6) [OF inv]]
  let ?M = "max ?L k"
  have desc: "zsl_descend (\<lambda>_. node_before score ele) h ?L (z_header z) 0 [] = Some (map ?f [0..<?L])"
    using zsl_descend_spec [OF D(9,6) n cuts_key [OF D(10) m cut], of ?L 0 "[]"] htD(2,3) D(1) by simp
  obtain h1 where h1: "raise_levels h z ?L (k - ?L) = Some h1" "info h1 = info h" "dom h1 = dom h" "levels_ok h1 ?M n A H"
    using raise_ok [OF D(9,6,1,4) k(2)] by blast
  have "map ?f [?L..<?M] = replicate (k - ?L) (z_header z, 0)"
  proof -
    have "?f i = (z_header z, 0)" if "?L \<le> i" "i < ?M" for i
    proof -
      have "\<not> i < H p" if "1 \<le> p" "p \<le> m" for p using htD(5) [of p] that \<open>?L \<le> i\<close> m by simp
      moreover have "i < H 0" using that htD(2,3) k by simp
      ultimately have "lst H i m = 0" by (rule lst_zero)
      then show ?thesis using D(1) by simp
    qed
    then have "map ?f [?L..<?M] = map (\<lambda>_. (z_header z, 0)) [?L..<?M]" using D(1) by (intro map_cong refl) (simp del: max_less_iff_conj less_max_iff_disj)
    also have "\<dots> = replicate (?M - ?L) (z_header z, 0)" by (simp add: map_replicate_const)
    also have "?M - ?L = k - ?L" by simp
    finally show ?thesis .
  qed
  moreover have "[0..<?M] = [0..<?L] @ [?L..<?M]"
    by (metis le_add_diff_inverse max.cobounded1 upt_add_eq_append zero_le)
  ultimately have upd: "map ?f [0..<?L] @ replicate (k - ?L) (z_header z, 0) = map ?f [0..<?M]" by simp
  have hd: "hd (map ?f [0..<?M]) = (A m, m)"
  proof -
    have "lst H 0 m = m" by (rule lst_0) (rule height_pos [OF D(6)])
    then show ?thesis using htD(1) by (simp add: hd_map upt_rec [of 0])
  qed
  have tk: "take k (map ?f [0..<?M]) = map ?f [0..<k]" "drop k (map ?f [0..<?M]) = map ?f [k..<?M]"
    by (simp_all add: take_map drop_map)
  let ?x = "alloc h1" and ?N = "zslCreateNode k score (Some ele) junk"
  have x: "?x \<notin> dom h1" using fresh [unfolded zalloc_fresh_def, rule_format, of h1] h1(3) D(3) by simp
  have dom1: "A ` {0..n} \<subseteq> dom h1" using h1(3) D(3) by simp
  have ht1: "heights_ok ?M n H" using htD k unfolding heights_ok_def by (auto simp: le_max_iff_disj)
  obtain h3 h4 where h4: "link_levels (h1(?x \<mapsto> ?N)) ?x m 0 (map ?f [0..<k]) = Some h3" "bump_spans h3 k (map ?f [k..<?M]) = Some h4"
    "info h4 = (info h1)(?x \<mapsto> (Some ele, score, fst junk, k))" "dom h4 = insert ?x (dom h1)"
    "levels_ok h4 ?M (Suc n) (ins_at m ?x A) (ins_at m k H)"
    using link_ok [OF h1(4) ht1 D(2) x dom1 m k(1), of ?N] by (auto simp: zslCreateNode_def)
  let ?b = "if A m = z_header z then None else Some (A m)"
  have b: "?b = (if m = 0 then None else Some (A m))" using D(1,2) m by (auto simp: inj_on_def)
  obtain h5 where h5: "set_backward h4 ?x ?b = Some h5" "info h5 = (info h4)(?x \<mapsto> (Some ele, score, ?b, k))"
    "dom h5 = dom h4" "get_level h5 = get_level h4"
    using set_backward_spec [of h4 ?x "Some ele" score "fst junk" k ?b] h4(3) by auto
  have A0: "ins_at m ?x A (Suc m) = ?x" "ins_at m k H (Suc m) = k" by (simp_all add: ins_at_def)
  have "nxt (ins_at m k H) 0 (Suc m) = Suc (Suc m)"
    by (rule nxt_0 [OF heights_ok_ins [OF D(6) m k]])
  then have "fwd (Suc n) (ins_at m ?x A) (ins_at m k H) 0 (Suc m) = (if m < n then Some (A (Suc m)) else None)"
    by (simp add: fwd_def ins_at_def)
  then obtain s where s: "get_level h5 ?x 0 = Some (if m < n then Some (A (Suc m)) else None, s)"
    using levels_okD [OF h4(5), of "Suc m" 0] A0 m k(1) h5(4) by auto
  have xn: "?x \<notin> A ` {0..n}" using x dom1 by auto
  have io4: "infos_ok h n A K H" by (rule D(10))
  have i5: "info h5 = (info h)(?x \<mapsto> (Some ele, score, ?b, k))" using h5(2) h4(3) h1(2) by simp
  let ?z = "if k > ?L then z\<lparr>z_level := k\<rparr> else z"
  obtain h6 where h6: "relink_next h5 ?z (if m < n then Some (A (Suc m)) else None) ?x = Some (h6, if m < n then ?z else ?z\<lparr>z_tail := Some ?x\<rparr>)"
    "dom h6 = dom h5" "get_level h6 = get_level h5" and
    i6: "info h6 = (\<lambda>b. if b = ?x then Some (Some ele, score, ?b, k)
        else if m < n \<and> b = A (Suc m) then Some (Some (snd (K (Suc m))), fst (K (Suc m)), Some ?x, H (Suc m)) else info h b)"
    using relink_next_spec [OF D(10) xn i5, of ?z m] by blast
  define z' where "z' = (let z = (if m < n then ?z else ?z\<lparr>z_tail := Some ?x\<rparr>) in z\<lparr>z_length := z_length z + 1\<rparr>)"
  have zh: "z_header ?z = z_header z" by simp
  have run: "zslInsert alloc junk k h z score ele = Some (h6, z', ?x)"
    unfolding zslInsert_def
    by (simp only: desc h1(1) bind.bind_lunit Let_def upd hd prod.case tk h4(1,2) zh h5(1) s h6(1) z'_def)
  have infos: "infos_ok h6 (Suc n) (ins_at m ?x A) (ins_at m (score, ele) K) (ins_at m k H)"
    by (rule infos_ok_ins [OF D(10,2) xn m]) (simp only: i6 b fst_conv snd_conv)
  have lev: "levels_ok h6 (z_level z') (Suc n) (ins_at m ?x A) (ins_at m k H)"
    using h4(5) h6(3) h5(4) by (auto simp: levels_ok_def z'_def Let_def max_def split: if_splits)
  have zl: "z_level z' = ?M" "z_length z' = Suc n" "z_header z' = z_header z" using D(4) by (auto simp: z'_def Let_def max_def)
  have "zinv h6 z' (Suc n) (ins_at m ?x A) (ins_at m (score, ele) K) (ins_at m k H)"
    unfolding zinv_def
  proof (intro conjI allI impI)
    show "ins_at m ?x A 0 = z_header z'" using D(1) zl by (simp add: ins_at_def)
    show "inj_on (ins_at m ?x A) {0..Suc n}" by (rule inj_ins_at [OF m D(2) xn])
    show "dom h6 = ins_at m ?x A ` {0..Suc n}" by (simp only: ins_at_image [OF m] D(3) h1(3) h4(4) h5(3) h6(2))
    show "z_length z' = Suc n" by (rule zl)
    show "z_tail z' = (if Suc n = 0 then None else Some (ins_at m ?x A (Suc n)))"
      using D(5) m by (auto simp: z'_def Let_def ins_at_def)
    show "heights_ok (z_level z') (Suc n) (ins_at m k H)" using heights_ok_ins [OF D(6) m k] zl by simp
    show "\<exists>p. 1 \<le> p \<and> p \<le> Suc n \<and> ins_at m k H p = z_level z'" if "1 < z_level z'"
      using top_level_ins [OF D(7) m, of k] that zl by simp
    show "key_less (ins_at m (score, ele) K p) (ins_at m (score, ele) K q)" if "1 \<le> p \<and> p < q \<and> q \<le> Suc n" for p q
      by (rule sorted_ins_at [OF D(8) cut new m]) (use that in auto)
  qed (rule lev infos)+
  then show ?thesis using run zl by blast
qed


subsection \<open>Deletion keeps the list well-formed\<close>

lemma fwd_del:
  assumes "nxt H i p = Suc q" "nxt (del_at m H) i p' = q" "m < q" "1 \<le> n"
  shows "fwd (n - 1) (del_at m A) (del_at m H) i p' = fwd n A H i p"
  using assms by (auto simp: fwd_def del_at_def)

lemma spn_del:
  assumes "nxt H i p = Suc q" "nxt (del_at m H) i p' = q" "1 \<le> n"
  shows "spn (n - 1) (del_at m H) i p' = spn n H i p - 1 + of_nat p - of_nat p'"
proof -
  have "min (Suc q) n = Suc (min q (n - 1))" using assms(3) by simp
  then show ?thesis unfolding spn_def assms by simp
qed

lemma levels_ok_del:
  assumes lv: "levels_ok h L n A H" and ht: "heights_ok L n H" and inj: "inj_on A {0..n}" and m: "m < n"
    and g: "\<And>b j. b \<noteq> A (Suc m) \<Longrightarrow> get_level h' b j =
      (if j < L \<and> b = A (lst H j m) then
         (if j < H (Suc m) then Some (fwd n A H j (Suc m), spn n H j (lst H j m) + (spn n H j (Suc m) - 1))
          else Some (fwd n A H j (lst H j m), spn n H j (lst H j m) - 1))
       else get_level h b j)"
  shows "levels_ok h' L (n - 1) (del_at m A) (del_at m H)"
  unfolding levels_ok_def
proof (intro allI impI)
  fix p i assume p: "p \<le> n - 1" and i: "i < del_at m H p"
  let ?A = "del_at m A" and ?H = "del_at m H" and ?l = "lst H i m"
  note htD = heights_okD [OF ht]
  have i32: "i < 32"
  proof -
    have "del_at m H p \<le> 32" using htD(6) by (simp add: del_at_def)
    then show ?thesis using i by simp
  qed
  have H: "i < H 0" "i < H (Suc n)" using i32 htD(3,4) by simp_all
  have mn: "Suc m < Suc n" and n1: "1 \<le> n" using m by simp_all
  note l = lst_props [where H = H and m = m, OF H(1)]
  have Ai: "A q = A r \<longleftrightarrow> q = r" if "q \<le> n" "r \<le> n" for q r using inj that by (auto simp: inj_on_def)
  have ln: "?l \<le> n" using l(1) m by simp
  note last = nxt_del_last [where H = H, OF H(1) mn H(2)]
  consider "p < ?l" "p \<le> m" | "p = ?l" | "m < p" "Suc p \<le> n"
  proof (cases "p \<le> m")
    case True
    then have "p \<le> ?l" using lst_ge [of i H p m] i H by (simp add: del_at_def)
    then show ?thesis using that True by (cases "p = ?l") auto
  next
    case False
    then show ?thesis using that p n1 by linarith
  qed
  then show "\<exists>s. get_level h' (?A p) i = Some (fwd (n - 1) ?A ?H i p, s) \<and> (i < L \<longrightarrow> s = spn (n - 1) ?H i p)"
  proof cases
    case 1
    have ip: "i < H p" using i 1 by (simp add: del_at_def)
    from nxt_del_before [where H = H, OF ip 1(1) H(1)] have nx: "nxt ?H i p = nxt H i p" "nxt H i p \<le> m" by auto
    have pn: "p \<le> n" using 1 m by simp
    have A: "?A p = A p" "A p \<noteq> A (Suc m)" using 1 Ai [of p "Suc m"] m by (auto simp: del_at_def)
    have "get_level h' (A p) i = get_level h (A p) i" using 1 Ai [OF pn ln] A(2) by (simp add: g)
    moreover have "fwd (n - 1) ?A ?H i p = fwd n A H i p" using nx m by (simp add: fwd_def del_at_def)
    moreover have "spn (n - 1) ?H i p = spn n H i p" using nx m by (simp add: spn_def)
    ultimately show ?thesis using levels_okD [where H = H, OF lv pn ip] A by simp
  next
    case 2
    have A: "?A p = A ?l" "A ?l \<noteq> A (Suc m)" using 2 l(1) Ai [OF ln, of "Suc m"] m by (auto simp: del_at_def)
    show ?thesis
    proof (cases "i < H (Suc m)")
      case True
      note n2 = nxt_props [where H = H, OF mn H(2)]
      have iL: "i < L" using True htD(5) [of "Suc m"] m by simp
      have nx: "nxt H i (Suc m) = Suc (nxt H i (Suc m) - 1)" "nxt ?H i p = nxt H i (Suc m) - 1" "m < nxt H i (Suc m) - 1"
        using last True 2 n2(1) by auto
      have f: "fwd (n - 1) ?A ?H i p = fwd n A H i (Suc m)" by (rule fwd_del [OF nx n1])
      have "spn n H i ?l = of_nat (Suc m) - of_nat ?l" using last(2) True m by (simp add: spn_def)
      then have s: "spn (n - 1) ?H i p = spn n H i ?l + (spn n H i (Suc m) - 1)" using spn_del [OF nx(1,2) n1] 2 by simp
      show ?thesis using True iL A f s by (simp add: g)
    next
      case False
      have "m < nxt H i ?l" "nxt H i ?l \<noteq> Suc m" using nxt_lst [where H = H, OF H(1) _ H(2), of m] m last(2) False by auto
      then have nx: "nxt H i ?l = Suc (nxt H i ?l - 1)" "nxt ?H i p = nxt H i ?l - 1" "m < nxt H i ?l - 1"
        using last(1) False 2 by auto
      have f: "fwd (n - 1) ?A ?H i p = fwd n A H i ?l" by (rule fwd_del [OF nx n1])
      have s: "spn (n - 1) ?H i p = spn n H i ?l - 1" using spn_del [OF nx(1,2) n1] 2 by simp
      show ?thesis using levels_okD [where H = H, OF lv ln l(2)] False A f s by (auto simp: g)
    qed
  next
    case 3
    have A: "?A p = A (Suc p)" "A (Suc p) \<noteq> A (Suc m)" "A (Suc p) \<noteq> A ?l" and ir: "i < H (Suc p)"
      using 3 i Ai [of "Suc p" "Suc m"] Ai [of "Suc p" ?l] l(1) ln m by (auto simp: del_at_def)
    have pn: "Suc p < Suc n" using 3 by simp
    have nx: "nxt H i (Suc p) = Suc (nxt H i (Suc p) - 1)" "nxt ?H i p = nxt H i (Suc p) - 1" "m < nxt H i (Suc p) - 1"
      using nxt_del_after [where H = H, OF 3(1) pn H(2)] nxt_props(1) [where H = H, OF pn H(2)] 3 by auto
    have f: "fwd (n - 1) ?A ?H i p = fwd n A H i (Suc p)" by (rule fwd_del [OF nx n1])
    have s: "spn (n - 1) ?H i p = spn n H i (Suc p)" using spn_del [OF nx(1,2) n1] by simp
    have "get_level h' (A (Suc p)) i = get_level h (A (Suc p)) i" using A by (simp add: g)
    then show ?thesis using levels_okD [where H = H, OF lv 3(2) ir] A f s by simp
  qed
qed

lemma infos_ok_del:
  assumes io: "infos_ok h n A K H" and inj: "inj_on A {0..n}" and m: "m < n"
    and i: "\<And>b. b \<noteq> A (Suc m) \<Longrightarrow> info h' b = (if Suc m < n \<and> b = A (Suc (Suc m))
        then Some (Some (snd (K (Suc (Suc m)))), fst (K (Suc (Suc m))), bwd A (Suc m), H (Suc (Suc m))) else info h b)"
  shows "infos_ok h' (n - 1) (del_at m A) (del_at m K) (del_at m H)"
  unfolding infos_ok_def
proof (intro conjI allI impI)
  have Ai: "A q = A r \<longleftrightarrow> q = r" if "q \<le> n" "r \<le> n" for q r using inj that by (auto simp: inj_on_def)
  have "info h' (A 0) = info h (A 0)" using Ai [of 0 "Suc m"] Ai [of 0 "Suc (Suc m)"] m by (auto simp: i)
  then show "\<exists>s b. info h' (del_at m A 0) = Some (None, s, b, 32)" using io by (simp add: infos_ok_def del_at_def)
  fix p assume p: "1 \<le> p \<and> p \<le> n - 1"
  have io': "info h (A q) = Some (Some (snd (K q)), fst (K q), bwd A q, H q)" if "1 \<le> q" "q \<le> n" for q
    using io that by (simp add: infos_ok_def)
  consider "p \<le> m" | "p = Suc m" "Suc m < n" | "Suc m < p" using p by linarith
  then show "info h' (del_at m A p) =
      Some (Some (snd (del_at m K p)), fst (del_at m K p), bwd (del_at m A) p, del_at m H p)"
  proof cases
    case 1
    have "info h' (A p) = info h (A p)" using Ai [of p "Suc m"] Ai [of p "Suc (Suc m)"] 1 m by (auto simp: i)
    then show ?thesis using io' [of p] p 1 m by (auto simp: del_at_def bwd_def)
  next
    case 2
    then show ?thesis using Ai [of "Suc (Suc m)" "Suc m"] by (simp add: i del_at_def bwd_def)
  next
    case 3
    have pn: "Suc p \<le> n" using p 3 by linarith
    have "info h' (A (Suc p)) = info h (A (Suc p))"
      using Ai [OF pn, of "Suc m"] Ai [OF pn, of "Suc (Suc m)"] 3 m by (auto simp: i)
    then show ?thesis using io' [OF _ pn] 3 by (auto simp: del_at_def bwd_def)
  qed
qed


lemma del_at_image:
  assumes m: "m < n" and inj: "inj_on A {0..n}"
  shows "del_at m A ` {0..n - 1} = A ` {0..n} - {A (Suc m)}" "inj_on (del_at m A) {0..n - 1}"
proof -
  have "{0..n - 1} = {0..m} \<union> {Suc m..n - 1}" using m by auto
  moreover have "del_at m A ` {0..m} = A ` {0..m}" by (rule image_cong) (auto simp: del_at_def)
  moreover have "del_at m A ` {Suc m..n - 1} = A ` Suc ` {Suc m..n - 1}"
    unfolding image_image by (rule image_cong) (auto simp: del_at_def)
  moreover have "Suc ` {Suc m..n - 1} = {Suc (Suc m)..n}"
    using m by (cases n) simp_all
  ultimately have "del_at m A ` {0..n - 1} = A ` ({0..m} \<union> {Suc (Suc m)..n})" by (simp only: image_Un)
  also have "{0..m} \<union> {Suc (Suc m)..n} = {0..n} - {Suc m}" using m by auto
  also have "A ` ({0..n} - {Suc m}) = A ` {0..n} - {A (Suc m)}" using inj m by (subst inj_on_image_set_diff [OF inj]) auto
  finally show im: "del_at m A ` {0..n - 1} = A ` {0..n} - {A (Suc m)}" .
  have "card (del_at m A ` {0..n - 1}) = card (A ` {0..n}) - 1"
    unfolding im using m by (intro card_Diff_singleton) simp
  also have "\<dots> = card {0..n - 1}" using inj m by (simp add: card_image)
  finally show "inj_on (del_at m A) {0..n - 1}" by (simp add: inj_on_iff_eq_card)
qed

lemma heights_ok_del:
  assumes "heights_ok L n H" "m < n"
  shows "heights_ok L (n - 1) (del_at m H)"
proof -
  note htD = heights_okD [OF assms(1)]
  have "1 \<le> del_at m H p \<and> del_at m H p \<le> L" if "1 \<le> p" "p \<le> n - 1" for p
    using htD(5) [of p] htD(5) [of "Suc p"] that assms(2) by (auto simp: del_at_def)
  moreover have "del_at m H p = 32" if "n - 1 < p" for p using htD(4) [of "Suc p"] assms(2) that by (auto simp: del_at_def)
  moreover have "del_at m H 0 = 32" using htD(3) by (simp add: del_at_def)
  ultimately show ?thesis using htD(1,2) unfolding heights_ok_def by simp
qed

lemma lower_level_spec:
  assumes "\<And>i. i < 32 \<Longrightarrow> \<exists>s. get_level h a i = Some (fwd n A H i 0, s)" "heights_ok l n H"
  shows "\<exists>l'. lower_level h a l = Some l' \<and> l' \<le> l \<and> heights_ok l' n H \<and> (1 < l' \<longrightarrow> (\<exists>p. 1 \<le> p \<and> p \<le> n \<and> H p = l'))"
  using assms(2)
proof (induction l)
  case 0
  then show ?case using heights_okD(1) by fastforce
next
  case (Suc l)
  note htD = heights_okD [OF Suc.prems]
  obtain s where s: "get_level h a l = Some (fwd n A H l 0, s)" using assms(1) [of l] htD(2) by auto
  have q: "0 < Suc n" "l < H (Suc n)" using htD(2,4) by auto
  note nx = nxt_props [where H = H, OF q]
  show ?case
  proof (cases "Suc l > 1 \<and> fwd n A H l 0 = None")
    case True
    then have "n < nxt H l 0" by (simp add: fwd_def split: if_splits)
    then have "\<not> l < H p" if "1 \<le> p" "p \<le> n" for p using nx(4) [of p] that by simp
    then have "heights_ok l n H" using Suc.prems True unfolding heights_ok_def by (auto simp: not_less)
    from Suc.IH [OF this] obtain l' where "lower_level h a l = Some l'" "l' \<le> l" "heights_ok l' n H"
      "1 < l' \<longrightarrow> (\<exists>p. 1 \<le> p \<and> p \<le> n \<and> H p = l')" by blast
    then show ?thesis using True s by auto
  next
    case False
    have "\<exists>p. 1 \<le> p \<and> p \<le> n \<and> H p = Suc l" if "1 < Suc l"
    proof -
      have "nxt H l 0 \<le> n" using False that by (auto simp: fwd_def split: if_splits)
      then show ?thesis using nx(1,2) htD(5) [of "nxt H l 0"] by (intro exI [of _ "nxt H l 0"]) auto
    qed
    then show ?thesis using False s Suc.prems by auto
  qed
qed

lemma levels_ok_mono: "levels_ok h L n A H \<Longrightarrow> l \<le> L \<Longrightarrow> levels_ok h l n A H"
  unfolding levels_ok_def by (metis order.strict_trans2)

lemma lst_del_at: "lst (del_at m H) i m = lst H i m"
proof -
  have "(\<lambda>r. r \<le> m \<and> i < del_at m H r) = (\<lambda>r. r \<le> m \<and> i < H r)" by (auto simp: del_at_def)
  then show ?thesis by (simp add: lst_def)
qed


lemma unlink_ok:
  assumes lv: "levels_ok h L n A H" and ht: "heights_ok L n H" and inj: "inj_on A {0..n}" and m: "m < n"
  shows "\<exists>h1. unlink_levels h (A (Suc m)) 0 (map (\<lambda>i. (A (lst H i m), lst H i m)) [0..<L]) = Some h1 \<and> info h1 = info h \<and> dom h1 = dom h \<and>
    (\<forall>b j. get_level h1 b j =
      (if j < L \<and> b = A (lst H j m) then
         (if j < H (Suc m) then Some (fwd n A H j (Suc m), spn n H j (lst H j m) + (spn n H j (Suc m) - 1))
          else Some (fwd n A H j (lst H j m), spn n H j (lst H j m) - 1))
       else get_level h b j))"
proof -
  note htD = heights_okD [OF ht]
  let ?x = "A (Suc m)" and ?U = "\<lambda>i. A (lst H i m)" and ?R = "\<lambda>i. lst H i m"
  let ?F = "\<lambda>i. fwd n A H i (lst H i m)" and ?S = "\<lambda>i. spn n H i (lst H i m)"
  have Ai: "A q = A r \<longleftrightarrow> q = r" if "q \<le> n" "r \<le> n" for q r using inj that by (auto simp: inj_on_def)
  have l: "?R j \<le> m \<and> j < H (?R j)" if "j < L" for j
    using lst_props [of j H m] that htD(2,3) by auto
  have F: "?F j = Some ?x \<longleftrightarrow> j < H (Suc m)" if "j < L" for j
  proof -
    have H: "j < H 0" "j < H (Suc n)" "Suc m < Suc n" using that htD(2,3,4) m by simp_all
    have "j < H (Suc m) \<longleftrightarrow> nxt H j (?R j) = Suc m" by (rule nxt_del_last(2) [where H = H, OF H(1,3,2)])
    then show ?thesis using Ai [of "nxt H j (?R j)" "Suc m"] m by (auto simp: fwd_def)
  qed
  have c: "?U j \<noteq> ?x \<and> get_level h (?U j) j = Some (?F j, ?S j) \<and>
      (?F j = Some ?x \<longrightarrow> get_level h ?x j = Some (fwd n A H j (Suc m), spn n H j (Suc m)))" if "0 \<le> j" "j < L" for j
  proof (intro conjI impI)
    show "?U j \<noteq> ?x" using l [OF that(2)] Ai [of "?R j" "Suc m"] m by auto
    show "get_level h (?U j) j = Some (?F j, ?S j)" using levels_okD [OF lv, of "?R j" j] l [OF that(2)] that m by auto
    assume "?F j = Some ?x"
    then show "get_level h ?x j = Some (fwd n A H j (Suc m), spn n H j (Suc m))"
      using F [OF that(2)] levels_okD [OF lv, of "Suc m" j] m that by auto
  qed
  from unlink_levels_spec [where R = ?R, OF _ c] obtain h1 where
    "unlink_levels h ?x 0 (map (\<lambda>i. (?U i, ?R i)) [0..<L]) = Some h1" "info h1 = info h" "dom h1 = dom h" and
    g: "\<And>b j. get_level h1 b j = (if 0 \<le> j \<and> j < L \<and> b = ?U j then
        (if ?F j = Some ?x then Some (fwd n A H j (Suc m), ?S j + (spn n H j (Suc m) - 1)) else Some (?F j, ?S j - 1)) else get_level h b j)"
    by blast
  then show ?thesis using F by (intro exI [of _ h1]) auto
qed

lemma unlink_next_spec:
  assumes io: "infos_ok h0 n A K H" and i: "info h = info h0"
  shows "\<exists>h'. unlink_next h z (if Suc m < n then Some (A (Suc (Suc m))) else None) b0 = Some (h', if Suc m < n then z else z\<lparr>z_tail := b0\<rparr>) \<and>
    dom h' = dom h \<and> get_level h' = get_level h \<and>
    (\<forall>b. info h' b = (if Suc m < n \<and> b = A (Suc (Suc m))
       then Some (Some (snd (K (Suc (Suc m)))), fst (K (Suc (Suc m))), b0, H (Suc (Suc m))) else info h0 b))"
proof (cases "Suc m < n")
  case True
  then have "info h (A (Suc (Suc m))) = Some (Some (snd (K (Suc (Suc m)))), fst (K (Suc (Suc m))), bwd A (Suc (Suc m)), H (Suc (Suc m)))"
    using io i by (simp add: infos_ok_def)
  from set_backward_spec [OF this, of b0] obtain h' where
    "set_backward h (A (Suc (Suc m))) b0 = Some h'" "dom h' = dom h" "get_level h' = get_level h"
    "info h' = (info h)(A (Suc (Suc m)) \<mapsto> (Some (snd (K (Suc (Suc m)))), fst (K (Suc (Suc m))), b0, H (Suc (Suc m))))" by blast
  then show ?thesis using True i by (intro exI [of _ h']) (auto simp: unlink_next_def)
qed (use i in \<open>auto simp: unlink_next_def\<close>)

lemma zslDeleteNode_zinv:
  assumes inv: "zinv h z n A K H" and m: "m < n" and L: "z_level z \<le> L"
  shows "\<exists>h' z'. zslDeleteNode h z (A (Suc m)) (map (\<lambda>i. (A (lst H i m), lst H i m)) [0..<L]) = Some (h', z') \<and>
    z_header z' = z_header z \<and> z_level z' \<le> z_level z \<and>
    zinv (h'(A (Suc m) := None)) z' (n - 1) (del_at m A) (del_at m K) (del_at m H)"
proof -
  let ?x = "A (Suc m)" and ?f = "\<lambda>i. (A (lst H i m), lst H i m)"
  note D = zinvD [OF inv] and htD = heights_okD [OF zinvD(6) [OF inv]]
  have tk: "take (z_level z) (map ?f [0..<L]) = map ?f [0..<z_level z]" using L by (simp add: take_map)
  obtain h1 where h1: "unlink_levels h ?x 0 (map ?f [0..<z_level z]) = Some h1" "info h1 = info h" "dom h1 = dom h" and
    g1: "\<And>b j. get_level h1 b j =
      (if j < z_level z \<and> b = A (lst H j m) then
         (if j < H (Suc m) then Some (fwd n A H j (Suc m), spn n H j (lst H j m) + (spn n H j (Suc m) - 1))
          else Some (fwd n A H j (lst H j m), spn n H j (lst H j m) - 1))
       else get_level h b j)"
    using unlink_ok [OF D(9,6,2) m] by blast
  have Ai: "A q = A r \<longleftrightarrow> q = r" if "q \<le> n" "r \<le> n" for q r using D(2) that by (auto simp: inj_on_def)
  have ix: "info h1 ?x = Some (Some (snd (K (Suc m))), fst (K (Suc m)), bwd A (Suc m), H (Suc m))"
    using D(10) m h1(2) by (simp add: infos_ok_def)
  then obtain N where N: "h1 ?x = Some N" "zn_backward N = bwd A (Suc m)" by (auto simp: info_def)
  let ?fw = "if Suc m < n then Some (A (Suc (Suc m))) else None"
  have "A (lst H 0 m) \<noteq> ?x" using Ai [of m "Suc m"] m lst_0 [of m H] height_pos [OF D(6)] by simp
  then obtain s where s: "get_level h1 ?x 0 = Some (?fw, s)"
    using levels_okD [OF D(9), of "Suc m" 0] m height_pos [OF D(6), of "Suc m"] nxt_0 [OF D(6), of "Suc m"]
    by (auto simp: g1 fwd_def split: if_splits)
  define z1 where "z1 = (if Suc m < n then z else z\<lparr>z_tail := bwd A (Suc m)\<rparr>)"
  obtain h2 where h2: "unlink_next h1 z ?fw (zn_backward N) = Some (h2, z1)" "dom h2 = dom h1" "get_level h2 = get_level h1" and
    i2: "\<And>b. info h2 b = (if Suc m < n \<and> b = A (Suc (Suc m))
        then Some (Some (snd (K (Suc (Suc m)))), fst (K (Suc (Suc m))), bwd A (Suc m), H (Suc (Suc m))) else info h b)"
    using unlink_next_spec [OF D(10) h1(2), of z m "bwd A (Suc m)"] N(2) unfolding z1_def by metis
  let ?h = "h2(?x := None)"
  have gh: "get_level ?h b j = get_level h1 b j" and ih: "info ?h b = info h2 b" if "b \<noteq> ?x" for b j
    using that fun_cong [OF fun_cong [OF h2(3)], of b j] by (simp_all add: get_level_def info_def)
  have lv: "levels_ok ?h (z_level z) (n - 1) (del_at m A) (del_at m H)"
    by (rule levels_ok_del [OF D(9,6,2) m]) (simp add: gh g1)
  have io: "infos_ok ?h (n - 1) (del_at m A) (del_at m K) (del_at m H)"
    by (rule infos_ok_del [OF D(10,2) m]) (simp add: ih i2)
  note ht = heights_ok_del [OF D(6) m]
  have x0: "z_header z \<noteq> ?x" "del_at m A 0 = z_header z" using D(1) Ai [of 0 "Suc m"] m by (auto simp: del_at_def)
  have "\<exists>s. get_level h2 (z_header z) i = Some (fwd (n - 1) (del_at m A) (del_at m H) i 0, s)" if "i < 32" for i
    using levels_okD [OF lv, of 0 i] that heights_okD(3) [OF ht] x0 gh [OF x0(1), of i] h2(3) by auto
  from lower_level_spec [OF this ht] obtain l where l: "lower_level h2 (z_header z) (z_level z) = Some l" "l \<le> z_level z"
    "heights_ok l (n - 1) (del_at m H)" "1 < l \<longrightarrow> (\<exists>p. 1 \<le> p \<and> p \<le> n - 1 \<and> del_at m H p = l)" by blast
  have zz: "z_header z1 = z_header z" "z_level z1 = z_level z" "z_length z1 = z_length z" by (auto simp: z1_def)
  define z' where "z' = z1\<lparr>z_level := l, z_length := z_length z1 - 1\<rparr>"
  have run: "zslDeleteNode h z ?x (map ?f [0..<L]) = Some (h2, z')"
    unfolding zslDeleteNode_def by (simp only: tk h1(1) bind.bind_lunit N(1) s prod.case h2(1) zz l(1) z'_def)
  have "zinv ?h z' (n - 1) (del_at m A) (del_at m K) (del_at m H)"
    unfolding zinv_def
  proof (intro conjI allI impI)
    show "del_at m A 0 = z_header z'" using x0(2) zz(1) by (simp add: z'_def)
    show "inj_on (del_at m A) {0..n - 1}" by (rule del_at_image [OF m D(2)])
    show "dom ?h = del_at m A ` {0..n - 1}" using del_at_image(1) [OF m D(2)] h2(2) h1(3) D(3) by simp
    show "z_length z' = n - 1" using D(4) zz(3) by (simp add: z'_def)
    show "z_tail z' = (if n - 1 = 0 then None else Some (del_at m A (n - 1)))"
      using D(5) m by (cases "n = Suc m") (auto simp: z'_def z1_def del_at_def bwd_def)
    show "heights_ok (z_level z') (n - 1) (del_at m H)" using l(3) by (simp add: z'_def)
    show "\<exists>p. 1 \<le> p \<and> p \<le> n - 1 \<and> del_at m H p = z_level z'" if "1 < z_level z'"
      using l(4) that by (simp add: z'_def)
    show "key_less (del_at m K p) (del_at m K q)" if "1 \<le> p \<and> p < q \<and> q \<le> n - 1" for p q
      using D(8) [of p q] D(8) [of p "Suc q"] D(8) [of "Suc p" "Suc q"] that m by (auto simp: del_at_def)
    show "levels_ok ?h (z_level z') (n - 1) (del_at m A) (del_at m H)"
      using levels_ok_mono [OF lv l(2)] by (simp add: z'_def)
  qed (rule io)
  then show ?thesis using run zz l(2) by (intro exI [of _ h2] exI [of _ z']) (auto simp: z'_def)
qed

end
