(* ===== verification/Zskiplist_Refine.thy ===== *)
theory Zskiplist_Refine
  imports Zskiplist_Wf
begin

text \<open>
  Each operation of the skip list against a list of keys sorted by score and element, and the
  refinement for histories, an interpretation of the locale \<open>simulation\<close>.
\<close>

section \<open>Skip lists as sorted sequences\<close>

text \<open>The keys of the nodes from the first to the last one.\<close>

definition zrep :: "('s::linorder, 'e::linorder) zheap \<times> zskiplist \<Rightarrow> ('s \<times> 'e) list \<Rightarrow> bool" where
  "zrep st ks \<longleftrightarrow> length ks < 2 ^ 32 \<and> distinct (map snd ks) \<and>
     (\<exists>A H. zinv (fst st) (snd st) (length ks) A (\<lambda>p. ks ! (p - 1)) H)"

text \<open>Insertion into a sorted list.\<close>

fun zins :: "'s::linorder \<times> 'e::linorder \<Rightarrow> ('s \<times> 'e) list \<Rightarrow> ('s \<times> 'e) list" where
  "zins k [] = [k]"
| "zins k (x # xs) = (if key_less x k then x # zins k xs else k # x # xs)"

lemma zinv_cong:
  assumes "zinv h z n A K H" "\<And>p. 1 \<le> p \<Longrightarrow> p \<le> n \<Longrightarrow> K p = K' p"
  shows "zinv h z n A K' H"
proof -
  note D = zinvD [OF assms(1)]
  have "infos_ok h n A K' H" using D(10) assms(2) unfolding infos_ok_def by auto
  moreover have "key_less (K' p) (K' q)" if "1 \<le> p" "p < q" "q \<le> n" for p q
    using D(8) [OF that] assms(2) [of p] assms(2) [of q] that by simp
  ultimately show ?thesis using D unfolding zinv_def by simp
qed

lemma zinv_sorted:
  assumes "zinv h z (length ks) A (\<lambda>p. ks ! (p - 1)) H"
  shows "sorted_wrt key_less ks"
  unfolding sorted_wrt_iff_nth_less
proof (intro allI impI)
  fix i j assume "i < j" "j < length ks"
  then show "key_less (ks ! i) (ks ! j)" using zinvD(8) [OF assms, of "Suc i" "Suc j"] by simp
qed

lemma sorted_cut:
  assumes "sorted_wrt key_less xs" "\<And>x y. key_less x y \<Longrightarrow> P y \<Longrightarrow> P x"
  shows "i < length xs \<Longrightarrow> P (xs ! i) \<longleftrightarrow> i < length (takeWhile P xs)"
  using assms(1)
proof (induction xs arbitrary: i)
  case (Cons x xs)
  show ?case
  proof (cases "P x")
    case True
    then show ?thesis using Cons by (cases i) auto
  next
    case False
    have "\<not> P (xs ! j)" if "j < length xs" for j
      using Cons.prems(2) nth_mem [OF that] assms(2) [of x "xs ! j"] False by auto
    then show ?thesis using Cons.prems(1) False by (cases i) auto
  qed
qed simp

lemma zins_split: "zins k xs = takeWhile (\<lambda>x. key_less x k) xs @ k # dropWhile (\<lambda>x. key_less x k) xs"
  by (induction xs) auto

lemma length_zins [simp]: "length (zins k xs) = Suc (length xs)"
  by (induction xs) auto

lemma set_zins [simp]: "set (zins k xs) = insert k (set xs)"
  by (induction xs) auto

lemma distinct_zins: "distinct (map snd xs) \<Longrightarrow> snd k \<notin> snd ` set xs \<Longrightarrow> distinct (map snd (zins k xs))"
  by (induction xs) auto

lemma ins_at_nth:
  assumes "m \<le> length ks" "1 \<le> p" "p \<le> Suc (length ks)"
  shows "ins_at m k (\<lambda>p. ks ! (p - 1)) p = (take m ks @ k # drop m ks) ! (p - 1)"
proof -
  consider "p \<le> m" | "p = Suc m" | "Suc m < p" by linarith
  then show ?thesis
  proof cases
    case 3
    then obtain r where r: "p = Suc (Suc r)" "m \<le> r" by (metis Suc_less_eq2 less_Suc_eq_le less_imp_Suc_add)
    then show ?thesis using assms by (simp add: ins_at_def nth_append Suc_diff_le)
  qed (use assms in \<open>auto simp: ins_at_def nth_append\<close>)
qed

lemma del_at_nth:
  assumes "m < length ks" "1 \<le> p" "p \<le> length ks - 1"
  shows "del_at m (\<lambda>p. ks ! (p - 1)) p = (take m ks @ drop (Suc m) ks) ! (p - 1)"
  using assms by (auto simp: del_at_def nth_append)

lemma zslInsert_rep:
  assumes rep: "zrep (h, z) ks" and fresh: "zalloc_fresh alloc" and k: "1 \<le> k" "k \<le> 32"
    and new: "ele \<notin> snd ` set ks" and len: "length ks + 1 < 2 ^ 32"
  shows "\<exists>h' z' x. zslInsert alloc junk k h z score ele = Some (h', z', x) \<and> zrep (h', z') (zins (score, ele) ks)"
proof -
  from rep obtain A H where inv: "zinv h z (length ks) A (\<lambda>p. ks ! (p - 1)) H" and d: "distinct (map snd ks)" and n: "length ks < 2 ^ 32"
    by (auto simp: zrep_def)
  let ?P = "\<lambda>x. key_less x (score, ele)"
  define m where "m = length (takeWhile ?P ks)"
  have m: "m \<le> length ks" by (simp add: m_def length_takeWhile_le)
  have cut: "key_less (ks ! (q - 1)) (score, ele) \<longleftrightarrow> q \<le> m" if "1 \<le> q" "q \<le> length ks" for q
  proof -
    have "?P (ks ! (q - 1)) \<longleftrightarrow> q - 1 < m" unfolding m_def
      by (rule sorted_cut [OF zinv_sorted [OF inv]]) (use key_less_trans that in \<open>blast, simp\<close>)
    then show ?thesis using that by linarith
  qed
  have nn: "ks ! (q - 1) \<noteq> (score, ele)" if "1 \<le> q" "q \<le> length ks" for q
  proof -
    have "ks ! (q - 1) \<in> set ks" using that by simp
    then show ?thesis using new by (metis image_eqI snd_conv)
  qed
  have z: "zins (score, ele) ks = take m ks @ (score, ele) # drop m ks"
    unfolding zins_split m_def by (metis takeWhile_eq_take dropWhile_eq_drop)
  from zslInsert_zinv [where junk = junk, OF inv n k fresh m cut nn] obtain h' z' x where
    i: "zslInsert alloc junk k h z score ele = Some (h', z', x)"
      "zinv h' z' (Suc (length ks)) (ins_at m x A) (ins_at m (score, ele) (\<lambda>p. ks ! (p - 1))) (ins_at m k H)" by blast
  have "zinv h' z' (Suc (length ks)) (ins_at m x A) (\<lambda>p. zins (score, ele) ks ! (p - 1)) (ins_at m k H)"
    by (rule zinv_cong [OF i(2)]) (use ins_at_nth [OF m] z in simp)
  then have "zrep (h', z') (zins (score, ele) ks)"
    using distinct_zins [OF d] new len unfolding zrep_def by auto
  then show ?thesis using i(1) by blast
qed


lemma cuts_takeWhile:
  assumes io: "infos_ok h (length ks) A (\<lambda>p. ks ! (p - 1)) H" and srt: "sorted_wrt key_less ks"
    and down: "\<And>x y. key_less x y \<Longrightarrow> P' y \<Longrightarrow> P' x"
    and P: "\<And>t N k. zn_score N = fst k \<Longrightarrow> zn_ele N = Some (snd k) \<Longrightarrow> P t N \<longleftrightarrow> P' k"
  shows "cuts P h (length ks) A (length (takeWhile P' ks))"
  unfolding cuts_def
proof (intro conjI allI impI)
  fix q assume q: "1 \<le> q \<and> q \<le> length ks"
  from bwd_info(1) [OF io, of q] q obtain N where
    N: "h (A q) = Some N" "zn_ele N = Some (snd (ks ! (q - 1)))" "zn_score N = fst (ks ! (q - 1))" by auto
  have "P' (ks ! (q - 1)) \<longleftrightarrow> q - 1 < length (takeWhile P' ks)"
    by (rule sorted_cut [OF srt], erule (1) down) (use q in linarith)
  then have "P' (ks ! (q - 1)) \<longleftrightarrow> q \<le> length (takeWhile P' ks)" using q by linarith
  then show "\<exists>N. h (A q) = Some N \<and> (P q N \<longleftrightarrow> q \<le> length (takeWhile P' ks))" using N P by auto
qed (rule length_takeWhile_le)

lemma cuts_rank:
  assumes io: "infos_ok h n A K H"
  shows "cuts (\<lambda>t _. t \<le> r) h n A (min r n)" "cuts (\<lambda>t _. t < r) h n A (min (r - 1) n)"
  using bwd_info(1) [OF io] by (fastforce simp: cuts_def)+

lemma zdescend:
  assumes inv: "zinv h z n A K H" and n: "n < 2 ^ 32" and P: "cuts P h n A m"
  shows "\<exists>upd s. zsl_descend P h (z_level z) (z_header z) 0 [] = Some upd \<and>
    upd = map (\<lambda>i. (A (lst H i m), lst H i m)) [0..<z_level z] \<and> hd upd = (A m, m) \<and>
    get_level h (A m) 0 = Some (if m < n then Some (A (Suc m)) else None, s)"
proof -
  note D = zinvD [OF inv] and htD = heights_okD [OF zinvD(6) [OF inv]]
  let ?f = "\<lambda>i. (A (lst H i m), lst H i m)"
  have m: "m \<le> n" using P by (simp add: cuts_def)
  have "zsl_descend P h (z_level z) (z_header z) 0 [] = Some (map ?f [0..<z_level z])"
    using zsl_descend_spec [OF D(9,6) n P, of "z_level z" 0 "[]"] htD(2,3) D(1) by simp
  moreover have "lst H 0 m = m" by (rule lst_0) (rule height_pos [OF D(6)])
  then have "hd (map ?f [0..<z_level z]) = (A m, m)" using htD(1) by (simp add: hd_map upt_rec [of 0])
  moreover have "\<exists>s. get_level h (A m) 0 = Some (if m < n then Some (A (Suc m)) else None, s)"
    using levels_okD [OF D(9) m, of 0] height_pos [OF D(6), of m] nxt_0 [OF D(6), of m] by (auto simp: fwd_def)
  ultimately show ?thesis by blast
qed

lemma distinct_nth_snd: "distinct (map snd ks) \<Longrightarrow> distinct ks"
  by (simp add: distinct_map)

lemma remove1_nth: "distinct ks \<Longrightarrow> m < length ks \<Longrightarrow> remove1 (ks ! m) ks = take m ks @ drop (Suc m) ks"
proof -
  assume a: "distinct ks" "m < length ks"
  then have "ks = take m ks @ ks ! m # drop (Suc m) ks" by (simp add: id_take_nth_drop)
  moreover have "ks ! m \<notin> set (take m ks)" using a by (auto simp: in_set_conv_nth nth_eq_iff_index_eq)
  ultimately show ?thesis by (metis append_self_conv2 remove1.simps(2) remove1_append)
qed

lemma distinct_without: "distinct (map f xs) \<Longrightarrow> i \<le> j \<Longrightarrow> distinct (map f (take i xs @ drop j xs))"
  unfolding map_append take_map [symmetric] drop_map [symmetric] distinct_append
  by (simp add: set_take_disj_set_drop_if_distinct)

lemma zrep_drop:
  assumes "zinv h z (length ks - 1) A (del_at m (\<lambda>p. ks ! (p - 1))) H" "m < length ks"
  shows "zinv h z (length (take m ks @ drop (Suc m) ks)) A (\<lambda>p. (take m ks @ drop (Suc m) ks) ! (p - 1)) H"
proof -
  have "length (take m ks @ drop (Suc m) ks) = length ks - 1" using assms(2) by simp
  then show ?thesis using zinv_cong [OF assms(1) del_at_nth [OF assms(2)]] by simp
qed

lemma zrepI:
  "zinv h z (length ks) A (\<lambda>p. ks ! (p - 1)) H \<Longrightarrow> length ks < 2 ^ 32 \<Longrightarrow> distinct (map snd ks) \<Longrightarrow> zrep (h, z) ks"
  by (auto simp: zrep_def)

lemma zslDelete_rep:
  assumes rep: "zrep (h, z) ks"
  shows "\<exists>h' z'. zslDelete h z score ele = Some (h', z', (score, ele) \<in> set ks) \<and> zrep (h', z') (remove1 (score, ele) ks)"
proof -
  from rep obtain A H where inv: "zinv h z (length ks) A (\<lambda>p. ks ! (p - 1)) H" and d: "distinct (map snd ks)" and n: "length ks < 2 ^ 32"
    by (auto simp: zrep_def)
  note D = zinvD [OF inv] and srt = zinv_sorted [OF inv]
  let ?P = "\<lambda>x. key_less x (score, ele)" and ?k = "(score, ele)"
  define m where "m = length (takeWhile ?P ks)"
  have cut: "cuts (\<lambda>_. node_before score ele) h (length ks) A m"
    unfolding m_def by (rule cuts_takeWhile [OF D(10) srt]) (auto simp: node_before_def key_less_def)
  from zdescend [OF inv n cut] obtain upd s where
    u: "zsl_descend (\<lambda>_. node_before score ele) h (z_level z) (z_header z) 0 [] = Some upd"
      "upd = map (\<lambda>i. (A (lst H i m), lst H i m)) [0..<z_level z]" "hd upd = (A m, m)"
      "get_level h (A m) 0 = Some (if m < length ks then Some (A (Suc m)) else None, s)" by (elim exE conjE)
  have mem: "?k \<in> set ks \<longleftrightarrow> m < length ks \<and> ks ! m = ?k"
  proof
    assume "?k \<in> set ks"
    then obtain i where i: "i < length ks" "ks ! i = ?k" by (auto simp: in_set_conv_nth)
    have c: "?P (ks ! j) \<longleftrightarrow> j < m" if "j < length ks" for j unfolding m_def
      by (rule sorted_cut [OF srt _ that]) (blast intro: key_less_trans)
    have "\<not> i < m" using c [OF i(1)] i(2) by (simp add: key_less_def)
    moreover have "\<not> m < i"
    proof
      assume "m < i"
      then have "key_less (ks ! m) (ks ! i)" using srt i(1) by (simp add: sorted_wrt_iff_nth_less)
      then have "?P (ks ! m)" using i(2) by simp
      then show False using c [of m] \<open>m < i\<close> i(1) by simp
    qed
    ultimately show "m < length ks \<and> ks ! m = ?k" using i by (metis linorder_neqE_nat)
  qed (metis nth_mem)
  show ?thesis
  proof (cases "m < length ks")
    case False
    then have "zslDelete h z score ele = Some (h, z, False)" "?k \<notin> set ks" using u mem by (simp_all add: zslDelete_def)
    then show ?thesis using rep by (simp add: remove1_idem)
  next
    case True
    then obtain N where N: "h (A (Suc m)) = Some N" "zn_ele N = Some (snd (ks ! m))" "zn_score N = fst (ks ! m)"
      using bwd_info(1) [OF D(10), of "Suc m"] by auto
    show ?thesis
    proof (cases "ks ! m = ?k")
      case False
      then have "zslDelete h z score ele = Some (h, z, False)" "?k \<notin> set ks"
        using u mem True N by (auto simp: zslDelete_def prod_eq_iff)
      then show ?thesis using rep by (simp add: remove1_idem)
    next
      case k: True
      from zslDeleteNode_zinv [OF inv True order.refl] u(2) obtain h' z' where
        del: "zslDeleteNode h z (A (Suc m)) upd = Some (h', z')"
          "zinv (h'(A (Suc m) := None)) z' (length ks - 1) (del_at m A) (del_at m (\<lambda>p. ks ! (p - 1))) (del_at m H)" by blast
      have "remove1 ?k ks = take m ks @ drop (Suc m) ks" using remove1_nth [OF distinct_nth_snd [OF d] True] k by simp
      then have "zrep (h'(A (Suc m) := None), z') (remove1 ?k ks)"
        using zrepI [OF zrep_drop [OF del(2) True] _ distinct_without [OF d]] n by simp
      moreover have "zslDelete h z score ele = Some (h'(A (Suc m) := None), z', True)"
        using u N True k del(1) by (simp add: zslDelete_def)
      ultimately show ?thesis using mem True k by auto
    qed
  qed
qed


subsection \<open>Deletion of a range\<close>

text \<open>How many nodes the loop deletes.\<close>

fun del_count :: "(nat \<Rightarrow> 's \<times> 'e \<Rightarrow> bool) \<Rightarrow> nat \<Rightarrow> ('s \<times> 'e) list \<Rightarrow> nat" where
  "del_count Q t [] = 0"
| "del_count Q t (k # ks) = (if Q t k then Suc (del_count Q (Suc t) ks) else 0)"

lemma delete_range_rep:
  assumes Q: "\<And>t N k. zn_score N = fst k \<Longrightarrow> zn_ele N = Some (snd k) \<Longrightarrow> Q t N \<longleftrightarrow> Q' t k" and L: "L \<le> 32"
  shows "zinv h z (length ks) A (\<lambda>p. ks ! (p - 1)) H \<Longrightarrow> z_level z \<le> L \<Longrightarrow> m \<le> length ks \<Longrightarrow>
    length ks < 2 ^ 32 \<Longrightarrow> distinct (map snd ks) \<Longrightarrow> c = del_count Q' t (drop m ks) \<Longrightarrow>
    \<exists>h' z'. delete_range Q (map (\<lambda>i. (A (lst H i m), lst H i m)) [0..<L]) h z (if m < length ks then Some (A (Suc m)) else None) t removed =
      Some (h', z', removed @ map (Some \<circ> snd) (take c (drop m ks))) \<and> zrep (h', z') (take m ks @ drop (m + c) ks)"
proof (induction "length ks - m" arbitrary: h z ks A H t c removed)
  case 0
  then have "m = length ks" by simp
  then show ?case using zrepI [OF 0(2,5,6)] 0(7) by (subst delete_range.simps) auto
next
  case (Suc r)
  note inv = Suc.prems(1)
  have m: "m < length ks" using Suc.hyps(2) by simp
  note D = zinvD [OF inv]
  let ?upd = "map (\<lambda>i. (A (lst H i m), lst H i m)) [0..<L]" and ?k = "ks ! m" and ?x = "A (Suc m)"
  obtain N where N: "h ?x = Some N" "zn_ele N = Some (snd ?k)" "zn_score N = fst ?k"
    using bwd_info(1) [OF D(10), of "Suc m"] m by auto
  have dr: "drop m ks = ?k # drop (Suc m) ks" using m by (simp add: Cons_nth_drop_Suc)
  show ?case
  proof (cases "Q' t ?k")
    case False
    then have "\<not> Q t N" "c = 0" using Q [OF N(3,2)] Suc.prems(6) dr by auto
    then show ?thesis using m N(1) zrepI [OF inv Suc.prems(4,5)] by (subst delete_range.simps) auto
  next
    case True
    let ?ks = "take m ks @ drop (Suc m) ks"
    from zslDeleteNode_zinv [OF inv m Suc.prems(2)] obtain h' z' where
      del: "zslDeleteNode h z ?x ?upd = Some (h', z')" "z_level z' \<le> z_level z"
        "zinv (h'(?x := None)) z' (length ks - 1) (del_at m A) (del_at m (\<lambda>p. ks ! (p - 1))) (del_at m H)" by blast
    note inv' = zrep_drop [OF del(3) m]
    have "get_level h ?x 0 \<noteq> None \<and> fst (the (get_level h ?x 0)) = (if Suc m < length ks then Some (A (Suc (Suc m))) else None)"
      using levels_okD [OF D(9), of "Suc m" 0] m height_pos [OF D(6), of "Suc m"] nxt_0 [OF D(6), of "Suc m"] by (auto simp: fwd_def)
    then obtain s where s: "get_level h ?x 0 = Some (if Suc m < length ks then Some (A (Suc (Suc m))) else None, s)" by auto
    have nx: "(if Suc m < length ks then Some (A (Suc (Suc m))) else None) = (if m < length ?ks then Some (del_at m A (Suc m)) else None)"
      using m by (auto simp: del_at_def)
    have lm: "lst H i m \<le> m" if "i < L" for i using L lst_props(1) [of i H m] heights_okD(3) [OF D(6)] that by simp
    have up: "?upd = map (\<lambda>i. (del_at m A (lst (del_at m H) i m), lst (del_at m H) i m)) [0..<L]"
      unfolding lst_del_at using lm by (intro map_cong) (auto simp: del_at_def)
    define c' where "c' = del_count Q' (Suc t) (drop m ?ks)"
    have c: "c = Suc c'" using Suc.prems(6) True dr m by (simp add: c'_def)
    have "\<exists>h2 z2. delete_range Q ?upd (h'(?x := None)) z' (if m < length ?ks then Some (del_at m A (Suc m)) else None) (Suc t) (removed @ [zn_ele N]) =
        Some (h2, z2, (removed @ [zn_ele N]) @ map (Some \<circ> snd) (take c' (drop m ?ks))) \<and> zrep (h2, z2) (take m ?ks @ drop (m + c') ?ks)"
      unfolding up
      by (rule Suc.hyps(1) [OF _ inv' _ _ _ _ c'_def]) (use Suc.hyps(2) Suc.prems(2,4) m del(2) distinct_without [OF Suc.prems(5), of m "Suc m"] in auto)
    then obtain h2 z2 where 2: "delete_range Q ?upd (h'(?x := None)) z' (if m < length ?ks then Some (del_at m A (Suc m)) else None) (Suc t) (removed @ [zn_ele N]) =
        Some (h2, z2, (removed @ [zn_ele N]) @ map (Some \<circ> snd) (take c' (drop m ?ks)))" "zrep (h2, z2) (take m ?ks @ drop (m + c') ?ks)"
      by (elim exE conjE)
    have ks: "take m ?ks @ drop (m + c') ?ks = take m ks @ drop (m + c) ks" using m c by (simp add: add.commute)
    have rm: "(removed @ [zn_ele N]) @ map (Some \<circ> snd) (take c' (drop m ?ks)) = removed @ map (Some \<circ> snd) (take c (drop m ks))"
      using m c N dr by simp
    have "delete_range Q ?upd h z (if m < length ks then Some ?x else None) t removed =
        Some (h2, z2, removed @ map (Some \<circ> snd) (take c (drop m ks)))"
      using m N(1) True Q [OF N(3,2)] s del(1) 2(1) unfolding nx rm
      by (subst delete_range.simps) (simp del: append_assoc fun_upd_apply)
    then show ?thesis using 2(2) unfolding ks by blast
  qed
qed


abbreviation in_range :: "'s::linorder zrangespec \<Rightarrow> 's \<times> 'e \<Rightarrow> bool" where
  "in_range spec k \<equiv> zslValueGteMin (fst k) spec \<and> zslValueLteMax (fst k) spec"

lemma gte_min_up: "zslValueGteMin v spec \<Longrightarrow> v \<le> w \<Longrightarrow> zslValueGteMin w spec"
  by (auto simp: zslValueGteMin_def split: if_splits)

lemma lte_max_down: "zslValueLteMax w spec \<Longrightarrow> v \<le> w \<Longrightarrow> zslValueLteMax v spec"
  by (auto simp: zslValueLteMax_def split: if_splits)

lemma key_less_fst: "key_less x y \<Longrightarrow> fst x \<le> fst y"
  by (auto simp: key_less_def)

lemma sorted_filter:
  assumes "sorted_wrt key_less ks" "\<And>x y. key_less x y \<Longrightarrow> P y \<Longrightarrow> P x"
  shows "filter P ks = takeWhile P ks" "filter (\<lambda>x. \<not> P x) ks = dropWhile P ks"
proof -
  have "filter P ks = takeWhile P ks \<and> filter (\<lambda>x. \<not> P x) ks = dropWhile P ks"
    using assms(1)
  proof (induction ks)
    case (Cons x ks)
    show ?case
    proof (cases "P x")
      case False
      have "\<not> P y" if "y \<in> set ks" for y using Cons.prems assms(2) [of x y] that False by auto
      then show ?thesis using False by (simp add: filter_empty_conv)
    qed (use Cons in simp)
  qed simp
  then show "filter P ks = takeWhile P ks" "filter (\<lambda>x. \<not> P x) ks = dropWhile P ks" by blast+
qed

lemma del_count_takeWhile: "del_count (\<lambda>_. Q) t ks = length (takeWhile Q ks)"
  by (induction ks arbitrary: t) auto

lemma del_count_rank: "del_count (\<lambda>t _. t \<le> e) t ks = min (Suc e - t) (length ks)"
  by (induction ks arbitrary: t) auto

lemma range_split:
  fixes ks :: "('s::linorder \<times> 'e::linorder) list" and spec :: "'s zrangespec"
  assumes srt: "sorted_wrt key_less ks"
  defines "P \<equiv> \<lambda>k :: 's \<times> 'e. \<not> zslValueGteMin (fst k) spec" and "Q \<equiv> \<lambda>k :: 's \<times> 'e. zslValueLteMax (fst k) spec"
  shows "filter (in_range spec) ks = takeWhile Q (dropWhile P ks)"
    "filter (\<lambda>k. \<not> in_range spec k) ks = takeWhile P ks @ dropWhile Q (dropWhile P ks)"
proof -
  have Pd: "P x" if "key_less x y" "P y" for x y using that by (auto simp: P_def dest: key_less_fst gte_min_up)
  have P: "filter P ks = takeWhile P ks" "filter (\<lambda>k. \<not> P k) ks = dropWhile P ks"
    using sorted_filter [OF srt, of P] Pd by blast+
  have "sorted_wrt key_less (dropWhile P ks)" using sorted_wrt_filter [OF srt, of "\<lambda>k. \<not> P k"] P(2) by simp
  note Q = sorted_filter [OF this, of Q]
  have Qd: "Q x" if "key_less x y" "Q y" for x y using that by (auto simp: Q_def dest: key_less_fst lte_max_down)
  have "filter (in_range spec) ks = filter Q (filter (\<lambda>k. \<not> P k) ks)" by (simp add: P_def Q_def conj_commute)
  then show "filter (in_range spec) ks = takeWhile Q (dropWhile P ks)" using P(2) Q(1) [OF Qd] by simp
  have "filter (\<lambda>k. \<not> in_range spec k) (dropWhile P ks) = filter (\<lambda>k. \<not> Q k) (dropWhile P ks)"
  proof (rule filter_cong [OF refl])
    fix x assume "x \<in> set (dropWhile P ks)"
    then have "\<not> P x" unfolding P(2) [symmetric] by simp
    then show "\<not> in_range spec x \<longleftrightarrow> \<not> Q x" by (simp add: P_def Q_def)
  qed
  moreover have "filter (\<lambda>k. \<not> in_range spec k) (takeWhile P ks) = takeWhile P ks"
  proof (rule filter_True, rule ballI)
    fix x assume "x \<in> set (takeWhile P ks)"
    then have "P x" by (rule set_takeWhileD [THEN conjunct2])
    then show "\<not> in_range spec x" by (simp add: P_def)
  qed
  ultimately show "filter (\<lambda>k. \<not> in_range spec k) ks = takeWhile P ks @ dropWhile Q (dropWhile P ks)"
    using Q(2) [OF Qd] filter_append [of "\<lambda>k. \<not> in_range spec k" "takeWhile P ks" "dropWhile P ks"]
    unfolding takeWhile_dropWhile_id by simp
qed

lemma zslDeleteRangeByScore_rep:
  assumes rep: "zrep (h, z) ks"
  shows "\<exists>h' z'. zslDeleteRangeByScore h z spec = Some (h', z', map (Some \<circ> snd) (filter (in_range spec) ks)) \<and>
    zrep (h', z') (filter (\<lambda>k. \<not> in_range spec k) ks)"
proof -
  from rep obtain A H where inv: "zinv h z (length ks) A (\<lambda>p. ks ! (p - 1)) H" and d: "distinct (map snd ks)" and n: "length ks < 2 ^ 32"
    by (auto simp: zrep_def)
  note D = zinvD [OF inv] and srt = zinv_sorted [OF inv]
  let ?P = "\<lambda>k. \<not> zslValueGteMin (fst k) spec" and ?Q = "\<lambda>k. zslValueLteMax (fst k) spec"
  define m where "m = length (takeWhile ?P ks)"
  let ?W = "\<lambda>(_::nat) n. if r_minex spec then zn_score n \<le> r_min spec else zn_score n < r_min spec"
  let ?V = "\<lambda>(_::nat) n. if r_maxex spec then zn_score n < r_max spec else zn_score n \<le> r_max spec"
  have cut: "cuts ?W h (length ks) A m"
    unfolding m_def by (rule cuts_takeWhile [OF D(10) srt]) (auto simp: zslValueGteMin_def dest: key_less_fst)
  from zdescend [OF inv n cut] obtain upd s where
    u: "zsl_descend ?W h (z_level z) (z_header z) 0 [] = Some upd"
      "upd = map (\<lambda>i. (A (lst H i m), lst H i m)) [0..<z_level z]" "hd upd = (A m, m)"
      "get_level h (A m) 0 = Some (if m < length ks then Some (A (Suc m)) else None, s)" by (elim exE conjE)
  have m: "m \<le> length ks" by (simp add: m_def length_takeWhile_le)
  let ?c = "del_count (\<lambda>_. ?Q) 0 (drop m ks)"
  have Q: "?V t N \<longleftrightarrow> ?Q k" if "zn_score N = fst k" "zn_ele N = Some (snd k)" for t N k
    using that by (simp add: zslValueLteMax_def)
  from delete_range_rep [where t = 0 and removed = "[]" and Q = ?V and Q' = "\<lambda>_. ?Q", OF Q heights_okD(2) [OF D(6)] inv order.refl m n d refl] u(2) obtain h' z' where
    r: "delete_range ?V upd h z (if m < length ks then Some (A (Suc m)) else None) 0 [] =
      Some (h', z', [] @ map (Some \<circ> snd) (take ?c (drop m ks)))" "zrep (h', z') (take m ks @ drop (m + ?c) ks)" by blast
  have "take m ks = takeWhile ?P ks" "drop m ks = dropWhile ?P ks" unfolding m_def by (metis takeWhile_eq_take, metis dropWhile_eq_drop)
  moreover have "take ?c (drop m ks) = takeWhile ?Q (drop m ks)" "drop (m + ?c) ks = dropWhile ?Q (drop m ks)"
    unfolding del_count_takeWhile add.commute [of m] drop_drop [symmetric] by (metis takeWhile_eq_take, metis dropWhile_eq_drop)
  ultimately have "zrep (h', z') (filter (\<lambda>k. \<not> in_range spec k) ks)" "take ?c (drop m ks) = filter (in_range spec) ks"
    using r(2) unfolding range_split [OF srt] by simp_all
  moreover have "zslDeleteRangeByScore h z spec = Some (h', z', map (Some \<circ> snd) (take ?c (drop m ks)))"
    unfolding zslDeleteRangeByScore_def by (simp only: u(1) bind.bind_lunit u(3) fst_conv u(4) prod.case r(1) append_Nil)
  ultimately show ?thesis by simp
qed


lemma zslDeleteRangeByRank_rep:
  assumes rep: "zrep (h, z) ks"
  shows "\<exists>h' z'. zslDeleteRangeByRank h z start end' = Some (h', z', map (Some \<circ> snd) (drop (start - 1) (take end' ks))) \<and>
    zrep (h', z') (take (start - 1) ks @ drop (max (start - 1) end') ks)"
proof -
  from rep obtain A H where inv: "zinv h z (length ks) A (\<lambda>p. ks ! (p - 1)) H" and d: "distinct (map snd ks)" and n: "length ks < 2 ^ 32"
    by (auto simp: zrep_def)
  note D = zinvD [OF inv]
  define m where "m = min (start - 1) (length ks)"
  from zdescend [OF inv n cuts_rank(2) [OF D(10), of start, folded m_def]] obtain upd s where
    u: "zsl_descend (\<lambda>t _. t < start) h (z_level z) (z_header z) 0 [] = Some upd"
      "upd = map (\<lambda>i. (A (lst H i m), lst H i m)) [0..<z_level z]" "hd upd = (A m, m)"
      "get_level h (A m) 0 = Some (if m < length ks then Some (A (Suc m)) else None, s)" by (elim exE conjE)
  have m: "m \<le> length ks" by (simp add: m_def)
  let ?c = "del_count (\<lambda>t _. t \<le> end') (m + 1) (drop m ks)"
  from delete_range_rep [where t = "m + 1" and removed = "[]" and Q = "\<lambda>t _. t \<le> end'" and Q' = "\<lambda>t _. t \<le> end'", OF refl heights_okD(2) [OF D(6)] inv order.refl m n d refl] u(2) obtain h' z' where
    r: "delete_range (\<lambda>t _. t \<le> end') upd h z (if m < length ks then Some (A (Suc m)) else None) (m + 1) [] =
      Some (h', z', [] @ map (Some \<circ> snd) (take ?c (drop m ks)))" "zrep (h', z') (take m ks @ drop (m + ?c) ks)" by blast
  have c: "?c = min (end' - m) (length ks - m)" by (simp add: del_count_rank)
  have "take ?c (drop m ks) = drop m (take end' ks)" unfolding c by (simp add: drop_take min_def)
  also have "\<dots> = drop (start - 1) (take end' ks)" by (simp add: m_def min_def)
  finally have tk: "take ?c (drop m ks) = drop (start - 1) (take end' ks)" .
  have "drop (m + ?c) ks = drop (max (start - 1) end') ks"
  proof (cases "start - 1 \<le> length ks")
    case True
    then have "m = start - 1" by (simp add: m_def)
    then have "m + ?c = min (max (start - 1) end') (length ks)" unfolding c min_def max_def using True by auto
    then show ?thesis by (auto simp: min_def le_max_iff_disj)
  qed (simp add: c m_def)
  moreover have "take m ks = take (start - 1) ks" by (simp add: m_def min_def)
  ultimately have "zrep (h', z') (take (start - 1) ks @ drop (max (start - 1) end') ks)" using r(2) by simp
  moreover have "zslDeleteRangeByRank h z start end' = Some (h', z', map (Some \<circ> snd) (drop (start - 1) (take end' ks)))"
    unfolding zslDeleteRangeByRank_def
    by (simp only: u(1) bind.bind_lunit u(3) fst_conv snd_conv u(4) prod.case r(1) append_Nil tk)
  ultimately show ?thesis by blast
qed


subsection \<open>Lookups\<close>

text \<open>What a node holds.\<close>

definition node_key :: "('s, 'e) zheap \<Rightarrow> nat option \<Rightarrow> ('s \<times> 'e option) option" where
  "node_key h x = do { a \<leftarrow> x; n \<leftarrow> h a; Some (zn_score n, zn_ele n) }"

definition zset_in_range :: "'s::linorder zrangespec \<Rightarrow> ('s \<times> 'e) list \<Rightarrow> bool" where
  "zset_in_range spec ks \<longleftrightarrow>
     \<not> (r_min spec > r_max spec \<or> r_min spec = r_max spec \<and> (r_minex spec \<or> r_maxex spec)) \<and> ks \<noteq> [] \<and>
     zslValueGteMin (fst (last ks)) spec \<and> zslValueLteMax (fst (hd ks)) spec"

lemma node_key_A:
  assumes "infos_ok h (length ks) A (\<lambda>p. ks ! (p - 1)) H" "m < length ks"
  shows "node_key h (Some (A (Suc m))) = Some (fst (ks ! m), Some (snd (ks ! m)))"
  using bwd_info(1) [OF assms(1), of "Suc m"] assms(2) by (auto simp: node_key_def)

lemma zslIsInRange_rep:
  assumes rep: "zrep (h, z) ks"
  shows "zslIsInRange h z spec = Some (zset_in_range spec ks)"
proof -
  from rep obtain A H where inv: "zinv h z (length ks) A (\<lambda>p. ks ! (p - 1)) H" by (auto simp: zrep_def)
  note D = zinvD [OF inv]
  show ?thesis
  proof (cases "ks = []")
    case True
    then show ?thesis using D(5) by (simp add: zslIsInRange_def zset_in_range_def)
  next
    case False
    obtain s where s: "get_level h (z_header z) 0 = Some (Some (A 1), s)"
      using levels_okD [OF D(9), of 0 0] height_pos [OF D(6), of 0] nxt_0 [OF D(6), of 0] False D(1) by (auto simp: fwd_def Suc_le_eq)
    obtain N where N: "h (A (length ks)) = Some N" "zn_score N = fst (last ks)"
      using bwd_info(1) [OF D(10), of "length ks"] False by (auto simp: Suc_le_eq last_conv_nth)
    obtain M where M: "h (A 1) = Some M" "zn_score M = fst (hd ks)"
      using bwd_info(1) [OF D(10), of 1] False by (auto simp: Suc_le_eq hd_conv_nth)
    have "z_tail z = Some (A (length ks))" using D(5) False by simp
    then show ?thesis using N M s False by (simp add: zslIsInRange_def zset_in_range_def)
  qed
qed

lemma no_range:
  assumes "sorted_wrt key_less ks" "\<not> zset_in_range spec ks" "k \<in> set ks"
  shows "\<not> in_range spec k"
proof
  assume r: "in_range spec k"
  have ne: "ks \<noteq> []" using assms(3) by auto
  have "fst (hd ks) \<le> fst k" "fst k \<le> fst (last ks)"
  proof -
    from assms(3) obtain i where i: "i < length ks" "ks ! i = k" by (auto simp: in_set_conv_nth)
    have "key_less (ks ! 0) k" if "0 < i" using assms(1) i that by (auto simp: sorted_wrt_iff_nth_less)
    then show "fst (hd ks) \<le> fst k" using i ne by (cases "i = 0") (auto simp: hd_conv_nth dest: key_less_fst)
    have "key_less k (ks ! (length ks - 1))" if "i < length ks - 1" using assms(1) i that by (auto simp: sorted_wrt_iff_nth_less)
    moreover have "i < length ks - 1 \<or> i = length ks - 1" using i(1) by linarith
    ultimately show "fst k \<le> fst (last ks)" using i(2) ne by (auto simp: last_conv_nth dest: key_less_fst)
  qed
  moreover have "\<not> (r_min spec > r_max spec \<or> r_min spec = r_max spec \<and> (r_minex spec \<or> r_maxex spec))"
    using r by (auto simp: zslValueGteMin_def zslValueLteMax_def split: if_splits)
  ultimately show False using r assms(2) ne gte_min_up lte_max_down unfolding zset_in_range_def by blast
qed


lemma zslFirstInRange_rep:
  assumes rep: "zrep (h, z) ks"
  shows "\<exists>x. zslFirstInRange h z spec = Some x \<and>
    node_key h x = map_option (\<lambda>k. (fst k, Some (snd k))) (List.find (in_range spec) ks)"
proof (cases "zset_in_range spec ks")
  case True
  from rep obtain A H where inv: "zinv h z (length ks) A (\<lambda>p. ks ! (p - 1)) H" and n: "length ks < 2 ^ 32" by (auto simp: zrep_def)
  note D = zinvD [OF inv] and srt = zinv_sorted [OF inv]
  let ?P = "\<lambda>k. \<not> zslValueGteMin (fst k) spec"
  define m where "m = length (takeWhile ?P ks)"
  have cut: "cuts (\<lambda>_ N. \<not> zslValueGteMin (zn_score N) spec) h (length ks) A m"
    unfolding m_def by (rule cuts_takeWhile [OF D(10) srt]) (auto dest: key_less_fst gte_min_up)
  from zdescend [OF inv n cut] obtain upd s where
    u: "zsl_descend (\<lambda>_ N. \<not> zslValueGteMin (zn_score N) spec) h (z_level z) (z_header z) 0 [] = Some upd"
      "hd upd = (A m, m)" "get_level h (A m) 0 = Some (if m < length ks then Some (A (Suc m)) else None, s)" by (elim exE conjE)
  have m: "m < length ks"
  proof -
    have "last ks \<in> set ks" "\<not> ?P (last ks)" using True by (auto simp: zset_in_range_def)
    then have "takeWhile ?P ks \<noteq> ks" using takeWhile_eq_all_conv by metis
    then show ?thesis by (metis m_def length_takeWhile_le le_neq_implies_less takeWhile_eq_take take_all order.refl)
  qed
  obtain N where N: "h (A (Suc m)) = Some N" "zn_score N = fst (ks ! m)"
    using bwd_info(1) [OF D(10), of "Suc m"] m by auto
  have dr: "dropWhile ?P ks = ks ! m # drop (Suc m) ks"
    using m by (metis Cons_nth_drop_Suc dropWhile_eq_drop m_def)
  let ?x = "if zslValueLteMax (fst (ks ! m)) spec then Some (A (Suc m)) else None"
  have run: "zslFirstInRange h z spec = Some ?x"
    using zslIsInRange_rep [OF rep, of spec] True m N u by (simp add: zslFirstInRange_def)
  have "List.find (in_range spec) ks = (if zslValueLteMax (fst (ks ! m)) spec then Some (ks ! m) else None)"
  proof -
    have "filter (in_range spec) ks = takeWhile (\<lambda>k. zslValueLteMax (fst k) spec) (ks ! m # drop (Suc m) ks)"
      using range_split(1) [OF srt, of spec] dr by simp
    moreover have "List.find P xs = (case filter P xs of [] \<Rightarrow> None | y # _ \<Rightarrow> Some y)" for P and xs :: "('a \<times> 'b) list"
      by (induction xs) auto
    ultimately show ?thesis by simp
  qed
  then show ?thesis using run node_key_A [OF D(10) m] by (auto simp: node_key_def)
next
  case False
  from rep obtain A H where inv: "zinv h z (length ks) A (\<lambda>p. ks ! (p - 1)) H" by (auto simp: zrep_def)
  have "List.find (in_range spec) ks = None" using no_range [OF zinv_sorted [OF inv] False] by (auto simp: find_None_iff)
  then show ?thesis using False zslIsInRange_rep [OF rep, of spec] by (simp add: zslFirstInRange_def node_key_def)
qed


lemma find_skip: "(\<And>x. x \<in> set xs \<Longrightarrow> \<not> P x) \<Longrightarrow> List.find P (xs @ ys) = List.find P ys"
  by (induction xs) auto

lemma zslLastInRange_rep:
  assumes rep: "zrep (h, z) ks"
  shows "\<exists>x. zslLastInRange h z spec = Some x \<and>
    node_key h x = map_option (\<lambda>k. (fst k, Some (snd k))) (List.find (in_range spec) (rev ks))"
proof (cases "zset_in_range spec ks")
  case True
  from rep obtain A H where inv: "zinv h z (length ks) A (\<lambda>p. ks ! (p - 1)) H" and n: "length ks < 2 ^ 32" by (auto simp: zrep_def)
  note D = zinvD [OF inv] and srt = zinv_sorted [OF inv]
  let ?Q = "\<lambda>k. zslValueLteMax (fst k) spec"
  define m where "m = length (takeWhile ?Q ks)"
  have cut: "cuts (\<lambda>_ N. zslValueLteMax (zn_score N) spec) h (length ks) A m"
    unfolding m_def by (rule cuts_takeWhile [OF D(10) srt]) (auto dest: key_less_fst lte_max_down)
  from zdescend [OF inv n cut] obtain upd s where
    u: "zsl_descend (\<lambda>_ N. zslValueLteMax (zn_score N) spec) h (z_level z) (z_header z) 0 [] = Some upd"
      "hd upd = (A m, m)" by (elim exE conjE)
  have "takeWhile ?Q ks \<noteq> []" using True by (cases ks) (auto simp: zset_in_range_def)
  then obtain r where r: "m = Suc r" unfolding m_def by (metis length_0_conv not0_implies_Suc)
  have m: "r < length ks" using length_takeWhile_le [of ?Q ks] r by (simp add: m_def)
  obtain N where N: "h (A m) = Some N" "zn_score N = fst (ks ! r)"
    using bwd_info(1) [OF D(10), of m] m r by auto
  have run: "zslLastInRange h z spec = Some (if zslValueGteMin (fst (ks ! r)) spec then Some (A m) else None)"
    using zslIsInRange_rep [OF rep, of spec] True N u by (simp add: zslLastInRange_def)
  have c: "?Q (ks ! j) \<longleftrightarrow> j < m" if "j < length ks" for j unfolding m_def
    by (rule sorted_cut [OF srt _ that]) (blast dest: key_less_fst lte_max_down)
  have "\<not> ?Q k" if "k \<in> set (drop m ks)" for k using that c by (auto simp: in_set_conv_nth)
  then have hi: "\<not> in_range spec k" if "k \<in> set (rev (drop m ks))" for k using that by auto
  have "rev ks = rev (drop m ks) @ ks ! r # rev (take r ks)"
    by (metis append_take_drop_id id_take_nth_drop m r rev.simps(2) rev_append append.assoc append_Cons append_Nil)
  then have f: "List.find (in_range spec) (rev ks) = List.find (in_range spec) (ks ! r # rev (take r ks))"
    using find_skip [of "rev (drop m ks)", OF hi] by simp
  have "\<not> in_range spec k" if "k \<in> set (take r ks)" "\<not> zslValueGteMin (fst (ks ! r)) spec" for k
  proof -
    from that obtain i where i: "i < r" "k = ks ! i" by (auto simp: in_set_conv_nth)
    then have "key_less k (ks ! r)" using srt m by (simp add: sorted_wrt_iff_nth_less)
    then have "fst k \<le> fst (ks ! r)" by (rule key_less_fst)
    then show ?thesis using that(2) gte_min_up by blast
  qed
  then have "List.find (in_range spec) (rev ks) = (if zslValueGteMin (fst (ks ! r)) spec then Some (ks ! r) else None)"
    using f c [OF m] r by (auto simp: find_None_iff)
  then show ?thesis using run node_key_A [OF D(10) m] r by (auto simp: node_key_def)
next
  case False
  from rep obtain A H where inv: "zinv h z (length ks) A (\<lambda>p. ks ! (p - 1)) H" by (auto simp: zrep_def)
  have "List.find (in_range spec) (rev ks) = None" using no_range [OF zinv_sorted [OF inv] False] by (auto simp: find_None_iff)
  then show ?thesis using False zslIsInRange_rep [OF rep, of spec] by (simp add: zslLastInRange_def node_key_def)
qed

lemma zslGetElementByRank_rep:
  assumes rep: "zrep (h, z) ks" and r: "1 \<le> r"
  shows "\<exists>x. zslGetElementByRank h z r = Some x \<and>
    node_key h x = (if r \<le> length ks then Some (fst (ks ! (r - 1)), Some (snd (ks ! (r - 1)))) else None)"
proof -
  from rep obtain A H where inv: "zinv h z (length ks) A (\<lambda>p. ks ! (p - 1)) H" and n: "length ks < 2 ^ 32" by (auto simp: zrep_def)
  note D = zinvD [OF inv] and htD = heights_okD [OF zinvD(6) [OF inv]]
  define m where "m = min r (length ks)"
  have loop: "by_rank_loop h r k (A p) p = Some (if r \<le> length ks \<and> 0 < k then Some (A r) else None)"
    if "k \<le> z_level z" "p \<le> m" "k \<le> H p" for k p
    using that
  proof (induction k arbitrary: p)
    case (Suc k)
    have k0: "k < H 0" using htD(2,3) Suc.prems(1) by simp
    note l = lst_props [where H = H and m = m, OF k0]
    have w: "zsl_walk (\<lambda>t _. t \<le> r) h k (A p) p = Some (A (lst H k m), lst H k m)"
      by (rule zsl_walk_spec [OF D(9,6) n cuts_rank(1) [OF D(10), of r, folded m_def]]) (use Suc.prems in auto)
    have l0: "lst H 0 m = m" by (rule lst_0) (rule height_pos [OF D(6)])
    show ?case
    proof (cases "lst H k m = r")
      case True
      then have "r \<le> length ks" using l(1) by (simp add: m_def)
      then show ?thesis using w True by simp
    next
      case False
      then have "\<not> (r \<le> length ks \<and> k = 0)" using l0 by (metis m_def min.absorb1)
      then show ?thesis using w False Suc.IH [of "lst H k m"] Suc.prems(1) l by (auto simp: not_less)
    qed
  qed simp
  have "zslGetElementByRank h z r = Some (if r \<le> length ks then Some (A r) else None)"
    using loop [of "z_level z" 0] htD(1,2,3) D(1) by (simp add: zslGetElementByRank_def)
  then show ?thesis using node_key_A [OF D(10), of "r - 1"] r by (auto simp: node_key_def)
qed


text \<open>The rank of a key in a list, 0 when it is not there.\<close>

fun rank_of :: "'a \<Rightarrow> 'a list \<Rightarrow> nat" where
  "rank_of k [] = 0"
| "rank_of k (x # xs) = (if x = k then 1 else if rank_of k xs = 0 then 0 else Suc (rank_of k xs))"

lemma rank_of_nth: "distinct ks \<Longrightarrow> i < length ks \<Longrightarrow> rank_of (ks ! i) ks = Suc i"
  by (induction ks arbitrary: i) (auto simp: nth_Cons split: nat.splits)

lemma rank_of_notin: "k \<notin> set ks \<Longrightarrow> rank_of k ks = 0"
  by (induction ks) auto

lemma zslGetRank_rep:
  assumes rep: "zrep (h, z) ks" and ok: "ele \<in> snd ` set ks \<Longrightarrow> (score, ele) \<in> set ks"
  shows "zslGetRank h z score ele = Some (rank_of (score, ele) ks)"
proof -
  from rep obtain A H where inv: "zinv h z (length ks) A (\<lambda>p. ks ! (p - 1)) H" and d: "distinct (map snd ks)" and n: "length ks < 2 ^ 32"
    by (auto simp: zrep_def)
  note D = zinvD [OF inv] and htD = heights_okD [OF zinvD(6) [OF inv]] and srt = zinv_sorted [OF inv]
  let ?P = "\<lambda>k. fst k < score \<or> fst k = score \<and> snd k \<le> ele" and ?k = "(score, ele)"
  let ?W = "\<lambda>(_::nat) n. zn_score n < score \<or> zn_score n = score \<and> (\<exists>e. zn_ele n = Some e \<and> e \<le> ele)"
  define m where "m = length (takeWhile ?P ks)"
  have cut: "cuts ?W h (length ks) A m"
    unfolding m_def by (rule cuts_takeWhile [OF D(10) srt]) (auto simp: key_less_def)
  have m: "m \<le> length ks" by (simp add: m_def length_takeWhile_le)
  have c: "?P (ks ! j) \<longleftrightarrow> j < m" if "j < length ks" for j unfolding m_def
    by (rule sorted_cut [OF srt _ that]) (auto simp: key_less_def)
  have pos: "?k \<in> set ks \<longleftrightarrow> 0 < m \<and> ks ! (m - 1) = ?k"
  proof
    assume "?k \<in> set ks"
    then obtain i where i: "i < length ks" "ks ! i = ?k" by (auto simp: in_set_conv_nth)
    have "i < m" using c [OF i(1)] i(2) by simp
    moreover have "\<not> i < m - 1"
    proof
      assume a: "i < m - 1"
      have "key_less ?k (ks ! (m - 1))" using srt a m i by (auto simp: sorted_wrt_iff_nth_less simp flip: i(2))
      moreover have "?P (ks ! (m - 1))" using c [of "m - 1"] a m by linarith
      ultimately show False by (auto simp: key_less_def)
    qed
    ultimately have "i = m - 1" by linarith
    then show "0 < m \<and> ks ! (m - 1) = ?k" using i(2) \<open>i < m\<close> by auto
  next
    assume "0 < m \<and> ks ! (m - 1) = ?k"
    then show "?k \<in> set ks" using m nth_mem [of "m - 1" ks] by (metis Suc_pred' less_eq_Suc_le)
  qed
  have el: "snd (ks ! (q - 1)) = ele \<longleftrightarrow> q = m \<and> ?k \<in> set ks" if "1 \<le> q" "q \<le> length ks" for q
  proof
    assume a: "snd (ks ! (q - 1)) = ele"
    have "ks ! (q - 1) \<in> set ks" using that by simp
    then have k: "?k \<in> set ks" using ok a by blast
    then have mm: "0 < m" "ks ! (m - 1) = ?k" using pos by auto
    have "map snd ks ! (q - 1) = map snd ks ! (m - 1)" using a mm that m by simp
    then have "q - 1 = m - 1" using d that m mm(1) by (subst (asm) nth_eq_iff_index_eq) auto
    then show "q = m \<and> ?k \<in> set ks" using k that mm(1) by simp
  qed (use pos in auto)
  have loop: "rank_loop h score ele k (A p) p = Some (if ?k \<in> set ks \<and> 0 < k then m else 0)"
    if "k \<le> z_level z" "p \<le> m" "k \<le> H p" for k p
    using that
  proof (induction k arbitrary: p)
    case (Suc k)
    have k0: "k < H 0" using htD(2,3) Suc.prems(1) by simp
    note l = lst_props [where H = H and m = m, OF k0]
    have w: "zsl_walk ?W h k (A p) p = Some (A (lst H k m), lst H k m)"
      by (rule zsl_walk_spec [OF D(9,6) n cut]) (use Suc.prems in auto)
    have l0: "lst H 0 m = m" by (rule lst_0) (rule height_pos [OF D(6)])
    obtain N where N: "h (A (lst H k m)) = Some N" "zn_ele N = Some ele \<longleftrightarrow> lst H k m = m \<and> ?k \<in> set ks"
    proof (cases "lst H k m = 0")
      case True
      obtain N where N: "h (A 0) = Some N" "zn_ele N = None" using bwd_info(2) [OF D(10)] by blast
      have "\<not> (lst H k m = m \<and> ?k \<in> set ks)" using True pos by auto
      then show ?thesis using that [of N] N True by simp
    next
      case False
      then obtain N where "h (A (lst H k m)) = Some N" "zn_ele N = Some (snd (ks ! (lst H k m - 1)))"
        using bwd_info(1) [OF D(10), of "lst H k m"] l(1) m by auto
      then show ?thesis using that el [of "lst H k m"] False l(1) m by auto
    qed
    show ?case
    proof (cases "lst H k m = m \<and> ?k \<in> set ks")
      case True
      then show ?thesis using w N by simp
    next
      case False
      then have "\<not> (?k \<in> set ks \<and> k = 0)" using l0 by blast
      then show ?thesis using w N False Suc.IH [of "lst H k m"] Suc.prems(1) l by auto
    qed
  qed simp
  have "zslGetRank h z score ele = Some (if ?k \<in> set ks then m else 0)"
    using loop [of "z_level z" 0] htD(1,2,3) D(1) by (simp add: zslGetRank_def)
  moreover have "rank_of ?k ks = m" if "?k \<in> set ks"
    using rank_of_nth [OF distinct_nth_snd [OF d], of "m - 1"] pos that m by auto
  ultimately show ?thesis using rank_of_notin [of ?k ks] by auto
qed


subsection \<open>Freeing a list\<close>

lemma free_nodes_spec:
  assumes lv: "levels_ok h L n A H" and ht: "heights_ok L n H" and inj: "inj_on A {0..n}"
  shows "1 \<le> p \<Longrightarrow> dom g = A ` {p..n} \<Longrightarrow> (\<And>q. p \<le> q \<Longrightarrow> q \<le> n \<Longrightarrow> g (A q) = h (A q)) \<Longrightarrow>
    free_nodes g (if p \<le> n then Some (A p) else None) = Some Map.empty"
proof (induction "Suc n - p" arbitrary: p g)
  case 0
  then show ?case by (subst free_nodes.simps) auto
next
  case (Suc r)
  have p: "p \<le> n" using Suc.hyps(2) by simp
  have "get_level g (A p) 0 = get_level h (A p) 0" using Suc.prems(3) [OF order.refl p] by (simp add: get_level_def)
  then obtain s where s: "get_level g (A p) 0 = Some (if Suc p \<le> n then Some (A (Suc p)) else None, s)"
    using levels_okD [OF lv p, of 0] height_pos [OF ht, of p] nxt_0 [OF ht, of p] by (auto simp: fwd_def)
  have "A q \<noteq> A p" if "Suc p \<le> q" "q \<le> n" for q using inj_on_eq_iff [OF inj, of q p] that p by simp
  moreover have "{p..n} = insert p {Suc p..n}" using p by auto
  then have "dom (g(A p := None)) = A ` {Suc p..n}" using Suc.prems(2) calculation by auto
  ultimately have "free_nodes (g(A p := None)) (if Suc p \<le> n then Some (A (Suc p)) else None) = Some Map.empty"
    using Suc.hyps(2) Suc.prems(3) by (intro Suc.hyps(1)) auto
  then show ?case using p s by (subst free_nodes.simps) simp
qed

lemma zslFree_rep:
  assumes rep: "zrep (h, z) ks"
  shows "zslFree h z = Some Map.empty"
proof -
  from rep obtain A H where inv: "zinv h z (length ks) A (\<lambda>p. ks ! (p - 1)) H" by (auto simp: zrep_def)
  note D = zinvD [OF inv]
  obtain s where s: "get_level h (z_header z) 0 = Some (if 1 \<le> length ks then Some (A 1) else None, s)"
    using levels_okD [OF D(9), of 0 0] height_pos [OF D(6), of 0] nxt_0 [OF D(6), of 0] D(1) by (auto simp: fwd_def)
  have ne: "A q \<noteq> A 0" if "1 \<le> q" "q \<le> length ks" for q using inj_on_eq_iff [OF D(2), of q 0] that by simp
  have "{0..length ks} = insert 0 {1..length ks}" by auto
  then have "dom (h(A 0 := None)) = A ` {1..length ks}" using D(3) ne by auto
  then have "free_nodes (h(A 0 := None)) (if 1 \<le> length ks then Some (A 1) else None) = Some Map.empty"
    using ne by (intro free_nodes_spec [OF D(9,6,2)]) auto
  then show ?thesis using s D(1) by (simp add: zslFree_def)
qed

subsection \<open>Histories\<close>

datatype ('s, 'e) zop =
    ZInsert "u32 list" 's 'e
  | ZDelete 's 'e
  | ZDeleteRangeByScore "'s zrangespec"
  | ZDeleteRangeByRank nat nat
  | ZIsInRange "'s zrangespec"
  | ZFirstInRange "'s zrangespec"
  | ZLastInRange "'s zrangespec"
  | ZGetRank 's 'e
  | ZGetElementByRank nat

datatype ('s, 'e) zres = ZDone | ZFlag bool | ZRemoved "'e option list" | ZNode "('s \<times> 'e option) option" | ZRank nat

text \<open>Each operation on the heap; a node is reported by what it holds.\<close>

fun zstep ::
    "(('s, 'e) zheap \<Rightarrow> nat) \<Rightarrow> (nat option \<times> u32) \<Rightarrow> ('s::linorder, 'e::linorder) zop \<Rightarrow> ('s, 'e) zheap \<times> zskiplist \<Rightarrow>
     ((('s, 'e) zheap \<times> zskiplist) \<times> ('s, 'e) zres) option" where
  "zstep alloc junk (ZInsert rs score ele) (h, z) = do {
     (h, z, _) \<leftarrow> zslInsert alloc junk (zslRandomLevel rs) h z score ele; Some ((h, z), ZDone) }"
| "zstep alloc junk (ZDelete score ele) (h, z) = do {
     (h, z, found) \<leftarrow> zslDelete h z score ele; Some ((h, z), ZFlag found) }"
| "zstep alloc junk (ZDeleteRangeByScore spec) (h, z) = do {
     (h, z, removed) \<leftarrow> zslDeleteRangeByScore h z spec; Some ((h, z), ZRemoved removed) }"
| "zstep alloc junk (ZDeleteRangeByRank start end') (h, z) = do {
     (h, z, removed) \<leftarrow> zslDeleteRangeByRank h z start end'; Some ((h, z), ZRemoved removed) }"
| "zstep alloc junk (ZIsInRange spec) (h, z) = do { b \<leftarrow> zslIsInRange h z spec; Some ((h, z), ZFlag b) }"
| "zstep alloc junk (ZFirstInRange spec) (h, z) = do { x \<leftarrow> zslFirstInRange h z spec; Some ((h, z), ZNode (node_key h x)) }"
| "zstep alloc junk (ZLastInRange spec) (h, z) = do { x \<leftarrow> zslLastInRange h z spec; Some ((h, z), ZNode (node_key h x)) }"
| "zstep alloc junk (ZGetRank score ele) (h, z) = do { r \<leftarrow> zslGetRank h z score ele; Some ((h, z), ZRank r) }"
| "zstep alloc junk (ZGetElementByRank rank) (h, z) = do { x \<leftarrow> zslGetElementByRank h z rank; Some ((h, z), ZNode (node_key h x)) }"

text \<open>The same on a sorted list of keys.\<close>

abbreviation found_key :: "('s \<times> 'e) option \<Rightarrow> ('s, 'e) zres" where
  "found_key k \<equiv> ZNode (map_option (\<lambda>k. (fst k, Some (snd k))) k)"

fun zspec :: "('s::linorder, 'e::linorder) zop \<Rightarrow> ('s \<times> 'e) list \<Rightarrow> ('s \<times> 'e) list \<times> ('s, 'e) zres" where
  "zspec (ZInsert rs score ele) ks = (zins (score, ele) ks, ZDone)"
| "zspec (ZDelete score ele) ks = (remove1 (score, ele) ks, ZFlag ((score, ele) \<in> set ks))"
| "zspec (ZDeleteRangeByScore spec) ks =
     (filter (\<lambda>k. \<not> in_range spec k) ks, ZRemoved (map (Some \<circ> snd) (filter (in_range spec) ks)))"
| "zspec (ZDeleteRangeByRank start end') ks =
     (take (start - 1) ks @ drop (max (start - 1) end') ks, ZRemoved (map (Some \<circ> snd) (drop (start - 1) (take end' ks))))"
| "zspec (ZIsInRange spec) ks = (ks, ZFlag (zset_in_range spec ks))"
| "zspec (ZFirstInRange spec) ks = (ks, found_key (List.find (in_range spec) ks))"
| "zspec (ZLastInRange spec) ks = (ks, found_key (List.find (in_range spec) (rev ks)))"
| "zspec (ZGetRank score ele) ks = (ks, ZRank (rank_of (score, ele) ks))"
| "zspec (ZGetElementByRank rank) ks = (ks, found_key (if rank \<le> length ks then Some (ks ! (rank - 1)) else None))"

text \<open>
  What the callers guarantee: an element is inserted once, with room for its rank in 32 bits; the
  rank is asked of an element with its own score; ranks start with 1.
\<close>

fun zok :: "('s::linorder, 'e::linorder) zop \<Rightarrow> ('s \<times> 'e) list \<Rightarrow> bool" where
  "zok (ZInsert rs score ele) ks \<longleftrightarrow> ele \<notin> snd ` set ks \<and> length ks + 1 < 2 ^ 32"
| "zok (ZGetRank score ele) ks \<longleftrightarrow> (ele \<in> snd ` set ks \<longrightarrow> (score, ele) \<in> set ks)"
| "zok (ZGetElementByRank rank) ks \<longleftrightarrow> 1 \<le> rank"
| "zok _ ks \<longleftrightarrow> True"

lemma random_level_pos: "1 \<le> random_level rs"
  by (induction rs) auto

lemma zslRandomLevel_range: "1 \<le> zslRandomLevel rs" "zslRandomLevel rs \<le> 32"
  using random_level_pos [of rs] by (auto simp: zslRandomLevel_def ZSKIPLIST_MAXLEVEL_def Let_def)

lemma zstep_sim:
  fixes ks :: "('s::linorder \<times> 'e::linorder) list"
  assumes fresh: "zalloc_fresh alloc" and rep: "zrep st ks" and ok: "zok c ks"
  shows "\<exists>st'. zstep alloc junk c st = Some (st', snd (zspec c ks)) \<and> zrep st' (fst (zspec c ks))"
proof -
  obtain h z where st: "st = (h, z)" by (cases st)
  note rep = rep [unfolded st]
  show ?thesis
  proof (cases c)
    case (ZInsert rs score ele)
    then have new: "ele \<notin> snd ` set ks" "length ks + 1 < 2 ^ 32" using ok by simp_all
    from zslInsert_rep [where junk = junk and score = score, OF rep fresh zslRandomLevel_range [of rs] new] obtain h' z' x where
      "zslInsert alloc junk (zslRandomLevel rs) h z score ele = Some (h', z', x)" "zrep (h', z') (zins (score, ele) ks)"
      by (elim exE conjE)
    then show ?thesis using ZInsert st by simp
  next
    case (ZDelete score ele)
    then show ?thesis using zslDelete_rep [OF rep, of score ele] st by fastforce
  next
    case (ZDeleteRangeByScore spec)
    then show ?thesis using zslDeleteRangeByScore_rep [OF rep, of spec] st by fastforce
  next
    case (ZDeleteRangeByRank start end')
    then show ?thesis using zslDeleteRangeByRank_rep [OF rep, of start end'] st by fastforce
  next
    case (ZIsInRange spec)
    then show ?thesis using zslIsInRange_rep [OF rep] st rep by simp
  next
    case (ZFirstInRange spec)
    then show ?thesis using zslFirstInRange_rep [OF rep, of spec] st rep by fastforce
  next
    case (ZLastInRange spec)
    then show ?thesis using zslLastInRange_rep [OF rep, of spec] st rep by fastforce
  next
    case (ZGetRank score ele)
    then show ?thesis using zslGetRank_rep [OF rep, of ele score] ok st rep by simp
  next
    case (ZGetElementByRank r)
    then have "1 \<le> r" using ok by simp
    then show ?thesis using ZGetElementByRank zslGetElementByRank_rep [OF rep, of r] st rep by fastforce
  qed
qed

text \<open>A fresh list.\<close>

lemma zslCreate_rep: "zrep (zslCreate a :: ('s::{zero,linorder}, 'e::linorder) zheap \<times> zskiplist) []"
proof -
  let ?h = "fst (zslCreate a) :: ('s, 'e) zheap"
  have H: "nxt (\<lambda>_. 32) i 0 = Suc 0" if "i < 32" for i using that by (intro nxtI) auto
  have "zinv ?h (snd (zslCreate a :: ('s, 'e) zheap \<times> zskiplist)) 0 (\<lambda>_. a) (\<lambda>p. [] ! (p - 1)) (\<lambda>_. 32)"
    unfolding zinv_def levels_ok_def infos_ok_def heights_ok_def
    by (auto simp: zslCreate_def zslCreateNode_def get_level_def info_def fwd_def spn_def ZSKIPLIST_MAXLEVEL_def H)
  then show ?thesis by (auto simp: zrep_def)
qed


interpretation zsl: simulation "zstep alloc junk" zspec "\<lambda>st ks. zalloc_fresh alloc \<and> zrep st ks" zok for alloc junk
  by unfold_locales (use zstep_sim in blast)

text \<open>
  C2. Skip lists implement sorted sequences. From a fresh list, any history of insertions with
  arbitrary random heights, deletions of an element, of a range of scores and of a range of
  ranks, range queries, ranks of elements and elements by rank gives the results it gives on a
  list of keys sorted by score and then by element. No operation follows a null or dangling
  pointer or a level a node lacks, and all loops end. Afterwards the list is well-formed: every
  level links the nodes that have it in order, spans are distances in the bottom list, the
  backward pointers and the tail mirror it, the number of levels is the greatest height, and the
  heap holds exactly the header and the nodes, so that deleted nodes are freed and no others;
  \<open>zslFree\<close> then leaves an empty heap.
\<close>

theorem zskiplist_refines_sorted:
  fixes cs :: "('s::{zero,linorder}, 'e::linorder) zop list"
  assumes "zalloc_fresh alloc" and "ok_ops zspec zok cs []"
  shows "\<exists>st. run_ops (zstep alloc junk) cs (zslCreate a) = Some (st, snd (spec_ops zspec cs [])) \<and>
    zrep st (fst (spec_ops zspec cs [])) \<and> zslFree (fst st) (snd st) = Some Map.empty"
proof -
  from zsl.history [of alloc "zslCreate a" "[]" cs junk] assms zslCreate_rep obtain st where
    "run_ops (zstep alloc junk) cs (zslCreate a) = Some (st, snd (spec_ops zspec cs []))" "zrep st (fst (spec_ops zspec cs []))" by blast
  moreover from this(2) have "zslFree (fst st) (snd st) = Some Map.empty" by (intro zslFree_rep) simp
  ultimately show ?thesis by blast
qed

lemma zalloc_fresh_Least: "zalloc_fresh (\<lambda>h. LEAST a. h a = None)"
  unfolding zalloc_fresh_def
proof (intro allI impI)
  fix h :: "('s, 'e) zheap"
  assume "finite (dom h)"
  then obtain a where "a \<notin> dom h" using ex_new_if_finite infinite_UNIV_nat by metis
  then have "h (LEAST a. h a = None) = None" by (intro LeastI) auto
  then show "(LEAST a. h a = None) \<notin> dom h" by auto
qed

theorem zskiplist_refines_sorted_witness:
  "\<exists>st. run_ops (zstep (\<lambda>h. LEAST a. h a = None) (None, 7))
      [ZInsert [0, 0, 20000] 3 (1::int), ZInsert [] 2 5, ZInsert [1, 65535] 3 0, ZGetRank 3 1,
       ZDelete 3 0, ZGetElementByRank 2, ZDeleteRangeByRank 1 1] (zslCreate 0) =
      Some (st, [ZDone, ZDone, ZDone, ZRank 3, ZFlag True, ZNode (Some (3::int, Some 1)), ZRemoved [Some 5]]) \<and>
    zrep st [(3, 1)] \<and> zslFree (fst st) (snd st) = Some Map.empty"
proof -
  let ?cs = "[ZInsert [0, 0, 20000] 3 1, ZInsert [] 2 5, ZInsert [1, 65535] 3 0, ZGetRank 3 1,
       ZDelete 3 0, ZGetElementByRank 2, ZDeleteRangeByRank 1 1] :: (int, int) zop list"
  have s: "spec_ops zspec ?cs [] = ([(3, 1)], [ZDone, ZDone, ZDone, ZRank 3, ZFlag True, ZNode (Some (3, Some 1)), ZRemoved [Some 5]])"
    by (simp add: key_less_def)
  have "ok_ops zspec zok ?cs []" by (simp add: key_less_def)
  from zskiplist_refines_sorted [OF zalloc_fresh_Least this, of "(None, 7)" 0, unfolded s fst_conv snd_conv] show ?thesis .
qed

end
