(* ===== verification/Reply.thy ===== *)
theory Reply
  imports Util_Num
begin

section \<open>Replies in the protocol: \<open>networking.c\<close>\<close>

text \<open>
  The bytes each reply function appends to the output of a client, in the protocol the server, its
  clients and its replicas speak. A string object is encoded as a 64 bit integer or as an SDS
  string. Buffers on the stack have arbitrary contents \<open>junk\<close>; \<open>None\<close> is a write outside of one.
\<close>

datatype robj = Obj_Int int | Obj_Sds bytes

definition crlf :: bytes where "crlf = [13, 10]"

definition OBJ_SHARED_BULKHDR_LEN :: int where "OBJ_SHARED_BULKHDR_LEN = 32"

text \<open>\<open>shared.mbulkhdr\<close> and \<open>shared.bulkhdr\<close>, which \<open>createSharedObjects\<close> prints.\<close>

definition shared_hdr :: "u8 \<Rightarrow> int \<Rightarrow> bytes" where
  "shared_hdr prefix ll = prefix # decimal ll @ crlf"

definition addReplyLongLongWithPrefix :: "bytes \<Rightarrow> int \<Rightarrow> u8 \<Rightarrow> bytes option" where
  "addReplyLongLongWithPrefix junk ll prefix =
     (if prefix = 42 \<and> ll < OBJ_SHARED_BULKHDR_LEN \<and> ll \<ge> 0 then Some (shared_hdr 42 ll)
      else if prefix = 36 \<and> ll < OBJ_SHARED_BULKHDR_LEN \<and> ll \<ge> 0 then Some (shared_hdr 36 ll)
      else do {
        (buf, len) \<leftarrow> ll2string (take 127 junk) ll;
        let buf = prefix # buf;
        buf \<leftarrow> put (len + 1) 13 buf;
        buf \<leftarrow> put (len + 2) 10 buf;
        Some (take (len + 3) buf)
      })"

definition addReplyLongLong :: "bytes \<Rightarrow> int \<Rightarrow> bytes option" where
  "addReplyLongLong junk ll =
     (if ll = 0 then Some [58, 48, 13, 10] else if ll = 1 then Some [58, 49, 13, 10]
      else addReplyLongLongWithPrefix junk ll 58)"

text \<open>Lengths are not negative here: the table of headers is indexed by them.\<close>

definition addReplyMultiBulkLen :: "bytes \<Rightarrow> int \<Rightarrow> bytes option" where
  "addReplyMultiBulkLen junk len =
     (if len < 0 then None
      else if len < OBJ_SHARED_BULKHDR_LEN then Some (shared_hdr 42 len) else addReplyLongLongWithPrefix junk len 42)"

text \<open>\<open>while((n = n/10) != 0) len++\<close>\<close>

fun count_digits :: "nat \<Rightarrow> nat \<Rightarrow> nat" where
  "count_digits n len = (if n div 10 \<noteq> 0 then count_digits (n div 10) (len + 1) else len)"

declare count_digits.simps [simp del]

definition addReplyBulkLen :: "bytes \<Rightarrow> robj \<Rightarrow> bytes option" where
  "addReplyBulkLen junk obj =
     (let len = (case obj of
            Obj_Sds s \<Rightarrow> length s
          | Obj_Int n \<Rightarrow> count_digits (nat \<bar>n\<bar>) (if n < 0 then 2 else 1))
      in if int len < OBJ_SHARED_BULKHDR_LEN then Some (shared_hdr 36 (int len))
         else addReplyLongLongWithPrefix junk (int len) 36)"

text \<open>\<open>addReply\<close>: an integer is printed into a buffer of 32 bytes.\<close>

definition addReply_obj :: "bytes \<Rightarrow> robj \<Rightarrow> bytes option" where
  "addReply_obj junk obj = (case obj of
     Obj_Sds s \<Rightarrow> Some s
   | Obj_Int n \<Rightarrow> do { (buf, len) \<leftarrow> ll2string (take 32 junk) n; Some (take len buf) })"

definition addReplyBulk :: "bytes \<Rightarrow> robj \<Rightarrow> bytes option" where
  "addReplyBulk junk obj = do {
     len \<leftarrow> addReplyBulkLen junk obj;
     body \<leftarrow> addReply_obj junk obj;
     Some (len @ body @ crlf)
   }"

definition addReplyBulkCBuffer :: "bytes \<Rightarrow> bytes \<Rightarrow> bytes option" where
  "addReplyBulkCBuffer junk p = do {
     len \<leftarrow> addReplyLongLongWithPrefix junk (int (length p)) 36;
     Some (len @ p @ crlf)
   }"

definition addReplyBulkLongLong :: "bytes \<Rightarrow> int \<Rightarrow> bytes option" where
  "addReplyBulkLongLong junk ll = do {
     (buf, len) \<leftarrow> ll2string (take 64 junk) ll;
     addReplyBulkCBuffer junk (take len buf)
   }"

subsection \<open>What they print\<close>

definition obj_bytes :: "robj \<Rightarrow> bytes" where
  "obj_bytes obj = (case obj of Obj_Sds s \<Rightarrow> s | Obj_Int n \<Rightarrow> decimal n)"

definition obj_ok :: "robj \<Rightarrow> bool" where
  "obj_ok obj \<longleftrightarrow> (case obj of Obj_Sds s \<Rightarrow> length s < 2 ^ 63 | Obj_Int n \<Rightarrow> - (2 ^ 63) \<le> n \<and> n < 2 ^ 63)"

definition enc_bulk :: "bytes \<Rightarrow> bytes" where
  "enc_bulk a = 36 # dec_nat (length a) @ crlf @ a @ crlf"

definition enc_cmd :: "bytes list \<Rightarrow> bytes" where
  "enc_cmd args = 42 # dec_nat (length args) @ crlf @ concat (map enc_bulk args)"

lemma decimal_nat [simp]: "decimal (int n) = dec_nat n"
  by (simp add: decimal_def)

lemma length_dec_nat_pos: "1 \<le> length (dec_nat n)"
  by (subst dec_nat.simps) simp

lemma ll2string_take:
  assumes "- (2 ^ 63) \<le> v" "v < 2 ^ 63" "20 < length dst"
  shows "ll2string dst v = Some (decimal v @ 0 # drop (Suc (length (decimal v))) dst, length (decimal v))"
  using ll2string_spec [of v dst] length_decimal [OF assms(1,2)] assms by (simp add: LLONG_MIN_def)

lemma addReplyLongLongWithPrefix_spec:
  assumes "- (2 ^ 63) \<le> v" "v < 2 ^ 63" "127 \<le> length junk"
  shows "addReplyLongLongWithPrefix junk v prefix = Some (prefix # decimal v @ crlf)"
proof -
  have l: "ll2string (take 127 junk) v = Some (decimal v @ 0 # drop (Suc (length (decimal v))) (take 127 junk), length (decimal v))"
    using assms by (intro ll2string_take) auto
  have n: "length (decimal v) \<le> 20" by (rule length_decimal [OF assms(1,2)])
  obtain x xs where "drop (Suc (length (decimal v))) (take 127 junk) = x # xs"
    using n assms(3) by (cases "drop (Suc (length (decimal v))) (take 127 junk)") auto
  then show ?thesis using l by (simp add: addReplyLongLongWithPrefix_def shared_hdr_def put_def crlf_def list_update_append nth_append numeral_3_eq_3)
qed

lemma count_digits_dec: "count_digits n len = len + length (dec_nat n) - 1"
proof (induction n len rule: count_digits.induct)
  case (1 n len)
  show ?case
  proof (cases "n div 10 = 0")
    case True
    then have "n < 10" by simp
    then show ?thesis by (simp add: count_digits.simps [of n] dec_nat_less)
  next
    case False
    then show ?thesis using 1 length_dec_nat_pos [of "n div 10"]
      by (simp add: count_digits.simps [of n] dec_nat_step not_less)
  qed
qed

lemma addReplyMultiBulkLen_spec:
  "n < 2 ^ 63 \<Longrightarrow> 127 \<le> length junk \<Longrightarrow> addReplyMultiBulkLen junk (int n) = Some (42 # dec_nat n @ crlf)"
  using addReplyLongLongWithPrefix_spec [of "int n" junk 42] by (simp add: addReplyMultiBulkLen_def shared_hdr_def)

lemma addReplyBulkLen_spec:
  assumes "obj_ok obj" "127 \<le> length junk"
  shows "addReplyBulkLen junk obj = Some (36 # dec_nat (length (obj_bytes obj)) @ crlf)"
proof -
  have len: "(case obj of Obj_Sds s \<Rightarrow> length s | Obj_Int n \<Rightarrow> count_digits (nat \<bar>n\<bar>) (if n < 0 then 2 else 1)) = length (obj_bytes obj)"
    by (auto simp: obj_bytes_def decimal_def count_digits_dec split: robj.splits)
  have "length (obj_bytes obj) < 2 ^ 63"
    using assms(1) length_decimal by (fastforce simp: obj_ok_def obj_bytes_def split: robj.splits)
  then show ?thesis using addReplyLongLongWithPrefix_spec [of "int (length (obj_bytes obj))" junk 36] assms(2)
    by (simp add: addReplyBulkLen_def len Let_def shared_hdr_def)
qed

lemma addReply_obj_spec:
  assumes "obj_ok obj" "127 \<le> length junk"
  shows "addReply_obj junk obj = Some (obj_bytes obj)"
  using assms ll2string_take [of _ "take 32 junk"] by (auto simp: addReply_obj_def obj_bytes_def obj_ok_def split: robj.splits)

lemma addReplyBulk_spec:
  "obj_ok obj \<Longrightarrow> 127 \<le> length junk \<Longrightarrow> addReplyBulk junk obj = Some (enc_bulk (obj_bytes obj))"
  by (simp add: addReplyBulk_def addReplyBulkLen_spec addReply_obj_spec enc_bulk_def)

end
