(* ===== verification/Protocol.thy ===== *)
theory Protocol
  imports Reply Sds_Split
begin

section \<open>Requests: the query buffer of a client (\<open>networking.c\<close>)\<close>

text \<open>
  A client's query buffer holds what was read from its socket and not yet understood. Positions in
  it are indices; the terminator behind the last byte stops \<open>strchr\<close>. The commands are run by
  \<open>processCommand\<close>, a parameter with the conditions of the server it can change: \<open>env_stopped\<close> covers
  clients paused, blocked or about to be closed, \<open>env_gone\<close> a client that was freed meanwhile,
  \<open>env_multi\<close> an open transaction and \<open>env_keep\<close> a client blocked by a module, whose arguments are kept.
  A failed assertion is \<open>None\<close>, and so is a loop that does not end.
\<close>

definition PROTO_INLINE_MAX_SIZE :: nat where "PROTO_INLINE_MAX_SIZE = 65536"
definition PROTO_IOBUF_LEN :: nat where "PROTO_IOBUF_LEN = 16384"
definition PROTO_MBULK_BIG_ARG :: int where "PROTO_MBULK_BIG_ARG = 32768"

datatype reqtype = Req_None | Req_Inline | Req_Multibulk

datatype proto_error =
    Too_big_inline | Unbalanced_quotes | Too_big_mbulk_count | Invalid_mbulk_length
  | Too_big_bulk_count | Expected_dollar u8 | Invalid_bulk_length

record netclient =
  c_querybuf :: bytes
  c_reqtype :: reqtype
  c_multibulklen :: nat
  c_bulklen :: int
  c_argv :: "bytes list"
  c_close :: bool
  c_errors :: "proto_error list"
  c_slave :: bool
  c_ack_time :: int
  c_master :: bool
  c_reploff :: int
  c_read_reploff :: int
  c_pending :: bytes

record 's cmd_env =
  env_process :: "bytes list \<Rightarrow> 's \<Rightarrow> 's \<times> bool"
  env_stopped :: "'s \<Rightarrow> bool"
  env_gone :: "'s \<Rightarrow> bool"
  env_multi :: "'s \<Rightarrow> bool"
  env_keep :: "'s \<Rightarrow> bool"
  env_unixtime :: "'s \<Rightarrow> int"

text \<open>\<open>strchr\<close> in a terminated buffer.\<close>

fun find_char :: "u8 \<Rightarrow> bytes \<Rightarrow> nat option" where
  "find_char c [] = None"
| "find_char c (b # bs) = (if b = c then Some 0 else if b = 0 then None else map_option Suc (find_char c bs))"

text \<open>The error is sent, the connection marked, and the buffer cut; the log is not modelled.\<close>

definition setProtocolError :: "proto_error \<Rightarrow> netclient \<Rightarrow> nat \<Rightarrow> netclient" where
  "setProtocolError err c pos =
     c\<lparr>c_errors := c_errors c @ [err], c_close := True, c_querybuf := drop pos (c_querybuf c)\<rparr>"

text \<open>The length of the line without its end.\<close>

definition inline_querylen :: "bytes \<Rightarrow> nat \<Rightarrow> nat" where
  "inline_querylen qb newline = (if newline \<noteq> 0 \<and> qb ! (newline - 1) = 13 then newline - 1 else newline)"

text \<open>\<open>C_OK\<close> is \<open>True\<close>.\<close>

definition processInlineBuffer :: "int \<Rightarrow> netclient \<Rightarrow> (netclient \<times> bool) option" where
  "processInlineBuffer unixtime c =
     (case find_char 10 (c_querybuf c) of
        None \<Rightarrow> Some (if length (c_querybuf c) > PROTO_INLINE_MAX_SIZE then setProtocolError Too_big_inline c 0 else c, False)
      | Some newline \<Rightarrow>
          (let querylen = inline_querylen (c_querybuf c) newline;
               aux = take querylen (c_querybuf c) in
           do {
             argv \<leftarrow> sdssplitargs (aux @ [0]);
             case argv of
               None \<Rightarrow> Some (setProtocolError Unbalanced_quotes c 0, False)
             | Some argv \<Rightarrow>
                 (let c = (if querylen = 0 \<and> c_slave c then c\<lparr>c_ack_time := unixtime\<rparr> else c) in
                  Some (c\<lparr>c_querybuf := drop (querylen + 2) (c_querybuf c), c_argv := filter (\<lambda>a. a \<noteq> []) argv\<rparr>, True))
           }))"

text \<open>The length line of an argument: an error, more input needed, or the new position.\<close>

datatype bulk_line = Line_error netclient | Line_wait | Line_ok netclient nat

definition read_bulk_line :: "netclient \<Rightarrow> nat \<Rightarrow> bulk_line" where
  "read_bulk_line c pos =
     (case find_char 13 (drop pos (c_querybuf c)) of
        None \<Rightarrow>
          if length (c_querybuf c) > PROTO_INLINE_MAX_SIZE then Line_error (setProtocolError Too_big_bulk_count c 0) else Line_wait
      | Some i \<Rightarrow>
          if int (pos + i) > int (length (c_querybuf c)) - 2 then Line_wait
          else if c_querybuf c ! pos \<noteq> 36 then Line_error (setProtocolError (Expected_dollar (c_querybuf c ! pos)) c pos)
          else (case string2ll (take (i - 1) (drop (pos + 1) (c_querybuf c))) of
              None \<Rightarrow> Line_error (setProtocolError Invalid_bulk_length c pos)
            | Some ll \<Rightarrow>
                if ll < 0 \<or> ll > 512 * 1024 * 1024 then Line_error (setProtocolError Invalid_bulk_length c pos)
                else if ll \<ge> PROTO_MBULK_BIG_ARG
                  then Line_ok (c\<lparr>c_querybuf := drop (pos + i + 2) (c_querybuf c), c_bulklen := ll\<rparr>) 0
                  else Line_ok (c\<lparr>c_bulklen := ll\<rparr>) (pos + i + 2)))"

text \<open>\<open>while(c->multibulklen)\<close>: the client when a protocol error occurred, or where the loop was left.\<close>

fun bulk_loop :: "nat \<Rightarrow> netclient \<Rightarrow> nat \<Rightarrow> netclient + netclient \<times> nat" where
  "bulk_loop 0 c pos = Inr (c, pos)"
| "bulk_loop (Suc n) c pos =
     (case (if c_bulklen c = -1 then read_bulk_line c pos else Line_ok c pos) of
        Line_error c \<Rightarrow> Inl c
      | Line_wait \<Rightarrow> Inr (c, pos)
      | Line_ok c pos \<Rightarrow>
          if length (c_querybuf c) - pos < nat (c_bulklen c + 2) then Inr (c, pos)
          else if pos = 0 \<and> c_bulklen c \<ge> PROTO_MBULK_BIG_ARG \<and> int (length (c_querybuf c)) = c_bulklen c + 2 then
            bulk_loop n (c\<lparr>c_argv := c_argv c @ [take (nat (c_bulklen c)) (c_querybuf c)], c_querybuf := [],
              c_bulklen := -1, c_multibulklen := n\<rparr>) 0
          else
            bulk_loop n (c\<lparr>c_argv := c_argv c @ [take (nat (c_bulklen c)) (drop pos (c_querybuf c))],
              c_bulklen := -1, c_multibulklen := n\<rparr>) (pos + nat (c_bulklen c) + 2))"

text \<open>The arguments, from \<open>pos\<close> on, when their number is known.\<close>

definition read_bulks :: "netclient \<Rightarrow> nat \<Rightarrow> netclient \<times> bool" where
  "read_bulks c pos = (case bulk_loop (c_multibulklen c) c pos of
     Inl c \<Rightarrow> (c, False)
   | Inr (c, pos) \<Rightarrow> (c\<lparr>c_querybuf := drop pos (c_querybuf c)\<rparr>, c_multibulklen c = 0))"

definition processMultibulkBuffer :: "netclient \<Rightarrow> (netclient \<times> bool) option" where
  "processMultibulkBuffer c =
     (if c_multibulklen c \<noteq> 0 then Some (read_bulks c 0)
      else if c_argv c \<noteq> [] then None
      else case find_char 13 (c_querybuf c) of
        None \<Rightarrow> Some (if length (c_querybuf c) > PROTO_INLINE_MAX_SIZE then setProtocolError Too_big_mbulk_count c 0 else c, False)
      | Some newline \<Rightarrow>
          if int newline > int (length (c_querybuf c)) - 2 then Some (c, False)
          else if c_querybuf c ! 0 \<noteq> 42 then None
          else (case string2ll (take (newline - 1) (drop 1 (c_querybuf c))) of
              None \<Rightarrow> Some (setProtocolError Invalid_mbulk_length c 0, False)
            | Some ll \<Rightarrow>
                if ll > 1024 * 1024 then Some (setProtocolError Invalid_mbulk_length c 0, False)
                else if ll \<le> 0 then Some (c\<lparr>c_querybuf := drop (newline + 2) (c_querybuf c)\<rparr>, True)
                else Some (read_bulks (c\<lparr>c_multibulklen := nat ll\<rparr>) (newline + 2))))"

definition resetClient :: "netclient \<Rightarrow> netclient" where
  "resetClient c = c\<lparr>c_argv := [], c_reqtype := Req_None, c_multibulklen := 0, c_bulklen := -1\<rparr>"

text \<open>What follows a complete request.\<close>

definition after_parse :: "'s cmd_env \<Rightarrow> netclient \<Rightarrow> 's \<Rightarrow> netclient \<times> 's \<times> bool" where
  "after_parse env c s =
     (if c_argv c = [] then (resetClient c, s, False)
      else let (s, ok) = env_process env (c_argv c) s;
               c = (if ok \<and> c_master c \<and> \<not> env_multi env s
                    then c\<lparr>c_reploff := c_read_reploff c - int (length (c_querybuf c))\<rparr> else c);
               c = (if ok \<and> \<not> env_keep env s then resetClient c else c)
           in (c, s, env_gone env s))"

definition choose_type :: "netclient \<Rightarrow> netclient" where
  "choose_type c = (if c_reqtype c = Req_None
     then c\<lparr>c_reqtype := if c_querybuf c ! 0 = 42 then Req_Multibulk else Req_Inline\<rparr> else c)"

partial_function (option) processInputBuffer :: "'s cmd_env \<Rightarrow> netclient \<Rightarrow> 's \<Rightarrow> (netclient \<times> 's) option" where
  "processInputBuffer env c s =
     (if c_querybuf c = [] \<or> env_stopped env s \<or> c_close c then Some (c, s)
      else do {
        let c = choose_type c;
        (c, ok) \<leftarrow> (if c_reqtype c = Req_Inline then processInlineBuffer (env_unixtime env s) c else processMultibulkBuffer c);
        if \<not> ok then Some (c, s)
        else let (c, s, gone) = after_parse env c s in
          if gone then Some (c, s) else processInputBuffer env c s
      })"

text \<open>How much is read at most.\<close>

definition readlen :: "netclient \<Rightarrow> int" where
  "readlen c =
     (if c_reqtype c = Req_Multibulk \<and> c_multibulklen c \<noteq> 0 \<and> c_bulklen c \<noteq> -1 \<and> c_bulklen c \<ge> PROTO_MBULK_BIG_ARG
      then min (int PROTO_IOBUF_LEN) (c_bulklen c + 2 - int (length (c_querybuf c)))
      else int PROTO_IOBUF_LEN)"

text \<open>
  \<open>readQueryFromClient\<close> when \<open>read\<close> gave \<open>data\<close>; no data is the end of the connection, for which the
  client is freed (\<open>None\<close> inside the result), as it is when the buffer exceeds its limit \<open>maxlen\<close>. The
  last component is the part of a master's stream that is passed on to the replicas and the backlog.
\<close>

definition readQueryFromClient ::
    "'s cmd_env \<Rightarrow> nat \<Rightarrow> netclient \<Rightarrow> 's \<Rightarrow> bytes \<Rightarrow> (netclient option \<times> 's \<times> bytes) option" where
  "readQueryFromClient env maxlen c s data =
     (if data = [] then Some (None, s, [])
      else let c = (if c_master c then c\<lparr>c_pending := c_pending c @ data\<rparr> else c);
               c = c\<lparr>c_querybuf := c_querybuf c @ data\<rparr>;
               c = (if c_master c then c\<lparr>c_read_reploff := c_read_reploff c + int (length data)\<rparr> else c)
           in if length (c_querybuf c) > maxlen then Some (None, s, [])
              else if \<not> c_master c then do { (c, s) \<leftarrow> processInputBuffer env c s; Some (Some c, s, []) }
              else do {
                let prev_offset = c_reploff c;
                (c, s) \<leftarrow> processInputBuffer env c s;
                let applied = nat (c_reploff c - prev_offset);
                Some (Some (c\<lparr>c_pending := drop applied (c_pending c)\<rparr>), s, take applied (c_pending c))
              })"


section \<open>Any input is handled\<close>

lemma find_char_bound: "find_char c bs = Some i \<Longrightarrow> i < length bs \<and> bs ! i = c"
  by (induction c bs arbitrary: i rule: find_char.induct) (auto split: if_splits)

text \<open>The states the parser leaves behind between two reads.\<close>

definition client_wf :: "netclient \<Rightarrow> bool" where
  "client_wf c \<longleftrightarrow> c_close c \<or> (-1 \<le> c_bulklen c \<and>
     (if c_reqtype c = Req_Multibulk
      then c_multibulklen c = 0 \<longrightarrow> c_argv c = [] \<and> c_bulklen c = -1 \<and> c_querybuf c \<noteq> [] \<and> c_querybuf c ! 0 = 42
      else c_multibulklen c = 0 \<and> c_bulklen c = -1 \<and> c_argv c = []))"

text \<open>
  What the parser relies on: a command that is not to be reset leaves the client stopped or freed
  (\<open>processCommand\<close> fails only when it closes the client, and a module keeps only a blocked one).
\<close>

definition env_ok :: "'s cmd_env \<Rightarrow> bool" where
  "env_ok env \<longleftrightarrow> (\<forall>argv s s' ok. env_process env argv s = (s', ok) \<longrightarrow> \<not> ok \<or> env_keep env s' \<longrightarrow>
     env_stopped env s' \<or> env_gone env s')"

lemma read_bulk_line_inv:
  assumes "pos \<le> length (c_querybuf c)" "c_bulklen c = -1"
  shows "case read_bulk_line c pos of
      Line_error c' \<Rightarrow> c_close c'
    | Line_wait \<Rightarrow> True
    | Line_ok c' pos' \<Rightarrow> pos' \<le> length (c_querybuf c') \<and> length (c_querybuf c') - pos' \<le> length (c_querybuf c) - pos \<and>
        0 \<le> c_bulklen c' \<and> c_multibulklen c' = c_multibulklen c \<and> c_reqtype c' = c_reqtype c \<and> c_close c' = c_close c"
proof (cases "find_char 13 (drop pos (c_querybuf c))")
  case (Some i)
  then have "i < length (drop pos (c_querybuf c))" using find_char_bound by blast
  then show ?thesis using Some assms by (auto simp: read_bulk_line_def setProtocolError_def split: option.splits)
qed (simp add: read_bulk_line_def setProtocolError_def)

lemma bulk_loop_inv:
  "c_multibulklen c = n \<Longrightarrow> pos \<le> length (c_querybuf c) \<Longrightarrow> -1 \<le> c_bulklen c \<Longrightarrow>
   (case bulk_loop n c pos of
      Inl c' \<Rightarrow> c_close c'
    | Inr (c', pos') \<Rightarrow> pos' \<le> length (c_querybuf c') \<and> length (c_querybuf c') - pos' \<le> length (c_querybuf c) - pos \<and>
        (0 < n \<and> c_multibulklen c' = 0 \<longrightarrow> length (c_querybuf c') - pos' < length (c_querybuf c) - pos) \<and>
        c_reqtype c' = c_reqtype c \<and> c_close c' = c_close c \<and> -1 \<le> c_bulklen c')"
proof (induction n arbitrary: c pos)
  case (Suc n)
  let ?l = "if c_bulklen c = -1 then read_bulk_line c pos else Line_ok c pos"
  have l: "case ?l of
      Line_error c' \<Rightarrow> c_close c'
    | Line_wait \<Rightarrow> True
    | Line_ok c' pos' \<Rightarrow> pos' \<le> length (c_querybuf c') \<and> length (c_querybuf c') - pos' \<le> length (c_querybuf c) - pos \<and>
        0 \<le> c_bulklen c' \<and> c_multibulklen c' = c_multibulklen c \<and> c_reqtype c' = c_reqtype c \<and> c_close c' = c_close c"
    using read_bulk_line_inv [OF Suc.prems(2)] Suc.prems(2,3) by (cases "c_bulklen c = -1") simp_all
  show ?case
  proof (cases ?l)
    case (Line_ok c1 p1)
    note l1 = l [unfolded Line_ok bulk_line.case]
    show ?thesis
    proof (cases "length (c_querybuf c1) - p1 < nat (c_bulklen c1 + 2)")
      case True
      then show ?thesis using Line_ok l1 Suc.prems(1) by (simp del: if_split)
    next
      case False
      note en = False
      show ?thesis
      proof (cases "p1 = 0 \<and> c_bulklen c1 \<ge> PROTO_MBULK_BIG_ARG \<and> int (length (c_querybuf c1)) = c_bulklen c1 + 2")
        case True
        let ?c = "c1\<lparr>c_argv := c_argv c1 @ [take (nat (c_bulklen c1)) (c_querybuf c1)], c_querybuf := [], c_bulklen := -1, c_multibulklen := n\<rparr>"
        have r: "bulk_loop (Suc n) c pos = bulk_loop n ?c 0" using Line_ok en True by simp
        show ?thesis unfolding r using Suc.IH [of ?c 0] l1 True by (auto split: sum.splits)
      next
        case False
        let ?c = "c1\<lparr>c_argv := c_argv c1 @ [take (nat (c_bulklen c1)) (drop p1 (c_querybuf c1))], c_bulklen := -1, c_multibulklen := n\<rparr>"
        let ?p = "p1 + nat (c_bulklen c1) + 2"
        have r: "bulk_loop (Suc n) c pos = bulk_loop n ?c ?p" by (simp only: bulk_loop.simps Line_ok bulk_line.case if_not_P [OF en] if_not_P [OF False])
        have p: "?p \<le> length (c_querybuf c1)" using en l1 by linarith
        show ?thesis unfolding r using Suc.IH [of ?c ?p] l1 p by (auto split: sum.splits)
      qed
    qed
  qed (use l Suc.prems in \<open>simp_all split del: if_split\<close>)
qed simp


lemma read_bulks_inv:
  assumes "c_multibulklen c \<noteq> 0" "pos \<le> length (c_querybuf c)" "-1 \<le> c_bulklen c" "read_bulks c pos = (c', ok)"
  shows "(\<not> ok \<longrightarrow> c_close c' \<or> c_multibulklen c' \<noteq> 0 \<and> c_reqtype c' = c_reqtype c \<and> -1 \<le> c_bulklen c') \<and>
    (ok \<longrightarrow> length (c_querybuf c') < length (c_querybuf c) - pos)"
  using bulk_loop_inv [OF refl assms(2,3)] assms(1,4) by (auto simp: read_bulks_def split: sum.splits prod.splits)

lemma split_args_total: "sdssplitargs (line @ [0]) \<noteq> None"
  by (simp add: sdssplitargs_def split_args_ok)

lemma processInlineBuffer_inv:
  assumes "c_querybuf c \<noteq> []"
  shows "\<exists>c' ok. processInlineBuffer u c = Some (c', ok) \<and>
    (ok \<longrightarrow> length (c_querybuf c') < length (c_querybuf c)) \<and>
    (\<not> ok \<longrightarrow> c_close c' \<or> c' = c)"
proof (cases "find_char 10 (c_querybuf c)")
  case (Some nl)
  let ?ql = "inline_querylen (c_querybuf c) nl"
  obtain a where a: "sdssplitargs (take ?ql (c_querybuf c) @ [0]) = Some a"
    using split_args_total [of "take ?ql (c_querybuf c)"] by blast
  show ?thesis
  proof (cases a)
    case None
    then show ?thesis using Some a by (auto simp: processInlineBuffer_def setProtocolError_def)
  next
    case (Some argv)
    then show ?thesis using \<open>find_char 10 (c_querybuf c) = Some nl\<close> a assms
      by (auto simp: processInlineBuffer_def Let_def)
  qed
qed (auto simp: processInlineBuffer_def setProtocolError_def)

lemma processMultibulkBuffer_inv:
  assumes "c_querybuf c \<noteq> []" "-1 \<le> c_bulklen c" "c_multibulklen c = 0 \<Longrightarrow> c_argv c = [] \<and> c_bulklen c = -1 \<and> c_querybuf c ! 0 = 42"
  shows "\<exists>c' ok. processMultibulkBuffer c = Some (c', ok) \<and>
    (ok \<longrightarrow> length (c_querybuf c') < length (c_querybuf c)) \<and>
    (\<not> ok \<longrightarrow> c_close c' \<or> c' = c \<or> c_multibulklen c' \<noteq> 0 \<and> c_reqtype c' = c_reqtype c \<and> -1 \<le> c_bulklen c')"
proof (cases "c_multibulklen c = 0")
  case False
  then show ?thesis using read_bulks_inv [OF False, of 0] assms(2) by (cases "read_bulks c 0") (auto simp: processMultibulkBuffer_def)
next
  case True
  note a = assms(3) [OF True]
  show ?thesis
  proof (cases "find_char 13 (c_querybuf c)")
    case None
    then show ?thesis using True a by (auto simp: processMultibulkBuffer_def setProtocolError_def)
  next
    case (Some nl)
    show ?thesis
    proof (cases "int nl > int (length (c_querybuf c)) - 2")
      case True
      then show ?thesis using \<open>c_multibulklen c = 0\<close> Some a by (auto simp: processMultibulkBuffer_def)
    next
      case False
      then have nl: "nl + 2 \<le> length (c_querybuf c)" by linarith
      show ?thesis
      proof (cases "string2ll (take (nl - 1) (drop 1 (c_querybuf c)))")
        case None
        then show ?thesis using True Some a False by (auto simp: processMultibulkBuffer_def setProtocolError_def)
      next
        case ll: (Some ll)
        let ?c = "c\<lparr>c_multibulklen := nat ll\<rparr>"
        obtain c' ok where r: "read_bulks ?c (nl + 2) = (c', ok)" by (cases "read_bulks ?c (nl + 2)")
        have P: "processMultibulkBuffer c =
            (if ll > 1024 * 1024 then Some (setProtocolError Invalid_mbulk_length c 0, False)
             else if ll \<le> 0 then Some (c\<lparr>c_querybuf := drop (nl + 2) (c_querybuf c)\<rparr>, True)
             else Some (c', ok))"
          using True Some a False ll r by (simp add: processMultibulkBuffer_def)
        consider "ll > 1024 * 1024" | "ll \<le> 0" | "0 < ll" "ll \<le> 1024 * 1024" by linarith
        then show ?thesis
        proof cases
          case 3
          have "nat ll \<noteq> 0" using 3 by simp
          then have i: "(\<not> ok \<longrightarrow> c_close c' \<or> c_multibulklen c' \<noteq> 0 \<and> c_reqtype c' = c_reqtype c \<and> -1 \<le> c_bulklen c') \<and>
              (ok \<longrightarrow> length (c_querybuf c') < length (c_querybuf c) - (nl + 2))"
            using read_bulks_inv [OF _ _ _ r] nl a by simp
          have "processMultibulkBuffer c = Some (c', ok)" using P 3 by simp
          then show ?thesis using i by auto
        next
          case 1
          then have "processMultibulkBuffer c = Some (setProtocolError Invalid_mbulk_length c 0, False)" using P by simp
          then show ?thesis by (auto simp: setProtocolError_def)
        next
          case 2
          then have "processMultibulkBuffer c = Some (c\<lparr>c_querybuf := drop (nl + 2) (c_querybuf c)\<rparr>, True)" using P by simp
          moreover have "length (drop (nl + 2) (c_querybuf c)) < length (c_querybuf c)" using nl by simp
          ultimately show ?thesis by (intro exI [of _ "c\<lparr>c_querybuf := drop (nl + 2) (c_querybuf c)\<rparr>"] exI [of _ True]) simp
        qed
      qed
    qed
  qed
qed

lemma processInputBuffer_wf:
  assumes env: "env_ok env"
  shows "client_wf c \<Longrightarrow> \<exists>c' s'. processInputBuffer env c s = Some (c', s') \<and> (client_wf c' \<or> env_stopped env s' \<or> env_gone env s')"
proof (induction "length (c_querybuf c)" arbitrary: c s rule: less_induct)
  case less
  show ?case
  proof (cases "c_querybuf c = [] \<or> env_stopped env s \<or> c_close c")
    case True
    then show ?thesis using less.prems by (subst processInputBuffer.simps) auto
  next
    case False
    let ?c = "choose_type c"
    let ?p = "if c_reqtype ?c = Req_Inline then processInlineBuffer (env_unixtime env s) ?c else processMultibulkBuffer ?c"
    have q: "c_querybuf ?c = c_querybuf c" "c_querybuf ?c \<noteq> []" "c_close ?c = c_close c"
      using False by (auto simp: choose_type_def)
    have wf: "client_wf ?c" and "c_reqtype ?c \<noteq> Req_None" using less.prems False by (auto simp: client_wf_def choose_type_def)
    then have rt: "c_reqtype ?c = Req_Inline \<or> c_reqtype ?c = Req_Multibulk" by (cases "c_reqtype ?c") auto
    have "\<exists>c1 ok. ?p = Some (c1, ok) \<and> (ok \<longrightarrow> length (c_querybuf c1) < length (c_querybuf c)) \<and> (\<not> ok \<longrightarrow> client_wf c1)"
    proof (cases "c_reqtype ?c = Req_Inline")
      case True
      from processInlineBuffer_inv [OF q(2), of "env_unixtime env s"] obtain c1 ok where
        "processInlineBuffer (env_unixtime env s) ?c = Some (c1, ok)" "ok \<longrightarrow> length (c_querybuf c1) < length (c_querybuf ?c)"
        "\<not> ok \<longrightarrow> c_close c1 \<or> c1 = ?c" by blast
      moreover from this(3) have "\<not> ok \<longrightarrow> client_wf c1" using wf by (auto simp: client_wf_def)
      ultimately show ?thesis using True q(1) by (intro exI [of _ c1] exI [of _ ok]) simp
    next
      case F: False
      then have m: "c_reqtype ?c = Req_Multibulk" using rt by simp
      have "-1 \<le> c_bulklen ?c" "c_multibulklen ?c = 0 \<Longrightarrow> c_argv ?c = [] \<and> c_bulklen ?c = -1 \<and> c_querybuf ?c ! 0 = 42"
        using wf m False q(3) by (auto simp: client_wf_def)
      from processMultibulkBuffer_inv [OF q(2) this] obtain c1 ok where
        "processMultibulkBuffer ?c = Some (c1, ok)" "ok \<longrightarrow> length (c_querybuf c1) < length (c_querybuf ?c)"
        "\<not> ok \<longrightarrow> c_close c1 \<or> c1 = ?c \<or> c_multibulklen c1 \<noteq> 0 \<and> c_reqtype c1 = c_reqtype ?c \<and> -1 \<le> c_bulklen c1" by blast
      moreover from this(3) have "\<not> ok \<longrightarrow> client_wf c1" using wf m by (auto simp: client_wf_def)
      ultimately show ?thesis using F q(1) by (intro exI [of _ c1] exI [of _ ok]) simp
    qed
    then obtain c1 ok where p: "?p = Some (c1, ok)" "ok \<longrightarrow> length (c_querybuf c1) < length (c_querybuf c)" "\<not> ok \<longrightarrow> client_wf c1" by blast
    have step: "processInputBuffer env c s =
        (if \<not> ok then Some (c1, s)
         else let (c, s, gone) = after_parse env c1 s in if gone then Some (c, s) else processInputBuffer env c s)"
      using False p(1) by (subst processInputBuffer.simps) (simp add: Let_def)
    show ?thesis
    proof (cases ok)
      case False
      then show ?thesis using step p(3) by auto
    next
      case ok: True
      obtain c2 s2 gone where a: "after_parse env c1 s = (c2, s2, gone)" by (cases "after_parse env c1 s")
      have c2: "c_querybuf c2 = c_querybuf c1" "gone = (c_argv c1 \<noteq> [] \<and> env_gone env s2)" "client_wf c2 \<or> env_stopped env s2 \<or> env_gone env s2"
        using a env by (auto simp: after_parse_def resetClient_def client_wf_def env_ok_def Let_def split: if_splits prod.splits)
      show ?thesis
      proof (cases "client_wf c2 \<and> \<not> gone")
        case True
        then show ?thesis using less.hyps [of c2 s2] p(2) ok c2(1) step a by simp
      next
        case False
        then have "gone \<or> env_stopped env s2 \<or> env_gone env s2" using c2(3) by auto
        moreover have "processInputBuffer env c2 s2 = Some (c2, s2)" if "env_stopped env s2"
          using that by (subst processInputBuffer.simps) simp
        moreover have "c_argv c1 \<noteq> []" if "\<not> client_wf c2" using that a by (auto simp: after_parse_def resetClient_def client_wf_def)
        ultimately show ?thesis using step a ok c2 False by auto
      qed
    qed
  qed
qed


lemma client_wf_append: "client_wf c \<Longrightarrow> client_wf (c\<lparr>c_querybuf := c_querybuf c @ data\<rparr>)"
  by (auto simp: client_wf_def nth_append)

text \<open>The fields of a replication link do not matter.\<close>

lemma client_wf_cong:
  "c_querybuf c' = c_querybuf c \<Longrightarrow> c_reqtype c' = c_reqtype c \<Longrightarrow> c_multibulklen c' = c_multibulklen c \<Longrightarrow>
   c_bulklen c' = c_bulklen c \<Longrightarrow> c_argv c' = c_argv c \<Longrightarrow> c_close c' = c_close c \<Longrightarrow> client_wf c' = client_wf c"
  by (simp add: client_wf_def)

text \<open>Commands that are only recorded.\<close>

definition recording :: "bytes list list cmd_env" where
  "recording = \<lparr>env_process = \<lambda>argv s. (s @ [argv], True), env_stopped = \<lambda>_. False, env_gone = \<lambda>_. False,
     env_multi = \<lambda>_. False, env_keep = \<lambda>_. False, env_unixtime = \<lambda>_. 0\<rparr>"

definition new_client :: netclient where
  "new_client = \<lparr>c_querybuf = [], c_reqtype = Req_None, c_multibulklen = 0, c_bulklen = -1, c_argv = [], c_close = False,
     c_errors = [], c_slave = False, c_ack_time = 0, c_master = False, c_reploff = 0, c_read_reploff = 0, c_pending = []\<rparr>"

text \<open>
  C9. The server survives any input. Whatever bytes arrive, in whatever portions, processing the
  query buffer ends and fails no assertion (among them those on the type of the request and on the
  arguments left from the last one); the client is left
  in a state from which the next portion can be processed, unless the command closed, blocked or
  freed it.
\<close>

theorem requests_handled:
  assumes "env_ok env" and "client_wf c"
  shows "\<exists>r s' fed. readQueryFromClient env maxlen c s data = Some (r, s', fed) \<and>
    (case r of None \<Rightarrow> True | Some c' \<Rightarrow> client_wf c' \<or> env_stopped env s' \<or> env_gone env s')"
proof (cases "data = [] \<or> length (c_querybuf c @ data) > maxlen")
  case True
  then show ?thesis by (auto simp: readQueryFromClient_def Let_def)
next
  case False
  define c1 where "c1 = (let c = (if c_master c then c\<lparr>c_pending := c_pending c @ data\<rparr> else c); c = c\<lparr>c_querybuf := c_querybuf c @ data\<rparr>
    in (if c_master c then c\<lparr>c_read_reploff := c_read_reploff c + int (length data)\<rparr> else c))"
  have "client_wf c1 = client_wf (c\<lparr>c_querybuf := c_querybuf c @ data\<rparr>)"
    by (rule client_wf_cong) (simp_all add: c1_def Let_def)
  then have "client_wf c1" using client_wf_append [OF assms(2)] by simp
  from processInputBuffer_wf [OF assms(1) this, of s] obtain c2 s2 where
    p: "processInputBuffer env c1 s = Some (c2, s2)" "client_wf c2 \<or> env_stopped env s2 \<or> env_gone env s2" by blast
  have q: "c_querybuf c1 = c_querybuf c @ data" "c_master c1 = c_master c" by (simp_all add: c1_def Let_def)
  have r: "readQueryFromClient env maxlen c s data =
      (if \<not> c_master c1 then do { (c, s) \<leftarrow> processInputBuffer env c1 s; Some (Some c, s, []) }
       else do {
         let prev_offset = c_reploff c1;
         (c, s) \<leftarrow> processInputBuffer env c1 s;
         let applied = nat (c_reploff c - prev_offset);
         Some (Some (c\<lparr>c_pending := drop applied (c_pending c)\<rparr>), s, take applied (c_pending c))
       })"
    using False q unfolding readQueryFromClient_def c1_def by (simp add: Let_def)
  show ?thesis
  proof (cases "c_master c1")
    case True
    have "client_wf (c2\<lparr>c_pending := d\<rparr>) = client_wf c2" for d by (rule client_wf_cong) simp_all
    then show ?thesis using r p True by (simp add: Let_def)
  qed (use r p in simp)
qed

theorem requests_handled_witness:
  "\<exists>r s' fed. readQueryFromClient recording 1000 new_client [] [42, 50, 13, 10, 36, 45, 49, 13, 10] = Some (r, s', fed) \<and>
    (case r of None \<Rightarrow> True | Some c' \<Rightarrow> client_wf c' \<or> env_stopped recording s' \<or> env_gone recording s')"
proof -
  have "env_ok recording" "client_wf new_client" by (simp_all add: env_ok_def recording_def client_wf_def new_client_def)
  then show ?thesis by (rule requests_handled)
qed

end
