(* ===== verification/Protocol_Stream.thy ===== *)
theory Protocol_Stream
  imports Protocol
begin

text \<open>
  What the parser does with a stream of well-formed requests that arrives in portions of any size,
  and three ways in which it fails requests that are well-formed.
\<close>

section \<open>Lines\<close>

lemma dec_nat_set: "b \<in> set (dec_nat n) \<Longrightarrow> is_digit b"
proof (induction n rule: dec_nat.induct)
  case (1 n)
  show ?case
  proof (cases "n < 10")
    case True
    then show ?thesis using 1 digit_is_digit [of n] by (simp add: dec_nat_less)
  next
    case False
    then show ?thesis using 1 digit_is_digit [of "n mod 10"] by (auto simp: dec_nat_step)
  qed
qed

lemma digit_not_cr: "is_digit b \<Longrightarrow> b \<noteq> 0 \<and> b \<noteq> 13"
  by (auto simp: is_digit_def word_le_nat_alt)

lemma find_line:
  assumes "q @ rest = ds @ 13 # X" "\<And>b. b \<in> set ds \<Longrightarrow> b \<noteq> 0 \<and> b \<noteq> 13"
  shows "find_char 13 q = (if length q \<le> length ds then None else Some (length ds))"
  using assms
proof (induction ds arbitrary: q)
  case Nil
  then show ?case by (cases q) auto
next
  case (Cons d ds)
  then show ?case by (cases q) auto
qed

lemma find_num_line:
  assumes "q @ rest = p # dec_nat n @ crlf @ X" "p \<noteq> 0" "p \<noteq> 13"
  shows "find_char 13 q = (if length q \<le> Suc (length (dec_nat n)) then None else Some (Suc (length (dec_nat n))))"
proof -
  have "b \<noteq> 0 \<and> b \<noteq> 13" if "b \<in> set (p # dec_nat n)" for b
    using that assms(2,3) digit_not_cr [OF dec_nat_set [of b n]] by auto
  moreover have "q @ rest = (p # dec_nat n) @ 13 # 10 # X" using assms(1) by (simp add: crlf_def)
  ultimately show ?thesis using find_line [of q rest "p # dec_nat n" "10 # X"] by simp
qed

lemma append_take_eq: "q @ rest = xs @ ys \<Longrightarrow> length xs \<le> length q \<Longrightarrow> take (length xs) q = xs \<and> drop (length xs) q @ rest = ys"
  by (auto simp: append_eq_append_conv2)

lemma num_line_body:
  assumes "q @ rest = p # dec_nat n @ crlf @ X" "length (dec_nat n) + 3 \<le> length q" "n < 2 ^ 63"
  shows "q ! 0 = p" "string2ll (take (length (dec_nat n)) (drop 1 q)) = Some (int n)" "drop (length (dec_nat n) + 3) q @ rest = X"
proof -
  let ?l = "p # dec_nat n @ crlf"
  have a: "q @ rest = ?l @ X" using assms(1) by simp
  have len: "length ?l = length (dec_nat n) + 3" by (simp add: crlf_def)
  from append_take_eq [OF a] have t: "take (length (dec_nat n) + 3) q = ?l" "drop (length (dec_nat n) + 3) q @ rest = X"
    unfolding len [symmetric] using assms(2) len by auto
  then have q: "q = ?l @ drop (length (dec_nat n) + 3) q" by (metis append_take_drop_id)
  show "q ! 0 = p" using q by (metis append_Cons nth_Cons_0)
  have "take (length (dec_nat n)) (drop 1 q) = dec_nat n" by (subst q) simp
  then show "string2ll (take (length (dec_nat n)) (drop 1 q)) = Some (int n)"
    using string2ll_iff [of "dec_nat n" "int n"] assms(3) by (simp add: LLONG_MIN_def LLONG_MAX_def)
  show "drop (length (dec_nat n) + 3) q @ rest = X" by (rule t)
qed

section \<open>Arguments\<close>

abbreviation max_bulk :: nat where "max_bulk \<equiv> 512 * 1024 * 1024"

text \<open>What is still to come of the arguments \<open>todo\<close>, and how many bytes the next step needs.\<close>

definition bulk_rest :: "int \<Rightarrow> bytes list \<Rightarrow> bytes" where
  "bulk_rest bl todo = (if bl = -1 then concat (map enc_bulk todo) else hd todo @ crlf @ concat (map enc_bulk (tl todo)))"

definition bulk_need :: "int \<Rightarrow> bytes list \<Rightarrow> nat" where
  "bulk_need bl todo = (if bl = -1 then length (dec_nat (length (hd todo))) + 3 else length (hd todo) + 2)"

definition bulk_st :: "netclient \<Rightarrow> bytes list \<Rightarrow> bool" where
  "bulk_st c todo \<longleftrightarrow> c_multibulklen c = length todo \<and> (c_bulklen c = -1 \<or> todo \<noteq> [] \<and> c_bulklen c = int (length (hd todo)))"

text \<open>The parser changes only its own fields.\<close>

definition same_link :: "netclient \<Rightarrow> netclient \<Rightarrow> bool" where
  "same_link c c' \<longleftrightarrow> c'\<lparr>c_querybuf := [], c_multibulklen := 0, c_bulklen := 0, c_argv := []\<rparr> =
     c\<lparr>c_querybuf := [], c_multibulklen := 0, c_bulklen := 0, c_argv := []\<rparr>"

lemma same_linkD:
  assumes "same_link c c'"
  shows "c_reqtype c' = c_reqtype c \<and> c_close c' = c_close c \<and> c_master c' = c_master c \<and>
    c_reploff c' = c_reploff c \<and> c_read_reploff c' = c_read_reploff c \<and> c_pending c' = c_pending c \<and> c_errors c' = c_errors c"
proof -
  have "f (c'\<lparr>c_querybuf := [], c_multibulklen := 0, c_bulklen := 0, c_argv := []\<rparr>) =
      f (c\<lparr>c_querybuf := [], c_multibulklen := 0, c_bulklen := 0, c_argv := []\<rparr>)" for f :: "netclient \<Rightarrow> 'a"
    using assms by (simp add: same_link_def)
  from this [of c_reqtype] this [of c_close] this [of c_master] this [of c_reploff] this [of c_read_reploff] this [of c_pending] this [of c_errors]
  show ?thesis by simp
qed

lemma same_link_trans: "same_link a b \<Longrightarrow> same_link b c \<Longrightarrow> same_link a c"
  by (simp add: same_link_def)

lemma same_link_upd [simp]:
  "same_link c c" "same_link c (c\<lparr>c_querybuf := q\<rparr>)" "same_link c (c\<lparr>c_bulklen := b\<rparr>)" "same_link c (c\<lparr>c_multibulklen := m\<rparr>)"
  "same_link c (c\<lparr>c_querybuf := q, c_bulklen := b\<rparr>)"
  "same_link c (c\<lparr>c_argv := a, c_bulklen := b, c_multibulklen := m\<rparr>)"
  "same_link c (c\<lparr>c_argv := a, c_querybuf := q, c_bulklen := b, c_multibulklen := m\<rparr>)"
  by (simp_all add: same_link_def)

lemma read_bulk_line_valid:
  assumes "drop pos (c_querybuf c) @ rest = enc_bulk a @ X" "pos \<le> length (c_querybuf c)" "length a \<le> max_bulk"
    "length (c_querybuf c) \<le> PROTO_INLINE_MAX_SIZE"
  defines "l \<equiv> length (dec_nat (length a)) + 3"
  shows "read_bulk_line c pos =
    (if length (c_querybuf c) - pos < l then Line_wait
     else if PROTO_MBULK_BIG_ARG \<le> int (length a)
       then Line_ok (c\<lparr>c_querybuf := drop (pos + l) (c_querybuf c), c_bulklen := int (length a)\<rparr>) 0
       else Line_ok (c\<lparr>c_bulklen := int (length a)\<rparr>) (pos + l))"
proof -
  let ?q = "drop pos (c_querybuf c)" and ?n = "length (dec_nat (length a))"
  have e: "?q @ rest = 36 # dec_nat (length a) @ crlf @ (a @ crlf @ X)" using assms(1) by (simp add: enc_bulk_def)
  have f: "find_char 13 ?q = (if length ?q \<le> Suc ?n then None else Some (Suc ?n))" by (rule find_num_line [OF e]) auto
  show ?thesis
  proof (cases "length (c_querybuf c) - pos < l")
    case True
    then have "length ?q \<le> Suc (Suc ?n)" by (simp add: l_def)
    then consider "length ?q \<le> Suc ?n" | "length ?q = Suc (Suc ?n)" by linarith
    then show ?thesis
    proof cases
      case 1
      then show ?thesis using f True assms(4) by (simp add: read_bulk_line_def)
    next
      case 2
      then have "int (pos + Suc ?n) > int (length (c_querybuf c)) - 2" by simp
      then show ?thesis using f 2 True by (simp add: read_bulk_line_def)
    qed
  next
    case False
    then have len: "?n + 3 \<le> length ?q" by (simp add: l_def)
    have "length a < 2 ^ 63" using assms(3) by simp
    note b = num_line_body [OF e len this]
    have "c_querybuf c ! pos = 36" using b(1) len by (simp add: nth_drop)
    moreover have "take ?n (drop (pos + 1) (c_querybuf c)) = take ?n (drop 1 ?q)" by (simp add: add.commute)
    moreover have "\<not> int (pos + Suc ?n) > int (length (c_querybuf c)) - 2" using len by simp
    ultimately show ?thesis using f len b(2) False assms(3) by (simp add: read_bulk_line_def l_def add.assoc numeral_3_eq_3)
  qed
qed


text \<open>
  The buffer is small, or it holds no more than the long argument that is being read: then the
  size limit of a line is not applied to the arguments before it.
\<close>

definition small_buf :: "netclient \<Rightarrow> nat \<Rightarrow> bool" where
  "small_buf c pos \<longleftrightarrow> length (c_querybuf c) \<le> PROTO_INLINE_MAX_SIZE \<or>
     c_bulklen c \<noteq> -1 \<and> pos = 0 \<and> int (length (c_querybuf c)) \<le> c_bulklen c + 2"

text \<open>One argument whose length is known.\<close>

lemma bulk_body_valid:
  assumes "bulk_st c (a # todo)" "c_bulklen c \<noteq> -1" "pos \<le> length (c_querybuf c)" "small_buf c pos"
    "drop pos (c_querybuf c) @ rest = bulk_rest (c_bulklen c) (a # todo) @ X" "length a + 2 \<le> length (c_querybuf c) - pos"
  shows "\<exists>c' pos'. bulk_loop (Suc n) c pos = bulk_loop n c' pos' \<and> pos' \<le> length (c_querybuf c') \<and>
    (n = length todo \<longrightarrow> bulk_st c' todo) \<and> c_bulklen c' = -1 \<and> length (c_querybuf c') \<le> PROTO_INLINE_MAX_SIZE + pos' \<and> small_buf c' pos' \<and>
    drop pos' (c_querybuf c') @ rest = bulk_rest (-1) todo @ X \<and> c_argv c' = c_argv c @ [a] \<and> same_link c c'"
proof -
  have bl: "c_bulklen c = int (length a)" using assms(1,2) by (simp add: bulk_st_def)
  have e: "drop pos (c_querybuf c) @ rest = (a @ crlf) @ bulk_rest (-1) todo @ X"
    using assms(5) by (simp add: bulk_rest_def bl)
  have l2: "length (a @ crlf) = length a + 2" by (simp add: crlf_def)
  from append_take_eq [OF e] assms(6) l2
  have t: "take (length a + 2) (drop pos (c_querybuf c)) = a @ crlf" "drop (length a + 2) (drop pos (c_querybuf c)) @ rest = bulk_rest (-1) todo @ X"
    by auto
  have ta: "take (length a) (drop pos (c_querybuf c)) = a"
  proof -
    have "take (length a) (drop pos (c_querybuf c)) = take (length a) (a @ crlf)" unfolding t(1) [symmetric] by (simp add: min_def)
    then show ?thesis by simp
  qed
  have ge: "\<not> length (c_querybuf c) - pos < nat (c_bulklen c + 2)" using assms(6) bl by linarith
  show ?thesis
  proof (cases "pos = 0 \<and> c_bulklen c \<ge> PROTO_MBULK_BIG_ARG \<and> int (length (c_querybuf c)) = c_bulklen c + 2")
    case True
    let ?c = "c\<lparr>c_argv := c_argv c @ [take (nat (c_bulklen c)) (c_querybuf c)], c_querybuf := [], c_bulklen := -1, c_multibulklen := n\<rparr>"
    have "length (c_querybuf c) = length a + 2" using True bl by linarith
    then have "rest = bulk_rest (-1) todo @ X" using t(2) True by simp
    moreover have "bulk_loop (Suc n) c pos = bulk_loop n ?c 0"
      using assms(2) ge True by simp
    ultimately show ?thesis using ta bl True
      by (intro exI [of _ ?c] exI [of _ 0]) (simp add: bulk_st_def small_buf_def)
  next
    case False
    let ?c = "c\<lparr>c_argv := c_argv c @ [take (nat (c_bulklen c)) (drop pos (c_querybuf c))], c_bulklen := -1, c_multibulklen := n\<rparr>"
    let ?p = "pos + nat (c_bulklen c) + 2"
    have r: "bulk_loop (Suc n) c pos = bulk_loop n ?c ?p"
      unfolding bulk_loop.simps(2) if_not_P [OF assms(2)] bulk_line.case if_not_P [OF ge] if_not_P [OF False] by (rule refl)
    have p: "?p \<le> length (c_querybuf c)" using assms(3,6) bl by linarith
    have sm: "length (c_querybuf c) \<le> PROTO_INLINE_MAX_SIZE"
    proof (rule ccontr)
      assume n: "\<not> ?thesis"
      then have "pos = 0" "int (length (c_querybuf c)) \<le> c_bulklen c + 2" using assms(4) by (auto simp: small_buf_def)
      moreover have "c_bulklen c + 2 \<le> int (length (c_querybuf c))" using assms(6) bl \<open>pos = 0\<close> by linarith
      ultimately show False using False n bl by (simp add: PROTO_INLINE_MAX_SIZE_def PROTO_MBULK_BIG_ARG_def)
    qed
    have "drop ?p (c_querybuf c) @ rest = bulk_rest (-1) todo @ X" using t(2) bl by (simp add: add.commute add.left_commute)
    then show ?thesis using r p ta bl sm
      by (intro exI [of _ ?c] exI [of _ ?p]) (simp add: bulk_st_def small_buf_def)
  qed
qed

lemma bulk_loop_valid:
  "\<forall>a \<in> set todo. length a \<le> max_bulk \<Longrightarrow> bulk_st c todo \<Longrightarrow> pos \<le> length (c_querybuf c) \<Longrightarrow> small_buf c pos \<Longrightarrow>
   drop pos (c_querybuf c) @ rest = bulk_rest (c_bulklen c) todo @ X \<Longrightarrow>
   \<exists>c' pos' todo'. bulk_loop (length todo) c pos = Inr (c', pos') \<and> pos' \<le> length (c_querybuf c') \<and> bulk_st c' todo' \<and>
     drop pos' (c_querybuf c') @ rest = bulk_rest (c_bulklen c') todo' @ X \<and> c_argv c' @ todo' = c_argv c @ todo \<and> same_link c c' \<and>
     (if todo' = [] then length (c_querybuf c') \<le> PROTO_INLINE_MAX_SIZE + pos' else length (c_querybuf c') - pos' < bulk_need (c_bulklen c') todo')"
proof (induction todo arbitrary: c pos)
  case Nil
  then have "c_bulklen c = -1" by (simp add: bulk_st_def)
  then show ?case using Nil
    by (intro exI [of _ c] exI [of _ pos] exI [of _ "[]"]) (auto simp: small_buf_def)
next
  case (Cons a todo)
  let ?R = "\<lambda>c1 r. \<exists>c' pos' todo'. r = Inr (c', pos') \<and> pos' \<le> length (c_querybuf c') \<and> bulk_st c' todo' \<and>
     drop pos' (c_querybuf c') @ rest = bulk_rest (c_bulklen c') todo' @ X \<and> c_argv c' @ todo' = c_argv c1 @ a # todo \<and> same_link c1 c' \<and>
     (if todo' = [] then length (c_querybuf c') \<le> PROTO_INLINE_MAX_SIZE + pos' else length (c_querybuf c') - pos' < bulk_need (c_bulklen c') todo')"
  have body: "?R c1 (bulk_loop (Suc (length todo)) c1 p1)"
    if st: "bulk_st c1 (a # todo)" "c_bulklen c1 \<noteq> -1" "p1 \<le> length (c_querybuf c1)" "small_buf c1 p1"
      "drop p1 (c_querybuf c1) @ rest = bulk_rest (c_bulklen c1) (a # todo) @ X" for c1 p1
  proof (cases "length a + 2 \<le> length (c_querybuf c1) - p1")
    case True
    from bulk_body_valid [OF st True, of "length todo"] obtain c2 p2 where
      2: "bulk_loop (Suc (length todo)) c1 p1 = bulk_loop (length todo) c2 p2" "p2 \<le> length (c_querybuf c2)" "bulk_st c2 todo" "c_bulklen c2 = -1"
        "small_buf c2 p2" "drop p2 (c_querybuf c2) @ rest = bulk_rest (-1) todo @ X" "c_argv c2 = c_argv c1 @ [a]" "same_link c1 c2" by blast
    have "drop p2 (c_querybuf c2) @ rest = bulk_rest (c_bulklen c2) todo @ X" using 2(4,6) by simp
    from Cons.IH [OF _ 2(3,2,5) this] Cons.prems(1) obtain c' pos' todo' where
      "bulk_loop (length todo) c2 p2 = Inr (c', pos')" "pos' \<le> length (c_querybuf c')" "bulk_st c' todo'"
      "drop pos' (c_querybuf c') @ rest = bulk_rest (c_bulklen c') todo' @ X" "c_argv c' @ todo' = c_argv c2 @ todo" "same_link c2 c'"
      "if todo' = [] then length (c_querybuf c') \<le> PROTO_INLINE_MAX_SIZE + pos' else length (c_querybuf c') - pos' < bulk_need (c_bulklen c') todo'"
      by auto
    then show ?thesis using 2(1,7) same_link_trans [OF 2(8)] by (intro exI [of _ c'] exI [of _ pos'] exI [of _ todo']) simp
  next
    case False
    have bl: "c_bulklen c1 = int (length a)" using st(1,2) by (simp add: bulk_st_def)
    then have "length (c_querybuf c1) - p1 < nat (c_bulklen c1 + 2)" using False by linarith
    then have "bulk_loop (Suc (length todo)) c1 p1 = Inr (c1, p1)" "bulk_need (c_bulklen c1) (a # todo) = length a + 2"
      using st(2) bl by (simp_all add: bulk_need_def)
    then show ?thesis using st False by (intro exI [of _ c1] exI [of _ p1] exI [of _ "a # todo"]) simp
  qed
  show ?case
  proof (cases "c_bulklen c = -1")
    case False
    then show ?thesis using body [OF Cons.prems(2) False Cons.prems(3-5)] by simp
  next
    case True
    let ?l = "length (dec_nat (length a)) + 3"
    have sm: "length (c_querybuf c) \<le> PROTO_INLINE_MAX_SIZE" using Cons.prems(4) True by (auto simp: small_buf_def)
    have e: "drop pos (c_querybuf c) @ rest = enc_bulk a @ bulk_rest (-1) todo @ X" using Cons.prems(5) True by (simp add: bulk_rest_def)
    note rl = read_bulk_line_valid [OF e Cons.prems(3) _ sm]
    show ?thesis
    proof (cases "length (c_querybuf c) - pos < ?l")
      case w: True
      then have "bulk_loop (length (a # todo)) c pos = Inr (c, pos)" using rl True Cons.prems(1) by simp
      then show ?thesis using Cons.prems w True
        by (intro exI [of _ c] exI [of _ pos] exI [of _ "a # todo"]) (simp add: bulk_need_def)
    next
      case False
      have aX: "drop (pos + ?l) (c_querybuf c) @ rest = a @ crlf @ bulk_rest (-1) todo @ X"
        using append_take_eq [of "drop pos (c_querybuf c)" rest "36 # dec_nat (length a) @ crlf" "a @ crlf @ bulk_rest (-1) todo @ X"] e False
        by (simp add: enc_bulk_def crlf_def add.commute numeral_3_eq_3)
      define c1 p1 where "c1 = (if PROTO_MBULK_BIG_ARG \<le> int (length a) then c\<lparr>c_querybuf := drop (pos + ?l) (c_querybuf c), c_bulklen := int (length a)\<rparr> else c\<lparr>c_bulklen := int (length a)\<rparr>)"
        and "p1 = (if PROTO_MBULK_BIG_ARG \<le> int (length a) then 0 else pos + ?l)"
      have r: "read_bulk_line c pos = Line_ok c1 p1" using rl False Cons.prems(1) by (simp add: c1_def p1_def)
      have b1: "c_bulklen c1 = int (length a)" "drop p1 (c_querybuf c1) = drop (pos + ?l) (c_querybuf c)" "c_multibulklen c1 = c_multibulklen c" "c_argv c1 = c_argv c"
        "length (c_querybuf c1) \<le> length (c_querybuf c)" "same_link c c1" "p1 \<le> length (c_querybuf c1)"
        using False Cons.prems(3) by (auto simp: c1_def p1_def)
      have eq: "bulk_loop (length (a # todo)) c pos = bulk_loop (Suc (length todo)) c1 p1" using True r b1(1) by simp
      have "?R c1 (bulk_loop (Suc (length todo)) c1 p1)"
        by (rule body) (use Cons.prems(2) b1 sm aX in \<open>auto simp: bulk_st_def small_buf_def bulk_rest_def\<close>)
      then show ?thesis unfolding eq using b1(4) same_link_trans [OF b1(6)] by (elim exE conjE) (intro exI conjI; simp)
    qed
  qed
qed


section \<open>Requests\<close>

definition cmd_ok :: "bytes list \<Rightarrow> bool" where
  "cmd_ok cmd \<longleftrightarrow> cmd \<noteq> [] \<and> length cmd \<le> 1024 * 1024 \<and> (\<forall>a \<in> set cmd. length a \<le> max_bulk)"

definition requests :: "bytes list list \<Rightarrow> bytes" where
  "requests cmds = concat (map enc_cmd cmds)"

text \<open>Between the requests, and inside the first of \<open>cmds\<close>, of which \<open>todo\<close> is still to come.\<close>

definition idle :: "netclient \<Rightarrow> bytes \<Rightarrow> bytes list list \<Rightarrow> bool" where
  "idle c rest cmds \<longleftrightarrow> c_multibulklen c = 0 \<and> c_bulklen c = -1 \<and> c_argv c = [] \<and> c_reqtype c \<noteq> Req_Inline \<and>
     c_querybuf c @ rest = requests cmds"

definition inside :: "netclient \<Rightarrow> bytes list \<Rightarrow> bytes \<Rightarrow> bytes list list \<Rightarrow> bool" where
  "inside c todo rest cmds \<longleftrightarrow> todo \<noteq> [] \<and> c_reqtype c = Req_Multibulk \<and> bulk_st c todo \<and>
     (\<exists>cmds'. cmds = (c_argv c @ todo) # cmds' \<and> c_querybuf c @ rest = bulk_rest (c_bulklen c) todo @ requests cmds')"

definition waiting :: "netclient \<Rightarrow> bytes \<Rightarrow> bytes list list \<Rightarrow> bool" where
  "waiting c rest cmds \<longleftrightarrow> \<not> c_close c \<and>
     (idle c rest cmds \<and> (c_querybuf c = [] \<longrightarrow> c_reqtype c = Req_None) \<and>
        (cmds \<noteq> [] \<longrightarrow> length (c_querybuf c) < length (dec_nat (length (hd cmds))) + 3) \<or>
      (\<exists>todo. inside c todo rest cmds \<and> length (c_querybuf c) < bulk_need (c_bulklen c) todo))"

text \<open>A request was read completely.\<close>

definition complete :: "netclient \<Rightarrow> bytes \<Rightarrow> bytes list list \<Rightarrow> bool" where
  "complete c rest cmds \<longleftrightarrow> c_bulklen c = -1 \<and> length (c_querybuf c) \<le> PROTO_INLINE_MAX_SIZE \<and>
     (\<exists>cmds'. cmds = c_argv c # cmds' \<and> c_querybuf c @ rest = requests cmds')"

definition outcome :: "netclient \<Rightarrow> netclient \<Rightarrow> bool \<Rightarrow> bytes \<Rightarrow> bytes list list \<Rightarrow> bool" where
  "outcome c c' ok rest cmds \<longleftrightarrow> same_link c c' \<and> (if ok then complete c' rest cmds else waiting c' rest cmds)"

lemma read_bulks_valid:
  assumes "todo \<noteq> []" "\<forall>a \<in> set todo. length a \<le> max_bulk" "bulk_st c todo" "pos \<le> length (c_querybuf c)" "small_buf c pos"
    "drop pos (c_querybuf c) @ rest = bulk_rest (c_bulklen c) todo @ requests cmds'" "c_reqtype c = Req_Multibulk" "\<not> c_close c"
  shows "\<exists>c' ok. read_bulks c pos = (c', ok) \<and> outcome c c' ok rest ((c_argv c @ todo) # cmds')"
proof -
  have n: "c_multibulklen c = length todo" using assms(3) by (simp add: bulk_st_def)
  from bulk_loop_valid [OF assms(2-6)] obtain c1 p1 todo' where
    l: "bulk_loop (length todo) c pos = Inr (c1, p1)" "p1 \<le> length (c_querybuf c1)" "bulk_st c1 todo'"
      "drop p1 (c_querybuf c1) @ rest = bulk_rest (c_bulklen c1) todo' @ requests cmds'" "c_argv c1 @ todo' = c_argv c @ todo" "same_link c c1"
      "if todo' = [] then length (c_querybuf c1) \<le> PROTO_INLINE_MAX_SIZE + p1 else length (c_querybuf c1) - p1 < bulk_need (c_bulklen c1) todo'"
    by (elim exE conjE)
  let ?c = "c1\<lparr>c_querybuf := drop p1 (c_querybuf c1)\<rparr>"
  have r: "read_bulks c pos = (?c, c_multibulklen c1 = 0)" using l(1) n by (simp add: read_bulks_def)
  have sl: "same_link c ?c" using same_link_trans [OF l(6)] by simp
  have rt: "c_reqtype c1 = Req_Multibulk" "\<not> c_close c1" using same_linkD [OF l(6)] assms(7,8) by simp_all
  show ?thesis
  proof (cases "todo' = []")
    case True
    then have "c_multibulklen c1 = 0" "c_bulklen c1 = -1" "c_argv c1 = c_argv c @ todo" using l(3,5) by (auto simp: bulk_st_def)
    then have "complete ?c rest ((c_argv c @ todo) # cmds')" using l(4,7) True by (simp add: complete_def bulk_rest_def)
    then have "outcome c ?c True rest ((c_argv c @ todo) # cmds')" using sl by (simp add: outcome_def)
    then show ?thesis using r \<open>c_multibulklen c1 = 0\<close> by auto
  next
    case False
    then have "c_multibulklen c1 \<noteq> 0" using l(3) by (simp add: bulk_st_def)
    have "inside ?c todo' rest ((c_argv c @ todo) # cmds')"
      using False l(3,4,5) rt by (simp add: inside_def bulk_st_def)
    then have "waiting ?c rest ((c_argv c @ todo) # cmds')" using l(7) False rt(2) unfolding waiting_def by auto
    then have "outcome c ?c False rest ((c_argv c @ todo) # cmds')" using sl by (simp add: outcome_def)
    then show ?thesis using r \<open>c_multibulklen c1 \<noteq> 0\<close> by auto
  qed
qed

lemma processMultibulk_idle:
  assumes st: "idle c rest cmds" "c_reqtype c = Req_Multibulk" "\<not> c_close c" "c_querybuf c \<noteq> []" "\<forall>cmd \<in> set cmds. cmd_ok cmd"
    and sm: "length (c_querybuf c) \<le> PROTO_INLINE_MAX_SIZE"
  shows "\<exists>c' ok. processMultibulkBuffer c = Some (c', ok) \<and> outcome c c' ok rest cmds"
proof -
  from st(1,4) obtain cmd cmds' where cs: "cmds = cmd # cmds'" by (cases cmds) (auto simp: idle_def requests_def)
  let ?q = "c_querybuf c" and ?n = "length (dec_nat (length cmd))"
  have ok: "cmd \<noteq> []" "length cmd \<le> 1024 * 1024" "\<forall>a \<in> set cmd. length a \<le> max_bulk" using st(5) cs by (auto simp: cmd_ok_def)
  have e: "?q @ rest = 42 # dec_nat (length cmd) @ crlf @ (concat (map enc_bulk cmd) @ requests cmds')"
    using st(1) cs by (simp add: idle_def requests_def enc_cmd_def)
  have f: "find_char 13 ?q = (if length ?q \<le> Suc ?n then None else Some (Suc ?n))" by (rule find_num_line [OF e]) auto
  have i: "c_multibulklen c = 0" "c_argv c = []" "c_bulklen c = -1" using st(1) by (auto simp: idle_def)
  show ?thesis
  proof (cases "length ?q < ?n + 3")
    case True
    then have "processMultibulkBuffer c = Some (c, False)"
      using f sm i by (auto simp: processMultibulkBuffer_def)
    moreover have "waiting c rest cmds" using st cs True unfolding waiting_def by simp
    then have "outcome c c False rest cmds" by (simp add: outcome_def)
    ultimately show ?thesis by auto
  next
    case False
    then have len: "?n + 3 \<le> length ?q" by simp
    have "length cmd < 2 ^ 63" using ok(2) by simp
    note b = num_line_body [OF e len this]
    let ?c = "c\<lparr>c_multibulklen := length cmd\<rparr>"
    have "processMultibulkBuffer c = Some (read_bulks ?c (?n + 3))"
      using f len b(1,2) i ok(1,2) by (simp add: processMultibulkBuffer_def numeral_3_eq_3)
    moreover have "\<exists>c' ok. read_bulks ?c (?n + 3) = (c', ok) \<and> outcome ?c c' ok rest ((c_argv ?c @ cmd) # cmds')"
      by (rule read_bulks_valid) (use ok st i len b(3) sm in \<open>auto simp: bulk_st_def small_buf_def bulk_rest_def\<close>)
    then obtain c' ok where "read_bulks ?c (?n + 3) = (c', ok)" "outcome ?c c' ok rest ((c_argv ?c @ cmd) # cmds')" by (elim exE conjE)
    moreover from this(2) have "outcome c c' ok rest cmds" using cs i(2) same_link_trans [of c ?c c'] by (simp add: outcome_def)
    ultimately show ?thesis by auto
  qed
qed

lemma processMultibulk_inside:
  assumes st: "inside c todo rest cmds" "\<not> c_close c" "\<forall>cmd \<in> set cmds. cmd_ok cmd" and sm: "small_buf c 0"
  shows "\<exists>c' ok. processMultibulkBuffer c = Some (c', ok) \<and> outcome c c' ok rest cmds"
proof -
  from st(1) obtain cmds' where i: "todo \<noteq> []" "c_reqtype c = Req_Multibulk" "bulk_st c todo" "cmds = (c_argv c @ todo) # cmds'"
    "c_querybuf c @ rest = bulk_rest (c_bulklen c) todo @ requests cmds'" by (auto simp: inside_def)
  have "\<forall>a \<in> set todo. length a \<le> max_bulk" using st(3) i(4) by (simp add: cmd_ok_def)
  from read_bulks_valid [OF i(1) this i(3) _ sm _ i(2) st(2), of rest cmds'] i(5)
  obtain c' ok where "read_bulks c 0 = (c', ok)" "outcome c c' ok rest ((c_argv c @ todo) # cmds')" by auto
  moreover have "c_multibulklen c \<noteq> 0" using i(1,3) by (simp add: bulk_st_def)
  ultimately show ?thesis using i(4) by (auto simp: processMultibulkBuffer_def)
qed


section \<open>Streams of requests\<close>

text \<open>
  The commands of a stream run, from a state, without disturbing its reading: each finds the client neither
  blocked nor paused, is executed (\<open>processCommand\<close> gives \<open>C_OK\<close>, which QUIT and a command that
  closes its client do not), does not free the client or keep its arguments, and on a link to a master does not leave
  it inside of a transaction. Other commands than those of the stream may do all of this.
\<close>

fun undisturbed :: "'s cmd_env \<Rightarrow> bool \<Rightarrow> bytes list list \<Rightarrow> 's \<Rightarrow> bool" where
  "undisturbed env master [] s = True"
| "undisturbed env master (cmd # cmds) s =
     (\<not> env_stopped env s \<and>
      (let (s, ok) = env_process env cmd s in
       ok \<and> \<not> env_gone env s \<and> \<not> env_keep env s \<and> (master \<longrightarrow> \<not> env_multi env s) \<and> undisturbed env master cmds s))"

definition exec :: "'s cmd_env \<Rightarrow> bytes list list \<Rightarrow> 's \<Rightarrow> 's" where
  "exec env cmds s = fold (\<lambda>argv s. fst (env_process env argv s)) cmds s"

text \<open>
  What a replica has read from its master and not yet applied: \<open>rest\<close> is still to be read of the
  requests \<open>cmds\<close> that are still to be executed.
\<close>

definition offsets_ok :: "netclient \<Rightarrow> bytes \<Rightarrow> bytes list list \<Rightarrow> bool" where
  "offsets_ok c rest cmds \<longleftrightarrow> (c_master c \<longrightarrow>
     c_read_reploff c - c_reploff c = int (length (requests cmds)) - int (length rest))"

definition ready :: "netclient \<Rightarrow> bytes \<Rightarrow> bytes list list \<Rightarrow> bool" where
  "ready c rest cmds \<longleftrightarrow> \<not> c_close c \<and>
     (idle c rest cmds \<and> (c_querybuf c = [] \<longrightarrow> c_reqtype c = Req_None) \<and> length (c_querybuf c) \<le> PROTO_INLINE_MAX_SIZE \<or>
      (\<exists>todo. inside c todo rest cmds \<and> c_querybuf c \<noteq> [] \<and> small_buf c 0))"

lemma requests_Cons: "requests (cmd # cmds) = enc_cmd cmd @ requests cmds"
  by (simp add: requests_def)

lemma requests_append: "requests (xs @ ys) = requests xs @ requests ys"
  by (simp add: requests_def)

lemma parse_ready:
  assumes rd: "ready c rest cmds" "c_querybuf c \<noteq> []" and ok: "\<forall>cmd \<in> set cmds. cmd_ok cmd"
  shows "\<exists>c' ok. processMultibulkBuffer (choose_type c) = Some (c', ok) \<and> outcome (choose_type c) c' ok rest cmds \<and>
    c_reqtype (choose_type c) = Req_Multibulk"
proof (cases "\<exists>todo. inside c todo rest cmds \<and> small_buf c 0")
  case True
  then obtain todo where i: "inside c todo rest cmds" "small_buf c 0" by blast
  then have "choose_type c = c" "c_reqtype c = Req_Multibulk" by (auto simp: inside_def choose_type_def)
  then show ?thesis using processMultibulk_inside [OF i(1) _ ok i(2)] rd(1) by (simp add: ready_def)
next
  case False
  then have i: "idle c rest cmds" "length (c_querybuf c) \<le> PROTO_INLINE_MAX_SIZE" "\<not> c_close c" using rd(1) by (auto simp: ready_def)
  let ?c = "choose_type c"
  obtain cmd cmds' where cs: "cmds = cmd # cmds'" using i(1) rd(2) by (cases cmds) (auto simp: idle_def requests_def)
  have "c_querybuf c @ rest = 42 # tl (enc_cmd cmd) @ requests cmds'" using i(1) cs by (simp add: idle_def requests_def enc_cmd_def)
  then have "c_querybuf c ! 0 = 42" using rd(2) by (cases "c_querybuf c") auto
  then have rt: "c_reqtype ?c = Req_Multibulk" using i(1) by (cases "c_reqtype c") (auto simp: idle_def choose_type_def)
  have "idle ?c rest cmds" "\<not> c_close ?c" "c_querybuf ?c \<noteq> []" "length (c_querybuf ?c) \<le> PROTO_INLINE_MAX_SIZE"
    using i rd(2) rt by (auto simp: idle_def choose_type_def)
  from processMultibulk_idle [OF this(1) rt this(2,3) ok this(4)] rt show ?thesis by (elim exE conjE) (intro exI conjI)
qed

lemma processInputBuffer_valid:
  "undisturbed env (c_master c) cmds s \<Longrightarrow> ready c rest cmds \<Longrightarrow> \<forall>cmd \<in> set cmds. cmd_ok cmd \<Longrightarrow> offsets_ok c rest cmds \<Longrightarrow>
    \<exists>c' k. k \<le> length cmds \<and> processInputBuffer env c s = Some (c', exec env (take k cmds) s) \<and> waiting c' rest (drop k cmds) \<and>
      offsets_ok c' rest (drop k cmds) \<and> c_master c' = c_master c \<and> c_read_reploff c' = c_read_reploff c \<and> c_pending c' = c_pending c"
proof (induction cmds arbitrary: c s)
  case Nil
  then have q: "idle c rest []" "\<not> c_close c" "c_querybuf c = []" "c_reqtype c = Req_None" by (auto simp: ready_def idle_def inside_def requests_def)
  then have "processInputBuffer env c s = Some (c, s)" by (subst processInputBuffer.simps) simp
  moreover have "waiting c rest []" using q by (simp add: waiting_def)
  ultimately show ?case using Nil.prems(4) by (auto simp: exec_def)
next
  case (Cons cmd cmds)
  show ?case
  proof (cases "c_querybuf c = []")
    case True
    then have q: "idle c rest (cmd # cmds)" "c_reqtype c = Req_None" "\<not> c_close c" using Cons.prems(2) by (auto simp: ready_def)
    have "processInputBuffer env c s = Some (c, s)" using True by (subst processInputBuffer.simps) simp
    moreover have "waiting c rest (cmd # cmds)" using q True by (simp add: waiting_def)
    ultimately show ?thesis using Cons.prems(4) by (intro exI [of _ c] exI [of _ 0]) (simp add: exec_def)
  next
    case False
    from parse_ready [OF Cons.prems(2) False Cons.prems(3)] obtain c1 ok where
      p: "processMultibulkBuffer (choose_type c) = Some (c1, ok)" "outcome (choose_type c) c1 ok rest (cmd # cmds)"
        "c_reqtype (choose_type c) = Req_Multibulk" by (elim exE conjE)
    have cl: "\<not> c_close c" using Cons.prems(2) by (simp add: ready_def)
    have "same_link (choose_type c) c1" using p(2) by (simp add: outcome_def)
    from same_linkD [OF this] have link: "c_close c1 = c_close c" "c_master c1 = c_master c" "c_reploff c1 = c_reploff c" "c_read_reploff c1 = c_read_reploff c" "c_pending c1 = c_pending c"
      by (simp_all add: choose_type_def)
    have step: "processInputBuffer env c s =
        (if \<not> ok then Some (c1, s)
         else let (c, s, gone) = after_parse env c1 s in if gone then Some (c, s) else processInputBuffer env c s)"
      using False p(1,3) cl Cons.prems(1) by (subst processInputBuffer.simps) (simp add: Let_def)
    show ?thesis
    proof (cases ok)
      case False
      then have "waiting c1 rest (cmd # cmds)" using p(2) by (simp add: outcome_def)
      then show ?thesis using step False link Cons.prems(4)
        by (intro exI [of _ c1] exI [of _ 0]) (simp add: exec_def offsets_ok_def)
    next
      case True
      then have comp: "complete c1 rest (cmd # cmds)" using p(2) by (simp add: outcome_def)
      then have c1: "c_argv c1 = cmd" "c_querybuf c1 @ rest = requests cmds" "length (c_querybuf c1) \<le> PROTO_INLINE_MAX_SIZE"
        by (auto simp: complete_def)
      have ne: "cmd \<noteq> []" using Cons.prems(3) by (simp add: cmd_ok_def)
      define s1 where "s1 = fst (env_process env cmd s)"
      define c2 where "c2 = resetClient (if c_master c1 then c1\<lparr>c_reploff := c_read_reploff c1 - int (length (c_querybuf c1))\<rparr> else c1)"
      have u: "snd (env_process env cmd s)" "\<not> env_gone env s1" "\<not> env_keep env s1" "c_master c1 \<longrightarrow> \<not> env_multi env s1"
        "undisturbed env (c_master c1) cmds s1"
        using Cons.prems(1) link(2) by (simp_all add: s1_def split_beta)
      have pr: "env_process env cmd s = (s1, True)" using u(1) by (simp add: s1_def prod_eq_iff)
      have ap: "after_parse env c1 s = (c2, s1, False)" using ne c1(1) pr u(2-4) by (auto simp: after_parse_def c2_def)
      have f2: "c_querybuf c2 = c_querybuf c1" "c_reqtype c2 = Req_None" "c_close c2 = c_close c1" "c_master c2 = c_master c1"
        "c_read_reploff c2 = c_read_reploff c1" "c_pending c2 = c_pending c1" "c_multibulklen c2 = 0" "c_bulklen c2 = -1" "c_argv c2 = []"
        "c_master c1 \<Longrightarrow> c_reploff c2 = c_read_reploff c1 - int (length (c_querybuf c1))"
        by (simp_all add: c2_def resetClient_def)
      have rd: "ready c2 rest cmds" using f2 c1 cl link by (simp add: ready_def idle_def)
      have "length (requests cmds) = length (c_querybuf c1) + length rest" using c1(2) by (metis length_append)
      then have off: "offsets_ok c2 rest cmds" using f2 by (simp add: offsets_ok_def)
      from Cons.IH [OF u(5) [folded f2(4)] rd _ off] Cons.prems(3) obtain c' k where
        k: "k \<le> length cmds" "processInputBuffer env c2 s1 = Some (c', exec env (take k cmds) s1)" "waiting c' rest (drop k cmds)"
          "offsets_ok c' rest (drop k cmds)" "c_master c' = c_master c2" "c_read_reploff c' = c_read_reploff c2" "c_pending c' = c_pending c2"
        by auto
      have "processInputBuffer env c s = Some (c', exec env (take (Suc k) (cmd # cmds)) s)"
        using step True ap k(2) by (simp add: exec_def s1_def)
      then show ?thesis using k f2 link by (intro exI [of _ c'] exI [of _ "Suc k"]) simp
    qed
  qed
qed


subsection \<open>Reading in portions\<close>

text \<open>
  The connection delivers \<open>pending\<close>; the next call of \<open>read\<close> gives \<open>n + 1\<close> bytes of it, or as many as
  there are and as the server asks for. The result has what was passed on to the replicas;
  \<open>None\<close> is also a client that was disconnected.
\<close>

fun serve :: "'s cmd_env \<Rightarrow> nat \<Rightarrow> nat list \<Rightarrow> netclient \<Rightarrow> 's \<Rightarrow> bytes \<Rightarrow> (netclient \<times> 's \<times> bytes \<times> bytes) option" where
  "serve env maxlen [] c s pending = Some (c, s, pending, [])"
| "serve env maxlen (n # ns) c s pending =
     (if pending = [] then Some (c, s, [], [])
      else do {
        let data = take (min (n + 1) (nat (readlen c))) pending;
        (r, s, fed) \<leftarrow> readQueryFromClient env maxlen c s data;
        c \<leftarrow> r;
        (c, s, left, more) \<leftarrow> serve env maxlen ns c s (drop (length data) pending);
        Some (c, s, left, fed @ more)
      })"

definition pending_ok :: "netclient \<Rightarrow> bytes \<Rightarrow> bytes list list \<Rightarrow> bool" where
  "pending_ok c rest cmds \<longleftrightarrow> (c_master c \<longrightarrow> c_pending c @ rest = requests cmds)"

lemma dec_cmd_short: "cmd_ok cmd \<Longrightarrow> length (dec_nat (length cmd)) \<le> 10"
  by (rule length_dec_nat_le) (auto simp: cmd_ok_def)

lemma waiting_end:
  assumes "waiting c [] cmds"
  shows "cmds = [] \<and> c_querybuf c = []"
proof -
  have "cmds = []" if "idle c [] cmds" "cmds \<noteq> [] \<longrightarrow> length (c_querybuf c) < length (dec_nat (length (hd cmds))) + 3"
    using that by (cases cmds) (auto simp: idle_def requests_def enc_cmd_def crlf_def)
  moreover have False if i: "inside c todo [] cmds" and n: "length (c_querybuf c) < bulk_need (c_bulklen c) todo" for todo
  proof -
    obtain a todo' where "todo = a # todo'" using i by (cases todo) (auto simp: inside_def)
    then show False using i n by (auto simp: inside_def bulk_rest_def bulk_need_def enc_bulk_def crlf_def split: if_splits)
  qed
  moreover have "c_querybuf c = []" if "idle c [] []" using that by (simp add: idle_def requests_def)
  ultimately show ?thesis using assms unfolding waiting_def by blast
qed

lemma waiting_read:
  assumes w: "waiting c (data @ rest) cmds" and d: "data \<noteq> []" "int (length data) \<le> readlen c" and ok: "\<forall>cmd \<in> set cmds. cmd_ok cmd"
  shows "ready (c\<lparr>c_querybuf := c_querybuf c @ data\<rparr>) rest cmds" "length (c_querybuf c @ data) \<le> 1024 * 1024 * 1024"
proof -
  let ?c = "c\<lparr>c_querybuf := c_querybuf c @ data\<rparr>"
  have "ready ?c rest cmds \<and> length (c_querybuf c @ data) \<le> 1024 * 1024 * 1024"
  proof (cases "\<exists>todo. inside c todo (data @ rest) cmds \<and> length (c_querybuf c) < bulk_need (c_bulklen c) todo")
    case False
    then have i: "idle c (data @ rest) cmds" "cmds \<noteq> [] \<longrightarrow> length (c_querybuf c) < length (dec_nat (length (hd cmds))) + 3" "\<not> c_close c"
      using w by (auto simp: waiting_def)
    have "cmds \<noteq> []" using i(1) d(1) by (auto simp: idle_def requests_def)
    then have "length (c_querybuf c) < 13" using i(2) dec_cmd_short [of "hd cmds"] ok by auto
    moreover have "length data \<le> 16384" using d(2) by (simp add: readlen_def PROTO_IOBUF_LEN_def split: if_splits)
    ultimately show ?thesis using i d(1) by (auto simp: ready_def idle_def PROTO_INLINE_MAX_SIZE_def)
  next
    case True
    then obtain todo where i: "inside c todo (data @ rest) cmds" "length (c_querybuf c) < bulk_need (c_bulklen c) todo" by blast
    then obtain a todo' cmds' where t: "todo = a # todo'" "cmds = (c_argv c @ todo) # cmds'" "c_reqtype c = Req_Multibulk" "bulk_st c todo"
      by (cases todo) (auto simp: inside_def)
    have a: "length a \<le> max_bulk" using ok t by (auto simp: cmd_ok_def)
    have m: "c_multibulklen c \<noteq> 0" using t by (simp add: bulk_st_def)
    have ins: "inside ?c todo rest cmds" using i(1) by (auto simp: inside_def bulk_st_def)
    have cl: "\<not> c_close c" using w by (auto simp: waiting_def)
    have "small_buf ?c 0 \<and> length (c_querybuf c @ data) \<le> 1024 * 1024 * 1024"
    proof (cases "c_bulklen c \<noteq> -1 \<and> PROTO_MBULK_BIG_ARG \<le> c_bulklen c")
      case True
      then have bl: "c_bulklen c = int (length a)" using t by (auto simp: bulk_st_def)
      then have "length (c_querybuf c @ data) \<le> length a + 2" using d(2) True t(3) m by (simp add: readlen_def)
      then show ?thesis using True bl a by (simp add: small_buf_def)
    next
      case False
      have "length (dec_nat (length a)) \<le> 10" using a by (intro length_dec_nat_le) auto
      then have "length (c_querybuf c) < 32770"
        using i(2) False t by (auto simp: bulk_need_def bulk_st_def PROTO_MBULK_BIG_ARG_def split: if_splits)
      moreover have "length data \<le> 16384" using d(2) by (simp add: readlen_def PROTO_IOBUF_LEN_def split: if_splits)
      ultimately show ?thesis by (simp add: small_buf_def PROTO_INLINE_MAX_SIZE_def)
    qed
    then show ?thesis using ins cl d(1) by (auto simp: ready_def)
  qed
  then show "ready ?c rest cmds" "length (c_querybuf c @ data) \<le> 1024 * 1024 * 1024" by blast+
qed

lemma readlen_pos:
  assumes "waiting c rest cmds"
  shows "1 \<le> readlen c"
proof (cases "c_multibulklen c = 0")
  case False
  then obtain todo where "inside c todo rest cmds" "length (c_querybuf c) < bulk_need (c_bulklen c) todo"
    using assms by (auto simp: waiting_def idle_def)
  then show ?thesis by (auto simp: readlen_def inside_def bulk_st_def bulk_need_def PROTO_IOBUF_LEN_def split: if_splits)
qed (simp add: readlen_def PROTO_IOBUF_LEN_def)


lemma waiting_rest_le:
  assumes "waiting c rest cmds"
  shows "length rest \<le> length (requests cmds)"
proof -
  have "length rest \<le> length (requests cmds)" if "idle c rest cmds"
    using that unfolding idle_def by (metis le_add2 length_append)
  moreover have "length rest \<le> length (requests cmds)" if i: "inside c todo rest cmds" for todo
  proof -
    obtain cmds' where i': "todo \<noteq> []" "cmds = (c_argv c @ todo) # cmds'" "c_querybuf c @ rest = bulk_rest (c_bulklen c) todo @ requests cmds'"
      using i by (auto simp: inside_def)
    have "length (bulk_rest (c_bulklen c) todo) \<le> length (concat (map enc_bulk todo))"
      using i'(1) by (cases todo) (auto simp: bulk_rest_def enc_bulk_def)
    then have "length (bulk_rest (c_bulklen c) todo) \<le> length (enc_cmd (c_argv c @ todo))" by (simp add: enc_cmd_def)
    moreover have "length rest \<le> length (bulk_rest (c_bulklen c) todo @ requests cmds')" using i'(3) by (metis le_add2 length_append)
    ultimately show ?thesis unfolding i'(2) requests_Cons by simp
  qed
  ultimately show ?thesis using assms unfolding waiting_def by blast
qed

lemma exec_append: "exec env (xs @ ys) s = exec env ys (exec env xs s)"
  by (simp add: exec_def)

lemma undisturbed_drop: "undisturbed env m cmds s \<Longrightarrow> undisturbed env m (drop k cmds) (exec env (take k cmds) s)"
  by (induction cmds arbitrary: k s) (auto simp: exec_def take_Cons' drop_Cons' split_beta)

lemma read_valid:
  assumes env: "undisturbed env (c_master c) cmds s" and w: "waiting c (data @ rest) cmds" and d: "data \<noteq> []" "int (length data) \<le> readlen c"
    and ok: "\<forall>cmd \<in> set cmds. cmd_ok cmd" and off: "offsets_ok c (data @ rest) cmds" and pend: "pending_ok c (data @ rest) cmds"
    and maxlen: "1024 * 1024 * 1024 \<le> maxlen"
  shows "\<exists>c' k. readQueryFromClient env maxlen c s data = Some (Some c', exec env (take k cmds) s, if c_master c then requests (take k cmds) else []) \<and>
    waiting c' rest (drop k cmds) \<and> offsets_ok c' rest (drop k cmds) \<and> pending_ok c' rest (drop k cmds) \<and> c_master c' = c_master c"
proof -
  define c1 where "c1 = (let c = (if c_master c then c\<lparr>c_pending := c_pending c @ data\<rparr> else c); c = c\<lparr>c_querybuf := c_querybuf c @ data\<rparr>
    in (if c_master c then c\<lparr>c_read_reploff := c_read_reploff c + int (length data)\<rparr> else c))"
  note wr = waiting_read [OF w d ok]
  have f1: "c_querybuf c1 = c_querybuf c @ data" "c_master c1 = c_master c" "c_close c1 = c_close c" "c_reqtype c1 = c_reqtype c"
    "c_multibulklen c1 = c_multibulklen c" "c_bulklen c1 = c_bulklen c" "c_argv c1 = c_argv c" "c_reploff c1 = c_reploff c"
    "c_master c \<Longrightarrow> c_read_reploff c1 = c_read_reploff c + int (length data)" "c_master c \<Longrightarrow> c_pending c1 = c_pending c @ data"
    by (simp_all add: c1_def Let_def)
  have rd: "ready c1 rest cmds" using wr(1) by (simp add: ready_def idle_def inside_def bulk_st_def small_buf_def f1)
  have off1: "offsets_ok c1 rest cmds"
  proof (cases "c_master c")
    case True
    then have "c_read_reploff c1 - c_reploff c1 = int (length (requests cmds)) - int (length rest)"
      using off f1(8,9) unfolding offsets_ok_def by simp
    then show ?thesis by (simp add: offsets_ok_def)
  qed (simp add: offsets_ok_def f1)
  from processInputBuffer_valid [OF env [folded f1(2)] rd ok off1] obtain c2 k where
    p: "k \<le> length cmds" "processInputBuffer env c1 s = Some (c2, exec env (take k cmds) s)" "waiting c2 rest (drop k cmds)"
      "offsets_ok c2 rest (drop k cmds)" "c_master c2 = c_master c1" "c_read_reploff c2 = c_read_reploff c1" "c_pending c2 = c_pending c1"
    by (elim exE conjE)
  have big: "\<not> length (c_querybuf c1) > maxlen" using wr(2) maxlen f1(1) by simp
  have r: "readQueryFromClient env maxlen c s data =
      (if \<not> c_master c1 then do { (c, s) \<leftarrow> processInputBuffer env c1 s; Some (Some c, s, []) }
       else do {
         let prev_offset = c_reploff c1;
         (c, s) \<leftarrow> processInputBuffer env c1 s;
         let applied = nat (c_reploff c - prev_offset);
         Some (Some (c\<lparr>c_pending := drop applied (c_pending c)\<rparr>), s, take applied (c_pending c))
       })"
    using d(1) big unfolding readQueryFromClient_def c1_def by (simp add: Let_def)
  show ?thesis
  proof (cases "c_master c")
    case False
    then have "readQueryFromClient env maxlen c s data = Some (Some c2, exec env (take k cmds) s, [])" using r p(2) f1(2) by simp
    then show ?thesis using p False f1(2) by (intro exI [of _ c2] exI [of _ k]) (simp add: pending_ok_def)
  next
    case True
    let ?x = "requests (take k cmds)" and ?y = "requests (drop k cmds)"
    have xy: "requests cmds = ?x @ ?y" by (simp add: requests_append [symmetric])
    have pd: "c_pending c2 @ rest = ?x @ ?y" using pend True p(7) f1(10) xy by (simp add: pending_ok_def)
    have le: "length rest \<le> length ?y" by (rule waiting_rest_le [OF p(3)])
    have "c_reploff c2 - c_reploff c1 = int (length (requests cmds)) - int (length ?y)"
      using off1 p(4,5,6) f1(2) True by (simp add: offsets_ok_def)
    then have ap: "nat (c_reploff c2 - c_reploff c1) = length ?x" using xy by simp
    have "length ?x \<le> length (c_pending c2)" using arg_cong [OF pd, of length] le by simp
    then have tk: "take (length ?x) (c_pending c2) = ?x" "drop (length ?x) (c_pending c2) @ rest = ?y" using append_take_eq [OF pd] by auto
    let ?c = "c2\<lparr>c_pending := drop (length ?x) (c_pending c2)\<rparr>"
    have "readQueryFromClient env maxlen c s data = Some (Some ?c, exec env (take k cmds) s, ?x)"
      using r p(2) f1(2) True ap tk(1) by (simp add: Let_def)
    moreover have "waiting ?c rest (drop k cmds)" using p(3) by (simp add: waiting_def idle_def inside_def bulk_st_def)
    moreover have "offsets_ok ?c rest (drop k cmds)" using p(4) by (simp add: offsets_ok_def)
    moreover have "pending_ok ?c rest (drop k cmds)" using tk(2) by (simp add: pending_ok_def)
    ultimately show ?thesis using p(5) f1(2) True by (intro exI [of _ ?c] exI [of _ k]) simp
  qed
qed

lemma serve_valid:
  assumes maxlen: "1024 * 1024 * 1024 \<le> maxlen"
  shows "undisturbed env (c_master c) cmds s \<Longrightarrow> waiting c pending cmds \<Longrightarrow> \<forall>cmd \<in> set cmds. cmd_ok cmd \<Longrightarrow> offsets_ok c pending cmds \<Longrightarrow> pending_ok c pending cmds \<Longrightarrow>
    length pending \<le> length ns \<Longrightarrow>
    \<exists>c'. serve env maxlen ns c s pending = Some (c', exec env cmds s, [], if c_master c then requests cmds else []) \<and> waiting c' [] [] \<and>
      offsets_ok c' [] []"
proof (induction ns arbitrary: c s pending cmds)
  case Nil
  then have "cmds = []" using waiting_end [of c cmds] by simp
  then show ?case using Nil by (simp add: exec_def requests_def)
next
  case (Cons n ns)
  show ?case
  proof (cases "pending = []")
    case True
    then have "cmds = []" using Cons.prems(2) waiting_end by blast
    then show ?thesis using Cons.prems True by (simp add: exec_def requests_def)
  next
    case False
    define m where "m = min (n + 1) (nat (readlen c))"
    have rp: "1 \<le> readlen c" by (rule readlen_pos [OF Cons.prems(2)])
    let ?d = "take m pending" and ?r = "drop m pending"
    have d: "?d \<noteq> []" "int (length ?d) \<le> readlen c" "?d @ ?r = pending" using False rp by (auto simp: m_def)
    have dr: "drop (length ?d) pending = ?r" by (cases "m \<le> length pending") auto
    from read_valid [where data = ?d and rest = ?r, unfolded d(3), OF Cons.prems(1,2) d(1,2) Cons.prems(3,4,5) maxlen] obtain c1 k where
      1: "readQueryFromClient env maxlen c s ?d = Some (Some c1, exec env (take k cmds) s, if c_master c then requests (take k cmds) else [])"
        "waiting c1 ?r (drop k cmds)" "offsets_ok c1 ?r (drop k cmds)" "pending_ok c1 ?r (drop k cmds)" "c_master c1 = c_master c"
      by (elim exE conjE)
    have "1 \<le> m" using rp by (auto simp: m_def)
    then have len: "length ?r \<le> length ns" using Cons.prems(6) False by (cases pending) auto
    have okd: "\<forall>cmd \<in> set (drop k cmds). cmd_ok cmd" using Cons.prems(3) by (meson in_set_dropD)
    from Cons.IH [OF undisturbed_drop [OF Cons.prems(1), of k, folded 1(5)] 1(2) okd 1(3,4) len] obtain c' where
      2: "serve env maxlen ns c1 (exec env (take k cmds) s) ?r =
          Some (c', exec env (drop k cmds) (exec env (take k cmds) s), [], if c_master c1 then requests (drop k cmds) else [])"
        "waiting c' [] []" "offsets_ok c' [] []" by blast
    have "exec env (drop k cmds) (exec env (take k cmds) s) = exec env cmds s" by (simp add: exec_append [symmetric])
    moreover have "requests (take k cmds) @ requests (drop k cmds) = requests cmds" by (simp add: requests_append [symmetric])
    ultimately have "serve env maxlen (n # ns) c s pending = Some (c', exec env cmds s, [], if c_master c then requests cmds else [])"
      unfolding serve.simps if_not_P [OF False] Let_def m_def [symmetric] 1(1) bind.bind_lunit prod.case dr 2(1)
      using 1(5) by simp
    then show ?thesis using 2(2,3) by blast
  qed
qed

text \<open>A client that was just connected, or whose last request is done.\<close>

definition fresh_client :: "netclient \<Rightarrow> bool" where
  "fresh_client c \<longleftrightarrow> c_querybuf c = [] \<and> c_reqtype c = Req_None \<and> c_multibulklen c = 0 \<and> c_bulklen c = -1 \<and> c_argv c = [] \<and>
     \<not> c_close c \<and> c_pending c = [] \<and> c_reploff c = c_read_reploff c"

lemma fresh_waiting: "fresh_client c \<Longrightarrow> waiting c (requests cmds) cmds \<and> offsets_ok c (requests cmds) cmds \<and> pending_ok c (requests cmds) cmds"
  by (simp add: fresh_client_def waiting_def idle_def offsets_ok_def pending_ok_def)

text \<open>
  C8. Requests survive the network. A stream of requests, each an array of bulk strings as the
  reply functions of the server, its replication stream and its clients print them, with up to
  1048576 arguments of up to 512 MB of any bytes, is executed exactly as it was sent: the commands
  are those of the stream, in order, whatever sizes the portions have in which it arrives, also
  when a portion ends inside a length or between a carriage return and its line feed. No protocol
  error occurs and the client is not closed. The commands of the stream must not themselves disturb the
  reading (\<open>undisturbed\<close>): each returns success, none closes or frees the client or, but for the
  last one, blocks it, and on a link to a master none leaves it inside of MULTI; and the limit of the query buffer is at least 1 GB, its default. On a link to a master the offset of the
  applied stream is exact, and the bytes passed on to the sub-replicas are the stream itself.
\<close>

theorem requests_roundtrip:
  assumes "undisturbed env (c_master c) cmds s" and "1024 * 1024 * 1024 \<le> maxlen" and "fresh_client c" and "\<forall>cmd \<in> set cmds. cmd_ok cmd"
    and "length (requests cmds) \<le> length ns"
  shows "\<exists>c'. serve env maxlen ns c s (requests cmds) = Some (c', exec env cmds s, [], if c_master c then requests cmds else []) \<and>
    c_querybuf c' = [] \<and> c_reqtype c' = Req_None \<and> c_argv c' = [] \<and> \<not> c_close c' \<and> (c_master c' \<longrightarrow> c_reploff c' = c_read_reploff c')"
proof -
  from fresh_waiting [OF assms(3)] have w: "waiting c (requests cmds) cmds" "offsets_ok c (requests cmds) cmds" "pending_ok c (requests cmds) cmds" by auto
  from serve_valid [OF assms(2,1) w(1) assms(4) w(2,3) assms(5)] obtain c' where
    c': "serve env maxlen ns c s (requests cmds) = Some (c', exec env cmds s, [], if c_master c then requests cmds else [])"
      "waiting c' [] []" "offsets_ok c' [] []" by (elim exE conjE)
  have q: "c_querybuf c' = []" using waiting_end [OF c'(2)] by simp
  then have "c_reqtype c' = Req_None" "c_argv c' = []" "\<not> c_close c'"
    using c'(2) by (simp_all add: waiting_def inside_def idle_def)
  moreover have "c_master c' \<longrightarrow> c_reploff c' = c_read_reploff c'" using c'(3) by (simp add: offsets_ok_def requests_def)
  ultimately show ?thesis using c'(1) q by (intro exI [of _ c'] conjI)
qed


theorem requests_roundtrip_witness:
  "\<exists>c'. serve recording (2 ^ 30) (replicate 100 2) new_client [] (requests [[[83, 69, 84], [107], [0, 13, 10]], [[80]]]) =
      Some (c', [[[83, 69, 84], [107], [0, 13, 10]], [[80]]], [], []) \<and> c_querybuf c' = []"
proof -
  let ?cmds = "[[[83, 69, 84], [107], [0, 13, 10]], [[80]]] :: bytes list list"
  have "undisturbed recording False ?cmds []" "fresh_client new_client" by (simp_all add: recording_def fresh_client_def new_client_def)
  moreover have "\<forall>cmd \<in> set ?cmds. cmd_ok cmd" by (simp add: cmd_ok_def)
  moreover have "length (requests ?cmds) \<le> length (replicate 100 (2::nat))"
    by (simp add: requests_def enc_cmd_def enc_bulk_def crlf_def dec_nat.simps)
  moreover have "exec recording ?cmds [] = ?cmds" "\<not> c_master new_client" by (simp_all add: exec_def recording_def new_client_def)
  ultimately show ?thesis using requests_roundtrip [of recording new_client ?cmds "[]" "2 ^ 30" "replicate 100 2"]
    by (auto simp del: replicate.simps)
qed

section \<open>Well-formed requests that fail\<close>

lemma find_char_app: "c \<notin> set l \<Longrightarrow> 0 \<notin> set l \<Longrightarrow> find_char c (l @ c # xs) = Some (length l)"
  by (induction l) auto

text \<open>
  C33. An inline request that ends with a line feed alone, which the parser accepts, swallows the
  first byte of what follows it: the buffer is advanced by the length of the line and 2, as if the
  line ended with a carriage return and a line feed.
\<close>

theorem inline_lf_loses_byte:
  assumes "c_querybuf c = line @ 10 # b # rest" and "10 \<notin> set line" and "0 \<notin> set line" and "line = [] \<or> last line \<noteq> 13"
    and "sdssplitargs (line @ [0]) = Some (Some argv)"
  shows "\<exists>c'. processInlineBuffer u c = Some (c', True) \<and> c_argv c' = filter (\<lambda>a. a \<noteq> []) argv \<and> c_querybuf c' = rest"
proof -
  have f: "find_char 10 (c_querybuf c) = Some (length line)" using find_char_app assms(1-3) by simp
  have q: "inline_querylen (c_querybuf c) (length line) = length line"
    using assms(1,4) by (auto simp: inline_querylen_def nth_append last_conv_nth)
  have "take (length line) (c_querybuf c) = line" using assms(1) by simp
  then show ?thesis using f q assms(1,5) by (simp add: processInlineBuffer_def Let_def)
qed

theorem inline_lf_loses_byte_witness:
  "\<exists>c'. processInlineBuffer 0 (new_client\<lparr>c_querybuf := [80, 73, 78, 71, 10, 80, 73, 78, 71, 10]\<rparr>) = Some (c', True) \<and>
     c_argv c' = [[80, 73, 78, 71]] \<and> c_querybuf c' = [73, 78, 71, 10]"
proof -
  have s: "sdssplitargs ([80, 73, 78, 71] @ [0]) = Some (Some [[80, 73, 78, 71]])" by code_simp
  have q: "c_querybuf (new_client\<lparr>c_querybuf := [80, 73, 78, 71, 10, 80, 73, 78, 71, 10]\<rparr>) = [80, 73, 78, 71] @ 10 # 80 # [73, 78, 71, 10]" by simp
  show ?thesis using inline_lf_loses_byte [OF q _ _ _ s, of 0] by simp
qed

text \<open>
  C34. A client that is paused or blocked while it sends a long argument is disconnected. The server
  then asks for exactly the missing bytes of the argument; once they are there and still not
  processed, it asks for 0 bytes, \<open>read\<close> gives 0, and that is taken for the end of the connection.
\<close>

theorem paused_client_dropped:
  assumes "c_reqtype c = Req_Multibulk" and "c_multibulklen c \<noteq> 0" and "PROTO_MBULK_BIG_ARG \<le> c_bulklen c" and "\<not> c_master c"
    and "env_stopped env s" and "int (length (c_querybuf c) + length data) = c_bulklen c + 2" and "data \<noteq> []"
    and "int (length data) \<le> readlen c" and "length (c_querybuf c) + length data \<le> maxlen"
  shows "\<exists>c'. readQueryFromClient env maxlen c s data = Some (Some c', s, []) \<and> readlen c' = 0 \<and>
    (\<forall>data'. int (length data') \<le> readlen c' \<longrightarrow> readQueryFromClient env maxlen c' s data' = Some (None, s, []))"
proof -
  let ?c = "c\<lparr>c_querybuf := c_querybuf c @ data\<rparr>"
  have "processInputBuffer env ?c s = Some (?c, s)" using assms(5) by (subst processInputBuffer.simps) simp
  then have "readQueryFromClient env maxlen c s data = Some (Some ?c, s, [])"
    using assms(4,7,9) by (simp add: readQueryFromClient_def)
  moreover have "readlen ?c = 0" using assms(1,2,3,6) by (simp add: readlen_def PROTO_MBULK_BIG_ARG_def PROTO_IOBUF_LEN_def)
  moreover have "readQueryFromClient env maxlen ?c s data' = Some (None, s, [])" if "int (length data') \<le> 0" for data'
    using that by (simp add: readQueryFromClient_def)
  ultimately show ?thesis by (intro exI [of _ ?c]) simp
qed

theorem paused_client_dropped_witness:
  "\<exists>c'. readQueryFromClient (recording\<lparr>env_stopped := \<lambda>_. True\<rparr>) (2 ^ 30)
      (new_client\<lparr>c_reqtype := Req_Multibulk, c_multibulklen := 1, c_bulklen := 32768, c_querybuf := replicate 32767 0\<rparr>) [] [0, 13, 10] =
      Some (Some c', [], []) \<and> readlen c' = 0"
proof -
  let ?c = "new_client\<lparr>c_reqtype := Req_Multibulk, c_multibulklen := 1, c_bulklen := 32768, c_querybuf := replicate 32767 0\<rparr>"
  have "\<exists>c'. readQueryFromClient (recording\<lparr>env_stopped := \<lambda>_. True\<rparr>) (2 ^ 30) ?c [] [0, 13, 10] = Some (Some c', [], []) \<and> readlen c' = 0 \<and>
      (\<forall>data'. int (length data') \<le> readlen c' \<longrightarrow> readQueryFromClient (recording\<lparr>env_stopped := \<lambda>_. True\<rparr>) (2 ^ 30) c' [] data' = Some (None, [], []))"
    by (rule paused_client_dropped)
      (simp_all add: new_client_def PROTO_MBULK_BIG_ARG_def readlen_def PROTO_IOBUF_LEN_def del: replicate.simps)
  then show ?thesis by blast
qed

text \<open>
  C35. A well-formed request can be refused with a protocol error. When the input of a client that
  was blocked or paused is processed late, and ends inside the length of an argument, the limit of
  64 KB for such a line is compared with the whole buffer, the arguments before it included.
\<close>

theorem valid_request_refused:
  assumes "fresh_client c" and "65534 \<le> length a" and "length a \<le> max_bulk" and "\<not> env_stopped env s"
    and "q = 42 # dec_nat 2 @ crlf @ enc_bulk a @ [36]"
  shows "enc_cmd [a, b] = q @ dec_nat (length b) @ crlf @ b @ crlf \<and>
    (\<exists>c'. processInputBuffer env (c\<lparr>c_querybuf := q\<rparr>) s = Some (c', s) \<and> c_close c' \<and> c_errors c' = c_errors c @ [Too_big_bulk_count])"
proof
  show "enc_cmd [a, b] = q @ dec_nat (length b) @ crlf @ b @ crlf" by (simp add: assms(5) enc_cmd_def enc_bulk_def numeral_2_eq_2)
  let ?c = "c\<lparr>c_querybuf := q, c_reqtype := Req_Multibulk\<rparr>"
  have fc: "c_multibulklen c = 0" "c_argv c = []" "c_bulklen c = -1" "\<not> c_close c" "c_reqtype c = Req_None" using assms(1) by (auto simp: fresh_client_def)
  have d2: "dec_nat 2 = [50]" by (simp add: dec_nat_less)
  have q: "q = 42 # 50 # 13 # 10 # enc_bulk a @ [36]" using assms(5) d2 by (simp add: crlf_def)
  let ?c1 = "?c\<lparr>c_multibulklen := 2\<rparr>"
  have s2: "string2ll [50] = Some 2" using string2ll_iff [of "[50]" 2] by (simp add: LLONG_MIN_def LLONG_MAX_def decimal_def d2)
  have four: "Suc (Suc (Suc (Suc 0))) = 4" by simp
  have pm: "processMultibulkBuffer ?c = Some (read_bulks ?c1 4)"
    using fc q s2 by (simp add: processMultibulkBuffer_def four)
  let ?l = "length (dec_nat (length a)) + 3"
  let ?c2 = "?c1\<lparr>c_querybuf := a @ crlf @ [36], c_bulklen := int (length a)\<rparr>"
  have "read_bulk_line ?c1 4 = Line_ok ?c2 0"
  proof -
    have e: "drop 4 q @ [] = 36 # dec_nat (length a) @ crlf @ (a @ crlf @ [36])" using q by (simp add: enc_bulk_def)
    have len: "length (dec_nat (length a)) + 3 \<le> length (drop 4 q)" using e by (simp add: crlf_def)
    have n63: "length a < 2 ^ 63" using assms(3) by simp
    note nb = num_line_body [OF e len n63]
    have f: "find_char 13 (drop 4 q) = Some (Suc (length (dec_nat (length a))))" using find_num_line [OF e] len by simp
    have "q ! 4 = 36" using q by (simp add: enc_bulk_def)
    moreover have "take (length (dec_nat (length a))) (drop (4 + 1) q) = take (length (dec_nat (length a))) (drop 1 (drop 4 q))" by simp
    moreover have "drop (4 + Suc (length (dec_nat (length a))) + 2) q = a @ crlf @ [36]" using nb(3) by (simp add: add.commute numeral_3_eq_3 numeral_2_eq_2)
    moreover have "\<not> int (4 + Suc (length (dec_nat (length a)))) > int (length q) - 2" using len q by simp
    ultimately show ?thesis using f nb(2) assms(2,3) by (simp add: read_bulk_line_def PROTO_MBULK_BIG_ARG_def)
  qed
  moreover have "\<not> length (c_querybuf ?c2) - 0 < nat (c_bulklen ?c2 + 2)" by (simp add: crlf_def)
  ultimately have bl: "bulk_loop 2 ?c1 4 = bulk_loop 1 (?c2\<lparr>c_argv := [a], c_bulklen := -1, c_multibulklen := 1\<rparr>) (length a + 2)"
    using fc by (simp add: numeral_2_eq_2 crlf_def)
  let ?c3 = "?c2\<lparr>c_argv := [a], c_bulklen := -1, c_multibulklen := 1\<rparr>"
  have "read_bulk_line ?c3 (length a + 2) = Line_error (setProtocolError Too_big_bulk_count ?c3 0)"
    using assms(2) by (simp add: read_bulk_line_def crlf_def PROTO_INLINE_MAX_SIZE_def)
  then have "bulk_loop 2 ?c1 4 = Inl (setProtocolError Too_big_bulk_count ?c3 0)" using bl by simp
  then have "processMultibulkBuffer ?c = Some (setProtocolError Too_big_bulk_count ?c3 0, False)" using pm by (simp add: read_bulks_def)
  moreover have "choose_type (c\<lparr>c_querybuf := q\<rparr>) = ?c" using fc q by (simp add: choose_type_def)
  ultimately have "processInputBuffer env (c\<lparr>c_querybuf := q\<rparr>) s = Some (setProtocolError Too_big_bulk_count ?c3 0, s)"
    using assms(4) fc q by (subst processInputBuffer.simps) simp
  then show "\<exists>c'. processInputBuffer env (c\<lparr>c_querybuf := q\<rparr>) s = Some (c', s) \<and> c_close c' \<and> c_errors c' = c_errors c @ [Too_big_bulk_count]"
    by (simp add: setProtocolError_def)
qed

theorem valid_request_refused_witness:
  "\<exists>c'. processInputBuffer recording (new_client\<lparr>c_querybuf := 42 # dec_nat 2 @ crlf @ enc_bulk (replicate 65534 7) @ [36]\<rparr>) [] = Some (c', []) \<and>
     c_close c' \<and> c_errors c' = [Too_big_bulk_count]"
  using valid_request_refused [of new_client "replicate 65534 7" recording "[]" _ "[]", OF _ _ _ _ refl]
  by (simp add: fresh_client_def new_client_def recording_def del: replicate.simps)

end
