(* ===== verification/Replication.thy ===== *)
theory Replication
  imports Protocol_Stream Bytes Simulation Dict_Types
begin

section \<open>The replication stream of a master: \<open>replication.c\<close>\<close>

text \<open>
  A master sends every write command to its replicas and keeps the last bytes of the stream in
  the backlog, a circular buffer, from which a replica that lost its connection continues. The
  record holds the fields of \<open>server\<close> these functions use; the record of a replica those of its client:
  \<open>sl_reply\<close> is what was written to its socket directly, \<open>sl_out\<close> what was added to its output buffer
  since it asked to be synchronized. What the operating system answers is \<open>repl_env\<close>: which writes to a
  socket succeed, whether the snapshot file can be opened for a replica, whether a child process
  starts, random identities, and what memory holds before it is written. Offsets stay below \<open>2 ^ 63\<close>.
  Writing outside the backlog and a failed assertion are \<open>None\<close>.
\<close>

datatype slave_state = WAIT_BGSAVE_START | WAIT_BGSAVE_END | SEND_BULK | ONLINE

record slave =
  sl_id :: nat
  sl_replstate :: slave_state
  sl_capa :: int
  sl_pre_psync :: bool
  sl_close :: bool
  sl_put_online_on_ack :: bool
  sl_initial_offset :: int
  sl_reply :: bytes
  sl_out :: bytes

datatype rdb_child_type = RDB_CHILD_TYPE_DISK | RDB_CHILD_TYPE_SOCKET

record repl_server =
  repl_backlog :: "bytes option"
  repl_backlog_size :: nat
  repl_backlog_histlen :: nat
  repl_backlog_idx :: nat
  repl_backlog_off :: int
  master_repl_offset :: int
  replid :: bytes
  replid2 :: bytes
  second_replid_offset :: int
  slaveseldb :: int
  masterhost :: bool
  master_client :: bool
  repl_connected :: bool
  repl_diskless_sync :: bool
  rdb_child :: "rdb_child_type option"
  aof_child :: bool
  slaves :: "slave list"

record repl_env =
  e_sent :: "nat \<Rightarrow> bool"
  e_open :: "nat \<Rightarrow> bool"
  e_child :: bool
  e_newid :: bytes
  e_fresh :: "nat \<Rightarrow> u8"
  e_stack :: bytes

definition CONFIG_REPL_BACKLOG_MIN_SIZE :: int where "CONFIG_REPL_BACKLOG_MIN_SIZE = 16384"

subsection \<open>The backlog\<close>

text \<open>A fresh buffer has arbitrary contents.\<close>

definition empty_backlog :: "(nat \<Rightarrow> u8) \<Rightarrow> repl_server \<Rightarrow> repl_server" where
  "empty_backlog junk s = s\<lparr>repl_backlog := Some (map junk [0..<repl_backlog_size s]), repl_backlog_histlen := 0,
     repl_backlog_idx := 0, repl_backlog_off := master_repl_offset s + 1\<rparr>"

definition createReplicationBacklog :: "(nat \<Rightarrow> u8) \<Rightarrow> repl_server \<Rightarrow> repl_server option" where
  "createReplicationBacklog junk s = (if repl_backlog s \<noteq> None then None else Some (empty_backlog junk s))"

definition resizeReplicationBacklog :: "(nat \<Rightarrow> u8) \<Rightarrow> int \<Rightarrow> repl_server \<Rightarrow> repl_server" where
  "resizeReplicationBacklog junk newsize s =
     (let newsize = nat (if newsize < CONFIG_REPL_BACKLOG_MIN_SIZE then CONFIG_REPL_BACKLOG_MIN_SIZE else newsize) in
      if repl_backlog_size s = newsize then s
      else let s = s\<lparr>repl_backlog_size := newsize\<rparr> in
        if repl_backlog s \<noteq> None then empty_backlog junk s else s)"

definition freeReplicationBacklog :: "repl_server \<Rightarrow> repl_server option" where
  "freeReplicationBacklog s = (if slaves s \<noteq> [] then None else Some (s\<lparr>repl_backlog := None\<rparr>))"

text \<open>\<open>while(len)\<close>: the data is copied in as few pieces as possible.\<close>

partial_function (option) feed_loop :: "repl_server \<Rightarrow> bytes \<Rightarrow> repl_server option" where
  "feed_loop s p =
     (if p = [] then Some s
      else do {
        let thislen = min (repl_backlog_size s - repl_backlog_idx s) (length p);
        buf \<leftarrow> repl_backlog s;
        buf \<leftarrow> mem_write buf (repl_backlog_idx s) (take thislen p);
        let idx = repl_backlog_idx s + thislen;
        let idx = (if idx = repl_backlog_size s then 0 else idx);
        feed_loop (s\<lparr>repl_backlog := Some buf, repl_backlog_idx := idx, repl_backlog_histlen := repl_backlog_histlen s + thislen\<rparr>) (drop thislen p)
      })"

declare feed_loop.simps [code]

definition feedReplicationBacklog :: "bytes \<Rightarrow> repl_server \<Rightarrow> repl_server option" where
  "feedReplicationBacklog p s = do {
     s \<leftarrow> feed_loop (s\<lparr>master_repl_offset := master_repl_offset s + int (length p)\<rparr>) p;
     let histlen = (if repl_backlog_histlen s > repl_backlog_size s then repl_backlog_size s else repl_backlog_histlen s);
     Some (s\<lparr>repl_backlog_histlen := histlen, repl_backlog_off := master_repl_offset s - int histlen + 1\<rparr>)
   }"

text \<open>An integer is printed into a buffer of \<open>LONG_STR_SIZE\<close> bytes, which is 21.\<close>

definition feedReplicationBacklogWithObject :: "bytes \<Rightarrow> robj \<Rightarrow> repl_server \<Rightarrow> repl_server option" where
  "feedReplicationBacklogWithObject junk o' s = (case o' of
     Obj_Int n \<Rightarrow> do { (buf, len) \<leftarrow> ll2string (take 21 junk) n; feedReplicationBacklog (take len buf) s }
   | Obj_Sds str \<Rightarrow> feedReplicationBacklog str s)"

subsection \<open>Feeding the replicas\<close>

definition feed_slaves :: "bytes \<Rightarrow> repl_server \<Rightarrow> repl_server" where
  "feed_slaves p s = s\<lparr>slaves := map (\<lambda>sl. if sl_replstate sl = WAIT_BGSAVE_START then sl else sl\<lparr>sl_out := sl_out sl @ p\<rparr>) (slaves s)\<rparr>"

text \<open>\<open>"*2\r\n$6\r\nSELECT\r\n$%d\r\n%s\r\n"\<close>, shared for the first databases and printed for the others.\<close>

definition select_cmd :: "bytes \<Rightarrow> int \<Rightarrow> bytes option" where
  "select_cmd junk dictid = do {
     (llstr, dictid_len) \<leftarrow> ll2string (take 21 junk) dictid;
     Some ([42, 50, 13, 10, 36, 54, 13, 10, 83, 69, 76, 69, 67, 84, 13, 10, 36] @ decimal (int dictid_len) @ crlf @ take dictid_len llstr @ crlf)
   }"

text \<open>\<open>aux\<close>: a prefix, a number and the end of the line, in a buffer of 24 bytes.\<close>

definition aux_line :: "bytes \<Rightarrow> u8 \<Rightarrow> int \<Rightarrow> bytes option" where
  "aux_line junk pfx n = do {
     (buf, len) \<leftarrow> ll2string (take 23 junk) n;
     let aux = pfx # buf;
     aux \<leftarrow> put (len + 1) 13 aux;
     aux \<leftarrow> put (len + 2) 10 aux;
     Some (take (len + 3) aux)
   }"

definition stringObjectLen :: "robj \<Rightarrow> nat" where
  "stringObjectLen o' = (case o' of Obj_Sds str \<Rightarrow> length str | Obj_Int n \<Rightarrow> sdigits10 n)"

fun feed_args :: "bytes \<Rightarrow> robj list \<Rightarrow> repl_server \<Rightarrow> repl_server option" where
  "feed_args junk [] s = Some s"
| "feed_args junk (a # argv) s = do {
     aux \<leftarrow> aux_line junk 36 (int (stringObjectLen a));
     s \<leftarrow> feedReplicationBacklog aux s;
     s \<leftarrow> feedReplicationBacklogWithObject junk a s;
     s \<leftarrow> feedReplicationBacklog crlf s;
     feed_args junk argv s
   }"

fun reply_args :: "bytes \<Rightarrow> robj list \<Rightarrow> bytes option" where
  "reply_args junk [] = Some []"
| "reply_args junk (a # argv) = do { x \<leftarrow> addReplyBulk junk a; xs \<leftarrow> reply_args junk argv; Some (x @ xs) }"

definition replicationFeedSlaves :: "bytes \<Rightarrow> int \<Rightarrow> robj list \<Rightarrow> repl_server \<Rightarrow> repl_server option" where
  "replicationFeedSlaves junk dictid argv s =
     (if masterhost s then Some s
      else if repl_backlog s = None \<and> slaves s = [] then Some s
      else if slaves s \<noteq> [] \<and> repl_backlog s = None then None
      else do {
        s \<leftarrow> (if slaveseldb s \<noteq> dictid then do {
               selectcmd \<leftarrow> select_cmd junk dictid;
               s \<leftarrow> (if repl_backlog s \<noteq> None then feedReplicationBacklog selectcmd s else Some s);
               Some (feed_slaves selectcmd s)
             }
             else Some s);
        let s = s\<lparr>slaveseldb := dictid\<rparr>;
        s \<leftarrow> (if repl_backlog s \<noteq> None then do {
               aux \<leftarrow> aux_line junk 42 (int (length argv));
               s \<leftarrow> feedReplicationBacklog aux s;
               feed_args junk argv s
             }
             else Some s);
        hdr \<leftarrow> addReplyMultiBulkLen junk (int (length argv));
        body \<leftarrow> reply_args junk argv;
        Some (feed_slaves (hdr @ body) s)
      })"

definition replicationFeedSlavesFromMasterStream :: "bytes \<Rightarrow> repl_server \<Rightarrow> repl_server option" where
  "replicationFeedSlavesFromMasterStream buf s = do {
     s \<leftarrow> (if repl_backlog s \<noteq> None then feedReplicationBacklog buf s else Some s);
     Some (feed_slaves buf s)
   }"

subsection \<open>Resynchronization\<close>

text \<open>\<open>while(len)\<close>: up to the end of the buffer, then from its start.\<close>

partial_function (option) send_loop :: "bytes \<Rightarrow> nat \<Rightarrow> nat \<Rightarrow> nat \<Rightarrow> bytes \<Rightarrow> bytes option" where
  "send_loop buf bsize j len out =
     (if len = 0 then Some out
      else do {
        let thislen = (if bsize - j < len then bsize - j else len);
        piece \<leftarrow> mem_read buf j thislen;
        send_loop buf bsize 0 (len - thislen) (out @ piece)
      })"

declare send_loop.simps [code]

text \<open>What is added to the output of the replica.\<close>

definition addReplyReplicationBacklog :: "repl_server \<Rightarrow> int \<Rightarrow> bytes option" where
  "addReplyReplicationBacklog s offset =
     (if repl_backlog_histlen s = 0 then Some []
      else do {
        buf \<leftarrow> repl_backlog s;
        let skip = offset - repl_backlog_off s;
        let j = (int (repl_backlog_idx s) + (int (repl_backlog_size s) - int (repl_backlog_histlen s))) mod int (repl_backlog_size s);
        let j = (j + skip) mod int (repl_backlog_size s);
        let len = int (repl_backlog_histlen s) - skip;
        send_loop buf (repl_backlog_size s) (nat j) (nat len) []
      })"

definition getPsyncInitialOffset :: "repl_server \<Rightarrow> int" where
  "getPsyncInitialOffset s = master_repl_offset s"

text \<open>\<open>"+FULLRESYNC %s %lld\r\n"\<close>\<close>

definition fullresync :: "bytes \<Rightarrow> int \<Rightarrow> bytes" where
  "fullresync rid offset = map of_char ''+FULLRESYNC '' @ rid @ [32] @ decimal offset @ crlf"

text \<open>The client of \<open>replicationSetupSlaveForFullResync\<close>, and the loops that call it for all waiting replicas.\<close>

definition setup_slave :: "repl_env \<Rightarrow> bytes \<Rightarrow> int \<Rightarrow> slave \<Rightarrow> slave" where
  "setup_slave env rid offset sl =
     (let sl = sl\<lparr>sl_initial_offset := offset, sl_replstate := WAIT_BGSAVE_END\<rparr> in
      if sl_pre_psync sl then sl
      else if e_sent env (sl_id sl) then sl\<lparr>sl_reply := sl_reply sl @ fullresync rid offset\<rparr>
      else sl\<lparr>sl_close := True\<rparr>)"

definition replicationSetupSlaveForFullResync :: "repl_env \<Rightarrow> nat \<Rightarrow> int \<Rightarrow> repl_server \<Rightarrow> repl_server" where
  "replicationSetupSlaveForFullResync env c offset s =
     s\<lparr>slaveseldb := -1, slaves := map (\<lambda>sl. if sl_id sl = c then setup_slave env (replid s) offset sl else sl) (slaves s)\<rparr>"

definition setup_waiting :: "repl_env \<Rightarrow> repl_server \<Rightarrow> repl_server" where
  "setup_waiting env s =
     s\<lparr>slaveseldb := (if \<exists>sl \<in> set (slaves s). sl_replstate sl = WAIT_BGSAVE_START then -1 else slaveseldb s),
       slaves := map (\<lambda>sl. if sl_replstate sl = WAIT_BGSAVE_START then setup_slave env (replid s) (getPsyncInitialOffset s) sl else sl) (slaves s)\<rparr>"

text \<open>
  The argument is the number of the offset, \<open>None\<close> when it is not one; then an error is added to the
  output. The client is the one of the replica, which is appended to the list on success; \<open>False\<close> asks for a full
  resynchronization.
\<close>

definition not_an_integer :: bytes where
  "not_an_integer = map of_char ''-ERR value is not an integer or out of range'' @ crlf"

definition SLAVE_CAPA_EOF :: int where "SLAVE_CAPA_EOF = 1"
definition SLAVE_CAPA_PSYNC2 :: int where "SLAVE_CAPA_PSYNC2 = 2"

definition masterTryPartialResynchronization :: "repl_env \<Rightarrow> slave \<Rightarrow> bytes \<Rightarrow> int option \<Rightarrow> repl_server \<Rightarrow> (repl_server \<times> slave \<times> bool) option" where
  "masterTryPartialResynchronization env c master_replid psync_offset s =
     (case psync_offset of
        None \<Rightarrow> Some (s, c\<lparr>sl_out := sl_out c @ not_an_integer\<rparr>, False)
      | Some psync_offset \<Rightarrow>
          if \<not> strcasecmp_eq master_replid (replid s) \<and>
             (\<not> strcasecmp_eq master_replid (replid2 s) \<or> psync_offset > second_replid_offset s) then Some (s, c, False)
          else if repl_backlog s = None \<or> psync_offset < repl_backlog_off s \<or>
             psync_offset > repl_backlog_off s + int (repl_backlog_histlen s) then Some (s, c, False)
          else
            let c = c\<lparr>sl_replstate := ONLINE, sl_put_online_on_ack := False\<rparr> in
            if \<not> e_sent env (sl_id c) then
              let c = c\<lparr>sl_close := True\<rparr> in Some (s\<lparr>slaves := slaves s @ [c]\<rparr>, c, True)
            else do {
              out \<leftarrow> addReplyReplicationBacklog s psync_offset;
              let reply = (if sl_capa c AND SLAVE_CAPA_PSYNC2 \<noteq> 0 then map of_char ''+CONTINUE '' @ replid s @ crlf
                           else map of_char ''+CONTINUE'' @ crlf);
              let c = c\<lparr>sl_reply := sl_reply c @ reply, sl_out := sl_out c @ out\<rparr>;
              Some (s\<lparr>slaves := slaves s @ [c]\<rparr>, c, True)
            })"

text \<open>
  \<open>rdbSaveBackground\<close> and \<open>rdbSaveToSlavesSockets\<close>, as far as the replicas see them: no child starts while
  another one runs. The second prepares the replicas itself, before the fork, and takes that back
  when the fork fails.
\<close>

definition rdbSaveBackground :: "repl_env \<Rightarrow> repl_server \<Rightarrow> repl_server \<times> bool" where
  "rdbSaveBackground env s =
     (if aof_child s \<or> rdb_child s \<noteq> None then (s, False)
      else if \<not> e_child env then (s, False)
      else (s\<lparr>rdb_child := Some RDB_CHILD_TYPE_DISK\<rparr>, True))"

definition rdbSaveToSlavesSockets :: "repl_env \<Rightarrow> repl_server \<Rightarrow> repl_server \<times> bool" where
  "rdbSaveToSlavesSockets env s =
     (if aof_child s \<or> rdb_child s \<noteq> None then (s, False)
      else let clientids = map sl_id (filter (\<lambda>sl. sl_replstate sl = WAIT_BGSAVE_START) (slaves s));
               s = setup_waiting env s in
        if \<not> e_child env
        then (s\<lparr>slaves := map (\<lambda>sl. if sl_id sl \<in> set clientids then sl\<lparr>sl_replstate := WAIT_BGSAVE_START\<rparr> else sl) (slaves s)\<rparr>, False)
        else (s\<lparr>rdb_child := Some RDB_CHILD_TYPE_SOCKET\<rparr>, True))"

definition rdbPopulateSaveInfo :: "repl_server \<Rightarrow> bool" where
  "rdbPopulateSaveInfo s \<longleftrightarrow> \<not> masterhost s \<or> master_client s"

definition startBgsaveForReplication :: "repl_env \<Rightarrow> int \<Rightarrow> repl_server \<Rightarrow> repl_server" where
  "startBgsaveForReplication env mincapa s =
     (let socket_target = (repl_diskless_sync s \<and> mincapa AND SLAVE_CAPA_EOF \<noteq> 0);
          (s, ok) = (if rdbPopulateSaveInfo s
             then if socket_target then rdbSaveToSlavesSockets env s else rdbSaveBackground env s
             else (s, False))
      in if \<not> ok then s\<lparr>slaves := filter (\<lambda>sl. sl_replstate sl \<noteq> WAIT_BGSAVE_START) (slaves s)\<rparr>
         else if \<not> socket_target then setup_waiting env s
         else s)"

definition changeReplicationId :: "repl_env \<Rightarrow> repl_server \<Rightarrow> repl_server" where
  "changeReplicationId env s = s\<lparr>replid := e_newid env\<rparr>"

definition clearReplicationId2 :: "repl_server \<Rightarrow> repl_server" where
  "clearReplicationId2 s = s\<lparr>replid2 := replicate 40 48, second_replid_offset := -1\<rparr>"

datatype sync_result = Sync_none | Sync_ignored | Sync_nomasterlink | Sync_pending | Sync_partial | Sync_full

definition full_resync :: "repl_env \<Rightarrow> slave \<Rightarrow> repl_server \<Rightarrow> repl_server option" where
  "full_resync env c s = do {
     let c = c\<lparr>sl_replstate := WAIT_BGSAVE_START\<rparr>;
     let s = s\<lparr>slaves := slaves s @ [c]\<rparr>;
     s \<leftarrow> (if length (slaves s) = 1 \<and> repl_backlog s = None
          then createReplicationBacklog (e_fresh env) (clearReplicationId2 (changeReplicationId env s)) else Some s);
     Some (case rdb_child s of
       Some RDB_CHILD_TYPE_DISK \<Rightarrow>
         (case find (\<lambda>sl. sl_replstate sl = WAIT_BGSAVE_END) (slaves s) of
            Some sl \<Rightarrow>
              if sl_capa c AND sl_capa sl = sl_capa sl
              then replicationSetupSlaveForFullResync env (sl_id c) (sl_initial_offset sl)
                (s\<lparr>slaves := map (\<lambda>d. if sl_id d = sl_id c then d\<lparr>sl_out := sl_out sl\<rparr> else d) (slaves s)\<rparr>)
              else s
          | None \<Rightarrow> s)
     | Some RDB_CHILD_TYPE_SOCKET \<Rightarrow> s
     | None \<Rightarrow>
         if repl_diskless_sync s \<and> sl_capa c AND SLAVE_CAPA_EOF \<noteq> 0 then s
         else if \<not> aof_child s then startBgsaveForReplication env (sl_capa c) s
         else s)
   }"

text \<open>SYNC has no arguments here, PSYNC the identity of the history and the offset.\<close>

definition syncCommand :: "repl_env \<Rightarrow> slave \<Rightarrow> (bytes \<times> int option) option \<Rightarrow> repl_server \<Rightarrow> (repl_server \<times> sync_result) option" where
  "syncCommand env c args s =
     (if sl_id c \<in> set (map sl_id (slaves s)) then Some (s, Sync_ignored)
      else if masterhost s \<and> \<not> repl_connected s then Some (s, Sync_nomasterlink)
      else if sl_out c \<noteq> [] then Some (s, Sync_pending)
      else do {
        (s, c, ok) \<leftarrow> (case args of
            Some (rid, offset) \<Rightarrow> masterTryPartialResynchronization env c rid offset s
          | None \<Rightarrow> Some (s, c\<lparr>sl_pre_psync := True\<rparr>, False));
        if ok then Some (s, Sync_partial) else do { s \<leftarrow> full_resync env c s; Some (s, Sync_full) }
      })"

subsection \<open>The end of a snapshot, disconnections and roles\<close>

definition min_capa :: "slave list \<Rightarrow> int" where
  "min_capa sls = fold (\<lambda>sl mincapa. if sl_replstate sl = WAIT_BGSAVE_START
     then if mincapa = -1 then sl_capa sl else mincapa AND sl_capa sl else mincapa) sls (-1)"

text \<open>The handler of a finished child clears \<open>rdb_child_pid\<close> before the call.\<close>

definition bgsave_end_slave :: "repl_env \<Rightarrow> bool \<Rightarrow> rdb_child_type \<Rightarrow> slave \<Rightarrow> slave list" where
  "bgsave_end_slave env bgsaveok type' sl =
     (if sl_replstate sl \<noteq> WAIT_BGSAVE_END then [sl]
      else if type' = RDB_CHILD_TYPE_SOCKET then [sl\<lparr>sl_replstate := ONLINE, sl_put_online_on_ack := True\<rparr>]
      else if \<not> bgsaveok then []
      else if \<not> e_open env (sl_id sl) then []
      else [sl\<lparr>sl_replstate := SEND_BULK\<rparr>])"

definition updateSlavesWaitingBgsave :: "repl_env \<Rightarrow> bool \<Rightarrow> rdb_child_type \<Rightarrow> repl_server \<Rightarrow> repl_server" where
  "updateSlavesWaitingBgsave env bgsaveok type' s =
     (let startbgsave = (\<exists>sl \<in> set (slaves s). sl_replstate sl = WAIT_BGSAVE_START);
          mincapa = min_capa (slaves s);
          s = s\<lparr>slaves := concat (map (bgsave_end_slave env bgsaveok type') (slaves s))\<rparr>
      in if startbgsave then startBgsaveForReplication env mincapa s else s)"

text \<open>A replica that was sent its snapshot, or acknowledged it; \<open>freeClient\<close>, when the event cannot be registered.\<close>

definition freeSlave :: "nat \<Rightarrow> repl_server \<Rightarrow> repl_server" where
  "freeSlave c s = s\<lparr>slaves := filter (\<lambda>sl. sl_id sl \<noteq> c) (slaves s)\<rparr>"

definition putSlaveOnline :: "repl_env \<Rightarrow> nat \<Rightarrow> repl_server \<Rightarrow> repl_server" where
  "putSlaveOnline env c s =
     (let s = s\<lparr>slaves := map (\<lambda>sl. if sl_id sl = c then sl\<lparr>sl_replstate := ONLINE, sl_put_online_on_ack := False\<rparr> else sl) (slaves s)\<rparr>
      in if e_open env c then s else freeSlave c s)"

text \<open>
  The parts of \<open>replicationCron\<close> that concern replicas: \<open>ping\<close> says whether the period of the PING is over,
  \<open>late\<close> which online replicas timed out, \<open>unused\<close> whether the time limit of an unused backlog is over, \<open>waited\<close>
  whether the delay of diskless snapshots is over.
\<close>

definition cron_newlines :: "repl_env \<Rightarrow> repl_server \<Rightarrow> repl_server" where
  "cron_newlines env s = s\<lparr>slaves := map (\<lambda>sl. if sl_replstate sl = WAIT_BGSAVE_START \<or>
        sl_replstate sl = WAIT_BGSAVE_END \<and> rdb_child s \<noteq> Some RDB_CHILD_TYPE_SOCKET
      then if e_sent env (sl_id sl) then sl\<lparr>sl_reply := sl_reply sl @ [10]\<rparr> else sl else sl) (slaves s)\<rparr>"

definition cron_timeouts :: "(nat \<Rightarrow> bool) \<Rightarrow> repl_server \<Rightarrow> repl_server" where
  "cron_timeouts late s = s\<lparr>slaves := filter (\<lambda>sl. \<not> (sl_replstate sl = ONLINE \<and> \<not> sl_pre_psync sl \<and> late (sl_id sl))) (slaves s)\<rparr>"

definition cron_backlog :: "bool \<Rightarrow> repl_server \<Rightarrow> repl_server option" where
  "cron_backlog unused s = (if slaves s = [] \<and> repl_backlog s \<noteq> None \<and> \<not> masterhost s \<and> unused then freeReplicationBacklog s else Some s)"

definition cron_bgsave :: "repl_env \<Rightarrow> bool \<Rightarrow> repl_server \<Rightarrow> repl_server" where
  "cron_bgsave env waited s =
     (if rdb_child s = None \<and> \<not> aof_child s \<and> (\<exists>sl \<in> set (slaves s). sl_replstate sl = WAIT_BGSAVE_START) \<and>
         (\<not> repl_diskless_sync s \<or> waited)
      then startBgsaveForReplication env (min_capa (slaves s)) s else s)"

definition replicationCron :: "repl_env \<Rightarrow> bool \<Rightarrow> (nat \<Rightarrow> bool) \<Rightarrow> bool \<Rightarrow> bool \<Rightarrow> repl_server \<Rightarrow> repl_server option" where
  "replicationCron env ping late unused waited s = do {
     s \<leftarrow> (if ping \<and> slaves s \<noteq> [] then replicationFeedSlaves (e_stack env) (slaveseldb s) [Obj_Sds (map of_char ''PING'')] s else Some s);
     s \<leftarrow> cron_backlog unused (cron_timeouts late (cron_newlines env s));
     Some (cron_bgsave env waited s)
   }"

text \<open>Becoming a master after a failover: the identity of the old master is kept up to the current offset.\<close>

definition shiftReplicationId :: "repl_env \<Rightarrow> repl_server \<Rightarrow> repl_server" where
  "shiftReplicationId env s = changeReplicationId env (s\<lparr>replid2 := replid s, second_replid_offset := master_repl_offset s + 1\<rparr>)"

definition replicationUnsetMaster :: "repl_env \<Rightarrow> repl_server \<Rightarrow> repl_server" where
  "replicationUnsetMaster env s =
     (if \<not> masterhost s then s
      else (shiftReplicationId env (s\<lparr>masterhost := False\<rparr>))\<lparr>master_client := False, slaves := [], repl_connected := False, slaveseldb := -1\<rparr>)"

text \<open>
  A master that becomes a replica keeps its own identity and offset as those of its next master;
  a replica asks for the byte after the last one it has.
\<close>

definition replicationCacheMasterUsingMyself :: "repl_server \<Rightarrow> bytes \<times> int" where
  "replicationCacheMasterUsingMyself s = (replid s, master_repl_offset s)"

definition psync_request :: "(bytes \<times> int) option \<Rightarrow> bytes \<times> int option" where
  "psync_request cached_master = (case cached_master of Some (rid, reploff) \<Rightarrow> (rid, Some (reploff + 1)) | None \<Rightarrow> ([63], Some (-1)))"

end
