(* ===== verification/Replication_Backlog.thy ===== *)
theory Replication_Backlog
  imports Replication
begin

text \<open>
  The circular buffer of the backlog. Its contents from the oldest byte to the newest are
  \<open>rotated\<close>; a buffer to which the bytes \<open>T\<close> were fed since it was allocated holds the last of them.
\<close>

definition rotated :: "bytes \<Rightarrow> nat \<Rightarrow> bytes" where
  "rotated buf idx = drop idx buf @ take idx buf"

definition ring :: "repl_server \<Rightarrow> bytes \<Rightarrow> bool" where
  "ring s R \<longleftrightarrow> (\<exists>buf. repl_backlog s = Some buf \<and> length buf = repl_backlog_size s \<and>
     repl_backlog_idx s < repl_backlog_size s \<and> rotated buf (repl_backlog_idx s) = R)"

definition backlog_ok :: "repl_server \<Rightarrow> bytes \<Rightarrow> bool" where
  "backlog_ok s T \<longleftrightarrow> (\<exists>J. length J = repl_backlog_size s \<and> ring s (drop (length T) (J @ T))) \<and>
     repl_backlog_histlen s = min (length T) (repl_backlog_size s) \<and>
     repl_backlog_off s = master_repl_offset s - int (repl_backlog_histlen s) + 1"

lemma ring_length: "ring s R \<Longrightarrow> length R = repl_backlog_size s"
  by (auto simp: ring_def rotated_def)

lemma write_rotated:
  assumes "length buf = sz" "idx < sz" "n = min (sz - idx) (length p)"
  shows "rotated (take idx buf @ take n p @ drop (idx + n) buf) (if idx + n = sz then 0 else idx + n) =
    drop n (rotated buf idx @ take n p)"
proof -
  have n: "idx + n \<le> sz" "length (take n p) = n" using assms(2,3) by auto
  show ?thesis
  proof (cases "idx + n = sz")
    case True
    then show ?thesis using assms(1) n by (simp add: rotated_def)
  next
    case False
    then show ?thesis using assms(1,2) n by (simp add: rotated_def add.commute)
  qed
qed

lemma feed_loop_spec:
  "ring s R \<Longrightarrow> \<exists>s'. feed_loop s p = Some s' \<and> ring s' (drop (length p) (R @ p)) \<and>
     repl_backlog_histlen s' = repl_backlog_histlen s + length p \<and>
     s' = s\<lparr>repl_backlog := repl_backlog s', repl_backlog_idx := repl_backlog_idx s', repl_backlog_histlen := repl_backlog_histlen s'\<rparr>"
proof (induction "length p" arbitrary: s R p rule: less_induct)
  case less
  show ?case
  proof (cases "p = []")
    case True
    then show ?thesis using less.prems by (subst feed_loop.simps) simp
  next
    case False
    from less.prems obtain buf where b: "repl_backlog s = Some buf" "length buf = repl_backlog_size s"
      "repl_backlog_idx s < repl_backlog_size s" "rotated buf (repl_backlog_idx s) = R" by (auto simp: ring_def)
    define n where "n = min (repl_backlog_size s - repl_backlog_idx s) (length p)"
    define idx where "idx = (if repl_backlog_idx s + n = repl_backlog_size s then 0 else repl_backlog_idx s + n)"
    define buf' where "buf' = take (repl_backlog_idx s) buf @ take n p @ drop (repl_backlog_idx s + n) buf"
    define s1 where "s1 = s\<lparr>repl_backlog := Some buf', repl_backlog_idx := idx, repl_backlog_histlen := repl_backlog_histlen s + n\<rparr>"
    have n: "0 < n" "n \<le> length p" "repl_backlog_idx s + n \<le> repl_backlog_size s" using b(3) False by (auto simp: n_def)
    have w: "mem_write buf (repl_backlog_idx s) (take n p) = Some buf'" using n b(2) by (simp add: mem_write_def buf'_def)
    have r1: "ring s1 (drop n (R @ take n p))"
      using write_rotated [OF b(2,3) n_def] n b(2,3,4) by (simp add: ring_def s1_def idx_def [symmetric] buf'_def [symmetric] mem_write_length [OF w])
        (simp add: idx_def)
    have e: "feed_loop s p = feed_loop s1 (drop n p)"
      using False b(1) w by (subst feed_loop.simps) (simp add: n_def [symmetric] idx_def [symmetric] s1_def Let_def)
    have lt: "length (drop n p) < length p" using n by simp
    have R: "n \<le> length R" using ring_length [OF less.prems] n by simp
    have d: "drop (length (drop n p)) (drop n (R @ take n p) @ drop n p) = drop (length p) (R @ p)"
    proof -
      have "drop n (R @ take n p) @ drop n p = drop n (R @ p)" using R by simp
      then show ?thesis using n(2) by (simp only: drop_drop length_drop) simp
    qed
    from less.hyps [OF lt r1] obtain s' where s': "feed_loop s1 (drop n p) = Some s'" "ring s' (drop (length p) (R @ p))"
      "repl_backlog_histlen s' = repl_backlog_histlen s1 + length (drop n p)"
      "s' = s1\<lparr>repl_backlog := repl_backlog s', repl_backlog_idx := repl_backlog_idx s', repl_backlog_histlen := repl_backlog_histlen s'\<rparr>"
      unfolding d by blast
    have "repl_backlog_histlen s' = repl_backlog_histlen s + length p" using s'(3) n(2) by (simp add: s1_def)
    moreover have "s' = s\<lparr>repl_backlog := repl_backlog s', repl_backlog_idx := repl_backlog_idx s', repl_backlog_histlen := repl_backlog_histlen s'\<rparr>"
      using s'(4) by (simp add: s1_def)
    ultimately show ?thesis using e s'(1,2) by simp
  qed
qed

text \<open>What a feed changes: the backlog and the offset.\<close>

definition same_but_backlog :: "repl_server \<Rightarrow> repl_server \<Rightarrow> bool" where
  "same_but_backlog s s' \<longleftrightarrow> s' = s\<lparr>repl_backlog := repl_backlog s', repl_backlog_idx := repl_backlog_idx s',
     repl_backlog_histlen := repl_backlog_histlen s', repl_backlog_off := repl_backlog_off s', master_repl_offset := master_repl_offset s'\<rparr>"

lemma feedReplicationBacklog_spec:
  assumes "backlog_ok s T"
  shows "\<exists>s'. feedReplicationBacklog p s = Some s' \<and> backlog_ok s' (T @ p) \<and>
    master_repl_offset s' = master_repl_offset s + int (length p) \<and> same_but_backlog s s'"
proof -
  from assms obtain J where J: "length J = repl_backlog_size s" "ring s (drop (length T) (J @ T))"
    "repl_backlog_histlen s = min (length T) (repl_backlog_size s)" by (auto simp: backlog_ok_def)
  let ?s = "s\<lparr>master_repl_offset := master_repl_offset s + int (length p)\<rparr>"
  have "ring ?s (drop (length T) (J @ T))" using J(2) by (simp add: ring_def)
  from feed_loop_spec [OF this, of p] obtain s1 where
    1: "feed_loop ?s p = Some s1" "ring s1 (drop (length p) (drop (length T) (J @ T) @ p))"
      "repl_backlog_histlen s1 = repl_backlog_histlen ?s + length p"
      "s1 = ?s\<lparr>repl_backlog := repl_backlog s1, repl_backlog_idx := repl_backlog_idx s1, repl_backlog_histlen := repl_backlog_histlen s1\<rparr>"
    by blast
  have f: "repl_backlog_size s1 = repl_backlog_size s" "master_repl_offset s1 = master_repl_offset s + int (length p)"
    using arg_cong [OF 1(4), of repl_backlog_size] arg_cong [OF 1(4), of master_repl_offset] by simp_all
  define h where "h = (if repl_backlog_histlen s1 > repl_backlog_size s1 then repl_backlog_size s1 else repl_backlog_histlen s1)"
  define s' where "s' = s1\<lparr>repl_backlog_histlen := h, repl_backlog_off := master_repl_offset s1 - int h + 1\<rparr>"
  have d: "drop (length p) (drop (length T) (J @ T) @ p) = drop (length (T @ p)) (J @ T @ p)"
  proof -
    have "drop (length T) (J @ T) @ p = drop (length T) (J @ T @ p)" by simp
    then show ?thesis by (simp only: drop_drop length_append add.commute)
  qed
  have h: "h = min (length (T @ p)) (repl_backlog_size s)" using 1(3) J(3) f(1) by (auto simp: h_def)
  have "backlog_ok s' (T @ p)" unfolding backlog_ok_def
  proof (intro conjI exI [of _ J])
    show "length J = repl_backlog_size s'" using J(1) f(1) by (simp add: s'_def)
    show "ring s' (drop (length (T @ p)) (J @ T @ p))" using 1(2) unfolding d by (simp add: ring_def s'_def)
  qed (use h f in \<open>simp_all add: s'_def\<close>)
  moreover have "feedReplicationBacklog p s = Some s'" using 1(1) by (simp add: feedReplicationBacklog_def s'_def h_def Let_def)
  moreover have "same_but_backlog s s'" unfolding same_but_backlog_def s'_def by (subst 1(4)) (simp add: f)
  ultimately show ?thesis using f(2) by (intro exI [of _ s']) (simp add: s'_def)
qed

text \<open>Reading it back from any offset that is kept.\<close>

lemma send_loop_rotated:
  assumes "length buf = sz" "idx < sz" "m \<le> sz"
  shows "send_loop buf sz ((idx + m) mod sz) (sz - m) [] = Some (drop m (rotated buf idx))"
proof -
  have stop: "send_loop buf sz j 0 out = Some out" for j out by (subst send_loop.simps) simp
  have one: "send_loop buf sz 0 k out = Some (out @ take k buf)" if "k \<le> sz" for k out
    using that assms(1) by (subst send_loop.simps) (simp add: mem_read_def stop Let_def)
  show ?thesis
  proof (cases "idx + m < sz")
    case True
    then have j: "(idx + m) mod sz = idx + m" "sz - (idx + m) \<le> sz - m" "sz - m \<noteq> 0" by auto
    have "send_loop buf sz (idx + m) (sz - m) [] = send_loop buf sz 0 idx (drop (idx + m) buf)"
      using True j assms(1) by (subst send_loop.simps) (auto simp: mem_read_def Let_def)
    then show ?thesis using True one [of idx] assms j(1) by (simp add: rotated_def add.commute)
  next
    case False
    then have j: "(idx + m) mod sz = idx + m - sz" using assms(2,3) by (simp add: mod_if)
    show ?thesis
    proof (cases "m = sz")
      case True
      then show ?thesis using stop assms by (simp add: rotated_def)
    next
      case ne: False
      let ?j = "idx + m - sz"
      have "\<not> sz - ?j < sz - m" "sz - m \<noteq> 0" "?j + (sz - m) = idx" using assms(2,3) False ne by auto
      then have "send_loop buf sz ?j (sz - m) [] = Some (take (sz - m) (drop ?j buf))"
        using assms(1,2) by (subst send_loop.simps) (simp add: mem_read_def Let_def stop)
      also have "take (sz - m) (drop ?j buf) = drop m (rotated buf idx)"
      proof -
        have a: "sz - m = idx - ?j" using assms(2,3) False ne by auto
        have b: "m - (sz - idx) = ?j" using assms(2) False by auto
        have c: "drop m (drop idx buf) = []" using assms(1,2) False by simp
        have "drop m (rotated buf idx) = drop ?j (take idx buf)"
          unfolding rotated_def drop_append c length_drop assms(1) b by simp
        then show ?thesis unfolding a drop_take by simp
      qed
      finally show ?thesis unfolding j .
    qed
  qed
qed

lemma addReplyReplicationBacklog_spec:
  assumes "backlog_ok s T" "repl_backlog_off s \<le> offset" "offset \<le> repl_backlog_off s + int (repl_backlog_histlen s)"
  shows "addReplyReplicationBacklog s offset = Some (drop (nat (offset - 1 - (master_repl_offset s - int (length T)))) T)"
proof -
  let ?h = "repl_backlog_histlen s" and ?sz = "repl_backlog_size s" and ?idx = "repl_backlog_idx s"
  from assms(1) obtain J buf where b: "length J = ?sz" "repl_backlog s = Some buf" "length buf = ?sz" "?idx < ?sz"
      "rotated buf ?idx = drop (length T) (J @ T)"
    and h: "?h = min (length T) ?sz" and off: "repl_backlog_off s = master_repl_offset s - int ?h + 1"
    by (auto simp: backlog_ok_def ring_def)
  define skip where "skip = nat (offset - repl_backlog_off s)"
  have sk: "int skip = offset - repl_backlog_off s" "skip \<le> ?h" using assms(2,3) by (auto simp: skip_def)
  define m where "m = ?sz - ?h + skip"
  have m: "m \<le> ?sz" "?sz - m = ?h - skip" using sk(2) h by (auto simp: m_def)
  have j: "nat (((int ?idx + (int ?sz - int ?h)) mod int ?sz + int skip) mod int ?sz) = (?idx + m) mod ?sz"
  proof -
    have "((int ?idx + (int ?sz - int ?h)) mod int ?sz + int skip) mod int ?sz = (int ?idx + (int ?sz - int ?h) + int skip) mod int ?sz"
      by (simp add: mod_add_left_eq)
    also have "int ?idx + (int ?sz - int ?h) + int skip = int (?idx + m)" using h by (simp add: m_def of_nat_diff)
    finally show ?thesis by (simp add: nat_mod_as_int)
  qed
  have len: "nat (int ?h - int skip) = ?sz - m" using m by simp
  have pos: "nat (offset - 1 - (master_repl_offset s - int (length T))) = length T - ?h + skip"
    using sk off h by linarith
  have dT: "drop m (drop (length T) (J @ T)) = drop (length T - ?h + skip) T"
  proof -
    have "m + length T - ?sz = length T - ?h + skip" "?sz \<le> m + length T" using h by (auto simp: m_def)
    then have "drop (m + length T) (J @ T) = drop (length T - ?h + skip) T" using b(1) by simp
    then show ?thesis by (simp only: drop_drop)
  qed
  show ?thesis
  proof (cases "?h = 0")
    case True
    then have "T = []" using h b(4) by (simp add: min_def split: if_splits)
    then show ?thesis using True by (simp add: addReplyReplicationBacklog_def)
  next
    case False
    then show ?thesis using send_loop_rotated [OF b(3,4) m(1)] b(2,5) j len dT pos
      by (simp add: addReplyReplicationBacklog_def Let_def sk(1) [symmetric])
  qed
qed

lemma empty_backlog_ok: "0 < repl_backlog_size s \<Longrightarrow> backlog_ok (empty_backlog junk s) []"
  by (auto simp: backlog_ok_def ring_def rotated_def empty_backlog_def intro!: exI [of _ "map junk [0..<repl_backlog_size s]"])

section \<open>Feeding one command\<close>

lemma same_but_backlog_refl [simp]: "same_but_backlog s s"
  by (simp add: same_but_backlog_def)

lemma same_but_backlog_trans: "same_but_backlog s s1 \<Longrightarrow> same_but_backlog s1 s2 \<Longrightarrow> same_but_backlog s s2"
  unfolding same_but_backlog_def by (cases s, cases s1, cases s2) auto

lemma same_but_backlogD:
  assumes "same_but_backlog s s'"
  shows "repl_backlog_size s' = repl_backlog_size s" "replid s' = replid s" "replid2 s' = replid2 s"
    "second_replid_offset s' = second_replid_offset s" "slaveseldb s' = slaveseldb s" "masterhost s' = masterhost s"
    "slaves s' = slaves s" "rdb_child s' = rdb_child s"
  using assms unfolding same_but_backlog_def by (cases s, cases s', auto)+

text \<open>\<open>f\<close> feeds the bytes \<open>p\<close> to the backlog.\<close>

definition feeds :: "(repl_server \<Rightarrow> repl_server option) \<Rightarrow> bytes \<Rightarrow> bool" where
  "feeds f p \<longleftrightarrow> (\<forall>s T. backlog_ok s T \<longrightarrow> (\<exists>s'. f s = Some s' \<and> backlog_ok s' (T @ p) \<and>
     master_repl_offset s' = master_repl_offset s + int (length p) \<and> same_but_backlog s s'))"

lemma feedsD:
  "feeds f p \<Longrightarrow> backlog_ok s T \<Longrightarrow> \<exists>s'. f s = Some s' \<and> backlog_ok s' (T @ p) \<and>
     master_repl_offset s' = master_repl_offset s + int (length p) \<and> same_but_backlog s s'"
  by (simp add: feeds_def)

lemma feeds_backlog: "feeds (feedReplicationBacklog p) p"
  using feedReplicationBacklog_spec by (simp add: feeds_def)

lemma feeds_none: "feeds Some []"
  by (simp add: feeds_def)

lemma feeds_comp:
  assumes "feeds f p" "feeds g q"
  shows "feeds (\<lambda>s. f s \<bind> g) (p @ q)"
  unfolding feeds_def
proof (intro allI impI)
  fix s T assume "backlog_ok s T"
  from feedsD [OF assms(1) this] obtain s1 where 1: "f s = Some s1" "backlog_ok s1 (T @ p)"
    "master_repl_offset s1 = master_repl_offset s + int (length p)" "same_but_backlog s s1" by blast
  from feedsD [OF assms(2) 1(2)] obtain s2 where 2: "g s1 = Some s2" "backlog_ok s2 ((T @ p) @ q)"
    "master_repl_offset s2 = master_repl_offset s1 + int (length q)" "same_but_backlog s1 s2" by blast
  show "\<exists>s'. f s \<bind> g = Some s' \<and> backlog_ok s' (T @ p @ q) \<and>
      master_repl_offset s' = master_repl_offset s + int (length (p @ q)) \<and> same_but_backlog s s'"
    using 1 2 same_but_backlog_trans [OF 1(4) 2(4)] by (intro exI [of _ s2]) simp
qed

lemma aux_line_spec:
  assumes "- (2 ^ 63) \<le> v" "v < 2 ^ 63" "127 \<le> length junk"
  shows "aux_line junk pfx v = Some (pfx # decimal v @ crlf)"
proof -
  have l: "ll2string (take 23 junk) v = Some (decimal v @ 0 # drop (Suc (length (decimal v))) (take 23 junk), length (decimal v))"
    using assms by (intro ll2string_take) auto
  have n: "length (decimal v) \<le> 20" by (rule length_decimal [OF assms(1,2)])
  obtain x xs where "drop (Suc (length (decimal v))) (take 23 junk) = x # xs"
    using n assms(3) by (cases "drop (Suc (length (decimal v))) (take 23 junk)") auto
  then show ?thesis using l by (simp add: aux_line_def put_def crlf_def list_update_append nth_append numeral_3_eq_3)
qed

lemma sdigits10_length: "- (2 ^ 63) \<le> v \<Longrightarrow> sdigits10 v = length (decimal v)"
  using decimal_abs [of v] by (auto simp: sdigits10_def decimal_def Let_def digits10_dec LLONG_MIN_def)

lemma stringObjectLen_spec: "obj_ok a \<Longrightarrow> stringObjectLen a = length (obj_bytes a)"
  by (auto simp: stringObjectLen_def obj_bytes_def obj_ok_def sdigits10_length split: robj.splits)

lemma obj_bytes_bound: "obj_ok a \<Longrightarrow> length (obj_bytes a) < 2 ^ 63"
  using length_decimal by (fastforce simp: obj_ok_def obj_bytes_def split: robj.splits)

lemma feeds_object:
  assumes "obj_ok a" "127 \<le> length junk"
  shows "feeds (feedReplicationBacklogWithObject junk a) (obj_bytes a)"
proof (cases a)
  case (Obj_Int n)
  have "ll2string (take 21 junk) n = Some (decimal n @ 0 # drop (Suc (length (decimal n))) (take 21 junk), length (decimal n))"
    using assms Obj_Int by (intro ll2string_take) (auto simp: obj_ok_def)
  then have "feedReplicationBacklogWithObject junk a = feedReplicationBacklog (obj_bytes a)"
    using Obj_Int by (simp add: feedReplicationBacklogWithObject_def obj_bytes_def fun_eq_iff)
  then show ?thesis using feeds_backlog by simp
next
  case (Obj_Sds str)
  then show ?thesis using feeds_backlog [of str] by (simp add: feedReplicationBacklogWithObject_def obj_bytes_def feeds_def)
qed

lemma feeds_args:
  assumes "127 \<le> length junk"
  shows "\<forall>a \<in> set argv. obj_ok a \<Longrightarrow> feeds (feed_args junk argv) (concat (map enc_bulk (map obj_bytes argv)))"
proof (induction argv)
  case Nil
  then show ?case using feeds_none by (simp add: feeds_def)
next
  case (Cons a argv)
  let ?l = "36 # dec_nat (length (obj_bytes a)) @ crlf"
  have a: "aux_line junk 36 (int (stringObjectLen a)) = Some ?l"
    using aux_line_spec [of "int (stringObjectLen a)" junk 36] Cons.prems assms obj_bytes_bound [of a] by (simp add: stringObjectLen_spec)
  have "feeds (\<lambda>s. feedReplicationBacklog ?l s \<bind> (\<lambda>s. feedReplicationBacklogWithObject junk a s \<bind>
      (\<lambda>s. feedReplicationBacklog crlf s \<bind> feed_args junk argv))) (?l @ obj_bytes a @ crlf @ concat (map enc_bulk (map obj_bytes argv)))"
    using Cons by (intro feeds_comp feeds_backlog feeds_object assms) auto
  moreover have "feed_args junk (a # argv) = (\<lambda>s. feedReplicationBacklog ?l s \<bind> (\<lambda>s. feedReplicationBacklogWithObject junk a s \<bind>
      (\<lambda>s. feedReplicationBacklog crlf s \<bind> feed_args junk argv)))" by (simp add: a fun_eq_iff)
  ultimately show ?case by (simp add: enc_bulk_def [of "obj_bytes a"])
qed

lemma reply_args_spec:
  "127 \<le> length junk \<Longrightarrow> \<forall>a \<in> set argv. obj_ok a \<Longrightarrow> reply_args junk argv = Some (concat (map enc_bulk (map obj_bytes argv)))"
  by (induction argv) (simp_all add: addReplyBulk_spec)

definition select_argv :: "int \<Rightarrow> bytes list" where
  "select_argv dictid = [[83, 69, 76, 69, 67, 84], decimal dictid]"

lemma select_cmd_spec:
  assumes "- (2 ^ 31) \<le> d" "d < 2 ^ 31" "127 \<le> length junk"
  shows "select_cmd junk d = Some (enc_cmd (select_argv d))"
proof -
  have "ll2string (take 21 junk) d = Some (decimal d @ 0 # drop (Suc (length (decimal d))) (take 21 junk), length (decimal d))"
    using assms by (intro ll2string_take) auto
  moreover have "dec_nat 2 = [50]" "dec_nat (Suc (Suc (Suc (Suc (Suc (Suc 0)))))) = [54]" by (simp_all add: dec_nat_less)
  ultimately show ?thesis by (simp add: select_cmd_def enc_cmd_def enc_bulk_def select_argv_def crlf_def numeral_2_eq_2)
qed

text \<open>A replica passes the stream of its master on, byte by byte.\<close>

lemma replicationFeedSlavesFromMasterStream_spec:
  assumes "backlog_ok s T"
  shows "\<exists>s'. replicationFeedSlavesFromMasterStream buf s = Some (feed_slaves buf s') \<and> backlog_ok s' (T @ buf) \<and>
    master_repl_offset s' = master_repl_offset s + int (length buf) \<and> same_but_backlog s s'"
proof -
  have "repl_backlog s \<noteq> None" using assms by (auto simp: backlog_ok_def ring_def)
  then show ?thesis using feedReplicationBacklog_spec [OF assms, of buf] by (auto simp: replicationFeedSlavesFromMasterStream_def)
qed

end
