(* ===== verification/Replication_Inv.thy ===== *)
theory Replication_Inv
  imports Replication_Backlog
begin

text \<open>
  The invariant of the replication stream: the backlog holds the end of the stream, and what was
  added to the output of each replica is the stream from the point where the replica joined. The
  operations that feed commands and start snapshots keep it.
\<close>

section \<open>The invariant\<close>

text \<open>
  The history of a master since its backlog was created, at the offset \<open>h_start\<close>: the commands of
  the stream, SELECT included, and the calls that were propagated, each with its database.
\<close>

record repl_hist =
  h_start :: int
  h_cmds :: "bytes list list"
  h_calls :: "(int \<times> bytes list) list"

text \<open>How a replica reads the stream: SELECT sets the database the commands after it are executed in.\<close>

definition is_select :: "bytes list \<Rightarrow> bool" where
  "is_select cmd \<longleftrightarrow> (case cmd of [a, _] \<Rightarrow> map siptlw a = map of_char ''select'' | _ \<Rightarrow> False)"

fun tagged :: "bytes option \<Rightarrow> bytes list list \<Rightarrow> (bytes option \<times> bytes list) list" where
  "tagged db [] = []"
| "tagged db (cmd # cmds) = (if is_select cmd then tagged (Some (cmd ! 1)) cmds else (db, cmd) # tagged db cmds)"

fun cur_db :: "bytes option \<Rightarrow> bytes list list \<Rightarrow> bytes option" where
  "cur_db db [] = db"
| "cur_db db (cmd # cmds) = cur_db (if is_select cmd then Some (cmd ! 1) else db) cmds"

text \<open>A call is executed as it was made; the database of a PING does not matter.\<close>

definition executes :: "int \<times> bytes list \<Rightarrow> bytes option \<times> bytes list \<Rightarrow> bool" where
  "executes call x \<longleftrightarrow> snd x = snd call \<and> (0 \<le> fst call \<longrightarrow> fst x = Some (decimal (fst call)))"

text \<open>
  A snapshot after the first \<open>n\<close> commands and \<open>m\<close> calls: the stream from there is the calls that follow.
\<close>

definition snap :: "repl_hist \<Rightarrow> int \<Rightarrow> nat \<Rightarrow> nat \<Rightarrow> bool" where
  "snap h d n m \<longleftrightarrow> n \<le> length (h_cmds h) \<and> m \<le> length (h_calls h) \<and>
     list_all2 executes (drop m (h_calls h)) (tagged None (drop n (h_cmds h))) \<and>
     (0 \<le> d \<longrightarrow> cur_db None (drop n (h_cmds h)) = Some (decimal d))"

text \<open>
  A replica that was told to load a snapshot has got, or will get, exactly the commands after the
  offset of the snapshot; one that continues gets the bytes from where it asked.
\<close>

definition from_snapshot :: "repl_hist \<Rightarrow> int \<Rightarrow> slave \<Rightarrow> bool" where
  "from_snapshot h d sl \<longleftrightarrow> (\<exists>n m. snap h d n m \<and>
     sl_initial_offset sl = h_start h + int (length (requests (take n (h_cmds h)))) \<and> sl_out sl = requests (drop n (h_cmds h)))"

definition continues :: "repl_hist \<Rightarrow> slave \<Rightarrow> bool" where
  "continues h sl \<longleftrightarrow> take 9 (sl_reply sl) = map of_char ''+CONTINUE'' \<and>
     (\<exists>k \<le> length (requests (h_cmds h)). sl_out sl = drop k (requests (h_cmds h)))"

definition slave_ok :: "repl_hist \<Rightarrow> int \<Rightarrow> slave \<Rightarrow> bool" where
  "slave_ok h d sl = (case sl_replstate sl of
     WAIT_BGSAVE_START \<Rightarrow> sl_out sl = []
   | ONLINE \<Rightarrow> sl_close sl \<or> from_snapshot h d sl \<or> continues h sl
   | _ \<Rightarrow> from_snapshot h d sl)"

definition stream_ok :: "repl_hist \<Rightarrow> repl_server \<Rightarrow> bool" where
  "stream_ok h s \<longleftrightarrow> 0 < repl_backlog_size s \<and> \<not> masterhost s \<and> (repl_backlog s \<noteq> None \<longrightarrow>
     (\<exists>P T. requests (h_cmds h) = P @ T \<and> backlog_ok s T) \<and> master_repl_offset s = h_start h + int (length (requests (h_cmds h))))"

definition slaves_ok :: "repl_hist \<Rightarrow> int \<Rightarrow> slave list \<Rightarrow> bool" where
  "slaves_ok h d sls \<longleftrightarrow> distinct (map sl_id sls) \<and> (\<forall>sl \<in> set sls. slave_ok h d sl)"

definition repl_inv :: "repl_hist \<Rightarrow> repl_server \<Rightarrow> bool" where
  "repl_inv h s \<longleftrightarrow> stream_ok h s \<and> slaves_ok h (slaveseldb s) (slaves s) \<and> (slaves s \<noteq> [] \<longrightarrow> repl_backlog s \<noteq> None) \<and>
     (\<forall>cmd \<in> set (h_cmds h). cmd_ok cmd)"

lemma snap_now: "snap h (-1) (length (h_cmds h)) (length (h_calls h))"
  by (simp add: snap_def)

lemma snap_reset: "snap h d n m \<Longrightarrow> snap h (-1) n m"
  by (simp add: snap_def)

lemma tagged_append: "tagged db (xs @ ys) = tagged db xs @ tagged (cur_db db xs) ys"
  by (induction xs arbitrary: db) auto

lemma cur_db_append: "cur_db db (xs @ ys) = cur_db (cur_db db xs) ys"
  by (induction xs arbitrary: db) auto

lemma is_select_argv: "is_select (select_argv d)"
  by (simp add: is_select_def select_argv_def siptlw_def)

lemma snap_select: "snap h d n m \<Longrightarrow> snap (h\<lparr>h_cmds := h_cmds h @ [select_argv d']\<rparr>) d' n m"
  by (simp add: snap_def tagged_append cur_db_append is_select_argv) (simp add: select_argv_def)

lemma snap_call:
  "snap h d n m \<Longrightarrow> \<not> is_select argv \<Longrightarrow> snap (h\<lparr>h_cmds := h_cmds h @ [argv], h_calls := h_calls h @ [(d, argv)]\<rparr>) d n m"
  by (auto simp: snap_def tagged_append cur_db_append executes_def intro: list_all2_appendI)

lemma backlog_ok_cong:
  "repl_backlog s' = repl_backlog s \<Longrightarrow> repl_backlog_size s' = repl_backlog_size s \<Longrightarrow> repl_backlog_idx s' = repl_backlog_idx s \<Longrightarrow>
   repl_backlog_histlen s' = repl_backlog_histlen s \<Longrightarrow> repl_backlog_off s' = repl_backlog_off s \<Longrightarrow>
   master_repl_offset s' = master_repl_offset s \<Longrightarrow> backlog_ok s' T = backlog_ok s T"
  by (simp add: backlog_ok_def ring_def)

lemma stream_ok_cong:
  "repl_backlog s' = repl_backlog s \<Longrightarrow> repl_backlog_size s' = repl_backlog_size s \<Longrightarrow> repl_backlog_idx s' = repl_backlog_idx s \<Longrightarrow>
   repl_backlog_histlen s' = repl_backlog_histlen s \<Longrightarrow> repl_backlog_off s' = repl_backlog_off s \<Longrightarrow>
   master_repl_offset s' = master_repl_offset s \<Longrightarrow> masterhost s' = masterhost s \<Longrightarrow> stream_ok h s' = stream_ok h s"
  using backlog_ok_cong [of s' s] by (simp add: stream_ok_def)

text \<open>Operations that only change the list of replicas and the control state.\<close>

definition same_stream :: "repl_server \<Rightarrow> repl_server \<Rightarrow> bool" where
  "same_stream s s' \<longleftrightarrow> repl_backlog s' = repl_backlog s \<and> repl_backlog_size s' = repl_backlog_size s \<and> repl_backlog_idx s' = repl_backlog_idx s \<and>
   repl_backlog_histlen s' = repl_backlog_histlen s \<and> repl_backlog_off s' = repl_backlog_off s \<and> master_repl_offset s' = master_repl_offset s \<and> masterhost s' = masterhost s"

lemma repl_inv_slaves:
  assumes "repl_inv h s" "same_stream s s'" "slaves_ok h (slaveseldb s') (slaves s')" "slaves s' \<noteq> [] \<Longrightarrow> repl_backlog s \<noteq> None"
  shows "repl_inv h s'"
  using assms stream_ok_cong [of s' s h] by (auto simp: repl_inv_def same_stream_def)

lemma slaves_ok_map:
  assumes "slaves_ok h d sls" "\<And>sl. sl \<in> set sls \<Longrightarrow> slave_ok h d sl \<Longrightarrow> sl_id (f sl) = sl_id sl \<and> slave_ok h' d' (f sl)"
  shows "slaves_ok h' d' (map f sls)"
proof -
  have "map sl_id (map f sls) = map sl_id sls" using assms by (auto simp: slaves_ok_def)
  then show ?thesis using assms by (auto simp: slaves_ok_def simp del: map_map)
qed

lemma slaves_ok_filter: "slaves_ok h d sls \<Longrightarrow> slaves_ok h d (filter P sls)"
  by (auto simp: slaves_ok_def distinct_map inj_on_def)

lemma slave_ok_reset: "slave_ok h d sl \<Longrightarrow> slave_ok h (-1) sl"
  unfolding slave_ok_def from_snapshot_def by (auto split: slave_state.splits dest: snap_reset)

section \<open>Propagation\<close>

text \<open>\<open>h'\<close> is \<open>h\<close> and the commands \<open>new\<close>, after which the database of the stream is \<open>d'\<close>.\<close>

definition extends :: "repl_hist \<Rightarrow> int \<Rightarrow> bytes list list \<Rightarrow> repl_hist \<Rightarrow> int \<Rightarrow> bool" where
  "extends h d new h' d' \<longleftrightarrow> h_start h' = h_start h \<and> h_cmds h' = h_cmds h @ new \<and> (\<forall>n m. snap h d n m \<longrightarrow> snap h' d' n m)"

lemma from_snapshot_feed:
  assumes "extends h d new h' d'" "from_snapshot h d sl"
  shows "from_snapshot h' d' (sl\<lparr>sl_out := sl_out sl @ requests new\<rparr>)"
proof -
  from assms(2) obtain n m where n: "snap h d n m" "sl_initial_offset sl = h_start h + int (length (requests (take n (h_cmds h))))"
    "sl_out sl = requests (drop n (h_cmds h))" by (auto simp: from_snapshot_def)
  have "n \<le> length (h_cmds h)" using n(1) by (simp add: snap_def)
  then show ?thesis using n assms(1) unfolding from_snapshot_def extends_def
    by (intro exI [of _ n] exI [of _ m]) (simp add: requests_append)
qed

lemma slave_ok_feed:
  assumes e: "extends h d new h' d'" and "slave_ok h d sl"
  shows "slave_ok h' d' (if sl_replstate sl = WAIT_BGSAVE_START then sl else sl\<lparr>sl_out := sl_out sl @ requests new\<rparr>)"
proof -
  have "h_cmds h' = h_cmds h @ new" using e by (simp add: extends_def)
  then have "continues h' (sl\<lparr>sl_out := sl_out sl @ requests new\<rparr>)" if "continues h sl"
    using that unfolding continues_def by (elim exE conjE, intro conjI, simp, rule_tac x = k in exI) (simp add: requests_append)
  then show ?thesis using assms(2) from_snapshot_feed [OF e, of sl] by (auto simp: slave_ok_def split: slave_state.splits)
qed

lemma feed_slaves_ok:
  assumes "extends h d new h' d'" "slaves_ok h d (slaves s)"
  shows "slaves_ok h' d' (slaves (feed_slaves (requests new) s))"
  unfolding feed_slaves_def slave.simps repl_server.simps
proof (simp, rule slaves_ok_map [OF assms(2)])
  fix sl assume "slave_ok h d sl"
  from slave_ok_feed [OF assms(1) this]
  show "sl_id (if sl_replstate sl = WAIT_BGSAVE_START then sl else sl\<lparr>sl_out := sl_out sl @ requests new\<rparr>) = sl_id sl \<and>
      slave_ok h' d' (if sl_replstate sl = WAIT_BGSAVE_START then sl else sl\<lparr>sl_out := sl_out sl @ requests new\<rparr>)" by simp
qed

text \<open>The step both feeds make: the backlog first, then the replicas.\<close>

lemma feed_inv:
  assumes inv: "repl_inv h s" "repl_backlog s \<noteq> None" and f: "feeds f (requests new)" and e: "extends h (slaveseldb s) new h' d'"
    and ok: "\<forall>cmd \<in> set new. cmd_ok cmd"
  shows "\<exists>s'. f s = Some s' \<and> repl_inv h' ((feed_slaves (requests new) s')\<lparr>slaveseldb := d'\<rparr>) \<and> repl_backlog s' \<noteq> None \<and> same_but_backlog s s'"
proof -
  from inv obtain P T where T: "requests (h_cmds h) = P @ T" "backlog_ok s T" "master_repl_offset s = h_start h + int (length (requests (h_cmds h)))"
    by (auto simp: repl_inv_def stream_ok_def)
  from feedsD [OF f T(2)] obtain s' where s': "f s = Some s'" "backlog_ok s' (T @ requests new)"
    "master_repl_offset s' = master_repl_offset s + int (length (requests new))" "same_but_backlog s s'" by blast
  have eq: "h_cmds h' = h_cmds h @ new" "h_start h' = h_start h" using e by (auto simp: extends_def)
  have b: "repl_backlog s' \<noteq> None" using s'(2) by (auto simp: backlog_ok_def ring_def)
  have "stream_ok h' s'" unfolding stream_ok_def
  proof (intro conjI impI exI)
    show "requests (h_cmds h') = P @ (T @ requests new)" using T(1) eq by (simp add: requests_append)
    show "backlog_ok s' (T @ requests new)" by (rule s'(2))
    show "master_repl_offset s' = h_start h' + int (length (requests (h_cmds h')))" using s'(3) T(3) eq by (simp add: requests_append)
    show "0 < repl_backlog_size s'" "\<not> masterhost s'" using inv(1) same_but_backlogD [OF s'(4)] by (auto simp: repl_inv_def stream_ok_def)
  qed
  then have "stream_ok h' ((feed_slaves (requests new) s')\<lparr>slaveseldb := d'\<rparr>)"
    using stream_ok_cong [of "(feed_slaves (requests new) s')\<lparr>slaveseldb := d'\<rparr>" s'] by (simp add: feed_slaves_def)
  moreover have "slaves_ok h' d' (slaves (feed_slaves (requests new) s'))"
    using inv(1) same_but_backlogD(7) [OF s'(4)] feed_slaves_ok [OF e, of s'] by (simp add: repl_inv_def)
  moreover have "\<forall>cmd \<in> set (h_cmds h'). cmd_ok cmd" using ok inv(1) eq by (auto simp: repl_inv_def)
  ultimately have "repl_inv h' ((feed_slaves (requests new) s')\<lparr>slaveseldb := d'\<rparr>)" using b by (simp add: repl_inv_def feed_slaves_def)
  then show ?thesis using s' b by blast
qed

text \<open>What a call adds to the history.\<close>

definition call_ok :: "bytes \<Rightarrow> robj list \<Rightarrow> bool" where
  "call_ok junk argv \<longleftrightarrow> 127 \<le> length junk \<and> (\<forall>a \<in> set argv. obj_ok a) \<and> cmd_ok (map obj_bytes argv) \<and> \<not> is_select (map obj_bytes argv)"

definition add_call :: "repl_server \<Rightarrow> int \<Rightarrow> robj list \<Rightarrow> repl_hist \<Rightarrow> repl_hist" where
  "add_call s dictid argv h = (if repl_backlog s = None then h
     else h\<lparr>h_cmds := h_cmds h @ (if slaveseldb s \<noteq> dictid then [select_argv dictid] else []) @ [map obj_bytes argv],
            h_calls := h_calls h @ [(dictid, map obj_bytes argv)]\<rparr>)"

lemma requests_one: "requests [c] = enc_cmd c"
  by (simp add: requests_def)

lemma extends_select: "extends h d [select_argv d'] (h\<lparr>h_cmds := h_cmds h @ [select_argv d']\<rparr>) d'"
  by (simp add: extends_def snap_select)

lemma extends_call:
  "\<not> is_select argv \<Longrightarrow> extends h d [argv] (h\<lparr>h_cmds := h_cmds h @ [argv], h_calls := h_calls h @ [(d, argv)]\<rparr>) d"
  by (simp add: extends_def snap_call)

lemma cmd_ok_select: "- (2 ^ 31) \<le> d \<Longrightarrow> d < 2 ^ 31 \<Longrightarrow> cmd_ok (select_argv d)"
  using length_decimal [of d] by (simp add: cmd_ok_def select_argv_def)

lemma feeds_cmd:
  assumes "call_ok junk argv"
  shows "aux_line junk 42 (int (length argv)) = Some (42 # dec_nat (length argv) @ crlf)"
    "feeds (\<lambda>s. feedReplicationBacklog (42 # dec_nat (length argv) @ crlf) s \<bind> feed_args junk argv) (requests [map obj_bytes argv])"
    "addReplyMultiBulkLen junk (int (length argv)) = Some (42 # dec_nat (length argv) @ crlf)"
    "reply_args junk argv = Some (concat (map enc_bulk (map obj_bytes argv)))"
    "(42 # dec_nat (length argv) @ crlf) @ concat (map enc_bulk (map obj_bytes argv)) = requests [map obj_bytes argv]"
proof -
  have c: "127 \<le> length junk" "\<forall>a \<in> set argv. obj_ok a" "length argv \<le> 1024 * 1024" using assms by (auto simp: call_ok_def cmd_ok_def)
  then have l: "length argv < 2 ^ 63" by simp
  show "aux_line junk 42 (int (length argv)) = Some (42 # dec_nat (length argv) @ crlf)"
    using aux_line_spec [of "int (length argv)" junk 42] c by simp
  show "addReplyMultiBulkLen junk (int (length argv)) = Some (42 # dec_nat (length argv) @ crlf)"
    by (rule addReplyMultiBulkLen_spec [OF l c(1)])
  show "reply_args junk argv = Some (concat (map enc_bulk (map obj_bytes argv)))" by (rule reply_args_spec [OF c(1,2)])
  show r: "(42 # dec_nat (length argv) @ crlf) @ concat (map enc_bulk (map obj_bytes argv)) = requests [map obj_bytes argv]"
    by (simp add: requests_one enc_cmd_def)
  show "feeds (\<lambda>s. feedReplicationBacklog (42 # dec_nat (length argv) @ crlf) s \<bind> feed_args junk argv) (requests [map obj_bytes argv])"
    unfolding r [symmetric] by (intro feeds_comp feeds_backlog feeds_args c)
qed

text \<open>The first part of a call: SELECT, when the database is not the one of the stream.\<close>

definition select_step :: "bytes \<Rightarrow> int \<Rightarrow> repl_server \<Rightarrow> repl_server option" where
  "select_step junk dictid s = (if slaveseldb s \<noteq> dictid then do {
     selectcmd \<leftarrow> select_cmd junk dictid;
     s \<leftarrow> (if repl_backlog s \<noteq> None then feedReplicationBacklog selectcmd s else Some s);
     Some (feed_slaves selectcmd s)
   } else Some s)"

lemma select_step_inv:
  assumes inv: "repl_inv h s" "repl_backlog s \<noteq> None" and j: "127 \<le> length junk"
    and d: "slaveseldb s \<noteq> dictid \<Longrightarrow> - (2 ^ 31) \<le> dictid \<and> dictid < 2 ^ 31"
  shows "\<exists>s1. select_step junk dictid s = Some s1 \<and>
    repl_inv (h\<lparr>h_cmds := h_cmds h @ (if slaveseldb s \<noteq> dictid then [select_argv dictid] else [])\<rparr>) (s1\<lparr>slaveseldb := dictid\<rparr>) \<and> repl_backlog s1 \<noteq> None"
proof (cases "slaveseldb s = dictid")
  case True
  then have e: "s\<lparr>slaveseldb := dictid\<rparr> = s" by (cases s) simp
  have "repl_inv h (s\<lparr>slaveseldb := dictid\<rparr>)" unfolding e by (rule inv(1))
  then show ?thesis using True inv(2) by (simp add: select_step_def)
next
  case False
  have sc: "select_cmd junk dictid = Some (requests [select_argv dictid])" using d [OF False] j by (simp add: requests_one select_cmd_spec)
  have "\<forall>cmd \<in> set [select_argv dictid]. cmd_ok cmd" using cmd_ok_select d [OF False] by simp
  from feed_inv [OF inv feeds_backlog extends_select this] obtain s1 where
    s1: "feedReplicationBacklog (requests [select_argv dictid]) s = Some s1"
      "repl_inv (h\<lparr>h_cmds := h_cmds h @ [select_argv dictid]\<rparr>) ((feed_slaves (requests [select_argv dictid]) s1)\<lparr>slaveseldb := dictid\<rparr>)"
      "repl_backlog s1 \<noteq> None" by blast
  have "select_step junk dictid s = Some (feed_slaves (requests [select_argv dictid]) s1)"
    using False sc s1(1) inv(2) by (simp add: select_step_def)
  then show ?thesis using s1(2,3) False by (intro exI [of _ "feed_slaves (requests [select_argv dictid]) s1"]) (simp add: feed_slaves_def)
qed

lemma replicationFeedSlaves_inv:
  assumes inv: "repl_inv h s" and ok: "call_ok junk argv" and d: "slaveseldb s \<noteq> dictid \<Longrightarrow> - (2 ^ 31) \<le> dictid \<and> dictid < 2 ^ 31"
  shows "\<exists>s'. replicationFeedSlaves junk dictid argv s = Some s' \<and> repl_inv (add_call s dictid argv h) s'"
proof (cases "repl_backlog s = None")
  case True
  then show ?thesis using inv by (auto simp: replicationFeedSlaves_def add_call_def repl_inv_def)
next
  case False
  define sel where "sel = (if slaveseldb s \<noteq> dictid then [select_argv dictid] else [])"
  let ?h = "h\<lparr>h_cmds := h_cmds h @ sel\<rparr>" and ?new = "[map obj_bytes argv]"
  let ?h' = "?h\<lparr>h_cmds := h_cmds ?h @ ?new, h_calls := h_calls ?h @ [(dictid, map obj_bytes argv)]\<rparr>"
  have j: "127 \<le> length junk" "\<not> is_select (map obj_bytes argv)" "\<forall>cmd \<in> set ?new. cmd_ok cmd" using ok by (auto simp: call_ok_def)
  from select_step_inv [OF inv False j(1) d] obtain s1 where s1: "select_step junk dictid s = Some s1"
    "repl_inv ?h (s1\<lparr>slaveseldb := dictid\<rparr>)" "repl_backlog s1 \<noteq> None" unfolding sel_def [symmetric] by blast
  let ?s1 = "s1\<lparr>slaveseldb := dictid\<rparr>"
  note fc = feeds_cmd [OF ok]
  have i1: "repl_inv ?h ?s1" "repl_backlog ?s1 \<noteq> None" using s1 by auto
  have e: "extends ?h (slaveseldb ?s1) ?new ?h' dictid" using extends_call [OF j(2), of ?h dictid] by simp
  from feed_inv [OF i1 fc(2) e j(3)] obtain s2 where
    s2: "feedReplicationBacklog (42 # dec_nat (length argv) @ crlf) ?s1 \<bind> feed_args junk argv = Some s2"
      "repl_inv ?h' ((feed_slaves (requests ?new) s2)\<lparr>slaveseldb := dictid\<rparr>)" "same_but_backlog ?s1 s2" by blast
  have sd: "(feed_slaves (requests ?new) s2)\<lparr>slaveseldb := dictid\<rparr> = feed_slaves (requests ?new) s2"
    using same_but_backlogD(5) [OF s2(3)] by (cases s2) (simp add: feed_slaves_def)
  have nm: "\<not> masterhost s" using inv by (simp add: repl_inv_def stream_ok_def)
  have "replicationFeedSlaves junk dictid argv s = Some (feed_slaves (requests ?new) s2)"
    using nm False s1(3) unfolding replicationFeedSlaves_def select_step_def [symmetric] s1(1) bind.bind_lunit Let_def fc(1,3,4)
    by (auto simp: s2(1) fc(5) [symmetric])
  moreover have "add_call s dictid argv h = ?h'" using False by (simp add: add_call_def sel_def)
  ultimately show ?thesis using s2(2) unfolding sd by simp
qed

section \<open>Snapshots\<close>

definition fresh_slave :: "slave \<Rightarrow> bool" where
  "fresh_slave c \<longleftrightarrow> sl_out c = [] \<and> sl_reply c = []"

lemma setup_slave_simps [simp]:
  "sl_id (setup_slave env rid k sl) = sl_id sl" "sl_replstate (setup_slave env rid k sl) = WAIT_BGSAVE_END"
  "sl_initial_offset (setup_slave env rid k sl) = k" "sl_out (setup_slave env rid k sl) = sl_out sl"
  by (auto simp: setup_slave_def Let_def)

lemma from_snapshot_cong:
  "sl_initial_offset sl' = sl_initial_offset sl \<Longrightarrow> sl_out sl' = sl_out sl \<Longrightarrow> from_snapshot h d sl' = from_snapshot h d sl"
  by (simp add: from_snapshot_def)

lemma setup_slave_now:
  assumes "sl_out sl = []"
  shows "slave_ok h (-1) (setup_slave env rid (h_start h + int (length (requests (h_cmds h)))) sl)"
proof -
  have "from_snapshot h (-1) (setup_slave env rid (h_start h + int (length (requests (h_cmds h)))) sl)"
    unfolding from_snapshot_def using assms snap_now [of h]
    by (intro exI [of _ "length (h_cmds h)"] exI [of _ "length (h_calls h)"]) (simp add: requests_def)
  then show ?thesis by (simp add: slave_ok_def)
qed

lemma repl_inv_offset: "repl_inv h s \<Longrightarrow> slaves s \<noteq> [] \<Longrightarrow> master_repl_offset s = h_start h + int (length (requests (h_cmds h)))"
  by (auto simp: repl_inv_def stream_ok_def)

lemma setup_waiting_inv:
  assumes inv: "repl_inv h s"
  shows "repl_inv h (setup_waiting env s)"
proof -
  let ?d = "if \<exists>sl \<in> set (slaves s). sl_replstate sl = WAIT_BGSAVE_START then -1 else slaveseldb s"
  let ?f = "\<lambda>sl. if sl_replstate sl = WAIT_BGSAVE_START then setup_slave env (replid s) (getPsyncInitialOffset s) sl else sl"
  have "slaves_ok h ?d (map ?f (slaves s))"
  proof (rule slaves_ok_map)
    show "slaves_ok h (slaveseldb s) (slaves s)" using inv by (simp add: repl_inv_def)
    fix sl assume sl: "sl \<in> set (slaves s)" "slave_ok h (slaveseldb s) sl"
    then have "slaves s \<noteq> []" by auto
    note o = repl_inv_offset [OF inv this]
    show "sl_id (?f sl) = sl_id sl \<and> slave_ok h ?d (?f sl)"
    proof (cases "sl_replstate sl = WAIT_BGSAVE_START")
      case True
      then have "sl_out sl = []" using sl(2) by (simp add: slave_ok_def)
      then show ?thesis using True sl(1) setup_slave_now [of sl h env "replid s"] by (auto simp: getPsyncInitialOffset_def o)
    next
      case False
      then show ?thesis using sl(2) slave_ok_reset [OF sl(2)] by simp
    qed
  qed
  then have "slaves_ok h (slaveseldb (setup_waiting env s)) (slaves (setup_waiting env s))" by (simp add: setup_waiting_def)
  moreover have "same_stream s (setup_waiting env s)" by (simp add: same_stream_def setup_waiting_def)
  moreover have "slaves (setup_waiting env s) \<noteq> [] \<Longrightarrow> repl_backlog s \<noteq> None" using inv by (auto simp: setup_waiting_def repl_inv_def)
  ultimately show ?thesis by (intro repl_inv_slaves [OF inv])
qed

lemma repl_inv_child: "repl_inv h (s\<lparr>rdb_child := d\<rparr>) = repl_inv h s"
  using stream_ok_cong [of "s\<lparr>rdb_child := d\<rparr>" s] by (simp add: repl_inv_def)

lemma drop_waiting_inv:
  assumes "stream_ok h s" "slaves s \<noteq> [] \<longrightarrow> repl_backlog s \<noteq> None" "distinct (map sl_id (slaves s))"
    "\<forall>sl \<in> set (slaves s). sl_replstate sl \<noteq> WAIT_BGSAVE_START \<longrightarrow> slave_ok h (slaveseldb s) sl" "\<forall>cmd \<in> set (h_cmds h). cmd_ok cmd"
  shows "repl_inv h (s\<lparr>slaves := filter (\<lambda>sl. sl_replstate sl \<noteq> WAIT_BGSAVE_START) (slaves s)\<rparr>)"
  using assms stream_ok_cong [of "s\<lparr>slaves := filter (\<lambda>sl. sl_replstate sl \<noteq> WAIT_BGSAVE_START) (slaves s)\<rparr>" s h]
  by (auto simp: repl_inv_def slaves_ok_def distinct_map inj_on_def)

lemma startBgsave_inv:
  assumes inv: "repl_inv h s"
  shows "repl_inv h (startBgsaveForReplication env mincapa s)" "repl_backlog (startBgsaveForReplication env mincapa s) = repl_backlog s"
proof -
  have undo: "repl_inv h (s'\<lparr>slaves := filter (\<lambda>sl. sl_replstate sl \<noteq> WAIT_BGSAVE_START) (map (\<lambda>sl. if sl_id sl \<in> X then sl\<lparr>sl_replstate := WAIT_BGSAVE_START\<rparr> else sl) (slaves s'))\<rparr>)"
    if "repl_inv h s'" for s' X
  proof -
    let ?s = "s'\<lparr>slaves := map (\<lambda>sl. if sl_id sl \<in> X then sl\<lparr>sl_replstate := WAIT_BGSAVE_START\<rparr> else sl) (slaves s')\<rparr>"
    have "stream_ok h ?s" using that stream_ok_cong [of ?s s'] by (simp add: repl_inv_def)
    moreover have "map sl_id (slaves ?s) = map sl_id (slaves s')" by simp
    ultimately have "repl_inv h (?s\<lparr>slaves := filter (\<lambda>sl. sl_replstate sl \<noteq> WAIT_BGSAVE_START) (slaves ?s)\<rparr>)"
      using that by (intro drop_waiting_inv) (auto simp: repl_inv_def slaves_ok_def simp del: map_map)
    then show ?thesis by simp
  qed
  have now: "repl_inv h (s\<lparr>slaves := filter (\<lambda>sl. sl_replstate sl \<noteq> WAIT_BGSAVE_START) (slaves s)\<rparr>)"
    using inv by (intro drop_waiting_inv) (auto simp: repl_inv_def slaves_ok_def)
  show "repl_inv h (startBgsaveForReplication env mincapa s)"
    using now undo [OF setup_waiting_inv [OF inv]] setup_waiting_inv [OF inv] setup_waiting_inv [of h "s\<lparr>rdb_child := Some RDB_CHILD_TYPE_DISK\<rparr>"] inv
    by (simp add: startBgsaveForReplication_def rdbSaveToSlavesSockets_def rdbSaveBackground_def Let_def repl_inv_child)
  show "repl_backlog (startBgsaveForReplication env mincapa s) = repl_backlog s"
    by (simp add: startBgsaveForReplication_def rdbSaveToSlavesSockets_def rdbSaveBackground_def setup_waiting_def Let_def)
qed

end
