(* ===== verification/Replication_Sync.thy ===== *)
theory Replication_Sync
  imports Replication_Inv
begin

text \<open>
  Every operation on the replicas of a server keeps the invariant of the replication stream; with it,
  a history of operations never fails, and what the replicas are sent is the stream.
\<close>

section \<open>PSYNC\<close>

definition psync_accepts :: "repl_server \<Rightarrow> bytes \<Rightarrow> int \<Rightarrow> bool" where
  "psync_accepts s rid offset \<longleftrightarrow>
     (strcasecmp_eq rid (replid s) \<or> strcasecmp_eq rid (replid2 s) \<and> offset \<le> second_replid_offset s) \<and>
     repl_backlog s \<noteq> None \<and> repl_backlog_off s \<le> offset \<and> offset \<le> repl_backlog_off s + int (repl_backlog_histlen s)"

lemma backlog_bytes:
  assumes "stream_ok h s" "repl_backlog s \<noteq> None" "repl_backlog_off s \<le> offset" "offset \<le> repl_backlog_off s + int (repl_backlog_histlen s)"
  shows "h_start h < offset" "offset \<le> h_start h + int (length (requests (h_cmds h))) + 1"
    "addReplyReplicationBacklog s offset = Some (drop (nat (offset - 1 - h_start h)) (requests (h_cmds h)))"
proof -
  from assms(1,2) obtain P T where T: "requests (h_cmds h) = P @ T" "backlog_ok s T" "master_repl_offset s = h_start h + int (length (requests (h_cmds h)))"
    by (auto simp: stream_ok_def)
  have o: "repl_backlog_off s = master_repl_offset s - int (repl_backlog_histlen s) + 1" "repl_backlog_histlen s \<le> length T"
    using T(2) by (auto simp: backlog_ok_def)
  have len: "length (requests (h_cmds h)) = length P + length T" using T(1) by simp
  show "h_start h < offset" "offset \<le> h_start h + int (length (requests (h_cmds h))) + 1" using assms(3,4) o T(3) len by linarith+
  have "nat (offset - 1 - (master_repl_offset s - int (length T))) = nat (offset - 1 - h_start h) - length P" "length P \<le> nat (offset - 1 - h_start h)"
    using assms(3) o T(3) len by linarith+
  then show "addReplyReplicationBacklog s offset = Some (drop (nat (offset - 1 - h_start h)) (requests (h_cmds h)))"
    using addReplyReplicationBacklog_spec [OF T(2) assms(3,4)] by (simp add: T(1))
qed

definition continue_reply :: "repl_server \<Rightarrow> slave \<Rightarrow> bytes" where
  "continue_reply s c = (if sl_capa c AND SLAVE_CAPA_PSYNC2 \<noteq> 0 then map of_char ''+CONTINUE '' @ replid s @ crlf else map of_char ''+CONTINUE'' @ crlf)"

definition continued :: "repl_env \<Rightarrow> repl_server \<Rightarrow> slave \<Rightarrow> bytes \<Rightarrow> slave" where
  "continued env s c out =
     (let c' = c\<lparr>sl_replstate := ONLINE, sl_put_online_on_ack := False\<rparr> in
      if e_sent env (sl_id c) then c'\<lparr>sl_reply := sl_reply c @ continue_reply s c, sl_out := sl_out c @ out\<rparr> else c'\<lparr>sl_close := True\<rparr>)"

lemma masterTry_spec:
  assumes "stream_ok h s"
  shows "masterTryPartialResynchronization env c rid (Some offset) s =
    (if psync_accepts s rid offset
     then let c' = continued env s c (drop (nat (offset - 1 - h_start h)) (requests (h_cmds h))) in Some (s\<lparr>slaves := slaves s @ [c']\<rparr>, c', True)
     else Some (s, c, False))"
proof (cases "psync_accepts s rid offset")
  case True
  then have b: "repl_backlog s \<noteq> None" "repl_backlog_off s \<le> offset" "offset \<le> repl_backlog_off s + int (repl_backlog_histlen s)"
    by (auto simp: psync_accepts_def)
  have "\<not> (\<not> strcasecmp_eq rid (replid s) \<and> (\<not> strcasecmp_eq rid (replid2 s) \<or> second_replid_offset s < offset))"
    using True by (auto simp: psync_accepts_def)
  moreover have "\<not> (repl_backlog s = None \<or> offset < repl_backlog_off s \<or> repl_backlog_off s + int (repl_backlog_histlen s) < offset)" using b by auto
  ultimately show ?thesis using True backlog_bytes(3) [OF assms b]
    unfolding masterTryPartialResynchronization_def option.case if_not_P
    by (simp add: continued_def continue_reply_def Let_def)
next
  case False
  then show ?thesis by (auto simp: masterTryPartialResynchronization_def psync_accepts_def)
qed

lemma continued_ok:
  assumes "fresh_slave c" "k \<le> length (requests (h_cmds h))"
  shows "slave_ok h d (continued env s c (drop k (requests (h_cmds h))))" "sl_id (continued env s c out) = sl_id c"
  using assms by (auto simp: slave_ok_def continued_def Let_def continues_def fresh_slave_def continue_reply_def crlf_def)

lemma masterTry_inv:
  assumes inv: "repl_inv h s" and c: "fresh_slave c" "sl_id c \<notin> set (map sl_id (slaves s))"
  shows "\<exists>s' c'. masterTryPartialResynchronization env c rid (Some offset) s = Some (s', c', psync_accepts s rid offset) \<and> repl_inv h s' \<and>
    repl_backlog s' = repl_backlog s \<and> (\<not> psync_accepts s rid offset \<longrightarrow> s' = s \<and> c' = c)"
proof (cases "psync_accepts s rid offset")
  case True
  have so: "stream_ok h s" using inv by (simp add: repl_inv_def)
  have b: "repl_backlog s \<noteq> None" "repl_backlog_off s \<le> offset" "offset \<le> repl_backlog_off s + int (repl_backlog_histlen s)"
    using True by (auto simp: psync_accepts_def)
  note bb = backlog_bytes [OF so b]
  let ?k = "nat (offset - 1 - h_start h)"
  let ?c = "continued env s c (drop ?k (requests (h_cmds h)))"
  have "?k \<le> length (requests (h_cmds h))" using bb(1,2) by linarith
  then have ok: "slave_ok h (slaveseldb s) ?c" "sl_id ?c = sl_id c" using continued_ok [OF c(1)] by auto
  have "repl_inv h (s\<lparr>slaves := slaves s @ [?c]\<rparr>)"
    by (rule repl_inv_slaves [OF inv]) (use inv ok b(1) c(2) in \<open>auto simp: same_stream_def slaves_ok_def repl_inv_def\<close>)
  then show ?thesis using True masterTry_spec [OF so] by (simp add: Let_def)
next
  case False
  then show ?thesis using masterTry_spec [of h s] inv by (simp add: repl_inv_def)
qed

section \<open>Full resynchronization\<close>

lemma attach_inv:
  assumes inv: "repl_inv h s" and c: "sl_out c = []" "sl_replstate c = WAIT_BGSAVE_START" "sl_id c \<notin> set (map sl_id (slaves s))"
    and b: "repl_backlog s \<noteq> None"
  shows "repl_inv h (s\<lparr>slaves := slaves s @ [c]\<rparr>)"
  by (rule repl_inv_slaves [OF inv]) (use inv c b in \<open>auto simp: same_stream_def slaves_ok_def repl_inv_def slave_ok_def\<close>)

lemma create_inv:
  assumes "repl_backlog s = None" "0 < repl_backlog_size s" "\<not> masterhost s" "slaves s = [c]" "sl_out c = []" "sl_replstate c = WAIT_BGSAVE_START"
  shows "\<exists>s'. createReplicationBacklog junk s = Some s' \<and> repl_inv \<lparr>h_start = master_repl_offset s, h_cmds = [], h_calls = []\<rparr> s' \<and> repl_backlog s' \<noteq> None \<and> slaves s' = slaves s"
proof -
  have "createReplicationBacklog junk s = Some (empty_backlog junk s)" using assms(1) by (simp add: createReplicationBacklog_def)
  moreover have "repl_inv \<lparr>h_start = master_repl_offset s, h_cmds = [], h_calls = []\<rparr> (empty_backlog junk s)"
    using empty_backlog_ok [OF assms(2), of junk] assms
    by (auto simp: repl_inv_def stream_ok_def slaves_ok_def slave_ok_def requests_def empty_backlog_def)
  ultimately show ?thesis by (simp add: empty_backlog_def)
qed

lemma copy_setup_inv:
  assumes inv: "repl_inv h s" and sl: "sl \<in> set (slaves s)" "sl_replstate sl = WAIT_BGSAVE_END"
  shows "repl_inv h (replicationSetupSlaveForFullResync env i (sl_initial_offset sl)
    (s\<lparr>slaves := map (\<lambda>d. if sl_id d = i then d\<lparr>sl_out := sl_out sl\<rparr> else d) (slaves s)\<rparr>))"
proof -
  let ?f = "\<lambda>d. if sl_id d = i then setup_slave env (replid s) (sl_initial_offset sl) (d\<lparr>sl_out := sl_out sl\<rparr>) else d"
  have fs: "from_snapshot h (-1) sl" using inv sl snap_reset by (fastforce simp: repl_inv_def slaves_ok_def slave_ok_def from_snapshot_def)
  have "slaves_ok h (-1) (map ?f (slaves s))"
  proof (rule slaves_ok_map)
    show "slaves_ok h (slaveseldb s) (slaves s)" using inv by (simp add: repl_inv_def)
    fix d assume "slave_ok h (slaveseldb s) d"
    from slave_ok_reset [OF this] show "sl_id (?f d) = sl_id d \<and> slave_ok h (-1) (?f d)"
      using fs from_snapshot_cong [of "setup_slave env (replid s) (sl_initial_offset sl) (d\<lparr>sl_out := sl_out sl\<rparr>)" sl h "-1"]
      by (auto simp: slave_ok_def [of _ _ "setup_slave _ _ _ _"])
  qed
  moreover define s' where "s' = replicationSetupSlaveForFullResync env i (sl_initial_offset sl)
    (s\<lparr>slaves := map (\<lambda>d. if sl_id d = i then d\<lparr>sl_out := sl_out sl\<rparr> else d) (slaves s)\<rparr>)"
  have "slaves s' = map ?f (slaves s)" "same_stream s s'" "slaveseldb s' = -1" by (simp_all add: s'_def replicationSetupSlaveForFullResync_def same_stream_def)
  ultimately have "repl_inv h s'" using inv by (intro repl_inv_slaves [OF inv]) (auto simp: repl_inv_def)
  then show ?thesis unfolding s'_def .
qed

text \<open>The history starts anew when the backlog is created.\<close>

definition new_hist :: "repl_server \<Rightarrow> repl_server \<Rightarrow> repl_hist \<Rightarrow> repl_hist" where
  "new_hist s s' h = (if repl_backlog s = None \<and> repl_backlog s' \<noteq> None then \<lparr>h_start = master_repl_offset s, h_cmds = [], h_calls = []\<rparr> else h)"

lemma full_resync_inv:
  assumes inv: "repl_inv h s" and c: "sl_out c = []" "sl_id c \<notin> set (map sl_id (slaves s))"
  shows "\<exists>s'. full_resync env c s = Some s' \<and> repl_inv (new_hist s s' h) s'"
proof -
  let ?c = "c\<lparr>sl_replstate := WAIT_BGSAVE_START\<rparr>"
  let ?s = "s\<lparr>slaves := slaves s @ [?c]\<rparr>"
  let ?cr = "if length (slaves ?s) = 1 \<and> repl_backlog ?s = None
          then createReplicationBacklog (e_fresh env) (clearReplicationId2 (changeReplicationId env ?s)) else Some ?s"
  have "\<exists>s1. ?cr = Some s1 \<and> repl_inv (new_hist s s1 h) s1 \<and> repl_backlog s1 \<noteq> None"
  proof (cases "repl_backlog s = None")
    case True
    then have "slaves s = []" using inv by (auto simp: repl_inv_def)
    then show ?thesis using True inv create_inv [of "clearReplicationId2 (changeReplicationId env ?s)" ?c "e_fresh env"] c(1)
      by (auto simp: clearReplicationId2_def changeReplicationId_def repl_inv_def stream_ok_def new_hist_def)
  next
    case False
    then show ?thesis using attach_inv [OF inv, of ?c] c by (auto simp: new_hist_def)
  qed
  then obtain s1 where s1: "?cr = Some s1" "repl_inv (new_hist s s1 h) s1" "repl_backlog s1 \<noteq> None" by blast
  define s' where "s' = (case rdb_child s1 of
       Some RDB_CHILD_TYPE_DISK \<Rightarrow>
         (case find (\<lambda>sl. sl_replstate sl = WAIT_BGSAVE_END) (slaves s1) of
            Some sl \<Rightarrow>
              if sl_capa ?c AND sl_capa sl = sl_capa sl
              then replicationSetupSlaveForFullResync env (sl_id ?c) (sl_initial_offset sl)
                (s1\<lparr>slaves := map (\<lambda>d. if sl_id d = sl_id ?c then d\<lparr>sl_out := sl_out sl\<rparr> else d) (slaves s1)\<rparr>)
              else s1
          | None \<Rightarrow> s1)
     | Some RDB_CHILD_TYPE_SOCKET \<Rightarrow> s1
     | None \<Rightarrow>
         if repl_diskless_sync s1 \<and> sl_capa ?c AND SLAVE_CAPA_EOF \<noteq> 0 then s1
         else if \<not> aof_child s1 then startBgsaveForReplication env (sl_capa ?c) s1
         else s1)"
  have bl: "repl_backlog s' = repl_backlog s1"
    by (auto simp: s'_def replicationSetupSlaveForFullResync_def startBgsave_inv(2) [OF s1(2)] split: option.splits rdb_child_type.splits)
  have found: "repl_inv (new_hist s s1 h) (replicationSetupSlaveForFullResync env (sl_id ?c) (sl_initial_offset sl)
      (s1\<lparr>slaves := map (\<lambda>d. if sl_id d = sl_id ?c then d\<lparr>sl_out := sl_out sl\<rparr> else d) (slaves s1)\<rparr>))"
    if "find (\<lambda>sl. sl_replstate sl = WAIT_BGSAVE_END) (slaves s1) = Some sl" for sl
    using that by (intro copy_setup_inv [OF s1(2)]) (auto simp: find_Some_iff)
  have "repl_inv (new_hist s s1 h) s'"
    unfolding s'_def using s1(2) startBgsave_inv(1) [OF s1(2)] found by (simp split: option.split rdb_child_type.split)
  moreover have "full_resync env c s = Some s'" unfolding full_resync_def Let_def s1(1) bind.bind_lunit s'_def ..
  ultimately show ?thesis using bl by (auto simp: new_hist_def)
qed

lemma syncCommand_inv:
  assumes inv: "repl_inv h s" and c: "fresh_slave c" "\<And>rid o'. args = Some (rid, o') \<Longrightarrow> o' \<noteq> None"
  shows "\<exists>s' r. syncCommand env c args s = Some (s', r) \<and> repl_inv (new_hist s s' h) s'"
proof -
  have same: "repl_inv (new_hist s s h) s" using inv by (auto simp: new_hist_def)
  show ?thesis
  proof (cases "sl_id c \<in> set (map sl_id (slaves s)) \<or> masterhost s \<and> \<not> repl_connected s")
    case True
    then show ?thesis using same by (auto simp: syncCommand_def)
  next
    case False
    then have n: "sl_id c \<notin> set (map sl_id (slaves s))" "\<not> (masterhost s \<and> \<not> repl_connected s)" by auto
    have o: "sl_out c = []" using c(1) by (simp add: fresh_slave_def)
    show ?thesis
    proof (cases args)
      case None
      from full_resync_inv [OF inv, of "c\<lparr>sl_pre_psync := True\<rparr>" env] o n(1) obtain s' where
        "full_resync env (c\<lparr>sl_pre_psync := True\<rparr>) s = Some s'" "repl_inv (new_hist s s' h) s'" by auto
      then show ?thesis using n o None by (auto simp: syncCommand_def)
    next
      case (Some a)
      then obtain rid offset where a: "args = Some (rid, Some offset)" using c(2) by (cases a) auto
      from masterTry_inv [OF inv c(1) n(1), of env rid offset] obtain s1 c1 where
        1: "masterTryPartialResynchronization env c rid (Some offset) s = Some (s1, c1, psync_accepts s rid offset)" "repl_inv h s1"
          "repl_backlog s1 = repl_backlog s" "\<not> psync_accepts s rid offset \<longrightarrow> s1 = s \<and> c1 = c" by blast
      show ?thesis
      proof (cases "psync_accepts s rid offset")
        case True
        then show ?thesis using n o a 1 by (auto simp: syncCommand_def new_hist_def)
      next
        case False
        from full_resync_inv [OF inv o n(1), of env] obtain s' where
          "full_resync env c s = Some s'" "repl_inv (new_hist s s' h) s'" by auto
        then show ?thesis using n o a 1 False by (auto simp: syncCommand_def)
      qed
    qed
  qed
qed

section \<open>The other operations\<close>

lemma from_snapshot_state: "sl_replstate sl = WAIT_BGSAVE_END \<or> sl_replstate sl = SEND_BULK \<Longrightarrow> slave_ok h d sl \<Longrightarrow> from_snapshot h d sl"
  by (auto simp: slave_ok_def)

lemma slaves_ok_concat:
  assumes "slaves_ok h d sls" "\<And>sl. f sl = [] \<or> (\<exists>sl'. f sl = [sl'] \<and> sl_id sl' = sl_id sl \<and> (slave_ok h d sl \<longrightarrow> slave_ok h d sl'))"
  shows "slaves_ok h d (concat (map f sls))"
proof -
  have ids: "set (map sl_id (concat (map f sls))) \<subseteq> set (map sl_id sls)" for sls
  proof (induction sls)
    case (Cons sl sls)
    then show ?case using assms(2) [of sl] by auto
  qed simp
  show ?thesis using assms(1)
  proof (induction sls)
    case (Cons sl sls)
    then have 1: "sl_id sl \<notin> set (map sl_id (concat (map f sls)))" "slave_ok h d sl" "slaves_ok h d (concat (map f sls))"
      using ids [of sls] by (auto simp: slaves_ok_def)
    from assms(2) [of sl] 1(2) consider "f sl = []" | sl' where "f sl = [sl']" "sl_id sl' = sl_id sl" "slave_ok h d sl'" by blast
    then show ?case
    proof cases
      case 2
      then show ?thesis using 1(1,3) by (simp add: slaves_ok_def)
    qed (use 1 in simp)
  qed (simp add: slaves_ok_def)
qed

lemma slave_ok_ping: "sl_replstate sl \<noteq> ONLINE \<Longrightarrow> slave_ok h d (sl\<lparr>sl_reply := r\<rparr>) = slave_ok h d sl"
  by (simp add: slave_ok_def from_snapshot_def split: slave_state.split)

lemma bgsave_end_slave_cases:
  "bgsave_end_slave env b ty sl = [] \<or> (\<exists>sl'. bgsave_end_slave env b ty sl = [sl'] \<and> sl_id sl' = sl_id sl \<and> (slave_ok h d sl \<longrightarrow> slave_ok h d sl'))"
  by (auto simp: bgsave_end_slave_def slave_ok_def from_snapshot_def)

lemma updateSlavesWaitingBgsave_inv:
  assumes inv: "repl_inv h s"
  shows "repl_inv h (updateSlavesWaitingBgsave env b ty s)" "repl_backlog (updateSlavesWaitingBgsave env b ty s) = repl_backlog s"
proof -
  let ?s = "s\<lparr>slaves := concat (map (bgsave_end_slave env b ty) (slaves s))\<rparr>"
  have "slaves_ok h (slaveseldb s) (slaves ?s)"
    using inv slaves_ok_concat [OF _ bgsave_end_slave_cases] by (simp add: repl_inv_def)
  then have i: "repl_inv h ?s" using inv by (intro repl_inv_slaves [OF inv]) (auto simp: same_stream_def repl_inv_def)
  then show "repl_inv h (updateSlavesWaitingBgsave env b ty s)" "repl_backlog (updateSlavesWaitingBgsave env b ty s) = repl_backlog s"
    using startBgsave_inv [OF i] by (simp_all add: updateSlavesWaitingBgsave_def Let_def)
qed

lemma freeSlave_inv: "repl_inv h s \<Longrightarrow> repl_inv h (freeSlave c s)"
  by (rule repl_inv_slaves [of h s]) (auto simp: same_stream_def freeSlave_def repl_inv_def intro: slaves_ok_filter)

lemma putSlaveOnline_inv:
  assumes inv: "repl_inv h s" and st: "\<forall>sl \<in> set (slaves s). sl_id sl = c \<longrightarrow> sl_replstate sl = SEND_BULK \<or> sl_replstate sl = ONLINE"
  shows "repl_inv h (putSlaveOnline env c s)"
proof -
  let ?f = "\<lambda>sl. if sl_id sl = c then sl\<lparr>sl_replstate := ONLINE, sl_put_online_on_ack := False\<rparr> else sl"
  have "slaves_ok h (slaveseldb s) (map ?f (slaves s))"
  proof (rule slaves_ok_map)
    show "slaves_ok h (slaveseldb s) (slaves s)" using inv by (simp add: repl_inv_def)
    fix sl assume "sl \<in> set (slaves s)" "slave_ok h (slaveseldb s) sl"
    then show "sl_id (?f sl) = sl_id sl \<and> slave_ok h (slaveseldb s) (?f sl)"
      using st by (fastforce simp: slave_ok_def from_snapshot_def continues_def)
  qed
  then have "repl_inv h (s\<lparr>slaves := map ?f (slaves s)\<rparr>)"
    using inv by (intro repl_inv_slaves [OF inv]) (auto simp: same_stream_def repl_inv_def)
  then show ?thesis using freeSlave_inv by (simp add: putSlaveOnline_def Let_def)
qed

lemma resize_inv:
  assumes inv: "repl_inv h s"
  shows "repl_inv h (resizeReplicationBacklog junk n s)"
proof -
  define k where "k = nat (if n < CONFIG_REPL_BACKLOG_MIN_SIZE then CONFIG_REPL_BACKLOG_MIN_SIZE else n)"
  have k: "0 < k" by (simp add: k_def CONFIG_REPL_BACKLOG_MIN_SIZE_def)
  let ?s = "s\<lparr>repl_backlog_size := k\<rparr>"
  have e: "backlog_ok (empty_backlog junk ?s) []" using empty_backlog_ok [of ?s junk] k by simp
  have "repl_inv h (empty_backlog junk ?s)" if "repl_backlog s \<noteq> None"
  proof -
    have "\<exists>P T. requests (h_cmds h) = P @ T \<and> backlog_ok (empty_backlog junk ?s) T"
      using e by (intro exI [of _ "requests (h_cmds h)"] exI [of _ "[]"]) simp
    then show ?thesis using that inv k by (simp add: repl_inv_def stream_ok_def) (simp add: empty_backlog_def)
  qed
  moreover have "repl_inv h ?s" if "repl_backlog s = None" using that inv k by (auto simp: repl_inv_def stream_ok_def slaves_ok_def)
  ultimately show ?thesis using inv by (simp add: resizeReplicationBacklog_def k_def [symmetric] Let_def)
qed

lemma slaves_ok_Nil [simp]: "slaves_ok h d []"
  by (simp add: slaves_ok_def)

lemma cron_backlog_inv: "repl_inv h s \<Longrightarrow> \<exists>s'. cron_backlog unused s = Some s' \<and> repl_inv h s'"
  by (simp add: cron_backlog_def freeReplicationBacklog_def repl_inv_def stream_ok_def)

lemma cron_newlines_inv:
  assumes inv: "repl_inv h s"
  shows "repl_inv h (cron_newlines env s)"
proof (rule repl_inv_slaves [OF inv])
  have "slaves_ok h (slaveseldb s) (slaves s)" using inv by (simp add: repl_inv_def)
  from slaves_ok_map [OF this] show "slaves_ok h (slaveseldb (cron_newlines env s)) (slaves (cron_newlines env s))"
    by (simp add: cron_newlines_def slave_ok_ping)
qed (use inv in \<open>auto simp: cron_newlines_def same_stream_def repl_inv_def\<close>)

lemma cron_timeouts_inv: "repl_inv h s \<Longrightarrow> repl_inv h (cron_timeouts late s)"
  by (rule repl_inv_slaves [of h s]) (auto simp: same_stream_def cron_timeouts_def repl_inv_def intro: slaves_ok_filter)

lemma cron_inv:
  assumes inv: "repl_inv h s" and env: "127 \<le> length (e_stack env)"
  shows "\<exists>s'. replicationCron env ping late unused waited s = Some s' \<and>
    repl_inv (if ping \<and> slaves s \<noteq> [] then add_call s (slaveseldb s) [Obj_Sds (map of_char ''PING'')] h else h) s'"
proof -
  define h' where "h' = (if ping \<and> slaves s \<noteq> [] then add_call s (slaveseldb s) [Obj_Sds (map of_char ''PING'')] h else h)"
  let ?ping = "if ping \<and> slaves s \<noteq> [] then replicationFeedSlaves (e_stack env) (slaveseldb s) [Obj_Sds (map of_char ''PING'')] s else Some s"
  have "call_ok (e_stack env) [Obj_Sds (map of_char ''PING'')]"
    using env by (simp add: call_ok_def obj_ok_def cmd_ok_def is_select_def obj_bytes_def)
  then have "\<exists>s1. ?ping = Some s1 \<and> repl_inv h' s1" using replicationFeedSlaves_inv [OF inv] inv by (auto simp: h'_def)
  then obtain s1 where s1: "?ping = Some s1" "repl_inv h' s1" by blast
  from cron_backlog_inv [OF cron_timeouts_inv [OF cron_newlines_inv [OF s1(2)]]] obtain s2 where
    s2: "cron_backlog unused (cron_timeouts late (cron_newlines env s1)) = Some s2" "repl_inv h' s2" by blast
  have "replicationCron env ping late unused waited s = Some (cron_bgsave env waited s2)"
    unfolding replicationCron_def s1(1) bind.bind_lunit s2(1) ..
  moreover have "repl_inv h' (cron_bgsave env waited s2)" using s2(2) startBgsave_inv(1) [OF s2(2)] by (simp add: cron_bgsave_def)
  ultimately show ?thesis unfolding h'_def [symmetric] by simp
qed

end
