(* ===== verification/Replication_Run.thy ===== *)
theory Replication_Run
  imports Replication_Sync
begin

text \<open>
  Histories of a master: calls that are propagated, replicas that connect, continue or leave,
  snapshots that end, and the periodic work. The history \<open>repl_hist\<close> is recorded beside the state; no
  operation reads it.
\<close>

datatype repl_event =
    Call int "robj list"
  | Sync slave "(bytes \<times> int option) option"
  | Snapshot_done bool rdb_child_type
  | Ready nat
  | Disconnected nat
  | Resized int
  | Cron bool "nat \<Rightarrow> bool" bool bool
  | Bgsave
  | Aof_rewrite bool

text \<open>A replica is put online when its snapshot was sent, or acknowledged after a diskless transfer.\<close>

definition repl_step :: "repl_env \<times> repl_event \<Rightarrow> repl_server \<times> repl_hist \<Rightarrow> ((repl_server \<times> repl_hist) \<times> sync_result) option" where
  "repl_step x st = (case x of (env, ev) \<Rightarrow> (case st of (s, h) \<Rightarrow> (case ev of
     Call dictid argv \<Rightarrow> do { s' \<leftarrow> replicationFeedSlaves (e_stack env) dictid argv s; Some ((s', add_call s dictid argv h), Sync_none) }
   | Sync c args \<Rightarrow> do { (s', r) \<leftarrow> syncCommand env c args s; Some ((s', new_hist s s' h), r) }
   | Snapshot_done bgsaveok type' \<Rightarrow> Some ((updateSlavesWaitingBgsave env bgsaveok type' (s\<lparr>rdb_child := None\<rparr>), h), Sync_none)
   | Ready c \<Rightarrow> Some ((if \<forall>sl \<in> set (slaves s). sl_id sl = c \<longrightarrow> sl_replstate sl = SEND_BULK \<or> sl_replstate sl = ONLINE
       then putSlaveOnline env c s else s, h), Sync_none)
   | Disconnected c \<Rightarrow> Some ((freeSlave c s, h), Sync_none)
   | Resized newsize \<Rightarrow> Some ((resizeReplicationBacklog (e_fresh env) newsize s, h), Sync_none)
   | Cron ping late unused waited \<Rightarrow> do {
       s' \<leftarrow> replicationCron env ping late unused waited s;
       Some ((s', if ping \<and> slaves s \<noteq> [] then add_call s (slaveseldb s) [Obj_Sds (map of_char ''PING'')] h else h), Sync_none) }
   | Bgsave \<Rightarrow> Some ((fst (rdbSaveBackground env s), h), Sync_none)
   | Aof_rewrite b \<Rightarrow> Some ((s\<lparr>aof_child := b\<rparr>, h), Sync_none))))"

definition event_ok :: "repl_env \<times> repl_event \<Rightarrow> bool" where
  "event_ok x \<longleftrightarrow> 127 \<le> length (e_stack (fst x)) \<and> (case snd x of
     Call dictid argv \<Rightarrow> 0 \<le> dictid \<and> dictid < 2 ^ 31 \<and> call_ok (e_stack (fst x)) argv
   | Sync c args \<Rightarrow> fresh_slave c \<and> (case args of Some (rid, None) \<Rightarrow> False | _ \<Rightarrow> True)
   | _ \<Rightarrow> True)"

lemma repl_inv_aof: "repl_inv h (s\<lparr>aof_child := b\<rparr>) = repl_inv h s"
  using stream_ok_cong [of "s\<lparr>aof_child := b\<rparr>" s] by (simp add: repl_inv_def)

lemma repl_step_inv:
  assumes inv: "repl_inv h s" and ok: "event_ok (env, ev)"
  shows "\<exists>s' h' r. repl_step (env, ev) (s, h) = Some ((s', h'), r) \<and> repl_inv h' s'"
proof (cases ev)
  case (Call dictid argv)
  then have "call_ok (e_stack env) argv" "- (2 ^ 31) \<le> dictid" "dictid < 2 ^ 31" using ok by (auto simp: event_ok_def)
  with replicationFeedSlaves_inv [OF inv, of "e_stack env" argv dictid] show ?thesis using Call by (auto simp: repl_step_def)
next
  case (Sync c args)
  then have c: "fresh_slave c" using ok by (simp add: event_ok_def)
  have o: "o' \<noteq> None" if "args = Some (rid, o')" for rid o' using Sync ok that by (cases o') (auto simp: event_ok_def)
  obtain s' r where "syncCommand env c args s = Some (s', r)" "repl_inv (new_hist s s' h) s'"
    using syncCommand_inv [OF inv c, of args env] o by blast
  then show ?thesis using Sync by (simp add: repl_step_def)
next
  case (Cron ping late unused waited)
  have "127 \<le> length (e_stack env)" using ok by (simp add: event_ok_def)
  from cron_inv [OF inv this, of ping late unused waited] show ?thesis using Cron by (auto simp: repl_step_def)
next
  case (Snapshot_done b ty)
  have "repl_inv h (s\<lparr>rdb_child := None\<rparr>)" using inv by (simp add: repl_inv_child)
  from updateSlavesWaitingBgsave_inv(1) [OF this] show ?thesis using Snapshot_done by (simp add: repl_step_def)
next
  case (Ready c)
  then show ?thesis using inv putSlaveOnline_inv [OF inv, of c env] by (simp add: repl_step_def)
next
  case (Disconnected c)
  then show ?thesis using freeSlave_inv [OF inv] by (simp add: repl_step_def)
next
  case (Resized n)
  then show ?thesis using resize_inv [OF inv] by (simp add: repl_step_def)
next
  case Bgsave
  then show ?thesis using inv by (simp add: repl_step_def rdbSaveBackground_def repl_inv_child)
next
  case (Aof_rewrite b)
  then show ?thesis using inv by (simp add: repl_step_def repl_inv_aof)
qed

interpretation repl: invariant_machine repl_step "\<lambda>(s, h). repl_inv h s" event_ok
proof unfold_locales
  fix x :: "repl_server \<times> repl_hist" and c :: "repl_env \<times> repl_event"
  assume "case x of (s, h) \<Rightarrow> repl_inv h s" "event_ok c"
  then show "\<exists>s' r. repl_step c x = Some (s', r) \<and> (case s' of (s, h) \<Rightarrow> repl_inv h s)"
    using repl_step_inv [of "snd x" "fst x" "fst c" "snd c"] by (cases x, cases c) fastforce
qed

text \<open>A master nobody replicates yet.\<close>

definition lone_master :: "repl_server \<Rightarrow> bool" where
  "lone_master s \<longleftrightarrow> repl_backlog s = None \<and> slaves s = [] \<and> 0 < repl_backlog_size s \<and> \<not> masterhost s"

definition no_hist :: repl_hist where
  "no_hist = \<lparr>h_start = 0, h_cmds = [], h_calls = []\<rparr>"

lemma lone_master_inv: "lone_master s \<Longrightarrow> repl_inv no_hist s"
  by (simp add: lone_master_def no_hist_def repl_inv_def stream_ok_def)

lemma replica_catches_up:
  assumes "\<forall>cmd \<in> set cmds. cmd_ok cmd" "undisturbed env (c_master c) (drop n cmds) (exec env (take n cmds) st)" "1024 * 1024 * 1024 \<le> maxlen" "fresh_client c" "length (requests (drop n cmds)) \<le> length ns"
  shows "\<exists>c'. serve env maxlen ns c (exec env (take n cmds) st) (requests (drop n cmds)) =
    Some (c', exec env cmds st, [], if c_master c then requests (drop n cmds) else [])"
proof -
  have ok: "\<forall>cmd \<in> set (drop n cmds). cmd_ok cmd" using assms(1) by (meson in_set_dropD)
  from fresh_waiting [OF assms(4)] have w: "waiting c (requests (drop n cmds)) (drop n cmds)"
    "offsets_ok c (requests (drop n cmds)) (drop n cmds)" "pending_ok c (requests (drop n cmds)) (drop n cmds)" by auto
  have "exec env (drop n cmds) (exec env (take n cmds) st) = exec env cmds st" by (simp add: exec_append [symmetric])
  then show ?thesis using serve_valid [OF assms(3,2) w(1) ok w(2,3) assms(5)] by auto
qed

text \<open>
  C3. Replicas converge. Start with a master that has no replicas and take any history of
  write commands, replicas that connect and disconnect, snapshots that start, end or fail,
  PING and timeouts, resizing and freeing the backlog, with any failures of sockets and processes. No
  assertion of the code fails, no byte is written outside of the backlog. Every replica that was
  told to load a snapshot was told the offset of a moment between two commands of the stream; its
  output from then on is exactly the later commands; they are the calls made since, in order,
  each executed in the database it was made in, since SELECT is sent again; and the server that
  reads them, in portions of any size, on top of the state of the snapshot, reaches the state the whole stream leads to.

  The hypotheses on the history (\<open>event_ok\<close>): a call is no SELECT, keeps the limits of the protocol on the number
  and the lengths of its arguments and names a database by a nonnegative \<open>int\<close>; and the offset of a PSYNC is a number. A PSYNC with
  another offset is excluded because it breaks the claim, see \<open>bad_psync_offset_leaks\<close>. The last part, on the server that reads the
  stream, is about commands that do not disturb the reading of their own stream (\<open>undisturbed\<close>).
\<close>

theorem replicas_converge:
  assumes "lone_master s0" and "\<forall>ev \<in> set evs. event_ok ev"
  shows "\<exists>s h rs. run_ops repl_step evs (s0, no_hist) = Some ((s, h), rs) \<and>
    (\<forall>sl \<in> set (slaves s). sl_replstate sl \<noteq> WAIT_BGSAVE_START \<and> \<not> sl_close sl \<and> take 9 (sl_reply sl) \<noteq> map of_char ''+CONTINUE'' \<longrightarrow>
      (\<exists>n m. n \<le> length (h_cmds h) \<and> m \<le> length (h_calls h) \<and>
        sl_initial_offset sl = h_start h + int (length (requests (take n (h_cmds h)))) \<and> sl_out sl = requests (drop n (h_cmds h)) \<and>
        list_all2 executes (drop m (h_calls h)) (tagged None (drop n (h_cmds h))) \<and>
        (\<forall>env maxlen ns c st. undisturbed env (c_master c) (drop n (h_cmds h)) (exec env (take n (h_cmds h)) st) \<and> 1024 * 1024 * 1024 \<le> maxlen \<and> fresh_client c \<and> length (sl_out sl) \<le> length ns \<longrightarrow>
          (\<exists>c'. serve env maxlen ns c (exec env (take n (h_cmds h)) st) (sl_out sl) =
            Some (c', exec env (h_cmds h) st, [], if c_master c then sl_out sl else [])))))"
proof -
  from repl.run [of "(s0, no_hist)" evs] assms lone_master_inv obtain s h rs where
    r: "run_ops repl_step evs (s0, no_hist) = Some ((s, h), rs)" "repl_inv h s" by auto
  have ok: "\<forall>cmd \<in> set (h_cmds h). cmd_ok cmd" using r(2) by (simp add: repl_inv_def)
  have "\<exists>n m. n \<le> length (h_cmds h) \<and> m \<le> length (h_calls h) \<and>
        sl_initial_offset sl = h_start h + int (length (requests (take n (h_cmds h)))) \<and> sl_out sl = requests (drop n (h_cmds h)) \<and>
        list_all2 executes (drop m (h_calls h)) (tagged None (drop n (h_cmds h))) \<and>
        (\<forall>env maxlen ns c st. undisturbed env (c_master c) (drop n (h_cmds h)) (exec env (take n (h_cmds h)) st) \<and> 1024 * 1024 * 1024 \<le> maxlen \<and> fresh_client c \<and> length (sl_out sl) \<le> length ns \<longrightarrow>
          (\<exists>c'. serve env maxlen ns c (exec env (take n (h_cmds h)) st) (sl_out sl) =
            Some (c', exec env (h_cmds h) st, [], if c_master c then sl_out sl else [])))"
    if sl: "sl \<in> set (slaves s)" "sl_replstate sl \<noteq> WAIT_BGSAVE_START" "\<not> sl_close sl" "take 9 (sl_reply sl) \<noteq> map of_char ''+CONTINUE''" for sl
  proof -
    have "slave_ok h (slaveseldb s) sl" using r(2) sl(1) by (simp add: repl_inv_def slaves_ok_def)
    then have "from_snapshot h (slaveseldb s) sl"
      using sl(2-4) by (cases "sl_replstate sl") (auto simp: slave_ok_def continues_def)
    then obtain n m where n: "snap h (slaveseldb s) n m" "sl_initial_offset sl = h_start h + int (length (requests (take n (h_cmds h))))"
      "sl_out sl = requests (drop n (h_cmds h))" by (auto simp: from_snapshot_def)
    have cu: "\<forall>env maxlen ns c st. undisturbed env (c_master c) (drop n (h_cmds h)) (exec env (take n (h_cmds h)) st) \<and> 1024 * 1024 * 1024 \<le> maxlen \<and> fresh_client c \<and> length (sl_out sl) \<le> length ns \<longrightarrow>
          (\<exists>c'. serve env maxlen ns c (exec env (take n (h_cmds h)) st) (sl_out sl) =
            Some (c', exec env (h_cmds h) st, [], if c_master c then sl_out sl else []))"
      unfolding n(3) by (intro allI impI, elim conjE) (rule replica_catches_up [OF ok])
    show ?thesis using n(1) unfolding snap_def by (intro exI [of _ n] exI [of _ m] conjI n(2,3) cu) simp_all
  qed
  then show ?thesis using r(1) by blast
qed

definition demo_env :: repl_env where
  "demo_env = \<lparr>e_sent = \<lambda>_. True, e_open = \<lambda>_. True, e_child = True, e_newid = replicate 40 97, e_fresh = \<lambda>_. 0, e_stack = replicate 128 0\<rparr>"

definition demo_master :: "nat \<Rightarrow> repl_server" where
  "demo_master n = \<lparr>repl_backlog = None, repl_backlog_size = n, repl_backlog_histlen = 0, repl_backlog_idx = 0, repl_backlog_off = 0,
     master_repl_offset = 100, replid = [], replid2 = [], second_replid_offset = -1, slaveseldb = -1, masterhost = False,
     master_client = False, repl_connected = False, repl_diskless_sync = False, rdb_child = None, aof_child = False, slaves = []\<rparr>"

definition demo_slave :: "nat \<Rightarrow> slave" where
  "demo_slave i = \<lparr>sl_id = i, sl_replstate = WAIT_BGSAVE_START, sl_capa = 3, sl_pre_psync = False, sl_close = False, sl_put_online_on_ack = False,
     sl_initial_offset = 0, sl_reply = [], sl_out = []\<rparr>"

text \<open>SET k 7 in database 2, before and after a replica connects, and the end of its snapshot.\<close>

definition demo_events :: "(repl_env \<times> repl_event) list" where
  "demo_events = map (Pair demo_env) [Sync (demo_slave 1) None, Call 2 [Obj_Sds [83, 69, 84], Obj_Sds [107], Obj_Int 7],
     Sync (demo_slave 5) (Some ([63], Some (-1))), Call 2 [Obj_Sds [68, 69, 76], Obj_Sds [107]], Snapshot_done True RDB_CHILD_TYPE_DISK]"

lemma demo_ok: "lone_master (demo_master 20)" "\<forall>ev \<in> set demo_events. event_ok ev"
  by (simp_all add: lone_master_def demo_master_def demo_events_def event_ok_def demo_env_def demo_slave_def fresh_slave_def
      call_ok_def obj_ok_def cmd_ok_def obj_bytes_def is_select_def decimal_def dec_nat.simps siptlw_def)

theorem replicas_converge_witness:
  "\<exists>s h rs. run_ops repl_step demo_events (demo_master 20, no_hist) = Some ((s, h), rs) \<and>
    (\<forall>sl \<in> set (slaves s). sl_replstate sl \<noteq> WAIT_BGSAVE_START \<and> \<not> sl_close sl \<and> take 9 (sl_reply sl) \<noteq> map of_char ''+CONTINUE'' \<longrightarrow>
      (\<exists>n. sl_initial_offset sl = h_start h + int (length (requests (take n (h_cmds h)))) \<and> sl_out sl = requests (drop n (h_cmds h))))"
proof -
  from replicas_converge [where 'a = unit, OF demo_ok] obtain s h rs where
    r: "run_ops repl_step demo_events (demo_master 20, no_hist) = Some ((s, h), rs)" and
    c: "\<forall>sl \<in> set (slaves s). sl_replstate sl \<noteq> WAIT_BGSAVE_START \<and> \<not> sl_close sl \<and> take 9 (sl_reply sl) \<noteq> map of_char ''+CONTINUE'' \<longrightarrow>
      (\<exists>n m. n \<le> length (h_cmds h) \<and> m \<le> length (h_calls h) \<and>
        sl_initial_offset sl = h_start h + int (length (requests (take n (h_cmds h)))) \<and> sl_out sl = requests (drop n (h_cmds h)) \<and>
        list_all2 executes (drop m (h_calls h)) (tagged None (drop n (h_cmds h))) \<and>
        (\<forall>(env :: unit cmd_env) maxlen ns c st. undisturbed env (c_master c) (drop n (h_cmds h)) (exec env (take n (h_cmds h)) st) \<and> 1024 * 1024 * 1024 \<le> maxlen \<and> fresh_client c \<and> length (sl_out sl) \<le> length ns \<longrightarrow>
          (\<exists>c'. serve env maxlen ns c (exec env (take n (h_cmds h)) st) (sl_out sl) =
            Some (c', exec env (h_cmds h) st, [], if c_master c then sl_out sl else []))))" by (elim exE conjE)
  have "\<exists>n. sl_initial_offset sl = h_start h + int (length (requests (take n (h_cmds h)))) \<and> sl_out sl = requests (drop n (h_cmds h))"
    if "sl \<in> set (slaves s)" "sl_replstate sl \<noteq> WAIT_BGSAVE_START \<and> \<not> sl_close sl \<and> take 9 (sl_reply sl) \<noteq> map of_char ''+CONTINUE''" for sl
    using c [rule_format, OF that] by (elim exE conjE) (rule exI, rule conjI)
  then show ?thesis using r by (intro exI [of _ s] exI [of _ h] exI [of _ rs]) simp
qed

text \<open>
  C4. Partial resynchronization sends exactly the missing bytes. After any history, PSYNC with
  an identity of this history and an offset whose bytes are all still in the backlog makes the client a
  replica at once, and what it is sent, appended to the bytes of the stream before that offset, is the
  stream up to now, whatever the position in the circular buffer. Otherwise it is a full
  resynchronization. Such an offset exists: with the whole backlog filled, or the whole stream in it,
  the last \<open>repl_backlog_histlen\<close> bytes.
\<close>

theorem psync_resumes:
  assumes "lone_master s0" and "\<forall>ev \<in> set evs. event_ok ev" and "run_ops repl_step evs (s0, no_hist) = Some ((s, h), rs)"
    and "fresh_slave c" and "sl_id c \<notin> set (map sl_id (slaves s))" and "e_sent env (sl_id c)"
  shows "if (strcasecmp_eq rid (replid s) \<or> strcasecmp_eq rid (replid2 s) \<and> offset \<le> second_replid_offset s) \<and> repl_backlog s \<noteq> None \<and>
       master_repl_offset s - int (repl_backlog_histlen s) < offset \<and> offset \<le> master_repl_offset s + 1
    then \<exists>c'. syncCommand env c (Some (rid, Some offset)) s = Some (s\<lparr>slaves := slaves s @ [c']\<rparr>, Sync_partial) \<and> sl_id c' = sl_id c \<and>
      sl_replstate c' = ONLINE \<and> take (nat (offset - 1 - h_start h)) (requests (h_cmds h)) @ sl_out c' = requests (h_cmds h) \<and>
      int (length (sl_out c')) = master_repl_offset s + 1 - offset
    else \<exists>s'. syncCommand env c (Some (rid, Some offset)) s = Some (s', Sync_full)"
proof -
  from repl.run [of "(s0, no_hist)" evs] assms(1-3) lone_master_inv have inv: "repl_inv h s" by auto
  have so: "stream_ok h s" "\<not> masterhost s" using inv by (auto simp: repl_inv_def stream_ok_def)
  have cs: "sl_out c = []" "sl_reply c = []" using assms(4) by (auto simp: fresh_slave_def)
  have off: "repl_backlog_off s = master_repl_offset s - int (repl_backlog_histlen s) + 1" if "repl_backlog s \<noteq> None"
    using so(1) that by (auto simp: stream_ok_def backlog_ok_def)
  have acc: "psync_accepts s rid offset \<longleftrightarrow> (strcasecmp_eq rid (replid s) \<or> strcasecmp_eq rid (replid2 s) \<and> offset \<le> second_replid_offset s) \<and>
      repl_backlog s \<noteq> None \<and> master_repl_offset s - int (repl_backlog_histlen s) < offset \<and> offset \<le> master_repl_offset s + 1"
    using off by (auto simp: psync_accepts_def)
  have unf: "syncCommand env c (Some (rid, Some offset)) s = do {
        (s, c, ok) \<leftarrow> masterTryPartialResynchronization env c rid (Some offset) s;
        if ok then Some (s, Sync_partial) else do { s \<leftarrow> full_resync env c s; Some (s, Sync_full) } }"
    using assms(5) so(2) cs by (simp add: syncCommand_def)
  show ?thesis
  proof (cases "psync_accepts s rid offset")
    case True
    then have b: "repl_backlog s \<noteq> None" "repl_backlog_off s \<le> offset" "offset \<le> repl_backlog_off s + int (repl_backlog_histlen s)"
      by (auto simp: psync_accepts_def)
    note bb = backlog_bytes [OF so(1) b]
    let ?c = "continued env s c (drop (nat (offset - 1 - h_start h)) (requests (h_cmds h)))"
    have "sl_out ?c = drop (nat (offset - 1 - h_start h)) (requests (h_cmds h))" "sl_id ?c = sl_id c" "sl_replstate ?c = ONLINE"
      using assms(6) cs by (simp_all add: continued_def Let_def)
    moreover have "master_repl_offset s = h_start h + int (length (requests (h_cmds h)))" using so(1) b(1) by (simp add: stream_ok_def)
    moreover have "syncCommand env c (Some (rid, Some offset)) s = Some (s\<lparr>slaves := slaves s @ [?c]\<rparr>, Sync_partial)"
      using unf True by (simp add: masterTry_spec [OF so(1)] Let_def)
    ultimately have "\<exists>c'. syncCommand env c (Some (rid, Some offset)) s = Some (s\<lparr>slaves := slaves s @ [c']\<rparr>, Sync_partial) \<and> sl_id c' = sl_id c \<and>
      sl_replstate c' = ONLINE \<and> take (nat (offset - 1 - h_start h)) (requests (h_cmds h)) @ sl_out c' = requests (h_cmds h) \<and>
      int (length (sl_out c')) = master_repl_offset s + 1 - offset"
      using bb(1,2) by (intro exI [of _ ?c] conjI) simp_all
    then show ?thesis unfolding if_P [OF True [unfolded acc]] .
  next
    case False
    from full_resync_inv [OF inv cs(1) assms(5), of env] obtain s' where "full_resync env c s = Some s'" by blast
    then have "syncCommand env c (Some (rid, Some offset)) s = Some (s', Sync_full)" using unf False by (simp add: masterTry_spec [OF so(1)])
    then show ?thesis unfolding if_not_P [OF False [unfolded acc]] by blast
  qed
qed

lemma demo_started:
  "\<exists>s h rs. run_ops repl_step [(demo_env, Sync (demo_slave 1) None)] (demo_master 20, no_hist) = Some ((s, h), rs) \<and>
     map sl_id (slaves s) = [1] \<and> repl_backlog s \<noteq> None \<and> replid s = replicate 40 97 \<and> master_repl_offset s = 100 \<and> repl_backlog_histlen s = 0"
  by (simp add: repl_step_def syncCommand_def full_resync_def demo_env_def demo_slave_def demo_master_def changeReplicationId_def clearReplicationId2_def createReplicationBacklog_def empty_backlog_def SLAVE_CAPA_EOF_def startBgsaveForReplication_def
    rdbPopulateSaveInfo_def rdbSaveBackground_def setup_waiting_def setup_slave_def getPsyncInitialOffset_def new_hist_def no_hist_def)

theorem psync_resumes_witness:
  "\<exists>s c'. syncCommand demo_env (demo_slave 9) (Some (replicate 40 97, Some 101)) s = Some (s\<lparr>slaves := slaves s @ [c']\<rparr>, Sync_partial) \<and> int (length (sl_out c')) = 0"
proof -
  from demo_started obtain s h rs where r: "run_ops repl_step [(demo_env, Sync (demo_slave 1) None)] (demo_master 20, no_hist) = Some ((s, h), rs)"
    and s: "map sl_id (slaves s) = [1]" "repl_backlog s \<noteq> None" "replid s = replicate 40 97" "master_repl_offset s = 100" "repl_backlog_histlen s = 0"
    by (elim exE conjE)
  have ok: "\<forall>ev \<in> set [(demo_env, Sync (demo_slave 1) None)]. event_ok ev" by (simp add: event_ok_def demo_env_def demo_slave_def fresh_slave_def)
  have c: "fresh_slave (demo_slave 9)" "sl_id (demo_slave 9) \<notin> set (map sl_id (slaves s))" "e_sent demo_env (sl_id (demo_slave 9))"
    using s(1) by (simp_all add: fresh_slave_def demo_slave_def demo_env_def del: set_map)
  have refl: "strcasecmp_eq x x" for x :: bytes by (induction x) auto
  have a: "(strcasecmp_eq (replicate 40 97) (replid s) \<or> strcasecmp_eq (replicate 40 97) (replid2 s) \<and> 101 \<le> second_replid_offset s) \<and> repl_backlog s \<noteq> None \<and>
       master_repl_offset s - int (repl_backlog_histlen s) < 101 \<and> 101 \<le> master_repl_offset s + 1"
    using s refl by simp
  from psync_resumes [OF demo_ok(1) ok r c, of "replicate 40 97" 101, unfolded if_P [OF a]] obtain c' where
    "syncCommand demo_env (demo_slave 9) (Some (replicate 40 97, Some 101)) s = Some (s\<lparr>slaves := slaves s @ [c']\<rparr>, Sync_partial)"
    "int (length (sl_out c')) = master_repl_offset s + 1 - 101" by blast
  then show ?thesis using s(4) by (intro exI [of _ s] exI [of _ c']) simp
qed
text \<open>
  C36. A master whose backlog was freed diverges from its own promoted replica. Let \<open>b\<close> be a replica of \<open>a\<close> that
  has applied its whole stream, and that is disconnected and promoted. When the backlog of \<open>a\<close> was not used for long
  enough it is freed; from then on write commands change neither the offset of \<open>a\<close> nor its
  identity. When \<open>a\<close> is made a replica of \<open>b\<close>, it asks with them, \<open>b\<close> accepts and sends no byte: the writes
  \<open>a\<close> executed alone stay in its data set.
\<close>

theorem freed_backlog_diverges:
  assumes "\<not> masterhost a" and "slaves a = []" and "repl_backlog a \<noteq> None"
    and "stream_ok h (replicationUnsetMaster env' b)" and "masterhost b" and "repl_backlog b \<noteq> None"
    and "replid b = replid a" and "master_repl_offset b = master_repl_offset a"
    and "fresh_slave c" and "e_sent env (sl_id c)"
  shows "\<exists>a'. replicationCron env ping late True waited a = Some a' \<and>
    (\<forall>junk dictid argv. replicationFeedSlaves junk dictid argv a' = Some a') \<and>
    (\<exists>c'. syncCommand env c (Some (psync_request (Some (replicationCacheMasterUsingMyself a')))) (replicationUnsetMaster env' b) =
       Some ((replicationUnsetMaster env' b)\<lparr>slaves := [c']\<rparr>, Sync_partial) \<and> sl_out c' = [])"
proof -
  let ?a = "a\<lparr>repl_backlog := None\<rparr>" and ?b = "replicationUnsetMaster env' b"
  have cr: "replicationCron env ping late True waited a = Some ?a"
    using assms(1-3) by (simp add: replicationCron_def cron_newlines_def cron_timeouts_def cron_backlog_def freeReplicationBacklog_def cron_bgsave_def)
  have fd: "replicationFeedSlaves junk dictid argv ?a = Some ?a" for junk dictid argv using assms(1,2) by (simp add: replicationFeedSlaves_def)
  have b: "slaves ?b = []" "\<not> masterhost ?b" "replid2 ?b = replid a" "second_replid_offset ?b = master_repl_offset a + 1"
    "repl_backlog ?b = repl_backlog b" "master_repl_offset ?b = master_repl_offset a"
    using assms(5-8) by (simp_all add: replicationUnsetMaster_def shiftReplicationId_def changeReplicationId_def)
  have refl: "strcasecmp_eq x x" for x :: bytes by (induction x) auto
  have o: "repl_backlog_off ?b = master_repl_offset a - int (repl_backlog_histlen ?b) + 1"
    using assms(4,6) b(5,6) by (auto simp: stream_ok_def backlog_ok_def)
  have mo: "master_repl_offset a = h_start h + int (length (requests (h_cmds h)))" using assms(4,6) b(5,6) by (simp add: stream_ok_def)
  have acc: "psync_accepts ?b (replid a) (master_repl_offset a + 1)"
    using b(3,4,5) assms(6) o refl by (simp add: psync_accepts_def)
  let ?c = "continued env ?b c (drop (nat (master_repl_offset a - h_start h)) (requests (h_cmds h)))"
  have "syncCommand env c (Some (psync_request (Some (replicationCacheMasterUsingMyself ?a)))) ?b = Some (?b\<lparr>slaves := [?c]\<rparr>, Sync_partial)"
    using b(1,2) assms(9) acc masterTry_spec [OF assms(4), of env c "replid a" "master_repl_offset a + 1"]
    by (simp add: syncCommand_def psync_request_def replicationCacheMasterUsingMyself_def fresh_slave_def Let_def)
  moreover have "sl_out ?c = []" using assms(9,10) mo by (simp add: continued_def Let_def fresh_slave_def)
  ultimately show ?thesis using cr fd by (intro exI [of _ ?a]) blast
qed

definition demo_replica :: repl_server where
  "demo_replica = (demo_master 4)\<lparr>repl_backlog := Some [1, 2, 3, 4], repl_backlog_off := 101, masterhost := True, master_client := True, repl_connected := True\<rparr>"

theorem freed_backlog_diverges_witness:
  "\<exists>a'. replicationCron demo_env False (\<lambda>_. False) True False ((demo_master 4)\<lparr>repl_backlog := Some [1, 2, 3, 4], repl_backlog_off := 101\<rparr>) = Some a' \<and>
    (\<forall>junk dictid argv. replicationFeedSlaves junk dictid argv a' = Some a') \<and>
    (\<exists>c'. syncCommand demo_env (demo_slave 1) (Some (psync_request (Some (replicationCacheMasterUsingMyself a')))) (replicationUnsetMaster demo_env demo_replica) =
       Some ((replicationUnsetMaster demo_env demo_replica)\<lparr>slaves := [c']\<rparr>, Sync_partial) \<and> sl_out c' = [])"
proof (rule freed_backlog_diverges)
  show "stream_ok \<lparr>h_start = 100, h_cmds = [], h_calls = []\<rparr> (replicationUnsetMaster demo_env demo_replica)"
    by (auto simp: stream_ok_def requests_def backlog_ok_def ring_def rotated_def replicationUnsetMaster_def shiftReplicationId_def
        changeReplicationId_def demo_replica_def demo_master_def demo_env_def intro!: exI [of _ "[1, 2, 3, 4]"])
qed (simp_all add: demo_master_def demo_replica_def demo_env_def demo_slave_def fresh_slave_def)

lemma setup_slave_capa [simp]: "sl_capa (setup_slave env rid k sl) = sl_capa sl"
  by (simp add: setup_slave_def Let_def)

text \<open>
  C40. A malformed PSYNC spoils the stream of another replica. When the offset of PSYNC is not a number, the
  function that parses it has already put an error into the output of the client that the full
  resynchronization then uses to record the differences from the snapshot. A replica that synchronizes before this output
  is written, properly and with no command executed in between, is given a copy of it: it is told the current offset, and the stream it
  gets after the snapshot starts with the text of the error instead of the next command. So its offset is ahead of the one of
  the master by the length of this text.
\<close>

theorem bad_psync_offset_leaks:
  assumes "\<not> masterhost s" and "repl_backlog s \<noteq> None" and "rdb_child s = None" and "\<not> aof_child s" and "\<not> repl_diskless_sync s"
    and "e_child env" and "\<forall>sl \<in> set (slaves s). sl_replstate sl = ONLINE"
    and "fresh_slave c" and "fresh_slave c2" and "sl_id c \<notin> set (map sl_id (slaves s))" and "sl_id c2 \<notin> set (map sl_id (slaves s))" and "sl_id c \<noteq> sl_id c2"
    and "sl_capa c2 AND sl_capa c = sl_capa c"
    and "case args of None \<Rightarrow> True | Some (rid, None) \<Rightarrow> False | Some (rid, Some offset) \<Rightarrow> \<not> psync_accepts s rid offset"
  shows "\<exists>s1 s2 d. syncCommand env c (Some (rid, None)) s = Some (s1, Sync_full) \<and> syncCommand env c2 args s1 = Some (s2, Sync_full) \<and>
    d \<in> set (slaves s2) \<and> sl_id d = sl_id c2 \<and> sl_replstate d = WAIT_BGSAVE_END \<and> sl_initial_offset d = master_repl_offset s2 \<and>
    sl_out d = not_an_integer"
proof -
  let ?c = "c\<lparr>sl_out := not_an_integer, sl_replstate := WAIT_BGSAVE_START\<rparr>"
  let ?d = "setup_slave env (replid s) (master_repl_offset s) ?c"
  let ?s1 = "s\<lparr>rdb_child := Some RDB_CHILD_TYPE_DISK, slaveseldb := -1, slaves := slaves s @ [?d]\<rparr>"
  obtain b where bl: "repl_backlog s = Some b" using assms(2) by blast
  have old: "map (\<lambda>sl. if sl_replstate sl = WAIT_BGSAVE_START then f sl else sl) (slaves s) = slaves s" for f
    using assms(7) by (intro map_idI) auto
  have st: "startBgsaveForReplication env (sl_capa c) (s\<lparr>slaves := slaves s @ [?c]\<rparr>) = ?s1"
    using assms(1,3-6) unfolding startBgsaveForReplication_def rdbPopulateSaveInfo_def rdbSaveBackground_def Let_def
    by (simp add: setup_waiting_def getPsyncInitialOffset_def old)
  have "full_resync env (c\<lparr>sl_out := not_an_integer\<rparr>) s = Some ?s1"
    using bl assms(3-5) unfolding full_resync_def Let_def by (simp add: st)
  then have 1: "syncCommand env c (Some (rid, None)) s = Some (?s1, Sync_full)"
    using assms(1,8,10) by (simp add: syncCommand_def fresh_slave_def masterTryPartialResynchronization_def)
  have refused: "masterTryPartialResynchronization env c2 r (Some k) ?s1 = Some (?s1, c2, False)" if "\<not> psync_accepts s r k" for r k
    using that by (auto simp: masterTryPartialResynchronization_def psync_accepts_def)
  have "find (\<lambda>sl. sl_replstate sl = WAIT_BGSAVE_END) (xs @ [?d, x]) = Some ?d" if "\<forall>sl \<in> set xs. sl_replstate sl = ONLINE" for xs x
    using that by (induction xs) auto
  note f = this [OF assms(7)]
  have "\<exists>s2 d. full_resync env x ?s1 = Some s2 \<and> d \<in> set (slaves s2) \<and> sl_id d = sl_id c2 \<and> sl_replstate d = WAIT_BGSAVE_END \<and>
      sl_initial_offset d = master_repl_offset s2 \<and> sl_out d = not_an_integer"
    if x: "sl_id x = sl_id c2" "sl_capa x = sl_capa c2" for x
  proof -
    let ?x = "x\<lparr>sl_replstate := WAIT_BGSAVE_START\<rparr>"
    let ?s2 = "replicationSetupSlaveForFullResync env (sl_id x) (master_repl_offset s)
      (?s1\<lparr>slaves := map (\<lambda>d. if sl_id d = sl_id x then d\<lparr>sl_out := sl_out ?d\<rparr> else d) (slaves s @ [?d, ?x])\<rparr>)"
    have "full_resync env x ?s1 = Some ?s2" using f bl x assms(13) by (simp add: full_resync_def)
    moreover have "setup_slave env (replid s) (master_repl_offset s) (?x\<lparr>sl_out := not_an_integer\<rparr>) \<in> set (slaves ?s2)"
      by (simp add: replicationSetupSlaveForFullResync_def)
    ultimately show ?thesis using x(1) by (intro exI conjI) (assumption, assumption, simp_all add: replicationSetupSlaveForFullResync_def)
  qed
  note full = this
  have n2: "sl_id c2 \<notin> set (map sl_id (slaves ?s1))" using assms(11,12) by simp
  show ?thesis
  proof (cases args)
    case None
    from full [of "c2\<lparr>sl_pre_psync := True\<rparr>"] obtain s2 d where "full_resync env (c2\<lparr>sl_pre_psync := True\<rparr>) ?s1 = Some s2"
      and d: "d \<in> set (slaves s2)" "sl_id d = sl_id c2" "sl_replstate d = WAIT_BGSAVE_END" "sl_initial_offset d = master_repl_offset s2" "sl_out d = not_an_integer"
      by auto
    then have "syncCommand env c2 args ?s1 = Some (s2, Sync_full)" using None n2 assms(1,9) by (simp add: syncCommand_def fresh_slave_def)
    with 1 d show ?thesis by blast
  next
    case (Some a)
    then obtain r k where a: "args = Some (r, Some k)" "\<not> psync_accepts s r k" using assms(14) by (cases a; cases "snd a") auto
    from full [of c2] obtain s2 d where "full_resync env c2 ?s1 = Some s2"
      and d: "d \<in> set (slaves s2)" "sl_id d = sl_id c2" "sl_replstate d = WAIT_BGSAVE_END" "sl_initial_offset d = master_repl_offset s2" "sl_out d = not_an_integer"
      by auto
    then have "syncCommand env c2 args ?s1 = Some (s2, Sync_full)"
      using a n2 assms(1,9) refused [OF a(2)] by (simp add: syncCommand_def fresh_slave_def)
    with 1 d show ?thesis by blast
  qed
qed

theorem bad_psync_offset_leaks_witness:
  "\<exists>s1 s2 d. syncCommand demo_env (demo_slave 1) (Some ([63], None)) ((demo_master 4)\<lparr>repl_backlog := Some [1, 2, 3, 4], repl_backlog_off := 101\<rparr>) = Some (s1, Sync_full) \<and>
    syncCommand demo_env (demo_slave 2) (Some ([63], Some (-1))) s1 = Some (s2, Sync_full) \<and>
    d \<in> set (slaves s2) \<and> sl_id d = sl_id (demo_slave 2) \<and> sl_replstate d = WAIT_BGSAVE_END \<and> sl_initial_offset d = master_repl_offset s2 \<and>
    sl_out d = not_an_integer"
  by (rule bad_psync_offset_leaks) (simp_all add: demo_master_def demo_env_def demo_slave_def fresh_slave_def psync_accepts_def)

end
