(* ===== verification/Ziplist.thy ===== *)
theory Ziplist
  imports Util_Num Bytes
begin

unbundle bit_operations_syntax

section \<open>Compact lists: \<open>ziplist.c\<close>\<close>

text \<open>
  A ziplist is one block of memory: a header (32 bit total size, 32 bit offset of the last entry,
  16 bit number of entries), the entries, and a byte 255. An entry is the length of the entry
  before it, in 1 or in 5 bytes, an encoding with the length of the data, and the data; a string that is
  the decimal representation of an integer is stored as the integer. Pointers into the block are
  offsets from its start. Reading or writing outside of the block, a panic and a failed assertion are \<open>None\<close>.
  Sizes passed as \<open>unsigned int\<close> are truncated to 32 bits. Shifted bytes that are combined with
  a bitwise or have no common bits: the model adds them.
\<close>

definition ZIP_END :: u8 where "ZIP_END = 255"
definition ZIP_BIG_PREVLEN :: nat where "ZIP_BIG_PREVLEN = 254"
definition ZIP_STR_MASK :: u8 where "ZIP_STR_MASK = 0xc0"
definition ZIP_INT_16B :: u8 where "ZIP_INT_16B = 0xc0"
definition ZIP_INT_32B :: u8 where "ZIP_INT_32B = 0xd0"
definition ZIP_INT_64B :: u8 where "ZIP_INT_64B = 0xe0"
definition ZIP_INT_24B :: u8 where "ZIP_INT_24B = 0xf0"
definition ZIP_INT_8B :: u8 where "ZIP_INT_8B = 0xfe"
definition ZIP_INT_IMM_MIN :: u8 where "ZIP_INT_IMM_MIN = 0xf1"
definition ZIP_INT_IMM_MAX :: u8 where "ZIP_INT_IMM_MAX = 0xfd"
definition INT24_MAX :: int where "INT24_MAX = 0x7fffff"
definition INT24_MIN :: int where "INT24_MIN = - INT24_MAX - 1"
definition ZIPLIST_HEADER_SIZE :: nat where "ZIPLIST_HEADER_SIZE = 10"
definition UINT16_MAX :: nat where "UINT16_MAX = 65535"

lemmas zip_consts = ZIP_END_def ZIP_BIG_PREVLEN_def ZIP_STR_MASK_def ZIP_INT_16B_def ZIP_INT_32B_def ZIP_INT_64B_def
  ZIP_INT_24B_def ZIP_INT_8B_def ZIP_INT_IMM_MIN_def ZIP_INT_IMM_MAX_def

definition ZIP_IS_STR :: "u8 \<Rightarrow> bool" where
  "ZIP_IS_STR enc \<longleftrightarrow> enc AND ZIP_STR_MASK < ZIP_STR_MASK"

subsection \<open>Header fields\<close>

definition get_le :: "nat \<Rightarrow> bytes \<Rightarrow> nat \<Rightarrow> nat option" where
  "get_le n zl off = map_option le_nat (mem_read zl off n)"

definition set_le :: "nat \<Rightarrow> bytes \<Rightarrow> nat \<Rightarrow> int \<Rightarrow> bytes option" where
  "set_le n zl off v = mem_write zl off (le_encode n v)"

definition ZIPLIST_BYTES :: "bytes \<Rightarrow> nat option" where "ZIPLIST_BYTES zl = get_le 4 zl 0"
definition ZIPLIST_TAIL_OFFSET :: "bytes \<Rightarrow> nat option" where "ZIPLIST_TAIL_OFFSET zl = get_le 4 zl 4"
definition ZIPLIST_LENGTH :: "bytes \<Rightarrow> nat option" where "ZIPLIST_LENGTH zl = get_le 2 zl 8"

definition ZIPLIST_INCR_LENGTH :: "bytes \<Rightarrow> int \<Rightarrow> bytes option" where
  "ZIPLIST_INCR_LENGTH zl incr = do {
     n \<leftarrow> ZIPLIST_LENGTH zl;
     if n < UINT16_MAX then set_le 2 zl 8 (int n + incr) else Some zl
   }"

text \<open>\<open>ZIPLIST_TAIL_OFFSET(zl) += d\<close>\<close>

definition tail_add :: "bytes \<Rightarrow> int \<Rightarrow> bytes option" where
  "tail_add zl d = do { t \<leftarrow> ZIPLIST_TAIL_OFFSET zl; set_le 4 zl 4 (int t + d) }"

subsection \<open>Encodings\<close>

definition zipIntSize :: "u8 \<Rightarrow> nat option" where
  "zipIntSize encoding =
     (if encoding = ZIP_INT_8B then Some 1
      else if encoding = ZIP_INT_16B then Some 2
      else if encoding = ZIP_INT_24B then Some 3
      else if encoding = ZIP_INT_32B then Some 4
      else if encoding = ZIP_INT_64B then Some 8
      else if encoding \<ge> ZIP_INT_IMM_MIN \<and> encoding \<le> ZIP_INT_IMM_MAX then Some 0
      else None)"

text \<open>The bytes \<open>zipStoreEntryEncoding\<close> writes; their number is what it returns, also for \<open>p == NULL\<close>.\<close>

definition entry_encoding :: "u8 \<Rightarrow> nat \<Rightarrow> bytes" where
  "entry_encoding encoding rawlen =
     (if ZIP_IS_STR encoding then
        if rawlen \<le> 0x3f then [of_nat rawlen]
        else if rawlen \<le> 0x3fff then [0x40 OR (of_nat (rawlen div 2 ^ 8) AND 0x3f), of_nat rawlen]
        else [0x80, of_nat (rawlen div 2 ^ 24), of_nat (rawlen div 2 ^ 16), of_nat (rawlen div 2 ^ 8), of_nat rawlen]
      else [encoding])"

definition zipStoreEntryEncoding :: "bytes \<Rightarrow> nat \<Rightarrow> u8 \<Rightarrow> nat \<Rightarrow> (bytes \<times> nat) option" where
  "zipStoreEntryEncoding zl p encoding rawlen = do {
     zl \<leftarrow> mem_write zl p (entry_encoding encoding rawlen);
     Some (zl, length (entry_encoding encoding rawlen))
   }"

definition ZIP_DECODE_LENGTH :: "bytes \<Rightarrow> nat \<Rightarrow> (u8 \<times> nat \<times> nat) option" where
  "ZIP_DECODE_LENGTH zl p = do {
     b0 \<leftarrow> byte_at zl p;
     let encoding = (if b0 < ZIP_STR_MASK then b0 AND ZIP_STR_MASK else b0);
     if encoding < ZIP_STR_MASK then
       if encoding = 0 then Some (encoding, 1, unat (b0 AND 0x3f))
       else if encoding = 0x40 then do {
         b1 \<leftarrow> byte_at zl (p + 1);
         Some (encoding, 2, unat (b0 AND 0x3f) * 2 ^ 8 + unat b1)
       }
       else if encoding = 0x80 then do {
         b1 \<leftarrow> byte_at zl (p + 1);
         b2 \<leftarrow> byte_at zl (p + 2);
         b3 \<leftarrow> byte_at zl (p + 3);
         b4 \<leftarrow> byte_at zl (p + 4);
         Some (encoding, 5, unat b1 * 2 ^ 24 + unat b2 * 2 ^ 16 + unat b3 * 2 ^ 8 + unat b4)
       }
       else None
     else do { len \<leftarrow> zipIntSize encoding; Some (encoding, 1, len) }
   }"

definition prevlen_large :: "nat \<Rightarrow> bytes" where
  "prevlen_large len = 254 # le_encode 4 (int len)"

definition zipStorePrevEntryLengthLarge :: "bytes \<Rightarrow> nat \<Rightarrow> nat \<Rightarrow> bytes option" where
  "zipStorePrevEntryLengthLarge zl p len = mem_write zl p (prevlen_large len)"

definition zipStorePrevEntryLength :: "bytes \<Rightarrow> nat \<Rightarrow> nat \<Rightarrow> (bytes \<times> nat) option" where
  "zipStorePrevEntryLength zl p len =
     (if len < ZIP_BIG_PREVLEN then do { zl \<leftarrow> mem_write zl p [of_nat len]; Some (zl, 1) }
      else do { zl \<leftarrow> zipStorePrevEntryLengthLarge zl p len; Some (zl, 5) })"

text \<open>\<open>zipStorePrevEntryLength(NULL,len)\<close>\<close>

definition prevlen_need :: "nat \<Rightarrow> nat" where
  "prevlen_need len = (if len < ZIP_BIG_PREVLEN then 1 else 5)"

definition ZIP_DECODE_PREVLENSIZE :: "bytes \<Rightarrow> nat \<Rightarrow> nat option" where
  "ZIP_DECODE_PREVLENSIZE zl p = do { b \<leftarrow> byte_at zl p; Some (if unat b < ZIP_BIG_PREVLEN then 1 else 5) }"

definition ZIP_DECODE_PREVLEN :: "bytes \<Rightarrow> nat \<Rightarrow> (nat \<times> nat) option" where
  "ZIP_DECODE_PREVLEN zl p = do {
     prevlensize \<leftarrow> ZIP_DECODE_PREVLENSIZE zl p;
     if prevlensize = 1 then do { b \<leftarrow> byte_at zl p; Some (prevlensize, unat b) }
     else do { prevlen \<leftarrow> get_le 4 zl (p + 1); Some (prevlensize, prevlen) }
   }"

definition zipPrevLenByteDiff :: "bytes \<Rightarrow> nat \<Rightarrow> nat \<Rightarrow> int option" where
  "zipPrevLenByteDiff zl p len = do {
     prevlensize \<leftarrow> ZIP_DECODE_PREVLENSIZE zl p;
     Some (int (prevlen_need len) - int prevlensize)
   }"

definition zipRawEntryLength :: "bytes \<Rightarrow> nat \<Rightarrow> nat option" where
  "zipRawEntryLength zl p = do {
     prevlensize \<leftarrow> ZIP_DECODE_PREVLENSIZE zl p;
     (encoding, lensize, len) \<leftarrow> ZIP_DECODE_LENGTH zl (p + prevlensize);
     Some (prevlensize + lensize + len)
   }"

definition int_encoding :: "int \<Rightarrow> u8" where
  "int_encoding value =
     (if value \<ge> 0 \<and> value \<le> 12 then ZIP_INT_IMM_MIN + of_int value
      else if value \<ge> - 128 \<and> value \<le> 127 then ZIP_INT_8B
      else if value \<ge> - 32768 \<and> value \<le> 32767 then ZIP_INT_16B
      else if value \<ge> INT24_MIN \<and> value \<le> INT24_MAX then ZIP_INT_24B
      else if value \<ge> - 2147483648 \<and> value \<le> 2147483647 then ZIP_INT_32B
      else ZIP_INT_64B)"

definition zipTryEncoding :: "bytes \<Rightarrow> (int \<times> u8) option" where
  "zipTryEncoding entry =
     (if length entry \<ge> 32 \<or> length entry = 0 then None
      else case string2ll entry of
        Some value \<Rightarrow> Some (value, int_encoding value)
      | None \<Rightarrow> None)"

definition is_imm :: "u8 \<Rightarrow> bool" where
  "is_imm encoding \<longleftrightarrow> encoding \<ge> ZIP_INT_IMM_MIN \<and> encoding \<le> ZIP_INT_IMM_MAX"

text \<open>The bytes \<open>zipSaveInteger\<close> writes. 24 bits are the upper three bytes of the value shifted by 8.\<close>

definition zipSaveInteger :: "bytes \<Rightarrow> nat \<Rightarrow> int \<Rightarrow> u8 \<Rightarrow> bytes option" where
  "zipSaveInteger zl p value encoding =
     (if encoding = ZIP_INT_8B then mem_write zl p (le_encode 1 value)
      else if encoding = ZIP_INT_16B then mem_write zl p (le_encode 2 value)
      else if encoding = ZIP_INT_24B then mem_write zl p (drop 1 (le_encode 4 (value * 2 ^ 8)))
      else if encoding = ZIP_INT_32B then mem_write zl p (le_encode 4 value)
      else if encoding = ZIP_INT_64B then mem_write zl p (le_encode 8 value)
      else if is_imm encoding then Some zl
      else None)"

definition zipLoadInteger :: "bytes \<Rightarrow> nat \<Rightarrow> u8 \<Rightarrow> int option" where
  "zipLoadInteger zl p encoding =
     (if encoding = ZIP_INT_8B then map_option le_decode (mem_read zl p 1)
      else if encoding = ZIP_INT_16B then map_option le_decode (mem_read zl p 2)
      else if encoding = ZIP_INT_32B then map_option le_decode (mem_read zl p 4)
      else if encoding = ZIP_INT_24B then map_option (\<lambda>bs. le_decode (0 # bs) div 2 ^ 8) (mem_read zl p 3)
      else if encoding = ZIP_INT_64B then map_option le_decode (mem_read zl p 8)
      else if is_imm encoding then Some (int (unat (encoding AND 0x0f)) - 1)
      else None)"

record zlentry =
  prevrawlensize :: nat
  prevrawlen :: nat
  ze_lensize :: nat
  ze_len :: nat
  headersize :: nat
  ze_encoding :: u8
  ze_p :: nat

definition zipEntry :: "bytes \<Rightarrow> nat \<Rightarrow> zlentry option" where
  "zipEntry zl p = do {
     (prevlensize, prevlen) \<leftarrow> ZIP_DECODE_PREVLEN zl p;
     (enc, ls, l) \<leftarrow> ZIP_DECODE_LENGTH zl (p + prevlensize);
     Some \<lparr>prevrawlensize = prevlensize, prevrawlen = prevlen, ze_lensize = ls, ze_len = l,
       headersize = prevlensize + ls, ze_encoding = enc, ze_p = p\<rparr>
   }"

subsection \<open>The list\<close>

definition ziplistNew :: "(nat \<Rightarrow> u8) \<Rightarrow> bytes option" where
  "ziplistNew junk = do {
     let zl = map junk [0..<ZIPLIST_HEADER_SIZE + 1];
     zl \<leftarrow> set_le 4 zl 0 (int (ZIPLIST_HEADER_SIZE + 1));
     zl \<leftarrow> set_le 4 zl 4 (int ZIPLIST_HEADER_SIZE);
     zl \<leftarrow> set_le 2 zl 8 0;
     mem_write zl ZIPLIST_HEADER_SIZE [ZIP_END]
   }"

definition ziplistResize :: "(nat \<Rightarrow> u8) \<Rightarrow> bytes \<Rightarrow> int \<Rightarrow> bytes option" where
  "ziplistResize junk zl len = do {
     let len = nat (len mod 2 ^ 32);
     let zl = mem_realloc junk zl len;
     zl \<leftarrow> set_le 4 zl 0 (int len);
     if len = 0 then None else mem_write zl (len - 1) [ZIP_END]
   }"

text \<open>The loop of \<open>__ziplistCascadeUpdate\<close>.\<close>

partial_function (option) cascade_loop :: "(nat \<Rightarrow> u8) \<Rightarrow> bytes \<Rightarrow> nat \<Rightarrow> nat \<Rightarrow> bytes option" where
  "cascade_loop junk zl p curlen = do {
     b \<leftarrow> byte_at zl p;
     if b = ZIP_END then Some zl
     else do {
       cur \<leftarrow> zipEntry zl p;
       let rawlen = headersize cur + ze_len cur;
       let rawlensize = prevlen_need rawlen;
       b \<leftarrow> byte_at zl (p + rawlen);
       if b = ZIP_END then Some zl
       else do {
         nxt \<leftarrow> zipEntry zl (p + rawlen);
         if prevrawlen nxt = rawlen then Some zl
         else if prevrawlensize nxt < rawlensize then do {
           let extra = rawlensize - prevrawlensize nxt;
           zl \<leftarrow> ziplistResize junk zl (int (curlen + extra));
           let np = p + rawlen;
           t \<leftarrow> ZIPLIST_TAIL_OFFSET zl;
           zl \<leftarrow> (if t \<noteq> np then tail_add zl (int extra) else Some zl);
           zl \<leftarrow> memmove zl (np + rawlensize) (np + prevrawlensize nxt) (curlen - np - prevrawlensize nxt - 1);
           (zl, _) \<leftarrow> zipStorePrevEntryLength zl np rawlen;
           cascade_loop junk zl np (curlen + extra)
         }
         else if prevrawlensize nxt > rawlensize then zipStorePrevEntryLengthLarge zl (p + rawlen) rawlen
         else do { (zl, _) \<leftarrow> zipStorePrevEntryLength zl (p + rawlen) rawlen; Some zl }
       }
     }
   }"

declare cascade_loop.simps [code]

definition raw_ziplistCascadeUpdate :: "(nat \<Rightarrow> u8) \<Rightarrow> bytes \<Rightarrow> nat \<Rightarrow> bytes option" where
  "raw_ziplistCascadeUpdate junk zl p = do { curlen \<leftarrow> ZIPLIST_BYTES zl; cascade_loop junk zl p curlen }"

text \<open>\<open>for (i = 0; p[0] != ZIP_END && i < num; i++)\<close>: the end of the entries, and how many there are.\<close>

fun skip_entries :: "nat \<Rightarrow> bytes \<Rightarrow> nat \<Rightarrow> (nat \<times> nat) option" where
  "skip_entries 0 zl p = do { _ \<leftarrow> byte_at zl p; Some (p, 0) }"
| "skip_entries (Suc num) zl p = do {
     b \<leftarrow> byte_at zl p;
     if b = ZIP_END then Some (p, 0)
     else do {
       n \<leftarrow> zipRawEntryLength zl p;
       (q, deleted) \<leftarrow> skip_entries num zl (p + n);
       Some (q, deleted + 1)
     }
   }"

definition raw_ziplistDelete :: "(nat \<Rightarrow> u8) \<Rightarrow> bytes \<Rightarrow> nat \<Rightarrow> nat \<Rightarrow> bytes option" where
  "raw_ziplistDelete junk zl p num = do {
     first \<leftarrow> zipEntry zl p;
     (p, deleted) \<leftarrow> skip_entries num zl p;
     let totlen = p - ze_p first;
     if totlen > 0 then do {
       b \<leftarrow> byte_at zl p;
       (zl, nextdiff) \<leftarrow> (if b \<noteq> ZIP_END then do {
           nextdiff \<leftarrow> zipPrevLenByteDiff zl p (prevrawlen first);
           let p = nat (int p - nextdiff);
           (zl, _) \<leftarrow> zipStorePrevEntryLength zl p (prevrawlen first);
           zl \<leftarrow> tail_add zl (- int totlen);
           tail \<leftarrow> zipEntry zl p;
           b \<leftarrow> byte_at zl (p + headersize tail + ze_len tail);
           zl \<leftarrow> (if b \<noteq> ZIP_END then tail_add zl nextdiff else Some zl);
           n \<leftarrow> ZIPLIST_BYTES zl;
           zl \<leftarrow> memmove zl (ze_p first) p (n - p - 1);
           Some (zl, nextdiff)
         }
         else do { zl \<leftarrow> set_le 4 zl 4 (int (ze_p first) - int (prevrawlen first)); Some (zl, 0) });
       let offset = ze_p first;
       n \<leftarrow> ZIPLIST_BYTES zl;
       zl \<leftarrow> ziplistResize junk zl (int n - int totlen + nextdiff);
       zl \<leftarrow> ZIPLIST_INCR_LENGTH zl (- int deleted);
       if nextdiff \<noteq> 0 then raw_ziplistCascadeUpdate junk zl offset else Some zl
     }
     else Some zl
   }"

text \<open>The parts of \<open>__ziplistInsert\<close>: the length of the entry before the new one,\<close>

definition insert_prevlen :: "bytes \<Rightarrow> nat \<Rightarrow> nat option" where
  "insert_prevlen zl p = do {
     b \<leftarrow> byte_at zl p;
     if b \<noteq> ZIP_END then map_option snd (ZIP_DECODE_PREVLEN zl p)
     else do {
       ptail \<leftarrow> ZIPLIST_TAIL_OFFSET zl;
       b \<leftarrow> byte_at zl ptail;
       if b \<noteq> ZIP_END then zipRawEntryLength zl ptail else Some 0
     }
   }"

text \<open>moving the entries after it, with the length of the new entry in the first of them,\<close>

definition insert_move :: "bytes \<Rightarrow> nat \<Rightarrow> nat \<Rightarrow> nat \<Rightarrow> int \<Rightarrow> bool \<Rightarrow> bytes option" where
  "insert_move zl p curlen reqlen nextdiff forcelarge = do {
     zl \<leftarrow> memmove zl (p + reqlen) (nat (int p - nextdiff)) (nat (int curlen - int p - 1 + nextdiff));
     zl \<leftarrow> (if forcelarge then zipStorePrevEntryLengthLarge zl (p + reqlen) reqlen
           else map_option fst (zipStorePrevEntryLength zl (p + reqlen) reqlen));
     zl \<leftarrow> tail_add zl (int reqlen);
     tail \<leftarrow> zipEntry zl (p + reqlen);
     b \<leftarrow> byte_at zl (p + reqlen + (headersize tail + ze_len tail));
     if b \<noteq> ZIP_END then tail_add zl nextdiff else Some zl
   }"

text \<open>and writing it.\<close>

definition insert_write :: "bytes \<Rightarrow> nat \<Rightarrow> nat \<Rightarrow> bytes \<Rightarrow> bytes option" where
  "insert_write zl p prevlen s = do {
     let encoding = (case zipTryEncoding s of Some (_, e) \<Rightarrow> e | None \<Rightarrow> 0);
     (zl, n1) \<leftarrow> zipStorePrevEntryLength zl p prevlen;
     (zl, n2) \<leftarrow> zipStoreEntryEncoding zl (p + n1) encoding (length s);
     if ZIP_IS_STR encoding then mem_write zl (p + n1 + n2) s
     else case zipTryEncoding s of Some (value, _) \<Rightarrow> zipSaveInteger zl (p + n1 + n2) value encoding | None \<Rightarrow> None
   }"

definition raw_ziplistInsert :: "(nat \<Rightarrow> u8) \<Rightarrow> bytes \<Rightarrow> nat \<Rightarrow> bytes \<Rightarrow> bytes option" where
  "raw_ziplistInsert junk zl p s = do {
     curlen \<leftarrow> ZIPLIST_BYTES zl;
     b \<leftarrow> byte_at zl p;
     prevlen \<leftarrow> insert_prevlen zl p;
     reqlen \<leftarrow> (case zipTryEncoding s of Some (_, e) \<Rightarrow> zipIntSize e | None \<Rightarrow> Some (length s));
     let reqlen = reqlen + prevlen_need prevlen +
       length (entry_encoding (case zipTryEncoding s of Some (_, e) \<Rightarrow> e | None \<Rightarrow> 0) (length s));
     nextdiff \<leftarrow> (if b \<noteq> ZIP_END then zipPrevLenByteDiff zl p reqlen else Some 0);
     let forcelarge = (nextdiff = - 4 \<and> reqlen < 4);
     let nextdiff = (if forcelarge then 0 else nextdiff);
     zl \<leftarrow> ziplistResize junk zl (int (curlen + reqlen) + nextdiff);
     b \<leftarrow> byte_at zl p;
     zl \<leftarrow> (if b \<noteq> ZIP_END then insert_move zl p curlen reqlen nextdiff forcelarge else set_le 4 zl 4 (int p));
     zl \<leftarrow> (if nextdiff \<noteq> 0 then raw_ziplistCascadeUpdate junk zl (p + reqlen) else Some zl);
     zl \<leftarrow> insert_write zl p prevlen s;
     ZIPLIST_INCR_LENGTH zl 1
   }"

text \<open>Two lists, which are different objects; the result and whether the first one holds it.\<close>

definition ziplistMerge :: "(nat \<Rightarrow> u8) \<Rightarrow> bytes \<Rightarrow> bytes \<Rightarrow> (bytes \<times> bool) option" where
  "ziplistMerge junk first second = do {
     first_bytes \<leftarrow> ZIPLIST_BYTES first;
     first_len \<leftarrow> ZIPLIST_LENGTH first;
     second_bytes \<leftarrow> ZIPLIST_BYTES second;
     second_len \<leftarrow> ZIPLIST_LENGTH second;
     let append = (first_len \<ge> second_len);
     let (target, target_bytes, source, source_bytes) = (if append then (first, first_bytes, second, second_bytes)
       else (second, second_bytes, first, first_bytes));
     let zlbytes = first_bytes + second_bytes - ZIPLIST_HEADER_SIZE - 1;
     let zllength = first_len + second_len;
     let zllength = (if zllength < UINT16_MAX then zllength else UINT16_MAX);
     first_offset \<leftarrow> ZIPLIST_TAIL_OFFSET first;
     second_offset \<leftarrow> ZIPLIST_TAIL_OFFSET second;
     let target = mem_realloc junk target zlbytes;
     target \<leftarrow> (if append then do {
         bs \<leftarrow> mem_read source ZIPLIST_HEADER_SIZE (source_bytes - ZIPLIST_HEADER_SIZE);
         mem_write target (target_bytes - 1) bs
       }
       else do {
         target \<leftarrow> memmove target (source_bytes - 1) ZIPLIST_HEADER_SIZE (target_bytes - ZIPLIST_HEADER_SIZE);
         bs \<leftarrow> mem_read source 0 (source_bytes - 1);
         mem_write target 0 bs
       });
     target \<leftarrow> set_le 4 target 0 (int zlbytes);
     target \<leftarrow> set_le 2 target 8 (int zllength);
     target \<leftarrow> set_le 4 target 4 (int (first_bytes - 1) + (int second_offset - int ZIPLIST_HEADER_SIZE));
     target \<leftarrow> raw_ziplistCascadeUpdate junk target first_offset;
     Some (target, append)
   }"

datatype zip_where = ZIPLIST_HEAD | ZIPLIST_TAIL

definition ziplistPush :: "(nat \<Rightarrow> u8) \<Rightarrow> bytes \<Rightarrow> bytes \<Rightarrow> zip_where \<Rightarrow> bytes option" where
  "ziplistPush junk zl s wh = do {
     p \<leftarrow> (case wh of ZIPLIST_HEAD \<Rightarrow> Some ZIPLIST_HEADER_SIZE | ZIPLIST_TAIL \<Rightarrow> do { n \<leftarrow> ZIPLIST_BYTES zl; Some (n - 1) });
     raw_ziplistInsert junk zl p s
   }"

text \<open>The two loops of \<open>ziplistIndex\<close>; the index that is left is given back.\<close>

fun index_back :: "nat \<Rightarrow> bytes \<Rightarrow> nat \<Rightarrow> nat \<Rightarrow> (nat \<times> nat) option" where
  "index_back 0 zl p prevlen = Some (p, 0)"
| "index_back (Suc index) zl p prevlen =
     (if prevlen > 0 then
        if prevlen \<le> p then do {
          (_, prevlen') \<leftarrow> ZIP_DECODE_PREVLEN zl (p - prevlen);
          index_back index zl (p - prevlen) prevlen'
        }
        else None
      else Some (p, Suc index))"

fun index_forward :: "nat \<Rightarrow> bytes \<Rightarrow> nat \<Rightarrow> (nat \<times> nat) option" where
  "index_forward 0 zl p = do { _ \<leftarrow> byte_at zl p; Some (p, 0) }"
| "index_forward (Suc index) zl p = do {
     b \<leftarrow> byte_at zl p;
     if b = ZIP_END then Some (p, Suc index)
     else do { n \<leftarrow> zipRawEntryLength zl p; index_forward index zl (p + n) }
   }"

text \<open>
  The inner option is the pointer that is returned, \<open>None\<close> for \<open>NULL\<close>. The negation in \<open>index = (-index)-1\<close>
  overflows for the least \<open>int\<close> alone; wrapped around, the two steps give the largest \<open>int\<close>, the number
  below.
\<close>

definition ziplistIndex :: "bytes \<Rightarrow> int \<Rightarrow> nat option option" where
  "ziplistIndex zl index = do {
     (p, index) \<leftarrow> (if index < 0 then do {
         p \<leftarrow> ZIPLIST_TAIL_OFFSET zl;
         b \<leftarrow> byte_at zl p;
         if b \<noteq> ZIP_END then do {
           (_, prevlen) \<leftarrow> ZIP_DECODE_PREVLEN zl p;
           index_back (nat (- index - 1)) zl p prevlen
         }
         else Some (p, nat (- index - 1))
       }
       else index_forward (nat index) zl ZIPLIST_HEADER_SIZE);
     b \<leftarrow> byte_at zl p;
     Some (if b = ZIP_END \<or> index > 0 then None else Some p)
   }"

definition ziplistNext :: "bytes \<Rightarrow> nat \<Rightarrow> nat option option" where
  "ziplistNext zl p = do {
     b \<leftarrow> byte_at zl p;
     if b = ZIP_END then Some None
     else do {
       n \<leftarrow> zipRawEntryLength zl p;
       b \<leftarrow> byte_at zl (p + n);
       Some (if b = ZIP_END then None else Some (p + n))
     }
   }"

definition ziplistPrev :: "bytes \<Rightarrow> nat \<Rightarrow> nat option option" where
  "ziplistPrev zl p = do {
     b \<leftarrow> byte_at zl p;
     if b = ZIP_END then do {
       p \<leftarrow> ZIPLIST_TAIL_OFFSET zl;
       b \<leftarrow> byte_at zl p;
       Some (if b = ZIP_END then None else Some p)
     }
     else if p = ZIPLIST_HEADER_SIZE then Some None
     else do {
       (_, prevlen) \<leftarrow> ZIP_DECODE_PREVLEN zl p;
       if 0 < prevlen \<and> prevlen \<le> p then Some (Some (p - prevlen)) else None
     }
   }"

text \<open>What \<open>ziplistGet\<close> finds: nothing, a string or an integer.\<close>

datatype zip_value = Zip_str bytes | Zip_int int

definition ziplistGet :: "bytes \<Rightarrow> nat option \<Rightarrow> zip_value option option" where
  "ziplistGet zl p = (case p of None \<Rightarrow> Some None | Some p \<Rightarrow> do {
     b \<leftarrow> byte_at zl p;
     if b = ZIP_END then Some None
     else do {
       entry \<leftarrow> zipEntry zl p;
       if ZIP_IS_STR (ze_encoding entry) then do { str \<leftarrow> mem_read zl (p + headersize entry) (ze_len entry); Some (Some (Zip_str str)) }
       else do { v \<leftarrow> zipLoadInteger zl (p + headersize entry) (ze_encoding entry); Some (Some (Zip_int v)) }
     }
   })"

definition ziplistInsert :: "(nat \<Rightarrow> u8) \<Rightarrow> bytes \<Rightarrow> nat \<Rightarrow> bytes \<Rightarrow> bytes option" where
  "ziplistInsert junk zl p s = raw_ziplistInsert junk zl p s"

definition ziplistDelete :: "(nat \<Rightarrow> u8) \<Rightarrow> bytes \<Rightarrow> nat \<Rightarrow> (bytes \<times> nat) option" where
  "ziplistDelete junk zl p = do { zl \<leftarrow> raw_ziplistDelete junk zl p 1; Some (zl, p) }"

definition ziplistDeleteRange :: "(nat \<Rightarrow> u8) \<Rightarrow> bytes \<Rightarrow> int \<Rightarrow> nat \<Rightarrow> bytes option" where
  "ziplistDeleteRange junk zl index num = do {
     p \<leftarrow> ziplistIndex zl index;
     case p of None \<Rightarrow> Some zl | Some p \<Rightarrow> raw_ziplistDelete junk zl p num
   }"

definition ziplistCompare :: "bytes \<Rightarrow> nat \<Rightarrow> bytes \<Rightarrow> bool option" where
  "ziplistCompare zl p sstr = do {
     b \<leftarrow> byte_at zl p;
     if b = ZIP_END then Some False
     else do {
       entry \<leftarrow> zipEntry zl p;
       if ZIP_IS_STR (ze_encoding entry) then
         if ze_len entry = length sstr then do { str \<leftarrow> mem_read zl (p + headersize entry) (length sstr); Some (str = sstr) }
         else Some False
       else case zipTryEncoding sstr of
         Some (sval, _) \<Rightarrow> do { zval \<leftarrow> zipLoadInteger zl (p + headersize entry) (ze_encoding entry); Some (zval = sval) }
       | None \<Rightarrow> Some False
     }
   }"

text \<open>
  The loop of \<open>ziplistFind\<close>. The encoding of the searched value is computed once there, when the
  first integer entry is compared; the value is the same at every entry.
\<close>

partial_function (option) find_loop :: "bytes \<Rightarrow> nat \<Rightarrow> bytes \<Rightarrow> nat \<Rightarrow> nat \<Rightarrow> nat option option" where
  "find_loop zl p vstr skip skipcnt = do {
     b \<leftarrow> byte_at zl p;
     if b = ZIP_END then Some None
     else do {
       prevlensize \<leftarrow> ZIP_DECODE_PREVLENSIZE zl p;
       (encoding, lensize, len) \<leftarrow> ZIP_DECODE_LENGTH zl (p + prevlensize);
       let q = p + prevlensize + lensize;
       if skipcnt = 0 then do {
         found \<leftarrow> (if ZIP_IS_STR encoding then
             if len = length vstr then do { str \<leftarrow> mem_read zl q len; Some (str = vstr) } else Some False
           else case zipTryEncoding vstr of
             Some (vll, _) \<Rightarrow> do { ll \<leftarrow> zipLoadInteger zl q encoding; Some (ll = vll) }
           | None \<Rightarrow> Some False);
         if found then Some (Some p) else find_loop zl (q + len) vstr skip skip
       }
       else find_loop zl (q + len) vstr skip (skipcnt - 1)
     }
   }"

declare find_loop.simps [code]

definition ziplistFind :: "bytes \<Rightarrow> nat \<Rightarrow> bytes \<Rightarrow> nat \<Rightarrow> nat option option" where
  "ziplistFind zl p vstr skip = find_loop zl p vstr skip 0"

partial_function (option) len_loop :: "bytes \<Rightarrow> nat \<Rightarrow> nat \<Rightarrow> nat option" where
  "len_loop zl p n = do {
     b \<leftarrow> byte_at zl p;
     if b = ZIP_END then Some n
     else do { k \<leftarrow> zipRawEntryLength zl p; len_loop zl (p + k) (n + 1) }
   }"

declare len_loop.simps [code]

definition ziplistLen :: "bytes \<Rightarrow> (bytes \<times> nat) option" where
  "ziplistLen zl = do {
     n \<leftarrow> ZIPLIST_LENGTH zl;
     if n < UINT16_MAX then Some (zl, n)
     else do {
       n \<leftarrow> len_loop zl ZIPLIST_HEADER_SIZE 0;
       zl \<leftarrow> (if n < UINT16_MAX then set_le 2 zl 8 (int n) else Some zl);
       Some (zl, n)
     }
   }"

definition ziplistBlobLen :: "bytes \<Rightarrow> nat option" where
  "ziplistBlobLen zl = ZIPLIST_BYTES zl"

end
