(* ===== verification/Ziplist_Layout.thy ===== *)
theory Ziplist_Layout
  imports Ziplist
begin

unbundle bit_operations_syntax

text \<open>
  The layout of a ziplist as a function of its entries: for each one its string and whether the
  length of the entry before it takes 5 bytes. What the operations of \<open>ziplist.c\<close> read and write in a
  block with this layout.
\<close>

section \<open>Blocks of memory\<close>

lemma byte_at_app [simp]: "byte_at (A @ B) (length A + i) = byte_at B i"
  by (simp add: byte_at_def)

lemma byte_at_app0 [simp]: "byte_at (A @ B) (length A) = byte_at B 0"
  using byte_at_app [of A B 0] by simp

lemma block_byte_Cons [simp]: "byte_at (b # B) 0 = Some b" "byte_at (b # B) (Suc i) = byte_at B i"
  by (simp_all add: byte_at_def)

lemma mem_read_app: "mem_read (A @ B) (length A + i) n = mem_read B i n"
  by (simp add: mem_read_def)

lemma mem_read_pre: "n = length B \<Longrightarrow> mem_read (B @ C) 0 n = Some B"
  by (simp add: mem_read_def)

lemma mem_write_mid: "p = length A \<Longrightarrow> length B' = length B \<Longrightarrow> mem_write (A @ B @ C) p B' = Some (A @ B' @ C)"
  by (simp add: mem_write_def)

lemma get_le_app: "get_le n (A @ B) (length A + i) = get_le n B i"
  by (simp add: get_le_def mem_read_app)

lemma get_le_pre: "v < 256 ^ n \<Longrightarrow> get_le n (le_encode n (int v) @ C) 0 = Some v"
proof -
  assume "v < 256 ^ n"
  then have "int v < 256 ^ n" by (metis of_nat_less_iff of_nat_numeral of_nat_power)
  then have "int (le_nat (le_encode n (int v))) = int v" by (simp add: le_nat_encode)
  then show ?thesis by (simp add: get_le_def mem_read_pre)
qed

section \<open>Entries\<close>

definition int_bytes :: "int \<Rightarrow> u8 \<Rightarrow> bytes" where
  "int_bytes value encoding =
     (if encoding = ZIP_INT_8B then le_encode 1 value
      else if encoding = ZIP_INT_16B then le_encode 2 value
      else if encoding = ZIP_INT_24B then drop 1 (le_encode 4 (value * 2 ^ 8))
      else if encoding = ZIP_INT_32B then le_encode 4 value
      else if encoding = ZIP_INT_64B then le_encode 8 value
      else [])"

definition val_enc :: "bytes \<Rightarrow> bytes" where
  "val_enc s = (case zipTryEncoding s of Some (v, e) \<Rightarrow> e # int_bytes v e | None \<Rightarrow> entry_encoding 0 (length s) @ s)"

type_synonym zent = "bool \<times> bytes"

definition zfield :: "bool \<Rightarrow> nat \<Rightarrow> bytes" where
  "zfield big pl = (if big then prevlen_large pl else [of_nat pl])"

definition fsize :: "bool \<Rightarrow> nat" where "fsize big = (if big then 5 else 1)"

definition elen :: "zent \<Rightarrow> nat" where "elen e = fsize (fst e) + length (val_enc (snd e))"

definition zentry :: "nat \<Rightarrow> zent \<Rightarrow> bytes" where "zentry pl e = zfield (fst e) pl @ val_enc (snd e)"

fun layout :: "nat \<Rightarrow> zent list \<Rightarrow> bytes" where
  "layout pl [] = []"
| "layout pl (e # es) = zentry pl e @ layout (elen e) es"

definition ent_ok :: "nat \<Rightarrow> zent \<Rightarrow> bool" where
  "ent_ok pl e \<longleftrightarrow> (\<not> fst e \<longrightarrow> pl < 254) \<and> pl < 2 ^ 32 \<and> length (snd e) < 2 ^ 32"

fun fits :: "nat \<Rightarrow> zent list \<Rightarrow> bool" where
  "fits pl [] \<longleftrightarrow> True"
| "fits pl (e # es) \<longleftrightarrow> ent_ok pl e \<and> fits (elen e) es"

definition tot :: "zent list \<Rightarrow> nat" where "tot es = sum_list (map elen es)"

lemma tot_simps [simp]: "tot [] = 0" "tot (e # es) = elen e + tot es" "tot (xs @ ys) = tot xs + tot ys"
  by (simp_all add: tot_def)

lemma length_field [simp]: "length (zfield b pl) = fsize b"
  by (simp add: zfield_def fsize_def prevlen_large_def)

lemma length_entry [simp]: "length (zentry pl e) = elen e"
  by (simp add: zentry_def elen_def)

lemma length_layout [simp]: "length (layout pl es) = tot es"
  by (induction pl es rule: layout.induct) auto

definition last_len :: "nat \<Rightarrow> zent list \<Rightarrow> nat" where
  "last_len pl es = (if es = [] then pl else elen (last es))"

lemma last_len_simps [simp]: "last_len pl [] = pl" "last_len pl (e # es) = last_len (elen e) es"
  by (auto simp: last_len_def)

lemma layout_append: "layout pl (xs @ ys) = layout pl xs @ layout (last_len pl xs) ys"
  by (induction pl xs rule: layout.induct) auto

lemma fits_append: "fits pl (xs @ ys) \<longleftrightarrow> fits pl xs \<and> fits (last_len pl xs) ys"
  by (induction pl xs rule: fits.induct) auto

subsection \<open>Integers\<close>

lemma try_some: "zipTryEncoding s = Some (v, e) \<longleftrightarrow> length s < 32 \<and> - (2 ^ 63) \<le> v \<and> v < 2 ^ 63 \<and> s = decimal v \<and> e = int_encoding v"
  using string2ll_iff [of s v] dec_nat.simps [of "nat v"]
  by (auto simp: zipTryEncoding_def LLONG_MIN_def LLONG_MAX_def decimal_def split: option.splits)

lemma imm_range: "0 \<le> v \<Longrightarrow> v \<le> 12 \<Longrightarrow> v \<in> {0, 1, 2, 3, 4, 5, 6, 7, 8, 9, 10, 11, 12 :: int}"
  by (simp, presburger)

lemma int_encoding_cases [consumes 2, case_names imm b1 b2 b3 b4 b8]:
  assumes "- (2 ^ 63) \<le> v" "v < 2 ^ 63"
  obtains (imm) "0 \<le> v" "v \<le> 12" "int_encoding v = ZIP_INT_IMM_MIN + of_int v"
    | (b1) "v \<in> int_range 1" "int_encoding v = ZIP_INT_8B" | (b2) "v \<in> int_range 2" "int_encoding v = ZIP_INT_16B"
    | (b3) "v \<in> int_range 3" "int_encoding v = ZIP_INT_24B" | (b4) "v \<in> int_range 4" "int_encoding v = ZIP_INT_32B"
    | (b8) "v \<in> int_range 8" "int_encoding v = ZIP_INT_64B"
proof -
  consider "0 \<le> v \<and> v \<le> 12" | "\<not> (0 \<le> v \<and> v \<le> 12)" "- 128 \<le> v \<and> v \<le> 127"
    | "\<not> (0 \<le> v \<and> v \<le> 12)" "\<not> (- 128 \<le> v \<and> v \<le> 127)" "- 32768 \<le> v \<and> v \<le> 32767"
    | "\<not> (0 \<le> v \<and> v \<le> 12)" "\<not> (- 128 \<le> v \<and> v \<le> 127)" "\<not> (- 32768 \<le> v \<and> v \<le> 32767)" "INT24_MIN \<le> v \<and> v \<le> INT24_MAX"
    | "\<not> (0 \<le> v \<and> v \<le> 12)" "\<not> (- 128 \<le> v \<and> v \<le> 127)" "\<not> (- 32768 \<le> v \<and> v \<le> 32767)" "\<not> (INT24_MIN \<le> v \<and> v \<le> INT24_MAX)"
        "- 2147483648 \<le> v \<and> v \<le> 2147483647"
    | "\<not> (0 \<le> v \<and> v \<le> 12)" "\<not> (- 128 \<le> v \<and> v \<le> 127)" "\<not> (- 32768 \<le> v \<and> v \<le> 32767)" "\<not> (INT24_MIN \<le> v \<and> v \<le> INT24_MAX)"
        "\<not> (- 2147483648 \<le> v \<and> v \<le> 2147483647)" by blast
  then show ?thesis
  proof cases
    case 1
    then show ?thesis by (intro imm) (simp_all add: int_encoding_def)
  next
    case 2
    then show ?thesis by (intro b1) (auto simp: int_encoding_def int_range_def)
  next
    case 3
    then show ?thesis by (intro b2) (auto simp: int_encoding_def int_range_def)
  next
    case 4
    then show ?thesis by (intro b3) (auto simp: int_encoding_def int_range_def INT24_MIN_def INT24_MAX_def)
  next
    case 5
    then show ?thesis by (intro b4) (auto simp: int_encoding_def int_range_def)
  next
    case 6
    then show ?thesis using assms by (intro b8) (auto simp: int_encoding_def int_range_def)
  qed
qed

lemma imm_facts:
  assumes "0 \<le> v" "v \<le> 12"
  shows "is_imm (ZIP_INT_IMM_MIN + of_int v)" "unat ((ZIP_INT_IMM_MIN + of_int v) AND 0x0f) = nat v + 1"
    "ZIP_INT_IMM_MIN + of_int v \<notin> {ZIP_INT_8B, ZIP_INT_16B, ZIP_INT_24B, ZIP_INT_32B, ZIP_INT_64B}"
    "\<not> ZIP_INT_IMM_MIN + of_int v < ZIP_STR_MASK" "\<not> ZIP_IS_STR (ZIP_INT_IMM_MIN + of_int v)"
  using imm_range [OF assms] by (auto simp: is_imm_def zip_consts ZIP_IS_STR_def)

lemma int_encoding_facts:
  assumes "- (2 ^ 63) \<le> v" "v < 2 ^ 63"
  shows "\<not> int_encoding v < ZIP_STR_MASK" "\<not> ZIP_IS_STR (int_encoding v)"
    "zipIntSize (int_encoding v) = Some (length (int_bytes v (int_encoding v)))"
    "zipLoadInteger (int_bytes v (int_encoding v) @ X) 0 (int_encoding v) = Some v"
    "zipSaveInteger (A @ B @ C) (length A) v (int_encoding v) =
       (if length B = length (int_bytes v (int_encoding v)) then Some (A @ int_bytes v (int_encoding v) @ C) else zipSaveInteger (A @ B @ C) (length A) v (int_encoding v))"
proof -
  have d3: "le_decode (0 # drop (Suc 0) (le_encode 4 (v * 256))) div 256 = v" if "v \<in> int_range 3"
  proof -
    have "le_encode 4 (v * 256) = 0 # le_encode 3 v"
    proof -
      have "word_of_int (v * 256) = (0 :: u8)" by (simp only: word_of_int_eq_0_iff) simp
      moreover have four: "(4 :: nat) = Suc 3" by simp
      ultimately show ?thesis unfolding four le_encode_Suc by simp
    qed
    moreover have "v * 256 \<in> int_range 4" using that by (auto simp: int_range_def)
    ultimately show ?thesis using le_decode_encode [of "v * 256" 4] by simp
  qed
  show "\<not> int_encoding v < ZIP_STR_MASK" "\<not> ZIP_IS_STR (int_encoding v)"
    using assms by (cases rule: int_encoding_cases; simp add: imm_facts; simp add: zip_consts ZIP_IS_STR_def)+
  show "zipIntSize (int_encoding v) = Some (length (int_bytes v (int_encoding v)))"
    using assms
  proof (cases rule: int_encoding_cases)
    case imm
    then show ?thesis using imm_facts [OF imm(1,2)] by (simp add: zipIntSize_def int_bytes_def is_imm_def)
  qed (simp_all add: zipIntSize_def int_bytes_def zip_consts)
  show "zipLoadInteger (int_bytes v (int_encoding v) @ X) 0 (int_encoding v) = Some v"
    using assms
  proof (cases rule: int_encoding_cases)
    case imm
    then show ?thesis using imm_facts [OF imm(1,2)] by (simp add: zipLoadInteger_def)
  qed (simp_all add: zipLoadInteger_def int_bytes_def zip_consts mem_read_pre le_decode_encode d3)
  show "zipSaveInteger (A @ B @ C) (length A) v (int_encoding v) =
       (if length B = length (int_bytes v (int_encoding v)) then Some (A @ int_bytes v (int_encoding v) @ C) else zipSaveInteger (A @ B @ C) (length A) v (int_encoding v))"
    using assms
  proof (cases rule: int_encoding_cases)
    case imm
    then show ?thesis using imm_facts [OF imm(1,2)] by (simp add: zipSaveInteger_def int_bytes_def)
  qed (simp_all add: zipSaveInteger_def int_bytes_def zip_consts mem_write_mid)
qed

subsection \<open>Reading entries\<close>

lemma ZIP_DECODE_LENGTH_app: "ZIP_DECODE_LENGTH (A @ B) (length A + i) = ZIP_DECODE_LENGTH B i"
  by (simp only: ZIP_DECODE_LENGTH_def add.assoc byte_at_app)

lemma ZIP_DECODE_PREVLENSIZE_app: "ZIP_DECODE_PREVLENSIZE (A @ B) (length A + i) = ZIP_DECODE_PREVLENSIZE B i"
  by (simp only: ZIP_DECODE_PREVLENSIZE_def byte_at_app)

lemma ZIP_DECODE_PREVLEN_app: "ZIP_DECODE_PREVLEN (A @ B) (length A + i) = ZIP_DECODE_PREVLEN B i"
  by (simp only: ZIP_DECODE_PREVLEN_def ZIP_DECODE_PREVLENSIZE_app byte_at_app get_le_app add.assoc)

lemma str_hdr_06: "n \<le> 0x3f \<Longrightarrow> (of_nat n :: u8) AND ZIP_STR_MASK = 0 \<and> (of_nat n :: u8) < ZIP_STR_MASK \<and> unat ((of_nat n :: u8) AND 0x3f) = n"
proof -
  assume n: "n \<le> 0x3f"
  then have b: "take_bit 6 n = n" by (simp add: take_bit_nat_eq_self)
  have m: "(0x3f :: u8) = mask 6" by (simp add: mask_eq_exp_minus_1)
  have "(of_nat n :: u8) AND 0x3f = of_nat n"
    unfolding m by (metis b of_nat_take_bit take_bit_eq_mask)
  moreover have "(of_nat n :: u8) AND ZIP_STR_MASK = ((of_nat n :: u8) AND 0x3f) AND ZIP_STR_MASK" using calculation by simp
  moreover have "\<dots> = of_nat n AND ((0x3f :: u8) AND ZIP_STR_MASK)" by (simp only: and.assoc)
  moreover have "(0x3f :: u8) AND ZIP_STR_MASK = 0" by (simp add: ZIP_STR_MASK_def)
  moreover have "unat (of_nat n :: u8) = n" using n by (simp add: unat_of_nat)
  ultimately show ?thesis using n by (simp add: ZIP_STR_MASK_def word_less_nat_alt)
qed

lemma str_hdr_14:
  assumes "n \<le> 0x3f"
  defines "b \<equiv> (0x40 :: u8) OR (of_nat n AND 0x3f)"
  shows "b AND ZIP_STR_MASK = 0x40 \<and> b < ZIP_STR_MASK \<and> unat (b AND 0x3f) = n"
proof -
  note h = str_hdr_06 [OF assms(1)]
  have un: "unat (of_nat n :: u8) = n" using assms by (simp add: unat_of_nat)
  have x: "(of_nat n :: u8) AND 0x3f = of_nat n" using h un by (metis unsigned_word_eqI)
  have b: "b = 0x40 OR of_nat n" by (simp add: b_def x)
  have "b AND ZIP_STR_MASK = (0x40 AND ZIP_STR_MASK) OR (of_nat n AND ZIP_STR_MASK)" unfolding b by (simp only: bit.conj_disj_distrib2)
  then have 1: "b AND ZIP_STR_MASK = 0x40" using h by (simp add: ZIP_STR_MASK_def)
  have "b AND 0x3f = (0x40 AND 0x3f) OR (of_nat n AND 0x3f)" unfolding b by (simp only: bit.conj_disj_distrib2)
  then have 2: "unat (b AND 0x3f) = n" using x un by simp
  have "(0x40 :: u8) AND of_nat n = 0x40 AND ((of_nat n) AND 0x3f)" by (simp add: x)
  also have "\<dots> = of_nat n AND (0x40 AND 0x3f)" by (simp only: ac_simps)
  finally have "(0x40 :: u8) AND of_nat n = 0" by simp
  then have "b = 0x40 + of_nat n" using word_plus_and_or [of "0x40 :: u8" "of_nat n"] by (simp add: b)
  then have "unat b \<le> 0x40 + n" using un unat_word_ariths(1) [of "0x40 :: u8" "of_nat n"] by simp
  then show ?thesis using 1 2 assms(1) by (simp add: ZIP_STR_MASK_def word_less_nat_alt)
qed

lemma unat_len_u8: "unat (of_nat n :: u8) = n mod 256"
  by (simp add: unat_of_nat)

lemma digits_256:
  assumes "n < 2 ^ 32"
  shows "n div 2 ^ 24 mod 256 * 2 ^ 24 + n div 2 ^ 16 mod 256 * 2 ^ 16 + n div 2 ^ 8 mod 256 * 2 ^ 8 + n mod 256 = (n :: nat)"
proof -
  define q1 q2 q3 where "q1 = n div 256" and "q2 = q1 div 256" and "q3 = q2 div 256"
  have q: "n div 2 ^ 8 = q1" "n div 2 ^ 16 = q2" "n div 2 ^ 24 = q3"
    using div_mult2_eq [of n 256 256] div_mult2_eq [of n "256 * 256" 256] by (simp_all add: q1_def q2_def q3_def)
  have r: "n = q1 * 256 + n mod 256" "q1 = q2 * 256 + q1 mod 256" "q2 = q3 * 256 + q2 mod 256" "q3 mod 256 = q3"
    using assms q(3) by (simp_all add: q1_def q2_def q3_def)
  show ?thesis unfolding q r(4) using r(1-3) by simp
qed

lemma byte_at_five:
  "byte_at (b0 # b1 # b2 # b3 # b4 # X) (0 + 1) = Some b1" "byte_at (b0 # b1 # b2 # b3 # b4 # X) (0 + 2) = Some b2"
  "byte_at (b0 # b1 # b2 # b3 # b4 # X) (0 + 3) = Some b3" "byte_at (b0 # b1 # b2 # b3 # b4 # X) (0 + 4) = Some b4"
  by (simp_all add: byte_at_def eval_nat_numeral)

lemma decode_str:
  assumes "length s < 2 ^ 32"
  shows "\<exists>e. ZIP_DECODE_LENGTH (entry_encoding 0 (length s) @ X) 0 = Some (e, length (entry_encoding 0 (length s)), length s) \<and> ZIP_IS_STR e"
proof -
  let ?n = "length s"
  have z: "ZIP_IS_STR 0" "ZIP_IS_STR 0x40" "ZIP_IS_STR 0x80" by (simp_all add: ZIP_IS_STR_def ZIP_STR_MASK_def)
  consider "?n \<le> 0x3f" | "\<not> ?n \<le> 0x3f" "?n \<le> 0x3fff" | "\<not> ?n \<le> 0x3fff" by blast
  then show ?thesis
  proof cases
    case 1
    then have e: "entry_encoding 0 ?n = [of_nat ?n]" using z by (simp add: entry_encoding_def)
    show ?thesis unfolding e using str_hdr_06 [OF 1] z by (simp add: ZIP_DECODE_LENGTH_def ZIP_STR_MASK_def)
  next
    case 2
    then have e: "entry_encoding 0 ?n = [0x40 OR (of_nat (?n div 2 ^ 8) AND 0x3f), of_nat ?n]" using z by (simp add: entry_encoding_def)
    have "?n div 2 ^ 8 \<le> 0x3f" using 2 by simp
    note h = str_hdr_14 [OF this]
    define b where "b = (0x40 :: u8) OR (of_nat (?n div 2 ^ 8) AND 0x3f)"
    have b: "b AND ZIP_STR_MASK = 0x40" "b < ZIP_STR_MASK" "unat (b AND 0x3f) = ?n div 2 ^ 8" using h by (simp_all add: b_def)
    have "?n div 2 ^ 8 * 2 ^ 8 + unat (of_nat ?n :: u8) = ?n" unfolding unat_len_u8 by simp
    then have "ZIP_DECODE_LENGTH ([b, of_nat ?n] @ X) 0 = Some (0x40, 2, ?n)"
      using b by (simp add: ZIP_DECODE_LENGTH_def Let_def ZIP_STR_MASK_def)
    then show ?thesis unfolding e b_def [symmetric] using z by simp
  next
    case 3
    then have e: "entry_encoding 0 ?n = [0x80, of_nat (?n div 2 ^ 24), of_nat (?n div 2 ^ 16), of_nat (?n div 2 ^ 8), of_nat ?n]"
      using z by (simp add: entry_encoding_def)
    define b1 b2 b3 b4 where "b1 = (of_nat (?n div 2 ^ 24) :: u8)" and "b2 = (of_nat (?n div 2 ^ 16) :: u8)"
      and "b3 = (of_nat (?n div 2 ^ 8) :: u8)" and "b4 = (of_nat ?n :: u8)"
    have sum: "unat b1 * 2 ^ 24 + unat b2 * 2 ^ 16 + unat b3 * 2 ^ 8 + unat b4 = ?n"
      unfolding b1_def b2_def b3_def b4_def unat_len_u8 by (rule digits_256 [OF assms])
    have m: "(0x80 :: u8) < ZIP_STR_MASK" "(0x80 :: u8) AND ZIP_STR_MASK = 0x80" by (simp_all add: ZIP_STR_MASK_def)
    have "ZIP_DECODE_LENGTH (0x80 # b1 # b2 # b3 # b4 # X) 0 = Some (0x80, 5, ?n)"
      unfolding ZIP_DECODE_LENGTH_def byte_at_five block_byte_Cons bind.bind_lunit Let_def m(2) if_P [OF m(1)] sum by simp
    then have "ZIP_DECODE_LENGTH (entry_encoding 0 ?n @ X) 0 = Some (0x80, 5, ?n)"
      unfolding e b1_def b2_def b3_def b4_def by simp
    then show ?thesis unfolding e using z by simp
  qed
qed

lemma decode_val:
  assumes "length s < 2 ^ 32"
  shows "\<exists>e ls l. ZIP_DECODE_LENGTH (val_enc s @ X) 0 = Some (e, ls, l) \<and> ls + l = length (val_enc s) \<and>
    (case zipTryEncoding s of
       Some (v, e') \<Rightarrow> e = e' \<and> ls = 1 \<and> \<not> ZIP_IS_STR e
     | None \<Rightarrow> ZIP_IS_STR e \<and> l = length s \<and> val_enc s = entry_encoding 0 (length s) @ s \<and> ls = length (entry_encoding 0 (length s)))"
proof (cases "zipTryEncoding s")
  case None
  then have v: "val_enc s = entry_encoding 0 (length s) @ s" by (simp add: val_enc_def)
  from decode_str [OF assms, of "s @ X"] obtain e where
    "ZIP_DECODE_LENGTH (entry_encoding 0 (length s) @ s @ X) 0 = Some (e, length (entry_encoding 0 (length s)), length s)" "ZIP_IS_STR e" by blast
  then show ?thesis using None v by simp
next
  case (Some a)
  then obtain v e where a: "zipTryEncoding s = Some (v, e)" by (cases a) auto
  then have r: "- (2 ^ 63) \<le> v" "v < 2 ^ 63" "e = int_encoding v" by (simp_all add: try_some)
  note f = int_encoding_facts [OF r(1,2)]
  have "ZIP_DECODE_LENGTH ((e # int_bytes v e) @ X) 0 = Some (e, 1, length (int_bytes v e))"
    using f(1-3) by (simp add: ZIP_DECODE_LENGTH_def Let_def r(3))
  then show ?thesis using a f(2) by (simp add: val_enc_def r(3))
qed

lemma decode_field:
  assumes "ent_ok pl (b, s)"
  shows "ZIP_DECODE_PREVLENSIZE (zfield b pl @ X) 0 = Some (fsize b)" "ZIP_DECODE_PREVLEN (zfield b pl @ X) 0 = Some (fsize b, pl)"
proof -
  have s: "\<not> b \<Longrightarrow> unat (of_nat pl :: u8) = pl" "\<not> b \<Longrightarrow> pl < 254" "pl < 256 ^ 4" using assms by (auto simp: ent_ok_def unat_of_nat)
  show p: "ZIP_DECODE_PREVLENSIZE (zfield b pl @ X) 0 = Some (fsize b)"
    using s by (auto simp: ZIP_DECODE_PREVLENSIZE_def zfield_def fsize_def prevlen_large_def ZIP_BIG_PREVLEN_def)
  show "ZIP_DECODE_PREVLEN (zfield b pl @ X) 0 = Some (fsize b, pl)"
  proof (cases b)
    case True
    have "get_le 4 (254 # le_encode 4 (int pl) @ X) 1 = Some pl"
      using get_le_app [of 4 "[254]" "le_encode 4 (int pl) @ X" 0] get_le_pre [OF s(3)] by simp
    then show ?thesis using p True by (simp add: ZIP_DECODE_PREVLEN_def zfield_def fsize_def prevlen_large_def)
  next
    case False
    then show ?thesis using p s by (simp add: ZIP_DECODE_PREVLEN_def zfield_def fsize_def)
  qed
qed

lemma zipEntry_at:
  assumes "zl = A @ zentry pl e @ X" "p = length A" "ent_ok pl e"
  shows "\<exists>ze. zipEntry zl p = Some ze \<and> prevrawlensize ze = fsize (fst e) \<and> prevrawlen ze = pl \<and> headersize ze + ze_len ze = elen e \<and> ze_p ze = p"
proof -
  obtain b s where e: "e = (b, s)" by (cases e)
  have ok: "ent_ok pl (b, s)" "length s < 2 ^ 32" using assms(3) by (auto simp: e ent_ok_def)
  from decode_val [OF ok(2), of X] obtain enc ls l where
    d: "ZIP_DECODE_LENGTH (val_enc s @ X) 0 = Some (enc, ls, l)" "ls + l = length (val_enc s)" by blast
  have zl: "zl = A @ zfield b pl @ val_enc s @ X" by (simp add: assms(1) e zentry_def)
  have 1: "ZIP_DECODE_PREVLEN zl p = Some (fsize b, pl)"
    using ZIP_DECODE_PREVLEN_app [of A _ 0] decode_field(2) [OF ok(1)] by (simp add: zl assms(2))
  have "ZIP_DECODE_LENGTH (A @ zfield b pl @ val_enc s @ X) (length A + fsize b) = ZIP_DECODE_LENGTH (val_enc s @ X) 0"
    using ZIP_DECODE_LENGTH_app [of "A @ zfield b pl" "val_enc s @ X" 0] by simp
  then have 2: "ZIP_DECODE_LENGTH zl (p + fsize b) = Some (enc, ls, l)" using d(1) by (simp add: zl assms(2))
  show ?thesis using 1 2 d(2) by (simp add: zipEntry_def e elen_def)
qed

lemma zipRaw_at:
  assumes "zl = A @ zentry pl e @ X" "p = length A" "ent_ok pl e"
  shows "zipRawEntryLength zl p = Some (elen e)"
proof -
  from zipEntry_at [OF assms] obtain ze where ze: "zipEntry zl p = Some ze" "headersize ze + ze_len ze = elen e" by blast
  have s: "ZIP_DECODE_PREVLEN zl p = ZIP_DECODE_PREVLENSIZE zl p \<bind> (\<lambda>ps. (if ps = 1 then byte_at zl p \<bind> (\<lambda>b. Some (ps, unat b)) else get_le 4 zl (p + 1) \<bind> (\<lambda>pl. Some (ps, pl))))"
    by (simp add: ZIP_DECODE_PREVLEN_def)
  show ?thesis using ze unfolding zipEntry_def s zipRawEntryLength_def
    by (auto split: bind_splits if_splits prod.splits)
qed

lemma prevlen_at:
  assumes "zl = A @ zentry pl e @ X" "p = length A" "ent_ok pl e"
  shows "ZIP_DECODE_PREVLEN zl p = Some (fsize (fst e), pl)" "ZIP_DECODE_PREVLENSIZE zl p = Some (fsize (fst e))"
    "\<exists>b. byte_at zl p = Some b \<and> b \<noteq> ZIP_END"
proof -
  obtain b s where e: "e = (b, s)" by (cases e)
  have ok: "ent_ok pl (b, s)" using assms(3) by (simp add: e)
  have zl: "zl = A @ zfield b pl @ val_enc s @ X" by (simp add: assms(1) e zentry_def)
  show "ZIP_DECODE_PREVLEN zl p = Some (fsize (fst e), pl)" "ZIP_DECODE_PREVLENSIZE zl p = Some (fsize (fst e))"
    using ZIP_DECODE_PREVLEN_app [of A _ 0] ZIP_DECODE_PREVLENSIZE_app [of A _ 0] decode_field [OF ok] by (simp_all add: zl assms(2) e)
  have "(of_nat pl :: u8) \<noteq> 255" if "\<not> b"
  proof
    assume "(of_nat pl :: u8) = 255"
    then have "unat (of_nat pl :: u8) = 255" by simp
    then show False using ok that by (simp add: ent_ok_def unat_of_nat)
  qed
  then show "\<exists>b. byte_at zl p = Some b \<and> b \<noteq> ZIP_END" by (auto simp: zl assms(2) zfield_def prevlen_large_def ZIP_END_def)
qed

text \<open>A layout starts with its first entry, or with the end of the list.\<close>

lemma layout_first:
  assumes "zl = A @ layout pl es @ ZIP_END # X" "p = length A" "fits pl es"
  shows "byte_at zl p = Some ZIP_END \<longleftrightarrow> es = []" "\<exists>b. byte_at zl p = Some b"
proof -
  have "byte_at zl p = Some ZIP_END" if "es = []" using assms that by simp
  moreover have "\<exists>b. byte_at zl p = Some b \<and> b \<noteq> ZIP_END" if "es \<noteq> []"
  proof -
    from that obtain e es' where es: "es = e # es'" by (cases es) auto
    show ?thesis using prevlen_at(3) [of zl A pl e "layout (elen e) es' @ ZIP_END # X" p] assms es by simp
  qed
  ultimately show "byte_at zl p = Some ZIP_END \<longleftrightarrow> es = []" "\<exists>b. byte_at zl p = Some b" by (cases "es = []"; force)+
qed

section \<open>The header\<close>

definition zhdr :: "nat \<Rightarrow> nat \<Rightarrow> nat \<Rightarrow> bytes" where
  "zhdr t l c = le_encode 4 (int t) @ le_encode 4 (int l) @ le_encode 2 (int c)"

lemma length_zhdr [simp]: "length (zhdr t l c) = 10"
  by (simp add: zhdr_def)

lemma zhdr_get:
  assumes "zl = zhdr t l c @ X"
  shows "t < 2 ^ 32 \<Longrightarrow> ZIPLIST_BYTES zl = Some t" "l < 2 ^ 32 \<Longrightarrow> ZIPLIST_TAIL_OFFSET zl = Some l" "c < 2 ^ 16 \<Longrightarrow> ZIPLIST_LENGTH zl = Some c"
proof -
  show "ZIPLIST_BYTES zl = Some t" if "t < 2 ^ 32"
    using that get_le_pre [of t 4] by (simp add: ZIPLIST_BYTES_def assms zhdr_def)
  show "ZIPLIST_TAIL_OFFSET zl = Some l" if "l < 2 ^ 32"
    using that get_le_pre [of l 4] get_le_app [of 4 "le_encode 4 (int t)" _ 0] by (simp add: ZIPLIST_TAIL_OFFSET_def assms zhdr_def)
  show "ZIPLIST_LENGTH zl = Some c" if "c < 2 ^ 16"
    using that get_le_pre [of c 2] get_le_app [of 2 "le_encode 4 (int t) @ le_encode 4 (int l)" _ 0] by (simp add: ZIPLIST_LENGTH_def assms zhdr_def)
qed

lemma zhdr_set:
  assumes "zl = zhdr t l c @ X"
  shows "set_le 4 zl 0 (int v) = Some (zhdr v l c @ X)" "set_le 4 zl 4 (int v) = Some (zhdr t v c @ X)" "set_le 2 zl 8 (int v) = Some (zhdr t l v @ X)"
  using mem_write_mid [of 0 "[]" "le_encode 4 (int v)" "le_encode 4 (int t)"]
    mem_write_mid [of 4 "le_encode 4 (int t)" "le_encode 4 (int v)" "le_encode 4 (int l)"]
    mem_write_mid [of 8 "le_encode 4 (int t) @ le_encode 4 (int l)" "le_encode 2 (int v)" "le_encode 2 (int c)"]
  by (simp_all add: set_le_def assms zhdr_def)

lemma tail_add_at:
  assumes "zl = zhdr t l c @ X" "l < 2 ^ 32" "int l + d = int l'"
  shows "tail_add zl d = Some (zhdr t l' c @ X)"
  using zhdr_get(2) [OF assms(1,2)] zhdr_set(2) [OF assms(1), of l'] assms(3) by (simp add: tail_add_def)

lemma incr_at:
  assumes "zl = zhdr t l c @ X" "c < 2 ^ 16" "c < 65535 \<Longrightarrow> int c + d = int c'"
  shows "ZIPLIST_INCR_LENGTH zl d = Some (zhdr t l (if c < 65535 then c' else c) @ X)"
  using zhdr_get(3) [OF assms(1,2)] zhdr_set(3) [OF assms(1), of c'] assms by (simp add: ZIPLIST_INCR_LENGTH_def UINT16_MAX_def)

lemma zl_resize_grow:
  assumes "zl = zhdr t l c @ B @ [ZIP_END]" "n = 11 + length B + extra" "n < 2 ^ 32"
  shows "\<exists>J. length J = extra \<and> (0 < extra \<longrightarrow> hd J = ZIP_END) \<and> ziplistResize junk zl (int n) = Some (zhdr n l c @ B @ J @ [ZIP_END])"
proof -
  define J where "J = take extra (ZIP_END # map junk [length zl..<n])"
  define j where "j = drop extra (ZIP_END # map junk [length zl..<n])"
  have lz: "length zl = 11 + length B" using assms(1) by simp
  have J: "length J = extra" "0 < extra \<longrightarrow> hd J = ZIP_END" using lz assms(2) by (auto simp: J_def take_Cons')
  have j: "length j = 1" using lz assms(2) by (simp add: j_def)
  have "mem_realloc junk zl n = zl @ map junk [length zl..<n]" using lz assms(2) by (simp add: mem_realloc_def)
  also have "\<dots> = zhdr t l c @ B @ J @ j" using assms(1) by (simp add: J_def j_def)
  finally have 1: "mem_realloc junk zl n = zhdr t l c @ B @ J @ j" .
  have nn: "nat (int n mod 2 ^ 32) = n" using assms(3) by simp
  have "mem_write ((zhdr n l c @ B @ J) @ j @ []) (n - 1) [ZIP_END] = Some ((zhdr n l c @ B @ J) @ [ZIP_END] @ [])"
    using J j assms(2) by (intro mem_write_mid) simp_all
  then have "ziplistResize junk zl (int n) = Some (zhdr n l c @ B @ J @ [ZIP_END])"
    unfolding ziplistResize_def nn Let_def 1 zhdr_set(1) [OF refl] bind.bind_lunit using assms(2) by simp
  then show ?thesis using J by blast
qed

lemma resize_shrink:
  assumes "zl = zhdr t l c @ B @ C" "n = 11 + length B" "C \<noteq> []" "n < 2 ^ 32"
  shows "ziplistResize junk zl (int n) = Some (zhdr n l c @ B @ [ZIP_END])"
proof -
  obtain x C' where C: "C = x # C'" using assms(3) by (cases C) auto
  have 1: "mem_realloc junk zl n = zhdr t l c @ B @ [x]" using assms(1,2) C by (simp add: mem_realloc_def)
  have nn: "nat (int n mod 2 ^ 32) = n" using assms(4) by simp
  have "mem_write ((zhdr n l c @ B) @ [x] @ []) (n - 1) [ZIP_END] = Some ((zhdr n l c @ B) @ [ZIP_END] @ [])"
    using assms(2) by (intro mem_write_mid) simp_all
  then show ?thesis unfolding ziplistResize_def nn Let_def 1 zhdr_set(1) [OF refl] bind.bind_lunit using assms(2) by simp
qed

lemma memmove_at:
  assumes "zl = A @ B @ C" "src = length A" "n = length B" "zl = A' @ B' @ C'" "dst = length A'" "length B' = n"
  shows "memmove zl dst src n = Some (A' @ B @ C')"
proof -
  have "mem_read zl src n = Some B" using mem_read_app [of A "B @ C" 0 n] mem_read_pre [of n B C] assms(1-3) by simp
  moreover have "mem_write zl dst B = Some (A' @ B @ C')" unfolding assms(4) using assms(3,5,6) by (intro mem_write_mid) simp_all
  ultimately show ?thesis by (simp add: memmove_def)
qed

lemma store_prevlen:
  assumes "zl = A @ B @ C" "p = length A" "length B = prevlen_need len"
  shows "zipStorePrevEntryLength zl p len = Some (A @ zfield (254 \<le> len) len @ C, prevlen_need len)"
  using assms mem_write_mid [of p A "[of_nat len]" B C] mem_write_mid [of p A "prevlen_large len" B C]
  by (auto simp: zipStorePrevEntryLength_def zipStorePrevEntryLengthLarge_def prevlen_need_def ZIP_BIG_PREVLEN_def zfield_def prevlen_large_def)

lemma store_large:
  assumes "zl = A @ B @ C" "p = length A" "length B = 5"
  shows "zipStorePrevEntryLengthLarge zl p len = Some (A @ zfield True len @ C)"
  using assms mem_write_mid [of p A "prevlen_large len" B C] by (simp add: zipStorePrevEntryLengthLarge_def zfield_def prevlen_large_def)

end
