(* ===== verification/Ziplist_Update.thy ===== *)
theory Ziplist_Update
  imports Ziplist_Layout
begin

text \<open>
  The effect of the cascade of updates, of insertion, deletion and merging on the entries of a ziplist.
\<close>

section \<open>The cascade\<close>

text \<open>\<open>L\<close> is the length of the zentry before, \<open>pl\<close> the length the first zentry has stored for it.\<close>

fun casc :: "nat \<Rightarrow> nat \<Rightarrow> zent list \<Rightarrow> zent list" where
  "casc L pl [] = []"
| "casc L pl ((b, s) # es) =
     (if pl \<noteq> L \<and> \<not> b \<and> 254 \<le> L then (True, s) # casc (elen (True, s)) (elen (b, s)) es else (b, s) # es)"

definition tailoff :: "zent list \<Rightarrow> nat" where "tailoff es = tot (butlast es)"

lemma val_enc_pos: "0 < length (val_enc s)"
proof -
  have "0 < length (entry_encoding 0 n)" for n by (simp add: entry_encoding_def)
  then show ?thesis by (auto simp: val_enc_def split: option.split)
qed

lemma elen_ge: "2 \<le> elen e"
  using val_enc_pos [of "snd e"] by (cases "val_enc (snd e)") (auto simp: elen_def fsize_def)

lemma elen_True: "elen (True, s) = elen (False, s) + 4"
  by (simp add: elen_def fsize_def)

lemma map_snd_casc [simp]: "map snd (casc L pl es) = map snd es"
  by (induction L pl es rule: casc.induct) auto

lemma length_casc [simp]: "length (casc L pl es) = length es"
  by (induction L pl es rule: casc.induct) auto

lemma casc_Nil_iff [simp]: "casc L pl es = [] \<longleftrightarrow> es = []"
  by (metis length_casc length_0_conv)

lemma tot_casc: "tot es \<le> tot (casc L pl es)"
  by (induction L pl es rule: casc.induct) (auto simp: elen_True)

lemma casc_same [simp]: "casc L L es = es"
  by (cases es) auto

lemma tailoff_simps [simp]: "tailoff [] = 0" "tailoff [e] = 0" "es \<noteq> [] \<Longrightarrow> tailoff (e # es) = elen e + tailoff es"
  by (simp_all add: tailoff_def)

lemma fits_casc: "fits pl es \<Longrightarrow> L < 2 ^ 32 \<Longrightarrow> tot (casc L pl es) < 2 ^ 32 \<Longrightarrow> fits L (casc L pl es)"
proof (induction L pl es rule: casc.induct)
  case (2 L pl b s es)
  show ?case
  proof (cases "pl \<noteq> L \<and> \<not> b \<and> 254 \<le> L")
    case True
    then have "elen (True, s) < 2 ^ 32" "tot (casc (elen (True, s)) (elen (b, s)) es) < 2 ^ 32" using 2(4) by auto
    then show ?thesis using 2 True by (simp add: ent_ok_def)
  next
    case False
    then show ?thesis using 2 by (auto simp: ent_ok_def)
  qed
qed simp

lemma memmove_any:
  assumes "src + n \<le> length zl" "dst + n \<le> length zl"
  shows "memmove zl dst src n = Some (take dst zl @ take n (drop src zl) @ drop (dst + n) zl)"
  using assms by (simp add: memmove_def mem_read_def mem_write_def)

text \<open>Making room after \<open>X\<close>.\<close>

lemma memmove_gap:
  assumes "zl = A @ X @ B @ J @ C" "dst = length A + length X + length J" "src = length A + length X" "n = length B"
  shows "\<exists>Y. length Y = length X + length J \<and> memmove zl dst src n = Some (A @ Y @ B @ C)"
proof -
  define Y where "Y = take (length X + length J) (X @ B @ J @ C)"
  have "take dst zl = A @ Y" by (simp add: assms Y_def)
  moreover have "take n (drop src zl) = B" by (simp add: assms)
  moreover have "drop (dst + n) zl = C" by (simp add: assms)
  moreover have "src + n \<le> length zl" "dst + n \<le> length zl" by (simp_all add: assms)
  moreover have "length Y = length X + length J" by (simp add: Y_def)
  ultimately show ?thesis using memmove_any [of src n zl dst] by auto
qed

lemma cascade_grow:
  assumes zl: "zl = zhdr n l c @ A @ zentry pl (False, s) @ R @ [ZIP_END]" and n: "n = 11 + length A + elen (False, s) + length R"
    and np: "np = 10 + length A" and L: "254 \<le> L" and n4: "n + 4 < 2 ^ 32" and l: "l < 2 ^ 32" "l + 4 < 2 ^ 32"
    and l': "l' = (if l \<noteq> np then l + 4 else l)"
  shows "(do {
      zl \<leftarrow> ziplistResize junk zl (int (n + (5 - 1)));
      t \<leftarrow> ZIPLIST_TAIL_OFFSET zl;
      zl \<leftarrow> (if t \<noteq> np then tail_add zl (int (5 - 1)) else Some zl);
      zl \<leftarrow> memmove zl (np + 5) (np + 1) (n - np - 1 - 1);
      (zl, _) \<leftarrow> zipStorePrevEntryLength zl np L;
      g zl }) = g (zhdr (n + 4) l' c @ A @ zentry L (True, s) @ R @ [ZIP_END])"
proof -
  have "n + 4 = 11 + length (A @ zentry pl (False, s) @ R) + 4" using n by simp
  from zl_resize_grow [OF _ this n4, of zl n l c junk] obtain J where J: "length J = 4"
    "ziplistResize junk zl (int (n + (5 - 1))) = Some (zhdr (n + 4) l c @ (A @ zentry pl (False, s) @ R) @ J @ [ZIP_END])"
    using zl by auto
  let ?B = "A @ zentry pl (False, s) @ R" and ?zl1 = "zhdr (n + 4) l c @ (A @ zentry pl (False, s) @ R) @ J @ [ZIP_END]"
  have t: "ZIPLIST_TAIL_OFFSET ?zl1 = Some l" using zhdr_get(2) [OF refl l(1)] by simp
  have ta: "(if l \<noteq> np then tail_add ?zl1 (int (5 - 1)) else Some ?zl1) = Some (zhdr (n + 4) l' c @ ?B @ J @ [ZIP_END])"
    using tail_add_at [OF refl l(1), of "int (5 - 1)" "l + 4" "n + 4" c "?B @ J @ [ZIP_END]"] by (simp add: l')
  have zl2: "zhdr (n + 4) l' c @ ?B @ J @ [ZIP_END] = (zhdr (n + 4) l' c @ A) @ zfield False pl @ (val_enc s @ R) @ J @ [ZIP_END]"
    by (simp add: zentry_def)
  have "\<exists>Y. length Y = length (zfield False pl) + length J \<and>
     memmove (zhdr (n + 4) l' c @ ?B @ J @ [ZIP_END]) (np + 5) (np + 1) (n - np - 1 - 1) = Some ((zhdr (n + 4) l' c @ A) @ Y @ (val_enc s @ R) @ [ZIP_END])"
    using J(1) np n by (intro memmove_gap [OF zl2]) (simp_all add: fsize_def elen_def)
  then obtain Y where Y: "length Y = 5"
    "memmove (zhdr (n + 4) l' c @ ?B @ J @ [ZIP_END]) (np + 5) (np + 1) (n - np - 1 - 1) = Some ((zhdr (n + 4) l' c @ A) @ Y @ (val_enc s @ R) @ [ZIP_END])"
    using J(1) by (auto simp: fsize_def)
  have st: "zipStorePrevEntryLength ((zhdr (n + 4) l' c @ A) @ Y @ (val_enc s @ R) @ [ZIP_END]) np L =
      Some ((zhdr (n + 4) l' c @ A) @ zfield (254 \<le> L) L @ (val_enc s @ R) @ [ZIP_END], prevlen_need L)"
    using Y(1) np L by (intro store_prevlen [OF refl]) (simp_all add: prevlen_need_def ZIP_BIG_PREVLEN_def)
  show ?thesis unfolding J(2) bind.bind_lunit t ta Y(2) st prod.case using L by (simp add: zentry_def)
qed

lemma cascade_last:
  assumes zl: "zl = A @ zentry pl e @ ZIP_END # X" and p: "p = length A" and ok: "ent_ok pl e"
  shows "cascade_loop junk zl p n = Some zl"
proof -
  from zipEntry_at [OF zl p ok] obtain ze where ze: "zipEntry zl p = Some ze" "headersize ze + ze_len ze = elen e" by auto
  from prevlen_at(3) [OF zl p ok] obtain b where b: "byte_at zl p = Some b" "b \<noteq> ZIP_END" by auto
  have "byte_at zl (p + elen e) = Some ZIP_END" using byte_at_app0 [of "A @ zentry pl e" "ZIP_END # X"] p by (simp add: zl)
  then show ?thesis using ze b by (subst cascade_loop.simps) (simp add: Let_def)
qed

lemma cascade_ok:
  assumes "ent_ok pl e" "fits pl' es" "11 + length P + elen e + tot (casc (elen e) pl' es) < 2 ^ 32"
  shows "cascade_loop junk (zhdr (11 + length P + elen e + tot es) (10 + length P + tailoff (e # es)) c @ P @ zentry pl e @ layout pl' es @ [ZIP_END])
      (10 + length P) (11 + length P + elen e + tot es) =
    Some (zhdr (11 + length P + elen e + tot (casc (elen e) pl' es)) (10 + length P + tailoff (e # casc (elen e) pl' es)) c @
      P @ zentry pl e @ layout (elen e) (casc (elen e) pl' es) @ [ZIP_END])"
  using assms
proof (induction es arbitrary: P pl e pl')
  case Nil
  then show ?case using cascade_last [of _ "zhdr (11 + length P + elen e) (10 + length P) c @ P" pl e "[]" "10 + length P"] by simp
next
  case (Cons x rest)
  obtain b s where x: "x = (b, s)" by (cases x)
  let ?L = "elen e" and ?n = "11 + length P + elen e + tot (x # rest)" and ?l = "10 + length P + tailoff (e # x # rest)"
  let ?zl = "zhdr ?n ?l c @ P @ zentry pl e @ layout pl' (x # rest) @ [ZIP_END]"
  have okx: "ent_ok pl' x" "fits (elen x) rest" using Cons.prems(2) by auto
  have a: "?zl = (zhdr ?n ?l c @ P) @ zentry pl e @ (layout pl' (x # rest) @ [ZIP_END])"
    "?zl = (zhdr ?n ?l c @ P @ zentry pl e) @ zentry pl' x @ (layout (elen x) rest @ [ZIP_END])" by simp_all
  from zipEntry_at [OF a(1) _ Cons.prems(1), of "10 + length P"] obtain ze where
    ze: "zipEntry ?zl (10 + length P) = Some ze" "headersize ze + ze_len ze = ?L" by auto
  from zipEntry_at [OF a(2) _ okx(1), of "10 + length P + ?L"] obtain zx where
    zx: "zipEntry ?zl (10 + length P + ?L) = Some zx" "prevrawlensize zx = fsize b" "prevrawlen zx = pl'" by (auto simp: x)
  from prevlen_at(3) [OF a(1) _ Cons.prems(1), of "10 + length P"] obtain b1 where b1: "byte_at ?zl (10 + length P) = Some b1" "b1 \<noteq> ZIP_END" by auto
  from prevlen_at(3) [OF a(2) _ okx(1), of "10 + length P + ?L"] obtain b2 where b2: "byte_at ?zl (10 + length P + ?L) = Some b2" "b2 \<noteq> ZIP_END" by auto
  have unf: "cascade_loop junk ?zl (10 + length P) ?n =
     (if pl' = ?L then Some ?zl
      else if fsize b < prevlen_need ?L then do {
        zl \<leftarrow> ziplistResize junk ?zl (int (?n + (prevlen_need ?L - fsize b)));
        t \<leftarrow> ZIPLIST_TAIL_OFFSET zl;
        zl \<leftarrow> (if t \<noteq> 10 + length P + ?L then tail_add zl (int (prevlen_need ?L - fsize b)) else Some zl);
        zl \<leftarrow> memmove zl (10 + length P + ?L + prevlen_need ?L) (10 + length P + ?L + fsize b) (?n - (10 + length P + ?L) - fsize b - 1);
        (zl, _) \<leftarrow> zipStorePrevEntryLength zl (10 + length P + ?L) ?L;
        cascade_loop junk zl (10 + length P + ?L) (?n + (prevlen_need ?L - fsize b)) }
      else if fsize b > prevlen_need ?L then zipStorePrevEntryLengthLarge ?zl (10 + length P + ?L) ?L
      else do { (zl, _) \<leftarrow> zipStorePrevEntryLength ?zl (10 + length P + ?L) ?L; Some zl })"
    using b1(2) b2(2) by (subst cascade_loop.simps) (simp only: b1(1) b2(1) bind.bind_lunit ze(1) zx Let_def ze(2) if_False)
  show ?case
  proof (cases "pl' = ?L")
    case True
    then show ?thesis unfolding unf by simp
  next
    case ne: False
    show ?thesis
    proof (cases "\<not> b \<and> 254 \<le> ?L")
      case True
      then have s: "fsize b = 1" "prevlen_need ?L = 5" "b = False" by (auto simp: fsize_def prevlen_need_def ZIP_BIG_PREVLEN_def)
      let ?x = "(True, s)" and ?c = "casc (elen (True, s)) (elen (b, s)) rest"
      have cs: "casc ?L pl' (x # rest) = ?x # ?c" using True ne by (simp add: x)
      have bound: "11 + length P + ?L + (elen ?x + tot ?c) < 2 ^ 32" using Cons.prems(3) unfolding cs by simp
      have tc: "tot rest \<le> tot ?c" by (rule tot_casc)
      have tl: "tailoff (e # x # rest) = ?L + tailoff (x # rest)" "tailoff (e # ?x # ?c) = ?L + tailoff (?x # ?c)" by simp_all
      have tle: "tailoff (x # rest) \<le> tot (x # rest)" by (metis append_butlast_last_id le_add1 list.distinct(1) tailoff_def tot_simps(3))
      define l' where "l' = (if ?l \<noteq> 10 + length P + ?L then ?l + 4 else ?l)"
      have l': "l' = 10 + length (P @ zentry pl e) + tailoff (?x # rest)"
        using s(3) elen_ge [of x] by (cases "rest = []") (simp_all add: x elen_True l'_def)
      have g: "cascade_loop junk ?zl (10 + length P) ?n =
          cascade_loop junk (zhdr (?n + 4) l' c @ (P @ zentry pl e) @ zentry ?L ?x @ layout (elen x) rest @ [ZIP_END]) (10 + length P + ?L) (?n + 4)"
        unfolding unf if_not_P [OF ne] s(1,2)
        using cascade_grow [where zl = ?zl and A = "P @ zentry pl e" and s = s and pl = pl' and R = "layout (elen x) rest" and n = ?n and l = ?l and c = c
            and np = "10 + length P + ?L" and L = ?L and l' = l' and junk = junk and g = "\<lambda>zl. cascade_loop junk zl (10 + length P + ?L) (?n + 4)"]
          True bound tc tl tle s(3) l'_def by (simp add: x elen_True)
      have ok': "ent_ok ?L ?x" using okx(1) bound by (simp add: ent_ok_def x)
      have b': "11 + length (P @ zentry pl e) + elen ?x + tot (casc (elen ?x) (elen x) rest) < 2 ^ 32" using bound by (simp add: x)
      have n': "?n + 4 = 11 + length (P @ zentry pl e) + elen ?x + tot rest" using s(3) by (simp add: x elen_True)
      have p': "10 + length P + ?L = 10 + length (P @ zentry pl e)" by simp
      show ?thesis unfolding g n' l' p' Cons.IH [OF ok' okx(2) b'] cs using tl(2) by (simp add: x add.assoc)
    next
      case False
      then have cs: "casc ?L pl' (x # rest) = x # rest" by (auto simp: x)
      have L32: "\<not> b \<longrightarrow> ?L < 254" using False by auto
      have zl: "?zl = (zhdr ?n ?l c @ P @ zentry pl e) @ zfield b pl' @ (val_enc s @ layout (elen x) rest @ [ZIP_END])"
        by (simp add: x zentry_def)
      have lt: "\<not> fsize b < prevlen_need ?L" using False by (auto simp: fsize_def prevlen_need_def ZIP_BIG_PREVLEN_def)
      show ?thesis
      proof (cases "prevlen_need ?L < fsize b")
        case True
        then have bT: "b" by (auto simp: fsize_def prevlen_need_def split: if_splits)
        have "zipStorePrevEntryLengthLarge ?zl (10 + length P + ?L) ?L =
            Some ((zhdr ?n ?l c @ P @ zentry pl e) @ zfield True ?L @ (val_enc s @ layout (elen x) rest @ [ZIP_END]))"
          using bT by (intro store_large [OF zl]) (simp_all add: fsize_def)
        then show ?thesis unfolding unf cs if_not_P [OF ne] if_not_P [OF lt] if_P [OF True] using bT by (simp add: x zentry_def)
      next
        case eq: False
        then have be: "b \<longleftrightarrow> 254 \<le> ?L" using lt by (auto simp: fsize_def prevlen_need_def ZIP_BIG_PREVLEN_def split: if_splits)
        have "zipStorePrevEntryLength ?zl (10 + length P + ?L) ?L =
            Some ((zhdr ?n ?l c @ P @ zentry pl e) @ zfield (254 \<le> ?L) ?L @ (val_enc s @ layout (elen x) rest @ [ZIP_END]), prevlen_need ?L)"
          using eq lt by (intro store_prevlen [OF zl]) simp_all
        then show ?thesis unfolding unf cs if_not_P [OF ne] if_not_P [OF lt] if_not_P [OF eq] using be by (simp add: x zentry_def)
      qed
    qed
  qed
qed

section \<open>Whole lists\<close>

definition zblk :: "zent list \<Rightarrow> nat \<Rightarrow> bytes" where
  "zblk es c = zhdr (11 + tot es) (10 + tailoff es) c @ layout 0 es @ [ZIP_END]"

definition zwf :: "zent list \<Rightarrow> bool" where
  "zwf es \<longleftrightarrow> fits 0 es \<and> 16 + tot es < 2 ^ 32"

lemma tailoff_le: "tailoff es \<le> tot es"
  by (cases "es = []") (simp, metis append_butlast_last_id le_add1 tailoff_def tot_simps(3))

lemma tailoff_append: "ys \<noteq> [] \<Longrightarrow> tailoff (xs @ ys) = tot xs + tailoff ys"
  by (simp add: tailoff_def butlast_append)

lemma zblk_get:
  assumes "zwf es"
  shows "ZIPLIST_BYTES (zblk es c) = Some (11 + tot es)" "ZIPLIST_TAIL_OFFSET (zblk es c) = Some (10 + tailoff es)" "c < 2 ^ 16 \<Longrightarrow> ZIPLIST_LENGTH (zblk es c) = Some c"
  using zhdr_get [of "zblk es c", OF zblk_def] assms tailoff_le [of es] by (auto simp: zwf_def)

subsection \<open>Insertion\<close>

lemma val_enc_length:
  "\<exists>k. (case zipTryEncoding s of Some (_, e) \<Rightarrow> zipIntSize e | None \<Rightarrow> Some (length s)) = Some k \<and>
     k + length (entry_encoding (case zipTryEncoding s of Some (_, e) \<Rightarrow> e | None \<Rightarrow> 0) (length s)) = length (val_enc s)"
proof (cases "zipTryEncoding s")
  case None
  then show ?thesis by (simp add: val_enc_def)
next
  case (Some a)
  then obtain v e where a: "zipTryEncoding s = Some (v, e)" by (cases a) auto
  then have r: "- (2 ^ 63) \<le> v" "v < 2 ^ 63" "e = int_encoding v" by (simp_all add: try_some)
  show ?thesis using int_encoding_facts [OF r(1,2)] a by (simp add: val_enc_def r(3) entry_encoding_def)
qed

lemma need_fsize: "prevlen_need pl = fsize (254 \<le> pl)"
  by (simp add: prevlen_need_def fsize_def ZIP_BIG_PREVLEN_def)

lemma write_entry:
  assumes "zl = A @ V @ C" "p = length A" "length V = elen (254 \<le> pl, s)"
  shows "insert_write zl p pl s = Some (A @ zentry pl (254 \<le> pl, s) @ C)"
proof -
  let ?e = "case zipTryEncoding s of Some (_, e) \<Rightarrow> e | None \<Rightarrow> 0"
  let ?h = "entry_encoding ?e (length s)"
  from val_enc_length [of s] obtain k where k: "k + length ?h = length (val_enc s)" by blast
  define V1 V2 V3 where "V1 = take (prevlen_need pl) V" and "V2 = take (length ?h) (drop (prevlen_need pl) V)" and "V3 = drop (prevlen_need pl + length ?h) V"
  have lV: "length V = prevlen_need pl + length ?h + k" using assms(3) k by (simp add: elen_def need_fsize)
  have "drop (length ?h) (drop (prevlen_need pl) V) = V3" by (simp add: V3_def add.commute)
  then have "drop (prevlen_need pl) V = V2 @ V3" using append_take_drop_id [of "length ?h" "drop (prevlen_need pl) V"] by (simp only: V2_def)
  then have V: "V = V1 @ V2 @ V3" using append_take_drop_id [of "prevlen_need pl" V] by (simp only: V1_def)
  have len: "length V1 = prevlen_need pl" "length V2 = length ?h" "length V3 = k" using lV by (simp_all add: V1_def V2_def V3_def)
  have 1: "zipStorePrevEntryLength zl p pl = Some (A @ zfield (254 \<le> pl) pl @ (V2 @ V3 @ C), prevlen_need pl)"
    using store_prevlen [of zl A V1 "V2 @ V3 @ C" p pl] assms(1,2) V len(1) by simp
  have 2: "mem_write ((A @ zfield (254 \<le> pl) pl) @ V2 @ (V3 @ C)) (p + prevlen_need pl) ?h = Some ((A @ zfield (254 \<le> pl) pl) @ ?h @ (V3 @ C))"
    using len(2) assms(2) by (intro mem_write_mid) (simp_all add: need_fsize)
  have p3: "p + prevlen_need pl + length ?h = length (A @ zfield (254 \<le> pl) pl @ ?h)" using assms(2) by (simp add: need_fsize)
  have 3: "(if ZIP_IS_STR ?e then mem_write ((A @ zfield (254 \<le> pl) pl @ ?h) @ V3 @ C) (p + prevlen_need pl + length ?h) s
      else case zipTryEncoding s of Some (value, _) \<Rightarrow> zipSaveInteger ((A @ zfield (254 \<le> pl) pl @ ?h) @ V3 @ C) (p + prevlen_need pl + length ?h) value ?e | None \<Rightarrow> None) =
    Some (A @ zentry pl (254 \<le> pl, s) @ C)"
  proof (cases "zipTryEncoding s")
    case None
    then have "length V3 = length s" "ZIP_IS_STR ?e" using k len(3) by (simp_all add: val_enc_def ZIP_IS_STR_def ZIP_STR_MASK_def)
    then show ?thesis using None mem_write_mid [OF p3, of s V3 C] by (simp add: zentry_def val_enc_def)
  next
    case (Some a)
    then obtain v e where a: "zipTryEncoding s = Some (v, e)" by (cases a) auto
    then have r: "- (2 ^ 63) \<le> v" "v < 2 ^ 63" "e = int_encoding v" by (simp_all add: try_some)
    note f = int_encoding_facts [OF r(1,2)]
    have "length V3 = length (int_bytes v (int_encoding v))" "?h = [e]" using k len(3) a f(2) by (simp_all add: val_enc_def r(3) entry_encoding_def)
    then show ?thesis using a f(2) f(5) [of "A @ zfield (254 \<le> pl) pl @ ?h" V3 C] unfolding p3 by (simp add: r(3) zentry_def val_enc_def)
  qed
  show ?thesis using 1 2 3 by (simp only: append_assoc bind.bind_lunit prod.case zipStoreEntryEncoding_def insert_write_def Let_def split del: if_split)
qed

text \<open>The entry after the inserted one, whose length is \<open>R\<close>: a larger zfield stays when the new zentry is tiny.\<close>

definition next_big :: "nat \<Rightarrow> bool \<Rightarrow> bool" where
  "next_big R b \<longleftrightarrow> 254 \<le> R \<or> b \<and> R < 4"

definition nextdiff :: "nat \<Rightarrow> bool \<Rightarrow> int" where
  "nextdiff R b = int (fsize (next_big R b)) - int (fsize b)"

lemma nextdiff_eq:
  assumes "2 \<le> R"
  shows "(if int (prevlen_need R) - int (fsize b) = - 4 \<and> R < 4 then 0 else int (prevlen_need R) - int (fsize b)) = nextdiff R b"
    "(int (prevlen_need R) - int (fsize b) = - 4 \<and> R < 4) \<longleftrightarrow> b \<and> R < 4" "0 \<le> int R + nextdiff R b"
  using assms by (auto simp: nextdiff_def next_big_def fsize_def prevlen_need_def ZIP_BIG_PREVLEN_def)

lemma insert_move_ok:
  assumes zl: "zl = zhdr n l c @ Pl @ zentry pl (b, t) @ layout (elen (b, t)) rest @ J @ [ZIP_END]"
    and p: "p = 10 + length Pl" and cur: "curlen = 11 + length Pl + elen (b, t) + tot rest" and J: "int (length J) = int R + nextdiff R b"
    and R: "2 \<le> R" and fit: "fits pl ((b, t) # rest)" and R32: "R < 2 ^ 32" and l: "l = 10 + length Pl + tailoff ((b, t) # rest)" and l32: "l + R < 2 ^ 32"
  shows "\<exists>V. length V = R \<and> insert_move zl p curlen R (nextdiff R b) (b \<and> R < 4) =
    Some (zhdr n (10 + length Pl + R + tailoff ((next_big R b, t) # rest)) c @ Pl @ V @ zentry R (next_big R b, t) @ layout (elen (b, t)) rest @ [ZIP_END])"
proof -
  let ?b' = "next_big R b" and ?nd = "nextdiff R b"
  define src m where "src = nat (int p - ?nd)" and "m = nat (int curlen - int p - 1 + ?nd)"
  have fs: "fsize ?b' \<le> 5" "1 \<le> fsize b" "fsize b \<le> 5" by (auto simp: fsize_def)
  have src: "src + fsize ?b' = p + fsize b" "src \<le> p + fsize b" using fs p by (auto simp: src_def nextdiff_def)
  have m: "m = fsize ?b' + length (val_enc t) + tot rest" using cur p by (simp add: m_def nextdiff_def elen_def)
  have lzl: "length zl = curlen + R + fsize ?b' - fsize b" using J cur by (simp add: zl nextdiff_def elen_def)
  have end_: "p + R + m = length zl - 1" "p + R + m + 1 = length zl" using lzl m cur p fs by (auto simp: elen_def)
  let ?tl = "val_enc t @ layout (elen (b, t)) rest"
  have dz: "drop (p + fsize b) zl = ?tl @ J @ [ZIP_END]" by (simp add: zl p zentry_def)
  define W where "W = take (fsize ?b') (drop src zl)"
  have sl: "src + m \<le> length zl" "p + R + m \<le> length zl" using end_ src m lzl cur p nextdiff_eq(3) [OF R, of b] by (auto simp: elen_def nextdiff_def)
  have lW: "length W = fsize ?b'" using sl m by (simp add: W_def)
  have mv: "take m (drop src zl) = W @ ?tl"
  proof -
    have "drop (fsize ?b') (drop src zl) = ?tl @ J @ [ZIP_END]" using dz src(1) by (simp add: add.commute)
    then have "drop src zl = W @ ?tl @ J @ [ZIP_END]" using append_take_drop_id [of "fsize ?b'" "drop src zl"] by (simp only: W_def)
    then show ?thesis using lW m by simp
  qed
  define V where "V = take R (drop p zl)"
  have lV: "length V = R" using sl end_ by (simp add: V_def)
  have tk: "take (p + R) zl = (zhdr n l c @ Pl) @ V" by (simp add: take_add V_def) (simp add: zl p)
  have "drop (p + R + m) zl = [ZIP_END]"
  proof -
    have "drop (length zl - 1) zl = [ZIP_END]" by (simp add: zl)
    then show ?thesis by (simp only: end_(1))
  qed
  then have 1: "memmove zl (p + R) src m = Some ((zhdr n l c @ Pl @ V) @ W @ ?tl @ [ZIP_END])"
    using memmove_any [OF sl] by (simp add: tk mv)
  have pR: "p + R = length (zhdr n l c @ Pl @ V)" using p lV by simp
  have 2: "(if b \<and> R < 4 then zipStorePrevEntryLengthLarge ((zhdr n l c @ Pl @ V) @ W @ ?tl @ [ZIP_END]) (p + R) R
        else map_option fst (zipStorePrevEntryLength ((zhdr n l c @ Pl @ V) @ W @ ?tl @ [ZIP_END]) (p + R) R)) =
      Some (zhdr n l c @ Pl @ V @ zentry R (?b', t) @ layout (elen (b, t)) rest @ [ZIP_END])"
  proof (cases "b \<and> R < 4")
    case True
    then show ?thesis using store_large [OF refl pR] lW by (simp add: next_big_def fsize_def zentry_def)
  next
    case False
    then have "next_big R b = (254 \<le> R)" by (auto simp: next_big_def)
    then show ?thesis using store_prevlen [OF refl pR, of W R] lW unfolding if_not_P [OF False] by (simp add: need_fsize zentry_def)
  qed
  let ?zl2 = "zhdr n (l + R) c @ Pl @ V @ zentry R (?b', t) @ layout (elen (b, t)) rest @ [ZIP_END]"
  have 3: "tail_add (zhdr n l c @ Pl @ V @ zentry R (?b', t) @ layout (elen (b, t)) rest @ [ZIP_END]) (int R) = Some ?zl2"
    using l32 by (intro tail_add_at [OF refl]) simp_all
  have ok': "ent_ok R (?b', t)" using fit R32 by (auto simp: ent_ok_def next_big_def)
  have a: "?zl2 = (zhdr n (l + R) c @ Pl @ V) @ zentry R (?b', t) @ (layout (elen (b, t)) rest @ [ZIP_END])"
    "?zl2 = (zhdr n (l + R) c @ Pl @ V @ zentry R (?b', t)) @ layout (elen (b, t)) rest @ ZIP_END # []" by simp_all
  have pR': "p + R = length (zhdr n (l + R) c @ Pl @ V)" "p + R + elen (?b', t) = length (zhdr n (l + R) c @ Pl @ V @ zentry R (?b', t))" using p lV by simp_all
  from zipEntry_at [OF a(1) pR'(1) ok'] obtain ze where ze: "zipEntry ?zl2 (p + R) = Some ze" "headersize ze + ze_len ze = elen (?b', t)" by blast
  have fr: "fits (elen (b, t)) rest" using fit by simp
  from layout_first [OF a(2) pR'(2) fr] obtain x where x: "byte_at ?zl2 (p + R + elen (?b', t)) = Some x" "x = ZIP_END \<longleftrightarrow> rest = []" by auto
  have 4: "(if x \<noteq> ZIP_END then tail_add ?zl2 ?nd else Some ?zl2) =
      Some (zhdr n (10 + length Pl + R + tailoff ((?b', t) # rest)) c @ Pl @ V @ zentry R (?b', t) @ layout (elen (b, t)) rest @ [ZIP_END])"
  proof (cases "rest = []")
    case True
    then show ?thesis using x(2) l by simp
  next
    case False
    have "int (l + R) + ?nd = int (10 + length Pl + R + tailoff ((?b', t) # rest))"
      using False l by (simp add: nextdiff_def elen_def)
    then show ?thesis using False x(2) l32 by (simp add: tail_add_at [OF refl])
  qed
  have "insert_move zl p curlen R ?nd (b \<and> R < 4) =
     Some (zhdr n (10 + length Pl + R + tailoff ((?b', t) # rest)) c @ Pl @ V @ zentry R (?b', t) @ layout (elen (b, t)) rest @ [ZIP_END])"
    unfolding insert_move_def src_def [symmetric] m_def [symmetric] 1 bind.bind_lunit 2 3 ze x(1) 4 ..
  then show ?thesis using lV by blast
qed

end
