(* ===== verification/Ziplist_Edit.thy ===== *)
theory Ziplist_Edit
  imports Ziplist_Update
begin

text \<open>
  The effect of insertion, deletion and merging on the entries of a ziplist.
\<close>

section \<open>Insertion\<close>

lemma zblk_split: "zblk (left @ right) c =
    (zhdr (11 + tot left + tot right) (10 + tailoff (left @ right)) c @ layout 0 left) @ layout (last_len 0 left) right @ [ZIP_END]"
  by (simp add: zblk_def layout_append add.assoc)

lemma zblk_byte:
  assumes "zwf (left @ right)" "p = 10 + tot left"
  shows "\<exists>x. byte_at (zblk (left @ right) c) p = Some x \<and> (x = ZIP_END \<longleftrightarrow> right = [])"
  using layout_first [OF zblk_split, of p left right c] assms by (auto simp: zwf_def fits_append)

lemma zblk_entry:
  assumes "zwf (left @ e # rest)" "p = 10 + tot left"
  shows "zblk (left @ e # rest) c = (zhdr (11 + tot left + tot (e # rest)) (10 + tailoff (left @ e # rest)) c @ layout 0 left) @
      zentry (last_len 0 left) e @ (layout (elen e) rest @ [ZIP_END])"
    "p = length (zhdr (11 + tot left + tot (e # rest)) (10 + tailoff (left @ e # rest)) c @ layout 0 left)" "ent_ok (last_len 0 left) e"
proof -
  show "zblk (left @ e # rest) c = (zhdr (11 + tot left + tot (e # rest)) (10 + tailoff (left @ e # rest)) c @ layout 0 left) @
      zentry (last_len 0 left) e @ (layout (elen e) rest @ [ZIP_END])"
    using zblk_split [of left "e # rest" c] by simp
qed (use assms in \<open>simp_all add: zwf_def fits_append\<close>)

lemma zblk_prevlen:
  assumes "zwf (left @ e # rest)" "p = 10 + tot left"
  shows "ZIP_DECODE_PREVLEN (zblk (left @ e # rest) c) p = Some (fsize (fst e), last_len 0 left)"
    "ZIP_DECODE_PREVLENSIZE (zblk (left @ e # rest) c) p = Some (fsize (fst e))"
    "zipRawEntryLength (zblk (left @ e # rest) c) p = Some (elen e)"
  by (rule prevlen_at [OF zblk_entry, OF assms assms assms] zipRaw_at [OF zblk_entry, OF assms assms assms])+

lemma zblk_end: "zwf es \<Longrightarrow> byte_at (zblk es c) (10 + tot es) = Some ZIP_END"
  using zblk_byte [of es "[]"] by auto

lemma insert_prevlen_ok:
  assumes "zwf (left @ right)" "p = 10 + tot left"
  shows "insert_prevlen (zblk (left @ right) c) p = Some (last_len 0 left)"
proof (cases right)
  case (Cons e rest)
  then show ?thesis using zblk_byte [OF assms, of c] zblk_prevlen(1) [of left e rest p c] assms by (auto simp: insert_prevlen_def)
next
  case Nil
  show ?thesis
  proof (cases left rule: rev_cases)
    case Nil
    then show ?thesis using assms \<open>right = []\<close> zblk_byte [OF assms, of c] zblk_get(2) [OF assms(1), of c] by (auto simp: insert_prevlen_def)
  next
    case (snoc l e)
    have w: "zwf (l @ [e])" using assms(1) Nil snoc by simp
    have t: "tailoff (l @ [e]) = tot l" by (simp add: tailoff_def)
    show ?thesis using assms Nil snoc zblk_byte [OF assms, of c] zblk_get(2) [OF w, of c] zblk_byte [OF w refl, of c] zblk_prevlen(3) [OF w refl, of c]
      by (auto simp: insert_prevlen_def t last_len_def)
  qed
qed

definition after_insert :: "nat \<Rightarrow> zent list \<Rightarrow> zent list" where
  "after_insert R right = (case right of [] \<Rightarrow> []
     | (b, t) # rest \<Rightarrow> (next_big R b, t) # casc (elen (next_big R b, t)) (elen (b, t)) rest)"

definition ins_ent :: "zent list \<Rightarrow> bytes \<Rightarrow> zent" where
  "ins_ent left s = (254 \<le> last_len 0 left, s)"

definition ins :: "zent list \<Rightarrow> bytes \<Rightarrow> zent list \<Rightarrow> zent list" where
  "ins left s right = left @ ins_ent left s # after_insert (elen (ins_ent left s)) right"

lemma map_snd_ins: "map snd (ins left s right) = map snd left @ s # map snd right"
  by (auto simp: ins_def ins_ent_def after_insert_def split: list.split)

lemma length_ins [simp]: "length (ins left s right) = length left + length right + 1"
  by (auto simp: ins_def after_insert_def split: list.split)

lemma last_len_le: "last_len 0 es \<le> tot es"
  by (cases es rule: rev_cases) (simp_all add: last_len_def)

lemma zwf_ins:
  assumes "zwf (left @ right)" "length s < 2 ^ 32" "16 + tot (ins left s right) < 2 ^ 32"
  shows "zwf (ins left s right)"
proof -
  let ?e = "ins_ent left s"
  have l: "fits 0 left" "fits (last_len 0 left) right" "last_len 0 left < 2 ^ 32"
    using assms(1) last_len_le [of left] by (auto simp: zwf_def fits_append)
  have t: "elen ?e < 2 ^ 32" "tot (after_insert (elen ?e) right) < 2 ^ 32" using assms(3) by (simp_all add: ins_def)
  have "ent_ok (last_len 0 left) ?e" using assms(2) l(3) by (auto simp: ent_ok_def ins_ent_def)
  moreover have "fits (elen ?e) (after_insert (elen ?e) right)"
  proof (cases right)
    case (Cons x rest)
    obtain b u where x: "x = (b, u)" by (cases x)
    let ?b = "next_big (elen ?e) b"
    have "fits (elen (?b, u)) (casc (elen (?b, u)) (elen (b, u)) rest)"
      using l(2) t(2) by (intro fits_casc) (simp_all add: Cons x after_insert_def)
    moreover have "ent_ok (elen ?e) (?b, u)" using l(2) t(1) by (auto simp: Cons x ent_ok_def next_big_def)
    ultimately show ?thesis by (simp add: Cons x after_insert_def)
  qed (simp add: after_insert_def)
  ultimately show ?thesis using l(1) assms(3) by (simp add: zwf_def ins_def fits_append)
qed

lemma incr_one:
  assumes "c < 2 ^ 16"
  shows "ZIPLIST_INCR_LENGTH (zhdr n l c @ X) 1 = Some (zhdr n l (if c < 65535 then c + 1 else c) @ X)"
  using incr_at [OF refl assms, of 1 "c + 1"] by simp

lemma insert_at_end:
  assumes w: "zwf left" and n: "16 + tot (ins left s []) < 2 ^ 32" and p: "p = 10 + tot left" and c: "c < 2 ^ 16"
  shows "raw_ziplistInsert junk (zblk left c) p s = Some (zblk (ins left s []) (if c < 65535 then c + 1 else c))"
proof -
  let ?pl = "last_len 0 left" let ?e = "(254 \<le> ?pl, s)"
  let ?B = "layout 0 left" and ?l = "10 + tailoff left"
  have i: "ins left s [] = left @ [?e]" by (simp add: ins_def ins_ent_def after_insert_def)
  let ?n = "11 + tot left + elen ?e"
  from val_enc_length [of s] obtain k where k: "(case zipTryEncoding s of Some (_, e) \<Rightarrow> zipIntSize e | None \<Rightarrow> Some (length s)) = Some k"
    "k + prevlen_need ?pl + length (entry_encoding (case zipTryEncoding s of Some (_, e) \<Rightarrow> e | None \<Rightarrow> 0) (length s)) = elen ?e"
    by (auto simp: elen_def need_fsize)
  have g: "ZIPLIST_BYTES (zblk left c) = Some (11 + tot left)" by (rule zblk_get(1) [OF w])
  have b: "byte_at (zblk left c) p = Some ZIP_END" using zblk_end [OF w] p by simp
  have pr: "insert_prevlen (zblk left c) p = Some ?pl" using insert_prevlen_ok [of left "[]" p c] w p by simp
  have "?n < 2 ^ 32" using n by (simp add: i)
  from zl_resize_grow [of "zblk left c" "11 + tot left" ?l c ?B ?n "elen ?e" junk, OF _ _ this] obtain J where
    J: "length J = elen ?e" "hd J = ZIP_END" "ziplistResize junk (zblk left c) (int (11 + tot left + elen ?e)) = Some (zhdr ?n ?l c @ ?B @ J @ [ZIP_END])"
    using elen_ge [of ?e] by (auto simp: zblk_def)
  have b': "byte_at (zhdr ?n ?l c @ ?B @ J @ [ZIP_END]) p = Some ZIP_END"
  proof -
    obtain J' where "J = ZIP_END # J'" using J elen_ge [of ?e] by (cases J) auto
    then show ?thesis using byte_at_app0 [of "zhdr ?n ?l c @ ?B" "J @ [ZIP_END]"] p by simp
  qed
  have t: "set_le 4 (zhdr ?n ?l c @ ?B @ J @ [ZIP_END]) 4 (int p) = Some (zhdr ?n p c @ ?B @ J @ [ZIP_END])"
    by (rule zhdr_set(2) [OF refl])
  have wr: "insert_write (zhdr ?n p c @ ?B @ J @ [ZIP_END]) p ?pl s = Some (zhdr ?n p c @ ?B @ zentry ?pl ?e @ [ZIP_END])"
    using write_entry [of _ "zhdr ?n p c @ ?B" J "[ZIP_END]" p ?pl s] J p by simp
  have "raw_ziplistInsert junk (zblk left c) p s = Some (zhdr ?n p (if c < 65535 then c + 1 else c) @ ?B @ zentry ?pl ?e @ [ZIP_END])"
    unfolding raw_ziplistInsert_def g b pr k Let_def bind.bind_lunit
    using J(3) b' t wr incr_one [OF c] by simp
  then show ?thesis by (simp add: i zblk_def layout_append tailoff_append p add.assoc)
qed

lemma insert_before:
  assumes w: "zwf (left @ (b, t) # rest)" and n: "16 + tot (ins left s ((b, t) # rest)) < 2 ^ 32" and p: "p = 10 + tot left" and c: "c < 2 ^ 16"
  shows "raw_ziplistInsert junk (zblk (left @ (b, t) # rest) c) p s = Some (zblk (ins left s ((b, t) # rest)) (if c < 65535 then c + 1 else c))"
proof -
  let ?pl = "last_len 0 left" let ?e = "(254 \<le> ?pl, s)"
  define R where "R = elen ?e"
  let ?b' = "next_big R b" let ?x = "(b, t)" and ?y = "(?b', t)"
  define cs where "cs = casc (elen ?y) (elen ?x) rest"
  have i: "ins left s (?x # rest) = left @ ?e # ?y # cs" by (simp add: ins_def ins_ent_def after_insert_def R_def cs_def)
  let ?zl = "zblk (left @ ?x # rest) c" and ?B = "layout 0 left" and ?l = "10 + tailoff (left @ ?x # rest)"
  let ?n = "11 + tot left + R + elen ?y + tot rest"
  from val_enc_length [of s] obtain k where k: "(case zipTryEncoding s of Some (_, e) \<Rightarrow> zipIntSize e | None \<Rightarrow> Some (length s)) = Some k"
    "k + prevlen_need ?pl + length (entry_encoding (case zipTryEncoding s of Some (_, e) \<Rightarrow> e | None \<Rightarrow> 0) (length s)) = R"
    by (auto simp: elen_def need_fsize R_def)
  have R2: "2 \<le> R" by (simp add: R_def elen_ge)
  have tc: "tot rest \<le> tot cs" by (simp add: cs_def tot_casc)
  have bound: "16 + tot left + R + elen ?y + tot cs < 2 ^ 32" using n by (simp add: i R_def)
  have g: "ZIPLIST_BYTES ?zl = Some (11 + tot left + elen ?x + tot rest)" using zblk_get(1) [OF w] by simp
  from zblk_byte [OF w p, of c] obtain x where b: "byte_at ?zl p = Some x" "x \<noteq> ZIP_END" by auto
  have pr: "insert_prevlen ?zl p = Some ?pl" by (rule insert_prevlen_ok [OF w p])
  have d: "zipPrevLenByteDiff ?zl p R = Some (int (prevlen_need R) - int (fsize b))"
    using zblk_prevlen(2) [OF w p, of c] by (simp add: zipPrevLenByteDiff_def)
  note nd = nextdiff_eq [OF R2, of b]
  have elb: "int (elen ?y) = int (elen ?x) + nextdiff R b" by (simp add: elen_def nextdiff_def)
  then have eqn: "int (11 + tot left + elen ?x + tot rest + R) + nextdiff R b = int ?n" by simp
  have n1: "?n = 11 + length (?B @ zentry ?pl ?x @ layout (elen ?x) rest) + nat (int R + nextdiff R b)" using elb nd(3) by simp
  have zl: "?zl = zhdr (11 + tot left + elen ?x + tot rest) ?l c @ (?B @ zentry ?pl ?x @ layout (elen ?x) rest) @ [ZIP_END]"
    by (simp add: zblk_split add.assoc)
  have "?n < 2 ^ 32" using bound tc by simp
  from zl_resize_grow [OF zl n1 this, of junk] obtain J where
    J: "length J = nat (int R + nextdiff R b)" "ziplistResize junk ?zl (int ?n) = Some (zhdr ?n ?l c @ (?B @ zentry ?pl ?x @ layout (elen ?x) rest) @ J @ [ZIP_END])"
    by blast
  let ?zl1 = "zhdr ?n ?l c @ ?B @ zentry ?pl ?x @ layout (elen ?x) rest @ J @ [ZIP_END]"
  have okx: "ent_ok ?pl ?x" "fits (elen ?x) rest" using zblk_entry(3) [OF w p] w by (simp_all add: zwf_def fits_append)
  have "\<exists>x. byte_at ?zl1 p = Some x \<and> x \<noteq> ZIP_END"
    using prevlen_at(3) [of ?zl1 "zhdr ?n ?l c @ ?B" ?pl ?x "layout (elen ?x) rest @ J @ [ZIP_END]" p] okx p by simp
  then obtain x' where b': "byte_at ?zl1 p = Some x'" "x' \<noteq> ZIP_END" by blast
  have t1: "tailoff (left @ ?x # rest) = tot left + tailoff (?x # rest)" by (rule tailoff_append) simp
  have t2: "tailoff (?x # rest) \<le> elen ?x + tot rest" using tailoff_le [of "?x # rest"] by simp
  have t3: "int (elen ?x) \<le> int (elen ?y) + 4" by (simp add: elen_def fsize_def)
  have "\<exists>V. length V = R \<and> insert_move ?zl1 p (11 + tot left + elen ?x + tot rest) R (nextdiff R b) (b \<and> R < 4) =
    Some (zhdr ?n (10 + length ?B + R + tailoff (?y # rest)) c @ ?B @ V @ zentry R ?y @ layout (elen ?x) rest @ [ZIP_END])"
  proof (rule insert_move_ok [where l = ?l and J = J and pl = ?pl])
    show "?l + R < 2 ^ 32" "R < 2 ^ 32" using bound tc t1 t2 t3 by simp_all
  qed (use p J nd okx R2 t1 in simp_all)
  then obtain V where V: "length V = R" "insert_move ?zl1 p (11 + tot left + elen ?x + tot rest) R (nextdiff R b) (b \<and> R < 4) =
    Some (zhdr ?n (10 + length ?B + R + tailoff (?y # rest)) c @ ?B @ V @ zentry R ?y @ layout (elen ?x) rest @ [ZIP_END])" by blast
  let ?zl2 = "zhdr ?n (10 + length ?B + R + tailoff (?y # rest)) c @ ?B @ V @ zentry R ?y @ layout (elen ?x) rest @ [ZIP_END]"
  let ?zl3 = "zhdr (11 + tot left + R + elen ?y + tot cs) (10 + tot left + R + tailoff (?y # cs)) c @ ?B @ V @ zentry R ?y @ layout (elen ?y) cs @ [ZIP_END]"
  have oky: "ent_ok R ?y" using okx(1) bound by (auto simp: ent_ok_def next_big_def)
  have ca: "(if nextdiff R b \<noteq> 0 then raw_ziplistCascadeUpdate junk ?zl2 (p + R) else Some ?zl2) = Some ?zl3"
  proof (cases "nextdiff R b = 0")
    case True
    then have "elen ?x = elen ?y" using elb by simp
    then have "cs = rest" by (simp add: cs_def)
    then show ?thesis using True \<open>elen ?x = elen ?y\<close> by simp
  next
    case False
    have "ZIPLIST_BYTES ?zl2 = Some ?n" using bound tc by (intro zhdr_get(1) [OF refl]) simp
    then show ?thesis using cascade_ok [OF oky okx(2), of "?B @ V" junk c] bound False V(1) p
      by (simp add: raw_ziplistCascadeUpdate_def cs_def add.assoc)
  qed
  have wr: "insert_write ?zl3 p ?pl s = Some (zhdr (11 + tot left + R + elen ?y + tot cs) (10 + tot left + R + tailoff (?y # cs)) c @ ?B @ zentry ?pl ?e @ zentry R ?y @ layout (elen ?y) cs @ [ZIP_END])"
    using write_entry [of ?zl3 "zhdr (11 + tot left + R + elen ?y + tot cs) (10 + tot left + R + tailoff (?y # cs)) c @ ?B" V _ p ?pl s] V(1) p
    by (simp add: R_def)
  have "raw_ziplistInsert junk ?zl p s = Some (zhdr (11 + tot left + R + elen ?y + tot cs) (10 + tot left + R + tailoff (?y # cs))
      (if c < 65535 then c + 1 else c) @ ?B @ zentry ?pl ?e @ zentry R ?y @ layout (elen ?y) cs @ [ZIP_END])"
    unfolding raw_ziplistInsert_def g b pr k Let_def bind.bind_lunit if_P [OF b(2)] d nd(2) nd(1) [unfolded nd(2)] eqn J(2) append_assoc b'(1) if_P [OF b'(2)] V(2) ca wr
    by (rule incr_one [OF c])
  then show ?thesis by (simp add: i zblk_def layout_append tailoff_append R_def add.assoc)
qed

lemma raw_insert_ok:
  assumes "zwf (left @ right)" "16 + tot (ins left s right) < 2 ^ 32" "p = 10 + tot left" "c < 2 ^ 16"
  shows "raw_ziplistInsert junk (zblk (left @ right) c) p s = Some (zblk (ins left s right) (if c < 65535 then c + 1 else c))"
proof (cases right)
  case Nil
  then show ?thesis using insert_at_end [of left s p c junk] assms by simp
next
  case (Cons x rest)
  then show ?thesis using insert_before [of left "fst x" "snd x" rest s p c junk] assms by simp
qed

section \<open>Deletion\<close>

lemma skip_ok:
  assumes "zwf (left @ rest)"
  shows "skip_entries num (zblk (left @ rest) c) (10 + tot left) = Some (10 + tot left + tot (take num rest), length (take num rest))"
  using assms
proof (induction num arbitrary: left rest)
  case 0
  then show ?case using zblk_byte [OF 0 refl, of c] by auto
next
  case (Suc num)
  obtain x where x: "byte_at (zblk (left @ rest) c) (10 + tot left) = Some x" "x = ZIP_END \<longleftrightarrow> rest = []"
    using zblk_byte [OF Suc.prems refl, of c] by auto
  show ?case
  proof (cases rest)
    case (Cons e es)
    then have w: "zwf (left @ e # es)" "zwf ((left @ [e]) @ es)" using Suc.prems by simp_all
    show ?thesis using x Suc.IH [OF w(2)] zblk_prevlen(3) [OF w(1) refl, of c] by (simp add: Cons add.assoc)
  qed (use x in simp)
qed

definition after_delete :: "nat \<Rightarrow> zent list \<Rightarrow> zent list" where
  "after_delete pl right = (case right of [] \<Rightarrow> []
     | (b, t) # rest \<Rightarrow> (254 \<le> pl, t) # casc (elen (254 \<le> pl, t)) (elen (b, t)) rest)"

definition del :: "zent list \<Rightarrow> zent list \<Rightarrow> zent list" where
  "del left right = left @ after_delete (last_len 0 left) right"

lemma map_snd_del: "map snd (del left right) = map snd left @ map snd right"
  by (auto simp: del_def after_delete_def split: list.split)

lemma length_del [simp]: "length (del left right) = length left + length right"
  using arg_cong [OF map_snd_del [of left right], of length] by simp

lemma zwf_del:
  assumes "zwf (left @ mid @ right)" "16 + tot (del left right) < 2 ^ 32"
  shows "zwf (del left right)"
proof -
  let ?pl = "last_len 0 left"
  have l: "fits 0 left" "fits (last_len ?pl mid) right" "?pl < 2 ^ 32"
    using assms(1) last_len_le [of left] by (auto simp: zwf_def fits_append)
  have "fits ?pl (after_delete ?pl right)"
  proof (cases right)
    case (Cons x rest)
    obtain b u where x: "x = (b, u)" by (cases x)
    let ?y = "(254 \<le> ?pl, u)"
    have "fits (elen ?y) (casc (elen ?y) (elen (b, u)) rest)"
      using l(2) assms(2) by (intro fits_casc) (simp_all add: Cons x del_def after_delete_def)
    moreover have "ent_ok ?pl ?y" using l by (auto simp: Cons x ent_ok_def)
    ultimately show ?thesis by (simp add: Cons x after_delete_def)
  qed (simp add: after_delete_def)
  then show ?thesis using l(1) assms(2) by (simp add: zwf_def del_def fits_append)
qed

lemma incr_minus:
  assumes "c < 2 ^ 16" "c < 65535 \<Longrightarrow> k \<le> c"
  shows "ZIPLIST_INCR_LENGTH (zhdr n l c @ X) (- int k) = Some (zhdr n l (if c < 65535 then c - k else c) @ X)"
  using incr_at [OF refl assms(1), of "- int k" "c - k"] assms(2) by simp

lemma mid_length: "mid \<noteq> [] \<Longrightarrow> 2 \<le> tot mid"
  using elen_ge by (cases mid) (auto intro: trans_le_add1)

lemma tail_of_left: "int (10 + tot left) - int (last_len 0 left) = int (10 + tailoff left)"
  by (cases left rule: rev_cases) (simp_all add: last_len_def tailoff_def)

lemma delete_to_end:
  assumes w: "zwf (left @ mid)" and mid: "mid = take num mid" "mid \<noteq> []" and p: "p = 10 + tot left" and c: "c < 2 ^ 16" "c < 65535 \<Longrightarrow> length mid \<le> c"
  shows "raw_ziplistDelete junk (zblk (left @ mid) c) p num = Some (zblk left (if c < 65535 then c - length mid else c))"
proof -
  let ?zl = "zblk (left @ mid) c"
  obtain e es where e: "mid = e # es" using mid(2) by (cases mid) auto
  have w': "zwf (left @ e # es)" using w e by simp
  have pa: "p = length (zhdr (11 + tot left + tot (e # es)) (10 + tailoff (left @ e # es)) c @ layout 0 left)" using p by simp
  from zipEntry_at [OF zblk_entry(1) [OF w' p] pa zblk_entry(3) [OF w' p]] obtain ze where
    ze: "zipEntry ?zl p = Some ze" "prevrawlen ze = last_len 0 left" "ze_p ze = p" unfolding e by blast
  have sk: "skip_entries num ?zl p = Some (10 + tot left + tot mid, length mid)" using skip_ok [OF w, of num c] mid(1) p by simp
  have tl: "10 + tot left + tot mid - p = tot mid" "0 < tot mid" using p mid_length [OF mid(2)] by simp_all
  have b: "byte_at ?zl (10 + tot left + tot mid) = Some ZIP_END" using zblk_end [OF w, of c] by (simp add: add.assoc)
  have zl: "?zl = zhdr (11 + tot left + tot mid) (10 + tailoff (left @ mid)) c @ layout 0 left @ (layout (last_len 0 left) mid @ [ZIP_END])"
    by (simp add: zblk_split)
  let ?z1 = "zhdr (11 + tot left + tot mid) (10 + tailoff left) c @ layout 0 left @ (layout (last_len 0 left) mid @ [ZIP_END])"
  have s: "set_le 4 ?zl 4 (int p - int (last_len 0 left)) = Some ?z1" unfolding p tail_of_left by (rule zhdr_set(2) [OF zl])
  have bd: "11 + tot left + tot mid < 2 ^ 32" using w by (simp add: zwf_def)
  have g: "ZIPLIST_BYTES ?z1 = Some (11 + tot left + tot mid)" by (rule zhdr_get(1) [OF refl bd])
  have i: "int (11 + tot left + tot mid) - int (tot mid) + 0 = int (11 + tot left)" by simp
  have "ziplistResize junk ?z1 (int (11 + tot left)) = Some (zhdr (11 + tot left) (10 + tailoff left) c @ layout 0 left @ [ZIP_END])"
    using bd by (intro resize_shrink [OF refl]) simp_all
  then show ?thesis unfolding raw_ziplistDelete_def ze bind.bind_lunit sk prod.case Let_def tl(1) if_P [OF tl(2)] b
    using ze(2,3) s g i incr_minus [OF c] by (simp add: zblk_def)
qed

lemma delete_mid:
  assumes w: "zwf (left @ mid @ (b, t) # rest)" and num: "num = length mid" and mid: "mid \<noteq> []" and p: "p = 10 + tot left"
    and c: "c < 2 ^ 16" "c < 65535 \<Longrightarrow> length mid \<le> c" and n: "16 + tot (del left ((b, t) # rest)) < 2 ^ 32"
  shows "raw_ziplistDelete junk (zblk (left @ mid @ (b, t) # rest) c) p num = Some (zblk (del left ((b, t) # rest)) (if c < 65535 then c - length mid else c))"
proof -
  let ?pl = "last_len 0 left" let ?x = "(b, t)" and ?y = "(254 \<le> ?pl, t)"
  let ?zl = "zblk (left @ mid @ ?x # rest) c" and ?T = "tot mid"
  define cs where "cs = casc (elen ?y) (elen ?x) rest"
  have d: "del left (?x # rest) = left @ ?y # cs" by (simp add: del_def after_delete_def cs_def)
  define nd where "nd = int (prevlen_need ?pl) - int (fsize b)"
  obtain e es where e: "mid = e # es" using mid by (cases mid) auto
  have w': "zwf (left @ e # es @ ?x # rest)" "zwf ((left @ mid) @ ?x # rest)" using w e by simp_all
  have pa: "p = length (zhdr (11 + tot left + tot (e # es @ ?x # rest)) (10 + tailoff (left @ e # es @ ?x # rest)) c @ layout 0 left)" using p by simp
  note ze0 = zblk_entry(1) [OF w'(1) p] zblk_entry(3) [OF w'(1) p]
  from zipEntry_at [OF ze0(1) pa ze0(2)] obtain ze where
    ze: "zipEntry ?zl p = Some ze" "prevrawlen ze = ?pl" "ze_p ze = p" unfolding e by auto
  let ?p = "10 + tot left + ?T"
  have sk: "skip_entries num ?zl p = Some (?p, length mid)" using skip_ok [OF w, of num c] num p by simp
  have tl: "?p - p = ?T" "0 < ?T" using p mid_length [OF mid] by simp_all
  from zblk_byte [OF w'(2), of ?p c] obtain x where x: "byte_at ?zl ?p = Some x" "x \<noteq> ZIP_END" by auto
  have df: "zipPrevLenByteDiff ?zl ?p ?pl = Some nd" using zblk_prevlen(2) [OF w'(2), of ?p c] by (simp add: zipPrevLenByteDiff_def nd_def)
  have ndT: "nd \<le> int ?T"
  proof -
    have "fsize (254 \<le> ?pl) \<le> elen e" using ze0(2) by (auto simp: ent_ok_def elen_def fsize_def)
    then show ?thesis using e by (simp add: nd_def need_fsize)
  qed
  have ndy: "int (elen ?y) = int (elen ?x) + nd" by (simp add: elen_def nd_def need_fsize)
  let ?N = "11 + tot left + ?T + elen ?x + tot rest" and ?l = "10 + tot left + ?T + tailoff (?x # rest)"
  let ?A = "zhdr ?N ?l c @ layout 0 left" and ?R = "val_enc t @ layout (elen ?x) rest @ [ZIP_END]"
  define F where "F = layout ?pl mid @ zfield b (last_len ?pl mid)"
  define k where "k = nat (int ?T - nd)"
  define D W where "D = take k F" and "W = drop k F"
  have F: "F = D @ W" by (simp add: D_def W_def)
  have lF: "length F = ?T + fsize b" by (simp add: F_def)
  have kT: "int k = int ?T - nd" "k + prevlen_need ?pl = ?T + fsize b" using ndT by (simp_all add: k_def nd_def)
  have lD: "length D = k" "length W = prevlen_need ?pl" using lF kT(2) by (simp_all add: D_def W_def)
  have pk: "nat (int ?p - nd) = 10 + tot left + k" using kT(1) by simp
  have zl: "?zl = (?A @ D) @ W @ ?R"
  proof -
    have "?zl = ?A @ F @ ?R" using zblk_split [of left "mid @ ?x # rest" c] by (simp add: F_def layout_append tailoff_append zentry_def add.assoc)
    then show ?thesis by (simp add: F)
  qed
  have okx: "ent_ok (last_len ?pl mid) ?x" "fits (elen ?x) rest" using w by (simp_all add: zwf_def fits_append)
  have oky: "ent_ok ?pl ?y" using okx(1) w last_len_le [of left] by (auto simp: ent_ok_def zwf_def)
  let ?E = "D @ zentry ?pl ?y @ layout (elen ?x) rest @ [ZIP_END]"
  have st: "zipStorePrevEntryLength ?zl (10 + tot left + k) ?pl = Some (zhdr ?N ?l c @ layout 0 left @ ?E, prevlen_need ?pl)"
    using store_prevlen [OF zl _ lD(2), of "10 + tot left + k"] lD(1) by (simp add: zentry_def)
  have bN: "?N + 4 < 2 ^ 32" using w by (simp add: zwf_def)
  have tl': "tailoff (?x # rest) \<le> elen ?x + tot rest" using tailoff_le [of "?x # rest"] by simp
  let ?l1 = "10 + tot left + tailoff (?x # rest)" and ?l2 = "10 + tot left + tailoff (?y # rest)"
  have ta: "tail_add (zhdr ?N ?l c @ layout 0 left @ ?E) (- int ?T) = Some (zhdr ?N ?l1 c @ layout 0 left @ ?E)"
    using bN tl' by (intro tail_add_at [OF refl]) simp_all
  let ?z2 = "zhdr ?N ?l1 c @ layout 0 left @ ?E"
  have a: "?z2 = (zhdr ?N ?l1 c @ layout 0 left @ D) @ zentry ?pl ?y @ (layout (elen ?x) rest @ [ZIP_END])"
    "?z2 = (zhdr ?N ?l1 c @ layout 0 left @ D @ zentry ?pl ?y) @ layout (elen ?x) rest @ ZIP_END # []" by simp_all
  have q: "10 + tot left + k = length (zhdr ?N ?l1 c @ layout 0 left @ D)" "10 + tot left + k + elen ?y = length (zhdr ?N ?l1 c @ layout 0 left @ D @ zentry ?pl ?y)"
    using lD(1) by simp_all
  from zipEntry_at [OF a(1) q(1) oky] obtain zt where zt: "zipEntry ?z2 (10 + tot left + k) = Some zt" "headersize zt + ze_len zt = elen ?y" by blast
  from layout_first [OF a(2) q(2) okx(2)] obtain u where u: "byte_at ?z2 (10 + tot left + k + elen ?y) = Some u" "u = ZIP_END \<longleftrightarrow> rest = []" by auto
  have tb: "(if u \<noteq> ZIP_END then tail_add ?z2 nd else Some ?z2) = Some (zhdr ?N ?l2 c @ layout 0 left @ ?E)"
  proof (cases "rest = []")
    case False
    have "int ?l1 + nd = int ?l2" using False ndy by simp
    then show ?thesis using False u(2) bN tl' by (simp add: tail_add_at [OF refl])
  qed (use u(2) in simp)
  let ?z3 = "zhdr ?N ?l2 c @ layout 0 left @ ?E"
  have g: "ZIPLIST_BYTES ?z3 = Some ?N" using bN by (intro zhdr_get(1) [OF refl]) simp
  let ?M = "zentry ?pl ?y @ layout (elen ?x) rest"
  have cnt: "?N - (10 + tot left + k) - 1 = length ?M" using kT(1) ndy by simp
  define B' C' where "B' = take (length ?M) (?E)" and "C' = drop (length ?M) ?E"
  have mv: "memmove ?z3 p (10 + tot left + k) (length ?M) = Some ((zhdr ?N ?l2 c @ layout 0 left) @ ?M @ C')"
  proof (rule memmove_at)
    show "?z3 = (zhdr ?N ?l2 c @ layout 0 left @ D) @ ?M @ [ZIP_END]" by simp
    show "?z3 = (zhdr ?N ?l2 c @ layout 0 left) @ B' @ C'" by (simp only: B'_def C'_def append_take_drop_id append_assoc)
  qed (use lD p in \<open>simp_all add: B'_def\<close>)
  have C': "C' \<noteq> []" by (simp add: C'_def)
  let ?n = "11 + tot left + elen ?y + tot rest"
  have sz: "int ?N - int ?T + nd = int ?n" using ndy by simp
  have tc: "tot rest \<le> tot cs" by (simp add: cs_def tot_casc)
  have bd: "16 + tot left + elen ?y + tot cs < 2 ^ 32" using n by (simp add: d)
  have g': "ZIPLIST_BYTES ((zhdr ?N ?l2 c @ layout 0 left) @ ?M @ C') = Some ?N" using bN by (intro zhdr_get(1)) simp_all
  have rs: "ziplistResize junk ((zhdr ?N ?l2 c @ layout 0 left) @ ?M @ C') (int ?n) = Some (zhdr ?n ?l2 c @ (layout 0 left @ ?M) @ [ZIP_END])"
    using C' bd tc by (intro resize_shrink) simp_all
  let ?c = "if c < 65535 then c - length mid else c"
  let ?z4 = "zhdr ?n ?l2 ?c @ (layout 0 left @ ?M) @ [ZIP_END]"
  have inc: "ZIPLIST_INCR_LENGTH (zhdr ?n ?l2 c @ (layout 0 left @ ?M) @ [ZIP_END]) (- int (length mid)) = Some ?z4"
    by (rule incr_minus) (use c in auto)
  have ca: "(if nd \<noteq> 0 then raw_ziplistCascadeUpdate junk ?z4 p else Some ?z4) = Some (zblk (left @ ?y # cs) ?c)"
  proof (cases "nd = 0")
    case True
    then have eq: "elen ?x = elen ?y" using ndy by simp
    then have "cs = rest" by (simp add: cs_def)
    then show ?thesis using True eq by (simp add: zblk_def layout_append tailoff_append add.assoc)
  next
    case False
    have "ZIPLIST_BYTES ?z4 = Some ?n" using bd tc by (intro zhdr_get(1) [OF refl]) simp
    then show ?thesis using cascade_ok [OF oky okx(2), of "layout 0 left" junk ?c] bd False p
      by (simp add: raw_ziplistCascadeUpdate_def cs_def add.assoc zblk_def layout_append tailoff_append)
  qed
  show ?thesis unfolding raw_ziplistDelete_def ze bind.bind_lunit sk prod.case Let_def tl(1) if_P [OF tl(2)] x(1) if_P [OF x(2)] df pk st ta
      zt add.assoc [of "10 + tot left + k" "headersize zt"] u(1) tb g cnt mv g' sz rs inc ca d ..
qed

lemma raw_delete_ok:
  assumes "zwf (left @ right)" "right \<noteq> []" "0 < num" "16 + tot (del left (drop num right)) < 2 ^ 32" "p = 10 + tot left" "c < 2 ^ 16" "c < 65535 \<Longrightarrow> length left + length right \<le> c"
  shows "raw_ziplistDelete junk (zblk (left @ right) c) p num = Some (zblk (del left (drop num right)) (if c < 65535 then c - length (take num right) else c))"
proof (cases "drop num right")
  case Nil
  then show ?thesis using delete_to_end [of left right num p c junk] assms by (auto simp: del_def after_delete_def)
next
  case (Cons x rest)
  obtain b t where x: "x = (b, t)" by (cases x)
  have r: "right = take num right @ (b, t) # rest" using Cons x by (metis append_take_drop_id)
  have nl: "num = length (take num right)" using Cons by (metis drop_all length_take min.absorb2 linorder_le_cases list.distinct(1))
  have "raw_ziplistDelete junk (zblk (left @ take num right @ (b, t) # rest) c) p num =
     Some (zblk (del left ((b, t) # rest)) (if c < 65535 then c - length (take num right) else c))"
    using assms Cons x r nl by (intro delete_mid) (auto simp: take_eq_Nil)
  then show ?thesis using r Cons x by simp
qed

section \<open>Merging\<close>

definition mrg :: "zent list \<Rightarrow> zent list \<Rightarrow> zent list" where
  "mrg fs ss = fs @ casc (last_len 0 fs) 0 ss"

lemma map_snd_mrg: "map snd (mrg fs ss) = map snd fs @ map snd ss"
  by (simp add: mrg_def)

lemma length_mrg [simp]: "length (mrg fs ss) = length fs + length ss"
  by (simp add: mrg_def)

lemma zwf_mrg:
  assumes "zwf fs" "zwf ss" "16 + tot (mrg fs ss) < 2 ^ 32"
  shows "zwf (mrg fs ss)"
proof -
  have "fits (last_len 0 fs) (casc (last_len 0 fs) 0 ss)"
    using assms last_len_le [of fs] by (intro fits_casc) (simp_all add: zwf_def mrg_def)
  then show ?thesis using assms by (simp add: zwf_def mrg_def fits_append)
qed

text \<open>The block after the two ways to copy, when the header is still that of the first list.\<close>

lemma merge_copy:
  fixes A B H1 H2 :: bytes
  assumes len: "length H1 = 10" "length H2 = 10" and fs: "fz = H1 @ A @ [ZIP_END]" and sz: "sz = H2 @ B @ [ZIP_END]"
    and n: "n = 11 + length A + length B"
  shows "(do { bs \<leftarrow> mem_read sz 10 (11 + length B - 10); mem_write (mem_realloc junk fz n) (11 + length A - 1) bs }) = Some (H1 @ A @ B @ [ZIP_END])"
    "(do { tg \<leftarrow> memmove (mem_realloc junk sz n) (11 + length A - 1) 10 (11 + length B - 10);
       bs \<leftarrow> mem_read fz 0 (11 + length A - 1); mem_write tg 0 bs }) = Some (H1 @ A @ B @ [ZIP_END])"
proof -
  have r1: "mem_realloc junk fz n = (H1 @ A) @ (ZIP_END # map junk [length fz..<n]) @ []" using n len fs by (simp add: mem_realloc_def)
  have r2: "mem_realloc junk sz n = H2 @ (B @ [ZIP_END]) @ map junk [length sz..<n]" using n len sz by (simp add: mem_realloc_def)
  have "mem_read sz 10 (11 + length B - 10) = Some (B @ [ZIP_END])"
    using mem_read_app [of H2 "B @ [ZIP_END]" 0] mem_read_pre [of _ "B @ [ZIP_END]" "[]"] len by (simp add: sz)
  moreover have "mem_write (mem_realloc junk fz n) (11 + length A - 1) (B @ [ZIP_END]) = Some ((H1 @ A) @ (B @ [ZIP_END]) @ [])"
    unfolding r1 using len n fs by (intro mem_write_mid) simp_all
  ultimately show "(do { bs \<leftarrow> mem_read sz 10 (11 + length B - 10); mem_write (mem_realloc junk fz n) (11 + length A - 1) bs }) = Some (H1 @ A @ B @ [ZIP_END])"
    by simp
  have lr: "length (mem_realloc junk sz n) = n" using n len sz by (simp add: mem_realloc_def)
  define X Y where "X = take (10 + length A) (mem_realloc junk sz n)" and "Y = drop (10 + length A) (mem_realloc junk sz n)"
  have XY: "mem_realloc junk sz n = X @ Y @ []" "length X = 10 + length A" "length Y = Suc (length B)" using lr n by (simp_all add: X_def Y_def)
  have "memmove (mem_realloc junk sz n) (11 + length A - 1) 10 (11 + length B - 10) = Some (X @ (B @ [ZIP_END]) @ [])"
    using len XY by (intro memmove_at [OF r2]) simp_all
  moreover have "mem_read fz 0 (11 + length A - 1) = Some (H1 @ A)" using mem_read_pre [of _ "H1 @ A" "[ZIP_END]"] len by (simp add: fs)
  moreover have "mem_write ([] @ X @ (B @ [ZIP_END])) 0 (H1 @ A) = Some ([] @ (H1 @ A) @ (B @ [ZIP_END]))"
    using len XY by (intro mem_write_mid) simp_all
  ultimately show "(do { tg \<leftarrow> memmove (mem_realloc junk sz n) (11 + length A - 1) 10 (11 + length B - 10);
       bs \<leftarrow> mem_read fz 0 (11 + length A - 1); mem_write tg 0 bs }) = Some (H1 @ A @ B @ [ZIP_END])"
    by simp
qed

lemma merge_cascade:
  assumes fs: "zwf fs" and ss: "zwf ss" "ss \<noteq> []" and n: "16 + tot (mrg fs ss) < 2 ^ 32"
  shows "raw_ziplistCascadeUpdate junk (zhdr (11 + tot fs + tot ss) (10 + tot fs + tailoff ss) c @ layout 0 fs @ layout 0 ss @ [ZIP_END])
    (10 + tailoff fs) = Some (zblk (mrg fs ss) c)"
proof -
  let ?zl = "zhdr (11 + tot fs + tot ss) (10 + tot fs + tailoff ss) c @ layout 0 fs @ layout 0 ss @ [ZIP_END]"
  have tc: "tot ss \<le> tot (casc (last_len 0 fs) 0 ss)" by (rule tot_casc)
  have b: "16 + tot fs + tot (casc (last_len 0 fs) 0 ss) < 2 ^ 32" using n by (simp add: mrg_def)
  have g: "ZIPLIST_BYTES ?zl = Some (11 + tot fs + tot ss)" using b tc by (intro zhdr_get(1) [OF refl]) simp
  show ?thesis
  proof (cases fs rule: rev_cases)
    case Nil
    obtain e es where e: "ss = e # es" using ss(2) by (cases ss) auto
    have ok: "ent_ok 0 e" "fits (elen e) es" "11 + elen e + tot es < 2 ^ 32" using ss(1) e by (simp_all add: zwf_def)
    then show ?thesis using g cascade_ok [OF ok(1,2), of "[]" junk c] Nil
      by (simp add: raw_ziplistCascadeUpdate_def e mrg_def zblk_def add.assoc)
  next
    case (snoc l e)
    have ok: "ent_ok (last_len 0 l) e" "fits 0 ss" using fs ss by (simp_all add: zwf_def snoc fits_append)
    have ll: "last_len 0 fs = elen e" "tailoff fs = tot l" "layout 0 fs = layout 0 l @ zentry (last_len 0 l) e" "tot fs = tot l + elen e"
      by (simp_all add: snoc last_len_def tailoff_def layout_append)
    have t: "tailoff (mrg fs ss) = tot l + (elen e + tailoff (casc (elen e) 0 ss))"
      unfolding mrg_def ll(1) using ss(2) by (simp add: tailoff_append ll(4))
    have z: "zblk (mrg fs ss) c = zhdr (11 + tot l + elen e + tot (casc (elen e) 0 ss)) (10 + tot l + tailoff (e # casc (elen e) 0 ss)) c @ layout 0 l @
        zentry (last_len 0 l) e @ layout (elen e) (casc (elen e) 0 ss) @ [ZIP_END]"
      unfolding zblk_def t using ss(2) by (simp add: mrg_def ll layout_append add.assoc)
    show ?thesis unfolding raw_ziplistCascadeUpdate_def g bind.bind_lunit z
      using cascade_ok [OF ok, of "layout 0 l" junk c] b ss(2) by (simp add: ll add.assoc)
  qed
qed

lemma merge_ok:
  assumes fs: "zwf fs" "c1 < 2 ^ 16" and ss: "zwf ss" "c2 < 2 ^ 16" "ss \<noteq> []" and n: "16 + tot (mrg fs ss) < 2 ^ 32"
  shows "ziplistMerge junk (zblk fs c1) (zblk ss c2) = Some (zblk (mrg fs ss) (min (c1 + c2) 65535), c2 \<le> c1)"
proof -
  let ?A = "layout 0 fs" and ?B = "layout 0 ss" and ?m = "min (c1 + c2) 65535"
  let ?H1 = "zhdr (11 + tot fs) (10 + tailoff fs) c1" and ?H2 = "zhdr (11 + tot ss) (10 + tailoff ss) c2"
  note g = zblk_get [OF fs(1)] zblk_get [OF ss(1)]
  have nb: "11 + tot fs + (11 + tot ss) - ZIPLIST_HEADER_SIZE - 1 = 11 + tot fs + tot ss" by (simp add: ZIPLIST_HEADER_SIZE_def)
  have m: "(if c1 + c2 < UINT16_MAX then c1 + c2 else UINT16_MAX) = ?m" by (simp add: UINT16_MAX_def min_def)
  have to: "int (11 + tot fs - 1) + (int (10 + tailoff ss) - int ZIPLIST_HEADER_SIZE) = int (10 + tot fs + tailoff ss)" by (simp add: ZIPLIST_HEADER_SIZE_def)
  note cp = merge_copy [of ?H1 ?H2 "zblk fs c1" ?A "zblk ss c2" ?B "11 + tot fs + tot ss" junk, unfolded length_layout, OF _ _ zblk_def zblk_def refl]
  let ?z = "?A @ ?B @ [ZIP_END]"
  have s1: "set_le 4 (?H1 @ ?z) 0 (int (11 + tot fs + tot ss)) = Some (zhdr (11 + tot fs + tot ss) (10 + tailoff fs) c1 @ ?z)" by (rule zhdr_set(1) [OF refl])
  have s2: "set_le 2 (zhdr (11 + tot fs + tot ss) (10 + tailoff fs) c1 @ ?z) 8 (int ?m) = Some (zhdr (11 + tot fs + tot ss) (10 + tailoff fs) ?m @ ?z)"
    by (rule zhdr_set(3) [OF refl])
  have s3: "set_le 4 (zhdr (11 + tot fs + tot ss) (10 + tailoff fs) ?m @ ?z) 4 (int (10 + tot fs + tailoff ss)) =
      Some (zhdr (11 + tot fs + tot ss) (10 + tot fs + tailoff ss) ?m @ ?z)" by (rule zhdr_set(2) [OF refl])
  note ca = merge_cascade [OF fs(1) ss(1,3) n, of junk ?m]
  show ?thesis
  proof (cases "c2 \<le> c1")
    case True
    then show ?thesis unfolding ziplistMerge_def g(1,2,4,5) g(3) [OF fs(2)] g(6) [OF ss(2)] bind.bind_lunit Let_def if_P [OF True] prod.case nb m to
      using cp(1) s1 s2 s3 ca by (simp add: ZIPLIST_HEADER_SIZE_def)
  next
    case False
    then show ?thesis unfolding ziplistMerge_def g(1,2,4,5) g(3) [OF fs(2)] g(6) [OF ss(2)] bind.bind_lunit Let_def if_not_P [OF False] prod.case nb m to
      using cp(2) s1 s2 s3 ca by (simp add: ZIPLIST_HEADER_SIZE_def)
  qed
qed

end
