(* ===== verification/Ziplist_List.thy ===== *)
theory Ziplist_List
  imports Ziplist_Edit Simulation
begin

text \<open>
  Reading a ziplist: positions, values, search and length; and the refinement for histories: a
  ziplist is a list of strings, an interpretation of the locale \<open>simulation\<close>.
\<close>

section \<open>Positions\<close>

lemma index_forward_ok:
  assumes "zwf (left @ rest)"
  shows "index_forward k (zblk (left @ rest) c) (10 + tot left) = Some (10 + tot left + tot (take k rest), k - length rest)"
  using assms
proof (induction k arbitrary: left rest)
  case 0
  then show ?case using zblk_byte [OF 0 refl, of c] by auto
next
  case (Suc k)
  obtain x where x: "byte_at (zblk (left @ rest) c) (10 + tot left) = Some x" "x = ZIP_END \<longleftrightarrow> rest = []"
    using zblk_byte [OF Suc.prems refl, of c] by auto
  show ?case
  proof (cases rest)
    case (Cons e es)
    then have w: "zwf (left @ e # es)" "zwf ((left @ [e]) @ es)" using Suc.prems by simp_all
    show ?thesis using x Suc.IH [OF w(2)] zblk_prevlen(3) [OF w(1) refl, of c] by (simp add: Cons add.assoc)
  qed (use x in simp)
qed

lemma index_back_ok:
  assumes "zwf (left @ e # rest)"
  shows "index_back k (zblk (left @ e # rest) c) (10 + tot left) (last_len 0 left) =
    Some (10 + tot (take (length left - k) left), k - length left)"
  using assms
proof (induction k arbitrary: left e rest)
  case (Suc k)
  show ?case
  proof (cases left rule: rev_cases)
    case (snoc l x)
    then have w: "zwf (l @ x # e # rest)" using Suc.prems by simp
    have "0 < elen x" using elen_ge [of x] by simp
    then show ?thesis using Suc.IH [OF w] zblk_prevlen(1) [OF w refl, of c] by (simp add: snoc last_len_def)
  qed simp
qed simp

definition zpos :: "zent list \<Rightarrow> nat \<Rightarrow> nat" where "zpos es i = 10 + tot (take i es)"

text \<open>The element an index denotes: negative ones count from the end.\<close>

definition zindex :: "'a list \<Rightarrow> int \<Rightarrow> nat option" where
  "zindex xs i = (if 0 \<le> i \<and> i < int (length xs) then Some (nat i)
     else if i < 0 \<and> - i \<le> int (length xs) then Some (length xs - nat (- i)) else None)"

lemma zindex_less: "zindex xs i = Some k \<Longrightarrow> k < length xs"
  by (auto simp: zindex_def split: if_splits)

lemma zpos_byte:
  assumes "zwf es" "i \<le> length es"
  shows "\<exists>x. byte_at (zblk es c) (zpos es i) = Some x \<and> (x = ZIP_END \<longleftrightarrow> i = length es)"
  using zblk_byte [of "take i es" "drop i es" "zpos es i" c] assms by (auto simp: zpos_def)

lemma ziplistIndex_ok:
  assumes "zwf es"
  shows "ziplistIndex (zblk es c) i = Some (map_option (zpos es) (zindex es i))"
proof (cases "i < 0")
  case False
  have "index_forward (nat i) (zblk es c) 10 = Some (zpos es (nat i), nat i - length es)"
    using index_forward_ok [of "[]" es "nat i" c] assms by (simp add: zpos_def)
  moreover have "\<exists>x. byte_at (zblk es c) (zpos es (nat i)) = Some x \<and> (x = ZIP_END \<longleftrightarrow> length es \<le> nat i)"
    using zpos_byte [OF assms, of "nat i" c] zpos_byte [OF assms, of "length es" c] by (cases "nat i \<le> length es") (auto simp: zpos_def)
  ultimately show ?thesis using False by (auto simp: ziplistIndex_def ZIPLIST_HEADER_SIZE_def zindex_def)
next
  case True
  define k where "k = nat (- i - 1)"
  show ?thesis
  proof (cases es rule: rev_cases)
    case Nil
    then show ?thesis using True zblk_get(2) [OF assms, of c] zpos_byte [OF assms, of 0 c] by (auto simp: ziplistIndex_def zindex_def zpos_def)
  next
    case (snoc l e)
    have w: "zwf (l @ e # [])" using assms snoc by simp
    have t: "ZIPLIST_TAIL_OFFSET (zblk es c) = Some (10 + tot l)" using zblk_get(2) [OF assms, of c] by (simp add: snoc tailoff_def)
    obtain x where x: "byte_at (zblk es c) (10 + tot l) = Some x" "x \<noteq> ZIP_END" using zpos_byte [OF assms, of "length l" c] by (auto simp: zpos_def snoc)
    have b: "index_back k (zblk es c) (10 + tot l) (last_len 0 l) = Some (zpos es (length l - k), k - length l)"
      using index_back_ok [OF w, of k c] by (simp add: zpos_def snoc)
    obtain y where y: "byte_at (zblk es c) (zpos es (length l - k)) = Some y" "y \<noteq> ZIP_END"
      using zpos_byte [OF assms, of "length l - k" c] diff_le_self [of "length l" k] by (auto simp: snoc le_Suc_eq)
    have "zindex es i = (if k \<le> length l then Some (length l - k) else None)" using True by (auto simp: zindex_def snoc k_def)
    then show ?thesis using True t x y b zblk_prevlen(1) [OF w refl, of c] by (simp add: ziplistIndex_def k_def [symmetric] snoc)
  qed
qed

lemma zpos_next: "i < length es \<Longrightarrow> zpos es (Suc i) = zpos es i + elen (es ! i)"
  by (simp add: zpos_def take_Suc_conv_app_nth)

lemma zpos_entry:
  assumes "zwf es" "i < length es"
  shows "zipRawEntryLength (zblk es c) (zpos es i) = Some (elen (es ! i))"
    "ZIP_DECODE_PREVLEN (zblk es c) (zpos es i) = Some (fsize (fst (es ! i)), last_len 0 (take i es))"
    "ZIP_DECODE_PREVLENSIZE (zblk es c) (zpos es i) = Some (fsize (fst (es ! i)))"
  using zblk_prevlen [of "take i es" "es ! i" "drop (Suc i) es" "zpos es i" c] assms by (simp_all add: id_take_nth_drop [symmetric] zpos_def)

lemma ziplistNext_ok:
  assumes "zwf es" "i \<le> length es"
  shows "ziplistNext (zblk es c) (zpos es i) = Some (if Suc i < length es then Some (zpos es (Suc i)) else None)"
proof (cases "i < length es")
  case True
  then show ?thesis using zpos_byte [OF assms, of c] zpos_entry(1) [OF assms(1) True, of c] zpos_byte [OF assms(1), of "Suc i" c] zpos_next [OF True]
    by (auto simp: ziplistNext_def)
qed (use assms zpos_byte [OF assms, of c] in \<open>auto simp: ziplistNext_def\<close>)

lemma ziplistPrev_ok:
  assumes "zwf es" "i \<le> length es"
  shows "ziplistPrev (zblk es c) (zpos es i) = Some (if 0 < i then Some (zpos es (i - 1)) else None)"
proof -
  have pr: "0 < last_len 0 (take i es) \<and> zpos es i = zpos es (i - 1) + last_len 0 (take i es)" if "0 < i"
  proof -
    from that obtain j where j: "i = Suc j" by (cases i) auto
    then have "last_len 0 (take i es) = elen (es ! j)" using assms(2) by (simp add: take_Suc_conv_app_nth last_len_def)
    then show ?thesis using zpos_next [of j es] elen_ge [of "es ! j"] assms(2) j by simp
  qed
  show ?thesis
  proof (cases "i < length es")
    case True
    have "zpos es i = ZIPLIST_HEADER_SIZE \<longleftrightarrow> i = 0" using pr by (cases "i = 0") (auto simp: zpos_def ZIPLIST_HEADER_SIZE_def)
    then show ?thesis using True zpos_byte [OF assms, of c] zpos_entry(2) [OF assms(1) True, of c] pr by (auto simp: ziplistPrev_def)
  next
    case False
    then have i: "i = length es" using assms by simp
    have "10 + tailoff es = zpos es (i - 1)" by (simp add: i tailoff_def zpos_def butlast_conv_take)
    then show ?thesis using i zpos_byte [OF assms, of c] zblk_get(2) [OF assms(1), of c] zpos_byte [OF assms(1), of "i - 1" c]
      by (cases es) (auto simp: ziplistPrev_def)
  qed
qed

section \<open>Values\<close>

lemma zipLoadInteger_app: "zipLoadInteger (A @ B) (length A + i) enc = zipLoadInteger B i enc"
  by (simp only: zipLoadInteger_def mem_read_app)

text \<open>What the header of an entry says and what is stored behind it.\<close>

lemma zpos_decode:
  assumes "zwf es" "i < length es"
  shows "\<exists>enc ls l. ZIP_DECODE_LENGTH (zblk es c) (zpos es i + fsize (fst (es ! i))) = Some (enc, ls, l) \<and>
    fsize (fst (es ! i)) + ls + l = elen (es ! i) \<and>
    (case zipTryEncoding (snd (es ! i)) of
       Some (v, _) \<Rightarrow> \<not> ZIP_IS_STR enc \<and> zipLoadInteger (zblk es c) (zpos es i + fsize (fst (es ! i)) + ls) enc = Some v
     | None \<Rightarrow> ZIP_IS_STR enc \<and> l = length (snd (es ! i)) \<and> mem_read (zblk es c) (zpos es i + fsize (fst (es ! i)) + ls) l = Some (snd (es ! i)))"
proof -
  obtain b s where e: "es ! i = (b, s)" by (cases "es ! i")
  have es: "es = take i es @ (b, s) # drop (Suc i) es" using id_take_nth_drop [OF assms(2)] e by simp
  let ?pl = "last_len 0 (take i es)"
  have w: "zwf (take i es @ (b, s) # drop (Suc i) es)" using assms es by simp
  note z = zblk_entry(1) [OF w refl, of c] zblk_entry(3) [OF w refl]
  define H where "H = zhdr (11 + tot (take i es) + tot ((b, s) # drop (Suc i) es)) (10 + tailoff (take i es @ (b, s) # drop (Suc i) es)) c @ layout 0 (take i es) @ zfield b ?pl"
  define X where "X = layout (elen (b, s)) (drop (Suc i) es) @ [ZIP_END]"
  have zl: "zblk es c = H @ val_enc s @ X" using z(1) es by (simp add: H_def X_def zentry_def)
  have lH: "zpos es i + fsize b = length H" by (simp add: H_def zpos_def)
  have "length s < 2 ^ 32" using z(2) by (simp add: ent_ok_def)
  from decode_val [OF this, of X] obtain enc ls l where d: "ZIP_DECODE_LENGTH (val_enc s @ X) 0 = Some (enc, ls, l)" "ls + l = length (val_enc s)"
    "case zipTryEncoding s of Some (v, e') \<Rightarrow> enc = e' \<and> ls = 1 \<and> \<not> ZIP_IS_STR enc
     | None \<Rightarrow> ZIP_IS_STR enc \<and> l = length s \<and> val_enc s = entry_encoding 0 (length s) @ s \<and> ls = length (entry_encoding 0 (length s))" by blast
  have 1: "ZIP_DECODE_LENGTH (zblk es c) (zpos es i + fsize b) = Some (enc, ls, l)"
    using d(1) ZIP_DECODE_LENGTH_app [of H "val_enc s @ X" 0] by (simp add: zl lH)
  have 2: "case zipTryEncoding s of
       Some (v, _) \<Rightarrow> \<not> ZIP_IS_STR enc \<and> zipLoadInteger (zblk es c) (length H + ls) enc = Some v
     | None \<Rightarrow> ZIP_IS_STR enc \<and> l = length s \<and> mem_read (zblk es c) (length H + ls) l = Some s"
  proof (cases "zipTryEncoding s")
    case None
    then show ?thesis using d(3) mem_read_app [of "H @ entry_encoding 0 (length s)" "s @ X" 0] mem_read_pre [of _ s X] by (simp add: zl)
  next
    case (Some a)
    then obtain v e where a: "zipTryEncoding s = Some (v, e)" by (cases a) auto
    then have r: "- (2 ^ 63) \<le> v" "v < 2 ^ 63" "e = int_encoding v" by (simp_all add: try_some)
    show ?thesis using d(3) int_encoding_facts(4) [OF r(1,2)] zipLoadInteger_app [of "H @ [e]" "int_bytes v e @ X" 0 e]
      by (auto simp: a zl r(3) val_enc_def)
  qed
  show ?thesis unfolding e fst_conv snd_conv lH using 1 2 d(2) lH by (intro exI [of _ enc] exI [of _ ls] exI [of _ l]) (simp add: elen_def)
qed

lemma zpos_zipEntry:
  assumes "zwf es" "i < length es"
  shows "\<exists>ze. zipEntry (zblk es c) (zpos es i) = Some ze \<and>
    (case zipTryEncoding (snd (es ! i)) of
       Some (v, _) \<Rightarrow> \<not> ZIP_IS_STR (ze_encoding ze) \<and> zipLoadInteger (zblk es c) (zpos es i + headersize ze) (ze_encoding ze) = Some v
     | None \<Rightarrow> ZIP_IS_STR (ze_encoding ze) \<and> ze_len ze = length (snd (es ! i)) \<and> mem_read (zblk es c) (zpos es i + headersize ze) (ze_len ze) = Some (snd (es ! i)))"
  using zpos_decode [OF assms, of c] zpos_entry(2) [OF assms, of c]
  by (cases "zipTryEncoding (snd (es ! i))") (auto simp: zipEntry_def add.assoc)

definition zval :: "bytes \<Rightarrow> zip_value" where
  "zval s = (case zipTryEncoding s of Some (v, _) \<Rightarrow> Zip_int v | None \<Rightarrow> Zip_str s)"

lemma ziplistGet_ok:
  assumes "zwf es" "i \<le> length es"
  shows "ziplistGet (zblk es c) (Some (zpos es i)) = Some (if i < length es then Some (zval (snd (es ! i))) else None)"
proof (cases "i < length es")
  case True
  then show ?thesis using zpos_byte [OF assms, of c] zpos_zipEntry [OF assms(1) True, of c]
    by (auto simp: ziplistGet_def zval_def split: option.splits)
qed (use assms zpos_byte [OF assms, of c] in \<open>auto simp: ziplistGet_def\<close>)

text \<open>Two strings that are stored as the same integer are equal.\<close>

lemma try_inj: "zipTryEncoding s = Some (v, e) \<Longrightarrow> zipTryEncoding s' = Some (v, e') \<Longrightarrow> s = s'"
  by (simp add: try_some)

lemma zval_inj: "zval s = zval s' \<longleftrightarrow> s = s'"
  using try_inj [of s _ _ s'] by (auto simp: zval_def split: option.splits)

lemma ziplistCompare_ok:
  assumes "zwf es" "i < length es"
  shows "ziplistCompare (zblk es c) (zpos es i) s = Some (snd (es ! i) = s)"
proof -
  obtain x where x: "byte_at (zblk es c) (zpos es i) = Some x" "x \<noteq> ZIP_END" using zpos_byte [OF assms(1), of i c] assms(2) by auto
  from zpos_zipEntry [OF assms, of c] obtain ze where ze: "zipEntry (zblk es c) (zpos es i) = Some ze"
    "case zipTryEncoding (snd (es ! i)) of
       Some (v, _) \<Rightarrow> \<not> ZIP_IS_STR (ze_encoding ze) \<and> zipLoadInteger (zblk es c) (zpos es i + headersize ze) (ze_encoding ze) = Some v
     | None \<Rightarrow> ZIP_IS_STR (ze_encoding ze) \<and> ze_len ze = length (snd (es ! i)) \<and> mem_read (zblk es c) (zpos es i + headersize ze) (ze_len ze) = Some (snd (es ! i))" by blast
  show ?thesis using x ze try_inj [of "snd (es ! i)" _ _ s]
    by (cases "zipTryEncoding (snd (es ! i))"; cases "zipTryEncoding s") (auto simp: ziplistCompare_def)
qed

section \<open>Search and length\<close>

fun zfind :: "bytes \<Rightarrow> nat \<Rightarrow> nat \<Rightarrow> bytes list \<Rightarrow> nat option" where
  "zfind v skip k [] = None"
| "zfind v skip 0 (s # ss) = (if s = v then Some 0 else map_option Suc (zfind v skip skip ss))"
| "zfind v skip (Suc k) (s # ss) = map_option Suc (zfind v skip k ss)"

lemma find_loop_ok:
  assumes "zwf es" "i \<le> length es"
  shows "find_loop (zblk es c) (zpos es i) v skip k = Some (map_option (\<lambda>j. zpos es (i + j)) (zfind v skip k (map snd (drop i es))))"
  using assms
proof (induction "length es - i" arbitrary: i k)
  case 0
  then show ?case using zpos_byte [OF 0(2,3), of c] by (subst find_loop.simps) auto
next
  case (Suc n)
  then have i: "i < length es" "n = length es - Suc i" "Suc i \<le> length es" by simp_all
  obtain x where x: "byte_at (zblk es c) (zpos es i) = Some x" "x \<noteq> ZIP_END" using zpos_byte [OF Suc(3,4), of c] i by auto
  have dr: "drop i es = (es ! i) # drop (Suc i) es" using i(1) by (rule Cons_nth_drop_Suc [symmetric])
  from zpos_decode [OF Suc(3) i(1), of c] obtain enc ls l where d: "ZIP_DECODE_LENGTH (zblk es c) (zpos es i + fsize (fst (es ! i))) = Some (enc, ls, l)"
    "fsize (fst (es ! i)) + ls + l = elen (es ! i)"
    "case zipTryEncoding (snd (es ! i)) of
       Some (v, _) \<Rightarrow> \<not> ZIP_IS_STR enc \<and> zipLoadInteger (zblk es c) (zpos es i + fsize (fst (es ! i)) + ls) enc = Some v
     | None \<Rightarrow> ZIP_IS_STR enc \<and> l = length (snd (es ! i)) \<and> mem_read (zblk es c) (zpos es i + fsize (fst (es ! i)) + ls) l = Some (snd (es ! i))" by blast
  have q: "zpos es i + fsize (fst (es ! i)) + ls + l = zpos es (Suc i)" using d(2) zpos_next [OF i(1)] by simp
  have f: "(if ZIP_IS_STR enc then
       if l = length v then do { str \<leftarrow> mem_read (zblk es c) (zpos es i + fsize (fst (es ! i)) + ls) l; Some (str = v) } else Some False
     else case zipTryEncoding v of
       Some (vll, _) \<Rightarrow> do { ll \<leftarrow> zipLoadInteger (zblk es c) (zpos es i + fsize (fst (es ! i)) + ls) enc; Some (ll = vll) }
     | None \<Rightarrow> Some False) = Some (snd (es ! i) = v)"
    using d(3) try_inj [of "snd (es ! i)" _ _ v] by (cases "zipTryEncoding (snd (es ! i))"; cases "zipTryEncoding v") auto
  note IH = Suc(1) [OF i(2) Suc(3) i(3)]
  have u: "find_loop (zblk es c) (zpos es i) v skip k =
     (if k = 0 then if snd (es ! i) = v then Some (Some (zpos es i)) else find_loop (zblk es c) (zpos es (Suc i)) v skip skip
      else find_loop (zblk es c) (zpos es (Suc i)) v skip (k - 1))"
    using x(2) by (subst find_loop.simps) (simp only: x(1) zpos_entry(3) [OF Suc(3) i(1)] d(1) bind.bind_lunit prod.case Let_def f q if_False)
  show ?case unfolding u IH dr by (cases k) (auto simp: option.map_comp o_def)
qed

lemma ziplistFind_ok:
  assumes "zwf es" "i \<le> length es"
  shows "ziplistFind (zblk es c) (zpos es i) v skip = Some (map_option (\<lambda>j. zpos es (i + j)) (zfind v skip 0 (map snd (drop i es))))"
  by (simp add: ziplistFind_def find_loop_ok assms)

lemma len_loop_ok:
  assumes "zwf es" "i \<le> length es"
  shows "len_loop (zblk es c) (zpos es i) n = Some (n + (length es - i))"
  using assms
proof (induction "length es - i" arbitrary: i n)
  case 0
  then show ?case using zpos_byte [OF 0(2,3), of c] by (subst len_loop.simps) auto
next
  case (Suc m)
  then have i: "i < length es" "m = length es - Suc i" "Suc i \<le> length es" by simp_all
  show ?case using zpos_byte [OF Suc(3,4), of c] i zpos_entry(1) [OF Suc(3) i(1), of c] Suc(1) [OF i(2) Suc(3) i(3), of "n + 1"] zpos_next [OF i(1)]
    by (subst len_loop.simps) auto
qed

lemma ziplistLen_ok:
  assumes "zwf es" "c = length es \<and> c < 65535 \<or> c = 65535"
  shows "ziplistLen (zblk es c) = Some (zblk es (if length es < 65535 then length es else c), length es)"
proof (cases "c < 65535")
  case True
  then show ?thesis using assms zblk_get(3) [OF assms(1), of c] by (auto simp: ziplistLen_def UINT16_MAX_def)
next
  case False
  have "len_loop (zblk es c) 10 0 = Some (length es)" using len_loop_ok [OF assms(1), of 0 c 0] by (simp add: zpos_def)
  moreover have "set_le 2 (zblk es c) 8 (int (length es)) = Some (zblk es (length es))"
    by (simp add: zblk_def) (rule zhdr_set(3) [OF refl])
  moreover have "ZIPLIST_LENGTH (zblk es c) = Some c" using assms False by (intro zblk_get(3)) auto
  ultimately show ?thesis using assms False by (auto simp: ziplistLen_def UINT16_MAX_def ZIPLIST_HEADER_SIZE_def)
qed

end
