(* ===== verification/Ziplist_Refine.thy ===== *)
theory Ziplist_Refine
  imports Ziplist_List
begin

text \<open>
  A ziplist is a list of strings: the refinement for histories of operations, an interpretation
  of the locale \<open>simulation\<close>, and the properties of the component.
\<close>

section \<open>Representation\<close>

text \<open>A bound of the size of the entries that does not depend on the widths of their fields.\<close>

definition zsize :: "bytes list \<Rightarrow> nat" where
  "zsize ss = sum_list (map (\<lambda>s. length s + 14) ss)"

lemma zsize_simps [simp]: "zsize [] = 0" "zsize (s # ss) = length s + 14 + zsize ss" "zsize (xs @ ys) = zsize xs + zsize ys"
  by (simp_all add: zsize_def)

lemma val_enc_le: "length (val_enc s) \<le> length s + 9"
proof -
  have "length (int_bytes v e) \<le> 8" for v e by (simp add: int_bytes_def)
  moreover have "length (entry_encoding 0 n) \<le> 9" for n by (simp add: entry_encoding_def)
  ultimately show ?thesis by (auto simp: val_enc_def add.commute intro: trans_le_add2 split: option.split)
qed

lemma tot_le: "tot es \<le> zsize (map snd es)"
proof (induction es)
  case (Cons e es)
  have "elen e \<le> length (snd e) + 14" using val_enc_le [of "snd e"] by (simp add: elen_def fsize_def)
  then show ?case using Cons by simp
qed simp

definition zroom :: "bytes list \<Rightarrow> bool" where "zroom ss \<longleftrightarrow> 16 + zsize ss < 2 ^ 32"

lemma zroom_bound: "zroom (map snd es) \<Longrightarrow> 16 + tot es < 2 ^ 32"
  using tot_le [of es] by (simp add: zroom_def)

lemma zsize_take: "zsize (take k ss) + zsize (drop k ss) = zsize ss"
  by (metis append_take_drop_id zsize_simps(3))

lemma zroom_sub: "zroom (xs @ ys @ zs) \<Longrightarrow> zroom (xs @ zs)"
  by (simp add: zroom_def)

definition zl_rep :: "bytes \<Rightarrow> bytes list \<Rightarrow> bool" where
  "zl_rep zl ss \<longleftrightarrow> zroom ss \<and> (\<exists>es c. zl = zblk es c \<and> zwf es \<and> (c = length es \<and> c < 65535 \<or> c = 65535) \<and> map snd es = ss)"

lemma zl_repE:
  assumes "zl_rep zl ss"
  obtains es c where "zl = zblk es c" "zwf es" "c = length es \<and> c < 65535 \<or> c = 65535" "map snd es = ss" "length es = length ss" "zroom ss" "c < 2 ^ 16"
proof -
  from assms obtain es c where "zl = zblk es c" "zwf es" "c = length es \<and> c < 65535 \<or> c = 65535" "map snd es = ss" "zroom ss"
    unfolding zl_rep_def by blast
  moreover then have "length es = length ss" "c < 2 ^ 16" by auto
  ultimately show ?thesis using that by blast
qed

lemma zl_repI:
  assumes "zwf es" "c = length es \<and> c < 65535 \<or> c = 65535" "map snd es = ss" "zroom ss"
  shows "zl_rep (zblk es c) ss"
  using assms by (auto simp: zl_rep_def)

lemma ziplistNew_ok: "ziplistNew junk = Some (zblk [] 0)"
proof -
  define J where "J = map junk [0..<11]"
  define J0 J1 J2 J3 where "J0 = take 4 J" and "J1 = take 4 (drop 4 J)" and "J2 = take 2 (drop 8 J)" and "J3 = drop 10 J"
  have J: "J = [] @ J0 @ (J1 @ J2 @ J3)" "length J0 = 4" "length J1 = 4" "length J2 = 2" "length J3 = 1"
    by (simp_all add: J_def J0_def J1_def J2_def J3_def eval_nat_numeral)
  have "set_le 4 J 0 11 = Some ((le_encode 4 11) @ J1 @ (J2 @ J3))"
    using mem_write_mid [of 0 "[]" "le_encode 4 11" J0 "J1 @ J2 @ J3"] J by (simp add: set_le_def)
  moreover have "set_le 4 ((le_encode 4 11) @ J1 @ (J2 @ J3)) 4 10 = Some ((le_encode 4 11 @ le_encode 4 10) @ J2 @ J3)"
    using mem_write_mid [of 4 "le_encode 4 11" "le_encode 4 10" J1 "J2 @ J3"] J by (simp add: set_le_def)
  moreover have "set_le 2 ((le_encode 4 11 @ le_encode 4 10) @ J2 @ J3) 8 0 = Some ((le_encode 4 11 @ le_encode 4 10 @ le_encode 2 0) @ J3 @ [])"
    using mem_write_mid [of 8 "le_encode 4 11 @ le_encode 4 10" "le_encode 2 0" J2 "J3"] J by (simp add: set_le_def)
  moreover have "mem_write ((le_encode 4 11 @ le_encode 4 10 @ le_encode 2 0) @ J3 @ []) 10 [ZIP_END] =
      Some ((le_encode 4 11 @ le_encode 4 10 @ le_encode 2 0) @ [ZIP_END] @ [])"
    using J by (intro mem_write_mid) simp_all
  ultimately show ?thesis by (simp add: ziplistNew_def ZIPLIST_HEADER_SIZE_def J_def [symmetric] zblk_def zhdr_def)
qed

section \<open>Operations on represented lists\<close>

lemma zroom_ins: "zroom (s # ss) \<Longrightarrow> zroom (take k ss @ s # drop k ss)"
  using zsize_take [of k ss] by (simp add: zroom_def)

lemma zfind_less: "zfind v skip k ss = Some j \<Longrightarrow> j < length ss"
  by (induction v skip k ss arbitrary: j rule: zfind.induct) (auto split: if_splits)

lemma rep_position:
  assumes "zl_rep zl ss" "k \<le> length ss"
  obtains es c where "zl = zblk es c" "zwf es" "zwf (take k es @ drop k es)" "map snd es = ss" "zpos es k = 10 + tot (take k es)" "c < 2 ^ 16" "c = length es \<and> c < 65535 \<or> c = 65535"
    "zroom ss" "length es = length ss"
  using assms(1) by (elim zl_repE) (auto intro: that simp: zpos_def)

lemma insert_rep:
  assumes "zl_rep zl ss" "k \<le> length ss" "zroom (take k ss @ s # drop k ss)" "zl = zblk es c" "zwf es" "map snd es = ss"
    "c = length es \<and> c < 65535 \<or> c = 65535"
  shows "\<exists>zl'. raw_ziplistInsert junk zl (zpos es k) s = Some zl' \<and> zl_rep zl' (take k ss @ s # drop k ss)"
proof -
  let ?l = "take k es" and ?r = "drop k es" and ?i = "ins (take k es) s (drop k es)" and ?c = "if c < 65535 then c + 1 else c"
  have m: "map snd ?i = take k ss @ s # drop k ss" by (simp add: map_snd_ins take_map drop_map flip: assms(6))
  have b: "16 + tot ?i < 2 ^ 32" using assms(3) m by (intro zroom_bound) simp
  have s: "length s < 2 ^ 32" using assms(3) by (simp add: zroom_def)
  have c16: "c < 2 ^ 16" using assms(7) by auto
  have "raw_ziplistInsert junk (zblk (?l @ ?r) c) (zpos es k) s = Some (zblk ?i ?c)"
    using assms(5) b c16 by (intro raw_insert_ok) (simp_all add: zpos_def)
  moreover have "zl_rep (zblk ?i ?c) (take k ss @ s # drop k ss)"
  proof (rule zl_repI)
    have "length es = length ss" using assms(6) by auto
    then show "?c = length ?i \<and> ?c < 65535 \<or> ?c = 65535" using assms(2,7) by auto
  qed (use zwf_ins [of ?l ?r s] assms(3,5) b s m in simp_all)
  ultimately show ?thesis using assms(4) by simp
qed

lemma delete_rep_block:
  assumes "zl_rep zl ss" "k < length ss" "zl = zblk es c" "zwf es" "map snd es = ss" "c = length es \<and> c < 65535 \<or> c = 65535" "n \<noteq> 0"
  shows "\<exists>zl'. raw_ziplistDelete junk zl (zpos es k) n = Some zl' \<and>
    zl' = zblk (del (take k es) (drop n (drop k es))) (if c < 65535 then c - length (take n (drop k es)) else c) \<and>
    zl_rep zl' (take k ss @ drop (k + n) ss) \<and> zwf (del (take k es) (drop n (drop k es)))"
proof -
  let ?l = "take k es" and ?r = "drop k es" and ?d = "del (take k es) (drop n (drop k es))"
  let ?c = "if c < 65535 then c - length (take n (drop k es)) else c"
  have ls: "length es = length ss" using assms(5) by auto
  have m: "map snd ?d = take k ss @ drop (k + n) ss" by (simp add: map_snd_del take_map drop_map add.commute flip: assms(5))
  have "zroom (take k ss @ take n (drop k ss) @ drop n (drop k ss))" using assms(1) by (simp only: append_take_drop_id zl_rep_def)
  then have zr: "zroom (take k ss @ drop (k + n) ss)" using zroom_sub by (metis add.commute drop_drop)
  have b: "16 + tot ?d < 2 ^ 32" using zr m by (intro zroom_bound) simp
  have w: "zwf ?d" by (rule zwf_del [of _ "take n (drop k es)"]) (use assms(4) b in \<open>simp_all only: append_take_drop_id\<close>)
  have "raw_ziplistDelete junk (zblk (?l @ ?r) c) (zpos es k) n = Some (zblk ?d ?c)"
  proof (rule raw_delete_ok)
    show "c < 2 ^ 16" "c < 65535 \<Longrightarrow> length (take k es) + length (drop k es) \<le> c" using assms(6) by auto
    show "drop k es \<noteq> []" using assms(2) ls by simp
  qed (use assms(4,7) b in \<open>simp_all add: zpos_def\<close>)
  moreover have "zl_rep (zblk ?d ?c) (take k ss @ drop (k + n) ss)"
  proof (rule zl_repI)
    show "?c = length ?d \<and> ?c < 65535 \<or> ?c = 65535" using assms(2,6) ls by auto
  qed (use zr m w in simp_all)
  ultimately show ?thesis using assms(3) w by simp
qed

lemma delete_rep:
  assumes "zl_rep zl ss" "k < length ss" "zl = zblk es c" "zwf es" "map snd es = ss" "c = length es \<and> c < 65535 \<or> c = 65535"
  shows "\<exists>zl'. raw_ziplistDelete junk zl (zpos es k) n = Some zl' \<and> zl_rep zl' (take k ss @ drop (k + n) ss)"
proof (cases "n = 0")
  case True
  have kl: "k < length es" using assms(2,5) by auto
  from zpos_zipEntry [OF assms(4) kl, of c] obtain ze where ze: "zipEntry (zblk es c) (zpos es k) = Some ze" by blast
  have "ze_p ze = zpos es k" using ze by (auto simp: zipEntry_def split: bind_splits prod.splits)
  then show ?thesis using True assms ze zpos_byte [OF assms(4), of k c] kl by (auto simp: raw_ziplistDelete_def)
qed (use delete_rep_block [OF assms] in blast)

text \<open>The position \<open>p\<close> of the element \<open>k\<close>, or of the end, in a block that represents \<open>ss\<close>.\<close>

definition zl_pos :: "bytes \<Rightarrow> bytes list \<Rightarrow> nat \<Rightarrow> nat \<Rightarrow> bool" where
  "zl_pos zl ss k p \<longleftrightarrow> k \<le> length ss \<and> zroom ss \<and>
     (\<exists>es c. zl = zblk es c \<and> zwf es \<and> (c = length es \<and> c < 65535 \<or> c = 65535) \<and> map snd es = ss \<and> p = zpos es k)"

lemma zl_posE:
  assumes "zl_pos zl ss k p"
  obtains es c where "zl = zblk es c" "zwf es" "c = length es \<and> c < 65535 \<or> c = 65535" "map snd es = ss" "p = zpos es k" "k \<le> length ss" "zroom ss" "length es = length ss"
proof -
  from assms obtain es c where "zl = zblk es c" "zwf es" "c = length es \<and> c < 65535 \<or> c = 65535" "map snd es = ss" "p = zpos es k" "k \<le> length ss" "zroom ss"
    unfolding zl_pos_def by blast
  moreover then have "length es = length ss" by auto
  ultimately show ?thesis using that by blast
qed

lemma zl_posI:
  assumes "zwf es" "c = length es \<and> c < 65535 \<or> c = 65535" "map snd es = ss" "zroom ss" "k \<le> length ss"
  shows "zl_pos (zblk es c) ss k (zpos es k)"
  unfolding zl_pos_def using assms by blast

lemma zl_pos_rep: "zl_pos zl ss k p \<Longrightarrow> zl_rep zl ss"
  unfolding zl_pos_def zl_rep_def by blast

lemma zl_pos_index:
  assumes "zl_rep zl ss"
  shows "\<exists>r. ziplistIndex zl 0 = Some r \<and> (case r of None \<Rightarrow> ss = [] | Some p \<Rightarrow> ss \<noteq> [] \<and> zl_pos zl ss 0 p)"
proof -
  from assms obtain es c where z: "zl = zblk es c" "zwf es" "c = length es \<and> c < 65535 \<or> c = 65535" "map snd es = ss" "length es = length ss" "zroom ss" by (elim zl_repE)
  have "ziplistIndex zl 0 = Some (if ss = [] then None else Some (zpos es 0))" using ziplistIndex_ok [OF z(2), of c 0] z(1,5) by (cases ss) (auto simp: zindex_def)
  then show ?thesis using zl_posI [OF z(2,3,4,6), of 0] z(1) by simp
qed

lemma zl_pos_next:
  assumes "zl_pos zl ss k p"
  shows "\<exists>r. ziplistNext zl p = Some r \<and> (case r of None \<Rightarrow> length ss \<le> Suc k | Some q \<Rightarrow> Suc k < length ss \<and> zl_pos zl ss (Suc k) q)"
proof -
  from assms obtain es c where z: "zl = zblk es c" "zwf es" "c = length es \<and> c < 65535 \<or> c = 65535" "map snd es = ss" "zroom ss" "p = zpos es k" "k \<le> length ss" "length es = length ss" by (elim zl_posE)
  have "ziplistNext zl p = Some (if Suc k < length ss then Some (zpos es (Suc k)) else None)" using ziplistNext_ok [OF z(2), of k c] z(1,6-8) by simp
  then show ?thesis using zl_posI [OF z(2,3,4,5), of "Suc k"] z(1) by simp
qed

lemma zl_pos_find:
  assumes "zl_pos zl ss k p"
  shows "\<exists>r. ziplistFind zl p v skip = Some r \<and>
     (case zfind v skip 0 (drop k ss) of None \<Rightarrow> r = None | Some j \<Rightarrow> \<exists>q. r = Some q \<and> zl_pos zl ss (k + j) q)"
proof -
  from assms obtain es c where z: "zl = zblk es c" "zwf es" "c = length es \<and> c < 65535 \<or> c = 65535" "map snd es = ss" "zroom ss" "p = zpos es k" "k \<le> length ss" "length es = length ss" by (elim zl_posE)
  have d: "map snd (drop k es) = drop k ss" by (simp add: drop_map flip: z(4))
  have f: "ziplistFind zl p v skip = Some (map_option (\<lambda>j. zpos es (k + j)) (zfind v skip 0 (drop k ss)))"
    using ziplistFind_ok [OF z(2), of k c v skip] z(1,6-8) d by simp
  show ?thesis
  proof (cases "zfind v skip 0 (drop k ss)")
    case (Some j)
    then show ?thesis using f zfind_less [OF Some] zl_posI [OF z(2,3,4,5), of "k + j"] z(1) by simp
  qed (use f in simp)
qed

lemma zl_pos_get:
  assumes "zl_pos zl ss k p"
  shows "ziplistGet zl (Some p) = Some (if k < length ss then Some (zval (ss ! k)) else None)"
proof -
  from assms obtain es c where z: "zl = zblk es c" "zwf es" "map snd es = ss" "p = zpos es k" "k \<le> length ss" "length es = length ss" by (elim zl_posE)
  have "snd (es ! k) = ss ! k" if "k < length ss" using that nth_map [of k es snd] z(3,6) by simp
  then show ?thesis using ziplistGet_ok [OF z(2), of k c] z(1,4-6) by simp
qed

lemma del_pos: "zpos (del (take k es) r) k = zpos es k" if "k \<le> length es"
  using that by (simp add: zpos_def del_def)

lemma zl_pos_delete:
  assumes "zl_pos zl ss k p" "k < length ss"
  shows "\<exists>zl'. ziplistDelete junk zl p = Some (zl', p) \<and> zl_pos zl' (take k ss @ drop (Suc k) ss) k p"
proof -
  from assms(1) obtain es c where z: "zl = zblk es c" "zwf es" "c = length es \<and> c < 65535 \<or> c = 65535" "map snd es = ss" "p = zpos es k" "zroom ss" "length es = length ss"
    by (elim zl_posE)
  obtain zl' where d: "raw_ziplistDelete junk zl (zpos es k) 1 = Some zl'" "zl' = zblk (del (take k es) (drop 1 (drop k es))) (if c < 65535 then c - length (take 1 (drop k es)) else c)"
    "zl_rep zl' (take k ss @ drop (k + 1) ss)" "zwf (del (take k es) (drop 1 (drop k es)))"
    using delete_rep_block [OF zl_pos_rep [OF assms(1)] assms(2) z(1,2,4,3), of 1 junk] by auto
  show ?thesis
  proof (intro exI conjI)
    show "ziplistDelete junk zl p = Some (zl', p)" using d(1) z(5) by (simp add: ziplistDelete_def)
    show "zl_pos zl' (take k ss @ drop (Suc k) ss) k p"
      unfolding zl_pos_def
    proof (intro conjI exI [of _ "del (take k es) (drop 1 (drop k es))"] exI [of _ "if c < 65535 then c - length (take 1 (drop k es)) else c"])
      show "zl' = zblk (del (take k es) (drop 1 (drop k es))) (if c < 65535 then c - length (take 1 (drop k es)) else c)" by (rule d(2))
      show "p = zpos (del (take k es) (drop 1 (drop k es))) k" using z(5,7) assms(2) by (simp add: del_pos)
      show "map snd (del (take k es) (drop 1 (drop k es))) = take k ss @ drop (Suc k) ss" by (simp add: map_snd_del take_map drop_map flip: z(4))
      show "(if c < 65535 then c - length (take 1 (drop k es)) else c) = length (del (take k es) (drop 1 (drop k es))) \<and>
          (if c < 65535 then c - length (take 1 (drop k es)) else c) < 65535 \<or> (if c < 65535 then c - length (take 1 (drop k es)) else c) = 65535"
        using z(3,7) assms(2) by auto
      show "zroom (take k ss @ drop (Suc k) ss)" using d(3) by (simp add: zl_rep_def)
    qed (use d(4) assms(2) in simp_all)
  qed
qed

lemma zl_pos_insert:
  assumes "zl_pos zl ss k p" "zroom (s # ss)"
  shows "\<exists>zl'. ziplistInsert junk zl p s = Some zl' \<and> zl_rep zl' (take k ss @ s # drop k ss)"
proof -
  from assms(1) obtain es c where z: "zl = zblk es c" "zwf es" "c = length es \<and> c < 65535 \<or> c = 65535" "map snd es = ss" "p = zpos es k" "k \<le> length ss"
    by (elim zl_posE)
  show ?thesis using insert_rep [OF zl_pos_rep [OF assms(1)] z(6) zroom_ins [OF assms(2)] z(1,2,4,3), of junk] z(5) by (simp add: ziplistInsert_def)
qed

section \<open>Histories\<close>

datatype zl_op = Zl_push bytes zip_where | Zl_insert int bytes | Zl_delete int | Zl_delete_range int nat
  | Zl_get int | Zl_find bytes nat | Zl_len

datatype zl_out = Zl_done | Zl_value "zip_value option" | Zl_found "zip_value option option" | Zl_count nat

text \<open>
  What the clients of a ziplist do with the functions of its interface: positions come from
  \<open>ziplistIndex\<close> and \<open>ziplistFind\<close>; the value after a found one is read.
\<close>

fun zl_step :: "(nat \<Rightarrow> u8) \<Rightarrow> zl_op \<Rightarrow> bytes \<Rightarrow> (bytes \<times> zl_out) option" where
  "zl_step junk (Zl_push s wh) zl = do { zl \<leftarrow> ziplistPush junk zl s wh; Some (zl, Zl_done) }"
| "zl_step junk (Zl_insert i s) zl = do {
     p \<leftarrow> ziplistIndex zl i;
     case p of None \<Rightarrow> Some (zl, Zl_done) | Some p \<Rightarrow> do { zl \<leftarrow> ziplistInsert junk zl p s; Some (zl, Zl_done) }
   }"
| "zl_step junk (Zl_delete i) zl = do {
     p \<leftarrow> ziplistIndex zl i;
     case p of None \<Rightarrow> Some (zl, Zl_done) | Some p \<Rightarrow> do { (zl, _) \<leftarrow> ziplistDelete junk zl p; Some (zl, Zl_done) }
   }"
| "zl_step junk (Zl_delete_range i n) zl = do { zl \<leftarrow> ziplistDeleteRange junk zl i n; Some (zl, Zl_done) }"
| "zl_step junk (Zl_get i) zl = do { p \<leftarrow> ziplistIndex zl i; v \<leftarrow> ziplistGet zl p; Some (zl, Zl_value v) }"
| "zl_step junk (Zl_find v skip) zl = do {
     p \<leftarrow> ziplistIndex zl 0;
     case p of None \<Rightarrow> Some (zl, Zl_found None)
     | Some p \<Rightarrow> do {
         q \<leftarrow> ziplistFind zl p v skip;
         case q of None \<Rightarrow> Some (zl, Zl_found None)
         | Some q \<Rightarrow> do { n \<leftarrow> ziplistNext zl q; r \<leftarrow> ziplistGet zl n; Some (zl, Zl_found (Some r)) }
       }
   }"
| "zl_step junk Zl_len zl = do { (zl, n) \<leftarrow> ziplistLen zl; Some (zl, Zl_count n) }"

definition nth_value :: "bytes list \<Rightarrow> nat \<Rightarrow> zip_value option" where
  "nth_value ss k = (if k < length ss then Some (zval (ss ! k)) else None)"

fun zl_spec :: "zl_op \<Rightarrow> bytes list \<Rightarrow> bytes list \<times> zl_out" where
  "zl_spec (Zl_push s wh) ss = ((case wh of ZIPLIST_HEAD \<Rightarrow> s # ss | ZIPLIST_TAIL \<Rightarrow> ss @ [s]), Zl_done)"
| "zl_spec (Zl_insert i s) ss = ((case zindex ss i of None \<Rightarrow> ss | Some k \<Rightarrow> take k ss @ s # drop k ss), Zl_done)"
| "zl_spec (Zl_delete i) ss = ((case zindex ss i of None \<Rightarrow> ss | Some k \<Rightarrow> take k ss @ drop (k + 1) ss), Zl_done)"
| "zl_spec (Zl_delete_range i n) ss = ((case zindex ss i of None \<Rightarrow> ss | Some k \<Rightarrow> take k ss @ drop (k + n) ss), Zl_done)"
| "zl_spec (Zl_get i) ss = (ss, Zl_value (case zindex ss i of None \<Rightarrow> None | Some k \<Rightarrow> nth_value ss k))"
| "zl_spec (Zl_find v skip) ss = (ss, Zl_found (map_option (\<lambda>j. nth_value ss (j + 1)) (zfind v skip 0 ss)))"
| "zl_spec Zl_len ss = (ss, Zl_count (length ss))"

text \<open>Insertions need room: the size of the block has 32 bits.\<close>

fun zl_ok :: "zl_op \<Rightarrow> bytes list \<Rightarrow> bool" where
  "zl_ok (Zl_push s wh) ss \<longleftrightarrow> zroom (s # ss)"
| "zl_ok (Zl_insert i s) ss \<longleftrightarrow> zroom (s # ss)"
| "zl_ok _ ss \<longleftrightarrow> True"

lemma zindex_map: "map snd es = ss \<Longrightarrow> zindex es i = zindex ss i"
  by (auto simp: zindex_def)

lemma get_rep:
  assumes "zwf es" "map snd es = ss" "k \<le> length ss"
  shows "ziplistGet (zblk es c) (Some (zpos es k)) = Some (nth_value ss k)"
  using ziplistGet_ok [OF assms(1), of k c] assms(2,3) by (auto simp: nth_value_def)

lemma push_sim:
  assumes r: "zl_rep zl ss" and ok: "zroom (s # ss)"
  shows "\<exists>zl'. ziplistPush junk zl s wh = Some zl' \<and> zl_rep zl' (case wh of ZIPLIST_HEAD \<Rightarrow> s # ss | ZIPLIST_TAIL \<Rightarrow> ss @ [s])"
proof -
  from r obtain es c where z: "zl = zblk es c" "zwf es" "c = length es \<and> c < 65535 \<or> c = 65535" "map snd es = ss" "length es = length ss" by (elim zl_repE)
  have p: "zpos es 0 = 10" "zpos es (length ss) = 10 + tot es" using z(5) by (simp_all add: zpos_def)
  show ?thesis
  proof (cases wh)
    case ZIPLIST_HEAD
    then show ?thesis using insert_rep [OF r _ _ z(1,2,4,3), of 0 s junk] ok p by (simp add: ziplistPush_def ZIPLIST_HEADER_SIZE_def)
  next
    case ZIPLIST_TAIL
    then show ?thesis using insert_rep [OF r _ _ z(1,2,4,3), of "length ss" s junk] zroom_ins [OF ok, of "length ss"] p zblk_get(1) [OF z(2), of c] z(1)
      by (simp add: ziplistPush_def)
  qed
qed

lemma find_sim:
  assumes "zl_rep zl ss"
  shows "zl_step junk (Zl_find v skip) zl = Some (zl, Zl_found (map_option (\<lambda>j. nth_value ss (j + 1)) (zfind v skip 0 ss)))"
proof -
  from assms obtain es c where z: "zl = zblk es c" "zwf es" "map snd es = ss" "length es = length ss" by (elim zl_repE)
  have i: "ziplistIndex zl 0 = Some (if ss = [] then None else Some (zpos es 0))" using ziplistIndex_ok [OF z(2), of c 0] z by (auto simp: zindex_def)
  have f: "ziplistFind zl (zpos es 0) v skip = Some (map_option (zpos es) (zfind v skip 0 ss))"
    using ziplistFind_ok [OF z(2), of 0 c v skip] z by simp
  have n: "do { n \<leftarrow> ziplistNext zl (zpos es j); r \<leftarrow> ziplistGet zl n; Some (zl, Zl_found (Some r)) } = Some (zl, Zl_found (Some (nth_value ss (j + 1))))"
    if "j < length ss" for j
    using that ziplistNext_ok [OF z(2), of j c] get_rep [OF z(2,3), of "j + 1" c] z(1,4) by (auto simp: ziplistGet_def nth_value_def split: if_splits)
  show ?thesis
  proof (cases "ss = []")
    case False
    then show ?thesis using i f n zfind_less [of v skip 0 ss] by (cases "zfind v skip 0 ss") auto
  qed (use i in simp)
qed

interpretation zl: simulation "zl_step junk" zl_spec zl_rep zl_ok for junk
proof
  fix zl ss op assume r: "zl_rep zl ss" and ok: "zl_ok op ss"
  from r obtain es c where z: "zl = zblk es c" "zwf es" "c = length es \<and> c < 65535 \<or> c = 65535" "map snd es = ss" "length es = length ss" "zroom ss" by (elim zl_repE)
  have i: "ziplistIndex zl j = Some (map_option (zpos es) (zindex ss j))" for j using ziplistIndex_ok [OF z(2), of c j] z(1) zindex_map [OF z(4)] by simp
  note less = zindex_less [of ss]
  show "\<exists>zl'. zl_step junk op zl = Some (zl', snd (zl_spec op ss)) \<and> zl_rep zl' (fst (zl_spec op ss))"
  proof (cases op)
    case (Zl_push s wh)
    then show ?thesis using push_sim [OF r, of s junk wh] ok by auto
  next
    case (Zl_insert j s)
    show ?thesis
    proof (cases "zindex ss j")
      case (Some k)
      then obtain zl' where "raw_ziplistInsert junk zl (zpos es k) s = Some zl'" "zl_rep zl' (take k ss @ s # drop k ss)"
        using insert_rep [OF r _ zroom_ins z(1,2,4,3), of k s junk] less [of j k] ok Zl_insert by auto
      then show ?thesis using i Zl_insert Some by (simp add: ziplistInsert_def)
    qed (use i r Zl_insert in simp)
  next
    case (Zl_delete j)
    show ?thesis
    proof (cases "zindex ss j")
      case (Some k)
      then obtain zl' where "raw_ziplistDelete junk zl (zpos es k) 1 = Some zl'" "zl_rep zl' (take k ss @ drop (k + 1) ss)"
        using delete_rep [OF r _ z(1,2,4,3), of k junk 1] less [of j k] by blast
      then show ?thesis using i Zl_delete Some by (simp add: ziplistDelete_def)
    qed (use i r Zl_delete in simp)
  next
    case (Zl_delete_range j n)
    show ?thesis
    proof (cases "zindex ss j")
      case (Some k)
      then obtain zl' where "raw_ziplistDelete junk zl (zpos es k) n = Some zl'" "zl_rep zl' (take k ss @ drop (k + n) ss)"
        using delete_rep [OF r _ z(1,2,4,3), of k junk n] less [of j k] by blast
      then show ?thesis using i Zl_delete_range Some by (simp add: ziplistDeleteRange_def)
    qed (use i r Zl_delete_range in \<open>simp add: ziplistDeleteRange_def\<close>)
  next
    case (Zl_get j)
    then show ?thesis using i [of j] r get_rep [OF z(2,4), of _ c] less [of j] z(1)
      by (cases "zindex ss j") (auto simp: ziplistGet_def dest: less_imp_le)
  next
    case (Zl_find v skip)
    then show ?thesis using find_sim [OF r, of junk v skip] r by simp
  next
    case Zl_len
    have "zl_rep (zblk es (if length es < 65535 then length es else c)) ss" using z by (intro zl_repI) auto
    then show ?thesis using ziplistLen_ok [OF z(2,3)] z(1,5) Zl_len by simp
  qed
qed

section \<open>Properties\<close>

lemma zl_rep_new: "zl_rep (zblk [] 0) []"
  by (rule zl_repI) (simp_all add: zwf_def zroom_def)

text \<open>
  C5. A ziplist is a list of strings: for every history of insertions at either end or before an element,
  deletions of an element or of a range, reads by index from either end, searches and counts that
  starts from a new ziplist and stays below the 32 bit size limit, no access is outside of the block, the
  results are those of the list, and the final block represents the list; the cascades of
  field updates, which change the sizes of entries, are never visible.
\<close>

theorem ziplist_refines_list:
  assumes "ok_ops zl_spec zl_ok ops []" and "spec_ops zl_spec ops [] = (ss, rs)"
  shows "\<exists>zl0 zl. ziplistNew junk = Some zl0 \<and> run_ops (zl_step junk) ops zl0 = Some (zl, rs) \<and> zl_rep zl ss"
  using zl.history [OF zl_rep_new assms(1), of junk] assms(2) ziplistNew_ok [of junk] by auto

definition zl_example :: "zl_op list" where
  "zl_example = [Zl_push [49, 48, 50, 52] ZIPLIST_TAIL, Zl_push [98] ZIPLIST_HEAD, Zl_insert (- 1) [99], Zl_find [99] 0, Zl_delete 0, Zl_get (- 1), Zl_len]"

lemma zl_example_value: "zval [49, 48, 50, 52] = Zip_int 1024" "zval [98] = Zip_str [98]" "zval [99] = Zip_str [99]"
  by (simp_all add: zval_def zipTryEncoding_def string2ll_def ULLONG_MAX_def LLONG_MAX_def)

theorem ziplist_refines_list_witness:
  "\<exists>zl0 zl. ziplistNew (\<lambda>_. 7) = Some zl0 \<and>
     run_ops (zl_step (\<lambda>_. 7)) zl_example zl0 =
       Some (zl, [Zl_done, Zl_done, Zl_done, Zl_found (Some (Some (Zip_int 1024))), Zl_done, Zl_value (Some (Zip_int 1024)), Zl_count 2]) \<and>
     zl_rep zl [[99], [49, 48, 50, 52]]"
proof (rule ziplist_refines_list)
  show "ok_ops zl_spec zl_ok zl_example []" by (simp add: zl_example_def zroom_def)
  show "spec_ops zl_spec zl_example [] = ([[99], [49, 48, 50, 52]],
      [Zl_done, Zl_done, Zl_done, Zl_found (Some (Some (Zip_int 1024))), Zl_done, Zl_value (Some (Zip_int 1024)), Zl_count 2])"
    by (simp add: zl_example_def zindex_def nth_value_def zl_example_value)
qed

text \<open>
  C37. Merging a ziplist with a non-empty one gives a ziplist that represents the concatenation, whichever of
  the two blocks is extended.
\<close>

theorem ziplistMerge_concat:
  assumes "zl_rep first xs" and "zl_rep second ys" and "ys \<noteq> []" and "zroom (xs @ ys)"
  shows "\<exists>zl b. ziplistMerge junk first second = Some (zl, b) \<and> zl_rep zl (xs @ ys)"
proof -
  from assms(1) obtain fs c1 where f: "first = zblk fs c1" "zwf fs" "c1 = length fs \<and> c1 < 65535 \<or> c1 = 65535" "map snd fs = xs" "c1 < 2 ^ 16" by (elim zl_repE)
  from assms(2) obtain es c2 where s: "second = zblk es c2" "zwf es" "c2 = length es \<and> c2 < 65535 \<or> c2 = 65535" "map snd es = ys" "c2 < 2 ^ 16" by (elim zl_repE)
  have m: "map snd (mrg fs es) = xs @ ys" by (simp add: map_snd_mrg f(4) s(4))
  have b: "16 + tot (mrg fs es) < 2 ^ 32" using assms(4) m by (intro zroom_bound) simp
  have ne: "es \<noteq> []" using assms(3) s(4) by auto
  have "zl_rep (zblk (mrg fs es) (min (c1 + c2) 65535)) (xs @ ys)"
  proof (rule zl_repI)
    show "min (c1 + c2) 65535 = length (mrg fs es) \<and> min (c1 + c2) 65535 < 65535 \<or> min (c1 + c2) 65535 = 65535" using f(3) s(3) by auto
  qed (use zwf_mrg [OF f(2) s(2) b] m assms(4) in simp_all)
  then show ?thesis using merge_ok [OF f(2,5) s(2,5) ne b, of junk] f(1) s(1) by auto
qed

theorem ziplistMerge_concat_witness:
  "\<exists>zl b. ziplistMerge (\<lambda>_. 7) (zblk [(False, [97]), (False, [98])] 2) (zblk [(True, [52])] 65535) = Some (zl, b) \<and> zl_rep zl ([[97], [98]] @ [[52]])"
proof (rule ziplistMerge_concat)
  have e: "elen (b, [x]) \<le> 15" for b x using val_enc_le [of "[x]"] by (simp add: elen_def fsize_def)
  show "zl_rep (zblk [(False, [97]), (False, [98])] 2) [[97], [98]]"
    using e [of False 97] e [of False 98] by (intro zl_repI) (simp_all add: zwf_def ent_ok_def zroom_def)
  show "zl_rep (zblk [(True, [52])] 65535) [[52]]"
    using e [of True 52] by (intro zl_repI) (simp_all add: zwf_def ent_ok_def zroom_def)
qed (simp_all add: zroom_def)

text \<open>
  C38. Merging a ziplist with an empty one leaves the tail offset behind the last entry: the elements are there, but the
  last one is not found from the end of the list.
\<close>

theorem ziplistMerge_empty_loses_tail:
  assumes "zl_rep first xs" and "xs \<noteq> []" and "ziplistNew junk = Some second"
  shows "\<exists>zl b. ziplistMerge junk first second = Some (zl, b) \<and> ziplistIndex first (- 1) \<noteq> Some None \<and> ziplistIndex zl (- 1) = Some None \<and>
     ZIPLIST_BYTES zl = ZIPLIST_BYTES first"
proof -
  from assms(1) obtain fs c where f: "first = zblk fs c" "zwf fs" "c < 2 ^ 16" "length fs = length xs" "c = length fs \<and> c < 65535 \<or> c = 65535" by (elim zl_repE)
  then obtain l e where fs: "fs = l @ [e]" using assms(2) by (cases fs rule: rev_cases) auto
  have i: "ziplistIndex first (- 1) \<noteq> Some None" using ziplistIndex_ok [OF f(2), of c "- 1"] f(1) fs by (simp add: zindex_def)
  have ok: "ent_ok (last_len 0 l) e" using f(2) by (simp add: fs zwf_def fits_append)
  let ?A = "layout 0 fs" and ?n = "11 + tot fs" and ?zl = "zhdr (11 + tot fs) (10 + tot fs) c @ layout 0 fs @ [ZIP_END]"
  have b: "?n < 2 ^ 32" "10 + tot fs < 2 ^ 32" using f(2) by (simp_all add: zwf_def)
  have w0: "zwf []" by (simp add: zwf_def)
  note g = zblk_get [OF f(2), of c]
  have g0: "ZIPLIST_BYTES (zblk [] 0) = Some 11" "ZIPLIST_TAIL_OFFSET (zblk [] 0) = Some 10" "ZIPLIST_LENGTH (zblk [] 0) = Some 0"
    using zblk_get(1,2) [OF w0, of 0] zblk_get(3) [OF w0, of 0] by simp_all
  have cp: "do { bs \<leftarrow> mem_read (zblk [] 0) 10 (11 - 10); mem_write (mem_realloc (junk) (zblk fs c) ?n) (?n - 1) bs } = Some (zhdr ?n (10 + tailoff fs) c @ ?A @ [ZIP_END])"
  proof -
    have "zblk fs c = zhdr ?n (10 + tailoff fs) c @ ?A @ [ZIP_END]" "zblk [] 0 = zhdr 11 10 0 @ [] @ [ZIP_END]" by (simp_all add: zblk_def)
    from merge_copy(1) [OF length_zhdr length_zhdr this, of ?n junk] show ?thesis by simp
  qed
  have s1: "set_le 4 (zhdr ?n (10 + tailoff fs) c @ ?A @ [ZIP_END]) 0 (int ?n) = Some (zhdr ?n (10 + tailoff fs) c @ ?A @ [ZIP_END])" by (rule zhdr_set(1) [OF refl])
  have s2: "set_le 2 (zhdr ?n (10 + tailoff fs) c @ ?A @ [ZIP_END]) 8 (int c) = Some (zhdr ?n (10 + tailoff fs) c @ ?A @ [ZIP_END])" by (rule zhdr_set(3) [OF refl])
  have s3: "set_le 4 (zhdr ?n (10 + tailoff fs) c @ ?A @ [ZIP_END]) 4 (int (10 + tot fs)) = Some ?zl" by (rule zhdr_set(2) [OF refl])
  have gz: "ZIPLIST_BYTES ?zl = Some ?n" "ZIPLIST_TAIL_OFFSET ?zl = Some (10 + tot fs)" using b by (intro zhdr_get [OF refl]; simp)+
  have ca: "raw_ziplistCascadeUpdate junk ?zl (10 + tailoff fs) = Some ?zl"
    unfolding raw_ziplistCascadeUpdate_def gz(1) bind.bind_lunit
  proof (rule cascade_last [OF _ _ ok])
    show "?zl = (zhdr ?n (10 + tot fs) c @ layout 0 l) @ zentry (last_len 0 l) e @ ZIP_END # []" by (simp add: fs layout_append)
  qed (simp add: fs tailoff_def)
  have m: "(if c + 0 < UINT16_MAX then c + 0 else UINT16_MAX) = c" using f(5) by (auto simp: UINT16_MAX_def)
  have to: "int (?n - 1) + (int 10 - int ZIPLIST_HEADER_SIZE) = int (10 + tot fs)" by (simp add: ZIPLIST_HEADER_SIZE_def)
  have nb: "?n + 11 - ZIPLIST_HEADER_SIZE - 1 = ?n" by (simp add: ZIPLIST_HEADER_SIZE_def)
  have "ziplistMerge junk (zblk fs c) (zblk [] 0) = Some (?zl, True)"
    unfolding ziplistMerge_def g(1,2) g(3) [OF f(3)] g0 bind.bind_lunit Let_def if_P [OF le0 [of c]] prod.case nb m to
    unfolding ZIPLIST_HEADER_SIZE_def cp s1 s2 s3 ca bind.bind_lunit by simp
  moreover have "byte_at ?zl (10 + tot fs) = Some ZIP_END"
    using byte_at_app0 [of "zhdr ?n (10 + tot fs) c @ ?A" "[ZIP_END]"] by simp
  then have "ziplistIndex ?zl (- 1) = Some None" using gz(2) by (simp add: ziplistIndex_def)
  moreover have "second = zblk [] 0" using assms(3) by (simp add: ziplistNew_ok)
  ultimately show ?thesis using i gz(1) g(1) f(1) by (intro exI [of _ ?zl] exI [of _ True]) simp
qed

theorem ziplistMerge_empty_loses_tail_witness:
  "\<exists>second zl b. ziplistNew (\<lambda>_. 7) = Some second \<and> ziplistMerge (\<lambda>_. 7) (zblk [(False, [97])] 1) second = Some (zl, b) \<and> ziplistIndex zl (- 1) = Some None"
proof -
  have "elen (False, [97]) \<le> 15" using val_enc_le [of "[97]"] by (simp add: elen_def fsize_def)
  then have r: "zl_rep (zblk [(False, [97])] 1) [[97]]" by (intro zl_repI) (simp_all add: zwf_def ent_ok_def zroom_def)
  show ?thesis using ziplistMerge_empty_loses_tail [OF r _ ziplistNew_ok, of "\<lambda>_. 7"] ziplistNew_ok [of "\<lambda>_. 7"] by auto
qed

text \<open>
  C39. Walking back undoes walking forward: in a ziplist, the element before the one after an element is
  the element itself, although the two directions use different fields of the entries.
\<close>

theorem ziplist_walk_back:
  assumes "zl_rep zl ss" and "ziplistIndex zl i = Some (Some p)" and "ziplistNext zl p = Some (Some q)"
  shows "ziplistPrev zl q = Some (Some p)"
proof -
  from assms(1) obtain es c where z: "zl = zblk es c" "zwf es" by (elim zl_repE)
  from assms(2) obtain k where k: "zindex es i = Some k" "p = zpos es k" using ziplistIndex_ok [OF z(2), of c i] z(1) by auto
  have kl: "k < length es" by (rule zindex_less [OF k(1)])
  then have "Suc k < length es" "q = zpos es (Suc k)" using assms(3) ziplistNext_ok [OF z(2), of k c] z(1) k(2) by (auto split: if_splits)
  then show ?thesis using ziplistPrev_ok [OF z(2), of "Suc k" c] z(1) k(2) by simp
qed

theorem ziplist_walk_back_witness:
  "ziplistPrev (zblk [(False, [97]), (False, [98])] 2) 13 = Some (Some 10)"
proof (rule ziplist_walk_back)
  have e: "elen (False, [x]) = 3" if "zipTryEncoding [x] = None" for x using that by (simp add: elen_def fsize_def val_enc_def entry_encoding_def ZIP_IS_STR_def ZIP_STR_MASK_def)
  have t: "zipTryEncoding [97] = None" "zipTryEncoding [98] = None" by (simp_all add: zipTryEncoding_def string2ll_def)
  have w: "zwf [(False, [97]), (False, [98])]" using e [OF t(1)] e [OF t(2)] by (simp add: zwf_def ent_ok_def)
  show "zl_rep (zblk [(False, [97]), (False, [98])] 2) [[97], [98]]" using w by (intro zl_repI) (simp_all add: zroom_def)
  show "ziplistIndex (zblk [(False, [97]), (False, [98])] 2) 0 = Some (Some 10)" using ziplistIndex_ok [OF w, of 2 0] by (simp add: zindex_def zpos_def)
  show "ziplistNext (zblk [(False, [97]), (False, [98])] 2) 10 = Some (Some 13)" using ziplistNext_ok [OF w, of 0 2] e [OF t(1)] by (simp add: zpos_def)
qed

end
