(* ===== verification/Hash_Type.thy ===== *)
theory Hash_Type
  imports Ziplist_Refine Dict_Types Sds_Split
begin

section \<open>Hash values: \<open>t_hash.c\<close>\<close>

text \<open>
  A hash value is a ziplist of alternating fields and values while it is small and a dictionary
  otherwise. The functions of \<open>t_hash.c\<close> on such a value, with the conversion of the encoding,
  composed of the models of \<open>ziplist.c\<close>, \<open>dict.c\<close> and \<open>sds.c\<close>. \<open>None\<close> is a failed assertion, a panic or an
  access out of bounds. The flags of \<open>hashTypeSet\<close> decide only who frees the strings, which are copied here.
\<close>

datatype hash_robj = OBJ_ENCODING_ZIPLIST bytes | OBJ_ENCODING_HT "(bytes, bytes) dict"

text \<open>The options of the server and the state of the process the functions read.\<close>

record hash_env =
  he_seed :: bytes
  he_junk :: "nat \<Rightarrow> u8"
  he_can_resize :: bool
  hash_max_ziplist_entries :: nat
  hash_max_ziplist_value :: nat

definition hashDictType :: "bytes \<Rightarrow> (bytes, bytes) dictType" where
  "hashDictType seed = \<lparr>hashFunction = dictSdsHash seed, keyDup = None, valDup = None, keyCompare = Some dictSdsKeyCompare\<rparr>"

definition htNeedsResize :: "('k, 'v) dict \<Rightarrow> bool" where
  "htNeedsResize d =
     (let size = ht_size (ht0 d) + ht_size (ht1 d); used = dictSize d in
      size > DICT_HT_INITIAL_SIZE \<and> used * 100 div size < 10)"

definition createHashObject :: "hash_env \<Rightarrow> hash_robj option" where
  "createHashObject env = do { zl \<leftarrow> ziplistNew (he_junk env); Some (OBJ_ENCODING_ZIPLIST zl) }"

text \<open>
  The string a function of \<open>ziplist.c\<close> sees: \<open>sdslen\<close>, a \<open>size_t\<close>, is passed as an \<open>unsigned int\<close>, so a
  string of 2 ^ 32 bytes or more is cut.
\<close>

definition uint_arg :: "bytes \<Rightarrow> bytes" where
  "uint_arg s = take (length s mod 2 ^ 32) s"

subsection \<open>Reading\<close>

text \<open>The result of the search for a field, and the value behind it.\<close>

definition find_field :: "bytes \<Rightarrow> bytes \<Rightarrow> nat option option" where
  "find_field zl field = do {
     fptr \<leftarrow> ziplistIndex zl 0;
     case fptr of None \<Rightarrow> Some None | Some fptr \<Rightarrow> ziplistFind zl fptr (uint_arg field) 1
   }"

definition hashTypeGetFromZiplist :: "bytes \<Rightarrow> bytes \<Rightarrow> zip_value option option" where
  "hashTypeGetFromZiplist zl field = do {
     fptr \<leftarrow> find_field zl field;
     case fptr of None \<Rightarrow> Some None
     | Some fptr \<Rightarrow> do {
         vptr \<leftarrow> ziplistNext zl fptr;
         vptr \<leftarrow> vptr;
         ret \<leftarrow> ziplistGet zl (Some vptr);
         ret \<leftarrow> ret;
         Some (Some ret)
       }
   }"

definition hashTypeGetFromHashTable :: "(bytes, bytes) dict \<Rightarrow> bytes \<Rightarrow> ((bytes, bytes) dict \<times> bytes option) option" where
  "hashTypeGetFromHashTable d field = do {
     (d, de) \<leftarrow> dictFind field d;
     case de of None \<Rightarrow> Some (d, None) | Some r \<Rightarrow> do { e \<leftarrow> deref d r; Some (d, de_val e) }
   }"

definition hashTypeGetValue :: "hash_robj \<Rightarrow> bytes \<Rightarrow> (hash_robj \<times> zip_value option) option" where
  "hashTypeGetValue ob field = (case ob of
     OBJ_ENCODING_ZIPLIST zl \<Rightarrow> do { v \<leftarrow> hashTypeGetFromZiplist zl field; Some (ob, v) }
   | OBJ_ENCODING_HT d \<Rightarrow> do { (d, v) \<leftarrow> hashTypeGetFromHashTable d field; Some (OBJ_ENCODING_HT d, map_option Zip_str v) })"

definition hashTypeGetValueLength :: "hash_robj \<Rightarrow> bytes \<Rightarrow> (hash_robj \<times> nat) option" where
  "hashTypeGetValueLength ob field = (case ob of
     OBJ_ENCODING_ZIPLIST zl \<Rightarrow> do {
       v \<leftarrow> hashTypeGetFromZiplist zl field;
       Some (ob, case v of None \<Rightarrow> 0 | Some (Zip_str vstr) \<Rightarrow> length vstr | Some (Zip_int vll) \<Rightarrow> sdigits10 vll)
     }
   | OBJ_ENCODING_HT d \<Rightarrow> do {
       (d, aux) \<leftarrow> hashTypeGetFromHashTable d field;
       Some (OBJ_ENCODING_HT d, case aux of None \<Rightarrow> 0 | Some aux \<Rightarrow> length aux)
     })"

definition hashTypeExists :: "hash_robj \<Rightarrow> bytes \<Rightarrow> (hash_robj \<times> bool) option" where
  "hashTypeExists ob field = (case ob of
     OBJ_ENCODING_ZIPLIST zl \<Rightarrow> do { v \<leftarrow> hashTypeGetFromZiplist zl field; Some (ob, v \<noteq> None) }
   | OBJ_ENCODING_HT d \<Rightarrow> do { (d, v) \<leftarrow> hashTypeGetFromHashTable d field; Some (OBJ_ENCODING_HT d, v \<noteq> None) })"

text \<open>Counting the entries of a ziplist may store their number in its header.\<close>

definition hashTypeLength :: "hash_robj \<Rightarrow> (hash_robj \<times> nat) option" where
  "hashTypeLength ob = (case ob of
     OBJ_ENCODING_ZIPLIST zl \<Rightarrow> do { (zl, n) \<leftarrow> ziplistLen zl; Some (OBJ_ENCODING_ZIPLIST zl, n div 2) }
   | OBJ_ENCODING_HT d \<Rightarrow> Some (ob, dictSize d))"

subsection \<open>Conversion\<close>

datatype hash_what = OBJ_HASH_KEY | OBJ_HASH_VALUE

text \<open>
  The iterator over a ziplist: the positions of the field and of the value, none before the
  first step. The result is the next position, or none at the end.
\<close>

definition hashTypeNext :: "bytes \<Rightarrow> (nat \<times> nat) option \<Rightarrow> (nat \<times> nat) option option" where
  "hashTypeNext zl hi = do {
     fptr \<leftarrow> (case hi of None \<Rightarrow> ziplistIndex zl 0 | Some (_, vptr) \<Rightarrow> ziplistNext zl vptr);
     case fptr of None \<Rightarrow> Some None
     | Some fptr \<Rightarrow> do {
         vptr \<leftarrow> ziplistNext zl fptr;
         vptr \<leftarrow> vptr;
         Some (Some (fptr, vptr))
       }
   }"

definition hashTypeCurrentFromZiplist :: "bytes \<Rightarrow> nat \<times> nat \<Rightarrow> hash_what \<Rightarrow> zip_value option" where
  "hashTypeCurrentFromZiplist zl hi what = do {
     ret \<leftarrow> ziplistGet zl (Some (case what of OBJ_HASH_KEY \<Rightarrow> fst hi | OBJ_HASH_VALUE \<Rightarrow> snd hi));
     ret
   }"

definition hashTypeCurrentObjectNewSds :: "hash_env \<Rightarrow> bytes \<Rightarrow> nat \<times> nat \<Rightarrow> hash_what \<Rightarrow> sds option" where
  "hashTypeCurrentObjectNewSds env zl hi what = do {
     v \<leftarrow> hashTypeCurrentFromZiplist zl hi what;
     case v of Zip_str vstr \<Rightarrow> sdsnewlen (he_junk env) (Some vstr) (length vstr) | Zip_int vll \<Rightarrow> sdsfromlonglong (he_junk env) vll
   }"

partial_function (option) convert_loop :: "hash_env \<Rightarrow> bytes \<Rightarrow> (nat \<times> nat) option \<Rightarrow> (bytes, bytes) dict \<Rightarrow> (bytes, bytes) dict option" where
  "convert_loop env zl hi d = do {
     hi \<leftarrow> hashTypeNext zl hi;
     case hi of None \<Rightarrow> Some d
     | Some hi \<Rightarrow> do {
         key \<leftarrow> hashTypeCurrentObjectNewSds env zl hi OBJ_HASH_KEY;
         val \<leftarrow> hashTypeCurrentObjectNewSds env zl hi OBJ_HASH_VALUE;
         (d, ret) \<leftarrow> dictAdd (he_can_resize env) (sds_val key) (sds_val val) d;
         if ret \<noteq> DICT_OK then None else convert_loop env zl (Some hi) d
       }
   }"

declare convert_loop.simps [code]

definition hashTypeConvertZiplist :: "hash_env \<Rightarrow> bytes \<Rightarrow> hash_robj option" where
  "hashTypeConvertZiplist env zl = do {
     d \<leftarrow> convert_loop env zl None (dictCreate (hashDictType (he_seed env)));
     Some (OBJ_ENCODING_HT d)
   }"

text \<open>\<open>hashTypeConvert(o, OBJ_ENCODING_HT)\<close>, the only conversion that is requested.\<close>

definition hashTypeConvert :: "hash_env \<Rightarrow> hash_robj \<Rightarrow> hash_robj option" where
  "hashTypeConvert env ob = (case ob of OBJ_ENCODING_ZIPLIST zl \<Rightarrow> hashTypeConvertZiplist env zl | OBJ_ENCODING_HT d \<Rightarrow> None)"

text \<open>The arguments from \<open>start\<close> to \<open>end\<close>: whether each is a string, and its contents.\<close>

definition hashTypeTryConversion :: "hash_env \<Rightarrow> hash_robj \<Rightarrow> (bool \<times> bytes) list \<Rightarrow> hash_robj option" where
  "hashTypeTryConversion env ob argv = (case ob of
     OBJ_ENCODING_ZIPLIST zl \<Rightarrow>
       if \<exists>(is_string, s) \<in> set argv. is_string \<and> length s > hash_max_ziplist_value env then hashTypeConvert env ob else Some ob
   | OBJ_ENCODING_HT d \<Rightarrow> Some ob)"

subsection \<open>Writing\<close>

definition hashTypeSet :: "hash_env \<Rightarrow> hash_robj \<Rightarrow> bytes \<Rightarrow> bytes \<Rightarrow> (hash_robj \<times> bool) option" where
  "hashTypeSet env ob field val = (case ob of
     OBJ_ENCODING_ZIPLIST zl \<Rightarrow> do {
       fptr \<leftarrow> find_field zl field;
       zl \<leftarrow> (case fptr of
           Some fptr \<Rightarrow> do {
             vptr \<leftarrow> ziplistNext zl fptr;
             vptr \<leftarrow> vptr;
             (zl, vptr) \<leftarrow> ziplistDelete (he_junk env) zl vptr;
             ziplistInsert (he_junk env) zl vptr (uint_arg val)
           }
         | None \<Rightarrow> do {
             zl \<leftarrow> ziplistPush (he_junk env) zl (uint_arg field) ZIPLIST_TAIL;
             ziplistPush (he_junk env) zl (uint_arg val) ZIPLIST_TAIL
           });
       (ob, n) \<leftarrow> hashTypeLength (OBJ_ENCODING_ZIPLIST zl);
       ob \<leftarrow> (if n > hash_max_ziplist_entries env then hashTypeConvert env ob else Some ob);
       Some (ob, fptr \<noteq> None)
     }
   | OBJ_ENCODING_HT d \<Rightarrow> do {
       (d, de) \<leftarrow> dictFind field d;
       case de of
         Some r \<Rightarrow> do { d \<leftarrow> dictSetVal r val d; Some (OBJ_ENCODING_HT d, True) }
       | None \<Rightarrow> do { (d, _) \<leftarrow> dictAdd (he_can_resize env) field val d; Some (OBJ_ENCODING_HT d, False) }
     })"

definition hashTypeDelete :: "hash_env \<Rightarrow> hash_robj \<Rightarrow> bytes \<Rightarrow> (hash_robj \<times> bool) option" where
  "hashTypeDelete env ob field = (case ob of
     OBJ_ENCODING_ZIPLIST zl \<Rightarrow> do {
       fptr \<leftarrow> find_field zl field;
       case fptr of
         None \<Rightarrow> Some (ob, False)
       | Some fptr \<Rightarrow> do {
           (zl, fptr) \<leftarrow> ziplistDelete (he_junk env) zl fptr;
           (zl, fptr) \<leftarrow> ziplistDelete (he_junk env) zl fptr;
           Some (OBJ_ENCODING_ZIPLIST zl, True)
         }
     }
   | OBJ_ENCODING_HT d \<Rightarrow> do {
       (d, st) \<leftarrow> dictDelete field d;
       if st = DICT_OK then Some (OBJ_ENCODING_HT (if htNeedsResize d then fst (dictResize (he_can_resize env) d) else d), True)
       else Some (OBJ_ENCODING_HT d, False)
     })"

end
