(* ===== verification/Hash_Refine.thy ===== *)
theory Hash_Refine
  imports Hash_Type
begin

text \<open>
  A hash value is a finite map from strings to strings, in either encoding and through the
  conversion from one to the other.
\<close>

section \<open>Fields and values in a list\<close>

type_synonym pairs = "(bytes \<times> bytes) list"

fun flat :: "pairs \<Rightarrow> bytes list" where
  "flat [] = []"
| "flat ((f, v) # ps) = f # v # flat ps"

fun pair_pos :: "bytes \<Rightarrow> pairs \<Rightarrow> nat option" where
  "pair_pos f [] = None"
| "pair_pos f ((g, v) # ps) = (if g = f then Some 0 else map_option Suc (pair_pos f ps))"

lemma flat_append [simp]: "flat (ps @ qs) = flat ps @ flat qs"
  by (induction ps rule: flat.induct) auto

lemma length_flat [simp]: "length (flat ps) = 2 * length ps"
  by (induction ps rule: flat.induct) auto

lemma flat_split: "i < length ps \<Longrightarrow> flat ps = flat (take i ps) @ fst (ps ! i) # snd (ps ! i) # flat (drop (Suc i) ps)"
  by (metis flat_append flat.simps(2) id_take_nth_drop prod.collapse)

lemma nth_flat:
  assumes "i < length ps"
  shows "flat ps ! (2 * i) = fst (ps ! i)" "flat ps ! Suc (2 * i) = snd (ps ! i)"
  using assms by (simp_all add: flat_split [OF assms] nth_append)

lemma take_drop_flat:
  assumes "i < length ps"
  shows "take (2 * i) (flat ps) = flat (take i ps)" "take (Suc (2 * i)) (flat ps) = flat (take i ps) @ [fst (ps ! i)]"
    "drop (Suc (2 * i)) (flat ps) = snd (ps ! i) # flat (drop (Suc i) ps)" "drop (Suc (Suc (2 * i))) (flat ps) = flat (drop (Suc i) ps)"
  using assms by (simp_all add: flat_split [OF assms])

lemma zfind_flat: "zfind f 1 0 (flat ps) = map_option (\<lambda>i. 2 * i) (pair_pos f ps)"
  by (induction f ps rule: pair_pos.induct) (auto simp: option.map_comp o_def)

lemma pair_pos_Some: "pair_pos f ps = Some i \<Longrightarrow> i < length ps \<and> fst (ps ! i) = f \<and> map_of ps f = Some (snd (ps ! i))"
  by (induction f ps arbitrary: i rule: pair_pos.induct) (auto split: if_splits)

lemma pair_pos_None: "pair_pos f ps = None \<longleftrightarrow> map_of ps f = None"
  by (induction f ps rule: pair_pos.induct) auto

lemma map_of_update:
  assumes "distinct (map fst ps)" "i < length ps"
  shows "map_of (ps[i := (fst (ps ! i), v)]) = (map_of ps)(fst (ps ! i) \<mapsto> v)" "map fst (ps[i := (fst (ps ! i), v)]) = map fst ps"
proof -
  show k: "map fst (ps[i := (fst (ps ! i), v)]) = map fst ps" using assms(2) by (simp add: map_update list_update_same_conv)
  define l r where "l = take i ps" and "r = drop (Suc i) ps"
  have e: "ps = l @ (fst (ps ! i), snd (ps ! i)) # r" using id_take_nth_drop [OF assms(2)] by (simp add: l_def r_def)
  have u: "ps[i := (fst (ps ! i), v)] = l @ (fst (ps ! i), v) # r" using assms(2) by (simp add: upd_conv_take_nth_drop l_def r_def)
  have "distinct (map fst (l @ (fst (ps ! i), snd (ps ! i)) # r))" using assms(1) e by simp
  then have n: "map_of l (fst (ps ! i)) = None" by (auto simp: map_of_eq_None_iff)
  have "(map_of ps)(fst (ps ! i) \<mapsto> v) = (map_of (l @ (fst (ps ! i), snd (ps ! i)) # r))(fst (ps ! i) \<mapsto> v)" using e by simp
  then show "map_of (ps[i := (fst (ps ! i), v)]) = (map_of ps)(fst (ps ! i) \<mapsto> v)"
    unfolding u using n by (auto simp: fun_eq_iff map_add_def split: option.split)
qed

lemma map_of_remove:
  assumes "distinct (map fst ps)" "i < length ps"
  shows "map_of (take i ps @ drop (Suc i) ps) = (map_of ps)(fst (ps ! i) := None)" "distinct (map fst (take i ps @ drop (Suc i) ps))"
proof -
  let ?l = "take i ps" and ?r = "drop (Suc i) ps"
  have e: "ps = ?l @ (fst (ps ! i), snd (ps ! i)) # ?r" using id_take_nth_drop [OF assms(2)] by simp
  have d: "distinct (map fst (?l @ (fst (ps ! i), snd (ps ! i)) # ?r))" using assms(1) e by simp
  then show "distinct (map fst (take i ps @ drop (Suc i) ps))" by simp
  have n: "map_of ?l (fst (ps ! i)) = None" "map_of ?r (fst (ps ! i)) = None" using d by (auto simp: map_of_eq_None_iff)
  show "map_of (take i ps @ drop (Suc i) ps) = (map_of ps)(fst (ps ! i) := None)"
    using n by (subst (3) e) (auto simp: fun_eq_iff map_add_def split: option.split)
qed

section \<open>Sizes\<close>

definition hsize :: "(bytes \<rightharpoonup> bytes) \<Rightarrow> nat" where
  "hsize m = (\<Sum>f\<in>dom m. length f + length (the (m f)) + 28)"

definition hroom :: "(bytes \<rightharpoonup> bytes) \<Rightarrow> bool" where "hroom m \<longleftrightarrow> 16 + hsize m < 2 ^ 32"

lemma zsize_flat_sum: "zsize (flat ps) = (\<Sum>(f, v)\<leftarrow>ps. length f + length v + 28)"
  by (induction ps rule: flat.induct) auto

lemma zsize_flat:
  assumes "distinct (map fst ps)"
  shows "zsize (flat ps) = hsize (map_of ps)"
proof -
  have "hsize (map_of ps) = (\<Sum>f\<leftarrow>map fst ps. length f + length (the (map_of ps f)) + 28)"
    unfolding hsize_def dom_map_of_conv_image_fst set_map [symmetric] by (rule sum.distinct_set_conv_list [OF assms])
  also have "\<dots> = (\<Sum>(f, v)\<leftarrow>ps. length f + length v + 28)"
    unfolding map_map o_def using map_of_is_SomeI [OF assms] by (intro arg_cong [of _ _ sum_list] map_cong) auto
  finally show ?thesis by (simp add: zsize_flat_sum)
qed

lemma hroom_flat: "distinct (map fst ps) \<Longrightarrow> zroom (flat ps) \<longleftrightarrow> hroom (map_of ps)"
  by (simp add: zroom_def hroom_def zsize_flat)

lemma hsize_upd_le:
  assumes "finite (dom m)"
  shows "hsize (m(f \<mapsto> v)) \<le> hsize m + length f + length v + 28"
proof -
  have "hsize (m(f \<mapsto> v)) = (\<Sum>g\<in>dom m - {f}. length g + length (the (m g)) + 28) + (length f + length v + 28)"
  proof -
    have "dom (m(f \<mapsto> v)) = insert f (dom m - {f})" by auto
    moreover have "(\<Sum>g\<in>dom m - {f}. length g + length (the ((m(f \<mapsto> v)) g)) + 28) = (\<Sum>g\<in>dom m - {f}. length g + length (the (m g)) + 28)"
      by (intro sum.cong) auto
    moreover have "(\<Sum>g\<in>insert f (dom m - {f}). length g + length (the ((m(f \<mapsto> v)) g)) + 28) =
        (length f + length v + 28) + (\<Sum>g\<in>dom m - {f}. length g + length (the ((m(f \<mapsto> v)) g)) + 28)"
      using assms by (subst sum.insert) simp_all
    ultimately show ?thesis unfolding hsize_def by simp
  qed
  also have "(\<Sum>g\<in>dom m - {f}. length g + length (the (m g)) + 28) \<le> hsize m"
    unfolding hsize_def using assms by (intro sum_mono2) auto
  finally show ?thesis by simp
qed

lemma hroom_del:
  assumes "hroom m" "finite (dom m)"
  shows "hroom (m(f := None))"
proof -
  have "hsize (m(f := None)) = (\<Sum>g\<in>dom m - {f}. length g + length (the (m g)) + 28)"
    unfolding hsize_def by (intro sum.cong) auto
  also have "\<dots> \<le> hsize m" unfolding hsize_def using assms(2) by (intro sum_mono2) auto
  finally show ?thesis using assms(1) by (simp add: hroom_def)
qed

lemma hroom_card:
  assumes "hroom m" "finite (dom m)"
  shows "card (dom m) \<le> 2 ^ 30"
proof -
  have "card (dom m) * 28 \<le> hsize m" 
    using sum_bounded_below [of "dom m" "28 :: nat" "\<lambda>f. length f + length (the (m f)) + 28"] by (simp add: hsize_def)
  then show ?thesis using assms(1) by (simp add: hroom_def)
qed

section \<open>Representation\<close>

definition hash_rel :: "bytes \<Rightarrow> hash_robj \<Rightarrow> (bytes \<rightharpoonup> bytes) \<Rightarrow> bool" where
  "hash_rel seed ob m \<longleftrightarrow> hroom m \<and> finite (dom m) \<and> (\<forall>f \<in> dom m. short_key f) \<and>
     (case ob of
        OBJ_ENCODING_ZIPLIST zl \<Rightarrow> \<exists>ps. distinct (map fst ps) \<and> map_of ps = m \<and> zl_rep zl (flat ps)
      | OBJ_ENCODING_HT d \<Rightarrow> dict_rel seed d m)"

lemma hash_rel_zl:
  assumes "distinct (map fst ps)" "zl_rep zl (flat ps)" "\<forall>f \<in> dom (map_of ps). short_key f"
  shows "hash_rel seed (OBJ_ENCODING_ZIPLIST zl) (map_of ps)"
  using assms hroom_flat [OF assms(1)] by (auto simp: hash_rel_def zl_rep_def finite_dom_map_of)

lemma zip_string_zval: "(case zval s of Zip_str s \<Rightarrow> s | Zip_int v \<Rightarrow> decimal v) = s"
  by (auto simp: zval_def try_some split: option.split)

section \<open>The ziplist encoding\<close>

lemma uint_arg_simps [simp]: "length s < 2 ^ 32 \<Longrightarrow> uint_arg s = s" "short_key s \<Longrightarrow> uint_arg s = s"
  by (simp_all add: uint_arg_def short_key_def)

lemma find_field_ok:
  assumes "zl_rep zl (flat ps)" "short_key f"
  shows "\<exists>r. find_field zl f = Some r \<and>
    (case pair_pos f ps of None \<Rightarrow> r = None | Some i \<Rightarrow> \<exists>q. r = Some q \<and> zl_pos zl (flat ps) (2 * i) q)"
proof -
  from zl_pos_index [OF assms(1)] obtain r where r: "ziplistIndex zl 0 = Some r" "case r of None \<Rightarrow> flat ps = [] | Some p \<Rightarrow> flat ps \<noteq> [] \<and> zl_pos zl (flat ps) 0 p" by blast
  show ?thesis
  proof (cases r)
    case None
    then have "ps = []" using r(2) by (cases ps) auto
    then show ?thesis using r None by (simp add: find_field_def)
  next
    case (Some p)
    then have "zl_pos zl (flat ps) 0 p" using r(2) by simp
    from zl_pos_find [OF this, of f 1] obtain r' where
      "ziplistFind zl p f 1 = Some r'" "case map_option (\<lambda>i. 2 * i) (pair_pos f ps) of None \<Rightarrow> r' = None | Some j \<Rightarrow> \<exists>q. r' = Some q \<and> zl_pos zl (flat ps) j q"
      unfolding drop_0 add_0 zfind_flat by blast
    then show ?thesis using r(1) Some assms(2) by (cases "pair_pos f ps") (auto simp: find_field_def)
  qed
qed

lemma value_after:
  assumes "zl_pos zl (flat ps) (2 * i) q" "i < length ps"
  shows "\<exists>v. ziplistNext zl q = Some (Some v) \<and> zl_pos zl (flat ps) (Suc (2 * i)) v"
  using zl_pos_next [OF assms(1)] assms(2) by (auto split: option.splits)

lemma get_zl:
  assumes "zl_rep zl (flat ps)" "short_key f"
  shows "hashTypeGetFromZiplist zl f = Some (map_option zval (map_of ps f))"
proof -
  from find_field_ok [OF assms] obtain r where r: "find_field zl f = Some r"
    "case pair_pos f ps of None \<Rightarrow> r = None | Some i \<Rightarrow> \<exists>q. r = Some q \<and> zl_pos zl (flat ps) (2 * i) q" by blast
  show ?thesis
  proof (cases "pair_pos f ps")
    case None
    then show ?thesis using r pair_pos_None [of f ps] by (simp add: hashTypeGetFromZiplist_def)
  next
    case (Some i)
    then obtain q where q: "r = Some q" "zl_pos zl (flat ps) (2 * i) q" using r(2) by auto
    note p = pair_pos_Some [OF Some]
    from value_after [OF q(2)] p obtain v where v: "ziplistNext zl q = Some (Some v)" "zl_pos zl (flat ps) (Suc (2 * i)) v" by blast
    show ?thesis using r(1) q(1) v(1) zl_pos_get [OF v(2)] p nth_flat [of i ps] by (simp add: hashTypeGetFromZiplist_def)
  qed
qed

lemma rep_len: "zl_rep zl ss \<Longrightarrow> \<exists>zl'. ziplistLen zl = Some (zl', length ss) \<and> zl_rep zl' ss"
  using zl.sim [of zl ss Zl_len "\<lambda>_. 0"] by (auto split: bind_splits)

lemma set_zl_update:
  assumes r: "zl_rep zl (flat ps)" and p: "i < length ps" "zl_pos zl (flat ps) (2 * i) q" and room: "zroom (flat (ps[i := (fst (ps ! i), val)]))"
  shows "\<exists>zl'. do { vptr \<leftarrow> ziplistNext zl q; vptr \<leftarrow> vptr; (zl, vptr) \<leftarrow> ziplistDelete junk zl vptr; ziplistInsert junk zl vptr val } = Some zl' \<and>
    zl_rep zl' (flat (ps[i := (fst (ps ! i), val)]))"
proof -
  let ?ss = "flat ps" and ?s1 = "flat (take i ps) @ fst (ps ! i) # flat (drop (Suc i) ps)"
  from value_after [OF p(2,1)] obtain v where v: "ziplistNext zl q = Some (Some v)" "zl_pos zl ?ss (Suc (2 * i)) v" by blast
  from zl_pos_delete [OF v(2), of junk] obtain zl1 where
    d: "ziplistDelete junk zl v = Some (zl1, v)" "zl_pos zl1 ?s1 (Suc (2 * i)) v"
    using p(1) by (auto simp: take_drop_flat)
  have u: "flat (ps[i := (fst (ps ! i), val)]) = flat (take i ps) @ fst (ps ! i) # val # flat (drop (Suc i) ps)"
    using p(1) by (simp add: upd_conv_take_nth_drop)
  have t: "take (Suc (2 * i)) ?s1 = flat (take i ps) @ [fst (ps ! i)]" "drop (Suc (2 * i)) ?s1 = flat (drop (Suc i) ps)" using p(1) by simp_all
  have "zroom (val # ?s1)" using room by (simp add: u zroom_def)
  from zl_pos_insert [OF d(2) this, of junk] obtain zl2 where "ziplistInsert junk zl1 v val = Some zl2" "zl_rep zl2 (flat (ps[i := (fst (ps ! i), val)]))"
    unfolding t u by auto
  then show ?thesis using v(1) d(1) by simp
qed

lemma set_zl_push:
  assumes "zl_rep zl (flat ps)" "zroom (flat (ps @ [(f, v)]))"
  shows "\<exists>zl'. do { zl \<leftarrow> ziplistPush junk zl f ZIPLIST_TAIL; ziplistPush junk zl v ZIPLIST_TAIL } = Some zl' \<and> zl_rep zl' (flat (ps @ [(f, v)]))"
proof -
  have z: "zroom (f # flat ps)" "zroom (v # flat ps @ [f])" using assms(2) by (simp_all add: zroom_def)
  from push_sim [OF assms(1) z(1), of junk ZIPLIST_TAIL] obtain z1 where 1: "ziplistPush junk zl f ZIPLIST_TAIL = Some z1" "zl_rep z1 (flat ps @ [f])" by auto
  from push_sim [OF 1(2) z(2), of junk ZIPLIST_TAIL] obtain z2 where "ziplistPush junk z1 v ZIPLIST_TAIL = Some z2" "zl_rep z2 ((flat ps @ [f]) @ [v])" by auto
  then show ?thesis using 1(1) by simp
qed

lemma delete_zl:
  assumes p: "i < length ps" "zl_pos zl (flat ps) (2 * i) q"
  shows "\<exists>zl'. do { (zl, q) \<leftarrow> ziplistDelete junk zl q; (zl, q) \<leftarrow> ziplistDelete junk zl q; Some (OBJ_ENCODING_ZIPLIST zl, True) } =
      Some (OBJ_ENCODING_ZIPLIST zl', True) \<and> zl_rep zl' (flat (take i ps @ drop (Suc i) ps))"
proof -
  let ?s1 = "flat (take i ps) @ snd (ps ! i) # flat (drop (Suc i) ps)"
  from zl_pos_delete [OF p(2), of junk] obtain z1 where 1: "ziplistDelete junk zl q = Some (z1, q)" "zl_pos z1 ?s1 (2 * i) q"
    using p(1) by (auto simp: take_drop_flat)
  have t: "take (2 * i) ?s1 = flat (take i ps)" "drop (Suc (2 * i)) ?s1 = flat (drop (Suc i) ps)" using p(1) by simp_all
  from zl_pos_delete [OF 1(2), of junk] obtain z2 where 2: "ziplistDelete junk z1 q = Some (z2, q)" "zl_pos z2 (flat (take i ps) @ flat (drop (Suc i) ps)) (2 * i) q"
    unfolding t using p(1) by auto
  show ?thesis using 1(1) 2(1) zl_pos_rep [OF 2(2)] by simp
qed

section \<open>Conversion\<close>

lemma hashDictType_db: "hashDictType seed = dbDictType seed"
  by (simp add: hashDictType_def dbDictType_def)

lemma rel_new: "dict_rel seed (dictCreate (hashDictType seed)) Map.empty"
  using db.dictCreate_spec [of seed] by (simp add: dict_rel_def hashDictType_db)

lemma rel_add:
  assumes "dict_rel seed d m" "card (dom m) \<le> 2 ^ 30" "m k = None" "short_key k"
  shows "\<exists>d'. dictAdd cr k v d = Some (d', DICT_OK) \<and> dict_rel seed d' (m(k \<mapsto> v))"
  using dict_exec_refines [OF assms(1,2), of "Add k v" cr] assms(3,4) by (auto simp: apsnd_def map_prod_def)

lemma new_sds:
  assumes "length s < 2 ^ 62"
  shows "\<exists>x. (case zval s of Zip_str s \<Rightarrow> sdsnewlen junk (Some s) (length s) | Zip_int v \<Rightarrow> sdsfromlonglong junk v) = Some x \<and> sds_val x = s"
proof (cases "zipTryEncoding s")
  case None
  then show ?thesis using sdsnewlen_spec [of "length s" "Some s" junk] assms by (auto simp: zval_def)
next
  case (Some a)
  then obtain v e where a: "zipTryEncoding s = Some (v, e)" by (cases a) auto
  then have "LLONG_MIN \<le> v" "v \<le> LLONG_MAX" "s = decimal v" by (auto simp: try_some LLONG_MIN_def LLONG_MAX_def)
  then show ?thesis using sdsfromlonglong_roundtrip [of v junk] a by (auto simp: zval_def)
qed

lemma zroom_length: "zroom ss \<Longrightarrow> s \<in> set ss \<Longrightarrow> length s < 2 ^ 62"
proof -
  have "s \<in> set ss \<Longrightarrow> length s \<le> zsize ss" by (induction ss) auto
  then show "zroom ss \<Longrightarrow> s \<in> set ss \<Longrightarrow> length s < 2 ^ 62" by (fastforce simp: zroom_def)
qed

lemma current_ok:
  assumes "zl_pos zl ss k p" "k < length ss" "(case what of OBJ_HASH_KEY \<Rightarrow> fst hi | OBJ_HASH_VALUE \<Rightarrow> snd hi) = p"
  shows "\<exists>x. hashTypeCurrentObjectNewSds env zl hi what = Some x \<and> sds_val x = ss ! k"
proof -
  have "length (ss ! k) < 2 ^ 62" using zroom_length [of ss "ss ! k"] assms(1,2) by (simp add: zl_pos_def)
  then show ?thesis using new_sds [of "ss ! k" "he_junk env"] zl_pos_get [OF assms(1)] assms(2,3)
    by (simp add: hashTypeCurrentObjectNewSds_def hashTypeCurrentFromZiplist_def)
qed

text \<open>The iterator stands before the pair \<open>i\<close>.\<close>

definition iter_at :: "bytes \<Rightarrow> pairs \<Rightarrow> (nat \<times> nat) option \<Rightarrow> nat \<Rightarrow> bool" where
  "iter_at zl ps hi i \<longleftrightarrow> (case hi of None \<Rightarrow> i = 0 \<and> zl_rep zl (flat ps) | Some (_, v) \<Rightarrow> 0 < i \<and> zl_pos zl (flat ps) (2 * i - 1) v)"

lemma next_ok:
  assumes "iter_at zl ps hi i" "i \<le> length ps"
  shows "\<exists>r. hashTypeNext zl hi = Some r \<and>
    (case r of None \<Rightarrow> i = length ps | Some (f, v) \<Rightarrow> i < length ps \<and> zl_pos zl (flat ps) (2 * i) f \<and> zl_pos zl (flat ps) (Suc (2 * i)) v)"
proof -
  have "\<exists>r. (case hi of None \<Rightarrow> ziplistIndex zl 0 | Some (_, vptr) \<Rightarrow> ziplistNext zl vptr) = Some r \<and>
    (case r of None \<Rightarrow> i = length ps | Some f \<Rightarrow> i < length ps \<and> zl_pos zl (flat ps) (2 * i) f)"
  proof (cases hi)
    case None
    then have "i = 0" "zl_rep zl (flat ps)" using assms(1) by (simp_all add: iter_at_def)
    then show ?thesis using zl_pos_index [of zl "flat ps"] None by (cases ps) (auto split: option.splits)
  next
    case (Some a)
    obtain f v where a: "a = (f, v)" by (cases a)
    then have h: "0 < i" "zl_pos zl (flat ps) (2 * i - 1) v" using assms(1) Some by (simp_all add: iter_at_def)
    have "Suc (2 * i - 1) = 2 * i" using h(1) by simp
    then show ?thesis using zl_pos_next [OF h(2)] assms(2) Some a by (auto split: option.splits)
  qed
  then obtain r where r: "(case hi of None \<Rightarrow> ziplistIndex zl 0 | Some (_, vptr) \<Rightarrow> ziplistNext zl vptr) = Some r"
    "case r of None \<Rightarrow> i = length ps | Some f \<Rightarrow> i < length ps \<and> zl_pos zl (flat ps) (2 * i) f" by blast
  show ?thesis
  proof (cases r)
    case None
    then show ?thesis using r unfolding hashTypeNext_def r(1) by simp
  next
    case (Some f)
    then have f: "i < length ps" "zl_pos zl (flat ps) (2 * i) f" using r(2) by simp_all
    from value_after [OF f(2,1)] obtain v where "ziplistNext zl f = Some (Some v)" "zl_pos zl (flat ps) (Suc (2 * i)) v" by blast
    then show ?thesis using f unfolding hashTypeNext_def r(1) Some by simp
  qed
qed

lemma convert_loop_ok:
  assumes "iter_at zl ps hi i" "i \<le> length ps" "dict_rel (he_seed env) d (map_of (take i ps))" "distinct (map fst ps)" "hroom (map_of ps)" "\<forall>f \<in> dom (map_of ps). short_key f"
  shows "\<exists>d'. convert_loop env zl hi d = Some d' \<and> dict_rel (he_seed env) d' (map_of ps)"
  using assms
proof (induction "length ps - i" arbitrary: hi i d)
  case 0
  then have i: "i = length ps" by simp
  from next_ok [OF 0(2,3)] obtain r where r: "hashTypeNext zl hi = Some r" "case r of None \<Rightarrow> i = length ps | Some (f, v) \<Rightarrow> i < length ps" by (auto split: option.splits)
  then have "hashTypeNext zl hi = Some None" using i by (cases r) auto
  then show ?case using 0(4) i by (subst convert_loop.simps) simp
next
  case (Suc n)
  then have i: "i < length ps" "n = length ps - Suc i" "Suc i \<le> length ps" by simp_all
  from next_ok [OF Suc(3,4)] i obtain f v where fv: "hashTypeNext zl hi = Some (Some (f, v))" "zl_pos zl (flat ps) (2 * i) f" "zl_pos zl (flat ps) (Suc (2 * i)) v"
    by (auto split: option.splits)
  let ?k = "fst (ps ! i)" and ?v = "snd (ps ! i)"
  from current_ok [OF fv(2), where what = OBJ_HASH_KEY and hi = "(f, v)" and env = env] i obtain x where x: "hashTypeCurrentObjectNewSds env zl (f, v) OBJ_HASH_KEY = Some x" "sds_val x = ?k"
    by (auto simp: nth_flat)
  from current_ok [OF fv(3), where what = OBJ_HASH_VALUE and hi = "(f, v)" and env = env] i obtain y where y: "hashTypeCurrentObjectNewSds env zl (f, v) OBJ_HASH_VALUE = Some y" "sds_val y = ?v"
    by (auto simp: nth_flat)
  have t: "take (Suc i) ps = take i ps @ [(?k, ?v)]" using i(1) by (simp add: take_Suc_conv_app_nth)
  have "distinct (map fst (take (Suc i) ps))" using Suc(6) by (metis distinct_take take_map)
  then have n: "map_of (take i ps) ?k = None" by (auto simp: t map_of_eq_None_iff)
  then have m: "map_of (take (Suc i) ps) = (map_of (take i ps))(?k \<mapsto> ?v)" by (auto simp: t fun_eq_iff map_add_def split: option.split)
  have "card (dom (map_of (take i ps))) \<le> card (dom (map_of ps))"
    by (intro card_mono) (auto simp: finite_dom_map_of dom_map_of_conv_image_fst dest: in_set_takeD)
  then have "card (dom (map_of (take i ps))) \<le> 2 ^ 30" using hroom_card [OF Suc(7)] by (simp add: finite_dom_map_of)
  moreover have "short_key ?k" using Suc(8) i(1) by (simp add: dom_map_of_conv_image_fst)
  ultimately obtain d' where
    d': "dictAdd (he_can_resize env) ?k ?v d = Some (d', DICT_OK)" "dict_rel (he_seed env) d' (map_of (take (Suc i) ps))"
    using rel_add [OF Suc(5) _ n, of "he_can_resize env" ?v] unfolding m by blast
  have it: "iter_at zl ps (Some (f, v)) (Suc i)" using fv(3) by (simp add: iter_at_def)
  from Suc(1) [OF i(2) it i(3) d'(2) Suc(6-8)] show ?case
    using fv(1) x y d'(1) by (subst convert_loop.simps) simp
qed

lemma convert_ok:
  assumes "zl_rep zl (flat ps)" "distinct (map fst ps)" "\<forall>f \<in> dom (map_of ps). short_key f"
  shows "\<exists>d. hashTypeConvert env (OBJ_ENCODING_ZIPLIST zl) = Some (OBJ_ENCODING_HT d) \<and> hash_rel (he_seed env) (OBJ_ENCODING_HT d) (map_of ps)"
proof -
  have h: "hroom (map_of ps)" using assms hroom_flat [OF assms(2)] by (simp add: zl_rep_def)
  have "iter_at zl ps None 0" using assms(1) by (simp add: iter_at_def)
  from convert_loop_ok [OF this _ _ assms(2) h assms(3), of env "dictCreate (hashDictType (he_seed env))"] obtain d where
    "convert_loop env zl None (dictCreate (hashDictType (he_seed env))) = Some d" "dict_rel (he_seed env) d (map_of ps)"
    using rel_new [of "he_seed env"] by auto
  then show ?thesis using h assms(3) by (auto simp: hashTypeConvert_def hashTypeConvertZiplist_def hash_rel_def finite_dom_map_of)
qed

section \<open>Operations\<close>

lemma get_ht:
  assumes "dict_rel seed d m" "short_key f"
  shows "\<exists>d'. hashTypeGetFromHashTable d f = Some (d', m f) \<and> dict_rel seed d' m"
proof -
  have e: "hashTypeGetFromHashTable d f = dictFetchValue f d" by (simp add: hashTypeGetFromHashTable_def dictFetchValue_def)
  have r: "dict_wf (dbDictType seed) sds_canon d" "dict_map sds_canon d = (\<lambda>k. map_option Some (m k))" using assms by (simp_all add: dict_rel_def)
  from db.dictFetchValue_spec [OF r(1), of f] show ?thesis unfolding e using r(2) assms by (cases "m f") (auto simp: dict_rel_def)
qed

lemma get_sim:
  assumes "hash_rel seed ob m" "short_key f"
  shows "\<exists>ob' v. hashTypeGetValue ob f = Some (ob', v) \<and> map_option (\<lambda>v. case v of Zip_str s \<Rightarrow> s | Zip_int n \<Rightarrow> decimal n) v = m f \<and> hash_rel seed ob' m"
proof (cases ob)
  case (OBJ_ENCODING_ZIPLIST zl)
  then obtain ps where ps: "distinct (map fst ps)" "map_of ps = m" "zl_rep zl (flat ps)" using assms by (auto simp: hash_rel_def)
  then show ?thesis using get_zl [OF ps(3) assms(2)] assms(1) OBJ_ENCODING_ZIPLIST
    by (auto simp: hashTypeGetValue_def option.map_comp o_def zip_string_zval option.map_ident)
next
  case (OBJ_ENCODING_HT d)
  then have "dict_rel seed d m" using assms by (simp add: hash_rel_def)
  from get_ht [OF this assms(2)] show ?thesis using assms(1) OBJ_ENCODING_HT
    by (auto simp: hashTypeGetValue_def hash_rel_def option.map_comp o_def option.map_ident)
qed

lemma sdigits10_decimal: "LLONG_MIN \<le> v \<Longrightarrow> v \<le> LLONG_MAX \<Longrightarrow> sdigits10 v = length (decimal v)"
  using decimal_abs [of v] by (auto simp: sdigits10_def decimal_def Let_def digits10_dec)

lemma strlen_sim:
  assumes "hash_rel seed ob m" "short_key f"
  shows "\<exists>ob'. hashTypeGetValueLength ob f = Some (ob', case m f of None \<Rightarrow> 0 | Some v \<Rightarrow> length v) \<and> hash_rel seed ob' m"
proof (cases ob)
  case (OBJ_ENCODING_ZIPLIST zl)
  have l: "(case zval s of Zip_str vstr \<Rightarrow> length vstr | Zip_int vll \<Rightarrow> sdigits10 vll) = length s" for s
    using sdigits10_decimal by (auto simp: zval_def try_some LLONG_MIN_def LLONG_MAX_def split: option.split)
  obtain ps where ps: "map_of ps = m" "zl_rep zl (flat ps)" using assms OBJ_ENCODING_ZIPLIST by (auto simp: hash_rel_def)
  show ?thesis using get_zl [OF ps(2) assms(2)] assms(1) ps(1) OBJ_ENCODING_ZIPLIST l by (cases "m f") (simp_all add: hashTypeGetValueLength_def)
next
  case (OBJ_ENCODING_HT d)
  then have r: "dict_rel seed d m" using assms by (simp add: hash_rel_def)
  show ?thesis using get_ht [OF r assms(2)] assms(1) OBJ_ENCODING_HT by (auto simp: hashTypeGetValueLength_def hash_rel_def)
qed

lemma exists_sim:
  assumes "hash_rel seed ob m" "short_key f"
  shows "\<exists>ob'. hashTypeExists ob f = Some (ob', m f \<noteq> None) \<and> hash_rel seed ob' m"
proof (cases ob)
  case (OBJ_ENCODING_ZIPLIST zl)
  obtain ps where ps: "map_of ps = m" "zl_rep zl (flat ps)" using assms OBJ_ENCODING_ZIPLIST by (auto simp: hash_rel_def)
  show ?thesis using get_zl [OF ps(2) assms(2)] assms(1) ps(1) OBJ_ENCODING_ZIPLIST by (simp add: hashTypeExists_def)
next
  case (OBJ_ENCODING_HT d)
  then have r: "dict_rel seed d m" using assms by (simp add: hash_rel_def)
  show ?thesis using get_ht [OF r assms(2)] assms(1) OBJ_ENCODING_HT by (auto simp: hashTypeExists_def hash_rel_def)
qed

lemma length_sim:
  assumes "hash_rel seed ob m"
  shows "\<exists>ob'. hashTypeLength ob = Some (ob', card (dom m)) \<and> hash_rel seed ob' m \<and> (\<forall>zl. ob = OBJ_ENCODING_ZIPLIST zl \<longrightarrow> (\<exists>zl'. ob' = OBJ_ENCODING_ZIPLIST zl'))"
proof (cases ob)
  case (OBJ_ENCODING_ZIPLIST zl)
  then obtain ps where ps: "distinct (map fst ps)" "map_of ps = m" "zl_rep zl (flat ps)" using assms by (auto simp: hash_rel_def)
  have "card (dom m) = length ps" using distinct_card [OF ps(1)] by (simp add: dom_map_of_conv_image_fst flip: ps(2))
  moreover obtain zl' where "ziplistLen zl = Some (zl', 2 * length ps)" "zl_rep zl' (flat ps)" using rep_len [OF ps(3)] by auto
  moreover have "hash_rel seed (OBJ_ENCODING_ZIPLIST zl') m" using hash_rel_zl [OF ps(1) \<open>zl_rep zl' (flat ps)\<close>] ps(2) assms by (simp add: hash_rel_def)
  ultimately show ?thesis using OBJ_ENCODING_ZIPLIST by (simp add: hashTypeLength_def)
next
  case (OBJ_ENCODING_HT d)
  then show ?thesis using assms dict_rel_size [of seed d m] by (auto simp: hashTypeLength_def hash_rel_def)
qed

lemma convert_sim:
  assumes "hash_rel (he_seed env) (OBJ_ENCODING_ZIPLIST zl) m"
  shows "\<exists>ob'. hashTypeConvert env (OBJ_ENCODING_ZIPLIST zl) = Some ob' \<and> hash_rel (he_seed env) ob' m"
proof -
  from assms obtain ps where "distinct (map fst ps)" "map_of ps = m" "zl_rep zl (flat ps)" by (auto simp: hash_rel_def)
  moreover have "\<forall>f \<in> dom m. short_key f" using assms by (simp add: hash_rel_def)
  ultimately show ?thesis using convert_ok [of zl ps env] by auto
qed

lemma set_ht_sim:
  assumes r: "dict_rel seed d m" and c: "card (dom m) \<le> 2 ^ 30" and f: "short_key f"
  shows "\<exists>d'. hashTypeSet env (OBJ_ENCODING_HT d) f v = Some (OBJ_ENCODING_HT d', m f \<noteq> None) \<and> dict_rel seed d' (m(f \<mapsto> v))"
proof -
  have wf: "dict_wf (dbDictType seed) sds_canon d" "dict_map sds_canon d = (\<lambda>k. map_option Some (m k))" using r by (simp_all add: dict_rel_def)
  from db.dictFind_spec [OF wf(1), of f, unfolded sds_canon_short [OF f]] obtain d1 x where d1: "dictFind f d = Some (d1, x)" "dict_wf (dbDictType seed) sds_canon d1" "dict_step d d1"
    "case x of None \<Rightarrow> dict_map sds_canon d f = None
      | Some (n, i, p) \<Rightarrow> (dictIsRehashing d1 \<or> n = 0) \<and> (\<exists>e. deref d1 (n, i, p) = Some e \<and> sds_canon (de_key e) = f \<and> dict_map sds_canon d f = Some (de_val e))" by blast
  have r1: "dict_rel seed d1 m" by (rule dict_rel_step [OF r d1(2,3)])
  show ?thesis
  proof (cases x)
    case None
    then have "m f = None" using d1(4) wf(2) by simp
    then show ?thesis using rel_add [OF r1 c _ f, of "he_can_resize env" v] d1(1) None by (auto simp: hashTypeSet_def)
  next
    case (Some a)
    then obtain n i p where a: "x = Some (n, i, p)" by (cases a) auto
    then obtain e where e: "deref d1 (n, i, p) = Some e" "sds_canon (de_key e) = f" "m f \<noteq> None" "dictIsRehashing d1 \<or> n = 0" using d1(4) wf(2) by auto
    from db.dictSetVal_spec [OF d1(2) e(1,4), of v] obtain d2 where d2: "dictSetVal (n, i, p) v d1 = Some d2" "dict_wf (dbDictType seed) sds_canon d2"
      "dict_map sds_canon d2 = (dict_map sds_canon d1)(f \<mapsto> Some v)" using e(2) by auto
    show ?thesis using d1(1) a d2(1) e(3) dict_rel_upd [OF d2(3,2) f r1] by (auto simp: hashTypeSet_def)
  qed
qed

lemma hroom_value:
  assumes "hroom (m(f \<mapsto> v))" "finite (dom m)"
  shows "length v < 2 ^ 32"
proof -
  have "length f + length (the ((m(f \<mapsto> v)) f)) + 28 \<le> hsize (m(f \<mapsto> v))"
    unfolding hsize_def using assms(2) by (intro member_le_sum) auto
  then show ?thesis using assms(1) by (simp add: hroom_def)
qed

lemma set_sim:
  assumes r: "hash_rel (he_seed env) ob m" and room: "hroom (m(f \<mapsto> v))" and f: "short_key f"
  shows "\<exists>ob'. hashTypeSet env ob f v = Some (ob', m f \<noteq> None) \<and> hash_rel (he_seed env) ob' (m(f \<mapsto> v))"
proof (cases ob)
  case (OBJ_ENCODING_HT d)
  have fin: "finite (dom m)" "hroom m" "dict_rel (he_seed env) d m" using r OBJ_ENCODING_HT by (simp_all add: hash_rel_def)
  from set_ht_sim [OF fin(3) hroom_card [OF fin(2,1)] f, of env v] show ?thesis using OBJ_ENCODING_HT room fin(1) f r by (auto simp: hash_rel_def)
next
  case (OBJ_ENCODING_ZIPLIST zl)
  then obtain ps where ps: "distinct (map fst ps)" "map_of ps = m" "zl_rep zl (flat ps)" using r by (auto simp: hash_rel_def)
  have sh: "\<forall>f \<in> dom m. short_key f" "finite (dom m)" using r by (simp_all add: hash_rel_def)
  from find_field_ok [OF ps(3) f] obtain x where x: "find_field zl f = Some x"
    "case pair_pos f ps of None \<Rightarrow> x = None | Some i \<Rightarrow> \<exists>q. x = Some q \<and> zl_pos zl (flat ps) (2 * i) q" by blast
  have "\<exists>zl' qs. (case x of Some fptr \<Rightarrow> do { vptr \<leftarrow> ziplistNext zl fptr; vptr \<leftarrow> vptr; (zl, vptr) \<leftarrow> ziplistDelete (he_junk env) zl vptr; ziplistInsert (he_junk env) zl vptr v }
      | None \<Rightarrow> do { zl \<leftarrow> ziplistPush (he_junk env) zl f ZIPLIST_TAIL; ziplistPush (he_junk env) zl v ZIPLIST_TAIL }) = Some zl' \<and>
    zl_rep zl' (flat qs) \<and> distinct (map fst qs) \<and> map_of qs = m(f \<mapsto> v) \<and> (x \<noteq> None \<longleftrightarrow> m f \<noteq> None)"
  proof (cases "pair_pos f ps")
    case None
    then have n: "m f = None" "x = None" using x(2) pair_pos_None [of f ps] ps(2) by auto
    let ?qs = "ps @ [(f, v)]"
    have "f \<notin> fst ` set ps" using n(1) ps(2) by (metis map_of_eq_None_iff)
    then have d: "distinct (map fst ?qs)" "map_of ?qs = m(f \<mapsto> v)" using ps(1,2) n(1)
      by (simp, auto simp: fun_eq_iff map_add_def split: option.split)
    have "zroom (flat ?qs)" using hroom_flat [OF d(1)] d(2) room by simp
    from set_zl_push [OF ps(3) this, of "he_junk env"] obtain zl' where
      "do { zl \<leftarrow> ziplistPush (he_junk env) zl f ZIPLIST_TAIL; ziplistPush (he_junk env) zl v ZIPLIST_TAIL } = Some zl'" "zl_rep zl' (flat ?qs)" by blast
    then show ?thesis using n d by (intro exI [of _ zl'] exI [of _ ?qs]) simp
  next
    case (Some i)
    then obtain q where q: "x = Some q" "zl_pos zl (flat ps) (2 * i) q" using x(2) by auto
    note p = pair_pos_Some [OF Some]
    then have i: "i < length ps" "fst (ps ! i) = f" "m f \<noteq> None" using ps(2) by auto
    let ?qs = "ps[i := (fst (ps ! i), v)]"
    have d: "distinct (map fst ?qs)" "map_of ?qs = m(f \<mapsto> v)" using map_of_update [OF ps(1) i(1), of v] ps(1,2) i(2) by simp_all
    have "zroom (flat ?qs)" using hroom_flat [OF d(1)] d(2) room by simp
    from set_zl_update [OF ps(3) i(1) q(2) this, of "he_junk env"] obtain zl' where
      "do { vptr \<leftarrow> ziplistNext zl q; vptr \<leftarrow> vptr; (zl, vptr) \<leftarrow> ziplistDelete (he_junk env) zl vptr; ziplistInsert (he_junk env) zl vptr v } = Some zl'"
      "zl_rep zl' (flat ?qs)" by blast
    then show ?thesis using q(1) d i(3) by (intro exI [of _ zl'] exI [of _ ?qs]) simp
  qed
  then obtain zl' qs where z: "(case x of Some fptr \<Rightarrow> do { vptr \<leftarrow> ziplistNext zl fptr; vptr \<leftarrow> vptr; (zl, vptr) \<leftarrow> ziplistDelete (he_junk env) zl vptr; ziplistInsert (he_junk env) zl vptr v }
      | None \<Rightarrow> do { zl \<leftarrow> ziplistPush (he_junk env) zl f ZIPLIST_TAIL; ziplistPush (he_junk env) zl v ZIPLIST_TAIL }) = Some zl'"
    "zl_rep zl' (flat qs)" "distinct (map fst qs)" "map_of qs = m(f \<mapsto> v)" "x \<noteq> None \<longleftrightarrow> m f \<noteq> None" by (elim exE conjE)
  have "hash_rel (he_seed env) (OBJ_ENCODING_ZIPLIST zl') (m(f \<mapsto> v))" using hash_rel_zl [OF z(3,2)] z(4) sh(1) f by simp
  from length_sim [OF this] obtain zl2 n where l: "hashTypeLength (OBJ_ENCODING_ZIPLIST zl') = Some (OBJ_ENCODING_ZIPLIST zl2, n)"
    "hash_rel (he_seed env) (OBJ_ENCODING_ZIPLIST zl2) (m(f \<mapsto> v))" by auto
  have u: "uint_arg f = f" "uint_arg v = v" using f hroom_value [OF room sh(2)] by simp_all
  show ?thesis unfolding hashTypeSet_def OBJ_ENCODING_ZIPLIST hash_robj.case x(1) u bind.bind_lunit z(1) l(1) prod.case
    using l(2) z(5) convert_sim [OF l(2)] by auto
qed

lemma delete_sim:
  assumes r: "hash_rel seed ob m" and f: "short_key f"
  shows "\<exists>ob'. hashTypeDelete env ob f = Some (ob', m f \<noteq> None) \<and> hash_rel seed ob' (m(f := None))"
proof (cases ob)
  case (OBJ_ENCODING_HT d)
  have fin: "finite (dom m)" "hroom m" "dict_rel seed d m" using r OBJ_ENCODING_HT by (simp_all add: hash_rel_def)
  from dict_exec_refines [OF fin(3) hroom_card [OF fin(2,1)], of "Delete f" False] f obtain d1 where
    d1: "dictDelete f d = Some (d1, if m f = None then DICT_ERR else DICT_OK)" "dict_rel seed d1 (m(f := None))" by (auto simp: apsnd_def map_prod_def)
  have "dict_wf (dbDictType seed) sds_canon d1" using d1(2) by (simp add: dict_rel_def)
  from dictResize_spec [OF this, of "he_can_resize env"] dict_rel_step [OF d1(2)] have "dict_rel seed (fst (dictResize (he_can_resize env) d1)) (m(f := None))" by blast
  then show ?thesis using d1 OBJ_ENCODING_HT fin(1) hroom_del [OF fin(2,1), of f] r by (auto simp: hashTypeDelete_def hash_rel_def)
next
  case (OBJ_ENCODING_ZIPLIST zl)
  then obtain ps where ps: "distinct (map fst ps)" "map_of ps = m" "zl_rep zl (flat ps)" using r by (auto simp: hash_rel_def)
  have sh: "\<forall>f \<in> dom m. short_key f" "finite (dom m)" using r by (simp_all add: hash_rel_def)
  from find_field_ok [OF ps(3) f] obtain x where x: "find_field zl f = Some x"
    "case pair_pos f ps of None \<Rightarrow> x = None | Some i \<Rightarrow> \<exists>q. x = Some q \<and> zl_pos zl (flat ps) (2 * i) q" by blast
  show ?thesis
  proof (cases "pair_pos f ps")
    case None
    then have n: "m f = None" "x = None" using x(2) pair_pos_None [of f ps] ps(2) by auto
    moreover have "m(f := None) = m" using n(1) by auto
    ultimately show ?thesis using r x(1) OBJ_ENCODING_ZIPLIST by (simp add: hashTypeDelete_def)
  next
    case (Some i)
    then obtain q where q: "x = Some q" "zl_pos zl (flat ps) (2 * i) q" using x(2) by auto
    have i: "i < length ps" "fst (ps ! i) = f" "m f \<noteq> None" using pair_pos_Some [OF Some] ps(2) by auto
    from delete_zl [OF i(1) q(2), of "he_junk env"] obtain zl' where z: "do { (zl, q) \<leftarrow> ziplistDelete (he_junk env) zl q; (zl, q) \<leftarrow> ziplistDelete (he_junk env) zl q; Some (OBJ_ENCODING_ZIPLIST zl, True) } =
      Some (OBJ_ENCODING_ZIPLIST zl', True)" "zl_rep zl' (flat (take i ps @ drop (Suc i) ps))" by blast
    have "hash_rel seed (OBJ_ENCODING_ZIPLIST zl') (m(f := None))"
      using hash_rel_zl [OF map_of_remove(2) [OF ps(1) i(1)] z(2), of seed] map_of_remove(1) [OF ps(1) i(1)] i(2) ps(2) sh(1) by (simp del: map_of_append)
    then show ?thesis unfolding hashTypeDelete_def OBJ_ENCODING_ZIPLIST hash_robj.case x(1) bind.bind_lunit q(1) option.case z(1) using i(3) by simp
  qed
qed

section \<open>Histories\<close>

datatype hash_op = Hset bytes bytes | Hdel bytes | Hget bytes | Hexists bytes | Hstrlen bytes | Hlen | Htry "(bool \<times> bytes) list"

datatype hash_out = H_flag bool | H_value "bytes option" | H_num nat | H_done

text \<open>
  An operation in the environment it runs in: the options of the server and whether dictionaries
  may be resized can change between operations. A value that is read is given as it is printed.
\<close>

fun hash_step :: "hash_env \<times> hash_op \<Rightarrow> hash_robj \<Rightarrow> (hash_robj \<times> hash_out) option" where
  "hash_step (env, Hset f v) ob = map_option (apsnd H_flag) (hashTypeSet env ob f v)"
| "hash_step (env, Hdel f) ob = map_option (apsnd H_flag) (hashTypeDelete env ob f)"
| "hash_step (env, Hget f) ob = map_option (apsnd (\<lambda>v. H_value (map_option (\<lambda>v. case v of Zip_str s \<Rightarrow> s | Zip_int n \<Rightarrow> decimal n) v))) (hashTypeGetValue ob f)"
| "hash_step (env, Hexists f) ob = map_option (apsnd H_flag) (hashTypeExists ob f)"
| "hash_step (env, Hstrlen f) ob = map_option (apsnd H_num) (hashTypeGetValueLength ob f)"
| "hash_step (env, Hlen) ob = map_option (apsnd H_num) (hashTypeLength ob)"
| "hash_step (env, Htry argv) ob = map_option (\<lambda>ob. (ob, H_done)) (hashTypeTryConversion env ob argv)"

fun hash_spec :: "hash_env \<times> hash_op \<Rightarrow> (bytes \<rightharpoonup> bytes) \<Rightarrow> (bytes \<rightharpoonup> bytes) \<times> hash_out" where
  "hash_spec (env, Hset f v) m = (m(f \<mapsto> v), H_flag (m f \<noteq> None))"
| "hash_spec (env, Hdel f) m = (m(f := None), H_flag (m f \<noteq> None))"
| "hash_spec (env, Hget f) m = (m, H_value (m f))"
| "hash_spec (env, Hexists f) m = (m, H_flag (m f \<noteq> None))"
| "hash_spec (env, Hstrlen f) m = (m, H_num (case m f of None \<Rightarrow> 0 | Some v \<Rightarrow> length v))"
| "hash_spec (env, Hlen) m = (m, H_num (card (dom m)))"
| "hash_spec (env, Htry argv) m = (m, H_done)"

text \<open>The fields and values have less than 4 GB together, and each field less than 2 ^ 31 bytes.\<close>

fun hash_ok :: "bytes \<Rightarrow> hash_env \<times> hash_op \<Rightarrow> (bytes \<rightharpoonup> bytes) \<Rightarrow> bool" where
  "hash_ok seed (env, Hset f v) m \<longleftrightarrow> he_seed env = seed \<and> short_key f \<and> hroom (m(f \<mapsto> v))"
| "hash_ok seed (env, Hdel f) m \<longleftrightarrow> he_seed env = seed \<and> short_key f"
| "hash_ok seed (env, Hget f) m \<longleftrightarrow> he_seed env = seed \<and> short_key f"
| "hash_ok seed (env, Hexists f) m \<longleftrightarrow> he_seed env = seed \<and> short_key f"
| "hash_ok seed (env, Hstrlen f) m \<longleftrightarrow> he_seed env = seed \<and> short_key f"
| "hash_ok seed (env, _) m \<longleftrightarrow> he_seed env = seed"

lemma try_sim:
  assumes "hash_rel (he_seed env) ob m"
  shows "\<exists>ob'. hashTypeTryConversion env ob argv = Some ob' \<and> hash_rel (he_seed env) ob' m"
proof (cases ob)
  case (OBJ_ENCODING_ZIPLIST zl)
  then show ?thesis using convert_sim [of env zl m] assms by (auto simp: hashTypeTryConversion_def)
qed (use assms in \<open>auto simp: hashTypeTryConversion_def\<close>)

interpretation hash: simulation hash_step hash_spec "hash_rel seed" "hash_ok seed" for seed
proof
  fix ob m c assume r: "hash_rel seed ob m" and ok: "hash_ok seed c m"
  obtain env op where c: "c = (env, op)" by (cases c)
  have s: "he_seed env = seed" using ok by (cases op) (simp_all add: c)
  note r' = r [folded s]
  show "\<exists>ob'. hash_step c ob = Some (ob', snd (hash_spec c m)) \<and> hash_rel seed ob' (fst (hash_spec c m))"
  proof (cases op)
    case (Hset f v)
    then show ?thesis using set_sim [OF r', of f v] ok c s by auto
  next
    case (Hdel f)
    then show ?thesis using delete_sim [OF r, of f env] ok c by auto
  next
    case (Hget f)
    then show ?thesis using get_sim [OF r, of f] ok c by auto
  next
    case (Hexists f)
    then show ?thesis using exists_sim [OF r, of f] ok c by auto
  next
    case (Hstrlen f)
    then show ?thesis using strlen_sim [OF r, of f] ok c by auto
  next
    case Hlen
    then show ?thesis using length_sim [OF r] c by auto
  next
    case (Htry argv)
    then show ?thesis using try_sim [OF r', of argv] c s by auto
  qed
qed

text \<open>
  C6. A hash value is a map: every history of operations on a new hash value, with fields of less than
  2 ^ 31 bytes each and less than 4 GB of fields and values together, in which the options of the
  server and the resizing of dictionaries change in any way, fails no assertion and gives the results
  of a map from strings to strings, through the conversion from a ziplist of fields and values
  to a dictionary, whenever that happens, and although a ziplist stores some of the strings as integers.
\<close>

theorem hash_refines_map:
  assumes "ok_ops hash_spec (hash_ok seed) ops Map.empty" and "spec_ops hash_spec ops Map.empty = (m, rs)"
  shows "\<exists>ob0 ob. createHashObject env = Some ob0 \<and> run_ops hash_step ops ob0 = Some (ob, rs) \<and> hash_rel seed ob m"
proof -
  have "hash_rel seed (OBJ_ENCODING_ZIPLIST (zblk [] 0)) Map.empty"
    using hash_rel_zl [of "[]" "zblk [] 0" seed] zl_rep_new by simp
  from hash.history [OF this assms(1)] show ?thesis using assms(2) by (auto simp: createHashObject_def ziplistNew_ok)
qed

definition hash_env_example :: "nat \<Rightarrow> hash_env" where
  "hash_env_example n = \<lparr>he_seed = replicate 16 0, he_junk = (\<lambda>_. 7), he_can_resize = True, hash_max_ziplist_entries = n, hash_max_ziplist_value = 64\<rparr>"

text \<open>The second field exceeds the limit of one entry, so the value is converted.\<close>

theorem hash_refines_map_witness:
  "\<exists>ob0 ob. createHashObject (hash_env_example 1) = Some ob0 \<and>
     run_ops hash_step (map (Pair (hash_env_example 1)) [Hset [97] [49, 48], Hset [97] [50], Hget [97], Hset [98] [99], Hget [97], Hdel [98], Hexists [98], Hlen]) ob0 =
       Some (ob, [H_flag False, H_flag True, H_value (Some [50]), H_flag False, H_value (Some [50]), H_flag True, H_flag False, H_num 1]) \<and>
     hash_rel (replicate 16 0) ob [[97] \<mapsto> [50]]"
proof (rule hash_refines_map)
  have h: "hroom m" if "hsize m \<le> 1000" for m using that by (simp add: hroom_def)
  have 0: "hsize Map.empty = 0" by (simp add: hsize_def)
  have 1: "hsize [[97] \<mapsto> [49, 48]] \<le> 31" using hsize_upd_le [of Map.empty "[97]" "[49, 48]"] 0 by simp
  have 2: "hsize [[97] \<mapsto> [50]] \<le> 30" using hsize_upd_le [of Map.empty "[97]" "[50]"] 0 by simp
  have 3: "hsize [[97] \<mapsto> [50], [98] \<mapsto> [99]] \<le> 60" using hsize_upd_le [of "[[97] \<mapsto> [50]]" "[98]" "[99]"] 2 by simp
  show "ok_ops hash_spec (hash_ok (replicate 16 0)) (map (Pair (hash_env_example 1)) [Hset [97] [49, 48], Hset [97] [50], Hget [97], Hset [98] [99], Hget [97], Hdel [98], Hexists [98], Hlen]) Map.empty"
    using 1 2 3 by (simp add: hash_env_example_def h short_key_def)
  have u: "[[97 :: u8] \<mapsto> [50], [98] \<mapsto> [99]]([98] := None) = [[97] \<mapsto> [50 :: u8]]" by (auto simp: fun_eq_iff)
  show "spec_ops hash_spec (map (Pair (hash_env_example 1)) [Hset [97] [49, 48], Hset [97] [50], Hget [97], Hset [98] [99], Hget [97], Hdel [98], Hexists [98], Hlen]) Map.empty =
      ([[97] \<mapsto> [50]], [H_flag False, H_flag True, H_value (Some [50]), H_flag False, H_value (Some [50]), H_flag True, H_flag False, H_num 1])"
    using u by (simp add: Let_def)
qed

end
