(* ===== verification/Set_Type.thy ===== *)
theory Set_Type
  imports Hash_Refine Intset
begin

section \<open>Set values: \<open>t_set.c\<close>\<close>

text \<open>
  A set value is an intset while all of its elements are decimal integers and few, and a
  dictionary with the elements as keys otherwise. The functions of \<open>t_set.c\<close> on such a value, with the
  conversion of the encoding, composed of the models of \<open>intset.c\<close>, \<open>dict.c\<close>, \<open>sds.c\<close> and \<open>util.c\<close>, and the
  proof that a set value is a set of strings. The value of an entry is the null pointer, the only value of
  type \<open>unit\<close>.
\<close>

datatype set_robj = SET_ENCODING_INTSET intset | SET_ENCODING_HT "(bytes, unit) dict"

record set_env =
  se_seed :: bytes
  se_junk :: "nat \<Rightarrow> u8"
  se_can_resize :: bool
  set_max_intset_entries :: nat

definition setDictType :: "bytes \<Rightarrow> (bytes, unit) dictType" where
  "setDictType seed = \<lparr>hashFunction = dictSdsHash seed, keyDup = None, valDup = None, keyCompare = Some dictSdsKeyCompare\<rparr>"

definition isSdsRepresentableAsLongLong :: "bytes \<Rightarrow> int option" where
  "isSdsRepresentableAsLongLong s = string2ll s"

definition createSetObject :: "set_env \<Rightarrow> set_robj" where
  "createSetObject env = SET_ENCODING_HT (dictCreate (setDictType (se_seed env)))"

definition createIntsetObject :: set_robj where
  "createIntsetObject = SET_ENCODING_INTSET intsetNew"

definition setTypeCreate :: "set_env \<Rightarrow> bytes \<Rightarrow> set_robj" where
  "setTypeCreate env val = (if isSdsRepresentableAsLongLong val \<noteq> None then createIntsetObject else createSetObject env)"

text \<open>\<open>dictSetKey\<close>: the key of an entry is overwritten.\<close>

definition dictSetKey :: "entry_ref \<Rightarrow> 'k \<Rightarrow> ('k, 'v) dict \<Rightarrow> ('k, 'v) dict option" where
  "dictSetKey r key d = (case r of (t, i, p) \<Rightarrow>
     (case bucket (get_ht d t) i of
        None \<Rightarrow> None
      | Some c \<Rightarrow>
          if p < length c then
            (let key' = (case keyDup (d_type d) of Some f \<Rightarrow> f key | None \<Rightarrow> key) in
             Some (set_ht t (set_bucket i (c[p := (c ! p)\<lparr>de_key := key'\<rparr>]) (get_ht d t)) d))
          else None))"

text \<open>\<open>setTypeNext\<close> on an intset: the element at the position of the iterator.\<close>

definition setTypeNext :: "intset \<Rightarrow> nat \<Rightarrow> int option option" where
  "setTypeNext subject ii = intsetGet subject ii"

partial_function (option) set_convert_loop :: "set_env \<Rightarrow> intset \<Rightarrow> nat \<Rightarrow> (bytes, unit) dict \<Rightarrow> (bytes, unit) dict option" where
  "set_convert_loop env subject ii d = do {
     intele \<leftarrow> setTypeNext subject ii;
     case intele of None \<Rightarrow> Some d
     | Some intele \<Rightarrow> do {
         element \<leftarrow> sdsfromlonglong (se_junk env) intele;
         (d, ret) \<leftarrow> dictAdd (se_can_resize env) (sds_val element) () d;
         if ret \<noteq> DICT_OK then None else set_convert_loop env subject (ii + 1) d
       }
   }"

declare set_convert_loop.simps [code]

text \<open>\<open>setTypeConvert(setobj, OBJ_ENCODING_HT)\<close>\<close>

definition setTypeConvert :: "set_env \<Rightarrow> set_robj \<Rightarrow> set_robj option" where
  "setTypeConvert env setobj = (case setobj of
     SET_ENCODING_HT _ \<Rightarrow> None
   | SET_ENCODING_INTSET is \<Rightarrow> do {
       let d = fst (dictExpand (intsetLen is) (dictCreate (setDictType (se_seed env))));
       d \<leftarrow> set_convert_loop env is 0 d;
       Some (SET_ENCODING_HT d)
     })"

definition setTypeAdd :: "set_env \<Rightarrow> set_robj \<Rightarrow> bytes \<Rightarrow> (set_robj \<times> bool) option" where
  "setTypeAdd env subject val = (case subject of
     SET_ENCODING_HT ht \<Rightarrow> do {
       (ht, de, _) \<leftarrow> dictAddRaw (se_can_resize env) val ht;
       case de of
         Some de \<Rightarrow> do { ht \<leftarrow> dictSetKey de val ht; ht \<leftarrow> dictSetVal de () ht; Some (SET_ENCODING_HT ht, True) }
       | None \<Rightarrow> Some (SET_ENCODING_HT ht, False)
     }
   | SET_ENCODING_INTSET is \<Rightarrow> (case isSdsRepresentableAsLongLong val of
       Some llval \<Rightarrow> do {
         (is, success) \<leftarrow> intsetAdd (se_junk env) is llval;
         if success then do {
           subject \<leftarrow> (if intsetLen is > set_max_intset_entries env then setTypeConvert env (SET_ENCODING_INTSET is) else Some (SET_ENCODING_INTSET is));
           Some (subject, True)
         }
         else Some (SET_ENCODING_INTSET is, False)
       }
     | None \<Rightarrow> do {
         subject \<leftarrow> setTypeConvert env subject;
         case subject of
           SET_ENCODING_HT d \<Rightarrow> do {
             (d, ret) \<leftarrow> dictAdd (se_can_resize env) val () d;
             if ret = DICT_OK then Some (SET_ENCODING_HT d, True) else None
           }
         | SET_ENCODING_INTSET _ \<Rightarrow> None
       }))"

definition setTypeRemove :: "set_env \<Rightarrow> set_robj \<Rightarrow> bytes \<Rightarrow> (set_robj \<times> bool) option" where
  "setTypeRemove env setobj val = (case setobj of
     SET_ENCODING_HT d \<Rightarrow> do {
       (d, st) \<leftarrow> dictDelete val d;
       if st = DICT_OK then Some (SET_ENCODING_HT (if htNeedsResize d then fst (dictResize (se_can_resize env) d) else d), True)
       else Some (SET_ENCODING_HT d, False)
     }
   | SET_ENCODING_INTSET is \<Rightarrow> (case isSdsRepresentableAsLongLong val of
       Some llval \<Rightarrow> do { (is, success) \<leftarrow> intsetRemove (se_junk env) is llval; Some (SET_ENCODING_INTSET is, success) }
     | None \<Rightarrow> Some (setobj, False)))"

definition setTypeIsMember :: "set_robj \<Rightarrow> bytes \<Rightarrow> (set_robj \<times> bool) option" where
  "setTypeIsMember subject val = (case subject of
     SET_ENCODING_HT d \<Rightarrow> do { (d, de) \<leftarrow> dictFind val d; Some (SET_ENCODING_HT d, de \<noteq> None) }
   | SET_ENCODING_INTSET is \<Rightarrow> (case isSdsRepresentableAsLongLong val of
       Some llval \<Rightarrow> do { b \<leftarrow> intsetFind is llval; Some (subject, b) }
     | None \<Rightarrow> Some (subject, False)))"

definition setTypeSize :: "set_robj \<Rightarrow> nat" where
  "setTypeSize subject = (case subject of SET_ENCODING_HT d \<Rightarrow> dictSize d | SET_ENCODING_INTSET is \<Rightarrow> intsetLen is)"

section \<open>Representation\<close>

definition keys_map :: "bytes set \<Rightarrow> bytes \<rightharpoonup> unit" where
  "keys_map S = (\<lambda>k. if k \<in> S then Some () else None)"

lemma keys_map_simps [simp]: "dom (keys_map S) = S" "(keys_map S)(k \<mapsto> u) = keys_map (insert k S)" "(keys_map S)(k := None) = keys_map (S - {k})"
  "keys_map S k = None \<longleftrightarrow> k \<notin> S" "keys_map {} = Map.empty"
  by (auto simp: keys_map_def fun_eq_iff split: if_splits)

definition set_rel :: "bytes \<Rightarrow> set_robj \<Rightarrow> bytes set \<Rightarrow> bool" where
  "set_rel seed ob S \<longleftrightarrow> finite S \<and> card S \<le> 2 ^ 28 \<and>
     (case ob of
        SET_ENCODING_INTSET is \<Rightarrow> \<exists>xs. intset_wf is xs \<and> S = decimal ` set xs
      | SET_ENCODING_HT d \<Rightarrow> dict_rel seed d (keys_map S))"

lemma decimal_inj:
  assumes "v \<in> int_range 8" "w \<in> int_range 8"
  shows "decimal v = decimal w \<longleftrightarrow> v = w"
proof
  assume "decimal v = decimal w"
  moreover have "string2ll (decimal v) = Some v" "string2ll (decimal w) = Some w"
    using assms by (simp_all add: string2ll_iff int_range_simps LLONG_MIN_def LLONG_MAX_def)
  ultimately show "v = w" by (metis option.inject)
qed simp

lemma intset_range: "intset_wf is xs \<Longrightarrow> set xs \<subseteq> int_range 8"
  by (auto simp: intset_wf_def int_range_simps)

lemma decimal_card:
  assumes "intset_wf is xs"
  shows "card (decimal ` set xs) = length xs" "inj_on decimal (set xs)"
proof -
  show i: "inj_on decimal (set xs)" using intset_range [OF assms] decimal_inj by (auto simp: inj_on_def)
  show "card (decimal ` set xs) = length xs" using card_image [OF i] intset_wf_card [OF assms] by simp
qed

lemma represent_iff: "isSdsRepresentableAsLongLong s = Some v \<longleftrightarrow> v \<in> int_range 8 \<and> s = decimal v"
  by (auto simp: isSdsRepresentableAsLongLong_def string2ll_iff int_range_simps LLONG_MIN_def LLONG_MAX_def)

lemma member_decimal:
  assumes "intset_wf is xs" "v \<in> int_range 8"
  shows "decimal v \<in> decimal ` set xs \<longleftrightarrow> v \<in> set xs" "insert (decimal v) (decimal ` set xs) = decimal ` insert v (set xs)"
    "decimal ` set xs - {decimal v} = decimal ` (set xs - {v})"
proof -
  have e: "w \<in> set xs \<Longrightarrow> decimal w = decimal v \<longleftrightarrow> w = v" for w using intset_range [OF assms(1)] decimal_inj [OF _ assms(2), of w] by blast
  show "decimal v \<in> decimal ` set xs \<longleftrightarrow> v \<in> set xs" using e by (metis image_iff)
  show "insert (decimal v) (decimal ` set xs) = decimal ` insert v (set xs)" by simp
  show "decimal ` set xs - {decimal v} = decimal ` (set xs - {v})" by (auto simp: e)
qed

lemma not_represented: "isSdsRepresentableAsLongLong s = None \<Longrightarrow> intset_wf is xs \<Longrightarrow> s \<notin> decimal ` set xs"
  using intset_range [of "is" xs] represent_iff [of s] by (metis image_iff option.distinct(1) subsetD)

lemma decimal_short: "v \<in> int_range 8 \<Longrightarrow> short_key (decimal v)"
  using length_decimal [of v] by (simp add: short_key_def int_range_simps LLONG_MIN_def LLONG_MAX_def)

section \<open>Conversion\<close>

lemma setDictType_db: "setDictType seed = dbDictType seed"
  by (simp add: setDictType_def dbDictType_def)

lemma set_convert_loop_ok:
  assumes "intset_wf is xs" "length xs \<le> 2 ^ 28" "ii \<le> length xs" "dict_rel seed d (keys_map (decimal ` set (take ii xs)))"
  shows "\<exists>d'. set_convert_loop env is ii d = Some d' \<and> dict_rel seed d' (keys_map (decimal ` set xs))"
  using assms
proof (induction "length xs - ii" arbitrary: ii d)
  case 0
  then have "ii = length xs" "is_length is = length xs" by (simp_all add: intset_wf_def)
  then show ?case using 0(5) by (subst set_convert_loop.simps) (simp add: setTypeNext_def intsetGet_def)
next
  case (Suc n)
  then have i: "ii < length xs" "n = length xs - Suc ii" "Suc ii \<le> length xs" "is_length is = length xs" by (simp_all add: intset_wf_def)
  let ?v = "xs ! ii"
  have g: "setTypeNext is ii = Some (Some ?v)" using intsetGetPos_wf [OF Suc(3) i(1)] i(1,4) by (simp add: setTypeNext_def intsetGet_def)
  have v: "?v \<in> int_range 8" using intset_range [OF Suc(3)] i(1) nth_mem by blast
  then have "LLONG_MIN \<le> ?v" "?v \<le> LLONG_MAX" by (simp_all add: int_range_simps LLONG_MIN_def LLONG_MAX_def)
  from sdsfromlonglong_roundtrip [OF this, of "se_junk env"] obtain x where x: "sdsfromlonglong (se_junk env) ?v = Some x" "sds_val x = decimal ?v" by blast
  have t: "take (Suc ii) xs = take ii xs @ [?v]" using i(1) by (simp add: take_Suc_conv_app_nth)
  have "sorted_wrt (<) (take (Suc ii) xs)" using Suc(3) by (simp add: intset_wf_def sorted_wrt_take)
  then have "?v \<notin> set (take ii xs)" unfolding t by (auto simp: sorted_wrt_append)
  then have n: "decimal ?v \<notin> decimal ` set (take ii xs)" using v intset_range [OF Suc(3)] decimal_inj [OF v] by (auto simp: image_iff dest: in_set_takeD)
  have "card (decimal ` set (take ii xs)) \<le> length (take ii xs)" by (meson card_image_le card_length finite_set le_trans)
  then have "card (decimal ` set (take ii xs)) \<le> 2 ^ 30" using Suc(4) by simp
  then obtain d' where d': "dictAdd (se_can_resize env) (decimal ?v) () d = Some (d', DICT_OK)" "dict_rel seed d' (keys_map (decimal ` set (take (Suc ii) xs)))"
    using rel_add [OF Suc(6) _ _ decimal_short [OF v], of "se_can_resize env" "()"] n by (auto simp: t)
  from Suc(1) [OF i(2) Suc(3,4) i(3) d'(2)] show ?case using g x d'(1) by (subst set_convert_loop.simps) simp
qed

lemma set_convert_ok:
  assumes "set_rel (se_seed env) (SET_ENCODING_INTSET is) S"
  shows "\<exists>d. setTypeConvert env (SET_ENCODING_INTSET is) = Some (SET_ENCODING_HT d) \<and> set_rel (se_seed env) (SET_ENCODING_HT d) S"
proof -
  from assms obtain xs where xs: "intset_wf is xs" "S = decimal ` set xs" "finite S" "card S \<le> 2 ^ 28" by (auto simp: set_rel_def)
  have l: "length xs \<le> 2 ^ 28" using decimal_card(1) [OF xs(1)] xs(2,4) by simp
  let ?d = "dictCreate (setDictType (se_seed env)) :: (bytes, unit) dict"
  have r: "dict_rel (se_seed env) ?d Map.empty" using db.dictCreate_spec [of "se_seed env"] by (simp add: dict_rel_def setDictType_db)
  then have w: "dict_wf (dbDictType (se_seed env)) sds_canon ?d" by (simp add: dict_rel_def)
  obtain d' st where e: "dictExpand (intsetLen is) ?d = (d', st)" by fastforce
  have "intsetLen is \<le> 2 ^ 31" using l xs(1) by (simp add: intset_wf_def intsetLen_def)
  from dictExpand_spec [OF w this e] have "dict_rel (se_seed env) d' (keys_map (decimal ` set (take 0 xs)))" using dict_rel_step [OF r] by auto
  from set_convert_loop_ok [OF xs(1) l _ this, of env] show ?thesis using e xs(2-4) by (auto simp: setTypeConvert_def set_rel_def)
qed

section \<open>Operations\<close>

lemma dictSetKey_same:
  assumes "deref d (t, i, p) = Some e" "de_key e = k" "keyDup (d_type d) = None"
  shows "dictSetKey (t, i, p) k d = Some d"
proof -
  from assms(1) obtain c where c: "bucket (get_ht d t) i = Some c" "p < length c" "c ! p = e" by (auto simp: deref_def split: option.splits if_splits)
  have "(c ! p)\<lparr>de_key := k\<rparr> = c ! p" using c(3) assms(2) by simp
  then have "c[p := (c ! p)\<lparr>de_key := k\<rparr>] = c" by simp
  moreover have "set_bucket i c (get_ht d t) = get_ht d t" using c(1) by (auto simp: set_bucket_def bucket_def split: if_splits)
  moreover have "set_ht t (get_ht d t) d = d" by (simp add: set_ht_def get_ht_def)
  ultimately show ?thesis using c assms(3) by (simp add: dictSetKey_def)
qed

lemma set_add_ht:
  assumes r: "dict_rel seed d (keys_map S)" and c: "finite S" "card S \<le> 2 ^ 28" and s: "short_key s"
  shows "\<exists>d'. setTypeAdd env (SET_ENCODING_HT d) s = Some (SET_ENCODING_HT d', s \<notin> S) \<and> dict_rel seed d' (keys_map (insert s S))"
proof -
  have wf: "dict_wf (dbDictType seed) sds_canon d" "dict_map sds_canon d = (\<lambda>k. map_option Some (keys_map S k))" using r by (simp_all add: dict_rel_def)
  have sz: "dictSize d \<le> 2 ^ 30" using dict_rel_size [OF r] c(2) by simp
  have kd: "keyDup (dbDictType seed :: (bytes, unit) dictType) = None" by (simp add: dbDictType_def)
  from db.dictAddRaw_spec [OF wf(1) sz, of "se_can_resize env" s, unfolded sds_canon_short [OF s]] obtain d1 new ex where
    d1: "dictAddRaw (se_can_resize env) s d = Some (d1, new, ex)" "dict_wf (dbDictType seed) sds_canon d1"
    "if dict_map sds_canon d s = None
      then ex = None \<and> (\<exists>n i. new = Some (n, i, 0) \<and> (dictIsRehashing d1 \<or> n = 0) \<and> (\<exists>e. deref d1 (n, i, 0) = Some e \<and> sds_canon (de_key e) = s \<and>
             (keyDup (dbDictType seed :: (bytes, unit) dictType) = None \<longrightarrow> de_key e = s))) \<and>
           dict_map sds_canon d1 = (dict_map sds_canon d)(s \<mapsto> None)
      else new = None \<and> (\<exists>n i p e. ex = Some (n, i, p) \<and> (dictIsRehashing d1 \<or> n = 0) \<and> deref d1 (n, i, p) = Some e \<and> sds_canon (de_key e) = s) \<and>
           dict_map sds_canon d1 = dict_map sds_canon d" by blast
  show ?thesis
  proof (cases "s \<in> S")
    case True
    then have "new = None" "dict_map sds_canon d1 = dict_map sds_canon d" using d1(3) wf(2) by (auto simp: keys_map_def)
    then show ?thesis using d1(1,2) r True by (simp add: setTypeAdd_def dict_rel_def insert_absorb)
  next
    case False
    then obtain n i e where e: "new = Some (n, i, 0)" "dictIsRehashing d1 \<or> n = 0" "deref d1 (n, i, 0) = Some e" "de_key e = s"
      "dict_map sds_canon d1 = (dict_map sds_canon d)(s \<mapsto> None)" using d1(3) wf(2) kd by (auto simp: keys_map_def)
    have kd': "keyDup (d_type d1) = None" using d1(2) by (simp add: dict_wf_def dbDictType_def)
    from db.dictSetVal_spec [OF d1(2) e(3,2), of "()"] e(4,5) s obtain d2 where d2: "dictSetVal (n, i, 0) () d1 = Some d2" "dict_wf (dbDictType seed) sds_canon d2"
      "dict_map sds_canon d2 = (dict_map sds_canon d)(s \<mapsto> Some ())" by auto
    have "dict_rel seed d2 (keys_map (insert s S))" using dict_rel_upd [OF d2(3,2) s r] by simp
    then show ?thesis using d1(1) e(1) dictSetKey_same [OF e(3,4) kd'] d2(1) False by (simp add: setTypeAdd_def)
  qed
qed

lemma set_add_sim:
  assumes r: "set_rel (se_seed env) ob S" and room: "card S < 2 ^ 28" and s: "short_key s"
  shows "\<exists>ob'. setTypeAdd env ob s = Some (ob', s \<notin> S) \<and> set_rel (se_seed env) ob' (insert s S)"
proof -
  have fin: "finite S" "card S \<le> 2 ^ 28" "finite (insert s S)" "card (insert s S) \<le> 2 ^ 28" using r room by (auto simp: set_rel_def card_insert_if)
  show ?thesis
  proof (cases ob)
    case (SET_ENCODING_HT d)
    then have "dict_rel (se_seed env) d (keys_map S)" using r by (simp add: set_rel_def)
    from set_add_ht [OF this fin(1,2) s, of env] show ?thesis using SET_ENCODING_HT fin by (auto simp: set_rel_def)
  next
    case (SET_ENCODING_INTSET "is")
    then obtain xs where xs: "intset_wf is xs" "S = decimal ` set xs" using r by (auto simp: set_rel_def)
    have l: "length xs < 2 ^ 28" using decimal_card(1) [OF xs(1)] xs(2) room by simp
    show ?thesis
    proof (cases "isSdsRepresentableAsLongLong s")
      case None
      have n: "s \<notin> S" using not_represented [OF None xs(1)] xs(2) by simp
      from set_convert_ok [OF r [unfolded SET_ENCODING_INTSET]] obtain d where
        d: "setTypeConvert env (SET_ENCODING_INTSET is) = Some (SET_ENCODING_HT d)" "dict_rel (se_seed env) d (keys_map S)" by (auto simp: set_rel_def)
      have "card (dom (keys_map S)) \<le> 2 ^ 30" using fin(2) by simp
      from rel_add [OF d(2) this _ s, of "se_can_resize env" "()"] n obtain d' where
        "dictAdd (se_can_resize env) s () d = Some (d', DICT_OK)" "dict_rel (se_seed env) d' (keys_map (insert s S))" by auto
      then show ?thesis using d(1) SET_ENCODING_INTSET None n fin by (auto simp: setTypeAdd_def set_rel_def)
    next
      case (Some v)
      then have v: "v \<in> int_range 8" "s = decimal v" by (simp_all add: represent_iff)
      from intsetAdd_spec [OF xs(1) l v(1), of "se_junk env"] obtain is' xs' where
        a: "intsetAdd (se_junk env) is v = Some (is', v \<notin> set xs)" "intset_wf is' xs'" "set xs' = insert v (set xs)" by blast
      have m: "s \<notin> S \<longleftrightarrow> v \<notin> set xs" "insert s S = decimal ` set xs'" using member_decimal [OF xs(1) v(1)] a(3) v(2) xs(2) by auto
      have r': "set_rel (se_seed env) (SET_ENCODING_INTSET is') (insert s S)" using a(2) m(2) fin by (auto simp: set_rel_def)
      then show ?thesis using a(1) m(1) Some SET_ENCODING_INTSET set_convert_ok [OF r'] by (auto simp: setTypeAdd_def)
    qed
  qed
qed

lemma set_remove_sim:
  assumes r: "set_rel seed ob S" and s: "short_key s"
  shows "\<exists>ob'. setTypeRemove env ob s = Some (ob', s \<in> S) \<and> set_rel seed ob' (S - {s})"
proof -
  have fin: "finite S" "card S \<le> 2 ^ 28" "card (S - {s}) \<le> 2 ^ 28" using r card_mono [of S "S - {s}"] by (auto simp: set_rel_def)
  show ?thesis
  proof (cases ob)
    case (SET_ENCODING_HT d)
    then have d: "dict_rel seed d (keys_map S)" using r by (simp add: set_rel_def)
    have "card (dom (keys_map S)) \<le> 2 ^ 30" using fin(2) by simp
    from dict_exec_refines [OF d this, of "Delete s" False] s obtain d1 where
      d1: "dictDelete s d = Some (d1, if s \<in> S then DICT_OK else DICT_ERR)" "dict_rel seed d1 (keys_map (S - {s}))" by (auto simp: apsnd_def map_prod_def)
    have "dict_wf (dbDictType seed) sds_canon d1" using d1(2) by (simp add: dict_rel_def)
    from dictResize_spec [OF this, of "se_can_resize env"] dict_rel_step [OF d1(2)] have "dict_rel seed (fst (dictResize (se_can_resize env) d1)) (keys_map (S - {s}))" by blast
    then show ?thesis using d1 SET_ENCODING_HT fin by (auto simp: setTypeRemove_def set_rel_def)
  next
    case (SET_ENCODING_INTSET "is")
    then obtain xs where xs: "intset_wf is xs" "S = decimal ` set xs" using r by (auto simp: set_rel_def)
    have l: "length xs \<le> 2 ^ 28" using decimal_card(1) [OF xs(1)] xs(2) fin(2) by simp
    show ?thesis
    proof (cases "isSdsRepresentableAsLongLong s")
      case None
      then show ?thesis using not_represented [OF None xs(1)] xs(2) r SET_ENCODING_INTSET by (simp add: setTypeRemove_def)
    next
      case (Some v)
      then have v: "v \<in> int_range 8" "s = decimal v" by (simp_all add: represent_iff)
      from intsetRemove_spec [OF xs(1) l v(1), of "se_junk env"] obtain is' xs' where
        a: "intsetRemove (se_junk env) is v = Some (is', v \<in> set xs)" "intset_wf is' xs'" "set xs' = set xs - {v}" by blast
      have m: "s \<in> S \<longleftrightarrow> v \<in> set xs" "S - {s} = decimal ` set xs'" using member_decimal [OF xs(1) v(1)] a(3) v(2) xs(2) by auto
      have "set_rel seed (SET_ENCODING_INTSET is') (S - {s})" unfolding set_rel_def using a(2) m(2) fin by auto
      then show ?thesis using a(1) m(1) Some SET_ENCODING_INTSET by (simp add: setTypeRemove_def)
    qed
  qed
qed

lemma set_member_sim:
  assumes r: "set_rel seed ob S" and s: "short_key s"
  shows "\<exists>ob'. setTypeIsMember ob s = Some (ob', s \<in> S) \<and> set_rel seed ob' S"
proof (cases ob)
  case (SET_ENCODING_HT d)
  then have d: "dict_rel seed d (keys_map S)" using r by (simp add: set_rel_def)
  then have wf: "dict_wf (dbDictType seed) sds_canon d" "dict_map sds_canon d = (\<lambda>k. map_option Some (keys_map S k))" by (simp_all add: dict_rel_def)
  from db.dictFind_spec [OF wf(1), of s, unfolded sds_canon_short [OF s]] obtain d1 x where d1: "dictFind s d = Some (d1, x)" "dict_wf (dbDictType seed) sds_canon d1" "dict_step d d1"
    "case x of None \<Rightarrow> dict_map sds_canon d s = None
      | Some (n, i, p) \<Rightarrow> (dictIsRehashing d1 \<or> n = 0) \<and> (\<exists>e. deref d1 (n, i, p) = Some e \<and> sds_canon (de_key e) = s \<and> dict_map sds_canon d s = Some (de_val e))" by blast
  have "x \<noteq> None \<longleftrightarrow> s \<in> S" using d1(4) wf(2) by (cases x) (auto simp: keys_map_def split: if_splits)
  then show ?thesis using d1(1) SET_ENCODING_HT r dict_rel_step [OF d d1(2,3)] by (auto simp: setTypeIsMember_def set_rel_def)
next
  case (SET_ENCODING_INTSET "is")
  then obtain xs where xs: "intset_wf is xs" "S = decimal ` set xs" using r by (auto simp: set_rel_def)
  show ?thesis
  proof (cases "isSdsRepresentableAsLongLong s")
    case None
    then show ?thesis using not_represented [OF None xs(1)] xs(2) r SET_ENCODING_INTSET by (simp add: setTypeIsMember_def)
  next
    case (Some v)
    then have v: "v \<in> int_range 8" "s = decimal v" by (simp_all add: represent_iff)
    then show ?thesis using intsetFind_spec [OF xs(1) v(1)] member_decimal(1) [OF xs(1) v(1)] xs(2) r Some SET_ENCODING_INTSET by (simp add: setTypeIsMember_def)
  qed
qed

lemma set_size_sim: "set_rel seed ob S \<Longrightarrow> setTypeSize ob = card S"
proof (cases ob)
  case (SET_ENCODING_HT d)
  assume "set_rel seed ob S"
  then have "dict_rel seed d (keys_map S)" using SET_ENCODING_HT by (simp add: set_rel_def)
  from dict_rel_size [OF this] show ?thesis using SET_ENCODING_HT by (simp add: setTypeSize_def)
next
  case (SET_ENCODING_INTSET "is")
  assume "set_rel seed ob S"
  then obtain xs where xs: "intset_wf is xs" "S = decimal ` set xs" using SET_ENCODING_INTSET by (auto simp: set_rel_def)
  then show ?thesis using decimal_card(1) [OF xs(1)] SET_ENCODING_INTSET by (simp add: setTypeSize_def intsetLen_def intset_wf_def)
qed

section \<open>Histories\<close>

datatype set_op = Sadd bytes | Srem bytes | Smember bytes | Ssize

datatype set_out = S_flag bool | S_num nat

fun set_step :: "set_env \<times> set_op \<Rightarrow> set_robj \<Rightarrow> (set_robj \<times> set_out) option" where
  "set_step (env, Sadd s) ob = map_option (apsnd S_flag) (setTypeAdd env ob s)"
| "set_step (env, Srem s) ob = map_option (apsnd S_flag) (setTypeRemove env ob s)"
| "set_step (env, Smember s) ob = map_option (apsnd S_flag) (setTypeIsMember ob s)"
| "set_step (env, Ssize) ob = Some (ob, S_num (setTypeSize ob))"

fun set_spec :: "set_env \<times> set_op \<Rightarrow> bytes set \<Rightarrow> bytes set \<times> set_out" where
  "set_spec (env, Sadd s) S = (insert s S, S_flag (s \<notin> S))"
| "set_spec (env, Srem s) S = (S - {s}, S_flag (s \<in> S))"
| "set_spec (env, Smember s) S = (S, S_flag (s \<in> S))"
| "set_spec (env, Ssize) S = (S, S_num (card S))"

text \<open>Elements of less than 2 ^ 31 bytes, and at most 2 ^ 28 of them.\<close>

fun set_ok :: "bytes \<Rightarrow> set_env \<times> set_op \<Rightarrow> bytes set \<Rightarrow> bool" where
  "set_ok seed (env, Sadd s) S \<longleftrightarrow> se_seed env = seed \<and> short_key s \<and> card S < 2 ^ 28"
| "set_ok seed (env, Srem s) S \<longleftrightarrow> se_seed env = seed \<and> short_key s"
| "set_ok seed (env, Smember s) S \<longleftrightarrow> se_seed env = seed \<and> short_key s"
| "set_ok seed (env, _) S \<longleftrightarrow> se_seed env = seed"

interpretation setv: simulation set_step set_spec "set_rel seed" "set_ok seed" for seed
proof
  fix ob S c assume r: "set_rel seed ob S" and ok: "set_ok seed c S"
  obtain env op where c: "c = (env, op)" by (cases c)
  have s: "se_seed env = seed" using ok by (cases op) (simp_all add: c)
  show "\<exists>ob'. set_step c ob = Some (ob', snd (set_spec c S)) \<and> set_rel seed ob' (fst (set_spec c S))"
  proof (cases op)
    case (Sadd x)
    then show ?thesis using set_add_sim [OF r [folded s], of x] ok c s by auto
  next
    case (Srem x)
    then show ?thesis using set_remove_sim [OF r, of x env] ok c by auto
  next
    case (Smember x)
    then show ?thesis using set_member_sim [OF r, of x] ok c by auto
  next
    case Ssize
    then show ?thesis using set_size_sim [OF r] r c by auto
  qed
qed

text \<open>
  C7. A set value is a set of strings: every history of additions, removals, membership tests and size
  queries on the value created for a first element, with elements of less than 2 ^ 31 bytes and never more than 2 ^ 28
  of them, in which the options of the server change in any way, fails no
  assertion and gives the results of a set, through the conversion from an array of integers to
  a dictionary of strings, whether it is the number of the elements or one of them that forces it.
\<close>

theorem set_refines_set:
  assumes "ok_ops set_spec (set_ok (se_seed env)) ops {}" and "spec_ops set_spec ops {} = (S, rs)"
  shows "\<exists>ob. run_ops set_step ops (setTypeCreate env s) = Some (ob, rs) \<and> set_rel (se_seed env) ob S"
proof -
  have i: "intset_wf intsetNew []" by (simp add: intset_wf_def intsetNew_def enc_defs)
  have d: "dict_rel (se_seed env) (dictCreate (setDictType (se_seed env))) Map.empty"
    using db.dictCreate_spec [of "se_seed env"] by (simp add: dict_rel_def setDictType_db)
  have "set_rel (se_seed env) (setTypeCreate env s) {}"
    using i d by (auto simp: setTypeCreate_def createSetObject_def createIntsetObject_def set_rel_def)
  from setv.history [OF this assms(1)] show ?thesis using assms(2) by auto
qed

definition set_env_example :: set_env where
  "set_env_example = \<lparr>se_seed = replicate 16 0, se_junk = (\<lambda>_. 7), se_can_resize = True, set_max_intset_entries = 512\<rparr>"

text \<open>The third element is not a number.\<close>

theorem set_refines_set_witness:
  "\<exists>ob. run_ops set_step (map (Pair set_env_example) [Sadd [49], Sadd [49, 48], Sadd [49], Sadd [97], Smember [49, 48], Srem [49], Ssize]) (setTypeCreate set_env_example [49]) =
       Some (ob, [S_flag True, S_flag True, S_flag False, S_flag True, S_flag True, S_flag True, S_num 2]) \<and>
     set_rel (se_seed set_env_example) ob {[49, 48], [97]}"
proof (rule set_refines_set)
  show "ok_ops set_spec (set_ok (se_seed set_env_example)) (map (Pair set_env_example) [Sadd [49], Sadd [49, 48], Sadd [49], Sadd [97], Smember [49, 48], Srem [49], Ssize]) {}"
    by (simp add: card_insert_if short_key_def)
  have "insert [97] {[49, 48], [49]} - {[49 :: u8]} = {[49, 48], [97]}" by auto
  then show "spec_ops set_spec (map (Pair set_env_example) [Sadd [49], Sadd [49, 48], Sadd [49], Sadd [97], Smember [49, 48], Srem [49], Ssize]) {} =
      ({[49, 48], [97]}, [S_flag True, S_flag True, S_flag False, S_flag True, S_flag True, S_flag True, S_num 2])"
    by (auto simp: Let_def insert_absorb card_insert_if)
qed

end
