(* ===== verification/Spec2Isabelle.thy ===== *)
theory Spec2Isabelle
  imports Redis_Prelude Crc Siphash Dict_Types Bytes Intset Util_Num Util_Glob Lzf Sds_Split Adlist Pubsub Zskiplist_Refine Protocol_Stream Replication_Run Hash_Refine Set_Type
begin

text \<open>
  \<^bold>\<open>Verification of the Redis 4.0 server.\<close>

  The program is the server under \<open>src/redis-4.0/src\<close>: an in-memory key value store. Commands
  arrive over a network protocol, work on a key space kept in hash tables (\<open>dict.c\<close>) whose keys are
  dynamic strings (\<open>sds.c\<close>) and whose values are encoded in one of several data structures
  (\<open>intset.c\<close>, \<open>ziplist.c\<close>, the skip lists of \<open>t_zset.c\<close> and others), and are written to disk with checksums
  (\<open>crc64.c\<close>) and compression (\<open>lzf_c.c\<close>, \<open>lzf_d.c\<close>). This development models the data structures and
  the algorithms below the commands, and proves them correct against abstract specifications.

  \<^bold>\<open>Conventions.\<close> Machine integers keep their width where the code can overflow (\<open>8 word\<close> to
  \<open>64 word\<close>) and are natural numbers or integers, with truncations written out, where it guards
  against overflow. A block of memory is a list of bytes; an access outside of it, a null or
  dangling pointer and a failed assertion are the result \<open>None\<close>, so that every theorem that an
  operation gives \<open>Some\<close> is also a memory safety theorem. Fresh memory has arbitrary contents, the
  parameter \<open>junk\<close>. Memory is never exhausted: \<open>zmalloc\<close> ends the process when it is. The target is
  LP64 and little endian. Loops that obviously end are recursive functions with a termination proof;
  the others are \<open>partial_function (option)\<close>, for which \<open>None\<close> also stands for not ending, and
  their theorems show that they end. No fuel is used.

  \<^bold>\<open>Theories.\<close>

  \<^item> \<open>Redis_Prelude\<close>: names of the machine types, words, maps that are linear over exclusive or.

  \<^item> \<open>Bytes\<close>: memory blocks, little endian integers, arrays of fixed width elements (locale
    \<open>fixed_codec\<close>, interpreted for the integers), and the byte swaps of \<open>endianconv.c\<close>.

  \<^item> \<open>Crc\<close>, \<open>Siphash\<close>: \<open>crc16.c\<close>, \<open>crc64.c\<close> and \<open>siphash.c\<close>. The table driven checksums are the bitwise
    polynomial divisions; the case insensitive hash is the hash of the lower case string.

  \<^item> \<open>Dict\<close>: the hash table of \<open>dict.c\<close> with incremental rehashing, record by record and function by
    function. \<open>Dict_Map\<close> gives the invariant and the finite map a table represents, for any callbacks
    that satisfy the locale \<open>dict_callbacks\<close>. \<open>Dict_Scan\<close> models \<open>dictScan\<close> and shows that a complete scan
    misses no key while the table grows and rehashes, that it ends, and how it misses keys when
    the table shrinks. \<open>Dict_Types\<close> holds the callbacks of \<open>server.c\<close>, interprets the locale on them and
    states the refinement: any history of operations behaves as a finite map. The callbacks pass the length of a
    key through an \<open>int\<close>, which is written out; the refinements of dictionaries, hashes and sets are about keys of less
    than 2 ^ 31 bytes (\<open>short_key\<close>), and longer keys are confused (\<open>long_keys_confused\<close>).

  \<^item> \<open>Intset\<close>: \<open>intset.c\<close> on the bytes of its block, with the upgrades of the encoding; it refines a set
    of 64 bit integers.

  \<^item> \<open>Util_Num\<close>, \<open>Util_Glob\<close>: from \<open>util.c\<close>, the conversions between 64 bit integers and decimal strings,
    which are exact inverses, and the glob matcher, which decides the language of its patterns on
    non-empty strings and reads out of bounds on two kinds of arguments.

  \<^item> \<open>Lzf\<close>: the compressor and decompressor of \<open>lzf_c.c\<close> and \<open>lzf_d.c\<close>, with every read and write checked against
    its buffer; lossless, and memory safe on corrupt input.

  \<^item> \<open>Sds\<close>, \<open>Sds_Split\<close>: the dynamic strings of \<open>sds.c\<close> and \<open>sds.h\<close> with their five headers, which refine byte
    lists under any history of operations, and the functions that split, join, quote and print.

  \<^item> \<open>Adlist\<close>: the doubly linked lists of \<open>adlist.c\<close> in a heap, which refine sequences, free every
    removed value once and leak nothing.

  \<^item> \<open>Pubsub\<close>: the subscriptions of \<open>pubsub.c\<close>, on the maps and sequences that the dictionaries and lists
    implement; the server's and the clients' records of the subscriptions agree after any
    interleaving of commands, and a message reaches exactly the subscribers.

  \<^item> \<open>Zskiplist\<close>, \<open>Zskiplist_Wf\<close>, \<open>Zskiplist_Refine\<close>: the skip lists of \<open>t_zset.c\<close> in a heap, with the spans
    that give ranks. The levels are determined by the heights of the nodes, which insertion and
    deletion preserve; any history of operations refines a sorted list (locale \<open>simulation\<close> of theory
    \<open>Simulation\<close>, the contract of an implementation with its specification over histories).

  \<^item> \<open>Ziplist\<close>: the compact lists of \<open>ziplist.c\<close> on the bytes of their block. \<open>Ziplist_Layout\<close> gives the block as
    a function of its entries and what is read from it; \<open>Ziplist_Update\<close> the cascade of updates;
    \<open>Ziplist_Edit\<close> insertion, deletion and merging; \<open>Ziplist_List\<close> positions, values and searches.
    \<open>Ziplist_Refine\<close> shows that any history of operations refines a list of strings (locale \<open>simulation\<close>).

  \<^item> \<open>Hash_Type\<close>, \<open>Hash_Refine\<close>: the hash values of \<open>t_hash.c\<close>, a ziplist or a dictionary, composed of the models
    of both and of \<open>sds.c\<close>. Any history refines a map from strings to strings, through the
    conversion of the encoding (locale \<open>simulation\<close>, on the refinements of the two encodings). \<open>Set_Type\<close>: the
    same for the set values of \<open>t_set.c\<close>, an intset or a dictionary.

  \<^item> \<open>Reply\<close>, \<open>Protocol\<close>, \<open>Protocol_Stream\<close>: from \<open>networking.c\<close>, the bytes the reply functions print and the query
    buffer of a client with its parser. Any input is handled without a failed assertion; a stream
    of well-formed requests is executed as it was sent, in whatever portions it arrives. The
    commands themselves are a parameter, the record \<open>cmd_env\<close>. For any input the parser relies on \<open>env_ok\<close>: a command that
    fails or keeps its arguments has stopped or freed the client. The stream theorem is about commands that do not disturb the
    reading of their own stream (\<open>undisturbed\<close>): none of them fails, closes or frees the client, none but the last blocks it, and on a link to a master none
    leaves it inside of MULTI. \<open>processCommand\<close> breaks this for QUIT and for blocking commands, for instance.

  \<^item> \<open>Replication\<close>: from \<open>replication.c\<close>, the replicas of a master, the backlog, PSYNC and full
    resynchronization with their snapshots, the periodic work and the change of roles; what the system answers is the
    record \<open>repl_env\<close>. \<open>Replication_Backlog\<close> shows that the circular buffer keeps the end of the stream;
    \<open>Replication_Inv\<close> and \<open>Replication_Sync\<close> that every operation keeps the invariant of the stream and its
    replicas; \<open>Replication_Run\<close> that in any history (locale \<open>invariant_machine\<close> of theory \<open>Simulation\<close>) replicas
    are sent exactly the calls they miss, which by \<open>Protocol_Stream\<close> they execute. The histories (\<open>event_ok\<close>) have calls within the limits of
    the protocol, and no PSYNC whose offset is not a number: that one leaves an error text in the stream.

  \<^bold>\<open>Defects found.\<close> \<open>dictScan\<close> on a table that starts to shrink, two out of bounds reads of
  \<open>stringmatchlen\<close>, \<open>sdsrange\<close> on strings above 2 GB, \<open>listJoin\<close> and \<open>ziplistMerge\<close> with an empty list, three ways in which
  the request parser fails well-formed requests, a master whose backlog was freed and that
  later continues from its own replica, and a PSYNC with a malformed offset, which spoils the stream of another
  replica; each is a theorem on the model.

  \<^bold>\<open>Not modelled.\<close> The event loop, sockets and output buffers, persistence files, the replica's side of replication, cluster, sentinel,
  modules, scripting and the client programs: they are input and output, or state machines over
  other processes. The quicklists, radix trees, the commands on the typed
  values, the eviction and expiry policies and the formatted printing of \<open>sds.c\<close> are within reach of
  the same methods and are the next steps of the plan. Code under \<open>deps\<close> is third-party.
\<close>

end
